(* ===== verification/Mqtt_Prelude.thy ===== *)
theory Mqtt_Prelude
  imports Main "HOL-Library.Word"
begin

text \<open>
  The vocabulary every component shares: the machine integers and byte buffers of the C code,
  the return codes of \<^verbatim>\<open>wolfmqtt/mqtt_types.h\<close>, the result type of a C call, and the
  primitive buffer accesses with their laws.

  A C function that returns a non-negative length or a negative error code becomes a function
  into \<open>'a outcome\<close>: \<open>Ok\<close> carries what the call returns and writes through its pointer
  arguments, \<open>Err\<close> the error code, and \<open>Fault\<close> stands for undefined behaviour: a read or a
  write outside the buffer it goes to.  A theorem that a call is never \<open>Fault\<close> is memory safety.
\<close>

unbundle bit_operations_syntax

section \<open>Types\<close>

type_synonym byte = "8 word"
type_synonym word16 = "16 word"
type_synonym word32 = "32 word"
type_synonym mem = "byte list"

datatype mqtt_err =
    BAD_ARG | OUT_OF_BUFFER | MALFORMED_DATA | PACKET_TYPE | PACKET_ID | TLS_CONNECT
  | TIMEOUT | NETWORK | MEMORY | STAT | PROPERTY | SERVER_PROP | CALLBACK | SYSTEM_ERR
  | NOT_FOUND | PROPERTY_MISMATCH | CONNECT_REFUSED | SUBSCRIBE_REJECTED
  | UNSUBSCRIBE_REJECTED | PUBLISH_REJECTED | CONTINUE | STDIN_WAKE | PUB_CONTINUE

fun err_code :: "mqtt_err \<Rightarrow> int" where
  "err_code BAD_ARG = -1"
| "err_code OUT_OF_BUFFER = -2"
| "err_code MALFORMED_DATA = -3"
| "err_code PACKET_TYPE = -4"
| "err_code PACKET_ID = -5"
| "err_code TLS_CONNECT = -6"
| "err_code TIMEOUT = -7"
| "err_code NETWORK = -8"
| "err_code MEMORY = -9"
| "err_code STAT = -10"
| "err_code PROPERTY = -11"
| "err_code SERVER_PROP = -12"
| "err_code CALLBACK = -13"
| "err_code SYSTEM_ERR = -14"
| "err_code NOT_FOUND = -15"
| "err_code PROPERTY_MISMATCH = -17"
| "err_code CONNECT_REFUSED = -18"
| "err_code SUBSCRIBE_REJECTED = -19"
| "err_code UNSUBSCRIBE_REJECTED = -20"
| "err_code PUBLISH_REJECTED = -21"
| "err_code CONTINUE = -101"
| "err_code STDIN_WAKE = -102"
| "err_code PUB_CONTINUE = -103"

datatype 'a outcome = Fault | Err mqtt_err | Ok 'a

text \<open>Sequencing of calls: an error or a fault ends the caller too.\<close>

primrec bnd :: "'a outcome \<Rightarrow> ('a \<Rightarrow> 'b outcome) \<Rightarrow> 'b outcome" where
  "bnd Fault f = Fault"
| "bnd (Err e) f = Err e"
| "bnd (Ok x) f = f x"

text \<open>A conversion of a C \<^verbatim>\<open>int\<close> to \<^verbatim>\<open>word32\<close>, and of a \<^verbatim>\<open>word32\<close> to \<^verbatim>\<open>int\<close>.\<close>

definition u32 :: "int \<Rightarrow> nat" where
  "u32 x = nat (x mod 2 ^ 32)"

definition s32 :: "word32 \<Rightarrow> int" where
  "s32 x = sint x"

text \<open>The range of a C \<^verbatim>\<open>int\<close>: leaving it is undefined behaviour.\<close>

definition ck_int :: "int \<Rightarrow> int outcome" where
  "ck_int x = (if - (2 ^ 31) \<le> x \<and> x < 2 ^ 31 then Ok x else Fault)"

section \<open>Buffer accesses\<close>

text \<open>Reading one byte, reading a block, writing a block (\<^verbatim>\<open>XMEMCPY\<close> or a run of stores).\<close>

definition rd :: "mem \<Rightarrow> nat \<Rightarrow> byte outcome" where
  "rd m i = (if i < length m then Ok (m ! i) else Fault)"

definition blk :: "mem \<Rightarrow> nat \<Rightarrow> nat \<Rightarrow> mem" where
  "blk m p n = take n (drop p m)"

definition rdn :: "mem \<Rightarrow> nat \<Rightarrow> nat \<Rightarrow> mem outcome" where
  "rdn m p n = (if p + n \<le> length m then Ok (blk m p n) else Fault)"

definition splice_at :: "mem \<Rightarrow> nat \<Rightarrow> mem \<Rightarrow> mem" where
  "splice_at m p bs = take p m @ bs @ drop (p + length bs) m"

definition wr :: "mem \<Rightarrow> nat \<Rightarrow> mem \<Rightarrow> mem outcome" where
  "wr m p bs = (if p + length bs \<le> length m then Ok (splice_at m p bs) else Fault)"

text \<open>The encoders take a \<^verbatim>\<open>NULL\<close> pointer to mean that only the length is wanted.\<close>

definition wr_opt :: "mem \<Rightarrow> nat option \<Rightarrow> mem \<Rightarrow> mem outcome" where
  "wr_opt m buf bs = (case buf of None \<Rightarrow> Ok m | Some p \<Rightarrow> wr m p bs)"

definition adv :: "nat option \<Rightarrow> nat \<Rightarrow> nat option" where
  "adv buf n = map_option (\<lambda>p. p + n) buf"

text \<open>C strings: the bytes of the object before its terminator, and \<^verbatim>\<open>strlen\<close>.\<close>

type_synonym cstr = "byte list"

definition XSTRLEN :: "cstr \<Rightarrow> nat" where
  "XSTRLEN s = length (takeWhile (\<lambda>b. b \<noteq> 0) s)"

definition cstr_bytes :: "cstr \<Rightarrow> byte list" where
  "cstr_bytes s = takeWhile (\<lambda>b. b \<noteq> 0) s"

section \<open>Laws\<close>

named_theorems mem_simps \<open>laws of the buffer accesses\<close>
named_theorems enc_eq \<open>an encoder equals one block write of its reference bytes\<close>
named_theorems dec_ok \<open>a decoder on the bytes its encoder writes\<close>
named_theorems no_fault \<open>calls that never leave their buffer\<close>

lemma bnd_cong [fundef_cong]:
  "m = m' \<Longrightarrow> (\<And>x. m' = Ok x \<Longrightarrow> f x = f' x) \<Longrightarrow> bnd m f = bnd m' f'"
  by (cases m') auto

lemma bnd_assoc: "bnd (bnd m f) g = bnd m (\<lambda>x. bnd (f x) g)"
  by (cases m) auto

lemma bnd_Ok_iff: "bnd m f = Ok y \<longleftrightarrow> (\<exists>x. m = Ok x \<and> f x = Ok y)"
  by (cases m) auto

lemma bnd_Fault_iff: "bnd m f = Fault \<longleftrightarrow> m = Fault \<or> (\<exists>x. m = Ok x \<and> f x = Fault)"
  by (cases m) auto

lemma bnd_Err_iff: "bnd m f = Err e \<longleftrightarrow> m = Err e \<or> (\<exists>x. m = Ok x \<and> f x = Err e)"
  by (cases m) auto

lemma bnd_if: "bnd (if c then a else b) f = (if c then bnd a f else bnd b f)"
  by simp

lemma err_code_neg: "err_code e < 0"
  by (cases e) auto

lemma err_code_inj: "err_code e = err_code e' \<Longrightarrow> e = e'"
  by (cases e; cases e') auto

lemma u32_id [simp]: "0 \<le> x \<Longrightarrow> x < 2 ^ 32 \<Longrightarrow> u32 x = nat x"
  by (simp add: u32_def)

lemma blk_length [simp]: "p + n \<le> length m \<Longrightarrow> length (blk m p n) = n"
  by (simp add: blk_def)

lemma blk_0 [simp]: "blk m p 0 = []"
  by (simp add: blk_def)

lemma blk_Suc: "p < length m \<Longrightarrow> blk m p (Suc n) = m ! p # blk m (Suc p) n"
  by (simp add: blk_def Cons_nth_drop_Suc [symmetric])

lemma blk_add: "blk m p (a + b) = blk m p a @ blk m (p + a) b"
  by (simp add: blk_def take_add add.commute)

lemma blk_nth: "i < n \<Longrightarrow> p + n \<le> length m \<Longrightarrow> blk m p n ! i = m ! (p + i)"
  by (simp add: blk_def)

lemma splice_at_length [simp]:
  "p + length bs \<le> length m \<Longrightarrow> length (splice_at m p bs) = length m"
  by (simp add: splice_at_def)

lemma splice_at_Nil [simp]: "splice_at m p [] = m"
  by (simp add: splice_at_def)

lemma blk_splice_at [simp]:
  "p + length bs \<le> length m \<Longrightarrow> blk (splice_at m p bs) p (length bs) = bs"
  by (simp add: blk_def splice_at_def)

lemma splice_at_append:
  assumes "p + length a + length b \<le> length m"
  shows "splice_at (splice_at m p a) (p + length a) b = splice_at m p (a @ b)"
  using assms by (simp add: splice_at_def add.commute add.left_commute)

lemma wr_Nil [simp]: "p \<le> length m \<Longrightarrow> wr m p [] = Ok m"
  by (simp add: wr_def)

lemma wr_append: "wr m p (a @ b) = bnd (wr m p a) (\<lambda>m'. wr m' (p + length a) b)"
  by (auto simp: wr_def splice_at_append)

lemma wr_opt_append:
  "wr_opt m buf (a @ b) = bnd (wr_opt m buf a) (\<lambda>m'. wr_opt m' (adv buf (length a)) b)"
  by (cases buf) (simp_all add: wr_opt_def adv_def wr_append)

lemma adv_add: "adv (adv buf a) b = adv buf (a + b)"
  by (cases buf) (simp_all add: adv_def)

lemma adv_0 [simp]: "adv buf 0 = buf"
  by (cases buf) (simp_all add: adv_def)

lemma adv_simps [simp]: "adv None n = None" "adv (Some p) n = Some (p + n)"
  by (simp_all add: adv_def)

lemma wr_opt_None [simp]: "wr_opt m None bs = Ok m"
  by (simp add: wr_opt_def)

lemma wr_opt_Some [simp]: "wr_opt m (Some p) bs = wr m p bs"
  by (simp add: wr_opt_def)

lemma XSTRLEN_cstr_bytes [simp]: "length (cstr_bytes s) = XSTRLEN s"
  by (simp add: XSTRLEN_def cstr_bytes_def)

lemma cstr_bytes_take: "take (XSTRLEN s) s = cstr_bytes s"
  by (simp add: XSTRLEN_def cstr_bytes_def takeWhile_eq_take [symmetric])

lemma XSTRLEN_le: "XSTRLEN s \<le> length s"
  by (simp add: XSTRLEN_def length_takeWhile_le)

lemma cstr_bytes_no_nul: "0 \<notin> set (cstr_bytes s)"
  by (auto simp: cstr_bytes_def dest: set_takeWhileD)

lemma cstr_bytes_id: "0 \<notin> set s \<Longrightarrow> cstr_bytes s = s"
  by (auto simp: cstr_bytes_def takeWhile_eq_all_conv)

text \<open>A fact about every byte follows from its 256 instances.\<close>

lemma byte_cases_256:
  assumes "list_all (\<lambda>n. P (word_of_nat n :: byte)) [0..<256]"
  shows "P b"
proof -
  have "unat b \<in> {0..<256}" using unsigned_less [of b, where 'a = nat] by simp
  then have "P (word_of_nat (unat b) :: byte)"
    using assms unfolding list_all_iff set_upt by (rule bspec [rotated])
  then show ?thesis by simp
qed

lemma unat_byte_less [simp]: "unat (b :: byte) < 256"
  using unsigned_less [of b, where 'a = nat] by simp

lemma unat_word16_less [simp]: "unat (b :: word16) < 65536"
  using unsigned_less [of b, where 'a = nat] by simp

lemma unat_word32_less [simp]: "unat (b :: word32) < 4294967296"
  using unsigned_less [of b, where 'a = nat] by simp

lemma unat_byte_of_nat: "k < 256 \<Longrightarrow> unat (word_of_nat k :: byte) = k"
  by (simp add: unat_of_nat)

lemma unat_word16_of_nat: "k < 65536 \<Longrightarrow> unat (word_of_nat k :: word16) = k"
  by (simp add: unat_of_nat)

lemma unat_word32_of_nat: "k < 4294967296 \<Longrightarrow> unat (word_of_nat k :: word32) = k"
  by (simp add: unat_of_nat)

lemma rd_ok: "i < length m \<Longrightarrow> rd m i = Ok (m ! i)"
  by (simp add: rd_def)

lemma rdn_ok: "p + n \<le> length m \<Longrightarrow> rdn m p n = Ok (blk m p n)"
  by (simp add: rdn_def)

lemma blk_2: "p + 2 \<le> length m \<Longrightarrow> blk m p 2 = [m ! p, m ! (p + 1)]"
  by (simp add: numeral_2_eq_2 blk_Suc)

lemma blk_4: "p + 4 \<le> length m \<Longrightarrow> blk m p 4 = [m ! p, m ! (p + 1), m ! (p + 2), m ! (p + 3)]"
  by (simp add: eval_nat_numeral blk_Suc)


lemma byte_eq_of_nat: "unat (b :: byte) = k \<Longrightarrow> b = word_of_nat k"
  by (simp only: word_unat_eq_iff) auto

end
