(* ===== verification/Wire_Format.thy ===== *)
theory Wire_Format
  imports Mqtt_Prelude
begin

text \<open>
  The contract every pair of a primitive encoder and decoder of \<^verbatim>\<open>src/mqtt_packet.c\<close> keeps: the
  encoder is one block write of the reference bytes of its argument, the decoder stays inside its
  buffer, consumes exactly the reference bytes of what it returns and accepts them whatever stands
  behind.  Round trip, exactness and unique decodability follow once for all formats.
\<close>

locale wire_format =
  fixes enc :: "mem \<Rightarrow> nat option \<Rightarrow> 'a \<Rightarrow> (mem \<times> nat) outcome"
    and dec :: "mem \<Rightarrow> nat \<Rightarrow> nat \<Rightarrow> ('b \<times> nat) outcome"
    and view :: "'a \<Rightarrow> 'b"
    and wire :: "'b \<Rightarrow> byte list"
    and legal :: "'b \<Rightarrow> bool"
  assumes enc_wire: "legal (view x) \<Longrightarrow>
      enc m buf x = bnd (wr_opt m buf (wire (view x))) (\<lambda>m'. Ok (m', length (wire (view x))))"
    and dec_inside: "p + n \<le> length m \<Longrightarrow> dec m p n \<noteq> Fault"
    and dec_exact: "dec m p n = Ok (v, k) \<Longrightarrow>
      legal v \<and> k = length (wire v) \<and> k \<le> n \<and> p + k \<le> length m \<and> blk m p k = wire v"
    and dec_wire: "legal v \<Longrightarrow> blk m p (length (wire v)) = wire v \<Longrightarrow> p + length (wire v) \<le> length m \<Longrightarrow>
      length (wire v) \<le> n \<Longrightarrow> dec m p n = Ok (v, length (wire v))"
begin

lemma dec_iff:
  "p + n \<le> length m \<Longrightarrow> dec m p n = Ok (v, k) \<longleftrightarrow>
     legal v \<and> k = length (wire v) \<and> k \<le> n \<and> blk m p k = wire v"
  using dec_exact [of m p n v k] dec_wire [of v m p n] by auto

lemma round_trip:
  assumes "legal (view x)" "p + length (wire (view x)) \<le> length m" "length (wire (view x)) \<le> n"
  shows "\<exists>m'. enc m (Some p) x = Ok (m', length (wire (view x))) \<and>
    dec m' p n = Ok (view x, length (wire (view x))) \<and> length m' = length m \<and>
    (\<forall>i < length m. i < p \<or> p + length (wire (view x)) \<le> i \<longrightarrow> m' ! i = m ! i)"
proof -
  let ?m = "splice_at m p (wire (view x))"
  have "enc m (Some p) x = Ok (?m, length (wire (view x)))"
    using enc_wire [OF assms(1), of m "Some p"] assms(2) by (simp add: wr_def)
  moreover have "dec ?m p n = Ok (view x, length (wire (view x)))"
    using assms by (intro dec_wire) simp_all
  ultimately show ?thesis using assms(2)
    by (intro exI [of _ ?m]) (auto simp: splice_at_def nth_append)
qed

text \<open>The length pass announces the number of bytes the write pass puts out.\<close>

lemma length_pass:
  "legal (view x) \<Longrightarrow> enc m (Some p) x = Ok (m', k) \<Longrightarrow> enc m None x = Ok (m, k)"
  using enc_wire [of x m "Some p"] enc_wire [of x m None] by (auto simp: bnd_Ok_iff)

text \<open>No encoding is a prefix of another: a stream of values splits in one way only.\<close>

lemma wire_split:
  assumes "legal v" "legal w" "wire v @ r = wire w @ s"
  shows "v = w \<and> r = s"
proof -
  let ?m = "wire v @ r"
  have "dec ?m 0 (length ?m) = Ok (v, length (wire v))"
    using assms(1) by (intro dec_wire) (simp_all add: blk_def)
  moreover have "dec ?m 0 (length ?m) = Ok (w, length (wire w))"
    using assms(2) unfolding assms(3) by (intro dec_wire) (simp_all add: blk_def)
  ultimately have "v = w" by simp
  then show ?thesis using assms(3) by simp
qed

end

end
