(* ===== verification/Mqtt_Vbi.thy ===== *)
theory Mqtt_Vbi
  imports Wire_Format
begin

text \<open>
  The Variable Byte Integer of \<^verbatim>\<open>src/mqtt_packet.c\<close>: \<^verbatim>\<open>MqttEncode_Vbi\<close> and
  \<^verbatim>\<open>MqttDecode_Vbi\<close>, each with its loop.  The encoder is one block write of the reference
  bytes \<open>vbi_bytes\<close>; the decoder stays inside its buffer and accepts exactly those byte strings,
  so no overlong encoding gets through.
\<close>

section \<open>Operations\<close>

abbreviation (input) "MQTT_PACKET_LEN_ENCODE_MASK \<equiv> 0x80"
abbreviation (input) "MQTT_PACKET_MAX_REMAIN_LEN \<equiv> 0x0FFFFFFF"

function vbi_decode_loop ::
  "mem \<Rightarrow> nat \<Rightarrow> nat \<Rightarrow> nat \<Rightarrow> word32 \<Rightarrow> word32 \<Rightarrow> (word32 \<times> nat) outcome" where
  "vbi_decode_loop m buf buf_len rc multiplier value =
     (if buf_len < rc + 1 then Err OUT_OF_BUFFER
      else if rc \<ge> 4 then Err MALFORMED_DATA
      else bnd (rd m (buf + rc)) (\<lambda>encodedByte.
        let value' = value + ucast (encodedByte AND NOT MQTT_PACKET_LEN_ENCODE_MASK) * multiplier;
            rc' = rc + 1
        in if encodedByte AND MQTT_PACKET_LEN_ENCODE_MASK \<noteq> 0
           then vbi_decode_loop m buf buf_len rc'
                  (multiplier * MQTT_PACKET_LEN_ENCODE_MASK) value'
           else if rc' > 1 \<and> encodedByte = 0 then Err MALFORMED_DATA
           else Ok (value', rc')))"
  by pat_completeness auto
termination
  by (relation "measure (\<lambda>(m, buf, buf_len, rc, mu, v). 5 - rc)") auto

definition MqttDecode_Vbi :: "mem \<Rightarrow> nat \<Rightarrow> nat \<Rightarrow> (word32 \<times> nat) outcome" where
  "MqttDecode_Vbi m buf buf_len = vbi_decode_loop m buf buf_len 0 1 0"

function vbi_encode_loop ::
  "mem \<Rightarrow> nat option \<Rightarrow> word32 \<Rightarrow> nat \<Rightarrow> (mem \<times> nat) outcome" where
  "vbi_encode_loop m buf x rc =
     (let b0 = ucast ((x AND NOT MQTT_PACKET_LEN_ENCODE_MASK) AND 0xFF) :: byte;
          x' = drop_bit 7 x;
          encodedByte = (if x' > 0 then b0 OR MQTT_PACKET_LEN_ENCODE_MASK else b0)
      in bnd (wr_opt m buf [encodedByte]) (\<lambda>m'.
           if x' > 0 \<and> rc + 1 < 4 then vbi_encode_loop m' (adv buf 1) x' (rc + 1)
           else Ok (m', rc + 1)))"
  by pat_completeness auto
termination
  by (relation "measure (\<lambda>(m, buf, x, rc). 4 - rc)") auto

definition MqttEncode_Vbi :: "mem \<Rightarrow> nat option \<Rightarrow> word32 \<Rightarrow> (mem \<times> nat) outcome" where
  "MqttEncode_Vbi m buf x =
     (if x > MQTT_PACKET_MAX_REMAIN_LEN then Err MALFORMED_DATA
      else vbi_encode_loop m buf x 0)"

section \<open>Reference bytes\<close>

text \<open>The encoding of section 1.5.5 of the standard: seven bits per byte, least significant first.\<close>

fun vbi_bytes :: "nat \<Rightarrow> byte list" where
  "vbi_bytes n = (if n < 128 then [word_of_nat n]
                  else word_of_nat (n mod 128 + 128) # vbi_bytes (n div 128))"

section \<open>Laws\<close>

declare vbi_bytes.simps [simp del] vbi_encode_loop.simps [simp del] vbi_decode_loop.simps [simp del]

lemma byte_or_80: "(b :: byte) < 0x80 \<longrightarrow> b OR 0x80 = b + 0x80"
  by (rule byte_cases_256 [where P = "\<lambda>b. b < 0x80 \<longrightarrow> b OR 0x80 = b + 0x80"]) code_simp

lemma byte_and_80: "((b :: byte) AND 0x80 = 0) = (unat b < 128)"
  by (rule byte_cases_256 [where P = "\<lambda>b. (b AND 0x80 = 0) = (unat b < 128)"]) code_simp

lemma byte_and_not_80: "unat ((b :: byte) AND NOT 0x80) = unat b mod 128"
  by (rule byte_cases_256 [where P = "\<lambda>b. unat (b AND NOT 0x80) = unat b mod 128"]) code_simp

lemma word_and_7F: "((x :: word32) AND NOT 0x80) AND 0xFF = take_bit 7 x"
proof -
  have a: "(x AND NOT (push_bit 7 1)) AND mask 8 = take_bit 7 x"
    by (rule bit_word_eqI) (auto simp: bit_simps less_Suc_eq_le simp del: push_bit_of_1)
  have m: "(0xFF :: word32) = mask 8" by (simp add: mask_eq_exp_minus_1)
  have p: "(0x80 :: word32) = push_bit 7 1" by simp
  show ?thesis unfolding m p by (rule a)
qed

lemma unat_low7:
  "unat (ucast (((x :: word32) AND NOT 0x80) AND 0xFF) :: byte) = unat x mod 128"
  unfolding word_and_7F
  by (simp add: unsigned_ucast_eq unsigned_take_bit_eq) (simp add: take_bit_eq_mod)

lemma unat_shift7: "unat (drop_bit 7 (x :: word32)) = unat x div 128"
  by (simp add: drop_bit_eq_div unat_div)

lemma shift7_pos: "(0 < drop_bit 7 (x :: word32)) = (128 \<le> unat x)"
  by (simp add: word_less_nat_alt unat_shift7 div_greater_zero_iff)

lemma vbi_bytes_small: "n < 128 \<Longrightarrow> vbi_bytes n = [word_of_nat n]"
  by (simp add: vbi_bytes.simps)

lemma vbi_bytes_big:
  "128 \<le> n \<Longrightarrow> vbi_bytes n = word_of_nat (n mod 128 + 128) # vbi_bytes (n div 128)"
  by (simp add: vbi_bytes.simps [of n])

lemma vbi_bytes_nonempty [simp]: "vbi_bytes n \<noteq> []" "0 < length (vbi_bytes n)"
  by (simp_all add: vbi_bytes.simps [of n])

lemma vbi_bytes_length: "n < 128 ^ Suc k \<Longrightarrow> length (vbi_bytes n) \<le> Suc k"
proof (induction k arbitrary: n)
  case 0
  then show ?case by (simp add: vbi_bytes_small)
next
  case (Suc k)
  show ?case
  proof (cases "n < 128")
    case True
    then show ?thesis by (simp add: vbi_bytes_small)
  next
    case False
    from Suc.prems have "n div 128 < 128 ^ Suc k" by (simp add: div_less_iff_less_mult mult.commute)
    with Suc.IH False show ?thesis by (simp add: vbi_bytes_big)
  qed
qed

lemma vbi_bytes_length_4: "n \<le> 0x0FFFFFFF \<Longrightarrow> length (vbi_bytes n) \<le> 4"
  using vbi_bytes_length [of n 3] by simp

lemma vbi_first_byte:
  "(if drop_bit 7 x > 0 then (ucast ((x AND NOT 0x80) AND 0xFF) :: byte) OR 0x80
    else ucast ((x AND NOT 0x80) AND 0xFF)) = hd (vbi_bytes (unat (x :: word32)))"
proof -
  let ?b = "ucast ((x AND NOT 0x80) AND 0xFF) :: byte"
  have u: "unat ?b = unat x mod 128" by (rule unat_low7)
  then have lt: "?b < 0x80" by (simp add: word_less_nat_alt)
  have b: "?b = word_of_nat (unat x mod 128)"
    by (simp only: u [symmetric] word_unat_eq_iff) simp
  show ?thesis
  proof (cases "128 \<le> unat x")
    case True
    then show ?thesis using byte_or_80 lt b by (simp add: shift7_pos vbi_bytes_big)
  next
    case False
    then show ?thesis using b by (simp add: shift7_pos vbi_bytes_small)
  qed
qed

lemma vbi_encode_loop_eq:
  "rc < 4 \<Longrightarrow> unat x < 128 ^ (4 - rc) \<Longrightarrow>
   vbi_encode_loop m buf x rc =
     bnd (wr_opt m buf (vbi_bytes (unat x))) (\<lambda>m'. Ok (m', rc + length (vbi_bytes (unat x))))"
proof (induction "4 - rc" arbitrary: m buf x rc rule: less_induct)
  case less
  let ?h = "hd (vbi_bytes (unat x))"
  show ?case
  proof (cases "128 \<le> unat x")
    case True
    have rc: "rc + 1 < 4"
    proof (rule ccontr)
      assume "\<not> rc + 1 < 4"
      with less.prems have "4 - rc = 1" by simp
      with less.prems True show False by simp
    qed
    then have "4 - rc = Suc (4 - (rc + 1))" by simp
    with less.prems have lt: "unat (drop_bit 7 x) < 128 ^ (4 - (rc + 1))"
      by (simp add: unat_shift7 div_less_iff_less_mult mult.commute)
    have e: "vbi_bytes (unat x) = [?h] @ vbi_bytes (unat (drop_bit 7 x))"
      using True by (simp add: vbi_bytes_big unat_shift7)
    have w: "wr_opt m buf (vbi_bytes (unat x)) =
        bnd (wr_opt m buf [?h]) (\<lambda>m'. wr_opt m' (adv buf 1) (vbi_bytes (unat (drop_bit 7 x))))"
      using wr_opt_append [of m buf "[?h]" "vbi_bytes (unat (drop_bit 7 x))", folded e] by simp
    have l: "length (vbi_bytes (unat x)) = 1 + length (vbi_bytes (unat (drop_bit 7 x)))"
      using True by (simp add: vbi_bytes_big unat_shift7)
    have "vbi_encode_loop m buf x rc = bnd (wr_opt m buf [?h]) (\<lambda>m'.
       vbi_encode_loop m' (adv buf 1) (drop_bit 7 x) (rc + 1))"
      unfolding vbi_encode_loop.simps [of m buf x rc] Let_def vbi_first_byte
      using True rc by (simp add: shift7_pos)
    also have "\<dots> = bnd (wr_opt m buf [?h]) (\<lambda>m'.
       bnd (wr_opt m' (adv buf 1) (vbi_bytes (unat (drop_bit 7 x))))
         (\<lambda>m'. Ok (m', rc + 1 + length (vbi_bytes (unat (drop_bit 7 x))))))"
      using less.hyps [of "rc + 1"] rc lt by (intro bnd_cong refl) simp
    finally show ?thesis unfolding w l by (simp add: bnd_assoc)
  next
    case False
    then have s: "[?h] = vbi_bytes (unat x)" and l: "length (vbi_bytes (unat x)) = 1"
      by (simp_all add: vbi_bytes_small)
    have "vbi_encode_loop m buf x rc = bnd (wr_opt m buf [?h]) (\<lambda>m'. Ok (m', rc + 1))"
      unfolding vbi_encode_loop.simps [of m buf x rc] Let_def vbi_first_byte
      using False by (simp add: shift7_pos)
    then show ?thesis by (simp only: s l)
  qed
qed

lemma MqttEncode_Vbi_eq [enc_eq]:
  "MqttEncode_Vbi m buf x =
     (if unat x > 0x0FFFFFFF then Err MALFORMED_DATA
      else bnd (wr_opt m buf (vbi_bytes (unat x))) (\<lambda>m'. Ok (m', length (vbi_bytes (unat x)))))"
  using vbi_encode_loop_eq [of 0 x m buf] by (simp add: MqttEncode_Vbi_def word_less_nat_alt)

lemma ucast_low7: "(ucast (b AND NOT 0x80 :: byte) :: word32) = word_of_nat (unat b mod 128)"
  by (simp only: byte_and_not_80 [symmetric]) (simp add: unsigned_ucast_eq word_unat_eq_iff)

lemma vbi_decode_loop_step:
  assumes "buf + rc < length m" "rc < 4" "rc < buf_len"
  shows "vbi_decode_loop m buf buf_len rc mu v =
    (let b = m ! (buf + rc) in
     if 128 \<le> unat b
     then vbi_decode_loop m buf buf_len (rc + 1) (mu * 0x80) (v + mu * word_of_nat (unat b mod 128))
     else if 0 < rc \<and> b = 0 then Err MALFORMED_DATA
     else Ok (v + mu * word_of_nat (unat b), rc + 1))"
  using assms
  by (subst vbi_decode_loop.simps)
    (simp add: rd_def Let_def byte_and_80 ucast_low7 [simplified] not_less mult.commute)

lemma vbi_decode_loop_Ok_cases:
  assumes "vbi_decode_loop m buf buf_len rc mu v = Ok r"
  shows "buf + rc < length m \<and> rc < 4 \<and> rc < buf_len"
  using assms by (subst (asm) vbi_decode_loop.simps) (auto simp: rd_def bnd_Ok_iff split: if_splits)

lemma vbi_decode_loop_no_fault:
  "buf + buf_len \<le> length m \<Longrightarrow> vbi_decode_loop m buf buf_len rc mu v \<noteq> Fault"
proof (induction m buf buf_len rc mu v rule: vbi_decode_loop.induct)
  case (1 m buf buf_len rc mu v)
  then show ?case
    by (subst vbi_decode_loop.simps) (auto simp: rd_def Let_def)
qed

lemma vbi_cons:
  assumes "128 \<le> unat (b::byte)" "0 < n"
  shows "vbi_bytes (unat b mod 128 + 128 * n) = b # vbi_bytes n"
proof -
  have "unat b - 128 < 128" using unat_byte_less [of b] by linarith
  then have "unat b = unat b mod 128 + 128" using assms(1) by (simp add: le_mod_geq)
  then have "word_of_nat (unat b mod 128 + 128) = (word_of_nat (unat b) :: byte)" by (rule arg_cong [OF sym])
  then have "word_of_nat (unat b mod 128 + 128) = b" by (simp only: word_unat_eq_iff) simp
  with assms show ?thesis by (simp add: vbi_bytes_big)
qed

lemma vbi_decode_loop_sound:
  "vbi_decode_loop m buf buf_len rc mu v = Ok (v', k) \<Longrightarrow>
   \<exists>n. v' = v + mu * word_of_nat n \<and> k = rc + length (vbi_bytes n) \<and> k \<le> 4 \<and> k \<le> buf_len \<and>
       buf + k \<le> length m \<and> blk m (buf + rc) (length (vbi_bytes n)) = vbi_bytes n \<and>
       (0 < rc \<longrightarrow> 0 < n) \<and> n < 128 ^ (4 - rc)"
proof (induction "4 - rc" arbitrary: rc mu v rule: less_induct)
  case less
  let ?b = "m ! (buf + rc)"
  have r: "buf + rc < length m" "rc < 4" "rc < buf_len"
    using vbi_decode_loop_Ok_cases [OF less.prems] by auto
  show ?case
  proof (cases "128 \<le> unat ?b")
    case False
    have p: "128 ^ (4 - rc) \<ge> (128 :: nat)" using r power_increasing [of 1 "4 - rc" "128::nat"] by simp
    from False less.prems r have "v' = v + mu * word_of_nat (unat ?b)" "k = rc + 1" "0 < rc \<longrightarrow> ?b \<noteq> 0"
      by (auto simp: vbi_decode_loop_step Let_def split: if_splits)
    with False r p show ?thesis
      by (intro exI [of _ "unat ?b"]) (auto simp: vbi_bytes_small blk_Suc unat_gt_0)
  next
    case True
    have d: "4 - (rc + 1) < 4 - rc" using r by simp
    from True less.prems r have step:
      "vbi_decode_loop m buf buf_len (rc + 1) (mu * 0x80) (v + mu * word_of_nat (unat ?b mod 128)) = Ok (v', k)"
      by (simp add: vbi_decode_loop_step Let_def)
    from less.hyps [OF d step] obtain n where n:
      "v' = v + mu * word_of_nat (unat ?b mod 128) + mu * 0x80 * word_of_nat n"
      "k = rc + 1 + length (vbi_bytes n)" "k \<le> 4" "k \<le> buf_len" "buf + k \<le> length m"
      "blk m (buf + (rc + 1)) (length (vbi_bytes n)) = vbi_bytes n" "0 < n" "n < 128 ^ (4 - (rc + 1))"
      by auto
    let ?n = "unat ?b mod 128 + 128 * n"
    have e: "vbi_bytes ?n = ?b # vbi_bytes n" using True n(7) by (rule vbi_cons)
    have "128 ^ (4 - rc) = (128 :: nat) * 128 ^ (4 - (rc + 1))"
      using r by (simp flip: power_Suc add: Suc_diff_Suc)
    then have "?n < 128 ^ (4 - rc)" using n(8) by simp
    with n e r show ?thesis
      by (intro exI [of _ ?n]) (auto simp: blk_Suc algebra_simps)
  qed
qed

lemma vbi_decode_loop_complete:
  "\<lbrakk>blk m (buf + rc) (length (vbi_bytes n)) = vbi_bytes n; buf + rc + length (vbi_bytes n) \<le> length m;
    rc + length (vbi_bytes n) \<le> 4; rc + length (vbi_bytes n) \<le> buf_len; 0 < rc \<longrightarrow> 0 < n\<rbrakk> \<Longrightarrow>
   vbi_decode_loop m buf buf_len rc mu v = Ok (v + mu * word_of_nat n, rc + length (vbi_bytes n))"
proof (induction "4 - rc" arbitrary: rc mu v n rule: less_induct)
  case less
  have l: "0 < length (vbi_bytes n)" by simp
  with less.prems have r: "buf + rc < length m" "rc < 4" "rc < buf_len" by linarith+
  let ?b = "m ! (buf + rc)"
  have s: "blk m (buf + rc) (length (vbi_bytes n)) = ?b # blk m (Suc (buf + rc)) (length (vbi_bytes n) - 1)"
    using blk_Suc [OF r(1), of "length (vbi_bytes n) - 1"] l by simp
  show ?case
  proof (cases "n < 128")
    case True
    with s less.prems(1) have b: "?b = word_of_nat n" by (simp add: vbi_bytes_small)
    then have u: "unat ?b = n" using True by (simp add: unat_of_nat)
    with less.prems True r show ?thesis
      by (auto simp: vbi_decode_loop_step Let_def vbi_bytes_small)
  next
    case False
    have e: "vbi_bytes n = word_of_nat (n mod 128 + 128) # vbi_bytes (n div 128)" using False by (simp add: vbi_bytes_big)
    with s less.prems(1) have b: "?b = word_of_nat (n mod 128 + 128)"
      and t: "blk m (buf + (rc + 1)) (length (vbi_bytes (n div 128))) = vbi_bytes (n div 128)" by auto
    have u: "unat ?b = n mod 128 + 128" unfolding b by (rule unat_byte_of_nat) simp
    then have um: "unat ?b mod 128 = n mod 128" by simp
    have "vbi_decode_loop m buf buf_len (rc + 1) (mu * 0x80) (v + mu * word_of_nat (n mod 128)) =
       Ok (v + mu * word_of_nat (n mod 128) + mu * 0x80 * word_of_nat (n div 128), rc + 1 + length (vbi_bytes (n div 128)))"
      using less.prems t e r False by (intro less.hyps) auto
    moreover have "mu * word_of_nat n = mu * word_of_nat (n mod 128) + mu * 0x80 * word_of_nat (n div 128)"
    proof -
      have "(word_of_nat n :: word32) = word_of_nat (n mod 128 + 128 * (n div 128))" by simp
      also have "\<dots> = word_of_nat (n mod 128) + 0x80 * word_of_nat (n div 128)" by (simp only: of_nat_add of_nat_mult of_nat_numeral)
      finally show ?thesis by (simp add: algebra_simps)
    qed
    ultimately show ?thesis using r e u um by (simp add: vbi_decode_loop_step Let_def add.assoc)
  qed
qed

lemma MqttDecode_Vbi_no_fault [no_fault]:
  "buf + buf_len \<le> length m \<Longrightarrow> MqttDecode_Vbi m buf buf_len \<noteq> Fault"
  by (simp add: MqttDecode_Vbi_def vbi_decode_loop_no_fault)

lemma MqttDecode_Vbi_sound:
  assumes "MqttDecode_Vbi m buf buf_len = Ok (v, k)"
  shows "blk m buf k = vbi_bytes (unat v)" "k = length (vbi_bytes (unat v))"
    "0 < k" "k \<le> 4" "k \<le> buf_len" "buf + k \<le> length m" "unat v \<le> 0x0FFFFFFF"
proof -
  from vbi_decode_loop_sound [OF assms [unfolded MqttDecode_Vbi_def]] obtain n where n:
    "v = word_of_nat n" "k = length (vbi_bytes n)" "k \<le> 4" "k \<le> buf_len" "buf + k \<le> length m"
    "blk m buf k = vbi_bytes n" "n < 128 ^ 4"
    by auto
  from n(7) have "unat v = n" unfolding n(1) by (intro unat_word32_of_nat) simp
  with n show "blk m buf k = vbi_bytes (unat v)" "k = length (vbi_bytes (unat v))"
    "0 < k" "k \<le> 4" "k \<le> buf_len" "buf + k \<le> length m" "unat v \<le> 0x0FFFFFFF"
    by auto
qed

lemma MqttDecode_Vbi_complete [dec_ok]:
  assumes "blk m buf (length (vbi_bytes n)) = vbi_bytes n"
    and "buf + length (vbi_bytes n) \<le> length m"
    and "length (vbi_bytes n) \<le> buf_len" "n \<le> 0x0FFFFFFF"
  shows "MqttDecode_Vbi m buf buf_len = Ok (word_of_nat n, length (vbi_bytes n))"
  using vbi_decode_loop_complete [of m buf 0 n buf_len 1 0] assms vbi_bytes_length_4 [of n]
  by (simp add: MqttDecode_Vbi_def)

lemma vbi_bytes_inj: "n \<le> 0x0FFFFFFF \<Longrightarrow> n' \<le> 0x0FFFFFFF \<Longrightarrow> vbi_bytes n = vbi_bytes n' \<Longrightarrow> n = n'"
proof -
  assume a: "n \<le> 0x0FFFFFFF" "n' \<le> 0x0FFFFFFF" "vbi_bytes n = vbi_bytes n'"
  have "MqttDecode_Vbi (vbi_bytes n) 0 4 = Ok (word_of_nat n, length (vbi_bytes n))"
    using a vbi_bytes_length_4 by (intro MqttDecode_Vbi_complete) (simp_all add: blk_def)
  moreover have "MqttDecode_Vbi (vbi_bytes n') 0 4 = Ok (word_of_nat n', length (vbi_bytes n'))"
    using a vbi_bytes_length_4 by (intro MqttDecode_Vbi_complete) (simp_all add: blk_def)
  ultimately have "(word_of_nat n :: word32) = word_of_nat n'" using a by simp
  then have "unat (word_of_nat n :: word32) = unat (word_of_nat n' :: word32)" by simp
  then show "n = n'" using a by (simp add: unat_word32_of_nat)
qed

section \<open>The Variable Byte Integer as a wire format\<close>

interpretation vbi: wire_format MqttEncode_Vbi MqttDecode_Vbi id "\<lambda>v. vbi_bytes (unat v)" "\<lambda>v. unat v \<le> 0x0FFFFFFF"
proof (unfold_locales, goal_cases)
  case (1 x m buf)
  then show ?case by (simp add: MqttEncode_Vbi_eq)
next
  case (2 p n m)
  then show ?case by (rule MqttDecode_Vbi_no_fault)
next
  case (3 m p n v k)
  then show ?case using MqttDecode_Vbi_sound [OF 3] by simp
next
  case (4 v m p n)
  then show ?case using MqttDecode_Vbi_complete [of m p "unat v" n] by simp
qed

text \<open>C35: \<^verbatim>\<open>MqttDecode_Vbi\<close> accepts exactly the shortest encodings of the values up to 268435455 that lie
  inside the buffer: an overlong encoding, a fifth byte or a truncated one is refused.\<close>

theorem vbi_decode_canonical:
  assumes "buf + buf_len \<le> length m"
  shows "MqttDecode_Vbi m buf buf_len = Ok (v, k) \<longleftrightarrow>
    unat v \<le> 268435455 \<and> k = length (vbi_bytes (unat v)) \<and> k \<le> buf_len \<and> blk m buf k = vbi_bytes (unat v)"
  using vbi.dec_iff [OF assms] by simp

theorem vbi_decode_canonical_witness:
  "MqttDecode_Vbi [0x80, 0x01, 0x7F] 0 3 = Ok (128, 2) \<and> MqttDecode_Vbi [0x80, 0x00, 0x7F] 0 3 \<noteq> Ok (0, 2)"
  using vbi_decode_canonical [of 0 3 "[0x80, 0x01, 0x7F]" 128 2]
     vbi_decode_canonical [of 0 3 "[0x80, 0x00, 0x7F]" 0 2]
  by (simp add: blk_def vbi_bytes.simps)

text \<open>A value up to 268435455 that \<^verbatim>\<open>MqttEncode_Vbi\<close> writes is what \<^verbatim>\<open>MqttDecode_Vbi\<close> reads back,
  in the same number of bytes, at most four; the length pass with a \<^verbatim>\<open>NULL\<close> buffer announces that
  number, and no byte outside those is changed.\<close>

theorem vbi_round_trip:
  assumes "unat x \<le> 268435455" "p + 4 \<le> length m"
  shows "\<exists>m' k. MqttEncode_Vbi m (Some p) x = Ok (m', k) \<and> k \<le> 4 \<and> MqttEncode_Vbi m None x = Ok (m, k) \<and>
    MqttDecode_Vbi m' p k = Ok (x, k) \<and> (\<forall>i < length m. i < p \<or> p + k \<le> i \<longrightarrow> m' ! i = m ! i)"
proof -
  have l: "length (vbi_bytes (unat x)) \<le> 4" using assms(1) by (intro vbi_bytes_length_4)
  with vbi.round_trip [of x p m "length (vbi_bytes (unat x))"] assms obtain m' where
    m': "MqttEncode_Vbi m (Some p) x = Ok (m', length (vbi_bytes (unat x)))"
    "MqttDecode_Vbi m' p (length (vbi_bytes (unat x))) = Ok (x, length (vbi_bytes (unat x)))"
    "\<forall>i < length m. i < p \<or> p + length (vbi_bytes (unat x)) \<le> i \<longrightarrow> m' ! i = m ! i" by auto
  moreover have "MqttEncode_Vbi m None x = Ok (m, length (vbi_bytes (unat x)))"
    using vbi.length_pass [OF _ m'(1)] assms(1) by simp
  ultimately show ?thesis using l by blast
qed

theorem vbi_round_trip_witness:
  "\<exists>m' k. MqttEncode_Vbi [9, 9, 9, 9, 9] (Some 1) 16384 = Ok (m', k) \<and> k \<le> 4 \<and>
     MqttEncode_Vbi [9, 9, 9, 9, 9] None 16384 = Ok ([9, 9, 9, 9, 9], k) \<and> MqttDecode_Vbi m' 1 k = Ok (16384, k)"
proof -
  have a: "unat (16384 :: word32) \<le> 268435455" "1 + 4 \<le> length [9, 9, 9, 9, 9 :: byte]" by simp_all
  from vbi_round_trip [OF a] show ?thesis by blast
qed

end
