(* ===== verification/Mqtt_Utf8.thy ===== *)
theory Mqtt_Utf8
  imports Mqtt_Prelude
begin

text \<open>
  \<^verbatim>\<open>Utf8WellFormed\<close> of \<^verbatim>\<open>src/mqtt_packet.c\<close>: the scan over a buffer, the byte table of RFC 3629
  as a recursion over the string, and the encoding of a code point.  The scan computes the table,
  and the table accepts exactly the concatenations of encodings of non-zero Unicode scalar values.
\<close>

section \<open>Operations\<close>

text \<open>\<open>s\<close> is an offset into the buffer \<open>m\<close>; the scan of \<^verbatim>\<open>s[0 .. len-1]\<close> is at index \<open>i\<close>.\<close>

function utf8_loop :: "mem \<Rightarrow> nat \<Rightarrow> nat \<Rightarrow> nat \<Rightarrow> bool outcome" where
  "utf8_loop m s len i =
     (if i < len then
        bnd (rd m (s + i)) (\<lambda>b0.
          if b0 = 0 then Ok False
          else if b0 < 0x80 then utf8_loop m s len (i + 1)
          else if b0 < 0xC2 \<or> b0 > 0xF4 then Ok False
          else if b0 < 0xE0 then
            (if i + 1 \<ge> len then Ok False
             else bnd (rd m (s + i + 1)) (\<lambda>b1.
               if b1 AND 0xC0 \<noteq> 0x80 then Ok False
               else utf8_loop m s len (i + 2)))
          else if b0 < 0xF0 then
            (if i + 2 \<ge> len then Ok False
             else bnd (rd m (s + i + 1)) (\<lambda>b1. bnd (rd m (s + i + 2)) (\<lambda>b2.
               if b1 AND 0xC0 \<noteq> 0x80 \<or> b2 AND 0xC0 \<noteq> 0x80 then Ok False
               else if b0 = 0xE0 \<and> b1 < 0xA0 then Ok False
               else if b0 = 0xED \<and> b1 \<ge> 0xA0 then Ok False
               else utf8_loop m s len (i + 3))))
          else
            (if i + 3 \<ge> len then Ok False
             else bnd (rd m (s + i + 1)) (\<lambda>b1. bnd (rd m (s + i + 2)) (\<lambda>b2.
                  bnd (rd m (s + i + 3)) (\<lambda>b3.
               if b1 AND 0xC0 \<noteq> 0x80 \<or> b2 AND 0xC0 \<noteq> 0x80 \<or> b3 AND 0xC0 \<noteq> 0x80
               then Ok False
               else if b0 = 0xF0 \<and> b1 < 0x90 then Ok False
               else if b0 = 0xF4 \<and> b1 \<ge> 0x90 then Ok False
               else utf8_loop m s len (i + 4))))))
      else Ok True)"
  by pat_completeness auto
termination
  by (relation "measure (\<lambda>(m, s, len, i). len - i)") auto

definition Utf8WellFormed :: "mem \<Rightarrow> nat \<Rightarrow> nat \<Rightarrow> bool outcome" where
  "Utf8WellFormed m s len = utf8_loop m s len 0"

section \<open>Reference definitions\<close>

text \<open>The byte table of RFC 3629 as a recursion over the string, and the encoding it inverts.\<close>

definition utf8_cont :: "byte \<Rightarrow> bool" where
  "utf8_cont b \<longleftrightarrow> 0x80 \<le> b \<and> b < 0xC0"

fun utf8_ok :: "byte list \<Rightarrow> bool" where
  "utf8_ok [] = True"
| "utf8_ok (b0 # bs) =
     (if b0 = 0 then False
      else if b0 < 0x80 then utf8_ok bs
      else if b0 < 0xC2 \<or> b0 > 0xF4 then False
      else if b0 < 0xE0 then
        (case bs of b1 # r \<Rightarrow> utf8_cont b1 \<and> utf8_ok r | _ \<Rightarrow> False)
      else if b0 < 0xF0 then
        (case bs of b1 # b2 # r \<Rightarrow>
           utf8_cont b1 \<and> utf8_cont b2 \<and> \<not> (b0 = 0xE0 \<and> b1 < 0xA0) \<and>
           \<not> (b0 = 0xED \<and> b1 \<ge> 0xA0) \<and> utf8_ok r
         | _ \<Rightarrow> False)
      else
        (case bs of b1 # b2 # b3 # r \<Rightarrow>
           utf8_cont b1 \<and> utf8_cont b2 \<and> utf8_cont b3 \<and> \<not> (b0 = 0xF0 \<and> b1 < 0x90) \<and>
           \<not> (b0 = 0xF4 \<and> b1 \<ge> 0x90) \<and> utf8_ok r
         | _ \<Rightarrow> False))"

definition unicode_scalar :: "nat \<Rightarrow> bool" where
  "unicode_scalar c \<longleftrightarrow> 0 < c \<and> c \<le> 0x10FFFF \<and> \<not> (0xD800 \<le> c \<and> c \<le> 0xDFFF)"

definition utf8_encode :: "nat \<Rightarrow> byte list" where
  "utf8_encode c =
     (if c < 0x80 then [word_of_nat c]
      else if c < 0x800 then [word_of_nat (0xC0 + c div 64), word_of_nat (0x80 + c mod 64)]
      else if c < 0x10000 then
        [word_of_nat (0xE0 + c div 4096), word_of_nat (0x80 + c div 64 mod 64),
         word_of_nat (0x80 + c mod 64)]
      else [word_of_nat (0xF0 + c div 262144), word_of_nat (0x80 + c div 4096 mod 64),
            word_of_nat (0x80 + c div 64 mod 64), word_of_nat (0x80 + c mod 64)])"

section \<open>The scan computes the table\<close>

declare utf8_loop.simps [simp del] utf8_ok.simps(2) [simp del]

lemma byte_and_C0: "((b :: byte) AND 0xC0 = 0x80) = utf8_cont b"
  unfolding utf8_cont_def
  by (rule byte_cases_256 [where P = "\<lambda>b. (b AND 0xC0 = 0x80) = (0x80 \<le> b \<and> b < 0xC0)"])
    code_simp

lemma blk_tail:
  "i < len \<Longrightarrow> s + len \<le> length m \<Longrightarrow>
   blk m (s + i) (len - i) = m ! (s + i) # blk m (s + (i + 1)) (len - (i + 1))"
  using blk_Suc [of "s + i" m "len - (i + 1)"] by (simp add: Suc_diff_Suc)

lemma blk_end: "len \<le> i \<Longrightarrow> blk m (s + i) (len - i) = []"
  by (simp add: blk_def)

lemma utf8_loop_eq:
  "s + len \<le> length m \<Longrightarrow> utf8_loop m s len i = Ok (utf8_ok (blk m (s + i) (len - i)))"
proof (induction "len - i" arbitrary: i rule: less_induct)
  case less
  define T where "T k = blk m (s + (i + k)) (len - (i + k))" for k
  define B where "B k = m ! (s + (i + k))" for k
  have T0: "blk m (s + i) (len - i) = T 0" by (simp add: T_def)
  have st: "T k = B k # T (k + 1)" if "i + k < len" for k
    unfolding T_def B_def using blk_tail [OF that less.prems] by (simp only: add.assoc)
  have en: "T k = []" if "\<not> i + k < len" for k
    unfolding T_def using that by (intro blk_end) simp
  have rk: "rd m (s + i + k) = Ok (B k)" if "i + k < len" for k
    unfolding B_def using that less.prems by (simp add: rd_ok add.assoc)
  show ?case
  proof (cases "i < len")
    case False
    then show ?thesis by (subst utf8_loop.simps) (simp add: blk_end)
  next
    case True
    have IH: "utf8_loop m s len (i + k) = Ok (utf8_ok (T k))" if "0 < k" for k
      unfolding T_def using that True less.prems by (intro less.hyps) auto
    have t0: "T 0 = B 0 # T 1" and r0: "rd m (s + i) = Ok (B 0)"
      using st [of 0] rk [of 0] True by simp_all
    note unf = utf8_loop.simps [of m s len i] T0 t0 utf8_ok.simps(2) r0 bnd.simps
    consider "\<not> i + 1 < len" | "i + 1 < len" "\<not> i + 2 < len" | "i + 2 < len" "\<not> i + 3 < len" | "i + 3 < len"
      by linarith
    then show ?thesis
    proof cases
      case 1
      then show ?thesis unfolding unf using True IH [of 1] en [of 1] by (simp add: byte_and_C0)
    next
      case 2
      then have t: "T 1 = [B 1]" using st [of 1, unfolded one_add_one] en [of 2] by simp
      show ?thesis unfolding unf unfolding t using 2 True IH [of 1] IH [of 2] rk [of 1] en [of 2]
        by (simp add: byte_and_C0 t del: One_nat_def)
    next
      case 3
      then have t: "T 1 = [B 1, B 2]" using st [of 1, unfolded one_add_one] st [of 2] en [of 3] by simp
      show ?thesis unfolding unf unfolding t using 3 True IH [of 1] IH [of 2] IH [of 3] rk [of 1] rk [of 2] en [of 3] st [of 2]
        by (simp add: byte_and_C0 t del: One_nat_def)
    next
      case 4
      then have t: "T 1 = B 1 # T 2" "T 2 = B 2 # T 3" "T 3 = B 3 # T 4"
        using st [of 1, unfolded one_add_one] st [of 2] st [of 3] by simp_all
      show ?thesis unfolding unf unfolding t
        using 4 True IH [of 1] IH [of 2] IH [of 3] IH [of 4] rk [of 1] rk [of 2] rk [of 3]
        by (simp add: byte_and_C0 t del: One_nat_def)
    qed
  qed
qed

lemma Utf8WellFormed_eq:
  "s + len \<le> length m \<Longrightarrow> Utf8WellFormed m s len = Ok (utf8_ok (blk m s len))"
  using utf8_loop_eq [of s len m 0] by (simp add: Utf8WellFormed_def)

section \<open>The table is the encoding\<close>

lemma byte_le_nat: "(a :: byte) \<le> b \<longleftrightarrow> unat a \<le> unat b" "a < b \<longleftrightarrow> unat a < unat b"
  by (simp_all add: word_le_nat_alt word_less_nat_alt)

lemma base64_digits:
  fixes a b c d :: nat
  assumes "b < 64" "c < 64" "d < 64"
  shows "(a * 64 + b) div 64 = a" "(a * 64 + b) mod 64 = b"
    "(a * 4096 + b * 64 + c) div 4096 = a" "(a * 4096 + b * 64 + c) div 64 mod 64 = b"
    "(a * 4096 + b * 64 + c) mod 64 = c"
    "(a * 262144 + b * 4096 + c * 64 + d) div 262144 = a"
    "(a * 262144 + b * 4096 + c * 64 + d) div 4096 mod 64 = b"
    "(a * 262144 + b * 4096 + c * 64 + d) div 64 mod 64 = c"
    "(a * 262144 + b * 4096 + c * 64 + d) mod 64 = d"
proof -
  have two: "(x * 64 + y) div 64 = x" "(x * 64 + y) mod 64 = y" if "y < 64" for x y :: nat
    using that by simp_all
  have e3: "a * 4096 + b * 64 + c = (a * 64 + b) * 64 + c" by simp
  have e4: "a * 262144 + b * 4096 + c * 64 + d = ((a * 64 + b) * 64 + c) * 64 + d" by simp
  have q: "(x :: nat) div 4096 = x div 64 div 64" "x div 262144 = x div 64 div 64 div 64" for x
    by (simp_all add: div_mult2_eq [symmetric])
  show "(a * 64 + b) div 64 = a" "(a * 64 + b) mod 64 = b"
    "(a * 4096 + b * 64 + c) div 4096 = a" "(a * 4096 + b * 64 + c) div 64 mod 64 = b"
    "(a * 4096 + b * 64 + c) mod 64 = c"
    "(a * 262144 + b * 4096 + c * 64 + d) div 262144 = a"
    "(a * 262144 + b * 4096 + c * 64 + d) div 4096 mod 64 = b"
    "(a * 262144 + b * 4096 + c * 64 + d) div 64 mod 64 = c"
    "(a * 262144 + b * 4096 + c * 64 + d) mod 64 = d"
    using assms by (simp_all only: e3 e4 q two)
qed

lemma unat_cont: "utf8_cont b \<longleftrightarrow> 128 \<le> unat b \<and> unat b < 192"
  by (simp add: utf8_cont_def byte_le_nat)

lemma utf8_ok_encode:
  assumes "unicode_scalar c"
  shows "utf8_ok (utf8_encode c @ r) = utf8_ok r"
proof -
  from assms have c: "0 < c" "c \<le> 0x10FFFF" "\<not> (0xD800 \<le> c \<and> c \<le> 0xDFFF)" by (auto simp: unicode_scalar_def)
  let ?u = "\<lambda>k. unat (word_of_nat k :: byte)"
  consider "c < 0x80" | "0x80 \<le> c" "c < 0x800" | "0x800 \<le> c" "c < 0x10000" | "0x10000 \<le> c" by linarith
  then show ?thesis
  proof cases
    case 1
    then have "?u c = c" by (intro unat_byte_of_nat) simp
    with 1 c show ?thesis by (simp add: utf8_encode_def utf8_ok.simps(2) byte_le_nat word_unat_eq_iff)
  next
    case 2
    then have d: "2 \<le> c div 64" "c div 64 < 32" by (simp_all add: div_less_iff_less_mult less_eq_div_iff_mult_less_eq)
    have "c mod 64 < 64" by simp
    with d have "?u (192 + c div 64) = 192 + c div 64" "?u (128 + c mod 64) = 128 + c mod 64"
      by (intro unat_byte_of_nat; linarith)+
    with 2 c d show ?thesis
      by (simp add: utf8_encode_def utf8_ok.simps(2) byte_le_nat word_unat_eq_iff unat_cont del: of_nat_add)
  next
    case 3
    then have d: "c div 4096 < 16" by (simp add: div_less_iff_less_mult)
    have m: "c mod 64 < 64" "c div 64 mod 64 < 64" by simp_all
    have q: "c div 4096 = c div 64 div 64" by (simp add: div_mult2_eq [symmetric])
    have "c div 64 = c div 4096 * 64 + c div 64 mod 64" unfolding q by simp
    then have e: "c = c div 4096 * 4096 + c div 64 mod 64 * 64 + c mod 64"
      using div_mult_mod_eq [of c 64] by linarith
    have x: "c div 4096 = 0 \<longrightarrow> 32 \<le> c div 64 mod 64" "c div 4096 = 13 \<longrightarrow> c div 64 mod 64 < 32"
      using e 3 c m by linarith+
    from d m have "?u (224 + c div 4096) = 224 + c div 4096" "?u (128 + c mod 64) = 128 + c mod 64"
      "?u (128 + c div 64 mod 64) = 128 + c div 64 mod 64"
      by (intro unat_byte_of_nat; linarith)+
    with 3 c d x show ?thesis
      by (auto simp add: utf8_encode_def utf8_ok.simps(2) byte_le_nat word_unat_eq_iff unat_cont simp del: of_nat_add)
  next
    case 4
    with c have d: "c div 262144 < 5" by (simp add: div_less_iff_less_mult)
    have m: "c mod 64 < 64" "c div 64 mod 64 < 64" "c div 4096 mod 64 < 64" by simp_all
    have q: "c div 4096 = c div 64 div 64" "c div 262144 = c div 4096 div 64" by (simp_all add: div_mult2_eq [symmetric])
    have "c div 4096 = c div 262144 * 64 + c div 4096 mod 64" unfolding q(2) by simp
    moreover have "c div 64 = c div 4096 * 64 + c div 64 mod 64" unfolding q(1) by simp
    ultimately have e: "c = c div 262144 * 262144 + c div 4096 mod 64 * 4096 + c div 64 mod 64 * 64 + c mod 64"
      using div_mult_mod_eq [of c 64] by linarith
    have x: "c div 262144 = 0 \<longrightarrow> 16 \<le> c div 4096 mod 64" "c div 262144 = 4 \<longrightarrow> c div 4096 mod 64 < 16"
      using e 4 c m by linarith+
    from d m have "?u (240 + c div 262144) = 240 + c div 262144" "?u (128 + c mod 64) = 128 + c mod 64"
      "?u (128 + c div 64 mod 64) = 128 + c div 64 mod 64" "?u (128 + c div 4096 mod 64) = 128 + c div 4096 mod 64"
      by (intro unat_byte_of_nat; linarith)+
    with 4 c d x show ?thesis
      by (auto simp add: utf8_encode_def utf8_ok.simps(2) byte_le_nat word_unat_eq_iff unat_cont simp del: of_nat_add)
  qed
qed

lemma utf8_scalar_2:
  assumes "194 \<le> unat b0" "unat b0 < 224" "utf8_cont b1"
  shows "\<exists>c. unicode_scalar c \<and> utf8_encode c = [b0, b1]"
proof -
  define a b where "a = unat b0 - 192" and "b = unat b1 - 128"
  have u: "unat b0 = 192 + a" "unat b1 = 128 + b" and l: "2 \<le> a" "a < 32" "b < 64"
    using assms by (auto simp: a_def b_def unat_cont)
  let ?c = "a * 64 + b"
  have "unicode_scalar ?c" using l by (auto simp: unicode_scalar_def)
  moreover have "utf8_encode ?c = [b0, b1]"
    using l u [THEN byte_eq_of_nat] by (simp add: utf8_encode_def)
  ultimately show ?thesis by blast
qed

lemma utf8_scalar_3:
  assumes "224 \<le> unat b0" "unat b0 < 240" "utf8_cont b1" "utf8_cont b2"
    "\<not> (unat b0 = 224 \<and> unat b1 < 160)" "\<not> (unat b0 = 237 \<and> 160 \<le> unat b1)"
  shows "\<exists>c. unicode_scalar c \<and> utf8_encode c = [b0, b1, b2]"
proof -
  define a b c where "a = unat b0 - 224" and "b = unat b1 - 128" and "c = unat b2 - 128"
  have u: "unat b0 = 224 + a" "unat b1 = 128 + b" "unat b2 = 128 + c" and l: "a < 16" "b < 64" "c < 64"
    and x: "\<not> (a = 0 \<and> b < 32)" "\<not> (a = 13 \<and> 32 \<le> b)"
    using assms by (auto simp: a_def b_def c_def unat_cont)
  let ?c = "a * 4096 + b * 64 + c"
  have g: "0x800 \<le> ?c" "?c < 0x10000" using l x by (cases "a = 0"; simp)+
  have "\<not> (0xD800 \<le> ?c \<and> ?c \<le> 0xDFFF)"
  proof
    assume h: "0xD800 \<le> ?c \<and> ?c \<le> 0xDFFF"
    with l have "a = 13" by linarith
    with x have "b < 32" by simp
    with h l \<open>a = 13\<close> show False by linarith
  qed
  with g have "unicode_scalar ?c" by (auto simp: unicode_scalar_def)
  moreover have "utf8_encode ?c = [b0, b1, b2]"
    unfolding utf8_encode_def
    using l g u [THEN byte_eq_of_nat] base64_digits(3-5) [of b c c a]  by (simp del: of_nat_add)
  ultimately show ?thesis by blast
qed

lemma utf8_scalar_4:
  assumes "240 \<le> unat b0" "unat b0 \<le> 244" "utf8_cont b1" "utf8_cont b2" "utf8_cont b3"
    "\<not> (unat b0 = 240 \<and> unat b1 < 144)" "\<not> (unat b0 = 244 \<and> 144 \<le> unat b1)"
  shows "\<exists>c. unicode_scalar c \<and> utf8_encode c = [b0, b1, b2, b3]"
proof -
  define a b c d where "a = unat b0 - 240" and "b = unat b1 - 128" and "c = unat b2 - 128" and "d = unat b3 - 128"
  have u: "unat b0 = 240 + a" "unat b1 = 128 + b" "unat b2 = 128 + c" "unat b3 = 128 + d"
    and l: "a \<le> 4" "b < 64" "c < 64" "d < 64"
    and x: "\<not> (a = 0 \<and> b < 16)" "\<not> (a = 4 \<and> 16 \<le> b)"
    using assms by (auto simp: a_def b_def c_def d_def unat_cont)
  let ?c = "a * 262144 + b * 4096 + c * 64 + d"
  have g: "0x10000 \<le> ?c" using l x by (cases "a = 0") simp_all
  have "?c \<le> 0x10FFFF" using l x by (cases "a = 4") simp_all
  with g have "unicode_scalar ?c" by (auto simp: unicode_scalar_def)
  moreover have "utf8_encode ?c = [b0, b1, b2, b3]"
    unfolding utf8_encode_def
    using l g u [THEN byte_eq_of_nat] base64_digits(6-9) [of b c d a] by (simp del: of_nat_add)
  ultimately show ?thesis by blast
qed

lemma utf8_scalar_1:
  assumes "b0 \<noteq> 0" "unat b0 < 128"
  shows "\<exists>c. unicode_scalar c \<and> utf8_encode c = [b0]"
  using assms by (intro exI [of _ "unat b0"]) (simp add: unicode_scalar_def utf8_encode_def unat_gt_0)

lemma utf8_scalars_Cons:
  assumes "\<exists>c. unicode_scalar c \<and> utf8_encode c = x"
    and "\<exists>cs. list_all unicode_scalar cs \<and> r = concat (map utf8_encode cs)"
  shows "\<exists>cs. list_all unicode_scalar cs \<and> x @ r = concat (map utf8_encode cs)"
proof -
  from assms obtain c cs where "unicode_scalar c" "utf8_encode c = x" "list_all unicode_scalar cs"
    "r = concat (map utf8_encode cs)" by blast
  then show ?thesis by (intro exI [of _ "c # cs"]) simp
qed

lemma utf8_ok_split:
  assumes "utf8_ok (b0 # bs)"
  shows "\<exists>x r. b0 # bs = x @ r \<and> x \<noteq> [] \<and> utf8_ok r \<and> (\<exists>c. unicode_scalar c \<and> utf8_encode c = x)"
proof -
  consider (one) "b0 \<noteq> 0" "unat b0 < 128" "utf8_ok bs"
    | (two) b1 r where "194 \<le> unat b0" "unat b0 < 224" "utf8_cont b1" "bs = b1 # r" "utf8_ok r"
    | (three) b1 b2 r where "224 \<le> unat b0" "unat b0 < 240" "utf8_cont b1" "utf8_cont b2"
        "\<not> (unat b0 = 224 \<and> unat b1 < 160)" "\<not> (unat b0 = 237 \<and> 160 \<le> unat b1)" "bs = b1 # b2 # r" "utf8_ok r"
    | (four) b1 b2 b3 r where "240 \<le> unat b0" "unat b0 \<le> 244" "utf8_cont b1" "utf8_cont b2" "utf8_cont b3"
        "\<not> (unat b0 = 240 \<and> unat b1 < 144)" "\<not> (unat b0 = 244 \<and> 144 \<le> unat b1)" "bs = b1 # b2 # b3 # r" "utf8_ok r"
    using assms unfolding utf8_ok.simps(2)
    by (auto simp: byte_le_nat word_unat_eq_iff not_less not_le split: if_splits list.splits)
  then show ?thesis
  proof cases
    case one
    then show ?thesis using utf8_scalar_1 by (intro exI [of _ "[b0]"] exI [of _ bs]) simp
  next
    case two
    then show ?thesis using utf8_scalar_2 by (intro exI [of _ "[b0, b1]"] exI [of _ r]) simp
  next
    case three
    then show ?thesis using utf8_scalar_3 by (intro exI [of _ "[b0, b1, b2]"] exI [of _ r]) simp
  next
    case four
    then show ?thesis using utf8_scalar_4 by (intro exI [of _ "[b0, b1, b2, b3]"] exI [of _ r]) simp
  qed
qed

lemma utf8_ok_iff:
  "utf8_ok bs \<longleftrightarrow> (\<exists>cs. list_all unicode_scalar cs \<and> bs = concat (map utf8_encode cs))"
proof
  show "utf8_ok bs \<Longrightarrow> \<exists>cs. list_all unicode_scalar cs \<and> bs = concat (map utf8_encode cs)"
  proof (induction bs rule: length_induct)
    case (1 bs)
    show ?case
    proof (cases bs)
      case Nil
      then show ?thesis by (intro exI [of _ "[]"]) simp
    next
      case (Cons b0 rest)
      with "1.prems" utf8_ok_split obtain x r where x: "bs = x @ r" "x \<noteq> []" "utf8_ok r"
        "\<exists>c. unicode_scalar c \<and> utf8_encode c = x" by blast
      with "1.IH" have "\<exists>cs. list_all unicode_scalar cs \<and> r = concat (map utf8_encode cs)" by simp
      with x show ?thesis using utf8_scalars_Cons by simp
    qed
  qed
  have "list_all unicode_scalar cs \<Longrightarrow> utf8_ok (concat (map utf8_encode cs))" for cs
    by (induction cs) (simp_all add: utf8_ok_encode)
  then show "\<exists>cs. list_all unicode_scalar cs \<and> bs = concat (map utf8_encode cs) \<Longrightarrow> utf8_ok bs" by blast
qed

lemma utf8_ok_no_nul: "utf8_ok bs \<Longrightarrow> 0 \<notin> set bs"
proof (induction bs rule: utf8_ok.induct)
  case 1
  then show ?case by simp
next
  case (2 b0 bs)
  then show ?case unfolding utf8_ok.simps(2)
    by (auto simp: utf8_cont_def split: if_splits list.splits)
qed

section \<open>The scan against the definition of UTF-8\<close>

text \<open>C36: over bytes that lie in the buffer, \<^verbatim>\<open>Utf8WellFormed\<close> answers whether they are the
  concatenated UTF-8 encodings of Unicode scalar values other than U+0000.\<close>

theorem utf8_scan_exact:
  assumes "s + n \<le> length m"
  shows "Utf8WellFormed m s n = Ok (\<exists>cs. list_all unicode_scalar cs \<and> blk m s n = concat (map utf8_encode cs))"
  using Utf8WellFormed_eq [OF assms] by (simp add: utf8_ok_iff)

theorem utf8_scan_exact_witness:
  "Utf8WellFormed [0, 0xE2, 0x82, 0xAC] 1 3 =
     Ok (\<exists>cs. list_all unicode_scalar cs \<and> blk [0, 0xE2, 0x82, 0xAC] 1 3 = concat (map utf8_encode cs))"
  by (rule utf8_scan_exact) simp

end
