(* ===== verification/Mqtt_Wire.thy ===== *)
theory Mqtt_Wire
  imports Mqtt_Vbi Mqtt_Utf8
begin

text \<open>
  The other primitive data representations of \<^verbatim>\<open>src/mqtt_packet.c\<close>: two and four byte integers,
  UTF-8 strings and binary data, each with its encoder and decoder.  Every encoder is shown equal
  to one block write of a reference byte string, every decoder to stay inside its buffer and to
  invert that byte string in both directions.
\<close>

section \<open>Operations\<close>

abbreviation (input) "MQTT_DATA_LEN_SIZE \<equiv> (2::nat)"
abbreviation (input) "MQTT_DATA_INT_SIZE \<equiv> (4::nat)"
abbreviation (input) "MQTT_PACKET_MAX_LEN_BYTES \<equiv> (4::nat)"

subsection \<open>Two and four byte integers\<close>

definition MqttDecode_Num :: "mem \<Rightarrow> nat \<Rightarrow> nat \<Rightarrow> (word16 \<times> nat) outcome" where
  "MqttDecode_Num m buf buf_len =
     (if buf_len < MQTT_DATA_LEN_SIZE then Err OUT_OF_BUFFER
      else bnd (rd m buf) (\<lambda>b0. bnd (rd m (buf + 1)) (\<lambda>b1.
        Ok (push_bit 8 (ucast b0) + ucast b1, MQTT_DATA_LEN_SIZE))))"

definition MqttEncode_Num :: "mem \<Rightarrow> nat option \<Rightarrow> word16 \<Rightarrow> (mem \<times> nat) outcome" where
  "MqttEncode_Num m buf len =
     bnd (wr_opt m buf [ucast (drop_bit 8 len)]) (\<lambda>m1.
     bnd (wr_opt m1 (adv buf 1) [ucast (len AND 0xFF)]) (\<lambda>m2.
     Ok (m2, MQTT_DATA_LEN_SIZE)))"

definition MqttDecode_Int :: "mem \<Rightarrow> nat \<Rightarrow> nat \<Rightarrow> (word32 \<times> nat) outcome" where
  "MqttDecode_Int m buf buf_len =
     (if buf_len < MQTT_DATA_INT_SIZE then Err OUT_OF_BUFFER
      else bnd (rd m buf) (\<lambda>b0. bnd (rd m (buf + 1)) (\<lambda>b1.
           bnd (rd m (buf + 2)) (\<lambda>b2. bnd (rd m (buf + 3)) (\<lambda>b3.
        Ok (push_bit 24 (ucast b0) + push_bit 16 (ucast b1) + push_bit 8 (ucast b2) + ucast b3,
            MQTT_DATA_INT_SIZE))))))"

definition MqttEncode_Int :: "mem \<Rightarrow> nat option \<Rightarrow> word32 \<Rightarrow> (mem \<times> nat) outcome" where
  "MqttEncode_Int m buf len =
     bnd (wr_opt m buf [ucast (drop_bit 24 len)]) (\<lambda>m1.
     bnd (wr_opt m1 (adv buf 1) [ucast (drop_bit 16 len AND 0xFF)]) (\<lambda>m2.
     bnd (wr_opt m2 (adv buf 2) [ucast (drop_bit 8 len AND 0xFF)]) (\<lambda>m3.
     bnd (wr_opt m3 (adv buf 3) [ucast (len AND 0xFF)]) (\<lambda>m4.
     Ok (m4, MQTT_DATA_INT_SIZE)))))"

subsection \<open>Strings and binary data\<close>

definition MqttEncode_Utf8Ok :: "byte list option \<Rightarrow> nat \<Rightarrow> bool outcome" where
  "MqttEncode_Utf8Ok str len =
     (if len = 0 then Ok True
      else case str of None \<Rightarrow> Ok False
        | Some s \<Rightarrow> Utf8WellFormed s 0 (unat (word_of_nat len :: word16)))"

text \<open>
  The pair of output parameters \<^verbatim>\<open>*pstr\<close>, \<^verbatim>\<open>*pstr_len\<close> is the block of the buffer they name.
\<close>

definition MqttDecode_String :: "mem \<Rightarrow> nat \<Rightarrow> nat \<Rightarrow> (byte list \<times> nat) outcome" where
  "MqttDecode_String m buf buf_len =
     bnd (MqttDecode_Num m buf buf_len) (\<lambda>(str_len, len).
       if unat str_len > buf_len - len then Err OUT_OF_BUFFER
       else bnd (rdn m (buf + len) (unat str_len)) (\<lambda>str.
         if str_len > 0 then
           bnd (Utf8WellFormed m (buf + len) (unat str_len)) (\<lambda>wf.
             if \<not> wf then Err MALFORMED_DATA
             else if 0 \<in> set str then Err MALFORMED_DATA
             else Ok (str, len + unat str_len))
         else Ok (str, len + unat str_len)))"

definition MqttEncode_String :: "mem \<Rightarrow> nat option \<Rightarrow> cstr \<Rightarrow> (mem \<times> nat) outcome" where
  "MqttEncode_String m buf str =
     (let str_len = XSTRLEN str in
      if str_len > 0xFFFF then Err BAD_ARG
      else bnd (MqttEncode_Num m buf (word_of_nat str_len)) (\<lambda>(m1, len).
        bnd (wr_opt m1 (adv buf len) (take str_len str)) (\<lambda>m2.
        Ok (m2, len + str_len))))"

definition MqttEncode_Data ::
  "mem \<Rightarrow> nat option \<Rightarrow> byte list option \<Rightarrow> word16 \<Rightarrow> (mem \<times> nat) outcome" where
  "MqttEncode_Data m buf data data_len =
     bnd (MqttEncode_Num m buf data_len) (\<lambda>(m1, len).
       case buf of
         None \<Rightarrow> Ok (m1, len + unat data_len)
       | Some p \<Rightarrow>
           bnd (case data of
                  Some d \<Rightarrow> bnd (rdn d 0 (unat data_len)) (\<lambda>bs. wr m1 (p + len) bs)
                | None \<Rightarrow> wr m1 (p + len) (replicate (unat data_len) 0)) (\<lambda>m2.
           Ok (m2, len + unat data_len)))"

section \<open>Reference byte strings\<close>

definition num_bytes :: "word16 \<Rightarrow> byte list" where
  "num_bytes n = [word_of_nat (unat n div 256), word_of_nat (unat n mod 256)]"

definition int_bytes :: "word32 \<Rightarrow> byte list" where
  "int_bytes n =
     [word_of_nat (unat n div 16777216), word_of_nat (unat n div 65536 mod 256),
      word_of_nat (unat n div 256 mod 256), word_of_nat (unat n mod 256)]"

definition str_bytes :: "byte list \<Rightarrow> byte list" where
  "str_bytes s = num_bytes (word_of_nat (length s)) @ s"

definition data_bytes :: "byte list option \<Rightarrow> word16 \<Rightarrow> byte list" where
  "data_bytes d n = num_bytes n @
     (case d of Some bs \<Rightarrow> take (unat n) bs | None \<Rightarrow> replicate (unat n) 0)"

section \<open>Two and four byte integers: laws\<close>

lemma num_bytes_length [simp]: "length (num_bytes n) = 2"
  by (simp add: num_bytes_def)

lemma int_bytes_length [simp]: "length (int_bytes n) = 4"
  by (simp add: int_bytes_def)

lemma unat_ucast_byte16: "unat (ucast (x :: word16) :: byte) = unat x mod 256"
  by (simp add: unsigned_ucast_eq take_bit_eq_mod)

lemma unat_ucast_byte32: "unat (ucast (x :: word32) :: byte) = unat x mod 256"
  by (simp add: unsigned_ucast_eq take_bit_eq_mod)

lemma ucast_and_FF16: "(ucast ((x :: word16) AND 0xFF) :: byte) = ucast x"
proof -
  have m: "(0xFF :: word16) = mask 8" by (simp add: mask_eq_exp_minus_1)
  show ?thesis unfolding m
    by (rule bit_word_eqI) (auto simp: bit_simps)
qed

lemma ucast_and_FF32: "(ucast ((x :: word32) AND 0xFF) :: byte) = ucast x"
proof -
  have m: "(0xFF :: word32) = mask 8" by (simp add: mask_eq_exp_minus_1)
  show ?thesis unfolding m
    by (rule bit_word_eqI) (auto simp: bit_simps)
qed

lemma unat_drop_bit16: "unat (drop_bit k (x :: word16)) = unat x div 2 ^ k"
  by (simp add: unsigned_drop_bit_eq) (simp add: drop_bit_eq_div take_bit_eq_mod)

lemma unat_drop_bit32: "unat (drop_bit k (x :: word32)) = unat x div 2 ^ k"
  by (simp add: unsigned_drop_bit_eq) (simp add: drop_bit_eq_div take_bit_eq_mod)

lemma num_bytes_eq: "num_bytes n = [ucast (drop_bit 8 n), ucast n]"
proof -
  have "unat n div 256 < 256" using unat_word16_less [of n] by (simp add: div_less_iff_less_mult)
  then have "(ucast (drop_bit 8 n) :: byte) = word_of_nat (unat n div 256)"
    by (intro byte_eq_of_nat) (simp add: unat_ucast_byte16 unat_drop_bit16)
  moreover have "(ucast n :: byte) = word_of_nat (unat n mod 256)"
    by (intro byte_eq_of_nat) (simp add: unat_ucast_byte16)
  ultimately show ?thesis by (simp add: num_bytes_def)
qed

lemma MqttEncode_Num_eq [enc_eq]:
  "MqttEncode_Num m buf n = bnd (wr_opt m buf (num_bytes n)) (\<lambda>m'. Ok (m', 2))"
  using wr_opt_append [of m buf "[ucast (drop_bit 8 n)]" "[ucast n]"]
  by (simp add: MqttEncode_Num_def num_bytes_eq ucast_and_FF16 bnd_assoc)

lemma num_bytes_value:
  "push_bit 8 (ucast b0) + ucast (b1 :: byte) = (n :: word16) \<longleftrightarrow> [b0, b1] = num_bytes n"
proof
  let ?v = "push_bit 8 (ucast b0) + ucast b1 :: word16"
  have "unat b0 * 256 + unat b1 < 65536" using unat_byte_less [of b0] unat_byte_less [of b1] by linarith
  moreover have "?v = word_of_nat (unat b0 * 256 + unat b1)"
    by (simp add: push_bit_eq_mult mult.commute)
  ultimately have v: "unat ?v = unat b0 * 256 + unat b1" by (simp only: unat_word16_of_nat)
  assume "?v = n"
  then have "unat n = unat b0 * 256 + unat b1" using v by simp
  then show "[b0, b1] = num_bytes n" by (simp add: num_bytes_def byte_eq_of_nat)
next
  assume "[b0, b1] = num_bytes n"
  then have "b0 = word_of_nat (unat n div 256)" "b1 = word_of_nat (unat n mod 256)" by (simp_all add: num_bytes_def)
  then have "unat b0 = unat n div 256" "unat b1 = unat n mod 256"
    using unat_word16_less [of n] by (simp_all add: unat_byte_of_nat div_less_iff_less_mult)
  moreover have "push_bit 8 (ucast b0) + ucast b1 = (word_of_nat (unat b0 * 256 + unat b1) :: word16)"
    by (simp add: push_bit_eq_mult mult.commute)
  ultimately show "push_bit 8 (ucast b0) + ucast b1 = n" by (simp only: div_mult_mod_eq) simp
qed

lemma MqttDecode_Num_no_fault [no_fault]:
  "buf + buf_len \<le> length m \<Longrightarrow> MqttDecode_Num m buf buf_len \<noteq> Fault"
  by (simp add: MqttDecode_Num_def rd_ok)

lemma MqttDecode_Num_sound:
  assumes "MqttDecode_Num m buf buf_len = Ok (n, k)"
  shows "k = 2" "2 \<le> buf_len" "buf + 2 \<le> length m" "blk m buf 2 = num_bytes n"
proof -
  from assms have "k = 2" and l: "2 \<le> buf_len" "buf + 2 \<le> length m"
    and v: "push_bit 8 (ucast (m ! buf)) + ucast (m ! (buf + 1)) = n"
    by (auto simp: MqttDecode_Num_def rd_def split: if_splits)
  from v have "[m ! buf, m ! (buf + 1)] = num_bytes n" by (simp only: num_bytes_value)
  with l show "k = 2" "2 \<le> buf_len" "buf + 2 \<le> length m" "blk m buf 2 = num_bytes n"
    using \<open>k = 2\<close> by (simp_all add: blk_2)
qed

lemma MqttDecode_Num_complete [dec_ok]:
  assumes "blk m buf 2 = num_bytes n" "buf + 2 \<le> length m" "2 \<le> buf_len"
  shows "MqttDecode_Num m buf buf_len = Ok (n, 2)"
proof -
  from assms have "[m ! buf, m ! (buf + 1)] = num_bytes n" by (simp add: blk_2)
  then have "push_bit 8 (ucast (m ! buf)) + ucast (m ! (buf + 1)) = n" by (simp only: num_bytes_value)
  with assms show ?thesis by (simp add: MqttDecode_Num_def rd_ok)
qed

lemma int_bytes_eq:
  "int_bytes n = [ucast (drop_bit 24 n), ucast (drop_bit 16 n), ucast (drop_bit 8 n), ucast n]"
proof -
  have "unat n div 16777216 < 256" using unat_word32_less [of n] by (simp add: div_less_iff_less_mult)
  then show ?thesis
    unfolding int_bytes_def by (auto intro!: byte_eq_of_nat [symmetric] simp: unat_ucast_byte32 unat_drop_bit32)
qed

lemma MqttEncode_Int_eq [enc_eq]:
  "MqttEncode_Int m buf n = bnd (wr_opt m buf (int_bytes n)) (\<lambda>m'. Ok (m', 4))"
  using wr_opt_append [of m buf "[ucast (drop_bit 24 n)]" "[ucast (drop_bit 16 n), ucast (drop_bit 8 n), ucast n]"]
    wr_opt_append [of _ "adv buf 1" "[ucast (drop_bit 16 n)]" "[ucast (drop_bit 8 n), ucast n]"]
    wr_opt_append [of _ "adv buf 2" "[ucast (drop_bit 8 n)]" "[ucast n]"]
  by (simp add: MqttEncode_Int_def int_bytes_eq ucast_and_FF32 bnd_assoc adv_add eval_nat_numeral)

lemma map_unat_int_bytes:
  "map unat (int_bytes n) = [unat n div 16777216, unat n div 65536 mod 256, unat n div 256 mod 256, unat n mod 256]"
  using unat_word32_less [of n] by (simp add: int_bytes_def unat_byte_of_nat div_less_iff_less_mult)

lemma div_256_256: "(k :: nat) div 256 div 256 = k div 65536" "k div 65536 div 256 = k div 16777216"
  by (simp_all add: div_mult2_eq [symmetric])

lemma base256_digits:
  fixes a b c d :: nat
  assumes "b < 256" "c < 256" "d < 256" "k = a * 16777216 + b * 65536 + c * 256 + d"
  shows "k div 16777216 = a" "k div 65536 mod 256 = b" "k div 256 mod 256 = c" "k mod 256 = d"
proof -
  have k: "k = ((a * 256 + b) * 256 + c) * 256 + d" using assms(4) by simp
  then have q: "k div 256 = (a * 256 + b) * 256 + c" using assms(3) by simp
  then have r: "k div 65536 = a * 256 + b" using assms(2) by (simp flip: div_256_256(1))
  show "k mod 256 = d" using k assms(3) by (simp only: mod_mult_self3 mod_less)
  show "k div 256 mod 256 = c" using q assms(2) by (simp only: mod_mult_self3 mod_less)
  show "k div 65536 mod 256 = b" using r assms(1) by (simp only: mod_mult_self3 mod_less)
  show "k div 16777216 = a" using r assms(1) by (simp flip: div_256_256(2))
qed

lemma base256_undigits:
  "(k :: nat) = k div 16777216 * 16777216 + k div 65536 mod 256 * 65536 + k div 256 mod 256 * 256 + k mod 256"
  using div_mult_mod_eq [of k 256] div_mult_mod_eq [of "k div 256" 256, unfolded div_256_256]
    div_mult_mod_eq [of "k div 65536" 256, unfolded div_256_256] by linarith

lemma int_bytes_value:
  "push_bit 24 (ucast b0) + push_bit 16 (ucast b1) + push_bit 8 (ucast b2) + ucast (b3 :: byte)
     = (n :: word32) \<longleftrightarrow> [b0, b1, b2, b3] = int_bytes n"
proof -
  define k where "k = unat b0 * 16777216 + unat b1 * 65536 + unat b2 * 256 + unat b3"
  let ?v = "push_bit 24 (ucast b0) + push_bit 16 (ucast b1) + push_bit 8 (ucast b2) + ucast b3 :: word32"
  have lt: "k < 4294967296" unfolding k_def
    using unat_byte_less [of b0] unat_byte_less [of b1] unat_byte_less [of b2] unat_byte_less [of b3] by linarith
  have "?v = word_of_nat k" by (simp add: push_bit_eq_mult mult.commute k_def)
  with lt have v: "unat ?v = k" by (simp only: unat_word32_of_nat)
  note d = base256_digits [OF unat_byte_less [of b1] unat_byte_less [of b2] unat_byte_less [of b3] k_def]
  have i: "int_bytes ?v = [b0, b1, b2, b3]"
    unfolding int_bytes_def v d by simp
  have "?v = n" if "int_bytes ?v = int_bytes n"
  proof -
    from that have "map unat (int_bytes ?v) = map unat (int_bytes n)" by simp
    then have "k div 16777216 = unat n div 16777216" "k div 65536 mod 256 = unat n div 65536 mod 256"
      "k div 256 mod 256 = unat n div 256 mod 256" "k mod 256 = unat n mod 256"
      by (simp_all only: map_unat_int_bytes v list.inject)
    then have "k = unat n" using base256_undigits [of k] base256_undigits [of "unat n"] by simp
    then show ?thesis using v by (simp add: word_unat_eq_iff)
  qed
  with i show ?thesis by metis
qed

lemma MqttDecode_Int_no_fault [no_fault]:
  "buf + buf_len \<le> length m \<Longrightarrow> MqttDecode_Int m buf buf_len \<noteq> Fault"
  by (simp add: MqttDecode_Int_def rd_ok)

lemma MqttDecode_Int_sound:
  assumes "MqttDecode_Int m buf buf_len = Ok (n, k)"
  shows "k = 4" "4 \<le> buf_len" "buf + 4 \<le> length m" "blk m buf 4 = int_bytes n"
proof -
  from assms have "k = 4" and l: "4 \<le> buf_len" "buf + 4 \<le> length m"
    and v: "push_bit 24 (ucast (m ! buf)) + push_bit 16 (ucast (m ! (buf + 1))) +
      push_bit 8 (ucast (m ! (buf + 2))) + ucast (m ! (buf + 3)) = n"
    by (auto simp: MqttDecode_Int_def rd_def split: if_splits)
  from v have "[m ! buf, m ! (buf + 1), m ! (buf + 2), m ! (buf + 3)] = int_bytes n"
    by (simp only: int_bytes_value)
  with l show "k = 4" "4 \<le> buf_len" "buf + 4 \<le> length m" "blk m buf 4 = int_bytes n"
    using \<open>k = 4\<close> by (simp_all add: blk_4)
qed

lemma MqttDecode_Int_complete [dec_ok]:
  assumes "blk m buf 4 = int_bytes n" "buf + 4 \<le> length m" "4 \<le> buf_len"
  shows "MqttDecode_Int m buf buf_len = Ok (n, 4)"
proof -
  from assms have "[m ! buf, m ! (buf + 1), m ! (buf + 2), m ! (buf + 3)] = int_bytes n"
    by (simp add: blk_4)
  then have "push_bit 24 (ucast (m ! buf)) + push_bit 16 (ucast (m ! (buf + 1))) +
      push_bit 8 (ucast (m ! (buf + 2))) + ucast (m ! (buf + 3)) = n" by (simp only: int_bytes_value)
  with assms show ?thesis by (simp add: MqttDecode_Int_def rd_ok)
qed

lemma MqttEncode_Utf8Ok_eq:
  "len \<le> length s \<Longrightarrow> len \<le> 65535 \<Longrightarrow> MqttEncode_Utf8Ok (Some s) len = Ok (utf8_ok (take len s))"
  by (simp add: MqttEncode_Utf8Ok_def unat_word16_of_nat Utf8WellFormed_eq blk_def)

lemma MqttEncode_Utf8Ok_None: "MqttEncode_Utf8Ok None len = Ok (len = 0)"
  by (simp add: MqttEncode_Utf8Ok_def)

section \<open>Strings and binary data: laws\<close>

lemma str_bytes_length [simp]: "length (str_bytes s) = 2 + length s"
  by (simp add: str_bytes_def)

lemma data_bytes_length:
  "(\<forall>bs. d = Some bs \<longrightarrow> unat n \<le> length bs) \<Longrightarrow> length (data_bytes d n) = 2 + unat n"
  by (cases d) (simp_all add: data_bytes_def)

lemma data_bytes_Some: "length bs \<le> 65535 \<Longrightarrow> data_bytes (Some bs) (word_of_nat (length bs)) = str_bytes bs"
  by (simp add: data_bytes_def str_bytes_def unat_word16_of_nat)

lemma MqttDecode_String_no_fault [no_fault]:
  assumes "buf + buf_len \<le> length m"
  shows "MqttDecode_String m buf buf_len \<noteq> Fault"
proof (cases "MqttDecode_Num m buf buf_len")
  case Fault
  then show ?thesis using MqttDecode_Num_no_fault [OF assms] by simp
next
  case (Ok p)
  obtain n k where p: "p = (n, k)" by fastforce
  note d = MqttDecode_Num_sound [OF Ok [unfolded p]]
  from d show ?thesis using assms Ok p
    by (auto simp: MqttDecode_String_def bnd_Fault_iff rdn_def Utf8WellFormed_eq split: if_splits)
qed (simp add: MqttDecode_String_def)

lemma MqttDecode_String_sound:
  assumes "MqttDecode_String m buf buf_len = Ok (s, k)"
  shows "k = 2 + length s" "k \<le> buf_len" "buf + k \<le> length m" "blk m buf k = str_bytes s"
    "length s \<le> 65535" "utf8_ok s" "s = blk m (buf + 2) (length s)"
proof -
  from assms obtain n where n: "MqttDecode_Num m buf buf_len = Ok (n, 2)"
    and le: "unat n \<le> buf_len - 2" and r: "rdn m (buf + 2) (unat n) = Ok s" and k: "k = 2 + unat n"
    and wf: "0 < n \<Longrightarrow> Utf8WellFormed m (buf + 2) (unat n) = Ok True"
    unfolding MqttDecode_String_def
    by (auto simp: bnd_Ok_iff dest: MqttDecode_Num_sound(1) split: if_splits)
  note d = MqttDecode_Num_sound [OF n]
  from r have s: "s = blk m (buf + 2) (unat n)" and len: "buf + 2 + unat n \<le> length m"
    by (auto simp: rdn_def split: if_splits)
  then have ls: "length s = unat n" by simp
  show "k = 2 + length s" "k \<le> buf_len" "buf + k \<le> length m" "s = blk m (buf + 2) (length s)"
    using k ls le d(2) len s by auto
  show "length s \<le> 65535" using ls unat_word16_less [of n] by linarith
  show "blk m buf k = str_bytes s"
    unfolding k blk_add str_bytes_def using d(4) s ls by simp
  show "utf8_ok s"
  proof (cases "n = 0")
    case True
    then show ?thesis using s by simp
  next
    case False
    then show ?thesis using wf Utf8WellFormed_eq [OF len] s by (simp add: word_gt_0)
  qed
qed

lemma MqttDecode_String_complete [dec_ok]:
  assumes "blk m buf (2 + length s) = str_bytes s" "buf + 2 + length s \<le> length m"
    and "2 + length s \<le> buf_len" "length s \<le> 65535" "utf8_ok s"
  shows "MqttDecode_String m buf buf_len = Ok (s, 2 + length s)"
proof -
  let ?n = "word_of_nat (length s) :: word16"
  have u: "unat ?n = length s" using assms by (simp add: unat_word16_of_nat)
  from assms(1,2) have b: "blk m buf 2 = num_bytes ?n" and t: "blk m (buf + 2) (length s) = s"
    unfolding blk_add str_bytes_def by (simp_all add: append_eq_append_conv)
  from b assms have "MqttDecode_Num m buf buf_len = Ok (?n, 2)" by (intro MqttDecode_Num_complete) auto
  then show ?thesis using assms t u utf8_ok_no_nul [OF assms(5)]
    by (simp add: MqttDecode_String_def rdn_ok Utf8WellFormed_eq le_diff_conv2)
qed

lemma MqttEncode_String_eq [enc_eq]:
  "MqttEncode_String m buf s =
     (if XSTRLEN s > 65535 then Err BAD_ARG
      else bnd (wr_opt m buf (str_bytes (cstr_bytes s))) (\<lambda>m'. Ok (m', 2 + XSTRLEN s)))"
  by (simp add: MqttEncode_String_def Let_def MqttEncode_Num_eq bnd_assoc str_bytes_def wr_opt_append cstr_bytes_take)

lemma MqttEncode_Data_None_eq [enc_eq]: "MqttEncode_Data m None d n = Ok (m, 2 + unat n)"
  by (simp add: MqttEncode_Data_def MqttEncode_Num_eq)

lemma MqttEncode_Data_eq [enc_eq]:
  assumes "\<forall>bs. d = Some bs \<longrightarrow> unat n \<le> length bs"
  shows "MqttEncode_Data m buf d n = bnd (wr_opt m buf (data_bytes d n)) (\<lambda>m'. Ok (m', 2 + unat n))"
  using assms
  by (cases buf; cases d)
    (simp_all add: MqttEncode_Data_def MqttEncode_Num_eq bnd_assoc data_bytes_def wr_append rdn_ok blk_def)

section \<open>Integers and strings as wire formats\<close>

interpretation num: wire_format MqttEncode_Num MqttDecode_Num id num_bytes "\<lambda>_. True"
proof (unfold_locales, goal_cases)
  case (3 m p n v k)
  then show ?case using MqttDecode_Num_sound [OF 3] by simp
qed (auto simp: MqttEncode_Num_eq MqttDecode_Num_no_fault MqttDecode_Num_complete)

interpretation int: wire_format MqttEncode_Int MqttDecode_Int id int_bytes "\<lambda>_. True"
proof (unfold_locales, goal_cases)
  case (3 m p n v k)
  then show ?case using MqttDecode_Int_sound [OF 3] by simp
qed (auto simp: MqttEncode_Int_eq MqttDecode_Int_no_fault MqttDecode_Int_complete)

interpretation string: wire_format MqttEncode_String MqttDecode_String cstr_bytes str_bytes
  "\<lambda>s. length s \<le> 65535 \<and> utf8_ok s"
proof (unfold_locales, goal_cases)
  case (1 x m buf)
  then show ?case by (simp add: MqttEncode_String_eq)
next
  case (2 p n m)
  then show ?case by (rule MqttDecode_String_no_fault)
next
  case (3 m p n v k)
  then show ?case using MqttDecode_String_sound [OF 3] by simp
next
  case (4 v m p n)
  then show ?case using MqttDecode_String_complete [of m p v n] by simp
qed

text \<open>\<^verbatim>\<open>MqttDecode_String\<close> returns a string exactly when the buffer holds its two byte length and
  its bytes, and those are the UTF-8 encoding of Unicode scalar values without U+0000.\<close>

theorem string_decode_exact:
  assumes "buf + buf_len \<le> length m"
  shows "MqttDecode_String m buf buf_len = Ok (s, k) \<longleftrightarrow>
    (\<exists>cs. list_all unicode_scalar cs \<and> s = concat (map utf8_encode cs)) \<and> length s \<le> 65535 \<and>
    k = 2 + length s \<and> k \<le> buf_len \<and> blk m buf k = str_bytes s"
  using string.dec_iff [OF assms, of s k] by (auto simp: utf8_ok_iff)

theorem string_decode_exact_witness:
  "MqttDecode_String [0, 3, 0xE2, 0x82, 0xAC, 7] 0 6 = Ok ([0xE2, 0x82, 0xAC], 5)"
proof -
  have "\<exists>cs. list_all unicode_scalar cs \<and> [0xE2, 0x82, 0xAC] = concat (map utf8_encode cs)"
    by (intro exI [of _ "[0x20AC]"]) (simp add: unicode_scalar_def utf8_encode_def)
  moreover have "blk [0, 3, 0xE2, 0x82, 0xAC, 7] 0 5 = str_bytes [0xE2, 0x82, 0xAC]"
    by (simp add: blk_def str_bytes_def num_bytes_def)
  ultimately show ?thesis
    by (intro iffD2 [OF string_decode_exact]) simp_all
qed

text \<open>A C string of well-formed UTF-8 of up to 65535 bytes that \<^verbatim>\<open>MqttEncode_String\<close> writes is what
  \<^verbatim>\<open>MqttDecode_String\<close> reads back; a longer string is refused before anything is written.\<close>

theorem string_round_trip:
  assumes "utf8_ok (cstr_bytes s)" "p + 2 + XSTRLEN s \<le> length m"
  shows "if XSTRLEN s > 65535 then MqttEncode_String m (Some p) s = Err BAD_ARG
    else \<exists>m'. MqttEncode_String m (Some p) s = Ok (m', 2 + XSTRLEN s) \<and>
      MqttDecode_String m' p (2 + XSTRLEN s) = Ok (cstr_bytes s, 2 + XSTRLEN s)"
proof (cases "XSTRLEN s > 65535")
  case True
  then show ?thesis by (simp add: MqttEncode_String_eq)
next
  case False
  with string.round_trip [of s p m "2 + XSTRLEN s"] assms show ?thesis by auto
qed

theorem string_round_trip_witness:
  "\<exists>m'. MqttEncode_String [1, 1, 1, 1, 1] (Some 1) [0x61, 0x62, 0] = Ok (m', 4) \<and>
     MqttDecode_String m' 1 4 = Ok ([0x61, 0x62], 4)"
proof -
  have u: "utf8_ok (cstr_bytes [0x61, 0x62, 0])" by code_simp
  have a: "XSTRLEN [0x61, 0x62, 0] = 2" "cstr_bytes [0x61, 0x62, 0] = [0x61, 0x62]"
    by (simp_all add: cstr_bytes_def XSTRLEN_def)
  from string_round_trip [OF u, of 1 "[1, 1, 1, 1, 1]"] show ?thesis by (simp add: a)
qed

end
