(* ===== verification/Mqtt_Topic.thy ===== *)
theory Mqtt_Topic
  imports Mqtt_Prelude
begin

text \<open>
  The syntax checks on topic filters and topic names of \<^verbatim>\<open>src/mqtt_packet.c\<close>
  (\<^verbatim>\<open>MqttPacket_TopicFilterValid_ex\<close>, \<^verbatim>\<open>MqttPacket_TopicFilterValid\<close>,
  \<^verbatim>\<open>MqttPacket_TopicFilterIsShared\<close>, \<^verbatim>\<open>MqttPacket_TopicNameValid\<close>,
  \<^verbatim>\<open>MqttPacket_TopicFilterIsWildcard\<close>).  The scan with its look-behind and look-ahead is shown to
  decide the rule of section 4.7 of the standard, which is stated on the list of levels between
  the separators.
\<close>

section \<open>Operations\<close>

abbreviation (input) "MQTT_CONNECT_PROTOCOL_LEVEL_4 \<equiv> (4 :: byte)"
abbreviation (input) "MQTT_CONNECT_PROTOCOL_LEVEL_5 \<equiv> (5 :: byte)"
abbreviation (input) "TOPIC_LEVEL_SEPERATOR \<equiv> (0x2F :: byte)"
abbreviation (input) "TOPIC_LEVEL_SINGLE \<equiv> (0x2B :: byte)"
abbreviation (input) "TOPIC_LEVEL_MULTI \<equiv> (0x23 :: byte)"

text \<open>The prefix \<^verbatim>\<open>$share/\<close> of a shared subscription.\<close>

definition share_prefix :: "byte list" where
  "share_prefix = [0x24, 0x73, 0x68, 0x61, 0x72, 0x65, 0x2F]"

definition MqttPacket_TopicFilterIsShared :: "byte list option \<Rightarrow> nat \<Rightarrow> bool outcome" where
  "MqttPacket_TopicFilterIsShared flt len =
     (case flt of None \<Rightarrow> Ok False
      | Some f \<Rightarrow> if len \<ge> 7 then bnd (rdn f 0 7) (\<lambda>p. Ok (p = share_prefix)) else Ok False)"

text \<open>The loop over the ShareName: \<open>None\<close> when it meets a wildcard, else the end of the name.\<close>

function share_name_end :: "byte list \<Rightarrow> nat \<Rightarrow> nat \<Rightarrow> nat option outcome" where
  "share_name_end f len name_end =
     (if name_end < len then
        bnd (rd f name_end) (\<lambda>c.
          if c = TOPIC_LEVEL_SEPERATOR then Ok (Some name_end)
          else if c = TOPIC_LEVEL_SINGLE \<or> c = TOPIC_LEVEL_MULTI then Ok None
          else share_name_end f len (name_end + 1))
      else Ok (Some name_end))"
  by pat_completeness auto
termination
  by (relation "measure (\<lambda>(f, len, e). len - e)") auto

function filter_scan :: "byte list \<Rightarrow> nat \<Rightarrow> nat \<Rightarrow> bool outcome" where
  "filter_scan f len i =
     (if i < len then
        bnd (rd f i) (\<lambda>c.
          if c = TOPIC_LEVEL_MULTI then
            bnd (if i \<noteq> 0 then bnd (rd f (i - 1)) (\<lambda>p. Ok (p \<noteq> TOPIC_LEVEL_SEPERATOR))
                 else Ok False) (\<lambda>bad.
            if bad then Ok False
            else if i \<noteq> len - 1 then Ok False
            else filter_scan f len (i + 1))
          else if c = TOPIC_LEVEL_SINGLE then
            bnd (if i \<noteq> 0 then bnd (rd f (i - 1)) (\<lambda>p. Ok (p \<noteq> TOPIC_LEVEL_SEPERATOR))
                 else Ok False) (\<lambda>bad.
            if bad then Ok False
            else bnd (if i \<noteq> len - 1 then bnd (rd f (i + 1)) (\<lambda>n. Ok (n \<noteq> TOPIC_LEVEL_SEPERATOR))
                      else Ok False) (\<lambda>bad'.
            if bad' then Ok False
            else filter_scan f len (i + 1)))
          else filter_scan f len (i + 1))
      else Ok True)"
  by pat_completeness auto
termination
  by (relation "measure (\<lambda>(f, len, i). len - i)") auto

definition MqttPacket_TopicFilterValid_ex :: "byte list option \<Rightarrow> nat \<Rightarrow> byte \<Rightarrow> bool outcome" where
  "MqttPacket_TopicFilterValid_ex flt len protocol_level =
     (case flt of
        None \<Rightarrow> Ok False
      | Some f \<Rightarrow>
          if len = 0 then Ok False
          else bnd (if protocol_level \<ge> MQTT_CONNECT_PROTOCOL_LEVEL_5 \<and> len \<ge> 7
                    then bnd (rdn f 0 7) (\<lambda>p. Ok (p = share_prefix)) else Ok False) (\<lambda>shared.
            if shared then
              bnd (share_name_end f len 7) (\<lambda>r.
                case r of
                  None \<Rightarrow> Ok False
                | Some name_end \<Rightarrow>
                    if name_end = 7 \<or> name_end \<ge> len - 1 then Ok False
                    else filter_scan f len (name_end + 1))
            else filter_scan f len 0))"

definition MqttPacket_TopicFilterValid :: "byte list option \<Rightarrow> nat \<Rightarrow> bool outcome" where
  "MqttPacket_TopicFilterValid flt len =
     MqttPacket_TopicFilterValid_ex flt len MQTT_CONNECT_PROTOCOL_LEVEL_4"

text \<open>The loops that look for a wildcard byte among the first \<open>len\<close>.\<close>

function wildcard_scan :: "byte list \<Rightarrow> nat \<Rightarrow> nat \<Rightarrow> bool outcome" where
  "wildcard_scan f len i =
     (if i < len then
        bnd (rd f i) (\<lambda>c.
          if c = TOPIC_LEVEL_MULTI \<or> c = TOPIC_LEVEL_SINGLE then Ok True
          else wildcard_scan f len (i + 1))
      else Ok False)"
  by pat_completeness auto
termination
  by (relation "measure (\<lambda>(f, len, i). len - i)") auto

definition MqttPacket_TopicNameValid :: "byte list option \<Rightarrow> nat \<Rightarrow> byte \<Rightarrow> bool outcome" where
  "MqttPacket_TopicNameValid topic_name len protocol_level =
     (case topic_name of
        None \<Rightarrow> Ok False
      | Some t \<Rightarrow> bnd (wildcard_scan t len 0) (\<lambda>found.
          if found then Ok False
          else if len = 0 \<and> protocol_level < MQTT_CONNECT_PROTOCOL_LEVEL_5 then Ok False
          else Ok True))"

definition MqttPacket_TopicFilterIsWildcard :: "byte list option \<Rightarrow> nat \<Rightarrow> bool outcome" where
  "MqttPacket_TopicFilterIsWildcard flt len =
     (case flt of None \<Rightarrow> Ok False | Some f \<Rightarrow> wildcard_scan f len 0)"

section \<open>The rule of section 4.7\<close>

fun levels :: "byte list \<Rightarrow> byte list list" where
  "levels [] = [[]]"
| "levels (c # cs) =
     (if c = TOPIC_LEVEL_SEPERATOR then [] # levels cs
      else (c # hd (levels cs)) # tl (levels cs))"

text \<open>A wildcard fills its level, and the multi-level one stands in the last level only.\<close>

definition level_ok :: "byte list \<Rightarrow> bool" where
  "level_ok l \<longleftrightarrow>
     (TOPIC_LEVEL_MULTI \<in> set l \<longrightarrow> l = [TOPIC_LEVEL_MULTI]) \<and>
     (TOPIC_LEVEL_SINGLE \<in> set l \<longrightarrow> l = [TOPIC_LEVEL_SINGLE])"

fun levels_ok :: "byte list list \<Rightarrow> bool" where
  "levels_ok [] = True"
| "levels_ok [l] = level_ok l"
| "levels_ok (l # l' # ls) = (level_ok l \<and> TOPIC_LEVEL_MULTI \<notin> set l \<and> levels_ok (l' # ls))"

definition filter_ok :: "byte list \<Rightarrow> bool" where
  "filter_ok f \<longleftrightarrow> f \<noteq> [] \<and> levels_ok (levels f)"

definition no_wildcard :: "byte list \<Rightarrow> bool" where
  "no_wildcard f \<longleftrightarrow> TOPIC_LEVEL_MULTI \<notin> set f \<and> TOPIC_LEVEL_SINGLE \<notin> set f"

text \<open>The form of an MQTT v5 shared subscription, section 4.8.2.\<close>

definition share_ok :: "byte list \<Rightarrow> bool" where
  "share_ok f \<longleftrightarrow> (\<exists>name rest. f = share_prefix @ name @ TOPIC_LEVEL_SEPERATOR # rest \<and>
     name \<noteq> [] \<and> TOPIC_LEVEL_SEPERATOR \<notin> set name \<and> no_wildcard name \<and> filter_ok rest)"

text \<open>The scan as a recursion over the rest of the filter and the byte before it.\<close>

fun scan_ok :: "byte option \<Rightarrow> byte list \<Rightarrow> bool" where
  "scan_ok p [] = True"
| "scan_ok p (c # cs) =
     ((c = TOPIC_LEVEL_MULTI \<longrightarrow> (p = None \<or> p = Some TOPIC_LEVEL_SEPERATOR) \<and> cs = []) \<and>
      (c = TOPIC_LEVEL_SINGLE \<longrightarrow> (p = None \<or> p = Some TOPIC_LEVEL_SEPERATOR) \<and>
         (cs = [] \<or> hd cs = TOPIC_LEVEL_SEPERATOR)) \<and>
      scan_ok (Some c) cs)"

section \<open>The scan decides the rule\<close>

declare share_name_end.simps [simp del] filter_scan.simps [simp del] wildcard_scan.simps [simp del]

lemma drop_cons: "i < length f \<Longrightarrow> drop i f = f ! i # drop (i + 1) f"
  by (simp add: Cons_nth_drop_Suc)

lemma filter_scan_eq:
  "i \<le> length f \<Longrightarrow>
   filter_scan f (length f) i = Ok (scan_ok (if i = 0 then None else Some (f ! (i - 1))) (drop i f))"
proof (induction "length f - i" arbitrary: i rule: less_induct)
  case less
  show ?case
  proof (cases "i < length f")
    case False
    then show ?thesis by (subst filter_scan.simps) simp
  next
    case True
    have IH: "filter_scan f (length f) (i + 1) = Ok (scan_ok (Some (f ! i)) (drop (i + 1) f))"
      using less.hyps [of "i + 1"] True by simp
    have last: "i \<noteq> length f - 1 \<longleftrightarrow> drop (i + 1) f \<noteq> []" using True by auto
    have nxt: "hd (drop (i + 1) f) = f ! (i + 1)" "i + 1 < length f" if "drop (i + 1) f \<noteq> []"
      using that by (simp_all add: hd_drop_conv_nth)
    have p: "rd f (i - 1) = Ok (f ! (i - 1))" using True by (simp add: rd_def)
    have c: "rd f i = Ok (f ! i)" using True by (simp add: rd_def)
    have n: "drop (i + 1) f \<noteq> [] \<Longrightarrow> rd f (i + 1) = Ok (f ! (i + 1))" by (simp add: rd_def)
    show ?thesis
      unfolding filter_scan.simps [of f "length f" i] drop_cons [OF True] scan_ok.simps last IH c bnd.simps
      using True p n nxt by auto
  qed
qed

lemma levels_nonempty [simp]: "levels cs \<noteq> []"
  by (cases cs) auto

lemma levels_ok_Cons:
  "ls \<noteq> [] \<Longrightarrow> levels_ok (l # ls) \<longleftrightarrow> level_ok l \<and> TOPIC_LEVEL_MULTI \<notin> set l \<and> levels_ok ls"
  by (cases ls) auto

lemma scan_ok_levels:
  "(p = None \<or> p = Some TOPIC_LEVEL_SEPERATOR \<longrightarrow> scan_ok p cs = levels_ok (levels cs)) \<and>
   (p \<noteq> None \<and> p \<noteq> Some TOPIC_LEVEL_SEPERATOR \<longrightarrow>
      scan_ok p cs = (no_wildcard (hd (levels cs)) \<and> levels_ok (tl (levels cs))))"
proof (induction cs arbitrary: p)
  case Nil
  then show ?case by (simp add: level_ok_def no_wildcard_def)
next
  case (Cons c cs)
  obtain l ls where l: "levels cs = l # ls" by (cases "levels cs") auto
  have e: "cs = [] \<Longrightarrow> l = [] \<and> ls = []" using l by auto
  have h: "cs \<noteq> [] \<Longrightarrow> hd cs = TOPIC_LEVEL_SEPERATOR \<Longrightarrow> l = [] \<and> ls \<noteq> []" using l by (cases cs) auto
  have h': "l = [] \<Longrightarrow> cs = [] \<or> hd cs = TOPIC_LEVEL_SEPERATOR" using l by (cases cs) (auto split: if_splits)
  show ?case
    using Cons.IH [of "Some c"] l e h h'
    by (cases "ls = []") (auto simp: levels_ok_Cons level_ok_def no_wildcard_def)
qed

lemma rd_take: "i < len \<Longrightarrow> len \<le> length f \<Longrightarrow> rd (take len f) i = rd f i"
  by (simp add: rd_def)

lemma filter_scan_take:
  "len \<le> length f \<Longrightarrow> filter_scan (take len f) len i = filter_scan f len i"
proof (induction "len - i" arbitrary: i rule: less_induct)
  case less
  show ?case
  proof (cases "i < len")
    case False
    then show ?thesis by (simp add: filter_scan.simps)
  next
    case True
    have IH: "filter_scan (take len f) len (i + 1) = filter_scan f len (i + 1)"
      using less.hyps [of "i + 1"] less.prems True by simp
    have r: "rd (take len f) i = rd f i" "rd (take len f) (i - 1) = rd f (i - 1)"
      "i \<noteq> len - 1 \<Longrightarrow> rd (take len f) (i + 1) = rd f (i + 1)"
      using True less.prems by (auto intro!: rd_take)
    show ?thesis
      unfolding filter_scan.simps [of f len i] filter_scan.simps [of "take len f" len i] IH r(1,2)
      using r(3) by (auto intro!: bnd_cong)
  qed
qed

lemma share_name_end_take:
  "len \<le> length f \<Longrightarrow> share_name_end (take len f) len i = share_name_end f len i"
proof (induction "len - i" arbitrary: i rule: less_induct)
  case less
  then show ?case
    using rd_take [of i len f]
    by (subst (1 2) share_name_end.simps) (auto intro!: bnd_cong)
qed

lemma filter_valid_take:
  assumes "len \<le> length f"
  shows "MqttPacket_TopicFilterValid_ex (Some f) len v = MqttPacket_TopicFilterValid_ex (Some (take len f)) len v"
  unfolding MqttPacket_TopicFilterValid_ex_def option.case
    filter_scan_take [OF assms] share_name_end_take [OF assms]
  using assms by (simp add: rdn_def blk_def min_def)

lemma share_name_end_eq:
  "i \<le> length f \<Longrightarrow>
   share_name_end f (length f) i =
     Ok (let name = takeWhile (\<lambda>c. c \<noteq> TOPIC_LEVEL_SEPERATOR) (drop i f)
         in if no_wildcard name then Some (i + length name) else None)"
proof (induction "length f - i" arbitrary: i rule: less_induct)
  case less
  show ?case
  proof (cases "i < length f")
    case False
    then show ?thesis by (subst share_name_end.simps) (simp add: no_wildcard_def)
  next
    case True
    have IH: "share_name_end f (length f) (i + 1) =
     Ok (let name = takeWhile (\<lambda>c. c \<noteq> TOPIC_LEVEL_SEPERATOR) (drop (i + 1) f)
         in if no_wildcard name then Some (i + 1 + length name) else None)"
      using less.hyps [of "i + 1"] True by simp
    show ?thesis unfolding share_name_end.simps [of f "length f" i] drop_cons [OF True] IH
      using True by (auto simp: rd_def no_wildcard_def Let_def)
  qed
qed

lemma share_split:
  assumes "take 7 f = share_prefix"
  defines "name \<equiv> takeWhile (\<lambda>c. c \<noteq> TOPIC_LEVEL_SEPERATOR) (drop 7 f)"
  shows "share_ok f \<longleftrightarrow> name \<noteq> [] \<and> no_wildcard name \<and> 7 + length name < length f - 1 \<and>
           levels_ok (levels (drop (7 + length name + 1) f))"
proof
  assume "share_ok f"
  then obtain nm rest where f: "f = share_prefix @ nm @ TOPIC_LEVEL_SEPERATOR # rest"
    and n: "nm \<noteq> []" "TOPIC_LEVEL_SEPERATOR \<notin> set nm" "no_wildcard nm" "filter_ok rest"
    by (auto simp: share_ok_def)
  have d: "drop 7 f = nm @ TOPIC_LEVEL_SEPERATOR # rest" using f by (simp add: share_prefix_def)
  have "name = nm" unfolding name_def d using n(2) by (subst takeWhile_append2) auto
  moreover have "drop (7 + length nm + 1) f = rest"
  proof -
    have "drop (7 + length nm + 1) f = drop (length nm + 1) (drop 7 f)" by (simp add: add.commute)
    then show ?thesis unfolding d by simp
  qed
  moreover have "length f = 7 + length nm + 1 + length rest" using f by (simp add: share_prefix_def)
  ultimately show "name \<noteq> [] \<and> no_wildcard name \<and> 7 + length name < length f - 1 \<and>
           levels_ok (levels (drop (7 + length name + 1) f))"
    using n by (auto simp: filter_ok_def)
next
  assume a: "name \<noteq> [] \<and> no_wildcard name \<and> 7 + length name < length f - 1 \<and>
           levels_ok (levels (drop (7 + length name + 1) f))"
  let ?rest = "drop (7 + length name + 1) f"
  have ne: "dropWhile (\<lambda>c. c \<noteq> TOPIC_LEVEL_SEPERATOR) (drop 7 f) \<noteq> []"
  proof
    assume "dropWhile (\<lambda>c. c \<noteq> TOPIC_LEVEL_SEPERATOR) (drop 7 f) = []"
    then have "name = drop 7 f" unfolding name_def by (metis takeWhile_dropWhile_id append_Nil2)
    then show False using a by auto
  qed
  have dw: "dropWhile (\<lambda>c. c \<noteq> TOPIC_LEVEL_SEPERATOR) (drop 7 f) = drop (7 + length name) f"
    unfolding name_def by (simp add: dropWhile_eq_drop add.commute)
  have "drop (7 + length name) f = TOPIC_LEVEL_SEPERATOR # ?rest"
  proof -
    have "7 + length name < length f" using a by linarith
    then show ?thesis using hd_dropWhile [OF ne] drop_cons [of "7 + length name" f] unfolding dw by simp
  qed
  then have "drop 7 f = name @ TOPIC_LEVEL_SEPERATOR # ?rest"
    using takeWhile_dropWhile_id [of "\<lambda>c. c \<noteq> TOPIC_LEVEL_SEPERATOR" "drop 7 f"] unfolding dw name_def by simp
  then have "f = share_prefix @ name @ TOPIC_LEVEL_SEPERATOR # ?rest"
    using assms(1) append_take_drop_id [of 7 f] by simp
  moreover have "TOPIC_LEVEL_SEPERATOR \<notin> set name" unfolding name_def by (auto dest: set_takeWhileD)
  moreover have "filter_ok ?rest" using a by (auto simp: filter_ok_def)
  ultimately show "share_ok f" using a unfolding share_ok_def by blast
qed

lemma filter_valid_eq:
  assumes "len \<le> length f"
  shows "MqttPacket_TopicFilterValid_ex (Some f) len v =
    Ok (if v \<ge> MQTT_CONNECT_PROTOCOL_LEVEL_5 \<and> take 7 (take len f) = share_prefix
        then share_ok (take len f) else filter_ok (take len f))"
proof -
  define g where "g = take len f"
  have g: "length g = len" using assms by (simp add: g_def)
  have z: "filter_scan g len 0 = Ok (levels_ok (levels g))"
    using filter_scan_eq [of 0 g] scan_ok_levels [of None g] g by simp
  have p: "7 \<le> len" if "take 7 g = share_prefix"
  proof -
    from that have "length (take 7 g) = 7" by (simp add: share_prefix_def)
    then show ?thesis using g by simp
  qed
  have r: "rdn g 0 7 = Ok (take 7 g)" if "7 \<le> len" using that g by (simp add: rdn_def blk_def)
  have e: "filter_scan g len (7 + k + 1) = Ok (levels_ok (levels (drop (7 + k + 1) g)))"
    if "k = length (takeWhile (\<lambda>c. c \<noteq> TOPIC_LEVEL_SEPERATOR) (drop 7 g))" "7 + k < len - 1" for k
  proof -
    have "k < length (drop 7 g)" using that(2) g by simp
    then have "drop 7 g ! k = TOPIC_LEVEL_SEPERATOR" unfolding that(1)
      using nth_length_takeWhile [of "\<lambda>c. c \<noteq> TOPIC_LEVEL_SEPERATOR" "drop 7 g"] by simp
    then have "g ! (7 + k) = TOPIC_LEVEL_SEPERATOR" using that g by simp
    then show ?thesis
      using filter_scan_eq [of "7 + k + 1" g] scan_ok_levels [of "Some TOPIC_LEVEL_SEPERATOR" "drop (7 + k + 1) g"] g that
      by simp
  qed
  let ?name = "takeWhile (\<lambda>c. c \<noteq> TOPIC_LEVEL_SEPERATOR) (drop 7 g)"
  have "MqttPacket_TopicFilterValid_ex (Some g) len v =
    Ok (if v \<ge> MQTT_CONNECT_PROTOCOL_LEVEL_5 \<and> take 7 g = share_prefix then share_ok g else filter_ok g)"
  proof (cases "v \<ge> MQTT_CONNECT_PROTOCOL_LEVEL_5 \<and> take 7 g = share_prefix")
    case False
    then show ?thesis
      using z r p g by (auto simp: MqttPacket_TopicFilterValid_ex_def filter_ok_def)
  next
    case True
    have len: "7 \<le> len" "len \<noteq> 0" using p True by auto
    have n: "share_name_end g len 7 = Ok (if no_wildcard ?name then Some (7 + length ?name) else None)"
      using share_name_end_eq [of 7 g] len g by (simp add: Let_def)
    have "MqttPacket_TopicFilterValid_ex (Some g) len v = bnd (share_name_end g len 7) (\<lambda>r.
                case r of
                  None \<Rightarrow> Ok False
                | Some name_end \<Rightarrow>
                    if name_end = 7 \<or> name_end \<ge> len - 1 then Ok False
                    else filter_scan g len (name_end + 1))"
      using True r len by (simp add: MqttPacket_TopicFilterValid_ex_def)
    also have "\<dots> = Ok (share_ok g)"
      unfolding n share_split [OF conjunct2 [OF True]] using e [OF refl] g by (auto simp: not_le)
    finally show ?thesis using True by simp
  qed
  then show ?thesis using filter_valid_take [OF assms] by (simp add: g_def)
qed

lemma wildcard_scan_eq:
  "len \<le> length f \<Longrightarrow> wildcard_scan f len i = Ok (\<not> no_wildcard (drop i (take len f)))"
proof (induction "len - i" arbitrary: i rule: less_induct)
  case less
  show ?case
  proof (cases "i < len")
    case False
    then show ?thesis by (subst wildcard_scan.simps) (simp add: no_wildcard_def)
  next
    case True
    with less have "wildcard_scan f len (i + 1) = Ok (\<not> no_wildcard (drop (i + 1) (take len f)))" by simp
    moreover have "drop i (take len f) = f ! i # drop (i + 1) (take len f)"
      using drop_cons [of i "take len f"] True less.prems by simp
    ultimately show ?thesis
      using True less.prems by (subst wildcard_scan.simps) (auto simp: rd_def no_wildcard_def)
  qed
qed

lemma topic_name_valid_eq:
  assumes "len \<le> length t"
  shows "MqttPacket_TopicNameValid (Some t) len v =
    Ok (no_wildcard (take len t) \<and> (len = 0 \<longrightarrow> v \<ge> MQTT_CONNECT_PROTOCOL_LEVEL_5))"
  using assms by (auto simp: MqttPacket_TopicNameValid_def wildcard_scan_eq not_less)

lemma is_wildcard_eq:
  "len \<le> length f \<Longrightarrow> MqttPacket_TopicFilterIsWildcard (Some f) len = Ok (\<not> no_wildcard (take len f))"
  by (simp add: MqttPacket_TopicFilterIsWildcard_def wildcard_scan_eq)

lemma is_shared_eq:
  "len \<le> length f \<Longrightarrow>
   MqttPacket_TopicFilterIsShared (Some f) len = Ok (take 7 (take len f) = share_prefix)"
proof -
  assume l: "len \<le> length f"
  have "7 \<le> len" if "take 7 (take len f) = share_prefix"
  proof -
    from that have "length (take 7 (take len f)) = 7" by (simp add: share_prefix_def)
    then show ?thesis using l by simp
  qed
  then show ?thesis using l by (auto simp: MqttPacket_TopicFilterIsShared_def rdn_def blk_def min_def)
qed

section \<open>The rules of the standard\<close>

text \<open>C34: a v5 filter that starts with \<^verbatim>\<open>$share/\<close> is accepted exactly when a non-empty share name
  without wildcards and a valid filter follow; any other filter exactly when it is not empty, every
  wildcard fills its level and the multi-level one is the last level.\<close>

theorem topic_filter_rule:
  assumes "n \<le> length f"
  shows "MqttPacket_TopicFilterValid_ex (Some f) n v =
    Ok (if v \<ge> MQTT_CONNECT_PROTOCOL_LEVEL_5 \<and> take 7 (take n f) = share_prefix
        then share_ok (take n f) else filter_ok (take n f))"
  using assms by (rule filter_valid_eq)

theorem topic_filter_rule_witness:
  "MqttPacket_TopicFilterValid_ex (Some [0x61, 0x2F, 0x2B, 0x2F, 0x23]) 5 4 = Ok (filter_ok [0x61, 0x2F, 0x2B, 0x2F, 0x23]) \<and>
   filter_ok [0x61, 0x2F, 0x2B, 0x2F, 0x23] \<and> \<not> filter_ok [0x61, 0x2B]"
proof -
  have f: "filter_ok [0x61, 0x2F, 0x2B, 0x2F, 0x23]" "\<not> filter_ok [0x61, 0x2B]"
    by (simp_all add: filter_ok_def level_ok_def)
  with topic_filter_rule [of 5 "[0x61, 0x2F, 0x2B, 0x2F, 0x23]" 4] show ?thesis by simp
qed

text \<open>A Topic Name is accepted exactly when it has no wildcard character and is not empty, where a
  v5 name may be empty; \<^verbatim>\<open>MqttPacket_TopicFilterIsWildcard\<close> answers the opposite of the first.\<close>

theorem topic_name_rule:
  assumes "n \<le> length t"
  shows "MqttPacket_TopicNameValid (Some t) n v =
      Ok (TOPIC_LEVEL_MULTI \<notin> set (take n t) \<and> TOPIC_LEVEL_SINGLE \<notin> set (take n t) \<and> (n = 0 \<longrightarrow> v \<ge> 5)) \<and>
    MqttPacket_TopicFilterIsWildcard (Some t) n =
      Ok (TOPIC_LEVEL_MULTI \<in> set (take n t) \<or> TOPIC_LEVEL_SINGLE \<in> set (take n t))"
  using topic_name_valid_eq [OF assms, of v] is_wildcard_eq [OF assms] by (auto simp: no_wildcard_def)

theorem topic_name_rule_witness:
  "MqttPacket_TopicNameValid (Some [0x61, 0x2B]) 2 5 = Ok False \<and> MqttPacket_TopicNameValid (Some [0x61, 0x2B]) 1 5 = Ok True"
  using topic_name_rule [of 2 "[0x61, 0x2B]" 5] topic_name_rule [of 1 "[0x61, 0x2B]" 5] by simp

end
