(* ===== verification/Mqtt_Header.thy ===== *)
theory Mqtt_Header
  imports Mqtt_Wire Mqtt_Topic
begin

text \<open>
  The fixed header of an MQTT packet and the per-packet tables of allowed codes, from
  \<^verbatim>\<open>src/mqtt_packet.c\<close> and \<^verbatim>\<open>wolfmqtt/mqtt_packet.h\<close>: the packet types, the quality of service,
  the reserved-flag table, \<^verbatim>\<open>MqttEncode_FixedHeader\<close> and \<^verbatim>\<open>MqttDecode_FixedHeader\<close>, and the
  validity of SUBACK, DISCONNECT, UNSUBACK, PUBACK-family and CONNACK codes.  The encoder writes a
  header of reference bytes, the decoder inverts it and refuses every other flag nibble.
\<close>

section \<open>Data\<close>

abbreviation (input) "MQTT_PACKET_TYPE_CONNECT \<equiv> (1 :: byte)"
abbreviation (input) "MQTT_PACKET_TYPE_CONNECT_ACK \<equiv> (2 :: byte)"
abbreviation (input) "MQTT_PACKET_TYPE_PUBLISH \<equiv> (3 :: byte)"
abbreviation (input) "MQTT_PACKET_TYPE_PUBLISH_ACK \<equiv> (4 :: byte)"
abbreviation (input) "MQTT_PACKET_TYPE_PUBLISH_REC \<equiv> (5 :: byte)"
abbreviation (input) "MQTT_PACKET_TYPE_PUBLISH_REL \<equiv> (6 :: byte)"
abbreviation (input) "MQTT_PACKET_TYPE_PUBLISH_COMP \<equiv> (7 :: byte)"
abbreviation (input) "MQTT_PACKET_TYPE_SUBSCRIBE \<equiv> (8 :: byte)"
abbreviation (input) "MQTT_PACKET_TYPE_SUBSCRIBE_ACK \<equiv> (9 :: byte)"
abbreviation (input) "MQTT_PACKET_TYPE_UNSUBSCRIBE \<equiv> (10 :: byte)"
abbreviation (input) "MQTT_PACKET_TYPE_UNSUBSCRIBE_ACK \<equiv> (11 :: byte)"
abbreviation (input) "MQTT_PACKET_TYPE_PING_REQ \<equiv> (12 :: byte)"
abbreviation (input) "MQTT_PACKET_TYPE_PING_RESP \<equiv> (13 :: byte)"
abbreviation (input) "MQTT_PACKET_TYPE_DISCONNECT \<equiv> (14 :: byte)"
abbreviation (input) "MQTT_PACKET_TYPE_AUTH \<equiv> (15 :: byte)"

datatype MqttQoS = MQTT_QOS_0 | MQTT_QOS_1 | MQTT_QOS_2 | MQTT_QOS_3

fun qos_code :: "MqttQoS \<Rightarrow> byte" where
  "qos_code MQTT_QOS_0 = 0"
| "qos_code MQTT_QOS_1 = 1"
| "qos_code MQTT_QOS_2 = 2"
| "qos_code MQTT_QOS_3 = 3"

text \<open>The C code compares values of this enumeration.\<close>

instantiation MqttQoS :: linorder
begin

definition less_eq_MqttQoS :: "MqttQoS \<Rightarrow> MqttQoS \<Rightarrow> bool" where
  "less_eq_MqttQoS a b = (qos_code a \<le> qos_code b)"

definition less_MqttQoS :: "MqttQoS \<Rightarrow> MqttQoS \<Rightarrow> bool" where
  "less_MqttQoS a b = (qos_code a < qos_code b)"

instance
proof
  fix a b c :: MqttQoS
  show "(a < b) = (a \<le> b \<and> \<not> b \<le> a)" "a \<le> a" "a \<le> b \<or> b \<le> a"
    "a \<le> b \<Longrightarrow> b \<le> c \<Longrightarrow> a \<le> c"
    by (auto simp: less_eq_MqttQoS_def less_MqttQoS_def)
  show "a \<le> b \<Longrightarrow> b \<le> a \<Longrightarrow> a = b"
    by (cases a; cases b) (simp_all add: less_eq_MqttQoS_def word_le_nat_alt)
qed

end

definition qos_of :: "byte \<Rightarrow> MqttQoS" where
  "qos_of b = (if b = 0 then MQTT_QOS_0 else if b = 1 then MQTT_QOS_1
               else if b = 2 then MQTT_QOS_2 else MQTT_QOS_3)"

section \<open>Operations\<close>

definition MQTT_PACKET_TYPE_GET :: "byte \<Rightarrow> byte" where
  "MQTT_PACKET_TYPE_GET x = drop_bit 4 x AND 0xF"

definition MQTT_PACKET_TYPE_SET :: "byte \<Rightarrow> byte" where
  "MQTT_PACKET_TYPE_SET x = push_bit 4 (x AND 0xF)"

definition MQTT_PACKET_FLAGS_GET :: "byte \<Rightarrow> byte" where
  "MQTT_PACKET_FLAGS_GET x = x AND 0xF"

definition MQTT_PACKET_FLAGS_GET_QOS :: "byte \<Rightarrow> byte" where
  "MQTT_PACKET_FLAGS_GET_QOS x = drop_bit 1 (MQTT_PACKET_FLAGS_GET x AND 0x6)"

definition MQTT_PACKET_FLAGS_SET_QOS :: "byte \<Rightarrow> byte" where
  "MQTT_PACKET_FLAGS_SET_QOS qos = push_bit 1 qos AND 0x6"

abbreviation (input) "MQTT_PACKET_FLAG_RETAIN \<equiv> (0x1 :: byte)"
abbreviation (input) "MQTT_PACKET_FLAG_DUPLICATE \<equiv> (0x8 :: byte)"

text \<open>The bytes \<open>retain\<close> and \<open>duplicate\<close> are C booleans: any non-zero value is true.\<close>

definition type_flags :: "byte \<Rightarrow> byte \<Rightarrow> byte \<Rightarrow> byte \<Rightarrow> byte" where
  "type_flags type retain qos duplicate =
     (let f0 = MQTT_PACKET_TYPE_SET type OR 0;
          f1 = (if retain \<noteq> 0 then f0 OR MQTT_PACKET_FLAG_RETAIN else f0);
          f2 = (if qos \<noteq> 0 then f1 OR MQTT_PACKET_FLAGS_SET_QOS qos else f1)
      in if duplicate \<noteq> 0 then f2 OR MQTT_PACKET_FLAG_DUPLICATE else f2)"

definition MqttEncode_FixedHeader ::
  "mem \<Rightarrow> int \<Rightarrow> int \<Rightarrow> byte \<Rightarrow> byte \<Rightarrow> byte \<Rightarrow> byte \<Rightarrow> (mem \<times> nat) outcome" where
  "MqttEncode_FixedHeader tx_buf tx_buf_len remain_len type retain qos duplicate =
     (if tx_buf_len < int MQTT_PACKET_MAX_LEN_BYTES + 1 then Err OUT_OF_BUFFER
      else bnd (wr tx_buf 0 [type_flags type retain qos duplicate]) (\<lambda>m1.
        bnd (MqttEncode_Vbi m1 (Some 1) (word_of_int remain_len)) (\<lambda>(m2, header_len).
        Ok (m2, header_len + 1))))"

definition FixedHeaderFlagsExpected :: "byte \<Rightarrow> byte option" where
  "FixedHeaderFlagsExpected type =
     (if type \<in> {MQTT_PACKET_TYPE_CONNECT, MQTT_PACKET_TYPE_CONNECT_ACK,
                 MQTT_PACKET_TYPE_PUBLISH_ACK, MQTT_PACKET_TYPE_PUBLISH_REC,
                 MQTT_PACKET_TYPE_PUBLISH_COMP, MQTT_PACKET_TYPE_SUBSCRIBE_ACK,
                 MQTT_PACKET_TYPE_UNSUBSCRIBE_ACK, MQTT_PACKET_TYPE_PING_REQ,
                 MQTT_PACKET_TYPE_PING_RESP, MQTT_PACKET_TYPE_DISCONNECT,
                 MQTT_PACKET_TYPE_AUTH} then Some 0x0
      else if type \<in> {MQTT_PACKET_TYPE_PUBLISH_REL, MQTT_PACKET_TYPE_SUBSCRIBE,
                      MQTT_PACKET_TYPE_UNSUBSCRIBE} then Some 0x2
      else None)"

definition MqttPacket_FixedHeaderFlagsValid :: "byte \<Rightarrow> bool" where
  "MqttPacket_FixedHeaderFlagsValid tf =
     (let type = MQTT_PACKET_TYPE_GET tf; flags = MQTT_PACKET_FLAGS_GET tf in
      if type = MQTT_PACKET_TYPE_PUBLISH then
        (let qos = MQTT_PACKET_FLAGS_GET_QOS tf;
             dup = flags AND MQTT_PACKET_FLAG_DUPLICATE \<noteq> 0
         in if qos > 2 then False
            else if qos = 0 \<and> dup then False
            else True)
      else case FixedHeaderFlagsExpected type of
          Some expected \<Rightarrow> flags = expected
        | None \<Rightarrow> False)"

record fixed_header =
  fh_header_len :: nat
  fh_remain_len :: int
  fh_qos :: MqttQoS
  fh_retain :: byte
  fh_duplicate :: byte

definition MqttDecode_FixedHeader :: "mem \<Rightarrow> int \<Rightarrow> byte \<Rightarrow> fixed_header outcome" where
  "MqttDecode_FixedHeader rx_buf rx_buf_len type =
     (if rx_buf_len < 2 then Err OUT_OF_BUFFER
      else bnd (MqttDecode_Vbi rx_buf 1 (u32 (rx_buf_len - 1))) (\<lambda>(remain_len_u32, header_len).
        if unat remain_len_u32 > MQTT_PACKET_MAX_REMAIN_LEN then Err MALFORMED_DATA
        else bnd (rd rx_buf 0) (\<lambda>tf.
        if MQTT_PACKET_TYPE_GET tf \<noteq> type then Err PACKET_TYPE
        else if \<not> MqttPacket_FixedHeaderFlagsValid tf then Err MALFORMED_DATA
        else Ok \<lparr>fh_header_len = header_len + 1,
                 fh_remain_len = s32 remain_len_u32,
                 fh_qos = qos_of (MQTT_PACKET_FLAGS_GET_QOS tf),
                 fh_retain = (if MQTT_PACKET_FLAGS_GET tf AND MQTT_PACKET_FLAG_RETAIN \<noteq> 0
                              then 1 else 0),
                 fh_duplicate = (if MQTT_PACKET_FLAGS_GET tf AND MQTT_PACKET_FLAG_DUPLICATE \<noteq> 0
                                 then 1 else 0)\<rparr>)))"

subsection \<open>Tables of allowed codes\<close>

definition MqttPacket_SubAckReturnCodeValid :: "byte \<Rightarrow> byte \<Rightarrow> bool" where
  "MqttPacket_SubAckReturnCodeValid code protocol_level =
     (if code = 0x00 \<or> code = 0x01 \<or> code = 0x02 \<or> code = 0x80 then True
      else protocol_level \<ge> MQTT_CONNECT_PROTOCOL_LEVEL_5 \<and>
           code \<in> {0x83, 0x87, 0x8F, 0x91, 0x97, 0x9E, 0xA1, 0xA2})"

definition MqttPacket_DisconnectReasonCodeValid :: "byte \<Rightarrow> bool" where
  "MqttPacket_DisconnectReasonCodeValid code =
     (code \<in> {0x00, 0x04, 0x80, 0x81, 0x82, 0x83, 0x87, 0x89, 0x8B, 0x8D, 0x8E, 0x8F, 0x90,
              0x93, 0x94, 0x95, 0x96, 0x97, 0x98, 0x99, 0x9A, 0x9B, 0x9C, 0x9D, 0x9E, 0x9F,
              0xA0, 0xA1, 0xA2})"

definition MqttPacket_UnsubAckReasonCodeValid :: "byte \<Rightarrow> bool" where
  "MqttPacket_UnsubAckReasonCodeValid code =
     (code \<in> {0x00, 0x11, 0x80, 0x83, 0x87, 0x8F, 0x91})"

definition MqttPacket_PublishRespReasonCodeValid :: "byte \<Rightarrow> byte \<Rightarrow> bool" where
  "MqttPacket_PublishRespReasonCodeValid type code =
     (if type = MQTT_PACKET_TYPE_PUBLISH_REL \<or> type = MQTT_PACKET_TYPE_PUBLISH_COMP
      then code \<in> {0x00, 0x92}
      else code \<in> {0x00, 0x10, 0x80, 0x83, 0x87, 0x90, 0x91, 0x97, 0x99})"

definition MqttPacket_ConnectAckReturnCodeValid :: "byte \<Rightarrow> byte \<Rightarrow> bool" where
  "MqttPacket_ConnectAckReturnCodeValid code protocol_level =
     (if protocol_level \<ge> MQTT_CONNECT_PROTOCOL_LEVEL_5
      then code \<in> {0x00, 0x80, 0x81, 0x82, 0x83, 0x84, 0x85, 0x86, 0x87, 0x88, 0x89, 0x8A,
                   0x8C, 0x90, 0x95, 0x97, 0x99, 0x9A, 0x9B, 0x9C, 0x9D, 0x9F}
      else code \<le> 5)"

section \<open>Laws\<close>

text \<open>The reference bytes of a fixed header.\<close>

definition header_bytes :: "byte \<Rightarrow> byte \<Rightarrow> byte \<Rightarrow> byte \<Rightarrow> nat \<Rightarrow> byte list" where
  "header_bytes type retain qos duplicate remain_len =
     type_flags type retain qos duplicate # vbi_bytes remain_len"

lemma header_bytes_length [simp]:
  "length (header_bytes t r q d n) = 1 + length (vbi_bytes n)"
  by (simp add: header_bytes_def)

lemma header_bytes_length_5: "n \<le> 0x0FFFFFFF \<Longrightarrow> length (header_bytes t r q d n) \<le> 5"
  using vbi_bytes_length_4 [of n] by simp

lemma u32_word: "unat (word_of_int x :: word32) = u32 x"
  unfolding u32_def by (simp add: unsigned_of_int take_bit_eq_mod)

lemma s32_small: "unat x < 2147483648 \<Longrightarrow> s32 x = int (unat x)"
proof -
  assume "unat x < 2147483648"
  then have "int (unat x) < int 2147483648" by (simp only: of_nat_less_iff)
  then have "uint x < 2147483648" by (simp only: of_nat_unat of_nat_numeral)
  then have "signed_take_bit 31 (uint x) = uint x"
    using order_trans [of "- 2147483648" 0, OF _ uint_ge_0 [of x]]
    by (intro signed_take_bit_int_eq_self) simp_all
  then show ?thesis by (simp add: s32_def sint_uint)
qed

lemma MqttEncode_FixedHeader_eq [enc_eq]:
  "MqttEncode_FixedHeader m tx_buf_len remain_len t r q d =
     (if tx_buf_len < 5 then Err OUT_OF_BUFFER
      else if u32 remain_len > 0x0FFFFFFF then bnd (wr m 0 [type_flags t r q d]) (\<lambda>_. Err MALFORMED_DATA)
      else bnd (wr m 0 (header_bytes t r q d (u32 remain_len)))
             (\<lambda>m'. Ok (m', length (header_bytes t r q d (u32 remain_len)))))"
  using wr_append [of m 0 "[type_flags t r q d]" "vbi_bytes (u32 remain_len)"]
  by (simp add: MqttEncode_FixedHeader_def MqttEncode_Vbi_eq u32_word header_bytes_def bnd_assoc)

text \<open>What a header byte and a remaining length stand for.\<close>

definition header_of :: "byte \<Rightarrow> nat \<Rightarrow> fixed_header" where
  "header_of tf n =
     \<lparr>fh_header_len = 1 + length (vbi_bytes n), fh_remain_len = int n,
      fh_qos = qos_of (MQTT_PACKET_FLAGS_GET_QOS tf),
      fh_retain = of_bool (MQTT_PACKET_FLAGS_GET tf AND MQTT_PACKET_FLAG_RETAIN \<noteq> 0),
      fh_duplicate = of_bool (MQTT_PACKET_FLAGS_GET tf AND MQTT_PACKET_FLAG_DUPLICATE \<noteq> 0)\<rparr>"

lemma header_of_simps [simp]:
  "fh_header_len (header_of tf n) = 1 + length (vbi_bytes n)"
  "fh_remain_len (header_of tf n) = int n"
  by (simp_all add: header_of_def)

lemma MqttDecode_FixedHeader_no_fault [no_fault]:
  assumes "rx_buf_len \<le> int (length m)" "rx_buf_len < 2 ^ 32"
  shows "MqttDecode_FixedHeader m rx_buf_len t \<noteq> Fault"
proof (cases "rx_buf_len < 2")
  case False
  with assms have "1 + u32 (rx_buf_len - 1) \<le> length m" by simp
  then have "MqttDecode_Vbi m 1 (u32 (rx_buf_len - 1)) \<noteq> Fault" by (rule MqttDecode_Vbi_no_fault)
  with False assms show ?thesis
    by (auto simp: MqttDecode_FixedHeader_def bnd_Fault_iff rd_def split: if_splits)
qed (simp add: MqttDecode_FixedHeader_def)

lemma MqttDecode_FixedHeader_sound:
  assumes "MqttDecode_FixedHeader m rx_buf_len t = Ok h" "rx_buf_len < 2 ^ 32"
  obtains tf n where "h = header_of tf n" "blk m 0 (fh_header_len h) = tf # vbi_bytes n"
    "fh_header_len h \<le> length m" "int (fh_header_len h) \<le> rx_buf_len" "n \<le> 0x0FFFFFFF"
    "MQTT_PACKET_TYPE_GET tf = t" "MqttPacket_FixedHeaderFlagsValid tf" "fh_header_len h \<le> 5"
proof -
  from assms obtain w k where d: "MqttDecode_Vbi m 1 (u32 (rx_buf_len - 1)) = Ok (w, k)"
    and ge: "2 \<le> rx_buf_len" and r: "m \<noteq> []"
    and t: "MQTT_PACKET_TYPE_GET (m ! 0) = t" "MqttPacket_FixedHeaderFlagsValid (m ! 0)"
    and h: "fh_header_len h = k + 1" "fh_remain_len h = s32 w"
      "fh_qos h = qos_of (MQTT_PACKET_FLAGS_GET_QOS (m ! 0))"
      "fh_retain h = of_bool (MQTT_PACKET_FLAGS_GET (m ! 0) AND MQTT_PACKET_FLAG_RETAIN \<noteq> 0)"
      "fh_duplicate h = of_bool (MQTT_PACKET_FLAGS_GET (m ! 0) AND MQTT_PACKET_FLAG_DUPLICATE \<noteq> 0)"
    by (auto simp: MqttDecode_FixedHeader_def bnd_Ok_iff rd_def split: if_splits)
  note v = MqttDecode_Vbi_sound [OF d]
  have "h = header_of (m ! 0) (unat w)"
    using h v by (simp add: header_of_def s32_small)
  moreover have "blk m 0 (fh_header_len h) = m ! 0 # vbi_bytes (unat w)"
    using h(1) v r by (simp add: blk_Suc)
  ultimately show thesis
    using that [of "m ! 0" "unat w"] t v h(1) assms(2) ge by simp
qed

lemma MqttDecode_FixedHeader_complete [dec_ok]:
  assumes "blk m 0 (1 + length (vbi_bytes n)) = tf # vbi_bytes n"
    and "1 + length (vbi_bytes n) \<le> length m" "int (1 + length (vbi_bytes n)) \<le> rx_buf_len"
    and "rx_buf_len < 2 ^ 32" "n \<le> 0x0FFFFFFF"
    and "MQTT_PACKET_TYPE_GET tf = t" "MqttPacket_FixedHeaderFlagsValid tf"
  shows "MqttDecode_FixedHeader m rx_buf_len t = Ok (header_of tf n)"
proof -
  have l: "0 < length (vbi_bytes n)" by simp
  from assms(1,2) have b: "m ! 0 = tf" "blk m 1 (length (vbi_bytes n)) = vbi_bytes n"
    using blk_Suc [of 0 m "length (vbi_bytes n)"] by (cases m; simp)+
  have "\<not> rx_buf_len < 2" using assms(3) l by linarith
  moreover have "MqttDecode_Vbi m 1 (u32 (rx_buf_len - 1)) = Ok (word_of_nat n, length (vbi_bytes n))"
    using b assms calculation by (intro MqttDecode_Vbi_complete) auto
  moreover have "rd m 0 = Ok tf" using assms(2) b l by (cases m) (simp_all add: rd_def)
  moreover have "s32 (word_of_nat n) = int n" "unat (word_of_nat n :: word32) = n"
    using assms(5) by (simp_all add: s32_small unat_word32_of_nat)
  ultimately show ?thesis using assms by (simp add: MqttDecode_FixedHeader_def header_of_def)
qed

subsection \<open>Flags\<close>

lemma mask_F: "(0xF :: byte) = mask 4" by (simp add: mask_eq_exp_minus_1)

lemma nibbles:
  "MQTT_PACKET_FLAGS_GET (MQTT_PACKET_TYPE_SET t OR (l AND 0xF)) = l AND 0xF"
  "MQTT_PACKET_TYPE_GET (MQTT_PACKET_TYPE_SET t OR (l AND 0xF)) = t AND 0xF"
  unfolding MQTT_PACKET_FLAGS_GET_def MQTT_PACKET_TYPE_SET_def MQTT_PACKET_TYPE_GET_def mask_F
  by (rule bit_word_eqI; auto simp: bit_simps)+

lemma and_F_id: "(t :: byte) < 16 \<Longrightarrow> t AND 0xF = t"
proof -
  assume "t < 16"
  then have "unat t < 16" by (simp add: word_less_nat_alt)
  then have "unat (take_bit 4 t) = unat t" by (simp add: unsigned_take_bit_eq) (simp add: take_bit_eq_mod)
  then show ?thesis unfolding mask_F by (simp add: take_bit_eq_mask word_unat_eq_iff)
qed

lemma qos_cases: "(q :: byte) < 4 \<Longrightarrow> q \<in> {0, 1, 2, 3}"
proof -
  assume "q < 4"
  then have "unat q < 4" by (simp add: word_less_nat_alt)
  then have "unat q = 0 \<or> unat q = 1 \<or> unat q = 2 \<or> unat q = 3" by linarith
  then show ?thesis by (elim disjE) (drule byte_eq_of_nat, simp)+
qed

text \<open>The low nibble of a flag byte, as a table.\<close>

definition flag_nibble :: "byte \<Rightarrow> byte \<Rightarrow> byte \<Rightarrow> byte" where
  "flag_nibble r q d = (if r \<noteq> 0 then 1 else 0) OR push_bit 1 q OR (if d \<noteq> 0 then 8 else 0)"

lemma flag_nibble_table:
  assumes "q < 4"
  shows "flag_nibble r q d AND 0xF = flag_nibble r q d" "drop_bit 1 (flag_nibble r q d AND 6) = q"
    "(flag_nibble r q d AND 1 = 0) = (r = 0)" "(flag_nibble r q d AND 8 = 0) = (d = 0)"
    "flag_nibble r q d = 0 \<longleftrightarrow> r = 0 \<and> q = 0 \<and> d = 0"
    "flag_nibble r q d = 2 \<longleftrightarrow> r = 0 \<and> q = 1 \<and> d = 0"
  using qos_cases [OF assms] by (auto simp: flag_nibble_def)

lemma type_flags_nibble:
  assumes "q < 4"
  shows "type_flags t r q d = MQTT_PACKET_TYPE_SET t OR (flag_nibble r q d AND 0xF)"
  unfolding flag_nibble_table(1) [OF assms]
  using qos_cases [OF assms]
  by (auto simp: type_flags_def flag_nibble_def MQTT_PACKET_FLAGS_SET_QOS_def or.assoc)

lemma nibble_cases:
  "(t :: byte) < 16 \<Longrightarrow> t \<in> {0, 1, 2, 3, 4, 5, 6, 7, 8, 9, 10, 11, 12, 13, 14, 15}"
proof -
  assume "t < 16"
  then have "unat t \<in> set [0..<16]" by (simp add: word_less_nat_alt)
  then have "word_of_nat (unat t) \<in> set (map word_of_nat [0..<16] :: byte list)" by (simp only: set_map imageI)
  moreover have "map word_of_nat [0..<16] = [0, 1, 2, 3, 4, 5, 6, 7, 8, 9, 10, 11, 12, 13, 14, 15 :: byte]"
    by (simp add: upt_rec)
  ultimately show ?thesis by simp
qed

lemma FixedHeaderFlagsExpected_eq:
  "t < 16 \<Longrightarrow> FixedHeaderFlagsExpected t =
     (if t = 0 \<or> t = 3 then None else if t = 6 \<or> t = 8 \<or> t = 10 then Some 2 else Some 0)"
  using nibble_cases [of t] by (auto simp: FixedHeaderFlagsExpected_def)

lemma type_flags_get:
  assumes "t < 16" "q < 4"
  shows "MQTT_PACKET_TYPE_GET (type_flags t r q d) = t"
    "MQTT_PACKET_FLAGS_GET (type_flags t r q d) = flag_nibble r q d"
    "MQTT_PACKET_FLAGS_GET_QOS (type_flags t r q d) = q"
  unfolding MQTT_PACKET_FLAGS_GET_QOS_def type_flags_nibble [OF assms(2)] nibbles
  using flag_nibble_table [OF assms(2), of r d] and_F_id [OF assms(1)] by simp_all

lemma type_flags_valid:
  assumes "t < 16" "q < 4"
  shows "MqttPacket_FixedHeaderFlagsValid (type_flags t r q d) =
       (if t = 3 then q < 3 \<and> (d \<noteq> 0 \<longrightarrow> q \<noteq> 0)
        else t \<noteq> 0 \<and> r = 0 \<and> d = 0 \<and> q = of_bool (t = 6 \<or> t = 8 \<or> t = 10))"
proof -
  note f = flag_nibble_table [OF assms(2), of r d]
  have q: "2 < q \<longleftrightarrow> \<not> q < 3" using qos_cases [OF assms(2)] by auto
  show ?thesis
    unfolding MqttPacket_FixedHeaderFlagsValid_def type_flags_get [OF assms]
      FixedHeaderFlagsExpected_eq [OF assms(1)] Let_def f(4) q
    using f(5,6) by auto
qed

lemma qos_code_less [simp]: "qos_code q < 4"
  by (cases q) simp_all

lemma qos_of_code [simp]: "qos_of (qos_code q) = q"
  by (cases q) (simp_all add: qos_of_def)

lemma header_of_flags:
  assumes "t < 16"
  shows "header_of (type_flags t r (qos_code q) d) n =
    \<lparr>fh_header_len = 1 + length (vbi_bytes n), fh_remain_len = int n, fh_qos = q,
     fh_retain = of_bool (r \<noteq> 0), fh_duplicate = of_bool (d \<noteq> 0)\<rparr>"
  using type_flags_get [OF assms qos_code_less [of q], of r d]
    flag_nibble_table(3,4) [OF qos_code_less [of q], of r d] by (simp add: header_of_def)

text \<open>The flag byte of a PUBLISH and the fields it stands for determine each other.\<close>

lemma tf_publish:
  "MQTT_PACKET_TYPE_GET tf = 3 \<longrightarrow> tf = type_flags 3 (of_bool (MQTT_PACKET_FLAGS_GET tf AND 1 \<noteq> 0))
     (MQTT_PACKET_FLAGS_GET_QOS tf) (of_bool (MQTT_PACKET_FLAGS_GET tf AND 8 \<noteq> 0))"
  by (rule byte_cases_256 [where P = "\<lambda>tf. MQTT_PACKET_TYPE_GET tf = 3 \<longrightarrow> tf = type_flags 3 (of_bool (MQTT_PACKET_FLAGS_GET tf AND 1 \<noteq> 0))
     (MQTT_PACKET_FLAGS_GET_QOS tf) (of_bool (MQTT_PACKET_FLAGS_GET tf AND 8 \<noteq> 0))"]) code_simp

lemma qos_bits: "MQTT_PACKET_FLAGS_GET_QOS tf < 4"
  by (rule byte_cases_256 [where P = "\<lambda>tf. MQTT_PACKET_FLAGS_GET_QOS tf < 4"]) code_simp

lemma qos_code_of: "b < 4 \<Longrightarrow> qos_code (qos_of b) = b"
  using qos_cases [of b] by (auto simp: qos_of_def)

lemma header_publish:
  fixes n :: nat
  assumes "MQTT_PACKET_TYPE_GET tf = 3" "MqttPacket_FixedHeaderFlagsValid tf"
  defines "h \<equiv> header_of tf n"
  shows "tf = type_flags 3 (fh_retain h) (qos_code (fh_qos h)) (fh_duplicate h)"
    "fh_qos h \<noteq> MQTT_QOS_3" "fh_qos h = MQTT_QOS_0 \<longrightarrow> fh_duplicate h = 0"
proof -
  show e: "tf = type_flags 3 (fh_retain h) (qos_code (fh_qos h)) (fh_duplicate h)"
    using tf_publish assms(1) by (simp add: h_def header_of_def qos_code_of [OF qos_bits])
  have "MqttPacket_FixedHeaderFlagsValid (type_flags 3 (fh_retain h) (qos_code (fh_qos h)) (fh_duplicate h))"
    using assms(2) e by simp
  then have "qos_code (fh_qos h) < 3 \<and> (fh_duplicate h \<noteq> 0 \<longrightarrow> qos_code (fh_qos h) \<noteq> 0)"
    by (subst (asm) type_flags_valid) simp_all
  then show "fh_qos h \<noteq> MQTT_QOS_3" "fh_qos h = MQTT_QOS_0 \<longrightarrow> fh_duplicate h = 0" by auto
qed

section \<open>Properties of the fixed header\<close>

text \<open>
  The fixed header of sections 2.2 and 3.3.1 of the standard, in arithmetic on the first byte: the packet type in the
  upper four bits and, in the lower four, the flags the standard reserves for the type, or for PUBLISH the flags DUP, QoS
  and RETAIN, with a QoS below 3 and no DUP for QoS 0.
\<close>

definition std_flags :: "byte \<Rightarrow> byte set" where
  "std_flags t =
     (if t = 3 then {0, 1, 2, 3, 4, 5, 10, 11, 12, 13}
      else if t = 6 \<or> t = 8 \<or> t = 10 then {2}
      else if 1 \<le> t \<and> t \<le> 15 then {0} else {})"

definition std_header :: "byte \<Rightarrow> nat \<Rightarrow> fixed_header" where
  "std_header tf n =
     \<lparr>fh_header_len = 1 + length (vbi_bytes n), fh_remain_len = int n,
      fh_qos = [MQTT_QOS_0, MQTT_QOS_1, MQTT_QOS_2, MQTT_QOS_3] ! unat (tf div 2 mod 4),
      fh_retain = tf mod 2, fh_duplicate = tf div 8 mod 2\<rparr>"

lemma std_type_eq: "MQTT_PACKET_TYPE_GET tf = tf div 16"
  by (rule byte_cases_256 [where P = "\<lambda>tf. MQTT_PACKET_TYPE_GET tf = tf div 16"]) code_simp

lemma std_nibble_eq: "MQTT_PACKET_FLAGS_GET tf = tf mod 16"
  by (rule byte_cases_256 [where P = "\<lambda>tf. MQTT_PACKET_FLAGS_GET tf = tf mod 16"]) code_simp

lemma type_cases:
  fixes t :: byte
  shows "t \<in> {1, 2, 4, 5, 7, 9, 11, 12, 13, 14, 15} \<longleftrightarrow> 1 \<le> t \<and> t \<le> 15 \<and> t \<noteq> 3 \<and> t \<noteq> 6 \<and> t \<noteq> 8 \<and> t \<noteq> 10"
proof (cases "t < 16")
  case True
  from nibble_cases [OF this] show ?thesis by (elim insertE emptyE) simp_all
next
  case False
  then have "\<not> t \<le> 15" by (simp add: word_less_nat_alt word_le_nat_alt)
  moreover have "t \<notin> {1, 2, 4, 5, 7, 9, 11, 12, 13, 14, 15}" using False by (intro notI, elim insertE emptyE) simp_all
  ultimately show ?thesis by blast
qed

lemma publish_flags:
  fixes f :: byte
  assumes "f < 16"
  shows "(if 2 < drop_bit 1 (f AND 0x6) then False
      else if drop_bit 1 (f AND 0x6) = 0 \<and> f AND MQTT_PACKET_FLAG_DUPLICATE \<noteq> 0 then False else True)
    \<longleftrightarrow> f \<in> {0, 1, 2, 3, 4, 5, 10, 11, 12, 13}"
  using nibble_cases [OF assms] by (elim insertE emptyE) (simp_all add: drop_bit_eq_div)

lemma std_flags_eq: "MqttPacket_FixedHeaderFlagsValid tf \<longleftrightarrow> tf mod 16 \<in> std_flags (tf div 16)"
proof -
  have "tf mod 16 < 16" by (simp add: word_mod_less_divisor)
  note p = publish_flags [OF this]
  show ?thesis
  proof (cases "tf div 16 = 3")
    case True
    show ?thesis
      unfolding MqttPacket_FixedHeaderFlagsValid_def std_flags_def std_type_eq MQTT_PACKET_FLAGS_GET_QOS_def std_nibble_eq
        Let_def True if_P [OF refl]
      by (rule p)
  next
    case False
    then show ?thesis using type_cases [of "tf div 16"]
      by (auto simp: MqttPacket_FixedHeaderFlagsValid_def FixedHeaderFlagsExpected_def std_flags_def std_type_eq std_nibble_eq Let_def)
  qed
qed

lemma std_header_eq: "header_of tf n = std_header tf n"
proof -
  have "qos_of (MQTT_PACKET_FLAGS_GET_QOS tf) = [MQTT_QOS_0, MQTT_QOS_1, MQTT_QOS_2, MQTT_QOS_3] ! unat (tf div 2 mod 4)"
    by (rule byte_cases_256 [where P = "\<lambda>tf. qos_of (MQTT_PACKET_FLAGS_GET_QOS tf) = [MQTT_QOS_0, MQTT_QOS_1, MQTT_QOS_2, MQTT_QOS_3] ! unat (tf div 2 mod 4)"])
       code_simp
  moreover have "(of_bool (MQTT_PACKET_FLAGS_GET tf AND MQTT_PACKET_FLAG_RETAIN \<noteq> 0) :: byte) = tf mod 2"
    by (rule byte_cases_256 [where P = "\<lambda>tf. (of_bool (MQTT_PACKET_FLAGS_GET tf AND MQTT_PACKET_FLAG_RETAIN \<noteq> 0) :: byte) = tf mod 2"]) code_simp
  moreover have "(of_bool (MQTT_PACKET_FLAGS_GET tf AND MQTT_PACKET_FLAG_DUPLICATE \<noteq> 0) :: byte) = tf div 8 mod 2"
    by (rule byte_cases_256 [where P = "\<lambda>tf. (of_bool (MQTT_PACKET_FLAGS_GET tf AND MQTT_PACKET_FLAG_DUPLICATE \<noteq> 0) :: byte) = tf div 8 mod 2"]) code_simp
  ultimately show ?thesis by (simp add: header_of_def std_header_def)
qed

text \<open>C37: \<^verbatim>\<open>MqttDecode_FixedHeader\<close> accepts exactly a first byte of the expected packet type with the flags of the
  standard's table, followed by a Remaining Length in its shortest form, and returns the length of the header, the
  Remaining Length and the flags QoS, RETAIN and DUP of the byte; it never reads past the buffer.\<close>

theorem fixed_header_exact:
  assumes "rx_buf_len \<le> int (length m)" "rx_buf_len < 2 ^ 32"
  shows "MqttDecode_FixedHeader m rx_buf_len t \<noteq> Fault \<and>
    (MqttDecode_FixedHeader m rx_buf_len t = Ok h \<longleftrightarrow>
      (\<exists>tf n. h = std_header tf n \<and> tf div 16 = t \<and> tf mod 16 \<in> std_flags t \<and>
         n \<le> 268435455 \<and> int (1 + length (vbi_bytes n)) \<le> rx_buf_len \<and>
         blk m 0 (1 + length (vbi_bytes n)) = tf # vbi_bytes n))" (is "_ \<and> (?L \<longleftrightarrow> ?R)")
proof (intro conjI iffI)
  show "MqttDecode_FixedHeader m rx_buf_len t \<noteq> Fault" using assms by (rule MqttDecode_FixedHeader_no_fault)
next
  assume ?L
  from MqttDecode_FixedHeader_sound [OF this assms(2)] show ?R
    unfolding std_flags_eq std_type_eq std_header_eq by (metis header_of_simps(1) std_header_eq)
next
  assume ?R
  then obtain tf n where r: "h = std_header tf n" "tf div 16 = t" "tf mod 16 \<in> std_flags (tf div 16)" "n \<le> 268435455"
    "int (1 + length (vbi_bytes n)) \<le> rx_buf_len" "blk m 0 (1 + length (vbi_bytes n)) = tf # vbi_bytes n" by auto
  note s = r [folded std_header_eq std_type_eq std_flags_eq]
  show ?L unfolding s(1) by (rule MqttDecode_FixedHeader_complete) (use s assms in auto)
qed

theorem fixed_header_exact_witness:
  "MqttDecode_FixedHeader [0x3B, 0x05, 0] 3 3 = Ok \<lparr>fh_header_len = 2, fh_remain_len = 5, fh_qos = MQTT_QOS_1, fh_retain = 1, fh_duplicate = 1\<rparr>"
proof -
  let ?h = "\<lparr>fh_header_len = 2, fh_remain_len = 5, fh_qos = MQTT_QOS_1, fh_retain = 1, fh_duplicate = 1\<rparr>"
  have b: "blk [0x3B, 0x05, 0] 0 (1 + length (vbi_bytes 5)) = 0x3B # vbi_bytes 5" "length (vbi_bytes 5) = 1"
    by (simp_all add: blk_def vbi_bytes.simps)
  have h: "?h = std_header 0x3B 5" by (simp add: std_header_def b)
  have "\<exists>tf n. ?h = std_header tf n \<and> tf div 16 = 3 \<and> tf mod 16 \<in> std_flags 3 \<and>
      n \<le> 268435455 \<and> int (1 + length (vbi_bytes n)) \<le> 3 \<and> blk [0x3B, 0x05, 0] 0 (1 + length (vbi_bytes n)) = tf # vbi_bytes n"
    unfolding h using b by (intro exI [of _ "0x3B"] exI [of _ "5"]) (simp add: std_flags_def)
  then show ?thesis using fixed_header_exact [of 3 "[0x3B, 0x05, 0]" 3 ?h] by simp
qed

text \<open>The fixed header that \<^verbatim>\<open>MqttEncode_FixedHeader\<close> writes for flags the packet type allows is
  read back with the same Remaining Length, QoS, retain and duplicate flags.\<close>

theorem fixed_header_round_trip:
  assumes "t < 16" "MqttPacket_FixedHeaderFlagsValid (type_flags t r (qos_code q) d)"
    and "n \<le> 268435455" "5 \<le> tx_buf_len" "tx_buf_len \<le> int (length m)"
  shows "\<exists>m' k. MqttEncode_FixedHeader m tx_buf_len (int n) t r (qos_code q) d = Ok (m', k) \<and> k \<le> 5 \<and>
    MqttDecode_FixedHeader m' (int k) t =
      Ok \<lparr>fh_header_len = k, fh_remain_len = int n, fh_qos = q, fh_retain = of_bool (r \<noteq> 0), fh_duplicate = of_bool (d \<noteq> 0)\<rparr>"
proof -
  let ?b = "header_bytes t r (qos_code q) d n"
  have l: "length ?b \<le> 5" "length ?b \<le> length m" using header_bytes_length_5 [OF assms(3), of t r "qos_code q" d] assms(4,5) by linarith+
  have e: "MqttEncode_FixedHeader m tx_buf_len (int n) t r (qos_code q) d = Ok (splice_at m 0 ?b, length ?b)"
    using assms l by (simp add: MqttEncode_FixedHeader_eq wr_def)
  have "MqttDecode_FixedHeader (splice_at m 0 ?b) (int (length ?b)) t = Ok (header_of (type_flags t r (qos_code q) d) n)"
  proof (rule MqttDecode_FixedHeader_complete)
    show "blk (splice_at m 0 ?b) 0 (1 + length (vbi_bytes n)) = type_flags t r (qos_code q) d # vbi_bytes n"
      using blk_splice_at [of 0 ?b m] l by (simp add: header_bytes_def)
  qed (use assms l type_flags_get(1) [OF assms(1), of "qos_code q" r d] in auto)
  then show ?thesis using e l header_of_flags [OF assms(1), of r q d n] by auto
qed

theorem fixed_header_round_trip_witness:
  "\<exists>m' k. MqttEncode_FixedHeader [0, 0, 0, 0, 0] 5 300 3 1 (qos_code MQTT_QOS_1) 1 = Ok (m', k) \<and> k \<le> 5 \<and>
     MqttDecode_FixedHeader m' (int k) 3 =
       Ok \<lparr>fh_header_len = k, fh_remain_len = 300, fh_qos = MQTT_QOS_1, fh_retain = 1, fh_duplicate = 1\<rparr>"
proof -
  have v: "MqttPacket_FixedHeaderFlagsValid (type_flags 3 1 (qos_code MQTT_QOS_1) 1)" by code_simp
  from fixed_header_round_trip [OF _ v, of 300 5 "[0, 0, 0, 0, 0]"] show ?thesis by simp
qed

end
