(* ===== verification/Prop_Pool.thy ===== *)
theory Prop_Pool
  imports Mqtt_Prelude
begin

text \<open>
  The MQTT v5 property lists of \<^verbatim>\<open>src/mqtt_packet.c\<close>: the static array \<^verbatim>\<open>clientPropStack\<close>, from
  which \<^verbatim>\<open>MqttProps_Add\<close> takes a free element and links it to the end of a list, and to which
  \<^verbatim>\<open>MqttProps_Free\<close> gives a whole list back.  A C pointer to a \<^verbatim>\<open>MqttProp\<close> is an index into one
  store whose first \<open>MQTT_MAX_PROPS\<close> cells are the array; the cells behind it are properties that
  belong to the application.  The contract of the allocator is the locale \<open>prop_alloc\<close>.
\<close>

section \<open>Data\<close>

abbreviation (input) "MQTT_MAX_PROPS \<equiv> (30 :: nat)"

text \<open>
  A length and a pointer, \<^verbatim>\<open>struct _MqttProp_Str\<close> and \<^verbatim>\<open>struct _MqttProp_Bin\<close>: the pointer is \<open>None\<close>
  when it is \<^verbatim>\<open>NULL\<close>, else the object it points to.
\<close>

record MqttProp_Str =
  len :: word16
  str :: "byte list option"

record MqttProp =
  type :: nat
  data_byte :: byte
  data_short :: word16
  data_int :: word32
  data_str :: MqttProp_Str
  data_bin :: MqttProp_Str
  data_str2 :: MqttProp_Str
  "next" :: "nat option"

type_synonym store = "MqttProp list"

abbreviation (input) "MQTT_PROP_NONE \<equiv> (0 :: nat)"
abbreviation (input) "MQTT_PROP_TYPE_MAX \<equiv> (0xFF :: nat)"

definition no_str :: MqttProp_Str where
  "no_str = \<lparr>len = 0, str = None\<rparr>"

text \<open>A cell after \<^verbatim>\<open>XMEMSET(new_prop, 0, sizeof(MqttProp))\<close>.\<close>

definition zero_prop :: MqttProp where
  "zero_prop = \<lparr>type = 0, data_byte = 0, data_short = 0, data_int = 0, data_str = no_str,
     data_bin = no_str, data_str2 = no_str, next = None\<rparr>"

section \<open>Operations\<close>

text \<open>
  The loop to the end of a list.  A list with a cycle keeps the C loop running forever; the store
  is finite, so after more steps than it has cells the walk is in a cycle and its result is
  \<open>Fault\<close>, as it is for a pointer that points to no cell.
\<close>

fun list_end :: "nat \<Rightarrow> store \<Rightarrow> nat option \<Rightarrow> nat option \<Rightarrow> nat option outcome" where
  "list_end 0 H prev cur = (if cur = None then Ok prev else Fault)"
| "list_end (Suc n) H prev cur =
     (case cur of None \<Rightarrow> Ok prev
      | Some i \<Rightarrow> if i < length H then list_end n H (Some i) (next (H ! i)) else Fault)"

fun find_free :: "nat list \<Rightarrow> store \<Rightarrow> nat option outcome" where
  "find_free [] H = Ok None"
| "find_free (i # is) H =
     (if i < length H then if type (H ! i) = MQTT_PROP_NONE then Ok (Some i) else find_free is H
      else Fault)"

text \<open>The result: the store, \<^verbatim>\<open>*head\<close> and the returned pointer.\<close>

definition MqttProps_Add :: "store \<Rightarrow> nat option \<Rightarrow> (store \<times> nat option \<times> nat option) outcome" where
  "MqttProps_Add H head =
     bnd (list_end (length H) H None head) (\<lambda>prev.
     bnd (find_free [0..<MQTT_MAX_PROPS] H) (\<lambda>new_prop.
     case new_prop of
       None \<Rightarrow> Ok (H, head, None)
     | Some i \<Rightarrow>
         (let H1 = H[i := zero_prop\<lparr>type := MQTT_PROP_TYPE_MAX\<rparr>]
          in case prev of
               None \<Rightarrow> Ok (H1, Some i, Some i)
             | Some j \<Rightarrow> Ok (H1[j := (H1 ! j)\<lparr>next := Some i\<rparr>], head, Some i))))"

text \<open>The argument \<open>n\<close> bounds the walk as in \<open>list_end\<close>.\<close>

fun free_loop :: "nat \<Rightarrow> store \<Rightarrow> nat option \<Rightarrow> store outcome" where
  "free_loop 0 H head = (if head = None then Ok H else Fault)"
| "free_loop (Suc n) H head =
     (case head of None \<Rightarrow> Ok H
      | Some i \<Rightarrow> if i < length H
          then (let H1 = H[i := (H ! i)\<lparr>type := MQTT_PROP_NONE\<rparr>] in free_loop n H1 (next (H1 ! i)))
          else Fault)"

definition MqttProps_Free :: "store \<Rightarrow> nat option \<Rightarrow> store outcome" where
  "MqttProps_Free H head = free_loop (length H) H head"

section \<open>Lists in the store\<close>

fun chain :: "store \<Rightarrow> nat option \<Rightarrow> nat list \<Rightarrow> bool" where
  "chain H h [] = (h = None)"
| "chain H h (i # is) = (h = Some i \<and> i < length H \<and> chain H (next (H ! i)) is)"

text \<open>The free cells of the array, and a list all of whose cells are in use.\<close>

definition free_cells :: "store \<Rightarrow> nat set" where
  "free_cells H = {i. i < MQTT_MAX_PROPS \<and> type (H ! i) = MQTT_PROP_NONE}"

definition live_list :: "store \<Rightarrow> nat option \<Rightarrow> nat list \<Rightarrow> bool" where
  "live_list H h is \<longleftrightarrow> MQTT_MAX_PROPS \<le> length H \<and> chain H h is \<and> (\<forall>i \<in> set is. type (H ! i) \<noteq> MQTT_PROP_NONE)"

lemma chain_fun: "chain H h is \<Longrightarrow> chain H h js \<Longrightarrow> is = js"
  by (induction "is" arbitrary: h js) (case_tac js; auto)+

lemma chain_append:
  "chain H h (is @ j # js) \<Longrightarrow> chain H (Some j) (j # js)"
  by (induction "is" arbitrary: h) auto

lemma chain_distinct: "chain H h is \<Longrightarrow> distinct is"
proof (induction "is" arbitrary: h)
  case (Cons i "is")
  have "i \<notin> set is"
  proof
    assume "i \<in> set is"
    then obtain xs ys where "is = xs @ i # ys" by (meson split_list)
    then have "chain H (Some i) (i # ys)" using chain_append [of H h "i # xs" i ys] Cons.prems by simp
    moreover have "chain H (Some i) (i # is)" using Cons.prems by simp
    ultimately have "i # ys = i # is" by (rule chain_fun)
    with \<open>is = xs @ i # ys\<close> show False by simp
  qed
  with Cons show ?case by auto
qed simp

lemma chain_range: "chain H h is \<Longrightarrow> set is \<subseteq> {..<length H}"
  by (induction "is" arbitrary: h) auto

lemma chain_length: "chain H h is \<Longrightarrow> length is \<le> length H"
  using card_mono [OF finite_lessThan chain_range] chain_distinct distinct_card by (metis card_lessThan)

lemma chain_cong:
  "length H' = length H \<Longrightarrow> (\<And>i. i \<in> set is \<Longrightarrow> next (H' ! i) = next (H ! i)) \<Longrightarrow> chain H' h is = chain H h is"
  by (induction "is" arbitrary: h) auto

text \<open>The walk ends exactly on a list without a cycle or dangling pointer.\<close>

lemma list_end_chain:
  "chain H cur is \<Longrightarrow> length is \<le> n \<Longrightarrow>
   list_end n H prev cur = Ok (if is = [] then prev else Some (last is))"
proof (induction "is" arbitrary: n prev cur)
  case Nil
  then show ?case by (cases n) simp_all
next
  case (Cons i "is")
  then obtain k where "n = Suc k" by (cases n) simp_all
  with Cons show ?case by simp
qed

lemma list_end_Ok_chain: "list_end n H prev cur = Ok e \<Longrightarrow> \<exists>is. chain H cur is"
proof (induction n H prev cur rule: list_end.induct)
  case (1 H prev cur)
  then show ?case by (auto split: if_splits intro: exI [of _ "[]"])
next
  case (2 n H prev cur)
  show ?case
  proof (cases cur)
    case None
    then show ?thesis by (auto intro: exI [of _ "[]"])
  next
    case (Some i)
    with 2 obtain js where "i < length H" "chain H (next (H ! i)) js" by (auto split: if_splits)
    with Some show ?thesis by (auto intro: exI [of _ "i # js"])
  qed
qed

lemma list_end_iff: "list_end (length H) H None h \<noteq> Fault \<longleftrightarrow> (\<exists>is. chain H h is)"
proof
  have no_err: "list_end n H p c \<noteq> Err e" for n p c e
    by (induction n H p c rule: list_end.induct) (auto split: option.splits)
  assume "list_end (length H) H None h \<noteq> Fault"
  then show "\<exists>is. chain H h is" using no_err list_end_Ok_chain by (cases "list_end (length H) H None h") auto
qed (use list_end_chain chain_length in force)

section \<open>Allocation\<close>

lemma find_free_eq:
  "(\<forall>i \<in> set is. i < length H) \<Longrightarrow> find_free is H = Ok (List.find (\<lambda>i. type (H ! i) = MQTT_PROP_NONE) is)"
  by (induction "is" H rule: find_free.induct) auto

lemma find_free_pool:
  assumes "MQTT_MAX_PROPS \<le> length H"
  shows "free_cells H = {} \<Longrightarrow> find_free [0..<MQTT_MAX_PROPS] H = Ok None"
    "free_cells H \<noteq> {} \<Longrightarrow> \<exists>i \<in> free_cells H. find_free [0..<MQTT_MAX_PROPS] H = Ok (Some i)"
proof -
  have f: "find_free [0..<MQTT_MAX_PROPS] H = Ok (List.find (\<lambda>i. type (H ! i) = MQTT_PROP_NONE) [0..<MQTT_MAX_PROPS])"
    using assms by (intro find_free_eq) auto
  show "find_free [0..<MQTT_MAX_PROPS] H = Ok None" if "free_cells H = {}"
    unfolding f using that by (auto simp: free_cells_def find_None_iff)
  show "\<exists>i \<in> free_cells H. find_free [0..<MQTT_MAX_PROPS] H = Ok (Some i)" if "free_cells H \<noteq> {}"
  proof (cases "List.find (\<lambda>i. type (H ! i) = MQTT_PROP_NONE) [0..<MQTT_MAX_PROPS]")
    case None
    with that show ?thesis by (auto simp: free_cells_def find_None_iff)
  next
    case (Some i)
    then have "i < MQTT_MAX_PROPS \<and> type (H ! i) = MQTT_PROP_NONE" by (auto simp: find_Some_iff)
    then show ?thesis using Some f by (auto simp: free_cells_def)
  qed
qed

text \<open>The store after an allocation: a cleared cell, and the link that the last cell gets.\<close>

definition store_add :: "store \<Rightarrow> nat list \<Rightarrow> nat \<Rightarrow> store" where
  "store_add H is i =
     (let H1 = H[i := zero_prop\<lparr>type := MQTT_PROP_TYPE_MAX\<rparr>]
      in if is = [] then H1 else H1[last is := (H1 ! last is)\<lparr>next := Some i\<rparr>])"

lemma store_add_length [simp]: "length (store_add H is i) = length H"
  by (simp add: store_add_def Let_def)

lemma live_last:
  "live_list H h is \<Longrightarrow> is \<noteq> [] \<Longrightarrow> last is < length H \<and> type (H ! last is) \<noteq> MQTT_PROP_NONE"
  unfolding live_list_def using chain_range [of H h "is"] last_in_set [of "is"]
  by (meson lessThan_iff subsetD)

lemma store_add_new:
  assumes "live_list H h is" "i \<in> free_cells H"
  shows "store_add H is i ! i = zero_prop\<lparr>type := MQTT_PROP_TYPE_MAX\<rparr>"
proof -
  have "is = [] \<or> last is \<noteq> i" using live_last [OF assms(1)] assms(2) by (auto simp: free_cells_def)
  then show ?thesis using assms by (auto simp: store_add_def Let_def live_list_def free_cells_def)
qed

lemma store_add_old:
  assumes "live_list H h is" "i \<in> free_cells H" "j \<noteq> i"
  shows "store_add H is i ! j = (if is \<noteq> [] \<and> j = last is then (H ! j)\<lparr>next := Some i\<rparr> else H ! j)"
  using live_last [OF assms(1)] assms(3) by (auto simp: store_add_def Let_def nth_list_update)

lemma chain_snoc:
  assumes "chain H h is" "length H' = length H" "i < length H" "i \<notin> set is" "next (H' ! i) = None"
    and "\<And>j. j \<in> set is \<Longrightarrow> next (H' ! j) = (if j = last is then Some i else next (H ! j))"
  shows "chain H' (if is = [] then Some i else h) (is @ [i])"
  using assms
proof (induction "is" arbitrary: h)
  case (Cons a "is")
  note d = chain_distinct [OF Cons.prems(1)]
  have "chain H' (if is = [] then Some i else next (H ! a)) (is @ [i])"
  proof (rule Cons.IH)
    show "next (H' ! j) = (if j = last is then Some i else next (H ! j))" if "j \<in> set is" for j
      using Cons.prems(6) [of j] that d by auto
  qed (use Cons.prems in auto)
  then show ?case using Cons.prems(1,2) Cons.prems(6) [of a] d by (auto split: if_splits)
qed simp

lemma live_list_disjoint: "live_list H h is \<Longrightarrow> set is \<inter> free_cells H = {}"
  by (auto simp: live_list_def free_cells_def)

lemma MqttProps_Add_full:
  assumes "live_list H h is" "free_cells H = {}"
  shows "MqttProps_Add H h = Ok (H, h, None)"
  using assms find_free_pool(1) [of H] list_end_chain [of H h "is" "length H" None] chain_length [of H h "is"]
  by (simp add: MqttProps_Add_def live_list_def)

lemma MqttProps_Add_ok:
  assumes "live_list H h is" "free_cells H \<noteq> {}"
  obtains i where "i \<in> free_cells H"
    "MqttProps_Add H h = Ok (store_add H is i, (if is = [] then Some i else h), Some i)"
proof -
  from assms have l: "chain H h is" "MQTT_MAX_PROPS \<le> length H" by (auto simp: live_list_def)
  from find_free_pool(2) [OF l(2) assms(2)] obtain i where
    i: "i \<in> free_cells H" "find_free [0..<MQTT_MAX_PROPS] H = Ok (Some i)" by auto
  have "MqttProps_Add H h = Ok (store_add H is i, (if is = [] then Some i else h), Some i)"
    using l i list_end_chain [OF l(1) chain_length [OF l(1)], of None]
    by (simp add: MqttProps_Add_def store_add_def Let_def)
  with i(1) show thesis by (rule that)
qed

lemma store_add_live:
  assumes "live_list H h is" "i \<in> free_cells H"
  shows "live_list (store_add H is i) (if is = [] then Some i else h) (is @ [i])"
proof -
  have i: "i \<notin> set is" using live_list_disjoint [OF assms(1)] assms(2) by auto
  have "chain (store_add H is i) (if is = [] then Some i else h) (is @ [i])"
  proof (rule chain_snoc)
    show "i < length H" using assms by (auto simp: free_cells_def live_list_def)
    show "next (store_add H is i ! i) = None" using store_add_new [OF assms] by (simp add: zero_prop_def)
    show "next (store_add H is i ! j) = (if j = last is then Some i else next (H ! j))" if "j \<in> set is" for j
    proof -
      have "j \<noteq> i" using that i by auto
      then show ?thesis using store_add_old [OF assms, of j] that by auto
    qed
  qed (use assms i in \<open>auto simp: live_list_def\<close>)
  moreover have "type (store_add H is i ! j) \<noteq> MQTT_PROP_NONE" if "j \<in> set (is @ [i])" for j
    using store_add_old [OF assms, of j] store_add_new [OF assms] that assms(1)
    by (cases "j = i") (auto simp: live_list_def)
  ultimately show ?thesis using assms(1) by (auto simp: live_list_def)
qed

lemma store_add_free:
  assumes "live_list H h is" "i \<in> free_cells H"
  shows "free_cells (store_add H is i) = free_cells H - {i}"
proof -
  have "(j \<in> free_cells (store_add H is i)) = (j \<in> free_cells H - {i})" for j
    using store_add_old [OF assms, of j] store_add_new [OF assms] by (cases "j = i") (auto simp: free_cells_def)
  then show ?thesis by blast
qed

text \<open>Lists that share no cell with the extended one stay as they are.\<close>

lemma store_add_frame:
  assumes "live_list H h is" "i \<in> free_cells H" "live_list H g js" "set is \<inter> set js = {}"
  shows "live_list (store_add H is i) g js" "\<forall>j \<in> set js. store_add H is i ! j = H ! j"
proof -
  have e: "store_add H is i ! j = H ! j" if "j \<in> set js" for j
  proof -
    have "j \<noteq> i" using live_list_disjoint [OF assms(3)] assms(2) that by auto
    moreover have "\<not> (is \<noteq> [] \<and> j = last is)" using assms(4) that last_in_set [of "is"] by blast
    ultimately show ?thesis using store_add_old [OF assms(1,2)] by auto
  qed
  then show "\<forall>j \<in> set js. store_add H is i ! j = H ! j" by blast
  show "live_list (store_add H is i) g js"
    using assms(3) e chain_cong [of "store_add H is i" H js g] by (simp add: live_list_def)
qed

section \<open>Release\<close>

definition store_free :: "store \<Rightarrow> nat list \<Rightarrow> store" where
  "store_free H is = fold (\<lambda>i H. H[i := (H ! i)\<lparr>type := MQTT_PROP_NONE\<rparr>]) is H"

lemma store_free_length [simp]: "length (store_free H is) = length H"
  by (induction "is" arbitrary: H) (simp_all add: store_free_def)

lemma store_free_nth:
  "set is \<subseteq> {..<length H} \<Longrightarrow> distinct is \<Longrightarrow>
   store_free H is ! j = (if j \<in> set is then (H ! j)\<lparr>type := MQTT_PROP_NONE\<rparr> else H ! j)"
proof (induction "is" arbitrary: H)
  case (Cons a "is")
  then show ?case
    using Cons.IH [of "H[a := (H ! a)\<lparr>type := MQTT_PROP_NONE\<rparr>]"]
    by (auto simp: store_free_def nth_list_update)
qed (simp add: store_free_def)

lemma free_loop_chain:
  "chain H h is \<Longrightarrow> length is \<le> n \<Longrightarrow> free_loop n H h = Ok (store_free H is)"
proof (induction "is" arbitrary: n H h)
  case Nil
  then show ?case by (cases n) (simp_all add: store_free_def)
next
  case (Cons i "is")
  let ?H = "H[i := (H ! i)\<lparr>type := MQTT_PROP_NONE\<rparr>]"
  from Cons.prems obtain k where n: "n = Suc k" by (cases n) simp_all
  have "chain ?H (next (H ! i)) is"
    using Cons.prems by (subst chain_cong [of _ H]) (auto simp: nth_list_update)
  then have "free_loop k ?H (next (H ! i)) = Ok (store_free ?H is)"
    using Cons.prems n by (intro Cons.IH) simp_all
  then show ?case using Cons.prems n by (simp add: store_free_def Let_def)
qed

lemma MqttProps_Free_ok: "chain H h is \<Longrightarrow> MqttProps_Free H h = Ok (store_free H is)"
  by (simp add: MqttProps_Free_def free_loop_chain chain_length)

lemma store_free_cells:
  assumes "chain H h is" "MQTT_MAX_PROPS \<le> length H"
  shows "free_cells (store_free H is) = free_cells H \<union> (set is \<inter> {..<MQTT_MAX_PROPS})"
  using store_free_nth [OF chain_range [OF assms(1)] chain_distinct [OF assms(1)]]
  by (auto simp: free_cells_def)

lemma store_free_frame:
  assumes "chain H h is" "live_list H g js" "set is \<inter> set js = {}"
  shows "live_list (store_free H is) g js" "\<forall>j \<in> set js. store_free H is ! j = H ! j"
proof -
  have e: "store_free H is ! j = H ! j" if "j \<in> set js" for j
    using store_free_nth [OF chain_range [OF assms(1)] chain_distinct [OF assms(1)], of j] that assms(3) by auto
  then show "\<forall>j \<in> set js. store_free H is ! j = H ! j" by blast
  show "live_list (store_free H is) g js"
    using assms(2) e chain_cong [of "store_free H is" H js g] by (simp add: live_list_def)
qed

section \<open>The contract of the allocator\<close>

text \<open>
  What the property codec and its callers rely on: a list owns its cells, an allocation appends
  one available cell to a list or reports that none is left, and a release makes all cells of a
  list available again.
\<close>

locale prop_alloc =
  fixes add :: "'h \<Rightarrow> nat option \<Rightarrow> ('h \<times> nat option \<times> nat option) outcome"
    and free :: "'h \<Rightarrow> nat option \<Rightarrow> 'h outcome"
    and owns :: "'h \<Rightarrow> nat option \<Rightarrow> nat list \<Rightarrow> bool"
    and avail :: "'h \<Rightarrow> nat set"
    and cells :: "nat set"
  assumes cells_finite: "finite cells"
    and avail_cells: "avail H \<subseteq> cells"
    and add_full: "owns H h is \<Longrightarrow> avail H = {} \<Longrightarrow> add H h = Ok (H, h, None)"
    and add_ok: "owns H h is \<Longrightarrow> avail H \<noteq> {} \<Longrightarrow>
      \<exists>H' h' i. add H h = Ok (H', h', Some i) \<and> i \<in> avail H \<and> owns H' h' (is @ [i]) \<and> avail H' = avail H - {i}"
    and free_ok: "owns H h is \<Longrightarrow> set is \<subseteq> cells \<Longrightarrow>
      \<exists>H'. free H h = Ok H' \<and> owns H' None [] \<and> avail H' = avail H \<union> set is"
begin

lemma avail_finite: "finite (avail H)"
  by (rule finite_subset [OF avail_cells cells_finite])

text \<open>A run of allocations on one list, as a decoder makes them.\<close>

fun adds :: "nat \<Rightarrow> 'h \<Rightarrow> nat option \<Rightarrow> ('h \<times> nat option \<times> nat list) outcome" where
  "adds 0 H h = Ok (H, h, [])"
| "adds (Suc n) H h =
     bnd (add H h) (\<lambda>(H1, h1, r).
       case r of None \<Rightarrow> Err MEMORY
       | Some i \<Rightarrow> bnd (adds n H1 h1) (\<lambda>(H2, h2, is). Ok (H2, h2, i # is)))"

lemma adds_ok:
  "owns H h js \<Longrightarrow> n \<le> card (avail H) \<Longrightarrow>
   \<exists>H' h' is. adds n H h = Ok (H', h', is) \<and> owns H' h' (js @ is) \<and> length is = n \<and>
     set is \<subseteq> avail H \<and> avail H' = avail H - set is"
proof (induction n arbitrary: H h js)
  case (Suc n)
  then have "avail H \<noteq> {}" by auto
  from add_ok [OF Suc.prems(1) this] obtain H1 h1 i where
    a: "add H h = Ok (H1, h1, Some i)" "i \<in> avail H" "owns H1 h1 (js @ [i])" "avail H1 = avail H - {i}" by blast
  have "n \<le> card (avail H1)" using Suc.prems(2) a(2,4) avail_finite by simp
  from Suc.IH [OF a(3) this] obtain H2 h2 "is" where
    "adds n H1 h1 = Ok (H2, h2, is)" "owns H2 h2 ((js @ [i]) @ is)" "length is = n"
    "set is \<subseteq> avail H1" "avail H2 = avail H1 - set is" by blast
  with a show ?case by (intro exI [of _ H2] exI [of _ h2] exI [of _ "i # is"]) auto
qed auto

text \<open>Allocating more than is available reports an error, and nothing is lost when it does.\<close>

lemma adds_exhausted:
  "owns H h js \<Longrightarrow> card (avail H) < n \<Longrightarrow> adds n H h = Err MEMORY"
proof (induction n arbitrary: H h js)
  case (Suc n)
  show ?case
  proof (cases "avail H = {}")
    case True
    then show ?thesis using add_full [OF Suc.prems(1)] by simp
  next
    case False
    from add_ok [OF Suc.prems(1) this] obtain H1 h1 i where
      a: "add H h = Ok (H1, h1, Some i)" "i \<in> avail H" "owns H1 h1 (js @ [i])" "avail H1 = avail H - {i}" by blast
    have "card (avail H1) < n" using Suc.prems(2) a(2,4) avail_finite card_gt_0_iff [of "avail H"] by auto
    then show ?thesis using Suc.IH [OF a(3)] a(1) by simp
  qed
qed simp

lemma adds_free:
  assumes "owns H None []" "n \<le> card (avail H)"
  shows "\<exists>H' h' is H''. adds n H None = Ok (H', h', is) \<and> free H' h' = Ok H'' \<and> avail H'' = avail H"
proof -
  from adds_ok [OF assms(1,2)] obtain H' h' "is" where
    a: "adds n H None = Ok (H', h', is)" "owns H' h' is" "set is \<subseteq> avail H" "avail H' = avail H - set is"
    by auto
  have "set is \<subseteq> cells" using a(3) avail_cells by blast
  from free_ok [OF a(2) this] obtain H'' where
    "free H' h' = Ok H''" "avail H'' = avail H' \<union> set is" by blast
  with a show ?thesis by blast
qed

end

interpretation pool: prop_alloc MqttProps_Add MqttProps_Free live_list free_cells "{..<MQTT_MAX_PROPS}"
proof
  show "finite {..<MQTT_MAX_PROPS}" by simp
  show "free_cells H \<subseteq> {..<MQTT_MAX_PROPS}" for H
    by (auto simp: free_cells_def)
  show "live_list H h is \<Longrightarrow> free_cells H = {} \<Longrightarrow> MqttProps_Add H h = Ok (H, h, None)" for H h "is"
    by (rule MqttProps_Add_full)
next
  fix H h "is"
  assume l: "live_list H h is" "free_cells H \<noteq> {}"
  then show "\<exists>H' h' i. MqttProps_Add H h = Ok (H', h', Some i) \<and> i \<in> free_cells H \<and>
      live_list H' h' (is @ [i]) \<and> free_cells H' = free_cells H - {i}"
    by (metis MqttProps_Add_ok store_add_live store_add_free)
next
  fix H h "is"
  assume l: "live_list H h is" and C: "set is \<subseteq> {..<MQTT_MAX_PROPS}"
  then have "set is \<inter> {..<MQTT_MAX_PROPS} = set is" by auto
  then show "\<exists>H'. MqttProps_Free H h = Ok H' \<and> live_list H' None [] \<and> free_cells H' = free_cells H \<union> set is"
    using l store_free_cells [of H h "is"] MqttProps_Free_ok [of H h "is"] by (auto simp: live_list_def)
qed

section \<open>Properties of the pool\<close>

text \<open>C38: \<^verbatim>\<open>MqttProps_Add\<close> appends a cleared cell that was free to the list, or reports an exhausted
  pool with the list as it was; no other live list is touched.\<close>

theorem props_add_exact:
  assumes "live_list H h is"
  shows "if free_cells H = {} then MqttProps_Add H h = Ok (H, h, None)
    else \<exists>H' h' i. MqttProps_Add H h = Ok (H', h', Some i) \<and> i \<in> free_cells H \<and>
      live_list H' h' (is @ [i]) \<and> free_cells H' = free_cells H - {i} \<and>
      H' ! i = zero_prop\<lparr>type := MQTT_PROP_TYPE_MAX\<rparr> \<and>
      (\<forall>g js. live_list H g js \<and> set is \<inter> set js = {} \<longrightarrow> live_list H' g js \<and> (\<forall>j \<in> set js. H' ! j = H ! j))"
proof (cases "free_cells H = {}")
  case True
  then show ?thesis using MqttProps_Add_full [OF assms] by simp
next
  case False
  obtain i where i: "i \<in> free_cells H"
    "MqttProps_Add H h = Ok (store_add H is i, (if is = [] then Some i else h), Some i)"
    using MqttProps_Add_ok [OF assms False] .
  with False show ?thesis
    using store_add_live [OF assms i(1)] store_add_free [OF assms i(1)] store_add_new [OF assms i(1)]
      store_add_frame [OF assms i(1)] by auto
qed

theorem props_add_exact_witness:
  "\<exists>H' h' i. MqttProps_Add (replicate 30 zero_prop) None = Ok (H', h', Some i) \<and> live_list H' h' [i]"
proof -
  have l: "live_list (replicate 30 zero_prop) None []" by (simp add: live_list_def)
  have "0 \<in> free_cells (replicate 30 zero_prop)" by (simp add: free_cells_def zero_prop_def)
  with props_add_exact [OF l] show ?thesis by (auto split: if_splits)
qed

text \<open>C39: \<^verbatim>\<open>MqttProps_Free\<close> gives back exactly the pool cells of its list, and leaves every other live
  list as it was.\<close>

theorem props_free_exact:
  assumes "live_list H h is" "set is \<subseteq> {..<MQTT_MAX_PROPS}"
  shows "\<exists>H'. MqttProps_Free H h = Ok H' \<and> free_cells H' = free_cells H \<union> set is \<and>
    (\<forall>g js. live_list H g js \<and> set is \<inter> set js = {} \<longrightarrow> live_list H' g js \<and> (\<forall>j \<in> set js. H' ! j = H ! j))"
proof -
  have c: "chain H h is" "MQTT_MAX_PROPS \<le> length H" using assms(1) by (simp_all add: live_list_def)
  have "free_cells (store_free H is) = free_cells H \<union> set is"
    using store_free_cells [OF c] assms(2) by auto
  with MqttProps_Free_ok [OF c(1)] store_free_frame [OF c(1)] show ?thesis by blast
qed

theorem props_free_exact_witness:
  "\<exists>H'. MqttProps_Free ((replicate 30 zero_prop)[3 := zero_prop\<lparr>type := 38\<rparr>]) (Some 3) = Ok H' \<and> free_cells H' = {..<30}"
proof -
  let ?H = "(replicate 30 zero_prop)[3 := zero_prop\<lparr>type := 38\<rparr>]"
  have "live_list ?H (Some 3) [3]" by (simp add: live_list_def zero_prop_def)
  moreover have "free_cells ?H = {..<30} - {3}" by (auto simp: free_cells_def nth_list_update zero_prop_def)
  ultimately show ?thesis using props_free_exact [of ?H "Some 3" "[3]"] by auto
qed

end
