(* ===== verification/Props_Codec.thy ===== *)
theory Props_Codec
  imports Mqtt_Header Prop_Pool
begin

text \<open>
  The encoder and decoder of MQTT v5 property lists of \<^verbatim>\<open>src/mqtt_packet.c\<close>: the table
  \<^verbatim>\<open>gPropMatrix\<close>, \<^verbatim>\<open>MqttEncode_Props\<close>, \<^verbatim>\<open>MqttDecode_Props\<close> and \<^verbatim>\<open>MqttWillProps_ValidateType\<close>.
  The abstract value of a property list is the list of its identifiers with their values; both
  functions are related to it: the encoder writes its reference bytes or reports an error, the
  decoder accepts exactly those bytes, consumes the announced property length and no byte more,
  and gives every cell back when it fails.
\<close>

section \<open>The property table\<close>

abbreviation (input) "MQTT_PROP_PAYLOAD_FORMAT_IND \<equiv> (1 :: nat)"
abbreviation (input) "MQTT_PROP_MSG_EXPIRY_INTERVAL \<equiv> (2 :: nat)"
abbreviation (input) "MQTT_PROP_CONTENT_TYPE \<equiv> (3 :: nat)"
abbreviation (input) "MQTT_PROP_RESP_TOPIC \<equiv> (8 :: nat)"
abbreviation (input) "MQTT_PROP_CORRELATION_DATA \<equiv> (9 :: nat)"
abbreviation (input) "MQTT_PROP_SUBSCRIPTION_ID \<equiv> (11 :: nat)"
abbreviation (input) "MQTT_PROP_SESSION_EXPIRY_INTERVAL \<equiv> (17 :: nat)"
abbreviation (input) "MQTT_PROP_ASSIGNED_CLIENT_ID \<equiv> (18 :: nat)"
abbreviation (input) "MQTT_PROP_SERVER_KEEP_ALIVE \<equiv> (19 :: nat)"
abbreviation (input) "MQTT_PROP_AUTH_METHOD \<equiv> (21 :: nat)"
abbreviation (input) "MQTT_PROP_AUTH_DATA \<equiv> (22 :: nat)"
abbreviation (input) "MQTT_PROP_REQ_PROB_INFO \<equiv> (23 :: nat)"
abbreviation (input) "MQTT_PROP_WILL_DELAY_INTERVAL \<equiv> (24 :: nat)"
abbreviation (input) "MQTT_PROP_REQ_RESP_INFO \<equiv> (25 :: nat)"
abbreviation (input) "MQTT_PROP_RESP_INFO \<equiv> (26 :: nat)"
abbreviation (input) "MQTT_PROP_SERVER_REF \<equiv> (28 :: nat)"
abbreviation (input) "MQTT_PROP_REASON_STR \<equiv> (31 :: nat)"
abbreviation (input) "MQTT_PROP_RECEIVE_MAX \<equiv> (33 :: nat)"
abbreviation (input) "MQTT_PROP_TOPIC_ALIAS_MAX \<equiv> (34 :: nat)"
abbreviation (input) "MQTT_PROP_TOPIC_ALIAS \<equiv> (35 :: nat)"
abbreviation (input) "MQTT_PROP_MAX_QOS \<equiv> (36 :: nat)"
abbreviation (input) "MQTT_PROP_RETAIN_AVAIL \<equiv> (37 :: nat)"
abbreviation (input) "MQTT_PROP_USER_PROP \<equiv> (38 :: nat)"
abbreviation (input) "MQTT_PROP_MAX_PACKET_SZ \<equiv> (39 :: nat)"
abbreviation (input) "MQTT_PROP_WILDCARD_SUB_AVAIL \<equiv> (40 :: nat)"
abbreviation (input) "MQTT_PROP_SUBSCRIPTION_ID_AVAIL \<equiv> (41 :: nat)"
abbreviation (input) "MQTT_PROP_SHARED_SUBSCRIPTION_AVAIL \<equiv> (42 :: nat)"

datatype MqttDataType =
    MQTT_DATA_TYPE_NONE | MQTT_DATA_TYPE_BYTE | MQTT_DATA_TYPE_SHORT | MQTT_DATA_TYPE_INT
  | MQTT_DATA_TYPE_STRING | MQTT_DATA_TYPE_VAR_INT | MQTT_DATA_TYPE_BINARY
  | MQTT_DATA_TYPE_STRING_PAIR

text \<open>The union of \<^verbatim>\<open>1 << MQTT_PACKET_TYPE_x\<close> over the allowed packets.\<close>

definition packet_mask :: "byte list \<Rightarrow> word16" where
  "packet_mask ts = foldr (\<lambda>t m. push_bit (unat t) 1 OR m) ts 0"

definition gPropMatrix :: "(nat \<times> MqttDataType \<times> word16) list" where
  "gPropMatrix =
   [(MQTT_PROP_NONE, MQTT_DATA_TYPE_NONE, 0),
    (MQTT_PROP_PAYLOAD_FORMAT_IND, MQTT_DATA_TYPE_BYTE, packet_mask [MQTT_PACKET_TYPE_PUBLISH]),
    (MQTT_PROP_MSG_EXPIRY_INTERVAL, MQTT_DATA_TYPE_INT,
      packet_mask [MQTT_PACKET_TYPE_CONNECT, MQTT_PACKET_TYPE_PUBLISH]),
    (MQTT_PROP_CONTENT_TYPE, MQTT_DATA_TYPE_STRING, packet_mask [MQTT_PACKET_TYPE_PUBLISH]),
    (MQTT_PROP_NONE, MQTT_DATA_TYPE_NONE, 0),
    (MQTT_PROP_NONE, MQTT_DATA_TYPE_NONE, 0),
    (MQTT_PROP_NONE, MQTT_DATA_TYPE_NONE, 0),
    (MQTT_PROP_NONE, MQTT_DATA_TYPE_NONE, 0),
    (MQTT_PROP_RESP_TOPIC, MQTT_DATA_TYPE_STRING, packet_mask [MQTT_PACKET_TYPE_PUBLISH]),
    (MQTT_PROP_CORRELATION_DATA, MQTT_DATA_TYPE_BINARY, packet_mask [MQTT_PACKET_TYPE_PUBLISH]),
    (MQTT_PROP_NONE, MQTT_DATA_TYPE_NONE, 0),
    (MQTT_PROP_SUBSCRIPTION_ID, MQTT_DATA_TYPE_VAR_INT,
      packet_mask [MQTT_PACKET_TYPE_PUBLISH, MQTT_PACKET_TYPE_SUBSCRIBE]),
    (MQTT_PROP_NONE, MQTT_DATA_TYPE_NONE, 0),
    (MQTT_PROP_NONE, MQTT_DATA_TYPE_NONE, 0),
    (MQTT_PROP_NONE, MQTT_DATA_TYPE_NONE, 0),
    (MQTT_PROP_NONE, MQTT_DATA_TYPE_NONE, 0),
    (MQTT_PROP_NONE, MQTT_DATA_TYPE_NONE, 0),
    (MQTT_PROP_SESSION_EXPIRY_INTERVAL, MQTT_DATA_TYPE_INT,
      packet_mask [MQTT_PACKET_TYPE_CONNECT, MQTT_PACKET_TYPE_CONNECT_ACK,
        MQTT_PACKET_TYPE_DISCONNECT]),
    (MQTT_PROP_ASSIGNED_CLIENT_ID, MQTT_DATA_TYPE_STRING, packet_mask [MQTT_PACKET_TYPE_CONNECT_ACK]),
    (MQTT_PROP_SERVER_KEEP_ALIVE, MQTT_DATA_TYPE_SHORT, packet_mask [MQTT_PACKET_TYPE_CONNECT_ACK]),
    (MQTT_PROP_NONE, MQTT_DATA_TYPE_NONE, 0),
    (MQTT_PROP_AUTH_METHOD, MQTT_DATA_TYPE_STRING,
      packet_mask [MQTT_PACKET_TYPE_CONNECT, MQTT_PACKET_TYPE_CONNECT_ACK, MQTT_PACKET_TYPE_AUTH]),
    (MQTT_PROP_AUTH_DATA, MQTT_DATA_TYPE_BINARY,
      packet_mask [MQTT_PACKET_TYPE_CONNECT, MQTT_PACKET_TYPE_CONNECT_ACK, MQTT_PACKET_TYPE_AUTH]),
    (MQTT_PROP_REQ_PROB_INFO, MQTT_DATA_TYPE_BYTE, packet_mask [MQTT_PACKET_TYPE_CONNECT]),
    (MQTT_PROP_WILL_DELAY_INTERVAL, MQTT_DATA_TYPE_INT, packet_mask [MQTT_PACKET_TYPE_CONNECT]),
    (MQTT_PROP_REQ_RESP_INFO, MQTT_DATA_TYPE_BYTE, packet_mask [MQTT_PACKET_TYPE_CONNECT]),
    (MQTT_PROP_RESP_INFO, MQTT_DATA_TYPE_STRING, packet_mask [MQTT_PACKET_TYPE_CONNECT_ACK]),
    (MQTT_PROP_NONE, MQTT_DATA_TYPE_NONE, 0),
    (MQTT_PROP_SERVER_REF, MQTT_DATA_TYPE_STRING,
      packet_mask [MQTT_PACKET_TYPE_CONNECT_ACK, MQTT_PACKET_TYPE_DISCONNECT]),
    (MQTT_PROP_NONE, MQTT_DATA_TYPE_NONE, 0),
    (MQTT_PROP_NONE, MQTT_DATA_TYPE_NONE, 0),
    (MQTT_PROP_REASON_STR, MQTT_DATA_TYPE_STRING,
      packet_mask [MQTT_PACKET_TYPE_CONNECT_ACK, MQTT_PACKET_TYPE_PUBLISH_ACK,
        MQTT_PACKET_TYPE_PUBLISH_REC, MQTT_PACKET_TYPE_PUBLISH_REL, MQTT_PACKET_TYPE_PUBLISH_COMP,
        MQTT_PACKET_TYPE_SUBSCRIBE_ACK, MQTT_PACKET_TYPE_UNSUBSCRIBE_ACK,
        MQTT_PACKET_TYPE_DISCONNECT, MQTT_PACKET_TYPE_AUTH]),
    (MQTT_PROP_NONE, MQTT_DATA_TYPE_NONE, 0),
    (MQTT_PROP_RECEIVE_MAX, MQTT_DATA_TYPE_SHORT,
      packet_mask [MQTT_PACKET_TYPE_CONNECT, MQTT_PACKET_TYPE_CONNECT_ACK]),
    (MQTT_PROP_TOPIC_ALIAS_MAX, MQTT_DATA_TYPE_SHORT,
      packet_mask [MQTT_PACKET_TYPE_CONNECT, MQTT_PACKET_TYPE_CONNECT_ACK]),
    (MQTT_PROP_TOPIC_ALIAS, MQTT_DATA_TYPE_SHORT, packet_mask [MQTT_PACKET_TYPE_PUBLISH]),
    (MQTT_PROP_MAX_QOS, MQTT_DATA_TYPE_BYTE, packet_mask [MQTT_PACKET_TYPE_CONNECT_ACK]),
    (MQTT_PROP_RETAIN_AVAIL, MQTT_DATA_TYPE_BYTE, packet_mask [MQTT_PACKET_TYPE_CONNECT_ACK]),
    (MQTT_PROP_USER_PROP, MQTT_DATA_TYPE_STRING_PAIR, 0xFFFF),
    (MQTT_PROP_MAX_PACKET_SZ, MQTT_DATA_TYPE_INT,
      packet_mask [MQTT_PACKET_TYPE_CONNECT, MQTT_PACKET_TYPE_CONNECT_ACK]),
    (MQTT_PROP_WILDCARD_SUB_AVAIL, MQTT_DATA_TYPE_BYTE, packet_mask [MQTT_PACKET_TYPE_CONNECT_ACK]),
    (MQTT_PROP_SUBSCRIPTION_ID_AVAIL, MQTT_DATA_TYPE_BYTE,
      packet_mask [MQTT_PACKET_TYPE_CONNECT_ACK]),
    (MQTT_PROP_SHARED_SUBSCRIPTION_AVAIL, MQTT_DATA_TYPE_BYTE,
      packet_mask [MQTT_PACKET_TYPE_CONNECT_ACK]),
    (MQTT_PROP_TYPE_MAX, MQTT_DATA_TYPE_NONE, 0)]"

definition prop_data :: "nat \<Rightarrow> MqttDataType" where
  "prop_data t = fst (snd (gPropMatrix ! t))"

text \<open>\<^verbatim>\<open>gPropMatrix[type].packet_type_mask & (1 << packet)\<close>\<close>

definition prop_allowed :: "byte \<Rightarrow> nat \<Rightarrow> bool" where
  "prop_allowed packet t = (snd (snd (gPropMatrix ! t)) AND push_bit (unat packet) 1 \<noteq> 0)"

text \<open>
  The duplicate guard, with the same text in the encoder and the decoder: \<open>None\<close> when the type was
  seen before.
\<close>

definition seen_check :: "byte \<Rightarrow> nat \<Rightarrow> word32 \<times> word32 \<Rightarrow> (word32 \<times> word32) option" where
  "seen_check packet t seen =
     (let (seen_lo, seen_hi) = seen in
      if t \<noteq> MQTT_PROP_USER_PROP \<and>
         \<not> (t = MQTT_PROP_SUBSCRIPTION_ID \<and> packet = MQTT_PACKET_TYPE_PUBLISH)
      then if t < 32
           then (let b = push_bit t 1 in
                 if seen_lo AND b \<noteq> 0 then None else Some (seen_lo OR b, seen_hi))
           else (let b = push_bit (t - 32) 1 in
                 if seen_hi AND b \<noteq> 0 then None else Some (seen_lo, seen_hi OR b))
      else Some seen)"

section \<open>Encoder\<close>

text \<open>The \<^verbatim>\<open>switch\<close> over the data type: the bytes after the identifier.\<close>

definition enc_prop_value :: "MqttProp \<Rightarrow> mem \<Rightarrow> nat option \<Rightarrow> (mem \<times> nat) outcome" where
  "enc_prop_value p m buf =
     (case prop_data (type p) of
        MQTT_DATA_TYPE_BYTE \<Rightarrow>
          if data_byte p > 1 then Err PROPERTY
          else bnd (wr_opt m buf [data_byte p]) (\<lambda>m1. Ok (m1, 1))
      | MQTT_DATA_TYPE_SHORT \<Rightarrow>
          if type p = MQTT_PROP_TOPIC_ALIAS \<and> data_short p = 0 then Err PROPERTY
          else MqttEncode_Num m buf (data_short p)
      | MQTT_DATA_TYPE_INT \<Rightarrow>
          if type p = MQTT_PROP_MAX_PACKET_SZ \<and> data_int p = 0 then Err PROPERTY
          else MqttEncode_Int m buf (data_int p)
      | MQTT_DATA_TYPE_STRING \<Rightarrow>
          bnd (if type p = MQTT_PROP_RESP_TOPIC
               then MqttPacket_TopicNameValid (str (data_str p)) (unat (len (data_str p)))
                      MQTT_CONNECT_PROTOCOL_LEVEL_5
               else Ok True) (\<lambda>name_ok.
          if \<not> name_ok then Err MALFORMED_DATA
          else bnd (MqttEncode_Utf8Ok (str (data_str p)) (unat (len (data_str p)))) (\<lambda>ok.
          if \<not> ok then Err MALFORMED_DATA
          else MqttEncode_Data m buf (str (data_str p)) (len (data_str p))))
      | MQTT_DATA_TYPE_VAR_INT \<Rightarrow>
          if type p = MQTT_PROP_SUBSCRIPTION_ID \<and> data_int p = 0 then Err PROPERTY
          else MqttEncode_Vbi m buf (data_int p)
      | MQTT_DATA_TYPE_BINARY \<Rightarrow> MqttEncode_Data m buf (str (data_bin p)) (len (data_bin p))
      | MQTT_DATA_TYPE_STRING_PAIR \<Rightarrow>
          bnd (MqttEncode_Utf8Ok (str (data_str p)) (unat (len (data_str p)))) (\<lambda>ok1.
          bnd (if ok1 then MqttEncode_Utf8Ok (str (data_str2 p)) (unat (len (data_str2 p)))
               else Ok False) (\<lambda>ok.
          if \<not> ok then Err MALFORMED_DATA
          else bnd (MqttEncode_Data m buf (str (data_str p)) (len (data_str p))) (\<lambda>(m1, k1).
               bnd (MqttEncode_Data m1 (adv buf k1) (str (data_str2 p)) (len (data_str2 p))) (\<lambda>(m2, k2).
               Ok (m2, k1 + k2)))))
      | MQTT_DATA_TYPE_NONE \<Rightarrow> Err PROPERTY)"

function enc_props_loop ::
  "byte \<Rightarrow> store \<Rightarrow> nat option \<Rightarrow> mem \<Rightarrow> nat option \<Rightarrow> nat \<Rightarrow> nat \<Rightarrow> word32 \<times> word32 \<Rightarrow>
   (mem \<times> nat) outcome" where
  "enc_props_loop packet H cur_prop m buf rc prop_count seen =
     (case cur_prop of
        None \<Rightarrow> Ok (m, rc)
      | Some i \<Rightarrow>
          if prop_count + 1 > MQTT_MAX_PROPS then Err PROPERTY
          else if i \<ge> length H then Fault
          else if type (H ! i) \<ge> length gPropMatrix then Err PROPERTY
          else if \<not> prop_allowed packet (type (H ! i)) then Err PROPERTY_MISMATCH
          else case seen_check packet (type (H ! i)) seen of
            None \<Rightarrow> Err PROPERTY
          | Some seen' \<Rightarrow>
              bnd (MqttEncode_Vbi m buf (word_of_nat (type (H ! i)))) (\<lambda>(m1, k1).
              bnd (enc_prop_value (H ! i) m1 (adv buf k1)) (\<lambda>(m2, k2).
              if rc + k1 + k2 > MQTT_PACKET_MAX_REMAIN_LEN then Err OUT_OF_BUFFER
              else enc_props_loop packet H (next (H ! i)) m2 (adv buf (k1 + k2)) (rc + k1 + k2)
                     (prop_count + 1) seen')))"
  by pat_completeness auto
termination
  by (relation "measure (\<lambda>(packet, H, cur, m, buf, rc, prop_count, seen). 30 - prop_count)") auto

definition MqttEncode_Props ::
  "byte \<Rightarrow> store \<Rightarrow> nat option \<Rightarrow> mem \<Rightarrow> nat option \<Rightarrow> (mem \<times> nat) outcome" where
  "MqttEncode_Props packet H props m buf = enc_props_loop packet H props m buf 0 0 (0, 0)"

section \<open>Decoder\<close>

text \<open>
  A step of the decoder changes the cell of the new property even when it then fails, so it
  returns the cell beside its result.
\<close>

definition on_prop ::
  "'a outcome \<Rightarrow> MqttProp \<Rightarrow> ('a \<Rightarrow> MqttProp \<times> 'b outcome) \<Rightarrow> MqttProp \<times> 'b outcome" where
  "on_prop r p f = (case r of Fault \<Rightarrow> (p, Fault) | Err e \<Rightarrow> (p, Err e) | Ok x \<Rightarrow> f x)"

text \<open>\<^verbatim>\<open>(word32)(buf_len - (buf - pbuf))\<close>, the bytes behind the read position \<open>off\<close>.\<close>

definition rest_len :: "word32 \<Rightarrow> nat \<Rightarrow> nat" where
  "rest_len buf_len off = u32 (int (unat buf_len) - int off)"

text \<open>
  The \<^verbatim>\<open>switch\<close> over the data type.  The read position is \<open>off\<close> = \<^verbatim>\<open>buf - pbuf\<close>, which the code also
  keeps in \<^verbatim>\<open>total\<close>; \<open>prop_len\<close> is the announced length that is left.
\<close>

definition dec_string_value ::
  "(MqttProp_Str \<Rightarrow> MqttProp \<Rightarrow> MqttProp) \<Rightarrow> MqttProp \<Rightarrow> mem \<Rightarrow> nat \<Rightarrow> word32 \<Rightarrow> nat \<Rightarrow> word32 \<Rightarrow>
   MqttProp \<times> (nat \<times> word32) outcome" where
  "dec_string_value set_str p m pbuf buf_len off prop_len =
     on_prop (MqttDecode_String m (pbuf + off) (rest_len buf_len off)) p (\<lambda>(s, tmp).
       let p1 = set_str \<lparr>len = word_of_nat (length s), str = Some s\<rparr> p in
       if int tmp \<le> int (unat buf_len) - int off then
         if tmp > unat prop_len then (p1, Err MALFORMED_DATA)
         else (p1, Ok (off + tmp, prop_len - word_of_nat tmp))
       else (p1, Err PROPERTY))"

definition dec_binary_value ::
  "MqttProp \<Rightarrow> mem \<Rightarrow> nat \<Rightarrow> word32 \<Rightarrow> nat \<Rightarrow> word32 \<Rightarrow> MqttProp \<times> (nat \<times> word32) outcome" where
  "dec_binary_value p m pbuf buf_len off prop_len =
     on_prop (MqttDecode_Num m (pbuf + off) (rest_len buf_len off)) p (\<lambda>(n, tmp).
       let p1 = p\<lparr>data_bin := (data_bin p)\<lparr>len := n\<rparr>\<rparr>;
           off1 = off + tmp;
           prop_len1 = prop_len - word_of_nat tmp
       in if tmp > unat prop_len then (p1, Err MALFORMED_DATA)
          else if int (unat n) \<le> int (unat buf_len) - int off1 then
            if unat n > unat prop_len1 then (p1, Err MALFORMED_DATA)
            else on_prop (rdn m (pbuf + off1) (unat n)) p1 (\<lambda>d.
              (p1\<lparr>data_bin := \<lparr>len = n, str = Some d\<rparr>\<rparr>,
               Ok (off1 + unat n, prop_len1 - ucast n)))
          else (p1, Err PROPERTY))"

definition dec_pair_value ::
  "MqttProp \<Rightarrow> mem \<Rightarrow> nat \<Rightarrow> word32 \<Rightarrow> nat \<Rightarrow> word32 \<Rightarrow> MqttProp \<times> (nat \<times> word32) outcome" where
  "dec_pair_value p m pbuf buf_len off prop_len =
     (case dec_string_value (\<lambda>s. data_str_update (\<lambda>_. s)) p m pbuf buf_len off prop_len of
        (p1, r) \<Rightarrow>
          on_prop r p1 (\<lambda>(off1, prop_len1).
            if int (unat buf_len) - int off1 > 0
            then dec_string_value (\<lambda>s. data_str2_update (\<lambda>_. s)) p1 m pbuf buf_len off1 prop_len1
            else (p1, Err PROPERTY)))"

definition dec_prop_value ::
  "MqttProp \<Rightarrow> mem \<Rightarrow> nat \<Rightarrow> word32 \<Rightarrow> nat \<Rightarrow> word32 \<Rightarrow> MqttProp \<times> (nat \<times> word32) outcome" where
  "dec_prop_value p m pbuf buf_len off prop_len =
     (case prop_data (type p) of
        MQTT_DATA_TYPE_BYTE \<Rightarrow>
          if int off \<ge> s32 buf_len \<or> prop_len < 1 then (p, Err OUT_OF_BUFFER)
          else on_prop (rd m (pbuf + off)) p (\<lambda>b.
            (p\<lparr>data_byte := b\<rparr>, if b > 1 then Err PROPERTY else Ok (off + 1, prop_len - 1)))
      | MQTT_DATA_TYPE_SHORT \<Rightarrow>
          if int off > s32 buf_len then (p, Err OUT_OF_BUFFER)
          else on_prop (MqttDecode_Num m (pbuf + off) (rest_len buf_len off)) p (\<lambda>(n, tmp).
            (p\<lparr>data_short := n\<rparr>,
             if tmp > unat prop_len then Err MALFORMED_DATA
             else if type p = MQTT_PROP_TOPIC_ALIAS \<and> n = 0 then Err MALFORMED_DATA
             else Ok (off + tmp, prop_len - word_of_nat tmp)))
      | MQTT_DATA_TYPE_INT \<Rightarrow>
          if int off > s32 buf_len \<or> unat prop_len < MQTT_DATA_INT_SIZE then (p, Err OUT_OF_BUFFER)
          else on_prop (MqttDecode_Int m (pbuf + off) (rest_len buf_len off)) p (\<lambda>(n, tmp).
            (p\<lparr>data_int := n\<rparr>,
             if type p = MQTT_PROP_MAX_PACKET_SZ \<and> n = 0 then Err MALFORMED_DATA
             else Ok (off + tmp, prop_len - word_of_nat tmp)))
      | MQTT_DATA_TYPE_STRING \<Rightarrow>
          if int off > s32 buf_len then (p, Err OUT_OF_BUFFER)
          else (case dec_string_value (\<lambda>s. data_str_update (\<lambda>_. s)) p m pbuf buf_len off prop_len of
                  (p1, r) \<Rightarrow>
                    (p1, bnd r (\<lambda>x.
                       if type p1 = MQTT_PROP_RESP_TOPIC
                       then bnd (MqttPacket_TopicNameValid (str (data_str p1))
                                   (unat (len (data_str p1))) MQTT_CONNECT_PROTOCOL_LEVEL_5)
                              (\<lambda>ok. if \<not> ok then Err MALFORMED_DATA else Ok x)
                       else Ok x)))
      | MQTT_DATA_TYPE_VAR_INT \<Rightarrow>
          if unat buf_len < off then (p, Err OUT_OF_BUFFER)
          else on_prop (MqttDecode_Vbi m (pbuf + off) (rest_len buf_len off)) p (\<lambda>(n, tmp).
            (p\<lparr>data_int := n\<rparr>,
             if tmp > unat prop_len then Err MALFORMED_DATA
             else if type p = MQTT_PROP_SUBSCRIPTION_ID \<and> n = 0 then Err MALFORMED_DATA
             else Ok (off + tmp, prop_len - word_of_nat tmp)))
      | MQTT_DATA_TYPE_BINARY \<Rightarrow> dec_binary_value p m pbuf buf_len off prop_len
      | MQTT_DATA_TYPE_STRING_PAIR \<Rightarrow> dec_pair_value p m pbuf buf_len off prop_len
      | MQTT_DATA_TYPE_NONE \<Rightarrow> (p, Err PROPERTY))"

text \<open>One pass of the loop after the allocation of the cell.\<close>

definition dec_prop ::
  "byte \<Rightarrow> mem \<Rightarrow> nat \<Rightarrow> word32 \<Rightarrow> nat \<Rightarrow> word32 \<Rightarrow> word32 \<times> word32 \<Rightarrow> MqttProp \<Rightarrow>
   MqttProp \<times> (nat \<times> word32 \<times> word32 \<times> word32) outcome" where
  "dec_prop packet m pbuf buf_len off prop_len seen p =
     (if int off > s32 buf_len then (p, Err OUT_OF_BUFFER)
      else on_prop (MqttDecode_Vbi m (pbuf + off) (rest_len buf_len off)) p (\<lambda>(prop_type, tmp).
        let p1 = p\<lparr>type := unat prop_type\<rparr>;
            prop_len1 = prop_len - word_of_nat tmp
        in if type p1 \<ge> length gPropMatrix then (p1, Err PROPERTY)
           else if \<not> prop_allowed packet (type p1) then (p1, Err PROPERTY_MISMATCH)
           else case seen_check packet (type p1) seen of
             None \<Rightarrow> (p1, Err PROPERTY)
           | Some seen' \<Rightarrow>
               (case dec_prop_value p1 m pbuf buf_len (off + tmp) prop_len1 of
                  (p2, r) \<Rightarrow> (p2, bnd r (\<lambda>(off2, prop_len2). Ok (off2, prop_len2, seen'))))))"

function dec_props_loop ::
  "byte \<Rightarrow> mem \<Rightarrow> nat \<Rightarrow> word32 \<Rightarrow> store \<Rightarrow> nat option \<Rightarrow> nat \<Rightarrow> word32 \<Rightarrow> nat \<Rightarrow> word32 \<times> word32 \<Rightarrow>
   bool \<Rightarrow> bool \<Rightarrow> store \<times> nat option \<times> (nat \<times> bool \<times> bool) outcome" where
  "dec_props_loop packet m pbuf buf_len H props off prop_len prop_count seen saw_auth_method saw_auth_data =
     (if sint prop_len \<le> 0 then (H, props, Ok (off, saw_auth_method, saw_auth_data))
      else if prop_count + 1 > MQTT_MAX_PROPS then (H, props, Err PROPERTY)
      else case MqttProps_Add H props of
        Fault \<Rightarrow> (H, props, Fault)
      | Err e \<Rightarrow> (H, props, Err e)
      | Ok (H1, props1, None) \<Rightarrow> (H1, props1, Err MEMORY)
      | Ok (H1, props1, Some i) \<Rightarrow>
          (case dec_prop packet m pbuf buf_len off prop_len seen (H1 ! i) of
             (p, Fault) \<Rightarrow> (H1[i := p], props1, Fault)
           | (p, Err e) \<Rightarrow> (H1[i := p], props1, Err e)
           | (p, Ok (off', prop_len', seen')) \<Rightarrow>
               dec_props_loop packet m pbuf buf_len (H1[i := p]) props1 off' prop_len' (prop_count + 1) seen'
                 (saw_auth_method \<or> type p = MQTT_PROP_AUTH_METHOD)
                 (saw_auth_data \<or> type p = MQTT_PROP_AUTH_DATA)))"
  by pat_completeness auto
termination
  by (relation "measure (\<lambda>(packet, m, pbuf, buf_len, H, props, off, prop_len, prop_count, seen, a, d). 30 - prop_count)")
    auto

text \<open>The result: the store, \<^verbatim>\<open>*props\<close> and the return value.\<close>

definition MqttDecode_Props ::
  "byte \<Rightarrow> store \<Rightarrow> nat option \<Rightarrow> mem \<Rightarrow> nat \<Rightarrow> word32 \<Rightarrow> word32 \<Rightarrow> store \<times> nat option \<times> nat outcome" where
  "MqttDecode_Props packet H props m pbuf buf_len prop_len =
     (case dec_props_loop packet m pbuf buf_len H props 0 prop_len 0 (0, 0) False False of
        (H1, props1, r) \<Rightarrow>
          (case bnd r (\<lambda>(tot, saw_auth_method, saw_auth_data).
                  if saw_auth_data \<and> \<not> saw_auth_method then Err PROPERTY else Ok tot) of
             Fault \<Rightarrow> (H1, props1, Fault)
           | Err e \<Rightarrow> (case MqttProps_Free H1 props1 of
                          Ok H2 \<Rightarrow> (H2, None, Err e)
                        | _ \<Rightarrow> (H1, props1, Fault))
           | Ok tot \<Rightarrow> (H1, props1, Ok tot)))"

definition MqttWillProps_ValidateType :: "nat \<Rightarrow> bool" where
  "MqttWillProps_ValidateType t =
     (t = MQTT_PROP_WILL_DELAY_INTERVAL \<or> t = MQTT_PROP_PAYLOAD_FORMAT_IND \<or>
      t = MQTT_PROP_MSG_EXPIRY_INTERVAL \<or> t = MQTT_PROP_CONTENT_TYPE \<or>
      t = MQTT_PROP_RESP_TOPIC \<or> t = MQTT_PROP_CORRELATION_DATA \<or>
      t = MQTT_PROP_USER_PROP)"

section \<open>Abstract property lists\<close>

datatype prop_value =
    V_BYTE byte | V_SHORT word16 | V_INT word32 | V_STRING "byte list" | V_VAR_INT word32
  | V_BINARY "byte list" | V_STRING_PAIR "byte list" "byte list" | V_NONE

text \<open>The bytes a length and a pointer name; \<^verbatim>\<open>MqttEncode_Data\<close> takes \<^verbatim>\<open>NULL\<close> for zeros.\<close>

definition str_val :: "MqttProp_Str \<Rightarrow> byte list" where
  "str_val s = (case str s of Some b \<Rightarrow> take (unat (len s)) b | None \<Rightarrow> replicate (unat (len s)) 0)"

definition str_wf :: "MqttProp_Str \<Rightarrow> bool" where
  "str_wf s = (case str s of Some b \<Rightarrow> unat (len s) \<le> length b | None \<Rightarrow> True)"

text \<open>The identifier and the value of a cell.\<close>

definition prop_sem :: "MqttProp \<Rightarrow> nat \<times> prop_value" where
  "prop_sem p = (type p,
     case prop_data (type p) of
       MQTT_DATA_TYPE_BYTE \<Rightarrow> V_BYTE (data_byte p)
     | MQTT_DATA_TYPE_SHORT \<Rightarrow> V_SHORT (data_short p)
     | MQTT_DATA_TYPE_INT \<Rightarrow> V_INT (data_int p)
     | MQTT_DATA_TYPE_STRING \<Rightarrow> V_STRING (str_val (data_str p))
     | MQTT_DATA_TYPE_VAR_INT \<Rightarrow> V_VAR_INT (data_int p)
     | MQTT_DATA_TYPE_BINARY \<Rightarrow> V_BINARY (str_val (data_bin p))
     | MQTT_DATA_TYPE_STRING_PAIR \<Rightarrow> V_STRING_PAIR (str_val (data_str p)) (str_val (data_str2 p))
     | MQTT_DATA_TYPE_NONE \<Rightarrow> V_NONE)"

fun value_bytes :: "prop_value \<Rightarrow> byte list" where
  "value_bytes (V_BYTE b) = [b]"
| "value_bytes (V_SHORT n) = num_bytes n"
| "value_bytes (V_INT n) = int_bytes n"
| "value_bytes (V_STRING s) = str_bytes s"
| "value_bytes (V_VAR_INT n) = vbi_bytes (unat n)"
| "value_bytes (V_BINARY s) = str_bytes s"
| "value_bytes (V_STRING_PAIR a b) = str_bytes a @ str_bytes b"
| "value_bytes V_NONE = []"

definition prop_bytes :: "nat \<times> prop_value \<Rightarrow> byte list" where
  "prop_bytes tv = vbi_bytes (fst tv) @ value_bytes (snd tv)"

definition props_bytes :: "(nat \<times> prop_value) list \<Rightarrow> byte list" where
  "props_bytes tvs = concat (map prop_bytes tvs)"

text \<open>The values a property may have.\<close>

definition utf8_str :: "byte list \<Rightarrow> bool" where
  "utf8_str s \<longleftrightarrow> length s \<le> 65535 \<and> utf8_ok s"

fun value_ok :: "nat \<Rightarrow> MqttDataType \<Rightarrow> prop_value \<Rightarrow> bool" where
  "value_ok t MQTT_DATA_TYPE_BYTE (V_BYTE b) = (b \<le> 1)"
| "value_ok t MQTT_DATA_TYPE_SHORT (V_SHORT n) = (t = MQTT_PROP_TOPIC_ALIAS \<longrightarrow> n \<noteq> 0)"
| "value_ok t MQTT_DATA_TYPE_INT (V_INT n) = (t = MQTT_PROP_MAX_PACKET_SZ \<longrightarrow> n \<noteq> 0)"
| "value_ok t MQTT_DATA_TYPE_STRING (V_STRING s) =
     (utf8_str s \<and> (t = MQTT_PROP_RESP_TOPIC \<longrightarrow> no_wildcard s))"
| "value_ok t MQTT_DATA_TYPE_VAR_INT (V_VAR_INT n) =
     (unat n \<le> MQTT_PACKET_MAX_REMAIN_LEN \<and> (t = MQTT_PROP_SUBSCRIPTION_ID \<longrightarrow> n \<noteq> 0))"
| "value_ok t MQTT_DATA_TYPE_BINARY (V_BINARY s) = (length s \<le> 65535)"
| "value_ok t MQTT_DATA_TYPE_STRING_PAIR (V_STRING_PAIR a b) = (utf8_str a \<and> utf8_str b)"
| "value_ok t d v = False"

definition prop_ok :: "byte \<Rightarrow> nat \<times> prop_value \<Rightarrow> bool" where
  "prop_ok packet tv \<longleftrightarrow> fst tv < length gPropMatrix \<and> prop_allowed packet (fst tv) \<and>
     value_ok (fst tv) (prop_data (fst tv)) (snd tv)"

text \<open>The properties that may stand in a list once only, section 2.2.2.2.\<close>

definition singleton_prop :: "byte \<Rightarrow> nat \<Rightarrow> bool" where
  "singleton_prop packet t \<longleftrightarrow> t \<noteq> MQTT_PROP_USER_PROP \<and>
     \<not> (t = MQTT_PROP_SUBSCRIPTION_ID \<and> packet = MQTT_PACKET_TYPE_PUBLISH)"

definition props_ok :: "byte \<Rightarrow> (nat \<times> prop_value) list \<Rightarrow> bool" where
  "props_ok packet tvs \<longleftrightarrow> length tvs \<le> MQTT_MAX_PROPS \<and> (\<forall>tv \<in> set tvs. prop_ok packet tv) \<and>
     distinct (filter (singleton_prop packet) (map fst tvs))"

definition auth_ok :: "(nat \<times> prop_value) list \<Rightarrow> bool" where
  "auth_ok tvs \<longleftrightarrow> (MQTT_PROP_AUTH_DATA \<in> fst ` set tvs \<longrightarrow> MQTT_PROP_AUTH_METHOD \<in> fst ` set tvs)"

section \<open>The duplicate guard\<close>

definition seen_set :: "word32 \<times> word32 \<Rightarrow> nat set" where
  "seen_set seen = {t. t < 64 \<and> (if t < 32 then bit (fst seen) t else bit (snd seen) (t - 32))}"

lemma bit_test: "(w :: word32) AND push_bit n 1 \<noteq> 0 \<longleftrightarrow> bit w n"
  by (simp add: and_exp_eq_0_iff_not_bit)

lemma seen_check_eq:
  assumes "t < 64"
  shows "seen_check packet t seen = None \<longleftrightarrow> singleton_prop packet t \<and> t \<in> seen_set seen"
    "seen_check packet t seen = Some seen' \<Longrightarrow>
       seen_set seen' = (if singleton_prop packet t then insert t (seen_set seen) else seen_set seen)"
proof -
  show "seen_check packet t seen = None \<longleftrightarrow> singleton_prop packet t \<and> t \<in> seen_set seen"
    using assms by (auto simp: seen_check_def seen_set_def singleton_prop_def Let_def bit_test simp flip: push_bit_of_1 split: prod.splits)
  show "seen_check packet t seen = Some seen' \<Longrightarrow>
       seen_set seen' = (if singleton_prop packet t then insert t (seen_set seen) else seen_set seen)"
    using assms
    by (auto simp: seen_check_def seen_set_def singleton_prop_def Let_def bit_test bit_simps split: prod.splits if_splits)
qed

lemma seen_set_0 [simp]: "seen_set (0, 0) = {}"
  by (auto simp: seen_set_def)

section \<open>Encoder: laws\<close>

lemma str_val_length: "str_wf s \<Longrightarrow> length (str_val s) = unat (len s)"
  by (auto simp: str_wf_def str_val_def split: option.splits)

lemma unat_word16_le [simp]: "unat (n :: word16) \<le> 65535"
  using unat_word16_less [of n] by linarith

lemma str_val_le [simp]: "length (str_val s) \<le> 65535"
  by (auto simp: min.coboundedI2 str_val_def split: option.splits)

lemma MqttEncode_Data_str [enc_eq]:
  "str_wf s \<Longrightarrow> MqttEncode_Data m buf (str s) (len s) =
     bnd (wr_opt m buf (str_bytes (str_val s))) (\<lambda>m'. Ok (m', length (str_bytes (str_val s))))"
  by (auto simp: MqttEncode_Data_eq str_wf_def str_val_def data_bytes_def str_bytes_def split: option.splits)

lemma utf8_replicate_0: "utf8_ok (replicate n 0) \<longleftrightarrow> n = 0"
  using utf8_ok_no_nul [of "replicate n 0"] by (cases n) auto

lemma MqttEncode_Utf8Ok_str:
  "str_wf s \<Longrightarrow> MqttEncode_Utf8Ok (str s) (unat (len s)) = Ok (utf8_ok (str_val s))"
  by (auto simp: str_wf_def str_val_def MqttEncode_Utf8Ok_eq MqttEncode_Utf8Ok_None utf8_replicate_0 split: option.splits)

lemma utf8_str_val: "utf8_str (str_val s) = utf8_ok (str_val s)"
  by (simp add: utf8_str_def str_val_le)

text \<open>What a caller owes for its cells: the pointers have the length they claim, and a Response Topic is not \<^verbatim>\<open>NULL\<close>.\<close>

definition prop_wf :: "MqttProp \<Rightarrow> bool" where
  "prop_wf p \<longleftrightarrow> str_wf (data_str p) \<and> str_wf (data_bin p) \<and> str_wf (data_str2 p) \<and>
     (type p = MQTT_PROP_RESP_TOPIC \<longrightarrow> str (data_str p) \<noteq> None)"

lemma topic_name_str:
  assumes "str_wf s" "str s \<noteq> None"
  shows "MqttPacket_TopicNameValid (str s) (unat (len s)) 5 = Ok (no_wildcard (str_val s))"
  using assms by (auto simp: str_wf_def str_val_def topic_name_valid_eq)

text \<open>The \<^verbatim>\<open>switch\<close> writes the reference bytes of a value in its domain and rejects any other.\<close>

lemma enc_prop_value_ok:
  assumes "prop_wf p" "value_ok (type p) (prop_data (type p)) (snd (prop_sem p))"
  shows "enc_prop_value p m buf =
     bnd (wr_opt m buf (value_bytes (snd (prop_sem p)))) (\<lambda>m'. Ok (m', length (value_bytes (snd (prop_sem p)))))"
  using assms
  by (cases "prop_data (type p)")
    (auto simp: enc_prop_value_def prop_sem_def prop_wf_def not_less enc_eq MqttEncode_Utf8Ok_str topic_name_str
      utf8_str_val utf8_str_def bnd_assoc wr_opt_append)

lemma enc_prop_value_bad:
  assumes "prop_wf p" "\<not> value_ok (type p) (prop_data (type p)) (snd (prop_sem p))"
  shows "\<exists>e. enc_prop_value p m None = Err e"
  using assms
  by (cases "prop_data (type p)")
    (auto simp: enc_prop_value_def prop_sem_def prop_wf_def not_less enc_eq MqttEncode_Utf8Ok_str topic_name_str
      utf8_str_val utf8_str_def bnd_assoc)

text \<open>A property never takes more than 131075 bytes, so a list of 30 stays below the packet limit.\<close>

lemma gPropMatrix_length [simp]: "length gPropMatrix = 44"
  by (simp add: gPropMatrix_def)

lemma value_bytes_length:
  assumes "value_ok t d v"
  shows "length (value_bytes v) \<le> 131074"
proof (cases v)
  case (V_VAR_INT n)
  with assms have "unat n \<le> 0x0FFFFFFF" by (cases d) auto
  then show ?thesis using V_VAR_INT vbi_bytes_length_4 [of "unat n"] by simp
qed (use assms in \<open>cases d; auto simp: utf8_str_def\<close>)+

lemma prop_bytes_length:
  assumes "prop_ok packet tv"
  shows "length (prop_bytes tv) \<le> 131075" "0 < length (prop_bytes tv)" "length (vbi_bytes (fst tv)) = 1"
proof -
  from assms have t: "fst tv < 128" by (simp add: prop_ok_def)
  then show "length (vbi_bytes (fst tv)) = 1" by (simp add: vbi_bytes_small)
  with assms show "length (prop_bytes tv) \<le> 131075" "0 < length (prop_bytes tv)"
    using value_bytes_length by (auto simp: prop_ok_def prop_bytes_def)
qed

lemma prop_sem_fst [simp]: "fst (prop_sem p) = type p"
  by (simp add: prop_sem_def)

declare enc_props_loop.simps [simp del]

lemma enc_props_loop_None [simp]: "enc_props_loop packet H None m buf rc k seen = Ok (m, rc)"
  by (simp add: enc_props_loop.simps)

lemma enc_props_loop_step:
  assumes "i < length H" "k < 30" "prop_wf (H ! i)" "prop_ok packet (prop_sem (H ! i))"
    and "seen_check packet (type (H ! i)) seen = Some seen'" "rc \<le> k * 131075"
  shows "enc_props_loop packet H (Some i) m buf rc k seen =
    bnd (wr_opt m buf (prop_bytes (prop_sem (H ! i)))) (\<lambda>m'.
      enc_props_loop packet H (next (H ! i)) m' (adv buf (length (prop_bytes (prop_sem (H ! i)))))
        (rc + length (prop_bytes (prop_sem (H ! i)))) (k + 1) seen')"
proof -
  let ?p = "H ! i"
  have t: "type ?p < 44" "prop_allowed packet (type ?p)" "value_ok (type ?p) (prop_data (type ?p)) (snd (prop_sem ?p))"
    using assms(4) by (simp_all add: prop_ok_def)
  have u: "unat (word_of_nat (type ?p) :: word32) = type ?p" using t(1) by (simp add: unat_word32_of_nat)
  have b: "prop_bytes (prop_sem ?p) = vbi_bytes (type ?p) @ value_bytes (snd (prop_sem ?p))"
    by (simp add: prop_bytes_def)
  have "rc + length (prop_bytes (prop_sem ?p)) \<le> 0x0FFFFFFF"
    using prop_bytes_length(1) [OF assms(4)] assms(2,6) by linarith
  then show ?thesis
    unfolding enc_props_loop.simps [of packet H "Some i"]
    using assms t u enc_prop_value_ok [OF assms(3) t(3)]
    by (simp add: MqttEncode_Vbi_eq b wr_opt_append bnd_assoc add.assoc)
qed

definition guard_ok :: "byte \<Rightarrow> nat \<Rightarrow> nat set \<Rightarrow> (nat \<times> prop_value) list \<Rightarrow> bool" where
  "guard_ok packet k S tvs \<longleftrightarrow> k + length tvs \<le> MQTT_MAX_PROPS \<and> (\<forall>tv \<in> set tvs. prop_ok packet tv) \<and>
     distinct (filter (singleton_prop packet) (map fst tvs)) \<and>
     S \<inter> set (filter (singleton_prop packet) (map fst tvs)) = {}"

lemma guard_ok_Nil [simp]: "guard_ok packet k S [] \<longleftrightarrow> k \<le> 30"
  by (simp add: guard_ok_def)

lemma guard_ok_Cons:
  "guard_ok packet k S (tv # tvs) \<longleftrightarrow> k < 30 \<and> prop_ok packet tv \<and>
     \<not> (singleton_prop packet (fst tv) \<and> fst tv \<in> S) \<and>
     guard_ok packet (k + 1) (if singleton_prop packet (fst tv) then insert (fst tv) S else S) tvs"
  by (auto simp: guard_ok_def)

lemma props_ok_guard: "props_ok packet tvs = guard_ok packet 0 {} tvs"
  by (simp add: props_ok_def guard_ok_def)

lemma props_bytes_Cons: "props_bytes (tv # tvs) = prop_bytes tv @ props_bytes tvs"
  by (simp add: props_bytes_def)

lemma props_bytes_Nil [simp]: "props_bytes [] = []"
  by (simp add: props_bytes_def)

lemma enc_props_loop_ok:
  "chain H h is \<Longrightarrow> (\<forall>i \<in> set is. prop_wf (H ! i)) \<Longrightarrow>
   guard_ok packet k (seen_set seen) (map (\<lambda>i. prop_sem (H ! i)) is) \<Longrightarrow> rc \<le> k * 131075 \<Longrightarrow>
   (\<forall>p. buf = Some p \<longrightarrow> p \<le> length m) \<Longrightarrow>
   enc_props_loop packet H h m buf rc k seen =
     bnd (wr_opt m buf (props_bytes (map (\<lambda>i. prop_sem (H ! i)) is))) (\<lambda>m'.
       Ok (m', rc + length (props_bytes (map (\<lambda>i. prop_sem (H ! i)) is))))"
proof (induction "is" arbitrary: h m buf rc k seen)
  case Nil
  then show ?case by (cases buf) auto
next
  case (Cons i "is")
  let ?tv = "prop_sem (H ! i)" and ?tvs = "map (\<lambda>i. prop_sem (H ! i)) is"
  from Cons.prems(1) have h: "h = Some i" "i < length H" "chain H (next (H ! i)) is" by auto
  from Cons.prems(3) have g: "k < 30" "prop_ok packet ?tv" "\<not> (singleton_prop packet (type (H ! i)) \<and> type (H ! i) \<in> seen_set seen)"
    "guard_ok packet (k + 1) (if singleton_prop packet (type (H ! i)) then insert (type (H ! i)) (seen_set seen) else seen_set seen) ?tvs"
    by (auto simp: guard_ok_Cons)
  have t: "type (H ! i) < 64" using g(2) by (simp add: prop_ok_def)
  with g(3) obtain seen' where s: "seen_check packet (type (H ! i)) seen = Some seen'"
    using seen_check_eq(1) [OF t] by (cases "seen_check packet (type (H ! i)) seen") auto
  note ss = seen_check_eq(2) [OF t s]
  have rc: "rc + length (prop_bytes ?tv) \<le> (k + 1) * 131075"
    using Cons.prems(4) prop_bytes_length(1) [OF g(2)] by simp
  have "enc_props_loop packet H h m buf rc k seen =
    bnd (wr_opt m buf (prop_bytes ?tv)) (\<lambda>m'.
      enc_props_loop packet H (next (H ! i)) m' (adv buf (length (prop_bytes ?tv)))
        (rc + length (prop_bytes ?tv)) (k + 1) seen')"
    unfolding h(1) using Cons.prems h g s by (intro enc_props_loop_step) auto
  also have "\<dots> = bnd (wr_opt m buf (prop_bytes ?tv)) (\<lambda>m'.
      bnd (wr_opt m' (adv buf (length (prop_bytes ?tv))) (props_bytes ?tvs)) (\<lambda>m'.
       Ok (m', rc + length (prop_bytes ?tv) + length (props_bytes ?tvs))))"
  proof (rule bnd_cong [OF refl])
    fix m' assume "wr_opt m buf (prop_bytes ?tv) = Ok m'"
    then have "\<forall>p. adv buf (length (prop_bytes ?tv)) = Some p \<longrightarrow> p \<le> length m'"
      by (cases buf) (auto simp: wr_def split: if_splits)
    then show "enc_props_loop packet H (next (H ! i)) m' (adv buf (length (prop_bytes ?tv)))
        (rc + length (prop_bytes ?tv)) (k + 1) seen' =
      bnd (wr_opt m' (adv buf (length (prop_bytes ?tv))) (props_bytes ?tvs)) (\<lambda>m'.
       Ok (m', rc + length (prop_bytes ?tv) + length (props_bytes ?tvs)))"
      using Cons.prems h g ss rc by (intro Cons.IH) auto
  qed
  finally show ?case by (simp add: props_bytes_Cons wr_opt_append bnd_assoc add.assoc)
qed

text \<open>On the length pass a list outside the rules gives an error code.\<close>

lemma enc_props_loop_bad:
  "chain H h is \<Longrightarrow> (\<forall>i \<in> set is. prop_wf (H ! i)) \<Longrightarrow> k \<le> 30 \<Longrightarrow>
   \<not> guard_ok packet k (seen_set seen) (map (\<lambda>i. prop_sem (H ! i)) is) \<Longrightarrow> rc \<le> k * 131075 \<Longrightarrow>
   \<exists>e. enc_props_loop packet H h m None rc k seen = Err e"
proof (induction "is" arbitrary: h rc k seen)
  case (Cons i "is")
  let ?t = "type (H ! i)" and ?tv = "prop_sem (H ! i)" and ?tvs = "map (\<lambda>i. prop_sem (H ! i)) is"
  from Cons.prems(1) have h: "h = Some i" "i < length H" "chain H (next (H ! i)) is" by auto
  note simps = enc_props_loop.simps [of packet H "Some i" m None rc k seen]
  show ?case
  proof (cases "k < 30 \<and> ?t < 44 \<and> prop_allowed packet ?t")
    case False
    then show ?thesis unfolding h(1) simps using h(2) by auto
  next
    case pre: True
    then have t: "?t < 64" by simp
    show ?thesis
    proof (cases "seen_check packet ?t seen")
      case None
      then show ?thesis unfolding h(1) simps using h(2) pre by simp
    next
      case (Some seen')
      show ?thesis
      proof (cases "value_ok ?t (prop_data ?t) (snd ?tv)")
        case False
        then obtain e where "enc_prop_value (H ! i) m None = Err e"
          using enc_prop_value_bad Cons.prems(2) by (meson list.set_intros(1))
        then show ?thesis unfolding h(1) simps using h(2) pre Some
          by (simp add: MqttEncode_Vbi_eq unat_word32_of_nat)
      next
        case True
        then have ok: "prop_ok packet ?tv" using pre by (simp add: prop_ok_def)
        have ng: "\<not> guard_ok packet (k + 1) (seen_set seen') ?tvs"
          using Cons.prems(4) pre ok Some seen_check_eq(1) [OF t, of packet seen] seen_check_eq(2) [OF t Some]
          by (auto simp: guard_ok_Cons)
        have "rc + length (prop_bytes ?tv) \<le> (k + 1) * 131075"
          using Cons.prems(5) prop_bytes_length(1) [OF ok] by simp
        then obtain e where "enc_props_loop packet H (next (H ! i)) m None (rc + length (prop_bytes ?tv)) (k + 1) seen' = Err e"
          using Cons.IH [OF h(3) _ _ ng] Cons.prems(2) pre by auto
        then show ?thesis
          unfolding h(1) using enc_props_loop_step [OF h(2), of k packet seen seen' rc m None] pre ok Some Cons.prems(2,5)
          by simp
      qed
    qed
  qed
qed simp

text \<open>Success means the list is finite and has no more than 30 cells: a circular list is refused.\<close>

lemma enc_props_loop_finite:
  "enc_props_loop packet H h m buf rc k seen = Ok r \<Longrightarrow> k \<le> 30 \<Longrightarrow> \<exists>is. chain H h is \<and> k + length is \<le> 30"
proof (induction packet H h m buf rc k seen rule: enc_props_loop.induct)
  case (1 packet H h m buf rc k seen)
  show ?case
  proof (cases h)
    case None
    then show ?thesis using 1 by (intro exI [of _ "[]"]) auto
  next
    case (Some i)
    note P = "1.prems"(1) [unfolded Some enc_props_loop.simps [of packet H "Some i"] option.case]
    from P obtain seen' m1 k1 m2 k2 where
      a: "\<not> 30 < k + 1" "\<not> length H \<le> i" "\<not> 44 \<le> type (H ! i)" "prop_allowed packet (type (H ! i))"
        "seen_check packet (type (H ! i)) seen = Some seen'"
        "MqttEncode_Vbi m buf (word_of_nat (type (H ! i))) = Ok (m1, k1)"
        "enc_prop_value (H ! i) m1 (adv buf k1) = Ok (m2, k2)"
        "\<not> 0x0FFFFFFF < rc + k1 + k2"
        "enc_props_loop packet H (next (H ! i)) m2 (adv buf (k1 + k2)) (rc + k1 + k2) (k + 1) seen' = Ok r"
      by (auto simp: bnd_Ok_iff split: if_splits option.splits)
    have "\<exists>is. chain H (next (H ! i)) is \<and> k + 1 + length is \<le> 30"
      using a by (intro "1.IH" [OF Some _ _ _ _ a(5) a(6) refl a(7) refl]) simp_all
    then obtain "is" where "chain H (next (H ! i)) is" "k + 1 + length is \<le> 30" by blast
    then show ?thesis using Some a by (intro exI [of _ "i # is"]) auto
  qed
qed

definition props_val :: "store \<Rightarrow> nat list \<Rightarrow> (nat \<times> prop_value) list" where
  "props_val H is = map (\<lambda>i. prop_sem (H ! i)) is"

lemma MqttEncode_Props_eq [enc_eq]:
  assumes "chain H h is" "\<forall>i \<in> set is. prop_wf (H ! i)" "props_ok packet (props_val H is)"
    and "\<forall>p. buf = Some p \<longrightarrow> p \<le> length m"
  shows "MqttEncode_Props packet H h m buf =
    bnd (wr_opt m buf (props_bytes (props_val H is))) (\<lambda>m'. Ok (m', length (props_bytes (props_val H is))))"
  using enc_props_loop_ok [OF assms(1,2), of packet 0 "(0, 0)" 0 buf m] assms(3,4)
  by (simp add: MqttEncode_Props_def props_ok_guard props_val_def)

lemma MqttEncode_Props_bad:
  assumes "chain H h is" "\<forall>i \<in> set is. prop_wf (H ! i)" "\<not> props_ok packet (props_val H is)"
  shows "\<exists>e. MqttEncode_Props packet H h m None = Err e"
  using enc_props_loop_bad [OF assms(1,2), of 0 packet "(0, 0)" 0 m] assms(3)
  by (simp add: MqttEncode_Props_def props_ok_guard props_val_def)

lemma MqttEncode_Props_finite:
  "MqttEncode_Props packet H h m buf = Ok r \<Longrightarrow> \<exists>is. chain H h is \<and> length is \<le> 30"
  using enc_props_loop_finite [of packet H h m buf 0 0 "(0, 0)"] by (simp add: MqttEncode_Props_def)

section \<open>Decoder: one property\<close>

declare of_nat_unat [simp del]

lemma word_of_nat_unat [simp]: "word_of_nat (unat (x :: 'a :: len word)) = x"
  by (simp add: of_nat_unat)

lemma rest_len_eq: "off \<le> unat B \<Longrightarrow> rest_len B off = unat B - off"
proof -
  assume le: "off \<le> unat B"
  have "int (unat B) - int off < 4294967296" using unat_word32_less [of B] by linarith
  then show ?thesis using le by (simp add: rest_len_def nat_diff_distrib')
qed

lemma unat_sub_of_nat: "k \<le> unat (w :: word32) \<Longrightarrow> unat (w - word_of_nat k) = unat w - k"
proof -
  assume k: "k \<le> unat w"
  then have "k < 4294967296" using unat_word32_less [of w] by linarith
  then have "unat (word_of_nat k :: word32) = k" by (rule unat_word32_of_nat)
  then show ?thesis using k by (simp add: unat_sub word_le_nat_alt)
qed

lemma dec_string_value_no_fault:
  assumes "off \<le> unat B" "pbuf + unat B \<le> length m"
  shows "snd (dec_string_value f p m pbuf B off pl) \<noteq> Fault"
proof -
  have "MqttDecode_String m (pbuf + off) (unat B - off) \<noteq> Fault"
    using assms by (intro MqttDecode_String_no_fault) simp
  then show ?thesis using assms
    by (auto simp: dec_string_value_def on_prop_def rest_len_eq Let_def split: outcome.splits)
qed

lemma dec_string_value_sound:
  assumes "dec_string_value f p m pbuf B off pl = (p', Ok (off', pl'))" "off \<le> unat B"
  obtains s where "p' = f \<lparr>len = word_of_nat (length s), str = Some s\<rparr> p" "utf8_str s"
    "off' = off + (2 + length s)" "off' \<le> unat B" "2 + length s \<le> unat pl"
    "pl' = pl - word_of_nat (2 + length s)" "blk m (pbuf + off) (2 + length s) = str_bytes s"
proof -
  from assms obtain s k where d: "MqttDecode_String m (pbuf + off) (unat B - off) = Ok (s, k)"
    and r: "p' = f \<lparr>len = word_of_nat (length s), str = Some s\<rparr> p" "k \<le> unat pl" "off' = off + k"
      "pl' = pl - word_of_nat k"
    by (auto simp: dec_string_value_def on_prop_def rest_len_eq Let_def split: outcome.splits if_splits)
  note n = MqttDecode_String_sound [OF d]
  show thesis
    using r n assms(2) by (intro that [of s]) (auto simp: utf8_str_def)
qed

lemma dec_string_value_complete:
  assumes "blk m (pbuf + off) (2 + length s) = str_bytes s" "utf8_str s" "off + (2 + length s) \<le> unat B"
    and "pbuf + unat B \<le> length m" "2 + length s \<le> unat pl"
  shows "dec_string_value f p m pbuf B off pl =
    (f \<lparr>len = word_of_nat (length s), str = Some s\<rparr> p, Ok (off + (2 + length s), pl - word_of_nat (2 + length s)))"
proof -
  have "MqttDecode_String m (pbuf + off) (unat B - off) = Ok (s, 2 + length s)"
    using assms by (intro MqttDecode_String_complete) (auto simp: utf8_str_def)
  then show ?thesis using assms
    by (simp add: dec_string_value_def on_prop_def rest_len_eq Let_def)
qed

lemma str_val_block: "length s \<le> 65535 \<Longrightarrow> str_val \<lparr>len = word_of_nat (length s), str = Some s\<rparr> = s"
  by (simp add: str_val_def unat_word16_of_nat)

lemma str_wf_block: "length s \<le> 65535 \<Longrightarrow> str_wf \<lparr>len = word_of_nat (length s), str = Some s\<rparr>"
  by (simp add: str_wf_def unat_word16_of_nat)

text \<open>The cells of a decoded list, before a value is stored in them.\<close>

definition strs_wf :: "MqttProp \<Rightarrow> bool" where
  "strs_wf p \<longleftrightarrow> str_wf (data_str p) \<and> str_wf (data_bin p) \<and> str_wf (data_str2 p)"

lemma str_wf_no_str [simp]: "str_wf no_str"
  by (simp add: str_wf_def no_str_def)

definition value_step :: "MqttProp \<Rightarrow> MqttProp \<Rightarrow> mem \<Rightarrow> nat \<Rightarrow> word32 \<Rightarrow> nat \<Rightarrow> word32 \<Rightarrow> nat \<Rightarrow> word32 \<Rightarrow> bool" where
  "value_step p p' m pbuf B off pl off' pl' \<longleftrightarrow>
     (let n = length (value_bytes (snd (prop_sem p'))) in
      type p' = type p \<and> next p' = next p \<and> prop_wf p' \<and>
      value_ok (type p) (prop_data (type p)) (snd (prop_sem p')) \<and>
      off' = off + n \<and> off' \<le> unat B \<and> n \<le> unat pl \<and> pl' = pl - word_of_nat n \<and>
      blk m (pbuf + off) n = value_bytes (snd (prop_sem p')))"

lemma s32_unat: "unat B < 2147483648 \<Longrightarrow> s32 B = int (unat B)"
  by (rule s32_small)

lemma ucast_16_32: "(ucast (n :: word16) :: word32) = word_of_nat (unat n)"
  by (simp add: of_nat_unat)

lemma dec_prop_value_sound:
  assumes d: "dec_prop_value p m pbuf B off pl = (p', Ok (off', pl'))"
    and p: "strs_wf p" "type p = MQTT_PROP_RESP_TOPIC \<longrightarrow> prop_data (type p) = MQTT_DATA_TYPE_STRING"
    and b: "off \<le> unat B" "unat B < 2147483648" "pbuf + unat B \<le> length m"
  shows "value_step p p' m pbuf B off pl off' pl'"
proof (cases "prop_data (type p)")
  case MQTT_DATA_TYPE_NONE
  then show ?thesis using d by (simp add: dec_prop_value_def dec_binary_value_def dec_pair_value_def)
next
  case MQTT_DATA_TYPE_BYTE
  have "\<not> pl < 1 \<Longrightarrow> 1 \<le> unat pl" by (simp add: word_less_nat_alt)
  with MQTT_DATA_TYPE_BYTE show ?thesis using d p b
    by (auto simp: dec_prop_value_def dec_binary_value_def dec_pair_value_def on_prop_def rd_def s32_unat value_step_def prop_sem_def prop_wf_def strs_wf_def
        Let_def blk_Suc not_less word_le_nat_alt split: if_splits)
next
  case MQTT_DATA_TYPE_SHORT
  then obtain n k where n: "MqttDecode_Num m (pbuf + off) (unat B - off) = Ok (n, k)"
    and r: "p' = p\<lparr>data_short := n\<rparr>" "off' = off + k" "pl' = pl - word_of_nat k" "k \<le> unat pl"
      "type p = MQTT_PROP_TOPIC_ALIAS \<longrightarrow> n \<noteq> 0"
    using d b by (auto simp: dec_prop_value_def dec_binary_value_def dec_pair_value_def on_prop_def rest_len_eq s32_unat split: if_splits outcome.splits)
  note s = MqttDecode_Num_sound [OF n]
  show ?thesis using MQTT_DATA_TYPE_SHORT r s p b
    by (auto simp: value_step_def prop_sem_def prop_wf_def strs_wf_def Let_def)
next
  case MQTT_DATA_TYPE_INT
  then obtain n k where n: "MqttDecode_Int m (pbuf + off) (unat B - off) = Ok (n, k)"
    and r: "p' = p\<lparr>data_int := n\<rparr>" "off' = off + k" "pl' = pl - word_of_nat k" "4 \<le> unat pl"
      "type p = MQTT_PROP_MAX_PACKET_SZ \<longrightarrow> n \<noteq> 0"
    using d b by (auto simp: dec_prop_value_def dec_binary_value_def dec_pair_value_def on_prop_def rest_len_eq s32_unat split: if_splits outcome.splits)
  note s = MqttDecode_Int_sound [OF n]
  show ?thesis using MQTT_DATA_TYPE_INT r s p b
    by (auto simp: value_step_def prop_sem_def prop_wf_def strs_wf_def Let_def)
next
  case MQTT_DATA_TYPE_VAR_INT
  then obtain n k where n: "MqttDecode_Vbi m (pbuf + off) (unat B - off) = Ok (n, k)"
    and r: "p' = p\<lparr>data_int := n\<rparr>" "off' = off + k" "pl' = pl - word_of_nat k" "k \<le> unat pl"
      "type p = MQTT_PROP_SUBSCRIPTION_ID \<longrightarrow> n \<noteq> 0"
    using d b by (auto simp: dec_prop_value_def dec_binary_value_def dec_pair_value_def on_prop_def rest_len_eq s32_unat split: if_splits outcome.splits)
  note s = MqttDecode_Vbi_sound [OF n]
  show ?thesis using MQTT_DATA_TYPE_VAR_INT r s p b
    by (auto simp: value_step_def prop_sem_def prop_wf_def strs_wf_def Let_def)
next
  case MQTT_DATA_TYPE_STRING
  then have "dec_string_value (\<lambda>s. data_str_update (\<lambda>_. s)) p m pbuf B off pl = (p', Ok (off', pl'))"
    and nm: "type p' = 8 \<Longrightarrow> MqttPacket_TopicNameValid (str (data_str p')) (unat (len (data_str p'))) 5 = Ok True"
    using d b by (auto simp: dec_prop_value_def dec_binary_value_def dec_pair_value_def s32_unat bnd_Ok_iff split: if_splits prod.splits)
  from dec_string_value_sound [OF this(1) b(1)] obtain s where s:
    "p' = p\<lparr>data_str := \<lparr>len = word_of_nat (length s), str = Some s\<rparr>\<rparr>" "utf8_str s"
    "off' = off + (2 + length s)" "off' \<le> unat B" "2 + length s \<le> unat pl"
    "pl' = pl - word_of_nat (2 + length s)" "blk m (pbuf + off) (2 + length s) = str_bytes s" by auto
  from s(1,2) have v: "str_val (data_str p') = s" "str_wf (data_str p')"
    by (auto simp: utf8_str_def str_val_block str_wf_block)
  have "type p = 8 \<Longrightarrow> no_wildcard s"
    using nm topic_name_str [OF v(2)] v(1) s(1) by simp
  then show ?thesis using MQTT_DATA_TYPE_STRING s v p b
    by (auto simp: value_step_def prop_sem_def prop_wf_def strs_wf_def Let_def)
next
  case MQTT_DATA_TYPE_BINARY
  then obtain n k where n: "MqttDecode_Num m (pbuf + off) (unat B - off) = Ok (n, k)" and k: "k \<le> unat pl"
    and r: "int (unat n) \<le> int (unat B) - int (off + k)" "unat n \<le> unat (pl - word_of_nat k)"
      "p' = p\<lparr>data_bin := \<lparr>len = n, str = Some (blk m (pbuf + off + k) (unat n))\<rparr>\<rparr>"
      "off' = off + k + unat n" "pl' = pl - word_of_nat k - ucast n" "pbuf + off + k + unat n \<le> length m"
    using d b by (auto simp: dec_prop_value_def dec_binary_value_def dec_pair_value_def on_prop_def rest_len_eq Let_def rdn_def add.assoc split: if_splits outcome.splits)
  note s = MqttDecode_Num_sound [OF n]
  let ?s = "blk m (pbuf + off + k) (unat n)"
  have l: "length ?s = unat n" using r(6) by simp
  have "blk m (pbuf + off) (2 + unat n) = str_bytes ?s"
    unfolding blk_add str_bytes_def l using s(1,4) by simp
  moreover have "2 + unat n \<le> unat pl" using r(2) k s(1) unat_sub_of_nat [OF k] by simp
  ultimately show ?thesis using MQTT_DATA_TYPE_BINARY r(1,3-6) l s(1) p
    by (auto simp: value_step_def prop_sem_def prop_wf_def strs_wf_def Let_def str_val_def str_wf_def ucast_16_32)
next
  case MQTT_DATA_TYPE_STRING_PAIR
  then obtain p1 off1 pl1 where
    d1: "dec_string_value (\<lambda>s. data_str_update (\<lambda>_. s)) p m pbuf B off pl = (p1, Ok (off1, pl1))" and
    d2: "dec_string_value (\<lambda>s. data_str2_update (\<lambda>_. s)) p1 m pbuf B off1 pl1 = (p', Ok (off', pl'))"
    using d by (auto simp: dec_prop_value_def dec_binary_value_def dec_pair_value_def on_prop_def split: if_splits prod.splits outcome.splits)
  from dec_string_value_sound [OF d1 b(1)] obtain s where s:
    "p1 = p\<lparr>data_str := \<lparr>len = word_of_nat (length s), str = Some s\<rparr>\<rparr>" "utf8_str s"
    "off1 = off + (2 + length s)" "off1 \<le> unat B" "2 + length s \<le> unat pl"
    "pl1 = pl - word_of_nat (2 + length s)" "blk m (pbuf + off) (2 + length s) = str_bytes s" by auto
  from dec_string_value_sound [OF d2 s(4)] obtain u where u:
    "p' = p1\<lparr>data_str2 := \<lparr>len = word_of_nat (length u), str = Some u\<rparr>\<rparr>" "utf8_str u"
    "off' = off1 + (2 + length u)" "off' \<le> unat B" "2 + length u \<le> unat pl1"
    "pl' = pl1 - word_of_nat (2 + length u)" "blk m (pbuf + off1) (2 + length u) = str_bytes u" by auto
  have "blk m (pbuf + off) ((2 + length s) + (2 + length u)) = str_bytes s @ str_bytes u"
    using blk_add [of m "pbuf + off" "2 + length s" "2 + length u"] s(3,7) u(7) by (simp only: add.assoc)
  moreover have "(2 + length s) + (2 + length u) \<le> unat pl" using u(5) s(5,6) unat_sub_of_nat [OF s(5)] by simp
  ultimately show ?thesis using MQTT_DATA_TYPE_STRING_PAIR s u p
    by (auto simp: value_step_def prop_sem_def prop_wf_def strs_wf_def Let_def str_val_block str_wf_block utf8_str_def
        diff_diff_eq simp flip: of_nat_add)
qed

lemma dec_prop_value_no_fault:
  assumes b: "off \<le> unat B" "unat B < 2147483648" "pbuf + unat B \<le> length m"
  shows "snd (dec_prop_value p m pbuf B off pl) \<noteq> Fault"
proof (cases "prop_data (type p)")
  case MQTT_DATA_TYPE_STRING
  obtain p1 r where r: "dec_string_value (\<lambda>s. data_str_update (\<lambda>_. s)) p m pbuf B off pl = (p1, r)" by fastforce
  have nf: "r \<noteq> Fault" using dec_string_value_no_fault [OF b(1,3)] r by (metis snd_conv)
  have "MqttPacket_TopicNameValid (str (data_str p1)) (unat (len (data_str p1))) 5 \<noteq> Fault" if "r = Ok x" for x
  proof -
    obtain off' pl' where "x = (off', pl')" by fastforce
    from dec_string_value_sound [OF r [unfolded that this] b(1)] show ?thesis
      by (force simp: topic_name_valid_eq utf8_str_def unat_word16_of_nat)
  qed
  then show ?thesis using MQTT_DATA_TYPE_STRING b r nf
    by (auto simp: dec_prop_value_def dec_binary_value_def dec_pair_value_def bnd_Fault_iff)
next
  case MQTT_DATA_TYPE_STRING_PAIR
  obtain p1 r where r: "dec_string_value (\<lambda>s. data_str_update (\<lambda>_. s)) p m pbuf B off pl = (p1, r)" by fastforce
  have nf: "r \<noteq> Fault" using dec_string_value_no_fault [OF b(1,3)] r by (metis snd_conv)
  have "snd (dec_string_value f p1 m pbuf B off1 pl1) \<noteq> Fault" if "r = Ok (off1, pl1)" for f off1 pl1
    using dec_string_value_sound [OF r [unfolded that] b(1)] b(3) by (metis dec_string_value_no_fault)
  then show ?thesis using MQTT_DATA_TYPE_STRING_PAIR r nf
    by (auto simp: dec_prop_value_def dec_binary_value_def dec_pair_value_def on_prop_def split: outcome.splits)
next
  case MQTT_DATA_TYPE_BINARY
  have nf: "MqttDecode_Num m (pbuf + off) (unat B - off) \<noteq> Fault" using b by (intro MqttDecode_Num_no_fault) simp
  show ?thesis using MQTT_DATA_TYPE_BINARY b nf
    by (auto simp: dec_prop_value_def dec_binary_value_def dec_pair_value_def rest_len_eq Let_def rdn_def on_prop_def split: outcome.splits)
next
  case MQTT_DATA_TYPE_BYTE
  then show ?thesis using b by (auto simp: dec_prop_value_def dec_binary_value_def dec_pair_value_def s32_unat rd_def on_prop_def split: outcome.splits)
next
  case MQTT_DATA_TYPE_SHORT
  have "MqttDecode_Num m (pbuf + off) (unat B - off) \<noteq> Fault" using b by (intro MqttDecode_Num_no_fault) simp
  with MQTT_DATA_TYPE_SHORT show ?thesis using b by (auto simp: dec_prop_value_def dec_binary_value_def dec_pair_value_def rest_len_eq on_prop_def split: outcome.splits)
next
  case MQTT_DATA_TYPE_INT
  have "MqttDecode_Int m (pbuf + off) (unat B - off) \<noteq> Fault" using b by (intro MqttDecode_Int_no_fault) simp
  with MQTT_DATA_TYPE_INT show ?thesis using b by (auto simp: dec_prop_value_def dec_binary_value_def dec_pair_value_def rest_len_eq on_prop_def split: outcome.splits)
next
  case MQTT_DATA_TYPE_VAR_INT
  have "MqttDecode_Vbi m (pbuf + off) (unat B - off) \<noteq> Fault" using b by (intro MqttDecode_Vbi_no_fault) simp
  with MQTT_DATA_TYPE_VAR_INT show ?thesis using b by (auto simp: dec_prop_value_def dec_binary_value_def dec_pair_value_def rest_len_eq on_prop_def split: outcome.splits)
qed (simp add: dec_prop_value_def dec_binary_value_def dec_pair_value_def)

lemma dec_prop_value_complete:
  assumes v: "value_ok (type p) (prop_data (type p)) v" "blk m (pbuf + off) (length (value_bytes v)) = value_bytes v"
    and n: "off + length (value_bytes v) \<le> unat B" "length (value_bytes v) \<le> unat pl"
    and b: "unat B < 2147483648" "pbuf + unat B \<le> length m"
  shows "\<exists>p'. dec_prop_value p m pbuf B off pl =
      (p', Ok (off + length (value_bytes v), pl - word_of_nat (length (value_bytes v)))) \<and> prop_sem p' = (type p, v)"
proof -
  have off: "off \<le> unat B" using n by simp
  note d = dec_prop_value_def dec_binary_value_def dec_pair_value_def on_prop_def prop_sem_def rest_len_eq [OF off] s32_unat [OF b(1)]
  show ?thesis
  proof (cases v)
    case (V_BYTE x)
    with v have "prop_data (type p) = MQTT_DATA_TYPE_BYTE" "x \<le> 1" by (cases "prop_data (type p)"; simp)+
    moreover have "m ! (pbuf + off) = x" using v n b V_BYTE blk_nth [of 0 1 "pbuf + off" m] by simp
    moreover have "\<not> pl < 1" using n V_BYTE by (simp add: word_less_nat_alt)
    ultimately show ?thesis using V_BYTE n b by (simp add: d rd_def not_less [symmetric])
  next
    case (V_SHORT x)
    with v have "prop_data (type p) = MQTT_DATA_TYPE_SHORT" "type p = MQTT_PROP_TOPIC_ALIAS \<longrightarrow> x \<noteq> 0"
      by (cases "prop_data (type p)"; simp)+
    moreover have "MqttDecode_Num m (pbuf + off) (unat B - off) = Ok (x, 2)"
      using v n b V_SHORT by (intro MqttDecode_Num_complete) auto
    ultimately show ?thesis using V_SHORT n by (simp add: d)
  next
    case (V_INT x)
    with v have "prop_data (type p) = MQTT_DATA_TYPE_INT" "type p = MQTT_PROP_MAX_PACKET_SZ \<longrightarrow> x \<noteq> 0"
      by (cases "prop_data (type p)"; simp)+
    moreover have "MqttDecode_Int m (pbuf + off) (unat B - off) = Ok (x, 4)"
      using v n b V_INT by (intro MqttDecode_Int_complete) auto
    ultimately show ?thesis using V_INT n by (simp add: d)
  next
    case (V_VAR_INT x)
    with v have "prop_data (type p) = MQTT_DATA_TYPE_VAR_INT" "type p = MQTT_PROP_SUBSCRIPTION_ID \<longrightarrow> x \<noteq> 0"
      "unat x \<le> 0x0FFFFFFF"
      by (cases "prop_data (type p)"; simp)+
    moreover have "MqttDecode_Vbi m (pbuf + off) (unat B - off) = Ok (word_of_nat (unat x), length (vbi_bytes (unat x)))"
      using v n b V_VAR_INT calculation(3) by (intro MqttDecode_Vbi_complete) auto
    ultimately show ?thesis using V_VAR_INT n by (simp add: d)
  next
    case (V_STRING s)
    with v have t: "prop_data (type p) = MQTT_DATA_TYPE_STRING" and s: "utf8_str s" "type p = MQTT_PROP_RESP_TOPIC \<longrightarrow> no_wildcard s"
      by (cases "prop_data (type p)"; simp)+
    have "dec_string_value (\<lambda>s. data_str_update (\<lambda>_. s)) p m pbuf B off pl =
      (p\<lparr>data_str := \<lparr>len = word_of_nat (length s), str = Some s\<rparr>\<rparr>, Ok (off + (2 + length s), pl - word_of_nat (2 + length s)))"
      using v n b V_STRING s by (intro dec_string_value_complete) auto
    then show ?thesis using V_STRING n t s
      by (auto simp: d utf8_str_def str_val_block topic_name_valid_eq unat_word16_of_nat)
  next
    case (V_BINARY s)
    with v have t: "prop_data (type p) = MQTT_DATA_TYPE_BINARY" and s: "length s \<le> 65535"
      by (cases "prop_data (type p)"; simp)+
    let ?n = "word_of_nat (length s) :: word16"
    have u: "unat ?n = length s" using s by (simp add: unat_word16_of_nat)
    have w: "pbuf + off + 2 + length s \<le> length m" using V_BINARY n b by simp
    have k: "2 \<le> unat pl" using V_BINARY n by simp
    have bs: "blk m (pbuf + off) 2 = num_bytes ?n" "blk m (pbuf + off + 2) (length s) = s"
      using v(2) [unfolded V_BINARY value_bytes.simps str_bytes_length blk_add] w
      by (simp_all add: str_bytes_def append_eq_append_conv)
    have "MqttDecode_Num m (pbuf + off) (unat B - off) = Ok (?n, 2)"
      using bs(1) w n b V_BINARY by (intro MqttDecode_Num_complete) auto
    moreover have "pl - 2 - ucast ?n = pl - word_of_nat (2 + length s)" by (simp add: ucast_16_32 u)
    moreover have "unat (pl - 2) = unat pl - 2" using unat_sub_of_nat [OF k] by simp
    ultimately show ?thesis using V_BINARY n b t u bs(2) w
      by (simp add: d rdn_def Let_def str_val_def add.assoc)
  next
    case (V_STRING_PAIR s u)
    with v have t: "prop_data (type p) = MQTT_DATA_TYPE_STRING_PAIR" and s: "utf8_str s" "utf8_str u"
      by (cases "prop_data (type p)"; simp)+
    let ?p1 = "p\<lparr>data_str := \<lparr>len = word_of_nat (length s), str = Some s\<rparr>\<rparr>"
    have l: "length (value_bytes v) = (2 + length s) + (2 + length u)" using V_STRING_PAIR by simp
    have k: "2 + length s \<le> unat pl" using n l by simp
    have bs: "blk m (pbuf + off) (2 + length s) = str_bytes s" "blk m (pbuf + (off + (2 + length s))) (2 + length u) = str_bytes u"
      using v(2) [unfolded l blk_add [of m "pbuf + off" "2 + length s"]] n b
      unfolding V_STRING_PAIR l [unfolded V_STRING_PAIR] by (simp_all add: add.assoc)
    have "dec_string_value (\<lambda>s. data_str_update (\<lambda>_. s)) p m pbuf B off pl =
      (?p1, Ok (off + (2 + length s), pl - word_of_nat (2 + length s)))"
      using bs n b l s by (intro dec_string_value_complete) auto
    moreover have "dec_string_value (\<lambda>s. data_str2_update (\<lambda>_. s)) ?p1 m pbuf B (off + (2 + length s)) (pl - word_of_nat (2 + length s)) =
      (?p1\<lparr>data_str2 := \<lparr>len = word_of_nat (length u), str = Some u\<rparr>\<rparr>,
       Ok (off + (2 + length s) + (2 + length u), pl - word_of_nat (2 + length s) - word_of_nat (2 + length u)))"
      using bs n b l s unat_sub_of_nat [OF k] by (intro dec_string_value_complete) auto
    moreover have "pl - word_of_nat (2 + length s) - word_of_nat (2 + length u) = pl - word_of_nat (length (value_bytes v))"
      unfolding l by (simp only: of_nat_add diff_diff_eq)
    ultimately show ?thesis using V_STRING_PAIR n t s l
      by (simp add: d utf8_str_def str_val_block)
  qed (use v in \<open>cases "prop_data (type p)"; simp\<close>)
qed

lemma prop_data_8: "prop_data 8 = MQTT_DATA_TYPE_STRING"
  by (simp add: prop_data_def gPropMatrix_def)

lemma prop_allowed_0 [simp]: "\<not> prop_allowed packet 0"
  by (simp add: prop_allowed_def gPropMatrix_def)

lemma dec_string_value_next:
  "(\<And>s q. next (f s q) = next q) \<Longrightarrow> next (fst (dec_string_value f p m pbuf B off pl)) = next p"
  by (auto simp: dec_string_value_def on_prop_def Let_def split: outcome.splits)

lemma dec_prop_value_next: "next (fst (dec_prop_value p m pbuf B off pl)) = next p"
proof -
  have s: "next (fst (dec_string_value (\<lambda>s. data_str_update (\<lambda>_. s)) q m pbuf B o' l')) = next q"
    "next (fst (dec_string_value (\<lambda>s. data_str2_update (\<lambda>_. s)) q m pbuf B o' l')) = next q" for q o' l'
    by (rule dec_string_value_next, simp)+
  have s1: "dec_string_value (\<lambda>s. data_str_update (\<lambda>_. s)) p m pbuf B off pl = (q, r) \<Longrightarrow> next q = next p" for q r
    using s(1) [of p off pl] by simp
  show ?thesis
    by (cases "prop_data (type p)")
      (auto simp: dec_prop_value_def dec_binary_value_def dec_pair_value_def on_prop_def Let_def s dest: s1 split: outcome.splits prod.splits)
qed

lemma dec_prop_next: "next (fst (dec_prop packet m pbuf B off pl seen p)) = next p"
proof -
  have v: "dec_prop_value (p\<lparr>type := t\<rparr>) m pbuf B o' l' = (q, r) \<Longrightarrow> next q = next p" for t o' l' q r
    using dec_prop_value_next [of "p\<lparr>type := t\<rparr>" m pbuf B o' l'] by simp
  show ?thesis
    by (auto simp: dec_prop_def on_prop_def Let_def dest: v split: outcome.splits prod.splits option.splits)
qed

lemma dec_prop_no_fault:
  assumes b: "off \<le> unat B" "unat B < 2147483648" "pbuf + unat B \<le> length m"
  shows "snd (dec_prop packet m pbuf B off pl seen p) \<noteq> Fault"
proof (cases "MqttDecode_Vbi m (pbuf + off) (unat B - off)")
  case Fault
  then show ?thesis using MqttDecode_Vbi_no_fault [of "pbuf + off" "unat B - off" m] b by simp
next
  case (Ok x)
  obtain t k where x: "x = (t, k)" by fastforce
  have "off + k \<le> unat B" using MqttDecode_Vbi_sound(5) [OF Ok [unfolded x]] b(1) by simp
  then have "snd (dec_prop_value q m pbuf B (off + k) pl') \<noteq> Fault" for q pl'
    using b by (intro dec_prop_value_no_fault)
  then show ?thesis using Ok b x
    by (auto simp: dec_prop_def on_prop_def Let_def rest_len_eq bnd_Fault_iff split: prod.splits option.splits) (metis snd_conv)
qed (use b in \<open>simp add: dec_prop_def on_prop_def rest_len_eq\<close>)

text \<open>The effect of one pass: the next property of the buffer is in the cell.\<close>

definition prop_step ::
  "byte \<Rightarrow> MqttProp \<Rightarrow> mem \<Rightarrow> nat \<Rightarrow> word32 \<Rightarrow> nat \<Rightarrow> word32 \<Rightarrow> word32 \<times> word32 \<Rightarrow> nat \<Rightarrow> word32 \<Rightarrow> word32 \<times> word32 \<Rightarrow> bool" where
  "prop_step packet p' m pbuf B off pl seen off' pl' seen' \<longleftrightarrow>
     (let n = length (prop_bytes (prop_sem p')) in
      prop_wf p' \<and> prop_ok packet (prop_sem p') \<and> off' = off + n \<and> off' \<le> unat B \<and> n \<le> unat pl \<and>
      pl' = pl - word_of_nat n \<and> blk m (pbuf + off) n = prop_bytes (prop_sem p') \<and>
      seen_check packet (type p') seen = Some seen')"

lemma dec_prop_sound:
  assumes d: "dec_prop packet m pbuf B off pl seen p = (p', Ok (off', pl', seen'))"
    and p: "strs_wf p" "0 < unat pl"
    and b: "off \<le> unat B" "unat B < 2147483648" "pbuf + unat B \<le> length m"
  shows "prop_step packet p' m pbuf B off pl seen off' pl' seen'"
proof -
  from d b obtain t k where v: "MqttDecode_Vbi m (pbuf + off) (unat B - off) = Ok (t, k)"
    and t: "unat t < 44" "prop_allowed packet (unat t)" "seen_check packet (unat t) seen = Some seen'"
    and r: "dec_prop_value (p\<lparr>type := unat t\<rparr>) m pbuf B (off + k) (pl - word_of_nat k) = (p', Ok (off', pl'))"
    by (auto simp: dec_prop_def on_prop_def Let_def rest_len_eq bnd_Ok_iff
        split: outcome.splits prod.splits option.splits if_splits)
  note s = MqttDecode_Vbi_sound [OF v]
  have k: "k = 1" using s(2) t(1) by (simp add: vbi_bytes_small)
  have "value_step (p\<lparr>type := unat t\<rparr>) p' m pbuf B (off + k) (pl - word_of_nat k) off' pl'"
    using p(1) b s(5) by (intro dec_prop_value_sound [OF r]) (auto simp: strs_wf_def prop_data_8)
  then have w: "type p' = unat t" "prop_wf p'" "value_ok (unat t) (prop_data (unat t)) (snd (prop_sem p'))"
    "off' = off + k + length (value_bytes (snd (prop_sem p')))" "off' \<le> unat B"
    "length (value_bytes (snd (prop_sem p'))) \<le> unat (pl - word_of_nat k)"
    "pl' = pl - word_of_nat k - word_of_nat (length (value_bytes (snd (prop_sem p'))))"
    "blk m (pbuf + off + k) (length (value_bytes (snd (prop_sem p')))) = value_bytes (snd (prop_sem p'))"
    by (simp_all add: value_step_def Let_def add.assoc)
  let ?tv = "prop_sem p'"
  have l: "length (prop_bytes ?tv) = k + length (value_bytes (snd ?tv))"
    using w(1) s(2) by (simp add: prop_bytes_def)
  have "blk m (pbuf + off) (k + length (value_bytes (snd ?tv))) = prop_bytes ?tv"
    unfolding blk_add using s(1) w(1,8) by (simp add: prop_bytes_def)
  moreover have "prop_ok packet ?tv" using t w by (simp add: prop_ok_def)
  moreover have "k + length (value_bytes (snd ?tv)) \<le> unat pl"
    using w(6) k p(2) unat_sub_of_nat [of k pl] by simp
  moreover have "pl' = pl - word_of_nat (k + length (value_bytes (snd ?tv)))"
    unfolding w(7) by (simp only: of_nat_add diff_diff_eq)
  ultimately show ?thesis using w t unfolding prop_step_def l Let_def by simp
qed

lemma dec_prop_complete:
  assumes tv: "prop_ok packet tv" "blk m (pbuf + off) (length (prop_bytes tv)) = prop_bytes tv"
    and s: "seen_check packet (fst tv) seen = Some seen'"
    and n: "off + length (prop_bytes tv) \<le> unat B" "length (prop_bytes tv) \<le> unat pl"
    and b: "unat B < 2147483648" "pbuf + unat B \<le> length m"
  shows "\<exists>p'. dec_prop packet m pbuf B off pl seen p =
      (p', Ok (off + length (prop_bytes tv), pl - word_of_nat (length (prop_bytes tv)), seen')) \<and> prop_sem p' = tv"
proof -
  let ?t = "fst tv" and ?vs = "value_bytes (snd tv)"
  have t: "?t < 44" "prop_allowed packet ?t" "value_ok ?t (prop_data ?t) (snd tv)" using tv by (auto simp: prop_ok_def)
  have l: "length (prop_bytes tv) = 1 + length ?vs" "length (vbi_bytes ?t) = 1"
    using prop_bytes_length(3) [OF tv(1)] by (simp_all add: prop_bytes_def)
  have bs: "blk m (pbuf + off) 1 = vbi_bytes ?t" "blk m (pbuf + (off + 1)) (length ?vs) = ?vs"
    using tv(2) [unfolded l(1) blk_add] n b l by (simp_all add: prop_bytes_def append_eq_append_conv add.assoc)
  have "MqttDecode_Vbi m (pbuf + off) (unat B - off) = Ok (word_of_nat ?t, length (vbi_bytes ?t))"
    using bs(1) l n b t(1) by (intro MqttDecode_Vbi_complete) auto
  then have v: "MqttDecode_Vbi m (pbuf + off) (unat B - off) = Ok (word_of_nat ?t, 1)" using l(2) by simp
  have u: "unat (word_of_nat ?t :: word32) = ?t" using t(1) by (simp add: unat_word32_of_nat)
  have k: "1 \<le> unat pl" using n(2) l(1) by simp
  obtain p' where p': "dec_prop_value (p\<lparr>type := ?t\<rparr>) m pbuf B (off + 1) (pl - 1) =
      (p', Ok (off + 1 + length ?vs, pl - 1 - word_of_nat (length ?vs)))" "prop_sem p' = (?t, snd tv)"
    using dec_prop_value_complete [of "p\<lparr>type := ?t\<rparr>" "snd tv" m pbuf "off + 1" B "pl - 1"] t bs n b l
      unat_sub_of_nat [OF k] by (auto simp: le_diff_conv2)
  have e: "pl - 1 - word_of_nat (length ?vs) = pl - word_of_nat (1 + length ?vs)"
    by (simp only: of_nat_add diff_diff_eq of_nat_1)
  have "\<not> int off > s32 B" using n by (simp add: s32_unat [OF b(1)])
  then show ?thesis using p' v t u s n
    unfolding dec_prop_def l(1) e [symmetric]
    by (intro exI [of _ p']) (simp add: on_prop_def rest_len_eq Let_def)
qed

section \<open>Decoder: the whole list\<close>

lemma prop_sem_next [simp]: "prop_sem (p\<lparr>next := x\<rparr>) = prop_sem p"
  by (cases "prop_data (type p)") (simp_all add: prop_sem_def)

lemma prop_wf_next [simp]: "prop_wf (p\<lparr>next := x\<rparr>) = prop_wf p"
  by (simp add: prop_wf_def)

lemma strs_wf_zero [simp]: "strs_wf (zero_prop\<lparr>type := t\<rparr>)"
  by (simp add: strs_wf_def zero_prop_def)

text \<open>
  A store that differs from another in the cells \<open>js\<close> and in the links of the cells \<open>is\<close> only.
\<close>

lemma nth_update: "H[i := p] ! j = (if i = j \<and> i < length H then p else H ! j)"
  by (cases "i < length H") (auto simp: nth_list_update list_update_beyond)

definition same_value :: "MqttProp \<Rightarrow> MqttProp \<Rightarrow> bool" where
  "same_value p q \<longleftrightarrow> p\<lparr>next := None\<rparr> = q\<lparr>next := None\<rparr>"

lemma same_value_refl [simp]: "same_value p p" "same_value (p\<lparr>next := x\<rparr>) p"
  by (simp_all add: same_value_def)

lemma same_valueD:
  assumes "same_value p q"
  shows "type p = type q" "prop_sem p = prop_sem q" "prop_wf p = prop_wf q"
proof -
  note e = assms [unfolded same_value_def]
  show "type p = type q" using arg_cong [OF e, of type] by simp
  show "prop_sem p = prop_sem q" using arg_cong [OF e, of prop_sem] by simp
  show "prop_wf p = prop_wf q" using arg_cong [OF e, of prop_wf] by simp
qed

definition grown :: "store \<Rightarrow> nat list \<Rightarrow> store \<Rightarrow> nat list \<Rightarrow> bool" where
  "grown H is H' js \<longleftrightarrow> length H' = length H \<and> (\<forall>j. j \<notin> set is \<union> set js \<longrightarrow> H' ! j = H ! j) \<and>
     (\<forall>j \<in> set is - set js. same_value (H' ! j) (H ! j))"

lemma grown_refl [simp]: "grown H is H []"
  by (simp add: grown_def)

lemma grown_type: "grown H is H' js \<Longrightarrow> j \<notin> set js \<Longrightarrow> type (H' ! j) = type (H ! j)"
  unfolding grown_def by (cases "j \<in> set is") (auto dest: same_valueD(1))

lemma grown_free: "grown H is H' js \<Longrightarrow> free_cells H' - set js = free_cells H - set js"
  using grown_type [of H "is" H' js] by (auto simp: free_cells_def)

lemma grown_step:
  assumes "live_list H h is" "i \<in> free_cells H"
  shows "grown H is ((store_add H is i)[i := p]) [i]"
proof -
  have "i \<notin> set is" using live_list_disjoint [OF assms(1)] assms(2) by auto
  moreover have "same_value (store_add H is i ! j) (H ! j)" if "j \<noteq> i" for j
    using store_add_old [OF assms that] by simp
  moreover have "store_add H is i ! j = H ! j" if "j \<noteq> i" "j \<notin> set is" for j
    using store_add_old [OF assms that(1)] that(2) by auto
  moreover have "i < length H" using assms by (auto simp: free_cells_def live_list_def)
  ultimately show ?thesis by (auto simp: grown_def nth_update)
qed

lemma grown_trans:
  assumes a: "grown H is H1 [i]" and b: "grown H1 (is @ [i]) H2 js" and i: "i \<notin> set is" "i \<notin> set js"
  shows "grown H is H2 (i # js)"
  using assms by (auto simp: grown_def same_value_def)

definition dec_result ::
  "byte \<Rightarrow> mem \<Rightarrow> nat \<Rightarrow> word32 \<Rightarrow> store \<Rightarrow> nat list \<Rightarrow> nat \<Rightarrow> word32 \<Rightarrow> nat \<Rightarrow> nat set \<Rightarrow> bool \<Rightarrow> bool \<Rightarrow>
   store \<Rightarrow> nat option \<Rightarrow> nat list \<Rightarrow> nat \<Rightarrow> bool \<Rightarrow> bool \<Rightarrow> bool" where
  "dec_result packet m pbuf B H is off pl k S sm sd H' h' js tot sm' sd' \<longleftrightarrow>
     live_list H' h' (is @ js) \<and> tot = off + unat pl \<and> tot \<le> unat B \<and>
     blk m (pbuf + off) (unat pl) = props_bytes (props_val H' js) \<and>
     guard_ok packet k S (props_val H' js) \<and> (\<forall>j \<in> set js. prop_wf (H' ! j)) \<and>
     sm' = (sm \<or> MQTT_PROP_AUTH_METHOD \<in> fst ` set (props_val H' js)) \<and>
     sd' = (sd \<or> MQTT_PROP_AUTH_DATA \<in> fst ` set (props_val H' js))"

declare dec_props_loop.simps [simp del]

lemma sint_le_0: "unat (w :: word32) < 2147483648 \<Longrightarrow> (sint w \<le> 0) = (unat w = 0)"
  using s32_small [of w] by (simp add: s32_def)

lemma live_list_update:
  assumes "live_list H h is" "next p = next (H ! i)" "type p \<noteq> MQTT_PROP_NONE"
  shows "live_list (H[i := p]) h is"
proof -
  have "chain (H[i := p]) h is = chain H h is"
    using assms(2) by (intro chain_cong) (auto simp: nth_update)
  then show ?thesis using assms by (auto simp: live_list_def nth_update)
qed

lemma chain_update: "chain H h is \<Longrightarrow> next p = next (H ! i) \<Longrightarrow> chain (H[i := p]) h is"
  by (subst chain_cong [of _ H]) (auto simp: nth_update)

lemma dec_props_loop_spec:
  assumes "live_list H h is" "unat pl < 2147483648" "off \<le> unat B" "k \<le> 30"
    and B: "unat B < 2147483648" "pbuf + unat B \<le> length m"
    and "dec_props_loop packet m pbuf B H h off pl k seen sm sd = (H', h', r)"
  shows "\<exists>js. chain H' h' (is @ js) \<and> set js \<subseteq> free_cells H \<and> grown H is H' js \<and> r \<noteq> Fault \<and>
    (\<forall>tot sm' sd'. r = Ok (tot, sm', sd') \<longrightarrow>
       dec_result packet m pbuf B H is off pl k (seen_set seen) sm sd H' h' js tot sm' sd')"
  using assms(1-4,7)
proof (induction "30 - k" arbitrary: H h "is" off pl k seen sm sd rule: less_induct)
  case less
  note L = less.prems(5) [unfolded dec_props_loop.simps [of packet m pbuf B H h off pl k seen sm sd] sint_le_0 [OF less.prems(2)]]
  have chain: "chain H h is" using less.prems(1) by (simp add: live_list_def)
  consider (fin) "unat pl = 0" | (many) "unat pl \<noteq> 0" "30 \<le> k" | (full) "unat pl \<noteq> 0" "k < 30" "free_cells H = {}"
    | (add) "unat pl \<noteq> 0" "k < 30" "free_cells H \<noteq> {}" by linarith
  then show ?case
  proof cases
    case fin
    with L have "H' = H" "h' = h" "r = Ok (off, sm, sd)" by auto
    with less.prems fin chain show ?thesis
      by (intro exI [of _ "[]"]) (auto simp: dec_result_def props_val_def)
  next
    case many
    with L have "H' = H" "h' = h" "r = Err PROPERTY" by auto
    with chain show ?thesis by (intro exI [of _ "[]"]) auto
  next
    case full
    with L MqttProps_Add_full [OF less.prems(1)] have "H' = H" "h' = h" "r = Err MEMORY" by auto
    with chain show ?thesis by (intro exI [of _ "[]"]) auto
  next
    case add
    from MqttProps_Add_ok [OF less.prems(1) add(3)] obtain i where i: "i \<in> free_cells H"
      and A: "MqttProps_Add H h = Ok (store_add H is i, (if is = [] then Some i else h), Some i)" by blast
    let ?H = "store_add H is i" and ?h = "if is = [] then Some i else h"
    note live = store_add_live [OF less.prems(1) i] and new = store_add_new [OF less.prems(1) i]
    have ni: "i \<notin> set is" using live_list_disjoint [OF less.prems(1)] i by auto
    have il: "i < length H" using i less.prems(1) by (auto simp: free_cells_def live_list_def)
    obtain p r1 where d: "dec_prop packet m pbuf B off pl seen (?H ! i) = (p, r1)" by fastforce
    have np: "next p = next (?H ! i)" using dec_prop_next [of packet m pbuf B off pl seen "?H ! i"] d by simp
    have nf: "r1 \<noteq> Fault" using dec_prop_no_fault [OF less.prems(3) B, of packet pl seen "?H ! i"] d by (metis snd_conv)
    have g: "grown H is (?H[i := p]) [i]" using grown_step [OF less.prems(1) i] .
    show ?thesis
    proof (cases r1)
      case (Err e)
      with L add A d have "H' = ?H[i := p]" "h' = ?h" "r = Err e" by auto
      then show ?thesis using g i chain_update [OF _ np] live
        by (intro exI [of _ "[i]"]) (auto simp: live_list_def)
    next
      case (Ok x)
      obtain off' pl' seen' where x: "x = (off', pl', seen')" by (cases x)
      have st: "prop_step packet p m pbuf B off pl seen off' pl' seen'"
        using d Ok x new add(1) less.prems(3) B by (intro dec_prop_sound) auto
      let ?tv = "prop_sem p" let ?n = "length (prop_bytes ?tv)"
      from st have s: "prop_wf p" "prop_ok packet ?tv" "off' = off + ?n" "off' \<le> unat B" "?n \<le> unat pl"
        "pl' = pl - word_of_nat ?n" "blk m (pbuf + off) ?n = prop_bytes ?tv" "seen_check packet (type p) seen = Some seen'"
        by (simp_all add: prop_step_def Let_def)
      have t: "type p < 64" "type p \<noteq> 0" using s(2) by (auto simp: prop_ok_def intro!: gr0I)
      have pl: "unat pl' = unat pl - ?n" using unat_sub_of_nat [OF s(5)] s(6) by simp
      have live': "live_list (?H[i := p]) ?h (is @ [i])" by (rule live_list_update [OF live np t(2)])
      have D: "dec_props_loop packet m pbuf B (?H[i := p]) ?h off' pl' (k + 1) seen'
            (sm \<or> type p = 21) (sd \<or> type p = 22) = (H', h', r)"
        using L add A d Ok x by simp
      have m: "30 - (k + 1) < 30 - k" "k + 1 \<le> 30" "unat pl' < 2147483648" using add(2) pl less.prems(2) by simp_all
      from less.hyps [OF m(1) live' m(3) s(4) m(2) D] obtain js where js: "chain H' h' ((is @ [i]) @ js)"
        "set js \<subseteq> free_cells (?H[i := p])" "grown (?H[i := p]) (is @ [i]) H' js" "r \<noteq> Fault"
        "\<forall>tot sm' sd'. r = Ok (tot, sm', sd') \<longrightarrow> dec_result packet m pbuf B (?H[i := p]) (is @ [i]) off' pl' (k + 1)
            (seen_set seen') (sm \<or> type p = 21) (sd \<or> type p = 22) H' h' js tot sm' sd'"
        by blast
      have nij: "i \<notin> set js" using js(2) t(2) il by (auto simp: free_cells_def)
      have fj: "set js \<subseteq> free_cells H"
        using js(2) nij grown_free [OF g] by auto
      have "i \<in> set (is @ [i]) - set js" using nij by simp
      then have "same_value (H' ! i) (?H[i := p] ! i)" using js(3) unfolding grown_def by blast
      then have "same_value (H' ! i) p" using il by simp
      then have sem: "prop_sem (H' ! i) = ?tv" "prop_wf (H' ! i)" using s(1) same_valueD by auto
      have R: "dec_result packet m pbuf B H is off pl k (seen_set seen) sm sd H' h' (i # js) tot sm' sd'"
        if "r = Ok (tot, sm', sd')" for tot sm' sd'
      proof -
        note q = js(5) [rule_format, OF that, unfolded dec_result_def]
        have "blk m (pbuf + off) (?n + unat pl') = prop_bytes ?tv @ props_bytes (props_val H' js)"
          using q s(3,7) by (simp add: blk_add add.assoc)
        moreover have "?n + unat pl' = unat pl" using pl s(5) by simp
        moreover have "guard_ok packet k (seen_set seen) (?tv # props_val H' js)"
          using q add(2) s(2,8) seen_check_eq(1) [OF t(1), of packet seen] seen_check_eq(2) [OF t(1) s(8)]
          by (auto simp: guard_ok_Cons)
        ultimately show ?thesis using q sem s(3) by (auto simp: dec_result_def props_val_def props_bytes_Cons)
      qed
      show ?thesis
        using js(1,4) fj i grown_trans [OF g js(3) ni nij] R by (intro exI [of _ "i # js"]) auto
    qed (use nf in simp)
  qed
qed

lemma MqttDecode_Props_cases:
  assumes H: "live_list H None []" and b: "unat pl < 2147483648" "unat B < 2147483648" "pbuf + unat B \<le> length m"
    and d: "MqttDecode_Props packet H None m pbuf B pl = (H', h', r)"
  obtains (error) e where "r = Err e" "h' = None" "free_cells H' = free_cells H"
      "length H' = length H" "\<forall>j. j \<notin> free_cells H \<longrightarrow> H' ! j = H ! j"
    | (ok) js where "r = Ok (unat pl)" "unat pl \<le> unat B" "live_list H' h' js" "set js \<subseteq> free_cells H"
      "free_cells H' = free_cells H - set js" "grown H [] H' js"
      "blk m pbuf (unat pl) = props_bytes (props_val H' js)" "props_ok packet (props_val H' js)"
      "auth_ok (props_val H' js)" "\<forall>j \<in> set js. prop_wf (H' ! j)"
proof -
  obtain H1 h1 r1 where l: "dec_props_loop packet m pbuf B H None 0 pl 0 (0, 0) False False = (H1, h1, r1)"
    by (metis prod_cases3)
  from dec_props_loop_spec [OF H b(1) _ _ b(2,3) l] obtain js where js: "chain H1 h1 js" "set js \<subseteq> free_cells H"
    "grown H [] H1 js" "r1 \<noteq> Fault"
    "\<forall>tot sm' sd'. r1 = Ok (tot, sm', sd') \<longrightarrow> dec_result packet m pbuf B H [] 0 pl 0 {} False False H1 h1 js tot sm' sd'"
    by auto
  have len: "30 \<le> length H1" "length H1 = length H" using js(3) H by (auto simp: grown_def live_list_def)
  have jr: "set js \<subseteq> {..<30}" using js(2) by (auto simp: free_cells_def)
  have err: thesis if "r = Err e" "MqttProps_Free H1 h1 = Ok H'" "h' = None" for e
  proof -
    have f: "H' = store_free H1 js" using MqttProps_Free_ok [OF js(1)] that(2) by simp
    have "free_cells H' = free_cells H"
      using store_free_cells [OF js(1) len(1)] jr js(2) grown_free [OF js(3)] unfolding f by auto
    moreover have "H' ! j = H ! j" if "j \<notin> free_cells H" for j
    proof -
      have "j \<notin> set js" using js(2) that by auto
      then show ?thesis
        using js(3) store_free_nth [OF chain_range [OF js(1)] chain_distinct [OF js(1)], of j]
        unfolding f by (simp add: grown_def)
    qed
    ultimately show thesis using error [OF that(1,3)] len f by simp
  qed
  show thesis
  proof (cases r1)
    case (Err e)
    with d l MqttProps_Free_ok [OF js(1)] have "r = Err e" "MqttProps_Free H1 h1 = Ok H'" "h' = None"
      by (auto simp: MqttDecode_Props_def)
    then show thesis by (rule err)
  next
    case (Ok x)
    obtain tot sm sd where x: "x = (tot, sm, sd)" by (cases x)
    have R: "dec_result packet m pbuf B H [] 0 pl 0 {} False False H1 h1 js tot sm sd" using js(5) Ok x by simp
    show thesis
    proof (cases "sd \<and> \<not> sm")
      case True
      with d l Ok x MqttProps_Free_ok [OF js(1)] have "r = Err PROPERTY" "MqttProps_Free H1 h1 = Ok H'" "h' = None"
        by (auto simp: MqttDecode_Props_def)
      then show thesis by (rule err)
    next
      case False
      with d l Ok x have e: "H' = H1" "h' = h1" "r = Ok tot" by (auto simp: MqttDecode_Props_def)
      have "set js \<inter> free_cells H1 = {}" using R live_list_disjoint by (auto simp: dec_result_def)
      then have "free_cells H1 = free_cells H - set js" using grown_free [OF js(3)] by auto
      moreover have "auth_ok (props_val H1 js)" using R False by (auto simp: dec_result_def auth_ok_def)
      ultimately show thesis using ok [of js] R js e by (auto simp: dec_result_def props_ok_guard)
    qed
  qed (use js in simp)
qed

lemma dec_props_loop_complete:
  assumes "live_list H h is" "guard_ok packet k (seen_set seen) tvs" "length tvs \<le> card (free_cells H)"
    and "blk m (pbuf + off) (length (props_bytes tvs)) = props_bytes tvs"
    and "unat pl = length (props_bytes tvs)" "unat pl < 2147483648" "off + unat pl \<le> unat B"
    and B: "unat B < 2147483648" "pbuf + unat B \<le> length m"
  shows "\<exists>H' h' js. dec_props_loop packet m pbuf B H h off pl k seen sm sd =
      (H', h', Ok (off + unat pl, sm \<or> MQTT_PROP_AUTH_METHOD \<in> fst ` set tvs, sd \<or> MQTT_PROP_AUTH_DATA \<in> fst ` set tvs)) \<and>
      chain H' h' (is @ js) \<and> props_val H' js = tvs"
  using assms(1-7)
proof (induction tvs arbitrary: H h "is" off pl k seen sm sd)
  case Nil
  then show ?case
    by (auto simp: dec_props_loop.simps [of packet m pbuf B H h off pl] sint_le_0 live_list_def props_val_def)
next
  case (Cons tv tvs)
  let ?n = "length (prop_bytes tv)"
  from Cons.prems(2) have g: "k < 30" "prop_ok packet tv" "\<not> (singleton_prop packet (fst tv) \<and> fst tv \<in> seen_set seen)"
    "guard_ok packet (k + 1) (if singleton_prop packet (fst tv) then insert (fst tv) (seen_set seen) else seen_set seen) tvs"
    by (auto simp: guard_ok_Cons)
  have t: "fst tv < 64" "fst tv \<noteq> 0" using g(2) by (auto simp: prop_ok_def intro!: gr0I)
  obtain seen' where s: "seen_check packet (fst tv) seen = Some seen'"
    using seen_check_eq(1) [OF t(1), of packet seen] g(3) by (cases "seen_check packet (fst tv) seen") auto
  have ss: "guard_ok packet (k + 1) (seen_set seen') tvs" using seen_check_eq(2) [OF t(1) s] g(4) by simp
  have n: "0 < ?n" "?n \<le> unat pl" "unat pl = ?n + length (props_bytes tvs)"
    using prop_bytes_length(2) [OF g(2)] Cons.prems(5) by (simp_all add: props_bytes_Cons)
  have bs: "blk m (pbuf + off) ?n = prop_bytes tv" "blk m (pbuf + (off + ?n)) (length (props_bytes tvs)) = props_bytes tvs"
    using Cons.prems(4) [unfolded props_bytes_Cons length_append blk_add] Cons.prems(7) B n(3) by (simp_all add: add.assoc)
  have "card (free_cells H) \<noteq> 0" using Cons.prems(3) by auto
  then have "free_cells H \<noteq> {}" by auto
  from MqttProps_Add_ok [OF Cons.prems(1) this] obtain i where i: "i \<in> free_cells H"
    and A: "MqttProps_Add H h = Ok (store_add H is i, (if is = [] then Some i else h), Some i)" by blast
  let ?H = "store_add H is i" and ?h = "if is = [] then Some i else h"
  have il: "i < length H" using i Cons.prems(1) by (auto simp: free_cells_def live_list_def)
  obtain p where d: "dec_prop packet m pbuf B off pl seen (?H ! i) = (p, Ok (off + ?n, pl - word_of_nat ?n, seen'))"
    and p: "prop_sem p = tv"
    using dec_prop_complete [OF g(2) bs(1) s _ n(2) B, of "?H ! i"] Cons.prems(7) n(2) by auto
  have tp: "type p = fst tv" using p by (metis prop_sem_fst)
  have np: "next p = next (?H ! i)" using dec_prop_next [of packet m pbuf B off pl seen "?H ! i"] d by simp
  have live: "live_list (?H[i := p]) ?h (is @ [i])"
    using t(2) tp by (intro live_list_update [OF store_add_live [OF Cons.prems(1) i] np]) simp
  have pl: "unat (pl - word_of_nat ?n) = unat pl - ?n" by (rule unat_sub_of_nat [OF n(2)])
  have "free_cells (?H[i := p]) = free_cells ?H"
    using tp t(2) store_add_new [OF Cons.prems(1) i] by (auto simp: free_cells_def nth_update)
  then have fc: "length tvs \<le> card (free_cells (?H[i := p]))"
    using Cons.prems(3) store_add_free [OF Cons.prems(1) i] i pool.avail_finite [of H] by simp
  let ?pl = "pl - word_of_nat ?n"
  have plb: "unat ?pl < 2147483648" "off + ?n + unat ?pl \<le> unat B" "unat ?pl = length (props_bytes tvs)"
    using pl n Cons.prems(6,7) by simp_all
  from Cons.IH [OF live ss fc bs(2) plb(3,1,2), of "sm \<or> type p = 21" "sd \<or> type p = 22"] obtain H' h' js where
    l: "dec_props_loop packet m pbuf B (?H[i := p]) ?h (off + ?n) ?pl (k + 1) seen' (sm \<or> type p = 21) (sd \<or> type p = 22) =
      (H', h', Ok (off + ?n + unat ?pl, (sm \<or> type p = 21) \<or> 21 \<in> fst ` set tvs, (sd \<or> type p = 22) \<or> 22 \<in> fst ` set tvs))"
    and c: "chain H' h' ((is @ [i]) @ js)" "props_val H' js = tvs" by blast
  have "off + ?n \<le> unat B" "k + 1 \<le> 30" using Cons.prems(7) n g(1) by auto
  from dec_props_loop_spec [OF live plb(1) this B l] obtain js' where
    js': "chain H' h' ((is @ [i]) @ js')" "grown (?H[i := p]) (is @ [i]) H' js'" by blast
  have "(is @ [i]) @ js' = (is @ [i]) @ js" by (rule chain_fun [OF js'(1) c(1)])
  then have e: "js' = js" by simp
  have "i \<in> set (is @ [i]) - set js" using chain_distinct [OF c(1)] by auto
  then have "same_value (H' ! i) (?H[i := p] ! i)" using js'(2) unfolding e grown_def by blast
  then have "prop_sem (H' ! i) = tv" using same_valueD(2) p il by fastforce
  then have v: "props_val H' (i # js) = tv # tvs" using c(2) by (simp add: props_val_def)
  have "dec_props_loop packet m pbuf B H h off pl k seen sm sd =
     (H', h', Ok (off + unat pl, sm \<or> 21 \<in> fst ` set (tv # tvs), sd \<or> 22 \<in> fst ` set (tv # tvs)))"
    unfolding dec_props_loop.simps [of packet m pbuf B H h off pl] sint_le_0 [OF Cons.prems(6)]
    using n g(1) A d l tp pl by auto
  then show ?case using c(1) v by (intro exI [of _ H'] exI [of _ h'] exI [of _ "i # js"]) auto
qed

lemma MqttDecode_Props_complete:
  assumes H: "live_list H None []" and tvs: "props_ok packet tvs" "auth_ok tvs" "length tvs \<le> card (free_cells H)"
    and bs: "blk m pbuf (length (props_bytes tvs)) = props_bytes tvs" "unat pl = length (props_bytes tvs)" "unat pl \<le> unat B"
    and b: "unat B < 2147483648" "pbuf + unat B \<le> length m"
  shows "\<exists>H' h' js. MqttDecode_Props packet H None m pbuf B pl = (H', h', Ok (unat pl)) \<and>
    live_list H' h' js \<and> props_val H' js = tvs"
proof -
  have pl: "unat pl < 2147483648" using bs(3) b(1) by linarith
  from dec_props_loop_complete [OF H, of packet 0 "(0, 0)" tvs m pbuf 0 pl B False False] assms pl obtain H' h' js where
    l: "dec_props_loop packet m pbuf B H None 0 pl 0 (0, 0) False False =
      (H', h', Ok (unat pl, MQTT_PROP_AUTH_METHOD \<in> fst ` set tvs, MQTT_PROP_AUTH_DATA \<in> fst ` set tvs))"
    "chain H' h' js" "props_val H' js = tvs" by (auto simp: props_ok_guard)
  then have d: "MqttDecode_Props packet H None m pbuf B pl = (H', h', Ok (unat pl))"
    using tvs(2) by (auto simp: MqttDecode_Props_def auth_ok_def)
  obtain js' where "live_list H' h' js'"
    using MqttDecode_Props_cases [OF H pl b d] by (metis outcome.distinct(5))
  then have "live_list H' h' js" using chain_fun [OF l(2)] by (auto simp: live_list_def)
  with d l(3) show ?thesis by blast
qed

text \<open>Authentication Data without a method: the list is read to its end and then refused.\<close>

lemma MqttDecode_Props_no_method:
  assumes H: "live_list H None []" and tvs: "props_ok packet tvs" "\<not> auth_ok tvs" "length tvs \<le> card (free_cells H)"
    and bs: "blk m pbuf (length (props_bytes tvs)) = props_bytes tvs" "unat pl = length (props_bytes tvs)" "unat pl \<le> unat B"
    and b: "unat B < 2147483648" "pbuf + unat B \<le> length m"
  shows "\<exists>H'. MqttDecode_Props packet H None m pbuf B pl = (H', None, Err PROPERTY)"
proof -
  have pl: "unat pl < 2147483648" using bs(3) b(1) by linarith
  from dec_props_loop_complete [OF H, of packet 0 "(0, 0)" tvs m pbuf 0 pl B False False] assms pl obtain H' h' js where
    l: "dec_props_loop packet m pbuf B H None 0 pl 0 (0, 0) False False =
      (H', h', Ok (unat pl, MQTT_PROP_AUTH_METHOD \<in> fst ` set tvs, MQTT_PROP_AUTH_DATA \<in> fst ` set tvs))"
    "chain H' h' js" by (auto simp: props_ok_guard)
  then show ?thesis using tvs(2) MqttProps_Free_ok [OF l(2)] by (auto simp: MqttDecode_Props_def auth_ok_def)
qed

lemma props_bytes_bound:
  assumes "props_ok packet tvs"
  shows "length (props_bytes tvs) \<le> 3932250"
proof -
  have "length (props_bytes xs) \<le> length xs * 131075" if "\<forall>tv \<in> set xs. prop_ok packet tv" for xs
    using that by (induction xs) (auto simp: props_bytes_Cons dest: prop_bytes_length(1))
  then have "length (props_bytes tvs) \<le> length tvs * 131075" using assms by (simp add: props_ok_def)
  moreover have "length tvs \<le> 30" using assms by (simp add: props_ok_def)
  ultimately show ?thesis by linarith
qed

section \<open>Properties of the property codec\<close>

text \<open>The cells of the store are well formed and point into it; nothing is said about cycles.\<close>

definition store_wf :: "store \<Rightarrow> nat option \<Rightarrow> bool" where
  "store_wf H h \<longleftrightarrow> (\<forall>i < length H. prop_wf (H ! i) \<and> (\<forall>j. next (H ! i) = Some j \<longrightarrow> j < length H)) \<and>
     (\<forall>i. h = Some i \<longrightarrow> i < length H)"

lemma enc_props_loop_no_fault:
  "store_wf H h \<Longrightarrow> buf = None \<Longrightarrow> enc_props_loop packet H h m buf rc k seen \<noteq> Fault"
proof (induction packet H h m buf rc k seen rule: enc_props_loop.induct)
  case (1 packet H h m buf rc k seen)
  show ?case
  proof (cases h)
    case (Some i)
    then have w: "i < length H" "prop_wf (H ! i)" "store_wf H (next (H ! i))" using "1.prems"(1) by (auto simp: store_wf_def)
    have v: "enc_prop_value (H ! i) m1 None \<noteq> Fault" for m1
      using enc_prop_value_ok [OF w(2)] enc_prop_value_bad [OF w(2), of m1] by fastforce
    show ?thesis
    proof
      assume "enc_props_loop packet H h m buf rc k seen = Fault"
      then show False unfolding Some enc_props_loop.simps [of packet H "Some i"] option.case "1.prems"(2)
        using 1(1) [OF Some] w v by (auto simp: bnd_Fault_iff enc_eq "1.prems"(2) split: if_splits option.splits prod.splits)
    qed
  qed (simp add: enc_props_loop.simps)
qed

text \<open>C40: for a list in the store the length pass of \<^verbatim>\<open>MqttEncode_Props\<close> gives the number of bytes of the
  property block when every property is known, allowed in the packet, in its domain, not repeated
  where only one may stand, and there are at most thirty; otherwise it returns an error.\<close>

theorem props_encode_exact:
  assumes "chain H h is" "\<forall>i \<in> set is. prop_wf (H ! i)"
  shows "if props_ok packet (props_val H is)
    then MqttEncode_Props packet H h m None = Ok (m, length (props_bytes (props_val H is)))
    else \<exists>e. MqttEncode_Props packet H h m None = Err e"
  using MqttEncode_Props_eq [OF assms, of packet None m] MqttEncode_Props_bad [OF assms, of packet m] by simp

definition expiry_cell :: MqttProp where
  "expiry_cell = zero_prop\<lparr>type := MQTT_PROP_MSG_EXPIRY_INTERVAL, data_int := 60\<rparr>"

lemmas prop_table = prop_data_def prop_allowed_def gPropMatrix_def packet_mask_def

lemma expiry_cell_facts:
  "props_val [expiry_cell] [0] = [(2, V_INT 60)]" "props_ok 3 [(2, V_INT 60)]" "auth_ok [(2, V_INT 60)]"
  "\<not> props_ok 3 [(2, V_INT 60), (2, V_INT 60)]"
  "props_val [expiry_cell\<lparr>next := Some 1\<rparr>, expiry_cell] [0, 1] = [(2, V_INT 60), (2, V_INT 60)]"
  "length (props_bytes [(2, V_INT 60)]) = 5" "prop_wf expiry_cell" "prop_wf (expiry_cell\<lparr>next := Some 1\<rparr>)"
  by (simp_all add: props_val_def prop_sem_def expiry_cell_def zero_prop_def no_str_def prop_table props_ok_def prop_ok_def
      auth_ok_def singleton_prop_def props_bytes_def prop_bytes_def vbi_bytes.simps prop_wf_def str_wf_def)

theorem props_encode_exact_witness:
  "MqttEncode_Props 3 [expiry_cell] (Some 0) [] None = Ok ([], 5) \<and>
   (\<exists>e. MqttEncode_Props 3 [expiry_cell\<lparr>next := Some 1\<rparr>, expiry_cell] (Some 0) [] None = Err e)"
proof -
  have c: "chain [expiry_cell] (Some 0) [0]" "chain [expiry_cell\<lparr>next := Some 1\<rparr>, expiry_cell] (Some 0) [0, 1]"
    by (simp_all add: expiry_cell_def zero_prop_def)
  show ?thesis
    using props_encode_exact [OF c(1), of 3 "[]"] props_encode_exact [OF c(2), of 3 "[]"] by (simp add: expiry_cell_facts del: One_nat_def)
qed

text \<open>C20: both passes of \<^verbatim>\<open>MqttEncode_Props\<close> return on every list that stays inside the store, circular ones included.
  The length pass returns an error, or the list ends within thirty cells, obeys the rules of the packet type and the
  result is the length of its block; then the write pass, at every place of the buffer with room for this length, writes
  the block there and returns its length too.\<close>

theorem props_encode_returns:
  assumes "store_wf H h"
  shows "(\<exists>e. MqttEncode_Props packet H h m None = Err e) \<or>
    (\<exists>is n. chain H h is \<and> length is \<le> MQTT_MAX_PROPS \<and> props_ok packet (props_val H is) \<and> n = length (props_bytes (props_val H is)) \<and>
       MqttEncode_Props packet H h m None = Ok (m, n) \<and>
       (\<forall>p. p + n \<le> length m \<longrightarrow> MqttEncode_Props packet H h m (Some p) = Ok (splice_at m p (props_bytes (props_val H is)), n)))"
proof (cases "MqttEncode_Props packet H h m None")
  case Fault
  then show ?thesis using enc_props_loop_no_fault [OF assms refl] by (simp add: MqttEncode_Props_def)
next
  case (Ok r)
  obtain "is" where c: "chain H h is" "length is \<le> 30" using MqttEncode_Props_finite [OF Ok] by blast
  have w: "\<forall>i \<in> set is. prop_wf (H ! i)" using chain_range [OF c(1)] assms by (auto simp: store_wf_def)
  have ok: "props_ok packet (props_val H is)" using MqttEncode_Props_bad [OF c(1) w, of packet m] Ok by fastforce
  have "MqttEncode_Props packet H h m (Some p) = Ok (splice_at m p (props_bytes (props_val H is)), length (props_bytes (props_val H is)))"
    if "p + length (props_bytes (props_val H is)) \<le> length m" for p
    using MqttEncode_Props_eq [OF c(1) w ok, of "Some p" m] that by (simp add: wr_def)
  then show ?thesis using c ok MqttEncode_Props_eq [OF c(1) w ok, of None m] by auto
qed simp

theorem props_encode_returns_witness:
  "(\<exists>e. MqttEncode_Props 3 [zero_prop\<lparr>type := MQTT_PROP_USER_PROP, next := Some 0\<rparr>] (Some 0) [] None = Err e) \<and>
   MqttEncode_Props 3 [expiry_cell] (Some 0) [9, 9, 9, 9, 9, 9] (Some 1) = Ok ([9, 2, 0, 0, 0, 60], 5)"
proof
  let ?H = "[zero_prop\<lparr>type := MQTT_PROP_USER_PROP, next := Some 0\<rparr>]"
  have w: "store_wf ?H (Some 0)" by (simp add: store_wf_def prop_wf_def str_wf_def zero_prop_def no_str_def)
  have "\<not> chain ?H (Some 0) is" for "is" by (induction "is") auto
  with props_encode_returns [OF w, of 3 "[]"] show "\<exists>e. MqttEncode_Props 3 ?H (Some 0) [] None = Err e" by blast
next
  let ?m = "[9, 9, 9, 9, 9, 9] :: mem"
  have w: "store_wf [expiry_cell] (Some 0)" using expiry_cell_facts(7) by (simp add: store_wf_def expiry_cell_def zero_prop_def)
  have c: "chain [expiry_cell] (Some 0) [0]" by (simp add: expiry_cell_def zero_prop_def)
  have l: "MqttEncode_Props 3 [expiry_cell] (Some 0) ?m None = Ok (?m, 5)"
    using MqttEncode_Props_eq [OF c, of 3 None ?m] by (simp add: expiry_cell_facts)
  have b: "props_bytes [(2, V_INT 60)] = [2, 0, 0, 0, 60]" by (simp add: props_bytes_def prop_bytes_def vbi_bytes.simps int_bytes_def)
  obtain "is" where i: "chain [expiry_cell] (Some 0) is"
    "\<forall>p. p + 5 \<le> length ?m \<longrightarrow> MqttEncode_Props 3 [expiry_cell] (Some 0) ?m (Some p) = Ok (splice_at ?m p (props_bytes (props_val [expiry_cell] is)), 5)"
    using props_encode_returns [OF w, of 3 ?m] l by auto
  have "is = [0]" by (rule chain_fun [OF i(1) c])
  then show "MqttEncode_Props 3 [expiry_cell] (Some 0) ?m (Some 1) = Ok ([9, 2, 0, 0, 0, 60], 5)"
    using i(2) by (simp add: expiry_cell_facts b splice_at_def)
qed

text \<open>C18: \<^verbatim>\<open>MqttDecode_Props\<close> never leaves its buffer.  After an error every cell of the pool it took is
  free again and the list is \<^verbatim>\<open>NULL\<close>; on success it has consumed exactly the announced bytes, they are
  the encoding of the list it built in cells that were free, and that list satisfies the rules of
  the packet type.\<close>

theorem props_decode_safe:
  assumes "live_list H None []" "unat pl < 2147483648" "unat B < 2147483648" "pbuf + unat B \<le> length m"
  shows "\<exists>H' h' r. MqttDecode_Props packet H None m pbuf B pl = (H', h', r) \<and>
    (\<forall>j. j \<notin> free_cells H \<longrightarrow> H' ! j = H ! j) \<and>
    ((\<exists>e. r = Err e \<and> h' = None \<and> free_cells H' = free_cells H) \<or>
     (\<exists>js. r = Ok (unat pl) \<and> unat pl \<le> unat B \<and> live_list H' h' js \<and> set js \<subseteq> free_cells H \<and>
        free_cells H' = free_cells H - set js \<and> blk m pbuf (unat pl) = props_bytes (props_val H' js) \<and>
        props_ok packet (props_val H' js) \<and> auth_ok (props_val H' js)))"
proof -
  obtain H' h' r where d: "MqttDecode_Props packet H None m pbuf B pl = (H', h', r)" by (metis prod_cases3)
  show ?thesis
  proof (cases rule: MqttDecode_Props_cases [OF assms d, case_names bad good])
    case (bad e)
    then show ?thesis using d by blast
  next
    case (good js)
    have "H' ! j = H ! j" if "j \<notin> free_cells H" for j using good(4,6) that by (auto simp: grown_def)
    then show ?thesis using d good by blast
  qed
qed

theorem props_decode_safe_witness:
  "\<exists>H' h' r. MqttDecode_Props 3 (replicate 30 zero_prop) None [2, 0, 0, 0, 60] 0 5 5 = (H', h', r) \<and> r \<noteq> Fault"
proof -
  have "live_list (replicate 30 zero_prop) None []" by (simp add: live_list_def)
  from props_decode_safe [OF this, of 5 5 0 "[2, 0, 0, 0, 60]" 3] show ?thesis by auto
qed

text \<open>C19: a property list that obeys the rules of its packet type is written by \<^verbatim>\<open>MqttEncode_Props\<close> as its block of bytes.  When
  Authentication Data in it comes with an Authentication Method, \<^verbatim>\<open>MqttDecode_Props\<close> reads these bytes, into a pool with
  room for the list, as a list of the same identifiers and values in the same order; otherwise it refuses them with
  \<^verbatim>\<open>MQTT_CODE_ERROR_PROPERTY\<close>, a rule the encoder does not check.\<close>

theorem props_round_trip:
  assumes src: "chain H h is" "\<forall>i \<in> set is. prop_wf (H ! i)" "props_ok packet (props_val H is)"
    and n: "n = length (props_bytes (props_val H is))" "p + n \<le> length m"
    and dst: "live_list D None []" "length is \<le> card (free_cells D)"
  shows "\<exists>m'. MqttEncode_Props packet H h m (Some p) = Ok (m', n) \<and>
    (if MQTT_PROP_AUTH_DATA \<in> fst ` set (props_val H is) \<longrightarrow> MQTT_PROP_AUTH_METHOD \<in> fst ` set (props_val H is)
     then \<exists>D' h' js. MqttDecode_Props packet D None m' p (word_of_nat n) (word_of_nat n) = (D', h', Ok n) \<and>
       live_list D' h' js \<and> props_val D' js = props_val H is
     else \<exists>D'. MqttDecode_Props packet D None m' p (word_of_nat n) (word_of_nat n) = (D', None, Err PROPERTY))"
proof -
  let ?bs = "props_bytes (props_val H is)"
  have e: "MqttEncode_Props packet H h m (Some p) = Ok (splice_at m p ?bs, n)"
    using MqttEncode_Props_eq [OF src, of "Some p" m] n by (simp add: wr_def)
  have nb: "n \<le> 3932250" using props_bytes_bound [OF src(3)] n(1) by simp
  have u: "unat (word_of_nat n :: word32) = n" using nb by (intro unat_word32_of_nat) linarith
  have l: "length (props_val H is) \<le> card (free_cells D)" "unat (word_of_nat n :: word32) = length ?bs"
    "blk (splice_at m p ?bs) p (length ?bs) = ?bs" "unat (word_of_nat n :: word32) < 2147483648"
    "p + unat (word_of_nat n :: word32) \<le> length (splice_at m p ?bs)"
    using dst(2) n nb u blk_splice_at [of p ?bs m] by (simp_all add: props_val_def)
  show ?thesis
  proof (cases "auth_ok (props_val H is)")
    case True
    from MqttDecode_Props_complete [OF dst(1) src(3) True l(1,3,2) order_refl l(4,5)] show ?thesis
      unfolding auth_ok_def [symmetric] u using e True by auto
  next
    case False
    from MqttDecode_Props_no_method [OF dst(1) src(3) False l(1,3,2) order_refl l(4,5)] show ?thesis
      unfolding auth_ok_def [symmetric] using e False by auto
  qed
qed

theorem props_round_trip_witness:
  "\<exists>m' D' h' js. MqttEncode_Props 3 [expiry_cell] (Some 0) (replicate 8 0) (Some 1) = Ok (m', 5) \<and>
     MqttDecode_Props 3 (replicate 30 zero_prop) None m' 1 5 5 = (D', h', Ok 5) \<and>
     live_list D' h' js \<and> props_val D' js = [(2, V_INT 60)]"
proof -
  have c: "chain [expiry_cell] (Some 0) [0]" by (simp add: expiry_cell_def zero_prop_def)
  have d: "live_list (replicate 30 zero_prop) None []" by (simp add: live_list_def)
  have "free_cells (replicate 30 zero_prop) = {..<30}" by (auto simp: free_cells_def zero_prop_def)
  then have "length [0 :: nat] \<le> card (free_cells (replicate 30 zero_prop))" by simp
  from props_round_trip [OF c _ _ _ _ d this, of 3 5 1 "replicate 8 0"] show ?thesis by (simp add: expiry_cell_facts)
qed

end
