(* ===== verification/Packet_Common.thy ===== *)
theory Packet_Common
  imports Props_Codec
begin

text \<open>
  What the packet encoders and decoders of \<^verbatim>\<open>src/mqtt_packet.c\<close> share: the message structure of
  \<^verbatim>\<open>wolfmqtt/mqtt_packet.h\<close>, the advancing write position \<^verbatim>\<open>tx_payload\<close>, the fixed header followed
  by the check for buffer room, sequencing of decoder steps that change the property store, and
  the length-prefixed property block.
\<close>

section \<open>Messages\<close>

text \<open>\<^verbatim>\<open>struct _MqttMessage\<close>, without the client's transfer state and callback context.\<close>

record MqttMessage =
  packet_id :: word16
  msg_type :: byte
  qos :: MqttQoS
  retain :: byte
  duplicate :: byte
  topic_name :: "byte list option"
  topic_name_len :: word16
  total_len :: word32
  buffer :: "byte list option"
  buffer_len :: word32
  buffer_pos :: word32
  buffer_new :: byte
  intBuf_len :: word32
  intBuf_pos :: word32
  msg_props :: "nat option"
  msg_level :: byte

section \<open>Writing a packet\<close>

text \<open>
  \<^verbatim>\<open>tx_payload += MqttEncode_X(tx_payload, ...)\<close> moves the write position by the result.  A negative
  result would move it backwards over the header, which is the undefined behaviour \<open>Fault\<close>; where
  the code tests the result, \<open>put_ck\<close> returns the error.
\<close>

type_synonym cursor = "mem \<times> nat"

definition put :: "(mem \<Rightarrow> nat option \<Rightarrow> (mem \<times> nat) outcome) \<Rightarrow> cursor \<Rightarrow> cursor outcome" where
  "put E = (\<lambda>(m, p). case E m (Some p) of Ok (m', k) \<Rightarrow> Ok (m', p + k) | _ \<Rightarrow> Fault)"

definition put_ck :: "(mem \<Rightarrow> nat option \<Rightarrow> (mem \<times> nat) outcome) \<Rightarrow> cursor \<Rightarrow> cursor outcome" where
  "put_ck E = (\<lambda>(m, p). bnd (E m (Some p)) (\<lambda>(m', k). Ok (m', p + k)))"

definition put_bytes :: "byte list \<Rightarrow> cursor \<Rightarrow> cursor outcome" where
  "put_bytes bs = (\<lambda>(m, p). bnd (wr m p bs) (\<lambda>m'. Ok (m', p + length bs)))"

definition put_nothing :: "cursor \<Rightarrow> cursor outcome" where
  "put_nothing = Ok"

text \<open>One write after the other.\<close>

primrec puts :: "(cursor \<Rightarrow> cursor outcome) list \<Rightarrow> cursor \<Rightarrow> cursor outcome" where
  "puts [] s = Ok s"
| "puts (f # fs) s = bnd (f s) (puts fs)"

text \<open>
  The fixed header, the check for buffer room, and the payload behind the header.
\<close>

definition enc_frame ::
  "mem \<Rightarrow> int \<Rightarrow> nat \<Rightarrow> byte \<Rightarrow> byte \<Rightarrow> byte \<Rightarrow> byte \<Rightarrow> (cursor \<Rightarrow> cursor outcome) \<Rightarrow> (mem \<times> nat) outcome" where
  "enc_frame tx_buf tx_buf_len remain_len ptype ret q dup payload =
     bnd (MqttEncode_FixedHeader tx_buf tx_buf_len (int remain_len) ptype ret q dup) (\<lambda>(m1, header_len).
     if tx_buf_len < int header_len + int remain_len then Err OUT_OF_BUFFER
     else bnd (payload (m1, header_len)) (\<lambda>(m2, _). Ok (m2, header_len + remain_len)))"

text \<open>The length pass over a property block: the length of the properties, with that of its prefix.\<close>

definition props_len_pass :: "byte \<Rightarrow> store \<Rightarrow> nat option \<Rightarrow> mem \<Rightarrow> (nat \<times> nat) outcome" where
  "props_len_pass packet H props m =
     (case MqttEncode_Props packet H props m None of
        Fault \<Rightarrow> Fault
      | Err e \<Rightarrow> Err PROPERTY
      | Ok (_, props_len) \<Rightarrow>
          bnd (MqttEncode_Vbi m None (word_of_nat props_len)) (\<lambda>(_, tmp_len). Ok (props_len, tmp_len)))"

definition put_props :: "byte \<Rightarrow> store \<Rightarrow> nat option \<Rightarrow> nat \<Rightarrow> cursor \<Rightarrow> cursor outcome" where
  "put_props packet H props props_len =
     puts [put_ck (\<lambda>m buf. MqttEncode_Vbi m buf (word_of_nat props_len)),
           put_ck (MqttEncode_Props packet H props)]"

section \<open>Reading a packet\<close>

text \<open>
  A decoder step that may fail but changes no state (\<open>at_state\<close>), and one that also changes the
  state (\<open>then_state\<close>).
\<close>

definition at_state :: "'a outcome \<Rightarrow> 's \<Rightarrow> ('a \<Rightarrow> 's \<times> 'b outcome) \<Rightarrow> 's \<times> 'b outcome" where
  "at_state r s f = (case r of Fault \<Rightarrow> (s, Fault) | Err e \<Rightarrow> (s, Err e) | Ok x \<Rightarrow> f x)"

definition then_state :: "'s \<times> 'a outcome \<Rightarrow> ('s \<Rightarrow> 'a \<Rightarrow> 's \<times> 'b outcome) \<Rightarrow> 's \<times> 'b outcome" where
  "then_state sr f = (case sr of (s, r) \<Rightarrow> at_state r s (f s))"

text \<open>\<^verbatim>\<open>(word32)(rx_buf_len - (rx_payload - rx_buf))\<close> for the read position \<open>p\<close>.\<close>

definition rx_left :: "int \<Rightarrow> nat \<Rightarrow> nat" where
  "rx_left rx_buf_len p = u32 (rx_buf_len - int p)"

text \<open>
  \<^verbatim>\<open>if (props_len > 0) tmp = MqttDecode_Props(...)\<close> at the read position \<open>p\<close>: the store, the list and
  the number of bytes.
\<close>

definition dec_props_opt ::
  "byte \<Rightarrow> store \<Rightarrow> nat option \<Rightarrow> mem \<Rightarrow> int \<Rightarrow> nat \<Rightarrow> word32 \<Rightarrow> store \<times> nat option \<times> nat outcome" where
  "dec_props_opt packet H props m rx_buf_len p props_len =
     (if props_len > 0
      then MqttDecode_Props packet H props m p (word_of_nat (rx_left rx_buf_len p)) props_len
      else (H, props, Ok 0))"

text \<open>
  The loop that looks for a property of a type; \<open>n\<close> bounds the walk as in \<open>list_end\<close>.
\<close>

fun find_prop :: "nat \<Rightarrow> store \<Rightarrow> nat option \<Rightarrow> nat \<Rightarrow> bool outcome" where
  "find_prop 0 H cur t = (if cur = None then Ok False else Fault)"
| "find_prop (Suc n) H cur t =
     (case cur of None \<Rightarrow> Ok False
      | Some i \<Rightarrow> if i < length H
          then if type (H ! i) = t then Ok True else find_prop n H (next (H ! i)) t
          else Fault)"

section \<open>Laws of writing\<close>

definition emits :: "(cursor \<Rightarrow> cursor outcome) \<Rightarrow> byte list \<Rightarrow> bool" where
  "emits f bs \<longleftrightarrow> (\<forall>m p. p + length bs \<le> length m \<longrightarrow> f (m, p) = Ok (splice_at m p bs, p + length bs))"

named_theorems emits_intros \<open>what a write puts at the cursor\<close>

lemma emits_bytes [emits_intros]: "emits (put_bytes bs) bs"
  by (simp add: emits_def put_bytes_def wr_def)

lemma emits_nothing [emits_intros]: "emits put_nothing []"
  by (simp add: emits_def put_nothing_def)

lemma emits_puts_Nil [emits_intros]: "emits (puts []) []"
  by (simp add: emits_def)

lemma emits_puts_Cons [emits_intros]:
  assumes "emits f a" "emits (puts fs) b"
  shows "emits (puts (f # fs)) (a @ b)"
  using assms by (auto simp: emits_def splice_at_append add.assoc)

lemma emits_if [emits_intros]:
  "(c \<Longrightarrow> emits f a) \<Longrightarrow> (\<not> c \<Longrightarrow> emits g b) \<Longrightarrow> emits (if c then f else g) (if c then a else b)"
  by simp

lemma emitsD: "emits f bs \<Longrightarrow> p + length bs \<le> length m \<Longrightarrow> f (m, p) = Ok (splice_at m p bs, p + length bs)"
  by (simp add: emits_def)

text \<open>An encoder that equals one block write of its reference bytes.\<close>

definition writes :: "(mem \<Rightarrow> nat option \<Rightarrow> (mem \<times> nat) outcome) \<Rightarrow> byte list \<Rightarrow> bool" where
  "writes E bs \<longleftrightarrow> (\<forall>m buf. (\<forall>p. buf = Some p \<longrightarrow> p \<le> length m) \<longrightarrow>
     E m buf = bnd (wr_opt m buf bs) (\<lambda>m'. Ok (m', length bs)))"

lemma emits_put: "writes E bs \<Longrightarrow> emits (put E) bs" "writes E bs \<Longrightarrow> emits (put_ck E) bs"
  by (auto simp: emits_def writes_def put_def put_ck_def wr_def)

lemma writes_None: "writes E bs \<Longrightarrow> E m None = Ok (m, length bs)"
  by (simp add: writes_def)

lemma writes_Num: "writes (\<lambda>m buf. MqttEncode_Num m buf n) (num_bytes n)"
  by (simp add: writes_def enc_eq)

lemma writes_Vbi:
  "n \<le> 0x0FFFFFFF \<Longrightarrow> writes (\<lambda>m buf. MqttEncode_Vbi m buf (word_of_nat n)) (vbi_bytes n)"
  by (simp add: writes_def enc_eq unat_word32_of_nat)

lemma writes_String:
  "XSTRLEN s \<le> 65535 \<Longrightarrow> writes (\<lambda>m buf. MqttEncode_String m buf s) (str_bytes (cstr_bytes s))"
  by (simp add: writes_def enc_eq)

lemma writes_Data:
  assumes "\<forall>bs. d = Some bs \<longrightarrow> unat n \<le> length bs"
  shows "writes (\<lambda>m buf. MqttEncode_Data m buf d n) (data_bytes d n)"
  using assms by (simp add: writes_def MqttEncode_Data_eq data_bytes_length)

lemma writes_Props:
  assumes "chain H h is" "\<forall>i \<in> set is. prop_wf (H ! i)" "props_ok packet (props_val H is)"
  shows "writes (MqttEncode_Props packet H h) (props_bytes (props_val H is))"
  using MqttEncode_Props_eq [OF assms] by (simp add: writes_def)

lemmas emits_put_intros [emits_intros] =
  emits_put(1) [OF writes_Num] emits_put(1) [OF writes_String] emits_put(1) [OF writes_Data]
  emits_put(2) [OF writes_Vbi] emits_put(2) [OF writes_Props]

text \<open>The block of a property list on the wire.\<close>

definition props_block :: "(nat \<times> prop_value) list \<Rightarrow> byte list" where
  "props_block tvs = vbi_bytes (length (props_bytes tvs)) @ props_bytes tvs"

lemma props_len_pass_ok:
  assumes "chain H h is" "\<forall>i \<in> set is. prop_wf (H ! i)" "props_ok packet (props_val H is)"
  shows "props_len_pass packet H h m =
    Ok (length (props_bytes (props_val H is)), length (vbi_bytes (length (props_bytes (props_val H is)))))"
  using writes_None [OF writes_Props [OF assms]] props_bytes_bound [OF assms(3)]
  by (simp add: props_len_pass_def enc_eq unat_word32_of_nat)

lemma props_len_pass_bad:
  assumes "chain H h is" "\<forall>i \<in> set is. prop_wf (H ! i)" "\<not> props_ok packet (props_val H is)"
  shows "props_len_pass packet H h m = Err PROPERTY"
  using MqttEncode_Props_bad [OF assms, of m] by (auto simp: props_len_pass_def)

lemma emits_props [emits_intros]:
  assumes "chain H h is" "\<forall>i \<in> set is. prop_wf (H ! i)" "props_ok packet (props_val H is)"
    and "n = length (props_bytes (props_val H is))"
  shows "emits (put_props packet H h n) (props_block (props_val H is))"
proof -
  have "emits (put_props packet H h n) (vbi_bytes n @ props_bytes (props_val H is) @ [])"
    unfolding put_props_def using assms props_bytes_bound [OF assms(3)] by (intro emits_intros) auto
  then show ?thesis by (simp add: props_block_def assms(4))
qed

text \<open>What a whole encoder does: refuse, or write header and body as one block.\<close>

definition send_packet :: "mem \<Rightarrow> int \<Rightarrow> byte \<Rightarrow> byte list \<Rightarrow> (mem \<times> nat) outcome" where
  "send_packet tx_buf tx_buf_len tf bs =
     (let pk = tf # vbi_bytes (length bs) @ bs in
      if tx_buf_len < 5 then Err OUT_OF_BUFFER
      else if length bs > MQTT_PACKET_MAX_REMAIN_LEN then Err MALFORMED_DATA
      else if tx_buf_len < int (length pk) then Err OUT_OF_BUFFER
      else Ok (splice_at tx_buf 0 pk, length pk))"

lemma enc_frame_eq:
  assumes "emits payload bs" "n = length bs" "tx_buf_len \<le> int (length tx_buf)" "length bs < 2 ^ 32"
  shows "enc_frame tx_buf tx_buf_len n t r q d payload = send_packet tx_buf tx_buf_len (type_flags t r q d) bs"
proof -
  let ?h = "header_bytes t r q d (length bs)"
  have u: "u32 (int (length bs)) = length bs" using assms(4) by simp
  show ?thesis
  proof (cases "tx_buf_len < 5 \<or> length bs > 0x0FFFFFFF")
    case True
    then show ?thesis using assms(3) unfolding assms(2)
      by (auto simp: enc_frame_def send_packet_def MqttEncode_FixedHeader_eq u wr_def Let_def)
  next
    case False
    then have l: "length ?h \<le> 5" using header_bytes_length_5 [of "length bs"] by simp
    then have hdr: "MqttEncode_FixedHeader tx_buf tx_buf_len (int (length bs)) t r q d = Ok (splice_at tx_buf 0 ?h, length ?h)"
      using False assms(3) by (auto simp: MqttEncode_FixedHeader_eq u wr_def)
    show ?thesis
    proof (cases "tx_buf_len < int (length ?h) + int (length bs)")
      case True
      then show ?thesis using hdr False unfolding assms(2)
        by (simp add: enc_frame_def send_packet_def Let_def header_bytes_def)
    next
      case room: False
      then have "length ?h + length bs \<le> length tx_buf" using assms(3) by linarith
      then have "payload (splice_at tx_buf 0 ?h, length ?h) = Ok (splice_at tx_buf 0 (?h @ bs), length ?h + length bs)"
        using assms(1) splice_at_append [of 0 ?h bs tx_buf] l False assms(3) by (simp add: emits_def)
      then show ?thesis using hdr room False unfolding assms(2)
        by (simp add: enc_frame_def send_packet_def Let_def header_bytes_def)
    qed
  qed
qed

section \<open>Laws of reading\<close>

text \<open>The receive buffer holds the bytes its length claims.\<close>

definition rx_ok :: "mem \<Rightarrow> int \<Rightarrow> bool" where
  "rx_ok m rx_buf_len \<longleftrightarrow> rx_buf_len \<le> int (length m) \<and> rx_buf_len < 2147483648"

lemma rx_left_eq: "rx_ok m L \<Longrightarrow> int p \<le> L \<Longrightarrow> rx_left L p = nat L - p"
  by (simp add: rx_ok_def rx_left_def nat_diff_distrib')

lemma rx_left_word:
  assumes "rx_ok m L" "int p \<le> L"
  shows "unat (word_of_nat (rx_left L p) :: word32) = nat L - p" "nat L - p < 2147483648"
    "p + (nat L - p) \<le> length m" "p + (nat L - p) = nat L"
proof -
  show l: "nat L - p < 2147483648" "p + (nat L - p) \<le> length m" "p + (nat L - p) = nat L"
    using assms by (auto simp: rx_ok_def)
  show "unat (word_of_nat (rx_left L p) :: word32) = nat L - p"
    unfolding rx_left_eq [OF assms] using l by (intro unat_word32_of_nat) linarith
qed

text \<open>
  What a decoder leaves of the property store: on an error every cell that was free is free again
  and no cell in use has changed (\<open>released\<close>); on success the list at \<open>h\<close> owns cells that were free
  and has the value \<open>tvs\<close> (\<open>holds\<close>).
\<close>

definition released :: "store \<Rightarrow> store \<Rightarrow> bool" where
  "released H H' \<longleftrightarrow> length H' = length H \<and> free_cells H' = free_cells H \<and>
     (\<forall>j. j \<notin> free_cells H \<longrightarrow> H' ! j = H ! j)"

definition holds :: "store \<Rightarrow> store \<Rightarrow> nat option \<Rightarrow> (nat \<times> prop_value) list \<Rightarrow> bool" where
  "holds H H' h tvs \<longleftrightarrow> (\<exists>js. live_list H' h js \<and> set js \<subseteq> free_cells H \<and> free_cells H' = free_cells H - set js \<and>
     length H' = length H \<and> (\<forall>j. j \<notin> set js \<longrightarrow> H' ! j = H ! j) \<and> (\<forall>j \<in> set js. prop_wf (H' ! j)) \<and>
     props_val H' js = tvs)"

lemma released_refl [simp]: "released H H"
  by (simp add: released_def)

lemma released_trans: "released H H1 \<Longrightarrow> released H1 H2 \<Longrightarrow> released H H2"
  by (auto simp: released_def)

lemma released_live: "released H H' \<Longrightarrow> live_list H h is \<Longrightarrow> live_list H' h is"
proof -
  assume r: "released H H'" and l: "live_list H h is"
  have "H' ! j = H ! j" if "j \<in> set is" for j
    using r l that live_list_disjoint [OF l] by (auto simp: released_def)
  then show ?thesis using r l chain_cong [of H' H "is" h] by (auto simp: live_list_def released_def)
qed

lemma holds_Nil [simp]: "live_list H None [] \<Longrightarrow> holds H H None []"
  unfolding holds_def by (intro exI [of _ "[]"]) (auto simp: props_val_def)

lemma holds_None: "holds H H' None tvs \<Longrightarrow> tvs = [] \<and> released H H'"
  by (auto simp: holds_def live_list_def props_val_def released_def) (metis chain.simps(1) chain_fun list.simps(8) list.set(1) empty_iff Diff_empty)+

lemma holds_free:
  assumes "holds H H' h tvs"
  obtains H'' where "MqttProps_Free H' h = Ok H''" "released H H''"
proof -
  from assms obtain js where js: "live_list H' h js" "set js \<subseteq> free_cells H" "free_cells H' = free_cells H - set js"
    "length H' = length H" "\<forall>j. j \<notin> set js \<longrightarrow> H' ! j = H ! j" by (auto simp: holds_def)
  have c: "chain H' h js" "30 \<le> length H'" using js(1) by (auto simp: live_list_def)
  have "free_cells (store_free H' js) = free_cells H"
    using store_free_cells [OF c] js(2,3) by (auto simp: free_cells_def)
  moreover have "store_free H' js ! j = H ! j" if "j \<notin> free_cells H" for j
    using store_free_nth [OF chain_range [OF c(1)] chain_distinct [OF c(1)], of j] js(2,5) that by auto
  ultimately show thesis
    using that [OF MqttProps_Free_ok [OF c(1)]] js(4) by (auto simp: released_def)
qed

lemma MqttDecode_Props_rx:
  assumes H: "live_list H None []" and L: "rx_ok m L" "int p \<le> L" and pl: "unat pl \<le> 0x0FFFFFFF"
    and d: "MqttDecode_Props packet H None m p (word_of_nat (rx_left L p)) pl = (H', h', r)"
  obtains (error) e where "r = Err e" "h' = None" "released H H'"
    | (ok) tvs where "r = Ok (unat pl)" "int (p + unat pl) \<le> L" "holds H H' h' tvs"
      "blk m p (unat pl) = props_bytes tvs" "props_ok packet tvs" "auth_ok tvs"
proof -
  have pl': "unat pl < 2147483648" using pl by simp
  note w = rx_left_word [OF L]
  have B: "unat (word_of_nat (rx_left L p) :: word32) < 2147483648" "p + unat (word_of_nat (rx_left L p) :: word32) \<le> length m"
    using w by simp_all
  show thesis
  proof (cases rule: MqttDecode_Props_cases [OF H pl' B d, case_names error ok])
    case (error e)
    then show thesis using that(1) by (auto simp: released_def)
  next
    case (ok js)
    have "holds H H' h' (props_val H' js)"
      using ok(3-6,10) unfolding holds_def grown_def by (intro exI [of _ js]) auto
    moreover have "int (p + unat pl) \<le> L" using ok(2) w(1) L(2) by linarith
    ultimately show thesis using that(2) ok by blast
  qed
qed

lemma MqttDecode_Props_rx_complete:
  assumes H: "live_list H None []" and L: "rx_ok m L" "int (p + length (props_bytes tvs)) \<le> L"
    and tvs: "props_ok packet tvs" "auth_ok tvs" "length tvs \<le> card (free_cells H)"
    and bs: "blk m p (length (props_bytes tvs)) = props_bytes tvs"
  shows "\<exists>H' h'. MqttDecode_Props packet H None m p (word_of_nat (rx_left L p)) (word_of_nat (length (props_bytes tvs))) =
    (H', h', Ok (length (props_bytes tvs))) \<and> holds H H' h' tvs"
proof -
  let ?n = "length (props_bytes tvs)" let ?pl = "word_of_nat ?n :: word32"
  have n: "?n \<le> 3932250" by (rule props_bytes_bound [OF tvs(1)])
  then have u: "unat ?pl = ?n" by (simp add: unat_word32_of_nat)
  have p: "int p \<le> L" using L(2) by simp
  note w = rx_left_word [OF L(1) p]
  have le: "unat ?pl \<le> unat (word_of_nat (rx_left L p) :: word32)" using w(1) u L(2) by linarith
  have B: "unat (word_of_nat (rx_left L p) :: word32) < 2147483648" "p + unat (word_of_nat (rx_left L p) :: word32) \<le> length m"
    using w by simp_all
  obtain H' h' js where d: "MqttDecode_Props packet H None m p (word_of_nat (rx_left L p)) ?pl = (H', h', Ok (unat ?pl))"
    "live_list H' h' js" "props_val H' js = tvs"
    using MqttDecode_Props_complete [OF H tvs bs u le B] by blast
  have "unat ?pl \<le> 0x0FFFFFFF" using u n by simp
  from MqttDecode_Props_rx [OF H L(1) p this d(1)] obtain tvs' where "holds H H' h' tvs'" by auto
  moreover have "tvs' = tvs" using calculation d(2,3) chain_fun by (auto simp: holds_def live_list_def)
  ultimately show ?thesis using d(1) u by auto
qed

lemma at_state_Ok_iff: "at_state r s f = (s', Ok y) \<longleftrightarrow> (\<exists>x. r = Ok x \<and> f x = (s', Ok y))"
  by (cases r) (auto simp: at_state_def)

lemma at_state_simps [simp]:
  "at_state (Ok x) s f = f x" "at_state (Err e) s f = (s, Err e)" "at_state Fault s f = (s, Fault)"
  by (simp_all add: at_state_def)

lemma then_state_simps [simp]:
  "then_state (s, Ok x) f = f s x" "then_state (s, Err e) f = (s, Err e)" "then_state (s, Fault) f = (s, Fault)"
  by (simp_all add: then_state_def)

lemma dec_props_opt_cases:
  assumes H: "live_list H None []" and L: "rx_ok m L" "int p \<le> L" and pl: "unat pl \<le> 0x0FFFFFFF"
    and d: "dec_props_opt packet H None m L p pl = (H', h', r)"
  obtains (error) e where "r = Err e" "h' = None" "released H H'"
    | (ok) tvs where "r = Ok (unat pl)" "unat pl = length (props_bytes tvs)" "int (p + unat pl) \<le> L" "holds H H' h' tvs"
      "blk m p (unat pl) = props_bytes tvs" "props_ok packet tvs" "auth_ok tvs"
proof (cases "pl > 0")
  case False
  then have "pl = 0" by (simp add: word_gt_0)
  with d have "H' = H" "h' = None" "r = Ok 0" "unat pl = 0" by (auto simp: dec_props_opt_def)
  then show thesis using H L by (intro ok [of "[]"]) (auto simp: props_ok_def auth_ok_def)
next
  case True
  with d have P: "MqttDecode_Props packet H None m p (word_of_nat (rx_left L p)) pl = (H', h', r)"
    by (simp add: dec_props_opt_def)
  show thesis
  proof (cases rule: MqttDecode_Props_rx [OF H L pl P, case_names error ok])
    case (error e)
    then show thesis by (rule that(1))
  next
    case (ok tvs)
    have "length (blk m p (unat pl)) = unat pl" using ok(2) L(1) by (intro blk_length) (simp add: rx_ok_def)
    then show thesis using ok by (intro that(2) [of tvs]) auto
  qed
qed

lemma dec_props_opt_complete:
  assumes "live_list H None []" "rx_ok m L" "int (p + length (props_bytes tvs)) \<le> L"
    and "props_ok packet tvs" "auth_ok tvs" "length tvs \<le> card (free_cells H)"
    and "blk m p (length (props_bytes tvs)) = props_bytes tvs"
  shows "\<exists>H' h'. dec_props_opt packet H None m L p (word_of_nat (length (props_bytes tvs))) =
    (H', h', Ok (length (props_bytes tvs))) \<and> holds H H' h' tvs"
proof (cases "props_bytes tvs = []")
  case True
  have "tvs = []"
  proof (cases tvs)
    case (Cons tv tvs')
    then have "0 < length (prop_bytes tv)"
      using assms(4) by (intro prop_bytes_length(2) [of packet]) (simp add: props_ok_def)
    then show ?thesis using True Cons by (simp add: props_bytes_Cons)
  qed
  then show ?thesis using assms(1) by (auto simp: dec_props_opt_def)
next
  case False
  have "unat (word_of_nat (length (props_bytes tvs)) :: word32) = length (props_bytes tvs)"
    using props_bytes_bound [OF assms(4)] by (intro unat_word32_of_nat) linarith
  then have "(word_of_nat (length (props_bytes tvs)) :: word32) > 0"
    using False by (metis length_0_conv unat_0 word_gt_0)
  then show ?thesis using MqttDecode_Props_rx_complete [OF assms] by (simp add: dec_props_opt_def)
qed

section \<open>Strings, lists and blocks\<close>

lemma qos_gt_0: "(q > MQTT_QOS_0) = (q \<noteq> MQTT_QOS_0)"
  by (cases q) (simp_all add: less_MqttQoS_def)

lemma qos_gt_2: "(q > MQTT_QOS_2) = (q = MQTT_QOS_3)"
  by (cases q) (simp_all add: less_MqttQoS_def)

lemma find_prop_chain:
  "chain H h is \<Longrightarrow> length is \<le> n \<Longrightarrow> find_prop n H h t = Ok (t \<in> fst ` set (props_val H is))"
proof (induction "is" arbitrary: n h)
  case Nil
  then show ?case by (cases n) (simp_all add: props_val_def)
next
  case (Cons i "is")
  then obtain k where "n = Suc k" by (cases n) simp_all
  with Cons show ?case by (auto simp: props_val_def)
qed

lemma XSTRLEN_0: "(XSTRLEN s = 0) = (cstr_bytes s = [])"
  by (metis XSTRLEN_cstr_bytes length_0_conv)

lemma topic_name_cstr:
  "MqttPacket_TopicNameValid (Some s) (XSTRLEN s) v =
     Ok (no_wildcard (cstr_bytes s) \<and> (cstr_bytes s = [] \<longrightarrow> v \<ge> MQTT_CONNECT_PROTOCOL_LEVEL_5))"
  by (simp add: topic_name_valid_eq XSTRLEN_le cstr_bytes_take XSTRLEN_0)

lemma utf8_cstr:
  "XSTRLEN s \<le> 65535 \<Longrightarrow> MqttEncode_Utf8Ok (Some s) (XSTRLEN s) = Ok (utf8_ok (cstr_bytes s))"
  by (simp add: MqttEncode_Utf8Ok_eq XSTRLEN_le cstr_bytes_take)

lemma word16_len_0: "length s \<le> 65535 \<Longrightarrow> ((word_of_nat (length s) :: word16) = 0) = (s = [])"
  using unat_word16_of_nat [of "length s"] by (auto simp: word_unat_eq_iff)

lemma blk_append_split:
  "blk m p (length (a @ b)) = a @ b \<Longrightarrow> p + length (a @ b) \<le> length m \<Longrightarrow>
   blk m p (length a) = a \<and> blk m (p + length a) (length b) = b"
  by (simp add: blk_add)

end
