(* ===== verification/Packet_Publish.thy ===== *)
theory Packet_Publish
  imports Packet_Common
begin

text \<open>
  PUBLISH: \<^verbatim>\<open>MqttEncode_Publish\<close> and \<^verbatim>\<open>MqttDecode_Publish\<close> of \<^verbatim>\<open>src/mqtt_packet.c\<close>.  The encoder is shown to
  write the packet of the standard and to refuse every other message, the decoder to stay inside
  the receive buffer, to leak no property cell, and to accept what the encoder writes with the
  values that went in.
\<close>

section \<open>Operations\<close>

definition has_topic_alias :: "store \<Rightarrow> nat option \<Rightarrow> bool outcome" where
  "has_topic_alias H props = find_prop (length H) H props MQTT_PROP_TOPIC_ALIAS"

subsection \<open>Encode PUBLISH\<close>

text \<open>The checks on the topic name: the length of the name.\<close>

definition publish_topic_check :: "store \<Rightarrow> MqttMessage \<Rightarrow> nat outcome" where
  "publish_topic_check H publish =
     (case topic_name publish of
        None \<Rightarrow> Err BAD_ARG
      | Some topic \<Rightarrow>
          (let str_len = XSTRLEN topic; level = msg_level publish in
           if str_len > 0xFFFF then Err BAD_ARG
           else bnd (MqttPacket_TopicNameValid (Some topic) str_len level) (\<lambda>valid.
             if \<not> valid then Err MALFORMED_DATA
             else bnd (MqttEncode_Utf8Ok (Some topic) str_len) (\<lambda>utf8.
             if \<not> utf8 then Err MALFORMED_DATA
             else if level \<ge> MQTT_CONNECT_PROTOCOL_LEVEL_5 \<and> str_len = 0
             then bnd (has_topic_alias H (msg_props publish)) (\<lambda>alias.
                    if alias then Ok str_len else Err BAD_ARG)
             else Ok str_len))))"

text \<open>The length of the variable header, and the length of the properties in it.\<close>

definition publish_variable_len :: "store \<Rightarrow> mem \<Rightarrow> MqttMessage \<Rightarrow> (nat \<times> nat) outcome" where
  "publish_variable_len H m publish =
     bnd (publish_topic_check H publish) (\<lambda>str_len.
     if qos publish > MQTT_QOS_0 \<and> packet_id publish = 0 then Err PACKET_ID
     else if \<not> qos publish > MQTT_QOS_0 \<and> duplicate publish \<noteq> 0 then Err BAD_ARG
     else bnd (if msg_level publish \<ge> MQTT_CONNECT_PROTOCOL_LEVEL_5
               then props_len_pass MQTT_PACKET_TYPE_PUBLISH H (msg_props publish) m
               else Ok (0, 0)) (\<lambda>(props_len, tmp_len).
       Ok (str_len + MQTT_DATA_LEN_SIZE +
             (if qos publish > MQTT_QOS_0 then MQTT_DATA_LEN_SIZE else 0) + props_len + tmp_len,
           props_len)))"

definition publish_put_header :: "store \<Rightarrow> MqttMessage \<Rightarrow> nat \<Rightarrow> cursor \<Rightarrow> cursor outcome" where
  "publish_put_header H publish props_len =
     puts [put (\<lambda>m buf. MqttEncode_String m buf (the (topic_name publish))),
           if qos publish > MQTT_QOS_0 then put (\<lambda>m buf. MqttEncode_Num m buf (packet_id publish))
           else put_nothing,
           if msg_level publish \<ge> MQTT_CONNECT_PROTOCOL_LEVEL_5
           then put_props MQTT_PACKET_TYPE_PUBLISH H (msg_props publish) props_len
           else put_nothing]"

text \<open>The copy of the payload, as much of it as the buffer holds and the message has.\<close>

definition publish_copy_len :: "MqttMessage \<Rightarrow> int \<Rightarrow> int \<Rightarrow> int" where
  "publish_copy_len publish payload_len room =
     (let n = (if payload_len > room then room else payload_len)
      in if buffer_len publish > 0 \<and> unat (buffer_len publish) < u32 n
         then s32 (buffer_len publish) else n)"

definition publish_copy :: "MqttMessage \<Rightarrow> int \<Rightarrow> int \<Rightarrow> cursor \<Rightarrow> (mem \<times> MqttMessage \<times> int) outcome" where
  "publish_copy publish payload_len room = (\<lambda>(m, p).
     if payload_len > 0 then
       (let n = publish_copy_len publish payload_len room in
        case buffer publish of
          None \<Rightarrow> Fault
        | Some b \<Rightarrow>
            if n < 0 then Fault
            else bnd (rdn b 0 (nat n)) (\<lambda>bs. bnd (wr m p bs) (\<lambda>m1.
              Ok (m1, publish\<lparr>buffer_pos := word_of_int n,
                              buffer_len := (if buffer_len publish = 0 then total_len publish
                                             else buffer_len publish)\<rparr>, n))))
     else Ok (m, publish, payload_len))"

text \<open>
  The structure that the call changes, the packet in the buffer and the value it returns; what
  is left in the buffer and the structure after an error is not part of the result.
\<close>

definition MqttEncode_Publish ::
  "store \<Rightarrow> mem option \<Rightarrow> int \<Rightarrow> MqttMessage option \<Rightarrow> byte \<Rightarrow> (mem \<times> MqttMessage \<times> int) outcome" where
  "MqttEncode_Publish H tx_buf tx_buf_len publish use_cb =
     (case (tx_buf, publish) of
        (Some m, Some publish) \<Rightarrow>
          if qos publish > MQTT_QOS_2 then Err BAD_ARG
          else bnd (publish_variable_len H m publish) (\<lambda>(variable_len, props_len).
          if buffer publish \<noteq> None \<and> buffer_len publish > 0 \<and> total_len publish = 0 then Err BAD_ARG
          else let payload_len = (if (buffer publish \<noteq> None \<or> use_cb = 1) \<and> total_len publish > 0
                                  then s32 (total_len publish) else 0)
          in bnd (ck_int (int variable_len + payload_len)) (\<lambda>remain_len.
             bnd (MqttEncode_FixedHeader m tx_buf_len remain_len MQTT_PACKET_TYPE_PUBLISH
                    (retain publish) (qos_code (qos publish)) (duplicate publish)) (\<lambda>(m1, header_len).
             if tx_buf_len < int header_len + int variable_len then Err OUT_OF_BUFFER
             else bnd (publish_put_header H publish props_len (m1, header_len)) (\<lambda>cur.
             bnd (publish_copy publish (if use_cb = 1 then 0 else payload_len)
                    (tx_buf_len - (int header_len + int variable_len)) cur) (\<lambda>(m2, publish', n).
             Ok (m2, publish'\<lparr>msg_type := MQTT_PACKET_TYPE_PUBLISH, intBuf_pos := 0,
                              intBuf_len := word_of_int n\<rparr>,
                 int header_len + int variable_len + n))))))
      | _ \<Rightarrow> Err BAD_ARG)"

subsection \<open>Decode PUBLISH\<close>

text \<open>The state of a decoder: the property store and the structure it fills.\<close>

type_synonym pub_state = "store \<times> MqttMessage"

text \<open>Topic Name and Packet Identifier: the length of the two.\<close>

definition dec_publish_topic ::
  "mem \<Rightarrow> int \<Rightarrow> nat \<Rightarrow> pub_state \<Rightarrow> pub_state \<times> nat outcome" where
  "dec_publish_topic m rx_buf_len header_len = (\<lambda>(H, publish).
     at_state (MqttDecode_String m header_len (rx_left rx_buf_len header_len)) (H, publish) (\<lambda>(s, variable_len).
       let publish1 = publish\<lparr>topic_name := Some s, topic_name_len := word_of_nat (length s)\<rparr> in
       if int variable_len + int header_len > rx_buf_len then ((H, publish1), Err OUT_OF_BUFFER)
       else at_state (MqttPacket_TopicNameValid (topic_name publish1) (unat (topic_name_len publish1))
                        (msg_level publish1)) (H, publish1) (\<lambda>valid.
         if \<not> valid then ((H, publish1), Err MALFORMED_DATA)
         else if qos publish1 > MQTT_QOS_0 then
           if int (header_len + variable_len) + int MQTT_DATA_LEN_SIZE > rx_buf_len
           then ((H, publish1), Err OUT_OF_BUFFER)
           else at_state (MqttDecode_Num m (header_len + variable_len)
                            (rx_left rx_buf_len (header_len + variable_len))) (H, publish1) (\<lambda>(id, tmp).
             let publish2 = publish1\<lparr>packet_id := id\<rparr> in
             if id = 0 then ((H, publish2), Err PACKET_ID)
             else if int (variable_len + tmp) + int header_len \<le> rx_buf_len
             then ((H, publish2), Ok (variable_len + tmp))
             else ((H, publish2), Err OUT_OF_BUFFER))
         else ((H, publish1), Ok variable_len))))"

text \<open>The properties of a v5 PUBLISH: the new length of the variable header.\<close>

definition dec_publish_props ::
  "mem \<Rightarrow> int \<Rightarrow> nat \<Rightarrow> nat \<Rightarrow> pub_state \<Rightarrow> pub_state \<times> nat outcome" where
  "dec_publish_props m rx_buf_len header_len variable_len = (\<lambda>(H, publish0).
     let publish = publish0\<lparr>msg_props := None\<rparr>; p = header_len + variable_len in
     if msg_level publish \<ge> MQTT_CONNECT_PROTOCOL_LEVEL_5 then
       if rx_buf_len < int p then ((H, publish), Err OUT_OF_BUFFER)
       else at_state (MqttDecode_Vbi m p (rx_left rx_buf_len p)) (H, publish) (\<lambda>(props_len, tmp).
         let variable_len1 = variable_len + (tmp + unat props_len) in
         if int variable_len1 + int header_len \<le> rx_buf_len then
           (case dec_props_opt MQTT_PACKET_TYPE_PUBLISH H (msg_props publish) m rx_buf_len (p + tmp) props_len of
              (H1, props1, r) \<Rightarrow>
           then_state ((H1, publish\<lparr>msg_props := props1\<rparr>), r) (\<lambda>(H1, publish1) _.
             if topic_name_len publish1 = 0 then
               at_state (has_topic_alias H1 (msg_props publish1)) (H1, publish1) (\<lambda>alias.
                 if \<not> alias then
                   (case MqttProps_Free H1 (msg_props publish1) of
                      Ok H2 \<Rightarrow> ((H2, publish1\<lparr>msg_props := None\<rparr>), Err MALFORMED_DATA)
                    | _ \<Rightarrow> ((H1, publish1), Fault))
                 else ((H1, publish1), Ok variable_len1))
             else ((H1, publish1), Ok variable_len1)))
         else ((H, publish), Err OUT_OF_BUFFER))
     else ((H, publish), Ok variable_len))"

definition dec_publish_payload ::
  "mem \<Rightarrow> int \<Rightarrow> nat \<Rightarrow> int \<Rightarrow> nat \<Rightarrow> pub_state \<Rightarrow> pub_state \<times> int outcome" where
  "dec_publish_payload m rx_buf_len header_len remain_len variable_len = (\<lambda>(H, publish).
     if int variable_len > remain_len then
       (case MqttProps_Free H (msg_props publish) of
          Ok H2 \<Rightarrow> ((H2, publish\<lparr>msg_props := None\<rparr>), Err OUT_OF_BUFFER)
        | _ \<Rightarrow> ((H, publish), Fault))
     else
       (let payload_len = remain_len - int variable_len;
            room = rx_buf_len - (int header_len + int variable_len);
            n = (if payload_len > room then room else payload_len)
        in ((H, publish\<lparr>buffer := Some (blk m (header_len + variable_len) (nat n)), buffer_new := 1,
                        buffer_pos := 0, buffer_len := word_of_int n,
                        total_len := word_of_int payload_len\<rparr>),
            Ok (int header_len + int variable_len + payload_len))))"

definition MqttDecode_Publish ::
  "store \<Rightarrow> mem option \<Rightarrow> int \<Rightarrow> MqttMessage option \<Rightarrow> (store \<times> MqttMessage option) \<times> int outcome" where
  "MqttDecode_Publish H rx_buf rx_buf_len publish =
     (case (rx_buf, publish) of
        (Some m, Some publish0) \<Rightarrow>
          if rx_buf_len \<le> 0 then ((H, Some publish0), Err BAD_ARG)
          else let publish1 = publish0\<lparr>msg_type := MQTT_PACKET_TYPE_PUBLISH\<rparr> in
          (case at_state (MqttDecode_FixedHeader m rx_buf_len MQTT_PACKET_TYPE_PUBLISH) (H, publish1) (\<lambda>h.
               let publish2 = publish1\<lparr>qos := fh_qos h, retain := fh_retain h, duplicate := fh_duplicate h\<rparr> in
               then_state (dec_publish_topic m rx_buf_len (fh_header_len h) (H, publish2)) (\<lambda>s1 variable_len1.
               then_state (dec_publish_props m rx_buf_len (fh_header_len h) variable_len1 s1) (\<lambda>s2 variable_len2.
               dec_publish_payload m rx_buf_len (fh_header_len h) (fh_remain_len h) variable_len2 s2))) of
             ((H', publish'), r) \<Rightarrow> ((H', Some publish'), r))
      | _ \<Rightarrow> ((H, publish), Err BAD_ARG))"

section \<open>The PUBLISH packet\<close>

definition publish_hdr :: "byte \<Rightarrow> MqttQoS \<Rightarrow> word16 \<Rightarrow> byte list \<Rightarrow> (nat \<times> prop_value) list \<Rightarrow> byte list" where
  "publish_hdr level q pid topic tvs =
     str_bytes topic @ (if q > MQTT_QOS_0 then num_bytes pid else []) @
     (if level \<ge> MQTT_CONNECT_PROTOCOL_LEVEL_5 then props_block tvs else [])"

text \<open>The messages that MQTT allows on the wire.\<close>

definition publish_ok ::
  "byte \<Rightarrow> MqttQoS \<Rightarrow> byte \<Rightarrow> word16 \<Rightarrow> byte list \<Rightarrow> (nat \<times> prop_value) list \<Rightarrow> bool" where
  "publish_ok level q dup pid topic tvs \<longleftrightarrow>
     q \<noteq> MQTT_QOS_3 \<and> utf8_str topic \<and> no_wildcard topic \<and>
     (q = MQTT_QOS_0 \<longrightarrow> dup = 0) \<and> (q \<noteq> MQTT_QOS_0 \<longrightarrow> pid \<noteq> 0) \<and>
     (if level \<ge> MQTT_CONNECT_PROTOCOL_LEVEL_5
      then props_ok MQTT_PACKET_TYPE_PUBLISH tvs \<and> (topic = [] \<longrightarrow> MQTT_PROP_TOPIC_ALIAS \<in> fst ` set tvs)
      else topic \<noteq> [])"

lemma has_topic_alias_chain:
  "chain H h is \<Longrightarrow> has_topic_alias H h = Ok (MQTT_PROP_TOPIC_ALIAS \<in> fst ` set (props_val H is))"
  by (simp add: has_topic_alias_def find_prop_chain chain_length)

lemma publish_topic_check_eq:
  assumes "topic_name p = Some t" "chain H (msg_props p) is"
  shows "publish_topic_check H p =
    (if XSTRLEN t > 65535 then Err BAD_ARG
     else if \<not> (no_wildcard (cstr_bytes t) \<and> (cstr_bytes t = [] \<longrightarrow> msg_level p \<ge> 5) \<and> utf8_ok (cstr_bytes t)) then Err MALFORMED_DATA
     else if msg_level p \<ge> 5 \<and> cstr_bytes t = [] \<and> MQTT_PROP_TOPIC_ALIAS \<notin> fst ` set (props_val H is) then Err BAD_ARG
     else Ok (XSTRLEN t))"
  using assms
  by (auto simp: publish_topic_check_def Let_def topic_name_cstr utf8_cstr has_topic_alias_chain XSTRLEN_0)

lemma publish_variable_len_ok:
  assumes t: "topic_name p = Some t" and c: "chain H (msg_props p) is" "\<forall>i \<in> set is. prop_wf (H ! i)"
    and ok: "publish_ok (msg_level p) (qos p) (duplicate p) (packet_id p) (cstr_bytes t) (props_val H is)"
  shows "publish_variable_len H m p =
    Ok (length (publish_hdr (msg_level p) (qos p) (packet_id p) (cstr_bytes t) (props_val H is)),
        if msg_level p \<ge> 5 then length (props_bytes (props_val H is)) else 0)"
proof -
  have "publish_topic_check H p = Ok (XSTRLEN t)"
    using publish_topic_check_eq [OF t c(1)] ok by (auto simp: publish_ok_def utf8_str_def split: if_splits)
  then show ?thesis using ok props_len_pass_ok [OF c, of 3 m]
    by (auto simp: publish_variable_len_def publish_hdr_def publish_ok_def qos_gt_0 props_block_def)
qed

lemma publish_put_header_emits:
  assumes t: "topic_name p = Some t" and c: "chain H (msg_props p) is" "\<forall>i \<in> set is. prop_wf (H ! i)"
    and ok: "publish_ok (msg_level p) (qos p) (duplicate p) (packet_id p) (cstr_bytes t) (props_val H is)"
    and n: "msg_level p \<ge> 5 \<longrightarrow> n = length (props_bytes (props_val H is))"
  shows "emits (publish_put_header H p n) (publish_hdr (msg_level p) (qos p) (packet_id p) (cstr_bytes t) (props_val H is))"
proof -
  let ?a = "if qos p > MQTT_QOS_0 then num_bytes (packet_id p) else []"
  let ?b = "if msg_level p \<ge> 5 then props_block (props_val H is) else []"
  have s: "XSTRLEN t \<le> 65535" using ok by (auto simp: publish_ok_def utf8_str_def)
  have "emits (publish_put_header H p n) (str_bytes (cstr_bytes t) @ ?a @ ?b @ [])"
    unfolding publish_put_header_def t option.sel
    using s c ok n by (intro emits_intros) (simp_all add: publish_ok_def)
  then show ?thesis by (simp add: publish_hdr_def)
qed

text \<open>The payload a message has, and how much of it one call copies.\<close>

definition payload_total :: "MqttMessage \<Rightarrow> nat" where
  "payload_total p = (if buffer p = None then 0 else unat (total_len p))"

definition payload_have :: "MqttMessage \<Rightarrow> nat" where
  "payload_have p = (if buffer_len p = 0 then payload_total p else min (payload_total p) (unat (buffer_len p)))"

definition publish_src_ok :: "MqttMessage \<Rightarrow> bool" where
  "publish_src_ok p \<longleftrightarrow> (\<forall>b. buffer p = Some b \<longrightarrow> payload_have p \<le> length b) \<and>
     \<not> (buffer p \<noteq> None \<and> buffer_len p > 0 \<and> total_len p = 0)"

lemma publish_copy_eq:
  assumes "publish_src_ok p" "payload_total p < 2147483648" "room < 2147483648" "q + room \<le> length m"
  shows "publish_copy p (int (payload_total p)) (int room) (m, q) =
    (let n = min (payload_have p) room in
     Ok (splice_at m q (case buffer p of None \<Rightarrow> [] | Some b \<Rightarrow> take n b),
       if payload_total p = 0 then p
       else p\<lparr>buffer_pos := word_of_nat n, buffer_len := (if buffer_len p = 0 then total_len p else buffer_len p)\<rparr>, int n))"
proof (cases "payload_total p = 0")
  case True
  then show ?thesis
    by (auto simp: publish_copy_def payload_have_def Let_def split: option.splits)
next
  case False
  then obtain b where b: "buffer p = Some b" by (auto simp: payload_total_def split: if_splits)
  define T where "T = payload_total p"
  have n: "publish_copy_len p (int T) (int room) = int (min (payload_have p) room)"
  proof -
    have "(if int T > int room then int room else int T) = int (min T room)" by simp
    moreover have "u32 (int (min T room)) = min T room" using assms(2,3) by (simp add: T_def)
    moreover have "buffer_len p > 0 \<longleftrightarrow> buffer_len p \<noteq> 0" by (simp add: word_gt_0)
    moreover have "s32 (buffer_len p) = int (unat (buffer_len p))" if "unat (buffer_len p) < min T room"
      using that assms(2) by (intro s32_small) (simp add: T_def)
    ultimately show ?thesis
      by (auto simp: publish_copy_len_def Let_def payload_have_def T_def [symmetric])
  qed
  have "min (payload_have p) room \<le> length b" "q + min (payload_have p) room \<le> length m"
    using assms(1,4) b by (auto simp: publish_src_ok_def min_def)
  then show ?thesis using False b assms(4)
    unfolding T_def [symmetric] publish_copy_def prod.case n
    by (simp add: Let_def rdn_def wr_def blk_def T_def)
qed


text \<open>The first call for a message: header, variable header and the part of the payload that fits.\<close>

lemma publish_hdr_length:
  assumes "publish_ok level q dup pid topic tvs"
  shows "length (publish_hdr level q pid topic tvs) \<le> 4000000"
proof -
  have "length (props_block tvs) \<le> 3932254" if "level \<ge> 5"
    using props_bytes_bound [of 3 tvs] vbi_bytes_length_4 [of "length (props_bytes tvs)"] assms that
    by (simp add: publish_ok_def props_block_def)
  then show ?thesis using assms by (auto simp: publish_hdr_def publish_ok_def utf8_str_def)
qed

lemma MqttEncode_Publish_ok:
  fixes p :: MqttMessage
  assumes t: "topic_name p = Some t" and c: "chain H (msg_props p) is" "\<forall>i \<in> set is. prop_wf (H ! i)"
    and ok: "publish_ok (msg_level p) (qos p) (duplicate p) (packet_id p) (cstr_bytes t) (props_val H is)"
    and src: "publish_src_ok p" and cb: "use_cb \<noteq> 1"
    and tx: "tx_buf_len \<le> int (length m)" "tx_buf_len < 2147483648"
  defines "hdr \<equiv> publish_hdr (msg_level p) (qos p) (packet_id p) (cstr_bytes t) (props_val H is)"
  defines "fx \<equiv> type_flags 3 (retain p) (qos_code (qos p)) (duplicate p) # vbi_bytes (length hdr + payload_total p)"
  assumes fit: "5 \<le> tx_buf_len" "length hdr + payload_total p \<le> 0x0FFFFFFF" "int (length fx + length hdr) \<le> tx_buf_len"
  shows "\<exists>p'. let n = min (payload_have p) (nat tx_buf_len - (length fx + length hdr)) in
    (MqttEncode_Publish H (Some m) tx_buf_len (Some p) use_cb =
     Ok (splice_at m 0 (fx @ hdr @ (case buffer p of None \<Rightarrow> [] | Some b \<Rightarrow> take n b)), p', int (length fx + length hdr + n)) \<and>
     (0 < payload_total p \<longrightarrow> buffer_pos p' = word_of_nat n))"
proof -
  let ?T = "payload_total p"
  let ?room = "nat tx_buf_len - (length fx + length hdr)"
  have lf: "length fx \<le> 5" using vbi_bytes_length_4 [OF fit(2)] by (simp add: fx_def)
  have v: "publish_variable_len H m p = Ok (length hdr, if msg_level p \<ge> 5 then length (props_bytes (props_val H is)) else 0)"
    unfolding hdr_def by (rule publish_variable_len_ok [OF t c ok])
  have T31: "?T < 2147483648" using fit(2) by simp
  have pay: "(if (buffer p \<noteq> None \<or> use_cb = 1) \<and> total_len p > 0 then s32 (total_len p) else 0) = int ?T"
    using T31 s32_small [of "total_len p"] cb by (auto simp: payload_total_def word_gt_0)
  have ck: "ck_int (int (length hdr) + int ?T) = Ok (int (length hdr + ?T))" using fit(2) by (simp add: ck_int_def)
  have hd: "header_bytes 3 (retain p) (qos_code (qos p)) (duplicate p) (length hdr + ?T) = fx"
    by (simp add: header_bytes_def fx_def)
  have u: "u32 (int (length hdr + ?T)) = length hdr + ?T" using fit(2) by simp
  have h: "MqttEncode_FixedHeader m tx_buf_len (int (length hdr + ?T)) 3 (retain p) (qos_code (qos p)) (duplicate p) =
      Ok (splice_at m 0 fx, length fx)"
    unfolding MqttEncode_FixedHeader_eq u hd using fit tx lf by (simp add: wr_def)
  have room: "length fx + length hdr \<le> length m" "tx_buf_len - (int (length fx) + int (length hdr)) = int ?room"
    "length fx + length hdr + ?room \<le> length m"
    using fit tx by linarith+
  have e: "emits (publish_put_header H p (if msg_level p \<ge> 5 then length (props_bytes (props_val H is)) else 0)) hdr"
    unfolding hdr_def using publish_put_header_emits [OF t c ok] by simp
  have w: "publish_put_header H p (if msg_level p \<ge> 5 then length (props_bytes (props_val H is)) else 0) (splice_at m 0 fx, length fx) =
      Ok (splice_at m 0 (fx @ hdr), length fx + length hdr)"
    using emitsD [OF e, of "length fx" "splice_at m 0 fx"] splice_at_append [of 0 fx hdr m] room(1) by simp
  let ?n = "min (payload_have p) ?room"
  let ?p1 = "if ?T = 0 then p else p\<lparr>buffer_pos := word_of_nat ?n, buffer_len := (if buffer_len p = 0 then total_len p else buffer_len p)\<rparr>"
  let ?bs = "case buffer p of None \<Rightarrow> [] | Some b \<Rightarrow> take ?n b"
  have cp: "publish_copy p (int ?T) (int ?room) (splice_at m 0 (fx @ hdr), length fx + length hdr) =
     Ok (splice_at (splice_at m 0 (fx @ hdr)) (length fx + length hdr) ?bs, ?p1, int ?n)"
  proof -
    have r: "?room < 2147483648" "length fx + length hdr + ?room \<le> length (splice_at m 0 (fx @ hdr))"
      using tx(2) room by auto
    show ?thesis by (rule publish_copy_eq [OF src T31 r, unfolded Let_def])
  qed
  have lb: "length ?bs \<le> ?n" by (cases "buffer p") auto
  have sp: "splice_at (splice_at m 0 (fx @ hdr)) (length fx + length hdr) ?bs = splice_at m 0 (fx @ hdr @ ?bs)"
    using splice_at_append [of 0 "fx @ hdr" ?bs m] room(3) lb by simp
  have nb: "\<not> (buffer p \<noteq> None \<and> buffer_len p > 0 \<and> total_len p = 0)" using src by (simp add: publish_src_ok_def)
  have q: "\<not> qos p > MQTT_QOS_2" using ok by (simp add: qos_gt_2 publish_ok_def)
  have cb0: "(if use_cb = 1 then 0 else int ?T) = int ?T" using cb by simp
  have nr: "(tx_buf_len < int (length fx) + int (length hdr)) = False" using fit(3) by simp
  have "MqttEncode_Publish H (Some m) tx_buf_len (Some p) use_cb =
     Ok (splice_at m 0 (fx @ hdr @ ?bs), ?p1\<lparr>msg_type := 3, intBuf_pos := 0, intBuf_len := word_of_int (int ?n)\<rparr>,
         int (length fx) + int (length hdr) + int ?n)"
    by (simp only: MqttEncode_Publish_def prod.case option.case v bnd.simps pay Let_def ck h cb0 if_not_P [OF q] if_not_P [OF nb]
        nr if_False w room(2) cp sp)
  then show ?thesis
    by (intro exI [of _ "?p1\<lparr>msg_type := 3, intBuf_pos := 0, intBuf_len := word_of_int (int ?n)\<rparr>"]) (simp add: Let_def)
qed

text \<open>A message outside the rules never reaches the wire.\<close>

lemma MqttEncode_Publish_bad:
  assumes t: "topic_name p = Some t" and c: "chain H (msg_props p) is" "\<forall>i \<in> set is. prop_wf (H ! i)"
    and bad: "\<not> publish_ok (msg_level p) (qos p) (duplicate p) (packet_id p) (cstr_bytes t) (props_val H is)"
  shows "\<exists>e. MqttEncode_Publish H (Some m) tx_buf_len (Some p) use_cb = Err e"
proof (cases "qos p = MQTT_QOS_3")
  case True
  then show ?thesis by (simp add: MqttEncode_Publish_def qos_gt_2)
next
  case q: False
  have "\<exists>e. publish_variable_len H m p = Err e"
  proof (cases "publish_topic_check H p = Ok (XSTRLEN t)")
    case True
    then have "utf8_str (cstr_bytes t)" "no_wildcard (cstr_bytes t)"
      "msg_level p \<ge> 5 \<longrightarrow> cstr_bytes t = [] \<longrightarrow> 35 \<in> fst ` set (props_val H is)" "\<not> msg_level p \<ge> 5 \<longrightarrow> cstr_bytes t \<noteq> []"
      using publish_topic_check_eq [OF t c(1)] by (auto simp: utf8_str_def split: if_splits)
    then have "qos p \<noteq> MQTT_QOS_0 \<and> packet_id p = 0 \<or> qos p = MQTT_QOS_0 \<and> duplicate p \<noteq> 0 \<or>
        msg_level p \<ge> 5 \<and> \<not> props_ok 3 (props_val H is)"
      using bad q unfolding publish_ok_def by (auto split: if_splits)
    then show ?thesis using True props_len_pass_bad [OF c, of 3 m]
      by (auto simp: publish_variable_len_def qos_gt_0)
  next
    case False
    then have "\<exists>e. publish_topic_check H p = Err e"
      using publish_topic_check_eq [OF t c(1)] by (auto split: if_splits)
    then show ?thesis by (auto simp: publish_variable_len_def)
  qed
  then show ?thesis using q by (auto simp: MqttEncode_Publish_def qos_gt_2)
qed

section \<open>Decoding PUBLISH\<close>

lemma auth_ok_publish: "props_ok MQTT_PACKET_TYPE_PUBLISH tvs \<Longrightarrow> auth_ok tvs"
proof -
  have "\<not> prop_allowed 3 22" by (simp add: prop_allowed_def gPropMatrix_def packet_mask_def)
  then show "props_ok 3 tvs \<Longrightarrow> auth_ok tvs" by (auto simp: props_ok_def prop_ok_def auth_ok_def)
qed

lemma dec_publish_topic_no_fault:
  assumes "rx_ok m L" "int hl \<le> L"
  shows "snd (dec_publish_topic m L hl (H, p)) \<noteq> Fault \<and> (\<exists>p'. fst (dec_publish_topic m L hl (H, p)) = (H, p') \<and> msg_props p' = msg_props p)"
proof -
  have nf: "MqttDecode_String m hl (nat L - hl) \<noteq> Fault"
    using rx_left_word(3) [OF assms] by (intro MqttDecode_String_no_fault) simp
  show ?thesis
  proof (cases "MqttDecode_String m hl (nat L - hl)")
    case (Ok x)
    obtain s k where x: "x = (s, k)" by fastforce
    note d = MqttDecode_String_sound [OF Ok [unfolded x]]
    have le: "int (hl + k) \<le> L" using d(2) assms(2) by linarith
    have "MqttDecode_Num m (hl + k) (nat L - (hl + k)) \<noteq> Fault"
      using rx_left_word(3) [OF assms(1) le] by (intro MqttDecode_Num_no_fault) simp
    then show ?thesis using Ok x d(5) assms le
      by (cases "MqttDecode_Num m (hl + k) (nat L - (hl + k))")
        (auto simp: dec_publish_topic_def rx_left_eq [OF assms] rx_left_eq [OF assms(1) le] Let_def topic_name_valid_eq unat_word16_of_nat
          split: if_splits)
  qed (use nf assms in \<open>auto simp: dec_publish_topic_def rx_left_eq [OF assms]\<close>)
qed

lemma dec_publish_topic_sound:
  assumes d: "dec_publish_topic m L hl (H, p) = ((H', p'), Ok v)" and L: "rx_ok m L" "int hl \<le> L"
  obtains s pid where "H' = H"
    "p' = (if qos p = MQTT_QOS_0 then p\<lparr>topic_name := Some s, topic_name_len := word_of_nat (length s)\<rparr>
           else p\<lparr>topic_name := Some s, topic_name_len := word_of_nat (length s), packet_id := pid\<rparr>)"
    "utf8_str s" "no_wildcard s" "s = [] \<longrightarrow> msg_level p \<ge> 5" "qos p \<noteq> MQTT_QOS_0 \<longrightarrow> pid \<noteq> 0"
    "v = length (str_bytes s @ (if qos p = MQTT_QOS_0 then [] else num_bytes pid))"
    "blk m hl v = str_bytes s @ (if qos p = MQTT_QOS_0 then [] else num_bytes pid)" "int (hl + v) \<le> L"
proof -
  from d L obtain s k where s: "MqttDecode_String m hl (nat L - hl) = Ok (s, k)"
    by (auto simp: dec_publish_topic_def rx_left_eq at_state_Ok_iff)
  note S = MqttDecode_String_sound [OF s]
  have le: "int (hl + k) \<le> L" using S(2) L(2) by linarith
  let ?p1 = "p\<lparr>topic_name := Some s, topic_name_len := word_of_nat (length s)\<rparr>"
  have u: "unat (word_of_nat (length s) :: word16) = length s" using S(5) by (simp add: unat_word16_of_nat)
  note D = d [unfolded dec_publish_topic_def rx_left_eq [OF L] rx_left_eq [OF L(1) le] prod.case s at_state_simps Let_def]
  have nm: "no_wildcard s" "s = [] \<longrightarrow> msg_level p \<ge> 5"
    using D u le by (auto simp: topic_name_valid_eq rx_left_eq [OF L(1) le] split: if_splits)
  show thesis
  proof (cases "qos p = MQTT_QOS_0")
    case True
    then have "H' = H" "p' = ?p1" "v = k" using D u le nm by (auto simp: topic_name_valid_eq qos_gt_0 split: if_splits)
    then show thesis using True S nm le by (intro that [of s 0]) (auto simp: utf8_str_def)
  next
    case False
    with D u le nm obtain pid j where n: "MqttDecode_Num m (hl + k) (nat L - (hl + k)) = Ok (pid, j)"
      and r: "H' = H" "p' = ?p1\<lparr>packet_id := pid\<rparr>" "pid \<noteq> 0" "v = k + j"
      by (auto simp: topic_name_valid_eq qos_gt_0 at_state_Ok_iff rx_left_eq [OF L(1) le] split: if_splits)
    note N = MqttDecode_Num_sound [OF n]
    have "blk m hl (k + 2) = str_bytes s @ num_bytes pid" unfolding blk_add using S(4) N(4) by simp
    then show thesis using False S nm N r le by (intro that [of s pid]) (auto simp: utf8_str_def)
  qed
qed

lemma has_topic_alias_holds: "holds H H' h tvs \<Longrightarrow> has_topic_alias H' h = Ok (MQTT_PROP_TOPIC_ALIAS \<in> fst ` set tvs)"
  by (auto simp: holds_def live_list_def has_topic_alias_chain)

lemma dec_publish_props_cases:
  assumes d: "dec_publish_props m L hl v (H, p) = ((H', p'), r)"
    and H: "live_list H None []" and L: "rx_ok m L" "int (hl + v) \<le> L"
  obtains (error) e where "r = Err e" "released H H'" "msg_props p' = None"
    | (ok) h tvs v' where "r = Ok v'" "p' = p\<lparr>msg_props := h\<rparr>" "holds H H' h tvs" "int (hl + v') \<le> L"
      "if msg_level p \<ge> 5 then v' = v + length (props_block tvs) \<and> props_ok 3 tvs \<and>
          blk m (hl + v) (length (props_block tvs)) = props_block tvs \<and>
          (topic_name_len p = 0 \<longrightarrow> MQTT_PROP_TOPIC_ALIAS \<in> fst ` set tvs)
        else v' = v \<and> tvs = []"
proof (cases "msg_level p \<ge> 5")
  case False
  then have "H' = H" "p' = p\<lparr>msg_props := None\<rparr>" "r = Ok v" using d by (auto simp: dec_publish_props_def)
  then show thesis using False H L by (intro ok [of v None "[]"]) auto
next
  case v5: True
  let ?p = "p\<lparr>msg_props := None\<rparr>"
  let ?q = "hl + v"
  have nf: "MqttDecode_Vbi m ?q (nat L - ?q) \<noteq> Fault"
    using rx_left_word(3) [OF L] by (intro MqttDecode_Vbi_no_fault) simp
  have lt: "(L < int ?q) = False" using L(2) by simp
  have lv: "(msg_level (p\<lparr>msg_props := None\<rparr>) \<ge> 5) = True" using v5 by simp
  note D = d [unfolded dec_publish_props_def prod.case Let_def lv lt if_True if_False rx_left_eq [OF L]]
  show thesis
  proof (cases "MqttDecode_Vbi m ?q (nat L - ?q)")
    case (Err e)
    then have "r = Err e" "H' = H" "p' = ?p" using D by auto
    then show thesis by (intro error) auto
  next
    case (Ok x)
    obtain pl k where x: "x = (pl, k)" by fastforce
    note V = MqttDecode_Vbi_sound [OF Ok [unfolded x]]
    have le: "int (?q + k) \<le> L" using V(5) L(2) by linarith
    obtain H1 h r1 where P: "dec_props_opt 3 H None m L (?q + k) pl = (H1, h, r1)" by (metis prod_cases3)
    have mp: "msg_props ?p = None" by simp
    note E = D [unfolded Ok x at_state_simps prod.case mp P]
    show thesis
    proof (cases "int (v + (k + unat pl)) + int hl \<le> L")
      case False
      then have "r = Err OUT_OF_BUFFER" "H' = H" "p' = ?p" using E by auto
      then show thesis by (intro error) auto
    next
      case room: True
      note F = E [unfolded if_P [OF room]]
      show thesis
      proof (cases rule: dec_props_opt_cases [OF H L(1) le V(7) P, case_names bad good])
        case (bad e)
        then show thesis using F by (intro error) auto
      next
        case (good tvs)
        have pb: "length (props_block tvs) = k + unat pl" "blk m ?q (k + unat pl) = props_block tvs"
          using good(2,5) V(1,2) by (simp_all add: props_block_def blk_add add.assoc)
        note al = has_topic_alias_holds [OF good(4)]
        show thesis
        proof (cases "topic_name_len p = 0 \<and> MQTT_PROP_TOPIC_ALIAS \<notin> fst ` set tvs")
          case True
          obtain H2 where "MqttProps_Free H1 h = Ok H2" "released H H2" using holds_free [OF good(4)] .
          then show thesis using F good(1) al True by (intro error [of MALFORMED_DATA]) auto
        next
          case False
          then have "r = Ok (v + (k + unat pl))" "H' = H1" "p' = p\<lparr>msg_props := h\<rparr>"
            using F good(1) al by (auto split: if_splits)
          then show thesis using v5 good pb False room by (intro ok [of "v + (k + unat pl)" h tvs]) (auto simp: add_ac)
        qed
      qed
    qed
  qed (use nf in simp)
qed

lemma dec_publish_payload_cases:
  assumes d: "dec_publish_payload m L hl R v (H1, p) = ((H', p'), r)" and h: "holds H H1 (msg_props p) tvs"
    and L: "rx_ok m L" "int (hl + v) \<le> L" and R: "R \<le> 0x0FFFFFFF"
  obtains (error) "r = Err OUT_OF_BUFFER" "released H H'" "msg_props p' = None" "R < int v"
    | (ok) n where "r = Ok (int hl + R)" "H' = H1" "int v \<le> R" "n = min (nat R - v) (nat L - (hl + v))"
      "p' = p\<lparr>buffer := Some (blk m (hl + v) n), buffer_new := 1, buffer_pos := 0, buffer_len := word_of_nat n,
              total_len := word_of_nat (nat R - v)\<rparr>"
proof (cases "int v > R")
  case True
  obtain H2 where "MqttProps_Free H1 (msg_props p) = Ok H2" "released H H2" using holds_free [OF h] .
  then show thesis using d True by (intro error) (auto simp: dec_publish_payload_def)
next
  case False
  let ?n = "min (nat R - v) (nat L - (hl + v))"
  have e: "R - int v = int (nat R - v)" "L - (int hl + int v) = int (nat L - (hl + v))" using False L(2) by simp_all
  have n: "(if int (nat R - v) > int (nat L - (hl + v)) then int (nat L - (hl + v)) else int (nat R - v)) = int ?n" by simp
  have "r = Ok (int hl + int v + int (nat R - v))" "H' = H1"
    "p' = p\<lparr>buffer := Some (blk m (hl + v) ?n), buffer_new := 1, buffer_pos := 0, buffer_len := word_of_nat ?n,
            total_len := word_of_nat (nat R - v)\<rparr>"
    using d [unfolded dec_publish_payload_def prod.case Let_def if_not_P [OF False] e n]
    by (simp_all only: prod.inject nat_int of_int_of_nat_eq)
  moreover have "int hl + int v + int (nat R - v) = int hl + R" using False by simp
  ultimately show thesis using False by (intro ok [OF _ _ _ refl]) simp_all
qed

text \<open>What the decoder returns: an error with the store as it was, or the fields of the packet in the buffer.\<close>

definition publish_read :: "mem \<Rightarrow> int \<Rightarrow> store \<Rightarrow> byte \<Rightarrow> store \<Rightarrow> MqttMessage \<Rightarrow> int \<Rightarrow> bool" where
  "publish_read m L H level H' p' ret \<longleftrightarrow>
     (\<exists>topic tvs R. let hdr = publish_hdr level (qos p') (packet_id p') topic tvs;
        fx = type_flags 3 (retain p') (qos_code (qos p')) (duplicate p') # vbi_bytes R;
        n = min (R - length hdr) (nat L - (length fx + length hdr)) in
      topic_name p' = Some topic \<and> topic_name_len p' = word_of_nat (length topic) \<and> msg_type p' = 3 \<and>
      publish_ok level (qos p') (duplicate p') (packet_id p') topic tvs \<and> holds H H' (msg_props p') tvs \<and>
      R \<le> 0x0FFFFFFF \<and> length hdr \<le> R \<and> int (length fx + length hdr) \<le> L \<and>
      blk m 0 (length fx + length hdr) = fx @ hdr \<and>
      buffer p' = Some (blk m (length fx + length hdr) n) \<and> buffer_len p' = word_of_nat n \<and>
      buffer_pos p' = 0 \<and> total_len p' = word_of_nat (R - length hdr) \<and> ret = int (length fx + R))"

lemma MqttDecode_Publish_cases:
  assumes L: "rx_ok m L" and H: "live_list H None []"
    and d: "MqttDecode_Publish H (Some m) L (Some p) = ((H', p0), r)"
  obtains (error) e p' where "r = Err e" "p0 = Some p'" "released H H'" "msg_props p' = None \<or> msg_props p' = msg_props p"
    | (ok) p' ret where "r = Ok ret" "p0 = Some p'" "publish_read m L H (msg_level p) H' p' ret"
proof (cases "L \<le> 0")
  case True
  then show thesis using d by (intro error) (auto simp: MqttDecode_Publish_def)
next
  case pos: False
  define p1 where "p1 = p\<lparr>msg_type := 3\<rparr>"
  have L32: "L < 2 ^ 32" "L \<le> int (length m)" using L by (simp_all add: rx_ok_def)
  note nf = MqttDecode_FixedHeader_no_fault [OF L32(2,1), of 3]
  note D = d [unfolded MqttDecode_Publish_def prod.case option.case if_not_P [OF pos] Let_def, folded p1_def]
  show thesis
  proof (cases "MqttDecode_FixedHeader m L 3")
    case (Err e)
    then show thesis using D by (intro error [of e p1]) (auto simp: p1_def)
  next
    case (Ok h)
    from MqttDecode_FixedHeader_sound [OF Ok L32(1)] obtain tf R where h: "h = header_of tf R"
      "blk m 0 (fh_header_len h) = tf # vbi_bytes R" "int (fh_header_len h) \<le> L" "R \<le> 0x0FFFFFFF"
      "MQTT_PACKET_TYPE_GET tf = 3" "MqttPacket_FixedHeaderFlagsValid tf" .
    define hl where "hl = fh_header_len h"
    define p2 where "p2 = p1\<lparr>qos := fh_qos h, retain := fh_retain h, duplicate := fh_duplicate h\<rparr>"
    have hle: "int hl \<le> L" using h(3) by (simp add: hl_def)
    obtain s1 r1 where T: "dec_publish_topic m L hl (H, p2) = (s1, r1)" by fastforce
    note nt = dec_publish_topic_no_fault [OF L hle, of H p2, unfolded T]
    note D2 = D [unfolded Ok at_state_simps, folded hl_def p2_def, unfolded T]
    show thesis
    proof (cases r1)
      case (Err e)
      with nt obtain p' where "s1 = (H, p')" "msg_props p' = msg_props p2" by auto
      then show thesis using D2 Err by (intro error [of e p']) (auto simp: p2_def p1_def)
    next
      case v: (Ok v)
      obtain H1 p3 where s1: "s1 = (H1, p3)" by fastforce
      from dec_publish_topic_sound [OF T [unfolded v s1] L hle] obtain s pid where t: "H1 = H"
        "p3 = (if qos p2 = MQTT_QOS_0 then p2\<lparr>topic_name := Some s, topic_name_len := word_of_nat (length s)\<rparr>
               else p2\<lparr>topic_name := Some s, topic_name_len := word_of_nat (length s), packet_id := pid\<rparr>)"
        "utf8_str s" "no_wildcard s" "s = [] \<longrightarrow> msg_level p2 \<ge> 5" "qos p2 \<noteq> MQTT_QOS_0 \<longrightarrow> pid \<noteq> 0"
        "v = length (str_bytes s @ (if qos p2 = MQTT_QOS_0 then [] else num_bytes pid))"
        "blk m hl v = str_bytes s @ (if qos p2 = MQTT_QOS_0 then [] else num_bytes pid)" "int (hl + v) \<le> L" .
      obtain H2 p4 r2 where P: "dec_publish_props m L hl v (H, p3) = ((H2, p4), r2)" by (metis prod_cases3 prod.collapse)
      note D3 = D2 [unfolded v s1 t(1) then_state_simps P]
      show thesis
      proof (cases rule: dec_publish_props_cases [OF P H L t(9), case_names bad good])
        case (bad e)
        then show thesis using D3 by (intro error [of e p4]) auto
      next
        case (good hp tvs v')
        obtain H3 p5 r3 where Y: "dec_publish_payload m L hl (fh_remain_len h) v' (H2, p4) = ((H3, p5), r3)"
          by (metis prod_cases3 prod.collapse)
        have e: "H' = H3" "p0 = Some p5" "r = r3" using D3 [unfolded good(1) then_state_simps Y] by auto
        have mp: "holds H H2 (msg_props p4) tvs" using good by simp
        have R: "fh_remain_len h = int R" "fh_remain_len h \<le> 0x0FFFFFFF" using h by simp_all
        show thesis
        proof (cases rule: dec_publish_payload_cases [OF Y mp L good(4) R(2), case_names bad' good'])
          case bad'
          then show thesis using e by (intro error) auto
        next
          case (good' n)
          let ?p = p5
          have f: "qos p5 = fh_qos h" "retain p5 = fh_retain h" "duplicate p5 = fh_duplicate h" "msg_level p2 = msg_level p"
            "qos p2 = fh_qos h" "topic_name p5 = Some s" "topic_name_len p5 = word_of_nat (length s)" "msg_type p5 = 3"
            "msg_props p5 = hp" "qos p2 \<noteq> MQTT_QOS_0 \<longrightarrow> packet_id p5 = pid" "msg_level p3 = msg_level p"
            "topic_name_len p3 = word_of_nat (length s)"
            unfolding good'(5) good(2) t(2) p2_def p1_def by simp_all
          note hp = header_publish [OF h(5,6), of R, folded h(1)]
          define hdr where "hdr = publish_hdr (msg_level p) (qos p5) (packet_id p5) s tvs"
          have tb: "str_bytes s @ (if qos p2 = MQTT_QOS_0 then [] else num_bytes pid) =
              str_bytes s @ (if qos p5 > MQTT_QOS_0 then num_bytes (packet_id p5) else [])"
            using f by (simp add: qos_gt_0)
          have tl: "v = length (str_bytes s @ (if qos p5 > MQTT_QOS_0 then num_bytes (packet_id p5) else []))"
            using t(7) unfolding tb .
          have ok: "publish_ok (msg_level p) (qos p5) (duplicate p5) (packet_id p5) s tvs"
            using hp t(3-6) f good(5) word16_len_0 [of s] unfolding publish_ok_def
            by (auto simp: utf8_str_def split: if_splits)
          define X where "X = (if msg_level p \<ge> 5 then props_block tvs else [])"
          have hX: "hdr = (str_bytes s @ (if qos p5 > MQTT_QOS_0 then num_bytes (packet_id p5) else [])) @ X"
            by (simp add: hdr_def publish_hdr_def X_def)
          have vX: "v' = v + length X" "blk m (hl + v) (length X) = X"
            using good(5) f(11) by (auto simp: X_def split: if_splits)
          have lh: "v' = length hdr" "blk m hl v' = hdr"
            unfolding hX vX(1) blk_add t(8) [unfolded tb] vX(2) by (simp_all only: tl length_append)
          have fx: "type_flags 3 (retain p5) (qos_code (qos p5)) (duplicate p5) # vbi_bytes R = tf # vbi_bytes R"
            using hp(1) f by simp
          have hl: "hl = length (tf # vbi_bytes R)" by (simp add: hl_def h(1))
          have "publish_read m L H (msg_level p) H' p5 (int hl + int R)"
            unfolding publish_read_def
            by (rule exI [of _ s], rule exI [of _ tvs], rule exI [of _ R], unfold Let_def hdr_def [symmetric] fx hl [symmetric])
              (use f ok mp good'(2-5) lh good(4) h(2,4) R e in
                \<open>simp add: good(2) hl_def [symmetric] blk_add [of m 0 hl] add.commute\<close>)
          then show thesis using that(2) [of "int hl + int R" p5] good'(1) e R by simp
        qed
      qed
    qed (use nt in auto)
  qed (use nf in simp)
qed

text \<open>The decoder accepts every packet of the standard.\<close>

lemma dec_publish_topic_complete:
  assumes bs: "blk m hl (length (str_bytes s @ ids)) = str_bytes s @ ids"
    and ids: "ids = (if qos p = MQTT_QOS_0 then [] else num_bytes pid)"
    and ok: "utf8_str s" "no_wildcard s" "s = [] \<longrightarrow> msg_level p \<ge> 5" "qos p \<noteq> MQTT_QOS_0 \<longrightarrow> pid \<noteq> 0"
    and L: "rx_ok m L" "int (hl + length (str_bytes s @ ids)) \<le> L"
  shows "dec_publish_topic m L hl (H, p) =
    ((H, if qos p = MQTT_QOS_0 then p\<lparr>topic_name := Some s, topic_name_len := word_of_nat (length s)\<rparr>
         else p\<lparr>topic_name := Some s, topic_name_len := word_of_nat (length s), packet_id := pid\<rparr>),
     Ok (length (str_bytes s @ ids)))"
proof -
  define k where "k = length (str_bytes s)"
  have le: "int hl \<le> L" "int (hl + k) \<le> L" "hl + length (str_bytes s @ ids) \<le> length m" "hl + k \<le> length m"
    using L by (auto simp: rx_ok_def k_def)
  note b2 = blk_append_split [OF bs le(3), folded k_def]
  have s: "MqttDecode_String m hl (nat L - hl) = Ok (s, k)"
    using MqttDecode_String_complete [of m hl s "nat L - hl"] ok(1) L le b2 by (simp add: utf8_str_def k_def add.assoc)
  have u: "unat (word_of_nat (length s) :: word16) = length s" using ok(1) by (simp add: utf8_str_def unat_word16_of_nat)
  have nm: "MqttPacket_TopicNameValid (Some s) (length s) (msg_level p) = Ok True"
    using ok by (auto simp: topic_name_valid_eq)
  have la: "length (str_bytes s @ ids) = k + length ids" by (simp add: k_def)
  have f: "(L < int k + int hl) = False" using le(2) by simp
  show ?thesis
  proof (cases "qos p = MQTT_QOS_0")
    case True
    then show ?thesis using ids unfolding la
      by (simp add: dec_publish_topic_def rx_left_eq [OF L(1) le(1)] s Let_def qos_gt_0 u nm f)
  next
    case False
    then have i: "ids = num_bytes pid" "int (hl + k) + 2 \<le> L" using ids L(2) la by auto
    then have n: "MqttDecode_Num m (hl + k) (nat L - (hl + k)) = Ok (pid, 2)"
      using b2 le L by (intro MqttDecode_Num_complete) (auto simp: rx_ok_def)
    show ?thesis using False ok(4) i unfolding la
      by (simp add: dec_publish_topic_def rx_left_eq [OF L(1) le(1)] s Let_def qos_gt_0 u nm f rx_left_eq [OF L(1) le(2)] n)
  qed
qed

lemma dec_publish_props_complete:
  assumes L: "rx_ok m L" "int (hl + v + length X) \<le> L" and H: "live_list H None []"
    and X: "X = (if msg_level p \<ge> 5 then props_block tvs else [])" "blk m (hl + v) (length X) = X"
    and ok: "msg_level p \<ge> 5 \<longrightarrow> props_ok 3 tvs \<and> (topic_name_len p = 0 \<longrightarrow> MQTT_PROP_TOPIC_ALIAS \<in> fst ` set tvs) \<and>
        length tvs \<le> card (free_cells H)"
    and "\<not> msg_level p \<ge> 5 \<longrightarrow> tvs = []"
  shows "\<exists>H' h. dec_publish_props m L hl v (H, p) = ((H', p\<lparr>msg_props := h\<rparr>), Ok (v + length X)) \<and> holds H H' h tvs"
proof (cases "msg_level p \<ge> 5")
  case False
  then have e: "X = []" "tvs = []" using X(1) assms(7) by simp_all
  have "dec_publish_props m L hl v (H, p) = ((H, p\<lparr>msg_props := None\<rparr>), Ok v)"
    using False by (simp add: dec_publish_props_def)
  then show ?thesis using H e by auto
next
  case True
  let ?n = "length (props_bytes tvs)" let ?k = "length (vbi_bytes ?n)" let ?q = "hl + v"
  have o: "props_ok 3 tvs" "topic_name_len p = 0 \<longrightarrow> MQTT_PROP_TOPIC_ALIAS \<in> fst ` set tvs" "length tvs \<le> card (free_cells H)"
    using ok True by auto
  have n: "?n \<le> 3932250" by (rule props_bytes_bound [OF o(1)])
  have lX: "length X = ?k + ?n" "X = vbi_bytes ?n @ props_bytes tvs" using X(1) True by (simp_all add: props_block_def)
  have le: "int ?q \<le> L" "int (?q + ?k) \<le> L" "int (?q + ?k + ?n) \<le> L" "?q + (?k + ?n) \<le> length m" "?q + ?k \<le> length m"
    using L lX by (auto simp: rx_ok_def)
  have bs: "blk m ?q ?k = vbi_bytes ?n" "blk m (?q + ?k) ?n = props_bytes tvs"
    using X(2) blk_append_split [of m ?q "vbi_bytes ?n" "props_bytes tvs"] le(4) lX by simp_all
  have v: "MqttDecode_Vbi m ?q (nat L - ?q) = Ok (word_of_nat ?n, ?k)"
    using bs(1) le n by (intro MqttDecode_Vbi_complete) auto
  have u: "unat (word_of_nat ?n :: word32) = ?n" using n by (intro unat_word32_of_nat) simp
  obtain H' h where d: "dec_props_opt 3 H None m L (?q + ?k) (word_of_nat ?n) = (H', h, Ok ?n)" "holds H H' h tvs"
    using dec_props_opt_complete [OF H L(1) le(3) o(1) auth_ok_publish [OF o(1)] o(3) bs(2)] by blast
  have f: "(L < int ?q) = False" "(int (v + (?k + ?n)) + int hl \<le> L) = True" using le by auto
  have al: "topic_name_len p = 0 \<Longrightarrow> has_topic_alias H' h = Ok True" using has_topic_alias_holds [OF d(2)] o(2) by simp
  have "dec_publish_props m L hl v (H, p) = ((H', p\<lparr>msg_props := h\<rparr>), Ok (v + (?k + ?n)))"
    unfolding dec_publish_props_def prod.case Let_def
    using True f al by (simp add: rx_left_eq [OF L(1) le(1)] v u d(1) del: of_nat_add)
  then have "dec_publish_props m L hl v (H, p) = ((H', p\<lparr>msg_props := h\<rparr>), Ok (v + length X))" by (simp only: lX(1))
  with d(2) show ?thesis by blast
qed

lemma publish_hdr_split:
  "publish_hdr level q pid topic tvs = (str_bytes topic @ (if q = MQTT_QOS_0 then [] else num_bytes pid)) @
     (if level \<ge> 5 then props_block tvs else [])"
  by (simp add: publish_hdr_def qos_gt_0)

lemma MqttDecode_Publish_complete:
  fixes tvs :: "(nat \<times> prop_value) list" and r :: byte
  assumes L: "rx_ok m L" and H: "live_list H None []" "length tvs \<le> card (free_cells H)"
    and ok: "publish_ok (msg_level p) q d pid topic tvs" "\<not> msg_level p \<ge> 5 \<longrightarrow> tvs = []"
    and R: "R = length (publish_hdr (msg_level p) q pid topic tvs) + n" "R \<le> 0x0FFFFFFF"
  defines "hdr \<equiv> publish_hdr (msg_level p) q pid topic tvs"
  defines "fx \<equiv> type_flags 3 r (qos_code q) d # vbi_bytes R"
  assumes bs: "blk m 0 (length (fx @ hdr)) = fx @ hdr" "int (length (fx @ hdr)) \<le> L"
  shows "\<exists>H' p'. MqttDecode_Publish H (Some m) L (Some p) = ((H', Some p'), Ok (int (length fx + R))) \<and>
    holds H H' (msg_props p') tvs \<and> topic_name p' = Some topic \<and> topic_name_len p' = word_of_nat (length topic) \<and>
    qos p' = q \<and> retain p' = of_bool (r \<noteq> 0) \<and> duplicate p' = of_bool (d \<noteq> 0) \<and> (q \<noteq> MQTT_QOS_0 \<longrightarrow> packet_id p' = pid) \<and>
    total_len p' = word_of_nat n \<and> buffer p' = Some (blk m (length (fx @ hdr)) (min n (nat L - length (fx @ hdr))))"
proof -
  let ?A = "str_bytes topic @ (if q = MQTT_QOS_0 then [] else num_bytes pid)"
  let ?X = "if msg_level p \<ge> 5 then props_block tvs else []"
  define hl where "hl = length fx"
  define h where "h = header_of (type_flags 3 r (qos_code q) d) R"
  have hh: "fh_header_len h = hl" "fh_remain_len h = int R" "fh_qos h = q" "fh_retain h = of_bool (r \<noteq> 0)" "fh_duplicate h = of_bool (d \<noteq> 0)"
    by (simp_all add: h_def hl_def fx_def header_of_flags)
  have hA: "hdr = ?A @ ?X" unfolding hdr_def by (rule publish_hdr_split)
  have le: "length (fx @ hdr) \<le> length m" "int hl \<le> L" "0 < L" "int (hl + length ?A) \<le> L" "int (hl + length ?A + length ?X) \<le> L"
    using bs(2) L by (auto simp: rx_ok_def hA hl_def fx_def)
  have b1: "blk m 0 hl = fx" "blk m hl (length hdr) = hdr"
    using blk_append_split [OF bs(1)] le(1) by (simp_all add: hl_def)
  have b2: "blk m hl (length ?A) = ?A" "blk m (hl + length ?A) (length ?X) = ?X"
    using blk_append_split [of m hl ?A ?X] b1(2) le(1) unfolding hA by (simp_all add: hl_def)
  have q3: "qos_code q < 3" "d \<noteq> 0 \<longrightarrow> qos_code q \<noteq> 0"
    using ok(1) by (cases q; simp add: publish_ok_def word_less_nat_alt)+
  have fh: "MqttDecode_FixedHeader m L 3 = Ok h"
    unfolding h_def
    using b1(1) le L R(2) q3 type_flags_get(1) [of 3 "qos_code q" r d] type_flags_valid [of 3 "qos_code q" r d]
    by (intro MqttDecode_FixedHeader_complete) (auto simp: fx_def hl_def rx_ok_def)
  define p2 where "p2 = p\<lparr>msg_type := 3, qos := q, retain := of_bool (r \<noteq> 0), duplicate := of_bool (d \<noteq> 0)\<rparr>"
  let ?p3 = "if q = MQTT_QOS_0 then p2\<lparr>topic_name := Some topic, topic_name_len := word_of_nat (length topic)\<rparr>
         else p2\<lparr>topic_name := Some topic, topic_name_len := word_of_nat (length topic), packet_id := pid\<rparr>"
  have p2: "qos p2 = q" "msg_level p2 = msg_level p" by (simp_all add: p2_def)
  have T: "dec_publish_topic m L hl (H, p2) = ((H, ?p3), Ok (length ?A))"
  proof -
    have "topic = [] \<longrightarrow> msg_level p2 \<ge> 5" "utf8_str topic" "no_wildcard topic" "qos p2 \<noteq> MQTT_QOS_0 \<longrightarrow> pid \<noteq> 0"
      using ok(1) p2 by (auto simp: publish_ok_def split: if_splits)
    then show ?thesis
      using dec_publish_topic_complete [OF b2(1) _ _ _ _ _ L le(4), of p2 pid H] p2 by (simp only:)
  qed
  have p3: "msg_level ?p3 = msg_level p" "topic_name_len ?p3 = word_of_nat (length topic)" using p2 by auto
  obtain H' hp where P: "dec_publish_props m L hl (length ?A) (H, ?p3) = ((H', ?p3\<lparr>msg_props := hp\<rparr>), Ok (length ?A + length ?X))"
    "holds H H' hp tvs"
  proof -
    have "length topic \<le> 65535" using ok(1) by (simp add: publish_ok_def utf8_str_def)
    then have a: "msg_level ?p3 \<ge> 5 \<longrightarrow> props_ok 3 tvs \<and> (topic_name_len ?p3 = 0 \<longrightarrow> MQTT_PROP_TOPIC_ALIAS \<in> fst ` set tvs) \<and>
        length tvs \<le> card (free_cells H)"
      unfolding p3 word16_len_0 [OF \<open>length topic \<le> 65535\<close>] using ok(1) H(2) by (simp add: publish_ok_def)
    have e: "?X = (if msg_level ?p3 \<ge> 5 then props_block tvs else [])" unfolding p3 by (rule refl)
    have n: "\<not> msg_level ?p3 \<ge> 5 \<longrightarrow> tvs = []" unfolding p3 by (rule ok(2))
    from dec_publish_props_complete [OF L le(5) H(1) e b2(2) a n] that show thesis by blast
  qed
  have lv: "length ?A + length ?X = length hdr" using hA by simp
  define p4 where "p4 = ?p3\<lparr>msg_props := hp\<rparr>"
  obtain H3 p5 r3 where Y: "dec_publish_payload m L hl (int R) (length hdr) (H', p4) = ((H3, p5), r3)"
    by (metis prod_cases3 prod.collapse)
  have mp: "holds H H' (msg_props p4) tvs" using P(2) by (simp add: p4_def)
  have le2: "int (hl + length hdr) \<le> L" "int R \<le> 0x0FFFFFFF" using le(5) lv R(2) by simp_all
  have D: "MqttDecode_Publish H (Some m) L (Some p) = ((H3, Some p5), r3)"
    using le(3)
    by (simp only: MqttDecode_Publish_def prod.case option.case Let_def fh hh at_state_simps then_state_simps p2_def [symmetric]
        T P(1) lv p4_def [symmetric] Y not_le [symmetric] if_False if_True simp_thms)
  show ?thesis
  proof (cases rule: dec_publish_payload_cases [OF Y mp L le2, case_names bad good])
    case bad
    then show ?thesis using R(1) by (simp add: hdr_def)
  next
    case (good n')
    have nn: "nat (int R) - length hdr = n" using R(1) by (simp add: hdr_def)
    have l: "length (fx @ hdr) = hl + length hdr" by (simp add: hl_def)
    have f: "topic_name p5 = Some topic" "topic_name_len p5 = word_of_nat (length topic)" "qos p5 = q" "retain p5 = of_bool (r \<noteq> 0)"
      "duplicate p5 = of_bool (d \<noteq> 0)" "q \<noteq> MQTT_QOS_0 \<longrightarrow> packet_id p5 = pid" "total_len p5 = word_of_nat n"
      "buffer p5 = Some (blk m (length (fx @ hdr)) (min n (nat L - length (fx @ hdr))))" "msg_props p5 = msg_props p4"
      unfolding good(5) good(4) nn l by (cases "q = MQTT_QOS_0"; simp add: p4_def p2_def)+
    show ?thesis
    proof (intro exI conjI)
      show "MqttDecode_Publish H (Some m) L (Some p) = ((H', Some p5), Ok (int (length fx + R)))"
        unfolding D good(1,2) by (simp add: hl_def)
      show "holds H H' (msg_props p5) tvs" unfolding f(9) by (rule mp)
    qed (use f(1-8) in simp_all)
  qed
qed

section \<open>Properties of PUBLISH\<close>

text \<open>C21: the first call of \<^verbatim>\<open>MqttEncode_Publish\<close> for a message within the rules writes the fixed header with
  the whole Remaining Length, topic, packet identifier and properties, and as much of the payload as
  the caller has and the buffer holds, and returns the number of bytes written.\<close>

theorem publish_encode_wire:
  fixes p :: MqttMessage
  assumes t: "topic_name p = Some t" and c: "chain H (msg_props p) is" "\<forall>i \<in> set is. prop_wf (H ! i)"
    and ok: "publish_ok (msg_level p) (qos p) (duplicate p) (packet_id p) (cstr_bytes t) (props_val H is)"
    and src: "publish_src_ok p" and cb: "use_cb \<noteq> 1"
    and tx: "tx_buf_len \<le> int (length m)" "tx_buf_len < 2147483648"
    and hdr: "hdr = publish_hdr (msg_level p) (qos p) (packet_id p) (cstr_bytes t) (props_val H is)"
    and fx: "fx = type_flags 3 (retain p) (qos_code (qos p)) (duplicate p) # vbi_bytes (length hdr + payload_total p)"
    and fit: "5 \<le> tx_buf_len" "length hdr + payload_total p \<le> 0x0FFFFFFF" "int (length fx + length hdr) \<le> tx_buf_len"
    and n: "n = min (payload_have p) (nat tx_buf_len - (length fx + length hdr))"
  shows "\<exists>p'. MqttEncode_Publish H (Some m) tx_buf_len (Some p) use_cb =
     Ok (splice_at m 0 (fx @ hdr @ (case buffer p of None \<Rightarrow> [] | Some b \<Rightarrow> take n b)), p', int (length fx + length hdr + n)) \<and>
     (0 < payload_total p \<longrightarrow> buffer_pos p' = word_of_nat n)"
  using MqttEncode_Publish_ok [OF t c ok src cb tx fit(1), folded hdr, folded fx, OF fit(2,3)]
  unfolding n by (simp add: Let_def)

definition hello_msg :: MqttMessage where
  "hello_msg = \<lparr>packet_id = 7, msg_type = 0, qos = MQTT_QOS_1, retain = 1, duplicate = 0,
     topic_name = Some [0x61, 0], topic_name_len = 0, total_len = 2, buffer = Some [0x68, 0x69], buffer_len = 0,
     buffer_pos = 0, buffer_new = 0, intBuf_len = 0, intBuf_pos = 0, msg_props = None, msg_level = 5\<rparr>"

lemma hello_msg_facts:
  "topic_name hello_msg = Some [0x61, 0]" "msg_props hello_msg = None" "qos hello_msg = MQTT_QOS_1" "duplicate hello_msg = 0"
  "retain hello_msg = 1" "msg_level hello_msg = 5" "packet_id hello_msg = 7" "buffer hello_msg = Some [0x68, 0x69]"
  "payload_total hello_msg = 2" "payload_have hello_msg = 2" "publish_src_ok hello_msg" "cstr_bytes [0x61, 0] = [0x61]"
  "publish_ok 5 MQTT_QOS_1 0 7 [0x61] []" "publish_hdr 5 MQTT_QOS_1 7 [0x61] [] = [0, 1, 0x61, 0, 7, 0]"
  "type_flags 3 1 1 0 = 0x33" "props_val H [] = []"
proof -
  have u: "utf8_ok [0x61]" by code_simp
  show "publish_ok 5 MQTT_QOS_1 0 7 [0x61] []"
    using u by (simp add: publish_ok_def utf8_str_def no_wildcard_def props_ok_def)
  show "publish_hdr 5 MQTT_QOS_1 7 [0x61] [] = [0, 1, 0x61, 0, 7, 0]"
    by (simp add: publish_hdr_def str_bytes_def num_bytes_def qos_gt_0 props_block_def props_bytes_def vbi_bytes.simps)
  show "type_flags 3 1 1 0 = 0x33" by code_simp
qed (simp_all add: hello_msg_def payload_total_def payload_have_def publish_src_ok_def cstr_bytes_def props_val_def)

theorem publish_encode_wire_witness:
  "\<exists>p'. MqttEncode_Publish [] (Some [0, 0, 0, 0, 0, 0, 0, 0, 0, 0, 0, 0]) 12 (Some hello_msg) 0 =
     Ok ([0x33, 8, 0, 1, 0x61, 0, 7, 0, 0x68, 0x69, 0, 0], p', 10)"
proof -
  let ?m = "[0, 0, 0, 0, 0, 0, 0, 0, 0, 0, 0, 0] :: byte list"
  have fx: "[0x33, 8] = type_flags 3 (retain hello_msg) (qos_code (qos hello_msg)) (duplicate hello_msg) #
      vbi_bytes (length [0, 1, 0x61, 0, 7, 0 :: byte] + payload_total hello_msg)"
    by (simp add: hello_msg_facts vbi_bytes_small)
  have "\<exists>p'. MqttEncode_Publish [] (Some ?m) 12 (Some hello_msg) 0 =
      Ok (splice_at ?m 0 ([0x33, 8] @ [0, 1, 0x61, 0, 7, 0] @ (case buffer hello_msg of None \<Rightarrow> [] | Some b \<Rightarrow> take 2 b)), p',
          int (length [0x33, 8 :: byte] + length [0, 1, 0x61, 0, 7, 0 :: byte] + 2)) \<and>
      (0 < payload_total hello_msg \<longrightarrow> buffer_pos p' = word_of_nat 2)"
    by (rule publish_encode_wire [OF hello_msg_facts(1) _ _ _ hello_msg_facts(11) _ _ _ _ fx, of "[]" "[]"])
      (simp_all add: hello_msg_facts)
  then show ?thesis by (auto simp: hello_msg_facts splice_at_def)
qed

text \<open>C22: a message that breaks a rule of the protocol is refused by \<^verbatim>\<open>MqttEncode_Publish\<close> with an error:
  QoS 3, a name that is empty without a Topic Alias, has a wildcard or is not UTF-8, packet
  identifier zero with QoS above 0, the duplicate flag with QoS 0, or a property list that is not allowed.\<close>

theorem publish_encode_rejects:
  assumes "topic_name p = Some t" "chain H (msg_props p) is" "\<forall>i \<in> set is. prop_wf (H ! i)"
    and "\<not> publish_ok (msg_level p) (qos p) (duplicate p) (packet_id p) (cstr_bytes t) (props_val H is)"
  shows "\<exists>e. MqttEncode_Publish H (Some m) tx_buf_len (Some p) use_cb = Err e"
  using assms by (rule MqttEncode_Publish_bad)

theorem publish_encode_rejects_witness:
  "\<exists>e. MqttEncode_Publish [] (Some []) 0 (Some (hello_msg\<lparr>packet_id := 0\<rparr>)) 0 = Err e"
proof -
  have "topic_name (hello_msg\<lparr>packet_id := 0\<rparr>) = Some [0x61, 0]" by (simp add: hello_msg_facts)
  from publish_encode_rejects [OF this, of "[]" "[]"] show ?thesis by (simp add: hello_msg_facts publish_ok_def)
qed

text \<open>C14: \<^verbatim>\<open>MqttDecode_Publish\<close> never reads outside the received bytes.  After an error no cell of the
  property pool is lost and none in use is changed; on success the bytes at the start of the buffer
  are the header of the message it returns, the message obeys the rules of the protocol, and the
  payload is the part of the buffer behind the header.\<close>

theorem publish_decode_safe:
  assumes "rx_ok m L" "live_list H None []"
  shows "\<exists>H' p' r. MqttDecode_Publish H (Some m) L (Some p) = ((H', Some p'), r) \<and>
    ((\<exists>e. r = Err e \<and> released H H') \<or> (\<exists>ret. r = Ok ret \<and> publish_read m L H (msg_level p) H' p' ret))"
proof -
  obtain H' p0 r where d: "MqttDecode_Publish H (Some m) L (Some p) = ((H', p0), r)" by (metis prod_cases3 prod.collapse)
  from MqttDecode_Publish_cases [OF assms d] d show ?thesis by metis
qed

theorem publish_decode_safe_witness:
  "\<exists>H' p' r. MqttDecode_Publish (replicate 30 zero_prop) (Some [0x33, 8, 0, 1, 0x61, 0, 7, 0, 0x68, 0x69]) 10 (Some hello_msg) =
     ((H', Some p'), r) \<and> r \<noteq> Fault"
proof -
  have "live_list (replicate 30 zero_prop) None []" by (simp add: live_list_def)
  from publish_decode_safe [OF _ this, of "[0x33, 8, 0, 1, 0x61, 0, 7, 0, 0x68, 0x69]" 10 hello_msg]
  show ?thesis by (auto simp: rx_ok_def)
qed

text \<open>The payload a message sends.\<close>

definition payload_of :: "MqttMessage \<Rightarrow> byte list" where
  "payload_of p = (case buffer p of None \<Rightarrow> [] | Some b \<Rightarrow> take (payload_total p) b)"

lemma payload_of_length: "publish_src_ok p \<Longrightarrow> payload_have p = payload_total p \<Longrightarrow> length (payload_of p) = payload_total p"
  by (auto simp: payload_of_def publish_src_ok_def payload_total_def min_def split: option.splits)

text \<open>C13: a message within the rules whose packet fits the buffer is decoded, from the bytes that
  \<^verbatim>\<open>MqttEncode_Publish\<close> writes, to a message of the same topic, QoS, flags, packet identifier, properties
  and payload, and both calls report the same length.\<close>

theorem publish_round_trip:
  fixes p :: MqttMessage
  assumes t: "topic_name p = Some t" and c: "chain H (msg_props p) is" "\<forall>i \<in> set is. prop_wf (H ! i)"
    and ok: "publish_ok (msg_level p) (qos p) (duplicate p) (packet_id p) (cstr_bytes t) (props_val H is)"
    and src: "publish_src_ok p" "payload_have p = payload_total p" and cb: "use_cb \<noteq> 1"
    and tx: "5 \<le> tx_buf_len" "tx_buf_len \<le> int (length m)" "tx_buf_len < 2147483648"
    and hdr: "hdr = publish_hdr (msg_level p) (qos p) (packet_id p) (cstr_bytes t) (props_val H is)"
    and fit: "length hdr + payload_total p \<le> 0x0FFFFFFF"
      "int (1 + length (vbi_bytes (length hdr + payload_total p)) + length hdr + payload_total p) \<le> tx_buf_len"
    and dst: "live_list D None []" "length is \<le> card (free_cells D)" "msg_level p0 = msg_level p"
  shows "\<exists>m' p' k D' q. MqttEncode_Publish H (Some m) tx_buf_len (Some p) use_cb = Ok (m', p', k) \<and>
    MqttDecode_Publish D (Some m') k (Some p0) = ((D', Some q), Ok k) \<and>
    topic_name q = Some (cstr_bytes t) \<and> qos q = qos p \<and> retain q = of_bool (retain p \<noteq> 0) \<and>
    duplicate q = of_bool (duplicate p \<noteq> 0) \<and> (qos p \<noteq> MQTT_QOS_0 \<longrightarrow> packet_id q = packet_id p) \<and>
    buffer q = Some (payload_of p) \<and> total_len q = word_of_nat (payload_total p) \<and>
    holds D D' (msg_props q) (if msg_level p \<ge> 5 then props_val H is else [])"
proof -
  define tvs where "tvs = (if msg_level p \<ge> 5 then props_val H is else [])"
  define R where "R = length hdr + payload_total p"
  define fx where "fx = type_flags 3 (retain p) (qos_code (qos p)) (duplicate p) # vbi_bytes R"
  define m' where "m' = splice_at m 0 (fx @ hdr @ payload_of p)"
  define k where "k = length fx + length hdr + payload_total p"
  have lp: "length (payload_of p) = payload_total p" using payload_of_length [OF src] .
  have hdr': "hdr = publish_hdr (msg_level p0) (qos p) (packet_id p) (cstr_bytes t) tvs"
    unfolding hdr dst(3) tvs_def by (simp add: publish_hdr_def)
  have ok': "publish_ok (msg_level p0) (qos p) (duplicate p) (packet_id p) (cstr_bytes t) tvs"
    using ok unfolding dst(3) tvs_def by (simp add: publish_ok_def)
  have fit': "int (length fx + length hdr) \<le> tx_buf_len" "int k \<le> tx_buf_len" "k \<le> length m"
    using fit(2) tx(2) by (auto simp: fx_def R_def k_def)
  have n: "payload_total p = min (payload_have p) (nat tx_buf_len - (length fx + length hdr))"
    using fit'(2) src(2) by (auto simp: k_def)
  note E = MqttEncode_Publish_ok [OF t c ok src(1) cb tx(2,3,1), folded hdr, folded R_def, folded fx_def, OF fit(1)[folded R_def] fit'(1),
      unfolded Let_def n [symmetric]]
  then obtain p' where e: "MqttEncode_Publish H (Some m) tx_buf_len (Some p) use_cb =
      Ok (splice_at m 0 (fx @ hdr @ (case buffer p of None \<Rightarrow> [] | Some b \<Rightarrow> take (payload_total p) b)), p',
          int (length fx + length hdr + payload_total p))" by (elim exE conjE)
  have enc: "MqttEncode_Publish H (Some m) tx_buf_len (Some p) use_cb = Ok (m', p', int k)"
    unfolding e m'_def k_def payload_of_def by (rule refl)
  have lm: "length m' = length m" using fit'(3) lp by (simp add: m'_def k_def)
  have whole: "blk m' 0 (length (fx @ hdr @ payload_of p)) = fx @ hdr @ payload_of p"
    unfolding m'_def using fit'(3) lp by (intro blk_splice_at) (simp add: k_def)
  have b: "blk m' 0 (length (fx @ hdr)) = fx @ hdr" "blk m' (length (fx @ hdr)) (payload_total p) = payload_of p"
    using blk_append_split [of m' 0 "fx @ hdr" "payload_of p"] whole lm fit'(3) lp by (simp_all add: k_def)
  have rx: "rx_ok m' (int k)" using fit'(2,3) tx(3) lm by (simp add: rx_ok_def)
  have lt: "length tvs \<le> card (free_cells D)" using dst(2) by (simp add: tvs_def props_val_def)
  have lb: "int (length (fx @ hdr)) \<le> int k" by (simp add: k_def)
  have nolev: "\<not> msg_level p0 \<ge> 5 \<longrightarrow> tvs = []" by (simp add: tvs_def dst(3))
  have mn: "min (payload_total p) (nat (int k) - length (fx @ hdr)) = payload_total p" by (simp add: k_def)
  have kR: "length fx + R = k" by (simp add: k_def R_def)
  from MqttDecode_Publish_complete [OF rx dst(1) lt ok' nolev R_def [unfolded hdr'] fit(1) [folded R_def], of "retain p",
      folded hdr', folded fx_def, OF b(1) lb, unfolded mn b(2) kR]
  show ?thesis unfolding tvs_def [symmetric] using enc by blast
qed

theorem publish_round_trip_witness:
  "\<exists>m' p' k D' q. MqttEncode_Publish [] (Some (replicate 16 0)) 16 (Some hello_msg) 0 = Ok (m', p', k) \<and>
     MqttDecode_Publish (replicate 30 zero_prop) (Some m') k (Some hello_msg) = ((D', Some q), Ok k) \<and>
     topic_name q = Some [0x61] \<and> qos q = MQTT_QOS_1 \<and> packet_id q = 7 \<and> buffer q = Some [0x68, 0x69]"
proof -
  have d: "live_list (replicate 30 zero_prop) None []" by (simp add: live_list_def)
  from publish_round_trip [OF hello_msg_facts(1) _ _ _ hello_msg_facts(11) _ _ _ _ _ refl _ _ d, of "[]" "[]" 0 16 "replicate 16 0" hello_msg]
  show ?thesis by (auto simp: hello_msg_facts vbi_bytes_small payload_of_def)
qed

text \<open>The Remaining Length of a message whose \<^verbatim>\<open>total_len\<close> is 0xFFFFFFFF: the conversion to the signed \<^verbatim>\<open>payload_len\<close>
  makes it minus one, and the packet announces fewer bytes than its own header has.\<close>

lemma publish_total_len_wraps:
  "\<exists>m' p'. MqttEncode_Publish [] (Some [0, 0, 0, 0, 0, 0, 0, 0]) 8
      (Some (hello_msg\<lparr>total_len := 0xFFFFFFFF, qos := MQTT_QOS_0, msg_level := 4\<rparr>)) 1 = Ok (m', p', 5) \<and>
     take 5 m' = [0x31, 2, 0, 1, 0x61]"
proof -
  define p where "p = hello_msg\<lparr>total_len := 0xFFFFFFFF, qos := MQTT_QOS_0, msg_level := 4\<rparr>"
  have f: "topic_name p = Some [0x61, 0]" "msg_props p = None" "qos p = MQTT_QOS_0" "duplicate p = 0" "retain p = 1"
    "msg_level p = 4" "total_len p = 0xFFFFFFFF" "buffer_len p = 0" "buffer p = Some [0x68, 0x69]"
    by (simp_all add: p_def hello_msg_def)
  have ok: "publish_ok (msg_level p) (qos p) (duplicate p) (packet_id p) (cstr_bytes [0x61, 0]) (props_val [] [])"
    using hello_msg_facts(13) by (simp add: f publish_ok_def hello_msg_facts)
  have h: "publish_hdr (msg_level p) (qos p) (packet_id p) (cstr_bytes [0x61, 0]) (props_val [] []) = [0, 1, 0x61]"
    by (simp add: publish_hdr_def f str_bytes_def num_bytes_def qos_gt_0 hello_msg_facts)
  have v: "publish_variable_len [] [0, 0, 0, 0, 0, 0, 0, 0] p = Ok (3, 0)"
    using publish_variable_len_ok [OF f(1) _ _ ok, of "[0, 0, 0, 0, 0, 0, 0, 0]"] unfolding h by (simp add: f numeral_3_eq_3)
  have tf: "type_flags 3 1 0 0 = 0x31" by code_simp
  have fh: "MqttEncode_FixedHeader [0, 0, 0, 0, 0, 0, 0, 0] 8 2 3 1 0 0 = Ok ([0x31, 2, 0, 0, 0, 0, 0, 0], 2)"
    by (simp add: MqttEncode_FixedHeader_eq header_bytes_def tf vbi_bytes_small wr_def splice_at_def)
  have w: "publish_put_header [] p 0 ([0x31, 2, 0, 0, 0, 0, 0, 0], 2) = Ok ([0x31, 2, 0, 1, 0x61, 0, 0, 0], 5)"
    using emitsD [OF publish_put_header_emits [OF f(1) _ _ ok, of 0], of 2 "[0x31, 2, 0, 0, 0, 0, 0, 0]"] unfolding h
    by (simp add: f splice_at_def)
  have "MqttEncode_Publish [] (Some [0, 0, 0, 0, 0, 0, 0, 0]) 8 (Some p) 1 =
    Ok ([0x31, 2, 0, 1, 0x61, 0, 0, 0], p\<lparr>msg_type := 3, intBuf_pos := 0, intBuf_len := 0\<rparr>, 5)"
    by (simp add: MqttEncode_Publish_def qos_gt_2 v f s32_def ck_int_def fh w publish_copy_def)
  then show ?thesis unfolding p_def [symmetric] by simp
qed

end
