(* ===== verification/Packet_Codec.thy ===== *)
theory Packet_Codec
  imports Packet_Common
begin

text \<open>
  The length-prefixed property block as the decoders of \<^verbatim>\<open>src/mqtt_packet.c\<close> read it, and the
  contract between the encoder and the decoder of one packet type: the encoder writes the packet of
  the standard or refuses, the decoder stays inside its buffer, gives back what it took when it
  fails, and reads the packet the encoder writes.  The round trip follows once for all packets.
\<close>

section \<open>Reading a property block\<close>

text \<open>
  \<^verbatim>\<open>MqttDecode_Vbi\<close> for the length, the check of the caller on that length (\<open>bad\<close>, with the error the
  caller returns), and \<^verbatim>\<open>MqttDecode_Props\<close> when the length is not zero; \<open>e\<close> is the end the caller
  bounds the block by.  The result is the read position behind the block.
\<close>

definition dec_block ::
  "(word32 \<Rightarrow> nat \<Rightarrow> mqtt_err option) \<Rightarrow> byte \<Rightarrow> mem \<Rightarrow> int \<Rightarrow> nat \<Rightarrow> store \<Rightarrow> (store \<times> nat option) \<times> nat outcome" where
  "dec_block bad packet m e p H =
     at_state (MqttDecode_Vbi m p (rx_left e p)) (H, None) (\<lambda>(props_len, tmp).
       case bad props_len tmp of
         Some err \<Rightarrow> ((H, None), Err err)
       | None \<Rightarrow>
           (case dec_props_opt packet H None m e (p + tmp) props_len of
              (H1, props1, r) \<Rightarrow> ((H1, props1), bnd r (\<lambda>k. Ok (p + tmp + k)))))"

text \<open>
  A decoder that stores the list of a block in its structure, frees it before it returns an error,
  and works on the structure its caller passed.
\<close>

definition with_props :: "(nat option \<Rightarrow> 's) \<Rightarrow> (store \<times> nat option) \<times> 'a outcome \<Rightarrow> (store \<times> 's) \<times> 'a outcome" where
  "with_props g = (\<lambda>((H, h), r). ((H, g h), r))"

definition fail_free :: "mqtt_err \<Rightarrow> store \<Rightarrow> nat option \<Rightarrow> 's \<Rightarrow> (store \<times> 's) \<times> 'a outcome" where
  "fail_free e H h s = (case MqttProps_Free H h of Ok H2 \<Rightarrow> ((H2, s), Err e) | _ \<Rightarrow> ((H, s), Fault))"

definition some_state :: "(store \<times> 's) \<times> 'a outcome \<Rightarrow> (store \<times> 's option) \<times> 'a outcome" where
  "some_state = (\<lambda>((H, s), r). ((H, Some s), r))"

lemma dec_block_cases:
  assumes H: "live_list H None []" and L: "rx_ok m e" "int p \<le> e"
    and d: "dec_block bad packet m e p H = ((H', h'), r)"
  obtains (error) err where "r = Err err" "h' = None" "released H H'"
    | (ok) tvs where "r = Ok (p + length (props_block tvs))" "holds H H' h' tvs" "props_ok packet tvs" "auth_ok tvs"
      "blk m p (length (props_block tvs)) = props_block tvs" "int (p + length (props_block tvs)) \<le> e"
proof (cases "MqttDecode_Vbi m p (rx_left e p)")
  case Fault
  have "MqttDecode_Vbi m p (rx_left e p) \<noteq> Fault"
    using rx_left_word(3) [OF L] by (intro MqttDecode_Vbi_no_fault) (simp add: rx_left_eq [OF L])
  with Fault show thesis by simp
next
  case (Err err)
  with d show thesis by (intro error [of err]) (auto simp: dec_block_def)
next
  case (Ok x)
  obtain pl k where x: "x = (pl, k)" by fastforce
  note v = MqttDecode_Vbi_sound [OF Ok [unfolded x]]
  have le: "int (p + k) \<le> e" using v(5) L by (simp add: rx_left_eq [OF L])
  show thesis
  proof (cases "bad pl k")
    case (Some err)
    with d Ok x show thesis by (intro error [of err]) (auto simp: dec_block_def)
  next
    case None
    obtain H1 h1 r1 where o: "dec_props_opt packet H None m e (p + k) pl = (H1, h1, r1)" by (metis prod_cases3)
    with d Ok x None have R: "H' = H1" "h' = h1" "r = bnd r1 (\<lambda>j. Ok (p + k + j))" by (auto simp: dec_block_def)
    show thesis
    proof (cases rule: dec_props_opt_cases [OF H L(1) le v(7) o, case_names bad' good])
      case (bad' err)
      with R show thesis by (intro error [of err]) auto
    next
      case (good tvs)
      have pb: "props_block tvs = vbi_bytes (unat pl) @ props_bytes tvs" using good(2) by (simp add: props_block_def)
      have l: "length (props_block tvs) = k + unat pl" using good(2) v(2) by (simp add: props_block_def)
      have "blk m p (length (props_block tvs)) = props_block tvs"
        unfolding l blk_add using v(1) good(5) pb by simp
      with good R l show thesis by (intro ok [of tvs]) (simp_all add: add.assoc)
    qed
  qed
qed

lemma dec_block_complete:
  assumes H: "live_list H None []" "length tvs \<le> card (free_cells H)" and L: "rx_ok m e"
    and bs: "blk m p (length (props_block tvs)) = props_block tvs" "int (p + length (props_block tvs)) \<le> e"
    and ok: "props_ok packet tvs" "auth_ok tvs"
    and bad: "bad (word_of_nat (length (props_bytes tvs))) (length (vbi_bytes (length (props_bytes tvs)))) = None"
  shows "\<exists>H' h'. dec_block bad packet m e p H = ((H', h'), Ok (p + length (props_block tvs))) \<and> holds H H' h' tvs"
proof -
  let ?n = "length (props_bytes tvs)"
  define k where "k = length (vbi_bytes ?n)"
  have l: "length (props_block tvs) = k + ?n" by (simp add: props_block_def k_def)
  have le: "int p \<le> e" "int (p + k) \<le> e" "int (p + k + ?n) \<le> e" using bs(2) l by auto
  have b: "blk m p k = vbi_bytes ?n" "blk m (p + k) ?n = props_bytes tvs"
    using blk_append_split [of m p "vbi_bytes ?n" "props_bytes tvs"] bs(1) le(3) L
    by (simp_all add: props_block_def k_def rx_ok_def)
  have n: "?n \<le> 0x0FFFFFFF" using props_bytes_bound [OF ok(1)] by linarith
  have v: "MqttDecode_Vbi m p (rx_left e p) = Ok (word_of_nat ?n, k)"
    unfolding k_def rx_left_eq [OF L le(1)]
    using b(1) n le(2) L by (intro MqttDecode_Vbi_complete) (auto simp: k_def [symmetric] rx_ok_def)
  from dec_props_opt_complete [OF H(1) L le(3) ok H(2) b(2)] obtain H' h' where
    "dec_props_opt packet H None m e (p + k) (word_of_nat ?n) = (H', h', Ok ?n)" "holds H H' h' tvs" by blast
  then show ?thesis using v bad by (auto simp: dec_block_def k_def [symmetric] l)
qed

text \<open>
  The checks the callers make on the length: against what is left before the length field
  (\<open>le_rest\<close>), against what is left behind it (\<open>le_rest_after\<close>), or none, as \<^verbatim>\<open>MqttDecode_Props\<close> checks again.
\<close>

definition le_rest :: "int \<Rightarrow> nat \<Rightarrow> mqtt_err \<Rightarrow> word32 \<Rightarrow> nat \<Rightarrow> mqtt_err option" where
  "le_rest e p err props_len tmp = (if unat props_len \<le> rx_left e p then None else Some err)"

definition le_rest_after :: "int \<Rightarrow> nat \<Rightarrow> mqtt_err \<Rightarrow> word32 \<Rightarrow> nat \<Rightarrow> mqtt_err option" where
  "le_rest_after e p err props_len tmp = (if unat props_len > rx_left e (p + tmp) then Some err else None)"

definition no_check :: "word32 \<Rightarrow> nat \<Rightarrow> mqtt_err option" where
  "no_check props_len tmp = None"

lemma rest_checks:
  assumes "rx_ok m e" "int (p + length (props_block tvs)) \<le> e" "props_ok packet tvs"
  defines "n \<equiv> length (props_bytes tvs)"
  shows "le_rest e p err (word_of_nat n) (length (vbi_bytes n)) = None"
    "le_rest_after e p err (word_of_nat n) (length (vbi_bytes n)) = None"
    "no_check (word_of_nat n) (length (vbi_bytes n)) = None"
proof -
  define k where "k = length (vbi_bytes n)"
  have l: "length (props_block tvs) = k + n" by (simp add: props_block_def k_def n_def)
  have u: "unat (word_of_nat n :: word32) = n"
    using props_bytes_bound [OF assms(3)] unfolding n_def by (intro unat_word32_of_nat) linarith
  have le: "int p \<le> e" "int (p + k) \<le> e" "int (p + k + n) \<le> e" using assms(2) l by auto
  show "le_rest e p err (word_of_nat n) (length (vbi_bytes n)) = None"
    using le by (auto simp: le_rest_def u rx_left_eq [OF assms(1)])
  show "le_rest_after e p err (word_of_nat n) (length (vbi_bytes n)) = None"
    unfolding k_def [symmetric] using le by (auto simp: le_rest_after_def u rx_left_eq [OF assms(1)])
  show "no_check (word_of_nat n) (length (vbi_bytes n)) = None" by (simp add: no_check_def)
qed

lemma block_at:
  assumes "live_list H None []" "length tvs \<le> card (free_cells H)" "rx_ok m e"
    and "blk m p (length (props_block tvs)) = props_block tvs" "int (p + length (props_block tvs)) \<le> e"
    and "props_ok packet tvs" "auth_ok tvs"
  shows "\<exists>H' h'. dec_block (le_rest e p err) packet m e p H = ((H', h'), Ok (p + length (props_block tvs))) \<and> holds H H' h' tvs"
    "\<exists>H' h'. dec_block (le_rest_after e p err) packet m e p H = ((H', h'), Ok (p + length (props_block tvs))) \<and> holds H H' h' tvs"
    "\<exists>H' h'. dec_block no_check packet m e p H = ((H', h'), Ok (p + length (props_block tvs))) \<and> holds H H' h' tvs"
  by (rule dec_block_complete [OF assms], rule rest_checks [OF assms(3,5,6)])+

text \<open>What a caller hands to an encoder: a list in the store whose cells are well formed, and its value.\<close>

fun walk :: "nat \<Rightarrow> store \<Rightarrow> nat option \<Rightarrow> nat list" where
  "walk 0 H h = []"
| "walk (Suc n) H h = (case h of None \<Rightarrow> [] | Some i \<Rightarrow> i # walk n H (next (H ! i)))"

definition prop_list :: "store \<Rightarrow> nat option \<Rightarrow> (nat \<times> prop_value) list" where
  "prop_list H h = props_val H (walk (length H) H h)"

definition props_src :: "store \<Rightarrow> nat option \<Rightarrow> bool" where
  "props_src H h \<longleftrightarrow> (\<exists>is. chain H h is \<and> (\<forall>i \<in> set is. prop_wf (H ! i)))"

lemma walk_chain: "chain H h is \<Longrightarrow> length is \<le> n \<Longrightarrow> walk n H h = is"
proof (induction "is" arbitrary: n h)
  case Nil
  then show ?case by (cases n) simp_all
next
  case (Cons i "is")
  then show ?case by (cases n) simp_all
qed

lemma props_srcE:
  assumes "props_src H h"
  obtains "is" where "chain H h is" "\<forall>i \<in> set is. prop_wf (H ! i)" "prop_list H h = props_val H is"
  using assms walk_chain chain_length by (fastforce simp: props_src_def prop_list_def)

lemma prop_list_None [simp]: "prop_list H None = []" "props_src H None"
proof -
  show "props_src H None" unfolding props_src_def by (intro exI [of _ "[]"]) simp
  show "prop_list H None = []" using walk_chain [of H None "[]"] by (simp add: prop_list_def props_val_def)
qed

lemma prop_list_Nil: "props_src H h \<Longrightarrow> prop_list H h = [] \<longleftrightarrow> h = None"
  by (elim props_srcE) (metis chain.elims(2) list.map_disc_iff list.simps(3) option.distinct(1) props_val_def prop_list_None(1))

lemma props_len_pass_list:
  assumes "props_src H h"
  shows "props_len_pass packet H h m = (if props_ok packet (prop_list H h)
    then Ok (length (props_bytes (prop_list H h)), length (vbi_bytes (length (props_bytes (prop_list H h))))) else Err PROPERTY)"
  using assms by (elim props_srcE) (simp add: props_len_pass_ok props_len_pass_bad)

lemma emits_prop_list [emits_intros]:
  "props_src H h \<Longrightarrow> props_ok packet (prop_list H h) \<Longrightarrow> n = length (props_bytes (prop_list H h)) \<Longrightarrow>
   emits (put_props packet H h n) (props_block (prop_list H h))"
  by (elim props_srcE) (auto intro: emits_props)

lemma find_prop_list: "props_src H h \<Longrightarrow> find_prop (length H) H h t = Ok (t \<in> fst ` set (prop_list H h))"
  by (elim props_srcE) (simp add: find_prop_chain chain_length)

text \<open>Only CONNECT, CONNACK and AUTH carry Authentication Data.\<close>

lemma auth_ok_other:
  assumes "packet \<in> {3, 4, 5, 6, 7, 8, 9, 10, 11, 14}" "props_ok packet tvs"
  shows "auth_ok tvs"
proof -
  have "\<not> prop_allowed packet 22"
    using assms(1) by (auto simp: prop_allowed_def gPropMatrix_def packet_mask_def)
  then show ?thesis using assms(2) by (auto simp: props_ok_def prop_ok_def auth_ok_def)
qed

lemma props_block_bound: "props_ok packet tvs \<Longrightarrow> length (props_block tvs) \<le> 3932254"
  using props_bytes_bound [of packet tvs] vbi_bytes_length_4 [of "length (props_bytes tvs)"] by (simp add: props_block_def)

section \<open>Postconditions of decoder steps\<close>

text \<open>
  \<open>post E Q\<close>: the step does not fault, an error leaves a state that satisfies \<open>E\<close>, and success one that
  satisfies \<open>Q\<close> together with the result.
\<close>

definition post :: "('s \<Rightarrow> bool) \<Rightarrow> ('s \<Rightarrow> 'a \<Rightarrow> bool) \<Rightarrow> 's \<times> 'a outcome \<Rightarrow> bool" where
  "post E Q sr = (case snd sr of Fault \<Rightarrow> False | Err e \<Rightarrow> E (fst sr) | Ok x \<Rightarrow> Q (fst sr) x)"

lemma post_simps [simp]:
  "post E Q (s, Ok x) = Q s x" "post E Q (s, Err e) = E s" "post E Q (s, Fault) = False"
  by (simp_all add: post_def)

lemma postE:
  assumes "post E Q (s, r)"
  obtains (error) e where "r = Err e" "E s" | (ok) x where "r = Ok x" "Q s x"
  using assms by (cases r) auto

lemma post_weaken: "post E Q sr \<Longrightarrow> (\<And>s. E s \<Longrightarrow> E' s) \<Longrightarrow> (\<And>s x. Q s x \<Longrightarrow> Q' s x) \<Longrightarrow> post E' Q' sr"
  by (cases sr; cases "snd sr") auto

lemma post_at_state:
  "r \<noteq> Fault \<Longrightarrow> ((\<exists>e. r = Err e) \<Longrightarrow> E s) \<Longrightarrow> (\<And>x. r = Ok x \<Longrightarrow> post E Q (f x)) \<Longrightarrow> post E Q (at_state r s f)"
  by (cases r) auto

lemma post_then_state:
  "post E R sr \<Longrightarrow> (\<And>s x. R s x \<Longrightarrow> post E Q (f s x)) \<Longrightarrow> post E Q (then_state sr f)"
  by (cases sr; cases "snd sr") auto

lemma post_if: "(c \<Longrightarrow> post E Q a) \<Longrightarrow> (\<not> c \<Longrightarrow> post E Q b) \<Longrightarrow> post E Q (if c then a else b)"
  by simp

lemma post_header:
  assumes L: "rx_ok m L" and E: "E s"
    and f: "\<And>h tf n. \<lbrakk>h = header_of tf n; fh_remain_len h = int n; int (fh_header_len h) \<le> L; n \<le> 0x0FFFFFFF;
      fh_header_len h = 1 + length (vbi_bytes n); blk m 0 (fh_header_len h) = tf # vbi_bytes n;
      MQTT_PACKET_TYPE_GET tf = t; MqttPacket_FixedHeaderFlagsValid tf\<rbrakk> \<Longrightarrow> post E Q (f h)"
  shows "post E Q (at_state (MqttDecode_FixedHeader m L t) s f)"
proof (rule post_at_state)
  show "MqttDecode_FixedHeader m L t \<noteq> Fault"
    using L by (intro MqttDecode_FixedHeader_no_fault) (simp_all add: rx_ok_def)
next
  fix h assume h: "MqttDecode_FixedHeader m L t = Ok h"
  have "L < 2 ^ 32" using L by (simp add: rx_ok_def)
  from MqttDecode_FixedHeader_sound [OF h this] obtain tf n where n: "h = header_of tf n"
    "blk m 0 (fh_header_len h) = tf # vbi_bytes n" "int (fh_header_len h) \<le> L" "n \<le> 0x0FFFFFFF"
    "MQTT_PACKET_TYPE_GET tf = t" "MqttPacket_FixedHeaderFlagsValid tf" by metis
  show "post E Q (f h)" by (rule f [OF n(1) _ n(3,4) _ n(2,5,6)]) (simp_all add: n(1))
qed (rule E)

lemma post_Num:
  assumes L: "rx_ok m L" "int p \<le> L" and E: "E s"
    and f: "\<And>n. int (p + 2) \<le> L \<Longrightarrow> blk m p 2 = num_bytes n \<Longrightarrow> post E Q (f (n, 2))"
  shows "post E Q (at_state (MqttDecode_Num m p (rx_left L p)) s f)"
proof (rule post_at_state)
  show "MqttDecode_Num m p (rx_left L p) \<noteq> Fault"
    using rx_left_word(3) [OF L] by (intro MqttDecode_Num_no_fault) (simp add: rx_left_eq [OF L])
next
  fix x assume x: "MqttDecode_Num m p (rx_left L p) = Ok x"
  obtain n k where nk: "x = (n, k)" by fastforce
  from MqttDecode_Num_sound [OF x [unfolded nk]] L show "post E Q (f x)"
    unfolding nk rx_left_eq [OF L] by (auto intro!: f)
qed (rule E)

lemma post_String:
  assumes L: "rx_ok m L" "int p \<le> L" and E: "E s"
    and f: "\<And>t. int (p + (2 + length t)) \<le> L \<Longrightarrow> blk m p (2 + length t) = str_bytes t \<Longrightarrow> utf8_str t \<Longrightarrow> post E Q (f (t, 2 + length t))"
  shows "post E Q (at_state (MqttDecode_String m p (rx_left L p)) s f)"
proof (rule post_at_state)
  show "MqttDecode_String m p (rx_left L p) \<noteq> Fault"
    using rx_left_word(3) [OF L] by (intro MqttDecode_String_no_fault) (simp add: rx_left_eq [OF L])
next
  fix x assume x: "MqttDecode_String m p (rx_left L p) = Ok x"
  obtain t k where tk: "x = (t, k)" by fastforce
  note d = MqttDecode_String_sound [OF x [unfolded tk]]
  have "int (p + (2 + length t)) \<le> L" using d(1,2) L unfolding rx_left_eq [OF L] by linarith
  with d show "post E Q (f x)" unfolding tk d(1) by (intro f) (simp_all add: utf8_str_def)
qed (rule E)

lemma post_rd:
  assumes "rx_ok m L" "int p + 1 \<le> L" "\<And>b. blk m p 1 = [b] \<Longrightarrow> post E Q (f b)"
  shows "post E Q (at_state (rd m p) s f)"
proof -
  have p: "p < length m" using assms(1,2) by (simp add: rx_ok_def)
  then have "blk m p 1 = [m ! p]" by (simp add: blk_Suc)
  with assms(3) p show ?thesis by (simp add: rd_ok)
qed

text \<open>The postcondition of a property block.\<close>

lemma post_block:
  assumes "live_list H None []" "rx_ok m e" "int p \<le> e"
  shows "post (\<lambda>(H', h). h = None \<and> released H H')
    (\<lambda>(H', h) q. \<exists>tvs. q = p + length (props_block tvs) \<and> holds H H' h tvs \<and> props_ok packet tvs \<and> auth_ok tvs \<and>
       blk m p (length (props_block tvs)) = props_block tvs \<and> int q \<le> e)
    (dec_block bad packet m e p H)"
proof -
  obtain H' h' r where d: "dec_block bad packet m e p H = ((H', h'), r)" by (metis prod_cases3 prod.collapse)
  show ?thesis by (cases rule: dec_block_cases [OF assms d, case_names a b]) (auto simp: d)
qed

lemma post_props:
  assumes "live_list H None []" "rx_ok m e" "int p \<le> e"
    and "\<And>H'. released H H' \<Longrightarrow> E (H', g None)"
    and "\<And>H' h tvs q. \<lbrakk>q = p + length (props_block tvs); holds H H' h tvs; props_ok packet tvs; auth_ok tvs;
      blk m p (length (props_block tvs)) = props_block tvs; int q \<le> e\<rbrakk> \<Longrightarrow> post E Q (f (H', g h) q)"
  shows "post E Q (then_state (with_props g (dec_block bad packet m e p H)) f)"
proof -
  obtain H' h' r where d: "dec_block bad packet m e p H = ((H', h'), r)" by (metis prod_cases3 prod.collapse)
  from post_block [OF assms(1-3), of packet bad] show ?thesis
    unfolding d by (elim postE) (auto simp: with_props_def intro: assms(4,5))
qed

lemma post_fail_free:
  assumes "holds H H1 h tvs" "\<And>H2. released H H2 \<Longrightarrow> E (H2, s)"
  shows "post E Q (fail_free e H1 h s)"
proof -
  obtain H2 where "MqttProps_Free H1 h = Ok H2" "released H H2" using holds_free [OF assms(1)] .
  then show ?thesis using assms(2) by (simp add: fail_free_def)
qed

lemma post_some_state:
  "post (\<lambda>(H, s). E (H, Some s)) (\<lambda>(H, s). Q (H, Some s)) sr \<Longrightarrow> post E Q (some_state sr)"
  by (cases sr; cases "snd sr") (auto simp: some_state_def split: prod.splits)

lemma with_props_simps [simp]: "with_props g ((H, h), r) = ((H, g h), r)"
  by (simp add: with_props_def)

lemma some_state_simps [simp]: "some_state ((H, s), r) = ((H, Some s), r)"
  by (simp add: some_state_def)

section \<open>Reading back what was written\<close>

text \<open>The fixed header of a packet in the buffer, and the body behind it.\<close>

lemma header_read:
  assumes L: "rx_ok m L" and pk: "pk = tf # vbi_bytes (length bd) @ bd" "blk m 0 (length pk) = pk" "int (length pk) \<le> L"
    and R: "length bd \<le> 0x0FFFFFFF" and tf: "MQTT_PACKET_TYPE_GET tf = t" "MqttPacket_FixedHeaderFlagsValid tf"
  obtains h where "MqttDecode_FixedHeader m L t = Ok h" "fh_remain_len h = int (length bd)"
    "blk m (fh_header_len h) (length bd) = bd" "int (fh_header_len h + length bd) \<le> L"
    "length pk = fh_header_len h + length bd" "\<not> L \<le> 0" "fh_header_len h + length bd \<le> length m"
proof -
  let ?fx = "tf # vbi_bytes (length bd)"
  have e: "?fx @ bd = pk" by (simp add: pk(1))
  have lm: "length (?fx @ bd) \<le> length m" using pk(3) L unfolding e by (simp add: rx_ok_def)
  have b: "blk m 0 (length ?fx) = ?fx" "blk m (length ?fx) (length bd) = bd"
    using blk_append_split [of m 0 ?fx bd] pk(2) lm unfolding e by simp_all
  have "MqttDecode_FixedHeader m L t = Ok (header_of tf (length bd))"
    using b(1) lm pk(3) L R tf unfolding e [symmetric]
    by (intro MqttDecode_FixedHeader_complete) (auto simp: rx_ok_def)
  then show thesis using b(2) lm pk(3) unfolding e [symmetric] by (intro that) (auto simp: pk(1))
qed

lemma plain_flags:
  assumes "t \<in> {1, 2, 4, 5, 7, 9, 11, 12, 13, 14, 15}"
  shows "MQTT_PACKET_TYPE_GET (type_flags t 0 0 0) = t" "MqttPacket_FixedHeaderFlagsValid (type_flags t 0 0 0)"
  using assms type_flags_get(1) [of t 0 0 0] type_flags_valid [of t 0 0 0] by auto

lemma qos1_flags:
  assumes "t \<in> {6, 8, 10}"
  shows "MQTT_PACKET_TYPE_GET (type_flags t 0 1 0) = t" "MqttPacket_FixedHeaderFlagsValid (type_flags t 0 1 0)"
  using assms type_flags_get(1) [of t 1 0 0] type_flags_valid [of t 1 0 0] by auto

lemma Num_at:
  "rx_ok m L \<Longrightarrow> blk m p 2 = num_bytes n \<Longrightarrow> int (p + 2) \<le> L \<Longrightarrow> MqttDecode_Num m p (rx_left L p) = Ok (n, 2)"
  by (intro MqttDecode_Num_complete) (auto simp: rx_ok_def rx_left_eq)

lemma String_at:
  "rx_ok m L \<Longrightarrow> blk m p (2 + length t) = str_bytes t \<Longrightarrow> int (p + (2 + length t)) \<le> L \<Longrightarrow> utf8_str t \<Longrightarrow>
   MqttDecode_String m p (rx_left L p) = Ok (t, 2 + length t)"
  by (intro MqttDecode_String_complete) (auto simp: rx_ok_def rx_left_eq utf8_str_def)

lemma rd_at: "rx_ok m L \<Longrightarrow> blk m p 1 = [b] \<Longrightarrow> int (p + 1) \<le> L \<Longrightarrow> rd m p = Ok b"
  by (auto simp: rd_def rx_ok_def blk_Suc)

text \<open>Two parts of a block in the buffer.\<close>

lemma blk_split:
  assumes "blk m p (length bd) = bd" "bd = a @ b" "p + length bd \<le> length m"
  shows "blk m p (length a) = a" "blk m (p + length a) (length b) = b"
  using blk_append_split [of m p a b] assms by simp_all

text \<open>An error of the write pass is an error of the encoder.\<close>

lemma enc_frame_err:
  assumes "tx_buf_len \<le> int (length m)" "\<And>m' p. p + n \<le> length m' \<Longrightarrow> \<exists>e. payload (m', p) = Err e"
  shows "\<exists>e. enc_frame m tx_buf_len n t r q d payload = Err e"
proof -
  have nf: "MqttEncode_FixedHeader m tx_buf_len (int n) t r q d \<noteq> Fault"
    using assms(1) header_bytes_length_5 [of "u32 (int n)" t r q d]
    by (auto simp: MqttEncode_FixedHeader_eq wr_def)
  show ?thesis
  proof (cases "MqttEncode_FixedHeader m tx_buf_len (int n) t r q d")
    case (Ok x)
    obtain m1 k where x: "x = (m1, k)" by fastforce
    have "length m1 = length m" using Ok x
      by (auto simp: MqttEncode_FixedHeader_eq wr_def split: if_splits)
    then have "tx_buf_len < int k + int n \<or> (\<exists>e. payload (m1, k) = Err e)" using assms by force
    then show ?thesis using Ok x by (auto simp: enc_frame_def)
  qed (use nf in \<open>auto simp: enc_frame_def\<close>)
qed

lemma send_packet_small: "tx_buf_len \<le> 0 \<Longrightarrow> send_packet m tx_buf_len tf bs = Err OUT_OF_BUFFER"
  by (simp add: send_packet_def)

section \<open>Encoder and decoder of a packet\<close>

text \<open>
  \<open>'s\<close> is what the caller hands to the encoder, \<open>'d\<close> what the decoder works on: the property store
  and the structure to fill.  \<open>wf\<close> is what the caller owes, \<open>ok\<close> the rule of the standard, \<open>body\<close> the
  packet behind the fixed header, \<open>fits\<close> says that the destination has room, \<open>same\<close> that it holds the
  source's values, \<open>clean\<close> that it lost nothing.
\<close>

locale packet_codec =
  fixes enc :: "'s \<Rightarrow> mem \<Rightarrow> int \<Rightarrow> (mem \<times> nat) outcome"
    and dec :: "'d \<Rightarrow> mem \<Rightarrow> int \<Rightarrow> 'd \<times> int outcome"
    and tf :: "'s \<Rightarrow> byte"
    and body :: "'s \<Rightarrow> byte list"
    and wf :: "'s \<Rightarrow> bool"
    and ok :: "'s \<Rightarrow> bool"
    and good :: "'d \<Rightarrow> bool"
    and fits :: "'s \<Rightarrow> 'd \<Rightarrow> bool"
    and same :: "'s \<Rightarrow> 'd \<Rightarrow> 'd \<Rightarrow> bool"
    and clean :: "'d \<Rightarrow> 'd \<Rightarrow> bool"
  assumes enc_ok: "wf s \<Longrightarrow> ok s \<Longrightarrow> 0 < tx_buf_len \<Longrightarrow> tx_buf_len \<le> int (length m) \<Longrightarrow> enc s m tx_buf_len = send_packet m tx_buf_len (tf s) (body s)"
    and enc_bad: "wf s \<Longrightarrow> \<not> ok s \<or> tx_buf_len \<le> 0 \<Longrightarrow> tx_buf_len \<le> int (length m) \<Longrightarrow> \<exists>e. enc s m tx_buf_len = Err e"
    and dec_ok: "ok s \<Longrightarrow> good d \<Longrightarrow> fits s d \<Longrightarrow> rx_ok m rx_buf_len \<Longrightarrow> length (body s) \<le> MQTT_PACKET_MAX_REMAIN_LEN \<Longrightarrow>
      pk = tf s # vbi_bytes (length (body s)) @ body s \<Longrightarrow> blk m 0 (length pk) = pk \<Longrightarrow> int (length pk) \<le> rx_buf_len \<Longrightarrow>
      \<exists>d'. dec d m rx_buf_len = (d', Ok (int (length pk))) \<and> same s d d'"
    and dec_safe: "good d \<Longrightarrow> rx_ok m rx_buf_len \<Longrightarrow> dec d m rx_buf_len = (d', r) \<Longrightarrow>
      r \<noteq> Fault \<and> (\<forall>e. r = Err e \<longrightarrow> clean d d')"
begin

text \<open>The encoder never writes outside its buffer, and what it accepts obeys the rule.\<close>

lemma enc_no_fault:
  "wf s \<Longrightarrow> tx_buf_len \<le> int (length m) \<Longrightarrow> enc s m tx_buf_len \<noteq> Fault"
  using enc_ok [of s tx_buf_len m] enc_bad [of s tx_buf_len m]
  by (cases "ok s \<and> 0 < tx_buf_len") (auto simp: send_packet_def Let_def not_less split: if_splits)

lemma enc_Ok_iff:
  assumes "wf s" "tx_buf_len \<le> int (length m)"
  shows "(\<exists>r. enc s m tx_buf_len = Ok r) \<longleftrightarrow> ok s \<and> length (body s) \<le> MQTT_PACKET_MAX_REMAIN_LEN \<and> 5 \<le> tx_buf_len \<and>
    int (1 + length (vbi_bytes (length (body s))) + length (body s)) \<le> tx_buf_len"
proof (cases "ok s \<and> 0 < tx_buf_len")
  case True
  then show ?thesis using enc_ok [OF assms(1) _ _ assms(2)]
    by (auto simp: send_packet_def Let_def split: if_splits)
next
  case False
  then show ?thesis using enc_bad [OF assms(1) _ assms(2)] by (auto simp: not_less)
qed

lemma round_trip:
  assumes "wf s" "tx_buf_len \<le> int (length m)" "tx_buf_len < 2147483648" "enc s m tx_buf_len = Ok (m', k)" "good d" "fits s d"
  shows "\<exists>d'. dec d m' (int k) = (d', Ok (int k)) \<and> same s d d'"
proof -
  let ?pk = "tf s # vbi_bytes (length (body s)) @ body s"
  have ok: "ok s" "length (body s) \<le> 0x0FFFFFFF" "int (length ?pk) \<le> tx_buf_len"
    using enc_Ok_iff [OF assms(1,2)] assms(4) by auto
  have e: "m' = splice_at m 0 ?pk" "k = length ?pk"
    using enc_ok [OF assms(1) ok(1) _ assms(2)] ok(3) assms(4) by (auto simp: send_packet_def Let_def split: if_splits)
  have l: "length ?pk \<le> length m" using ok(3) assms(2) by linarith
  have b: "blk m' 0 (length ?pk) = ?pk" "length m' = length m"
    unfolding e using l by (intro blk_splice_at splice_at_length; simp)+
  have "rx_ok m' (int k)" using b(2) l ok(3) assms(3) unfolding e(2) rx_ok_def by linarith
  from dec_ok [OF ok(1) assms(5,6) this ok(2) refl b(1)] show ?thesis unfolding e(2) by auto
qed

end

end
