(* ===== verification/Packet_Resp.thy ===== *)
theory Packet_Resp
  imports Packet_Codec
begin

text \<open>
  PUBACK, PUBREC, PUBREL and PUBCOMP: \<^verbatim>\<open>MqttEncode_PublishResp\<close> and \<^verbatim>\<open>MqttDecode_PublishResp\<close> of
  \<^verbatim>\<open>src/mqtt_packet.c\<close>, with the contract of a packet codec for the four packet types.
\<close>

section \<open>Operations\<close>

record MqttPublishResp =
  resp_packet_id :: word16
  resp_reason_code :: byte
  resp_props :: "nat option"
  resp_level :: byte

definition MqttEncode_PublishResp ::
  "store \<Rightarrow> mem option \<Rightarrow> int \<Rightarrow> byte \<Rightarrow> MqttPublishResp option \<Rightarrow> (mem \<times> nat) outcome" where
  "MqttEncode_PublishResp H tx_buf tx_buf_len ptype publish_resp =
     (case (tx_buf, publish_resp) of
        (Some m, Some resp) \<Rightarrow>
          if resp_packet_id resp = 0 then Err PACKET_ID
          else let v5 = (resp_level resp \<ge> MQTT_CONNECT_PROTOCOL_LEVEL_5);
                   has_props = (v5 \<and> resp_props resp \<noteq> None);
                   has_reason = (v5 \<and> (resp_reason_code resp \<noteq> 0 \<or> resp_props resp \<noteq> None))
          in if v5 \<and> \<not> MqttPacket_PublishRespReasonCodeValid ptype (resp_reason_code resp) then Err PROPERTY
             else bnd (if has_props then props_len_pass ptype H (resp_props resp) m else Ok (0, 0)) (\<lambda>(props_len, tmp_len).
             enc_frame m tx_buf_len
               (MQTT_DATA_LEN_SIZE + props_len + tmp_len + (if has_reason then 1 else 0))
               ptype 0 (if ptype = MQTT_PACKET_TYPE_PUBLISH_REL then 1 else 0) 0
               (puts [put (\<lambda>m buf. MqttEncode_Num m buf (resp_packet_id resp)),
                      if has_reason then put_bytes [resp_reason_code resp] else put_nothing,
                      if has_props then put_props ptype H (resp_props resp) props_len else put_nothing]))
      | _ \<Rightarrow> Err BAD_ARG)"

text \<open>Reason code and properties of a v5 response, behind the packet identifier.\<close>

definition dec_resp_v5 ::
  "mem \<Rightarrow> int \<Rightarrow> byte \<Rightarrow> nat \<Rightarrow> int \<Rightarrow> store \<times> MqttPublishResp \<Rightarrow> (store \<times> MqttPublishResp) \<times> unit outcome" where
  "dec_resp_v5 m rx_buf_len ptype p remain_len = (\<lambda>(H, resp).
     at_state
       (if remain_len > int MQTT_DATA_LEN_SIZE then
          if rx_buf_len < int p + 1 then Err OUT_OF_BUFFER
          else bnd (rd m p) (\<lambda>b. Ok (b, p + 1))
        else Ok (0, p)) (H, resp) (\<lambda>(reason, p1).
       let resp1 = resp\<lparr>resp_reason_code := reason\<rparr> in
       if remain_len > int MQTT_DATA_LEN_SIZE + 1 then
         if rx_buf_len < int p1 then ((H, resp1), Err OUT_OF_BUFFER)
         else (case dec_block (le_rest rx_buf_len p1 OUT_OF_BUFFER) ptype m rx_buf_len p1 H of
                 ((H1, props1), r) \<Rightarrow> ((H1, resp1\<lparr>resp_props := props1\<rparr>), bnd r (\<lambda>_. Ok ())))
       else ((H, resp1), Ok ())))"

definition MqttDecode_PublishResp ::
  "store \<Rightarrow> mem option \<Rightarrow> int \<Rightarrow> byte \<Rightarrow> MqttPublishResp option \<Rightarrow>
   (store \<times> MqttPublishResp option) \<times> int outcome" where
  "MqttDecode_PublishResp H rx_buf rx_buf_len ptype publish_resp =
     (case rx_buf of
        None \<Rightarrow> ((H, publish_resp), Err BAD_ARG)
      | Some m \<Rightarrow>
          if rx_buf_len \<le> 0 then ((H, publish_resp), Err BAD_ARG)
          else at_state (MqttDecode_FixedHeader m rx_buf_len ptype) (H, publish_resp) (\<lambda>h.
            let ret = int (fh_header_len h) + fh_remain_len h in
            case publish_resp of
              None \<Rightarrow>
                if fh_remain_len h \<noteq> int MQTT_DATA_LEN_SIZE then ((H, None), Err MALFORMED_DATA)
                else ((H, None), Ok ret)
            | Some resp \<Rightarrow>
                if (if resp_level resp \<ge> MQTT_CONNECT_PROTOCOL_LEVEL_5
                    then fh_remain_len h < int MQTT_DATA_LEN_SIZE
                    else fh_remain_len h \<noteq> int MQTT_DATA_LEN_SIZE)
                then ((H, Some resp), Err MALFORMED_DATA)
                else at_state (MqttDecode_Num m (fh_header_len h) (rx_left rx_buf_len (fh_header_len h)))
                       (H, Some resp) (\<lambda>(id, tmp).
                  let resp1 = resp\<lparr>resp_packet_id := id\<rparr> in
                  if id = 0 then ((H, Some resp1), Err PACKET_ID)
                  else let resp2 = resp1\<lparr>resp_props := None\<rparr> in
                    if resp_level resp2 \<ge> MQTT_CONNECT_PROTOCOL_LEVEL_5 then
                      (case dec_resp_v5 m rx_buf_len ptype (fh_header_len h + tmp) (fh_remain_len h) (H, resp2) of
                         ((H1, resp3), r) \<Rightarrow> ((H1, Some resp3), bnd r (\<lambda>_. Ok ret)))
                    else ((H, Some resp2), Ok ret))))"

section \<open>The packet\<close>

definition resp_body :: "byte \<Rightarrow> word16 \<Rightarrow> byte \<Rightarrow> (nat \<times> prop_value) list \<Rightarrow> byte list" where
  "resp_body level pid reason tvs = num_bytes pid @
     (if level \<ge> MQTT_CONNECT_PROTOCOL_LEVEL_5
      then (if reason \<noteq> 0 \<or> tvs \<noteq> [] then [reason] else []) @ (if tvs \<noteq> [] then props_block tvs else [])
      else [])"

definition resp_ok :: "byte \<Rightarrow> byte \<Rightarrow> word16 \<Rightarrow> byte \<Rightarrow> (nat \<times> prop_value) list \<Rightarrow> bool" where
  "resp_ok ptype level pid reason tvs \<longleftrightarrow> pid \<noteq> 0 \<and>
     (level \<ge> MQTT_CONNECT_PROTOCOL_LEVEL_5 \<longrightarrow> MqttPacket_PublishRespReasonCodeValid ptype reason \<and> props_ok ptype tvs)"

definition resp_flags :: "byte \<Rightarrow> byte" where
  "resp_flags ptype = type_flags ptype 0 (if ptype = MQTT_PACKET_TYPE_PUBLISH_REL then 1 else 0) 0"

lemma props_ok_Nil [simp]: "props_ok packet []"
  by (simp add: props_ok_def)

lemma MqttEncode_PublishResp_eq:
  fixes r :: MqttPublishResp
  assumes src: "props_src H (resp_props r)" and tx: "tx_buf_len \<le> int (length m)"
  defines "tvs \<equiv> prop_list H (resp_props r)"
  shows "resp_ok t (resp_level r) (resp_packet_id r) (resp_reason_code r) tvs \<Longrightarrow>
      MqttEncode_PublishResp H (Some m) tx_buf_len t (Some r) =
        send_packet m tx_buf_len (resp_flags t) (resp_body (resp_level r) (resp_packet_id r) (resp_reason_code r) tvs)"
    and "\<not> resp_ok t (resp_level r) (resp_packet_id r) (resp_reason_code r) tvs \<Longrightarrow>
      \<exists>e. MqttEncode_PublishResp H (Some m) tx_buf_len t (Some r) = Err e"
proof -
  have nil: "(resp_props r = None) = (tvs = [])" unfolding tvs_def using prop_list_Nil [OF src] by simp
  note lp = props_len_pass_list [OF src, folded tvs_def]
  define v5 where "v5 \<longleftrightarrow> resp_level r \<ge> 5"
  define body where "body = resp_body (resp_level r) (resp_packet_id r) (resp_reason_code r) tvs"
  {
    assume "\<not> resp_ok t (resp_level r) (resp_packet_id r) (resp_reason_code r) tvs"
    then have "resp_packet_id r = 0 \<or> v5 \<and> (\<not> MqttPacket_PublishRespReasonCodeValid t (resp_reason_code r) \<or> \<not> props_ok t tvs)"
      by (auto simp: resp_ok_def v5_def)
    then show "\<exists>e. MqttEncode_PublishResp H (Some m) tx_buf_len t (Some r) = Err e"
      by (auto simp: MqttEncode_PublishResp_def Let_def v5_def [symmetric] nil lp)
  next
    assume ok: "resp_ok t (resp_level r) (resp_packet_id r) (resp_reason_code r) tvs"
    let ?rs = "v5 \<and> (resp_reason_code r \<noteq> 0 \<or> tvs \<noteq> [])"
    define n where "n = (if v5 \<and> tvs \<noteq> [] then length (props_bytes tvs) else 0)"
    define k where "k = (if v5 \<and> tvs \<noteq> [] then length (vbi_bytes (length (props_bytes tvs))) else 0)"
    have e: "emits (puts [put (\<lambda>m buf. MqttEncode_Num m buf (resp_packet_id r)),
        if ?rs then put_bytes [resp_reason_code r] else put_nothing,
        if v5 \<and> tvs \<noteq> [] then put_props t H (resp_props r) n else put_nothing]) body"
    proof -
      have "emits (puts [put (\<lambda>m buf. MqttEncode_Num m buf (resp_packet_id r)),
          if ?rs then put_bytes [resp_reason_code r] else put_nothing,
          if v5 \<and> tvs \<noteq> [] then put_props t H (resp_props r) n else put_nothing])
        (num_bytes (resp_packet_id r) @ (if ?rs then [resp_reason_code r] else []) @ (if v5 \<and> tvs \<noteq> [] then props_block tvs else []) @ [])"
        using ok src unfolding tvs_def
        by (intro emits_intros) (auto simp: resp_ok_def v5_def n_def tvs_def)
      then show ?thesis by (auto simp: body_def resp_body_def v5_def)
    qed
    have l: "length body = 2 + n + k + (if ?rs then 1 else 0)"
      by (auto simp: body_def resp_body_def v5_def n_def k_def props_block_def)
    have lb: "length body < 2 ^ 32"
      using ok props_block_bound [of t tvs] by (auto simp: body_def resp_body_def resp_ok_def)
    have "MqttEncode_PublishResp H (Some m) tx_buf_len t (Some r) =
        enc_frame m tx_buf_len (2 + n + k + (if ?rs then 1 else 0)) t 0 (if t = 6 then 1 else 0) 0
          (puts [put (\<lambda>m buf. MqttEncode_Num m buf (resp_packet_id r)),
            if ?rs then put_bytes [resp_reason_code r] else put_nothing,
            if v5 \<and> tvs \<noteq> [] then put_props t H (resp_props r) n else put_nothing])"
      using ok by (auto simp: MqttEncode_PublishResp_def Let_def v5_def [symmetric] nil lp resp_ok_def n_def k_def)
    then show "MqttEncode_PublishResp H (Some m) tx_buf_len t (Some r) = send_packet m tx_buf_len (resp_flags t) body"
      unfolding resp_flags_def using enc_frame_eq [OF e l [symmetric] tx lb] by simp
  }
qed

section \<open>Decoding\<close>

lemma dec_resp_v5_post:
  assumes H: "live_list H None []" and L: "rx_ok m L" "int p \<le> L" and n: "resp_props r = None"
  shows "post (\<lambda>(H', r'). released H H')
    (\<lambda>(H', r') _. resp_packet_id r' = resp_packet_id r \<and> (\<exists>tvs. holds H H' (resp_props r') tvs)) (dec_resp_v5 m L t p R (H, r))"
    (is "post ?E ?Q _")
proof -
  have blk: "post ?E ?Q (case dec_block b t m L q H of ((H1, props1), x) \<Rightarrow> ((H1, r1\<lparr>resp_props := props1\<rparr>), bnd x (\<lambda>_. Ok ())))"
    if "int q \<le> L" "resp_packet_id r1 = resp_packet_id r" for b q r1
  proof -
    obtain H1 h1 x where d: "dec_block b t m L q H = ((H1, h1), x)" by (metis prod_cases3 prod.collapse)
    from post_block [OF H L(1) that(1), of t b] show ?thesis unfolding d by (elim postE) (auto simp: that(2))
  qed
  have rdp: "post E Q (at_state (bnd (rd m p) (\<lambda>b. Ok (b, Suc p))) s f)"
    if "\<not> L < int p + 1" "\<And>b. post E Q (f (b, Suc p))" for E Q s f
    using post_rd [OF L(1), of p E Q "\<lambda>b. f (b, Suc p)" s] that by (cases "rd m p") auto
  have h0: "Ex (holds H H None)" using H by (intro exI [of _ "[]"]) simp
  show ?thesis unfolding dec_resp_v5_def prod.case
    using L n by (auto intro!: rdp blk h0 simp: Let_def)
qed

lemma MqttDecode_PublishResp_post:
  assumes H: "live_list H None []" and L: "rx_ok m L"
  shows "post (\<lambda>(H', r'). released H H' \<and> (\<exists>r1. r' = Some r1))
      (\<lambda>(H', r') _. \<exists>r1. r' = Some r1 \<and> resp_packet_id r1 \<noteq> 0 \<and> Ex (holds H H' (resp_props r1)))
      (MqttDecode_PublishResp H (Some m) L t (Some r))" (is "post ?E ?Q _")
proof -
  have v5: "post ?E ?Q (case dec_resp_v5 m L t q R (H, r2) of ((H1, r3), x) \<Rightarrow> ((H1, Some r3), bnd x (\<lambda>_. Ok ret)))"
    if "int q \<le> L" "resp_props r2 = None" "resp_packet_id r2 \<noteq> 0" for t q R r2 ret
  proof -
    obtain H1 r3 x where d: "dec_resp_v5 m L t q R (H, r2) = ((H1, r3), x)" by (metis prod_cases3 prod.collapse)
    from dec_resp_v5_post [OF H L that(1,2), of t R] show ?thesis unfolding d by (elim postE) (use that(3) in auto)
  qed
  have h0: "Ex (holds H H None)" using H by (intro exI [of _ "[]"]) simp
  show ?thesis unfolding MqttDecode_PublishResp_def option.case Let_def
    by (intro post_if post_header [OF L] post_Num [OF L]) (auto intro!: v5 h0)
qed

lemma MqttDecode_PublishResp_complete:
  assumes H: "live_list H None []" "length tvs \<le> card (free_cells H)" and L: "rx_ok m L" and t: "t \<in> {4, 5, 6, 7}"
    and ok: "resp_ok t (resp_level r) pid reason tvs" "\<not> resp_level r \<ge> 5 \<longrightarrow> tvs = []"
    and bd: "bd = resp_body (resp_level r) pid reason tvs" "length bd \<le> 0x0FFFFFFF"
    and pk: "pk = resp_flags t # vbi_bytes (length bd) @ bd" "blk m 0 (length pk) = pk" "int (length pk) \<le> L"
  shows "\<exists>H' r'. MqttDecode_PublishResp H (Some m) L t (Some r) = ((H', Some r'), Ok (int (length pk))) \<and>
    resp_packet_id r' = pid \<and> (resp_level r \<ge> 5 \<longrightarrow> resp_reason_code r' = reason) \<and> holds H H' (resp_props r') tvs"
proof -
  have f: "MQTT_PACKET_TYPE_GET (resp_flags t) = t" "MqttPacket_FixedHeaderFlagsValid (resp_flags t)"
    using t plain_flags [of t] qos1_flags [of 6] by (auto simp: resp_flags_def)
  obtain h where h: "MqttDecode_FixedHeader m L t = Ok h" "fh_remain_len h = int (length bd)"
    "blk m (fh_header_len h) (length bd) = bd" "int (fh_header_len h + length bd) \<le> L"
    "length pk = fh_header_len h + length bd" "\<not> L \<le> 0" "fh_header_len h + length bd \<le> length m"
    using header_read [OF L pk bd(2) f] .
  define v5 where "v5 \<longleftrightarrow> resp_level r \<ge> 5"
  define c where "c = (if v5 then (if reason \<noteq> 0 \<or> tvs \<noteq> [] then [reason] else []) @ (if tvs \<noteq> [] then props_block tvs else []) else [])"
  have b: "bd = num_bytes pid @ c" by (simp add: bd(1) resp_body_def c_def v5_def)
  define q where "q = fh_header_len h + 2"
  have qs: "Suc (Suc (fh_header_len h)) = q" by (simp add: q_def)
  note bs = blk_split [OF h(3) b h(7), unfolded num_bytes_length, folded q_def]
  have lb: "length bd = 2 + length c" by (simp add: b)
  have n: "MqttDecode_Num m (fh_header_len h) (rx_left L (fh_header_len h)) = Ok (pid, 2)"
    using bs(1) h(4) lb by (intro Num_at [OF L]) auto
  let ?r = "r\<lparr>resp_packet_id := pid, resp_props := None\<rparr>"
  have lq: "int (q + length c) \<le> L" using h(4) lb by (simp add: q_def)
  have "\<exists>H' r'. v5 \<longrightarrow> (dec_resp_v5 m L t q (int (length bd)) (H, ?r) = ((H', r'), Ok ()) \<and> resp_packet_id r' = pid \<and>
      resp_reason_code r' = reason \<and> holds H H' (resp_props r') tvs)"
  proof (cases "v5 \<and> tvs \<noteq> []")
    case True
    then have c: "c = [reason] @ props_block tvs" by (simp add: c_def)
    have lc: "q + length c \<le> length m" using h(7) lb by (simp add: q_def)
    note cs = blk_split [OF bs(2) c lc]
    have pok: "props_ok t tvs" using ok(1) True by (simp add: resp_ok_def v5_def)
    have au: "auth_ok tvs" using t by (intro auth_ok_other [OF _ pok]) auto
    have le: "int (q + 1 + length (props_block tvs)) \<le> L" "int (q + 1) \<le> L" using lq c by auto
    have rd: "rd m q = Ok reason" using cs(1) le by (intro rd_at [OF L]) auto
    have pb: "blk m (q + 1) (length (props_block tvs)) = props_block tvs" using cs(2) by simp
    from block_at(1) [OF H L pb le(1) pok au]
    obtain H' h' where d: "dec_block (le_rest L (q + 1) OUT_OF_BUFFER) t m L (q + 1) H =
        ((H', h'), Ok (q + 1 + length (props_block tvs)))" "holds H H' h' tvs" by blast
    have l3: "int (length bd) > 3" unfolding lb c
      by (cases "vbi_bytes (length (props_bytes tvs))") (simp_all add: props_block_def)
    have "dec_resp_v5 m L t q (int (length bd)) (H, ?r) = ((H', ?r\<lparr>resp_reason_code := reason, resp_props := h'\<rparr>), Ok ())"
      using l3 le(2) d(1) by (simp add: dec_resp_v5_def rd Let_def)
    with d(2) show ?thesis by (intro exI [of _ H'] exI [of _ "?r\<lparr>resp_reason_code := reason, resp_props := h'\<rparr>"]) simp
  next
    case False
    show ?thesis
    proof (cases "v5 \<and> reason \<noteq> 0")
      case True
      then have c: "c = [reason]" using False by (simp add: c_def)
      have "rd m q = Ok reason" using bs(2) lq c by (intro rd_at [OF L]) auto
      then have "dec_resp_v5 m L t q (int (length bd)) (H, ?r) = ((H, ?r\<lparr>resp_reason_code := reason\<rparr>), Ok ())"
        using lq c by (simp add: dec_resp_v5_def Let_def lb)
      then show ?thesis using False True H(1)
        by (intro exI [of _ H] exI [of _ "?r\<lparr>resp_reason_code := reason\<rparr>"]) simp
    next
      case F: False
      have "dec_resp_v5 m L t q (int (length bd)) (H, ?r) = ((H, ?r\<lparr>resp_reason_code := 0\<rparr>), Ok ())" if v5
        using F False that by (simp add: dec_resp_v5_def Let_def lb c_def)
      then show ?thesis using F False H(1) by (intro exI [of _ H] exI [of _ "?r\<lparr>resp_reason_code := 0\<rparr>"]) auto
    qed
  qed
  then obtain H' r' where d: "v5 \<longrightarrow> (dec_resp_v5 m L t q (int (length bd)) (H, ?r) = ((H', r'), Ok ()) \<and> resp_packet_id r' = pid \<and>
      resp_reason_code r' = reason \<and> holds H H' (resp_props r') tvs)" by blast
  have pid: "pid \<noteq> 0" using ok(1) by (simp add: resp_ok_def)
  have len: "(if v5 then int (length bd) < int 2 else int (length bd) \<noteq> int 2) = False"
    using lb by (auto simp: c_def)
  show ?thesis
  proof (cases v5)
    case True
    then have "MqttDecode_PublishResp H (Some m) L t (Some r) = ((H', Some r'), Ok (int (length pk)))"
      using d len pid by (simp add: MqttDecode_PublishResp_def h n Let_def v5_def [symmetric] qs)
    then show ?thesis using d True by blast
  next
    case False
    then have "MqttDecode_PublishResp H (Some m) L t (Some r) = ((H, Some ?r), Ok (int (length pk)))"
      using len pid by (simp add: MqttDecode_PublishResp_def h n Let_def v5_def [symmetric])
    moreover have "tvs = []" using False ok(2) by (simp add: v5_def)
    ultimately show ?thesis using False H(1) by (simp add: v5_def)
  qed
qed

section \<open>The contract of the codec\<close>

text \<open>The property list a response carries: none before v5.\<close>

definition resp_value :: "store \<Rightarrow> MqttPublishResp \<Rightarrow> (nat \<times> prop_value) list" where
  "resp_value H r = (if resp_level r \<ge> MQTT_CONNECT_PROTOCOL_LEVEL_5 then prop_list H (resp_props r) else [])"

lemma resp_old:
  "resp_body (resp_level r) pid reason (resp_value H r) = resp_body (resp_level r) pid reason (prop_list H (resp_props r))"
  "resp_ok t (resp_level r) pid reason (resp_value H r) = resp_ok t (resp_level r) pid reason (prop_list H (resp_props r))"
  by (simp_all add: resp_body_def resp_ok_def resp_value_def)

text \<open>Source and destination carry the packet type the caller names.\<close>

interpretation resp: packet_codec
  "\<lambda>(t, H, r) m tx_buf_len. MqttEncode_PublishResp H (Some m) tx_buf_len t (Some r)"
  "\<lambda>(t, D, d) m rx_buf_len. case MqttDecode_PublishResp D (Some m) rx_buf_len t d of ((D', d'), x) \<Rightarrow> ((t, D', d'), x)"
  "\<lambda>(t, H, r). resp_flags t"
  "\<lambda>(t, H, r). resp_body (resp_level r) (resp_packet_id r) (resp_reason_code r) (resp_value H r)"
  "\<lambda>(t, H, r). props_src H (resp_props r)"
  "\<lambda>(t, H, r). resp_ok t (resp_level r) (resp_packet_id r) (resp_reason_code r) (resp_value H r)"
  "\<lambda>(t, D, d). live_list D None [] \<and> d \<noteq> None"
  "\<lambda>(t, H, r) (t', D, d). t' = t \<and> t \<in> {4, 5, 6, 7} \<and> resp_level (the d) = resp_level r \<and>
     length (resp_value H r) \<le> card (free_cells D)"
  "\<lambda>(t, H, r) (_, D, _) (_, D', d). \<exists>d'. d = Some d' \<and> resp_packet_id d' = resp_packet_id r \<and>
     (resp_level r \<ge> 5 \<longrightarrow> resp_reason_code d' = resp_reason_code r) \<and> holds D D' (resp_props d') (resp_value H r)"
  "\<lambda>(_, D, _) (_, D', _). released D D'"
proof (unfold_locales, goal_cases)
  case (1 s L m)
  obtain t H r where s: "s = (t, H, r)" by (metis prod_cases3)
  show ?case using 1 MqttEncode_PublishResp_eq(1) [of H r L m t] unfolding s prod.case resp_old by simp
next
  case (2 s L m)
  obtain t H r where s: "s = (t, H, r)" by (metis prod_cases3)
  show ?case using 2 MqttEncode_PublishResp_eq [of H r L m t] send_packet_small [of L m] unfolding s prod.case resp_old by fastforce
next
  case (3 s d m L pk)
  obtain t H r where s: "s = (t, H, r)" by (metis prod_cases3)
  obtain t' D d0 where d: "d = (t', D, Some d0)" using 3(2) by (cases d) auto
  have f: "t' = t" "t \<in> {4, 5, 6, 7}" "resp_level d0 = resp_level r" "length (resp_value H r) \<le> card (free_cells D)"
    "live_list D None []" using 3(2,3) by (simp_all add: s d)
  have ok: "resp_ok t (resp_level d0) (resp_packet_id r) (resp_reason_code r) (resp_value H r)" using 3(1) f by (simp add: s)
  have old: "\<not> resp_level d0 \<ge> 5 \<longrightarrow> resp_value H r = []" using f by (simp add: resp_value_def)
  from MqttDecode_PublishResp_complete [OF f(5,4) 3(4) f(2) ok old refl _ _ 3(7,8)] 3(5,6)
  show ?case unfolding s d prod.case f(1,3) by fastforce
next
  case (4 d m L d' x)
  obtain t D d0 where d: "d = (t, D, Some d0)" using 4(1) by (cases d) auto
  have H: "live_list D None []" using 4(1) by (simp add: d)
  obtain D' r' y where r: "MqttDecode_PublishResp D (Some m) L t (Some d0) = ((D', r'), y)" by (metis prod_cases3 prod.collapse)
  have "d' = (t, D', r')" "x = y" using 4(3) by (simp_all add: d r)
  then show ?case using MqttDecode_PublishResp_post [OF H 4(2), of t d0] unfolding r d by (auto elim!: postE)
qed

text \<open>C27: what \<^verbatim>\<open>MqttEncode_PublishResp\<close> writes for PUBACK, PUBREC, PUBREL or PUBCOMP is decoded by
  \<^verbatim>\<open>MqttDecode_PublishResp\<close> to the same packet identifier, reason code and properties, with the length the
  encoder returned.\<close>

theorem publish_resp_round_trip:
  assumes "props_src H (resp_props r)" "tx_buf_len \<le> int (length m)" "tx_buf_len < 2147483648" "t \<in> {4, 5, 6, 7}"
    and "MqttEncode_PublishResp H (Some m) tx_buf_len t (Some r) = Ok (m', k)"
    and "live_list D None []" "length (resp_value H r) \<le> card (free_cells D)" "resp_level d = resp_level r"
  shows "\<exists>D' d'. MqttDecode_PublishResp D (Some m') (int k) t (Some d) = ((D', Some d'), Ok (int k)) \<and>
    resp_packet_id d' = resp_packet_id r \<and> (resp_level r \<ge> 5 \<longrightarrow> resp_reason_code d' = resp_reason_code r) \<and>
    holds D D' (resp_props d') (resp_value H r)"
  using resp.round_trip [of "(t, H, r)" tx_buf_len m m' k "(t, D, Some d)"] assms
  by (cases "MqttDecode_PublishResp D (Some m') (int k) t (Some d)") auto

theorem publish_resp_round_trip_witness:
  "\<exists>m' k D' d'. MqttEncode_PublishResp [] (Some (replicate 8 0)) 8 5 (Some \<lparr>resp_packet_id = 9, resp_reason_code = 0x10, resp_props = None, resp_level = 5\<rparr>) = Ok (m', k) \<and>
     MqttDecode_PublishResp (replicate 30 zero_prop) (Some m') (int k) 5
       (Some \<lparr>resp_packet_id = 0, resp_reason_code = 0, resp_props = None, resp_level = 5\<rparr>) = ((D', Some d'), Ok (int k)) \<and>
     resp_packet_id d' = 9 \<and> resp_reason_code d' = 0x10"
proof -
  let ?r = "\<lparr>resp_packet_id = 9, resp_reason_code = 0x10, resp_props = None, resp_level = 5\<rparr> :: MqttPublishResp"
  let ?d = "\<lparr>resp_packet_id = 0, resp_reason_code = 0, resp_props = None, resp_level = 5\<rparr> :: MqttPublishResp"
  have "MqttPacket_PublishRespReasonCodeValid 5 0x10" by code_simp
  then have "resp_ok 5 5 9 0x10 []" by (simp add: resp_ok_def)
  then have "\<exists>m' k. MqttEncode_PublishResp [] (Some (replicate 8 0)) 8 5 (Some ?r) = Ok (m', k)"
    using MqttEncode_PublishResp_eq(1) [of "[]" ?r 8 "replicate 8 0" 5]
    by (simp add: send_packet_def Let_def resp_body_def vbi_bytes_small)
  then obtain m' k where e: "MqttEncode_PublishResp [] (Some (replicate 8 0)) 8 5 (Some ?r) = Ok (m', k)" by blast
  have "live_list (replicate 30 zero_prop) None []" by (simp add: live_list_def)
  from publish_resp_round_trip [OF _ _ _ _ e this, of ?d] e show ?thesis by (auto simp: resp_value_def)
qed

end
