(* ===== verification/Packet_Connack.thy ===== *)
theory Packet_Connack
  imports Packet_Codec
begin

text \<open>
  CONNACK: \<^verbatim>\<open>MqttEncode_ConnectAck\<close> and \<^verbatim>\<open>MqttDecode_ConnectAck\<close> of \<^verbatim>\<open>src/mqtt_packet.c\<close>, with the contract
  of a packet codec.
\<close>

section \<open>Operations\<close>

record MqttConnectAck =
  ack_flags :: byte
  ack_return_code :: byte
  ack_props :: "nat option"
  ack_level :: byte

definition MqttEncode_ConnectAck ::
  "store \<Rightarrow> mem option \<Rightarrow> int \<Rightarrow> MqttConnectAck option \<Rightarrow> (mem \<times> nat) outcome" where
  "MqttEncode_ConnectAck H tx_buf tx_buf_len connect_ack =
     (case (tx_buf, connect_ack) of
        (Some m, Some ack) \<Rightarrow>
          if ack_flags ack AND 0xFE \<noteq> 0 then Err BAD_ARG
          else if \<not> MqttPacket_ConnectAckReturnCodeValid (ack_return_code ack) (ack_level ack) then Err BAD_ARG
          else if ack_flags ack AND 0x01 \<noteq> 0 \<and> ack_return_code ack \<noteq> 0 then Err BAD_ARG
          else let v5 = (ack_level ack \<ge> MQTT_CONNECT_PROTOCOL_LEVEL_5) in
          bnd (if v5 then props_len_pass MQTT_PACKET_TYPE_CONNECT_ACK H (ack_props ack) m else Ok (0, 0)) (\<lambda>(props_len, tmp_len).
          enc_frame m tx_buf_len (2 + props_len + tmp_len) MQTT_PACKET_TYPE_CONNECT_ACK 0 0 0
            (puts [put_bytes [ack_flags ack], put_bytes [ack_return_code ack],
                   if v5 then put_props MQTT_PACKET_TYPE_CONNECT_ACK H (ack_props ack) props_len else put_nothing]))
      | _ \<Rightarrow> Err BAD_ARG)"

text \<open>The variable header at \<open>p\<close>, of a packet that ends at \<open>packet_end\<close>.\<close>

definition dec_connack ::
  "mem \<Rightarrow> nat \<Rightarrow> nat \<Rightarrow> store \<times> MqttConnectAck \<Rightarrow> (store \<times> MqttConnectAck) \<times> unit outcome" where
  "dec_connack m p packet_end = (\<lambda>(H, ack).
     at_state (rd m p) (H, ack) (\<lambda>flags.
     at_state (rd m (p + 1)) (H, ack\<lparr>ack_flags := flags\<rparr>) (\<lambda>code.
     let ack1 = ack\<lparr>ack_flags := flags, ack_return_code := code\<rparr> in
     if flags AND 0xFE \<noteq> 0 then ((H, ack1), Err MALFORMED_DATA)
     else if code \<noteq> 0 \<and> flags AND 0x01 \<noteq> 0 then ((H, ack1), Err MALFORMED_DATA)
     else let ack2 = ack1\<lparr>ack_props := None\<rparr> in
     if ack_level ack2 \<ge> MQTT_CONNECT_PROTOCOL_LEVEL_5 then
       then_state (with_props (\<lambda>h. ack2\<lparr>ack_props := h\<rparr>)
           (dec_block (le_rest_after (int packet_end) (p + 2) OUT_OF_BUFFER) MQTT_PACKET_TYPE_CONNECT_ACK
             m (int packet_end) (p + 2) H)) (\<lambda>(H1, ack3) q.
         if q \<noteq> packet_end then fail_free MALFORMED_DATA H1 (ack_props ack3) (ack3\<lparr>ack_props := None\<rparr>)
         else ((H1, ack3), Ok ()))
     else ((H, ack2), Ok ()))))"

definition MqttDecode_ConnectAck ::
  "store \<Rightarrow> mem option \<Rightarrow> int \<Rightarrow> MqttConnectAck option \<Rightarrow> (store \<times> MqttConnectAck option) \<times> int outcome" where
  "MqttDecode_ConnectAck H rx_buf rx_buf_len connect_ack =
     (case rx_buf of
        None \<Rightarrow> ((H, connect_ack), Err BAD_ARG)
      | Some m \<Rightarrow>
          if rx_buf_len \<le> 0 then ((H, connect_ack), Err BAD_ARG)
          else at_state (MqttDecode_FixedHeader m rx_buf_len MQTT_PACKET_TYPE_CONNECT_ACK) (H, connect_ack) (\<lambda>h.
            let ret = int (fh_header_len h) + fh_remain_len h;
                v5 = (case connect_ack of None \<Rightarrow> False | Some ack \<Rightarrow> ack_level ack \<ge> MQTT_CONNECT_PROTOCOL_LEVEL_5) in
            if (if v5 then fh_remain_len h < 2 else fh_remain_len h \<noteq> 2) then ((H, connect_ack), Err MALFORMED_DATA)
            else if rx_buf_len < ret then ((H, connect_ack), Err OUT_OF_BUFFER)
            else case connect_ack of
              None \<Rightarrow> ((H, None), Ok ret)
            | Some ack \<Rightarrow>
                some_state (then_state (dec_connack m (fh_header_len h) (nat ret) (H, ack)) (\<lambda>s _. (s, Ok ret)))))"

section \<open>The packet\<close>

definition connack_body :: "byte \<Rightarrow> byte \<Rightarrow> byte \<Rightarrow> (nat \<times> prop_value) list \<Rightarrow> byte list" where
  "connack_body level flags code tvs =
     [flags, code] @ (if level \<ge> MQTT_CONNECT_PROTOCOL_LEVEL_5 then props_block tvs else [])"

definition connack_ok :: "byte \<Rightarrow> byte \<Rightarrow> byte \<Rightarrow> (nat \<times> prop_value) list \<Rightarrow> bool" where
  "connack_ok level flags code tvs \<longleftrightarrow> flags AND 0xFE = 0 \<and> MqttPacket_ConnectAckReturnCodeValid code level \<and>
     (flags AND 1 \<noteq> 0 \<longrightarrow> code = 0) \<and> (level \<ge> MQTT_CONNECT_PROTOCOL_LEVEL_5 \<longrightarrow> props_ok MQTT_PACKET_TYPE_CONNECT_ACK tvs)"

lemma MqttEncode_ConnectAck_eq:
  fixes a :: MqttConnectAck
  assumes src: "props_src H (ack_props a)" and tx: "tx_buf_len \<le> int (length m)"
  defines "tvs \<equiv> prop_list H (ack_props a)"
  shows "connack_ok (ack_level a) (ack_flags a) (ack_return_code a) tvs \<Longrightarrow>
      MqttEncode_ConnectAck H (Some m) tx_buf_len (Some a) =
        send_packet m tx_buf_len (type_flags 2 0 0 0) (connack_body (ack_level a) (ack_flags a) (ack_return_code a) tvs)"
    and "\<not> connack_ok (ack_level a) (ack_flags a) (ack_return_code a) tvs \<Longrightarrow>
      \<exists>e. MqttEncode_ConnectAck H (Some m) tx_buf_len (Some a) = Err e"
proof -
  note lp = props_len_pass_list [OF src, folded tvs_def]
  define v5 where "v5 \<longleftrightarrow> ack_level a \<ge> 5"
  define body where "body = connack_body (ack_level a) (ack_flags a) (ack_return_code a) tvs"
  {
    assume "\<not> connack_ok (ack_level a) (ack_flags a) (ack_return_code a) tvs"
    then show "\<exists>e. MqttEncode_ConnectAck H (Some m) tx_buf_len (Some a) = Err e"
      by (auto simp: MqttEncode_ConnectAck_def Let_def lp connack_ok_def)
  next
    assume ok: "connack_ok (ack_level a) (ack_flags a) (ack_return_code a) tvs"
    define n where "n = (if v5 then length (props_bytes tvs) else 0)"
    define k where "k = (if v5 then length (vbi_bytes (length (props_bytes tvs))) else 0)"
    let ?w = "puts [put_bytes [ack_flags a], put_bytes [ack_return_code a], if v5 then put_props 2 H (ack_props a) n else put_nothing]"
    have "emits ?w ([ack_flags a] @ [ack_return_code a] @ (if v5 then props_block tvs else []) @ [])"
      using ok src unfolding tvs_def by (intro emits_intros) (auto simp: connack_ok_def v5_def n_def tvs_def)
    then have e: "emits ?w body" by (simp add: body_def connack_body_def v5_def)
    have l: "length body = 2 + n + k"
      by (auto simp: body_def connack_body_def v5_def n_def k_def props_block_def)
    have lb: "length body < 2 ^ 32"
      using ok props_block_bound [of 2 tvs] by (auto simp: body_def connack_body_def connack_ok_def)
    have "MqttEncode_ConnectAck H (Some m) tx_buf_len (Some a) = enc_frame m tx_buf_len (2 + n + k) 2 0 0 0 ?w"
      using ok by (auto simp: MqttEncode_ConnectAck_def Let_def lp connack_ok_def n_def k_def v5_def)
    then show "MqttEncode_ConnectAck H (Some m) tx_buf_len (Some a) = send_packet m tx_buf_len (type_flags 2 0 0 0) body"
      using enc_frame_eq [OF e l [symmetric] tx lb] by simp
  }
qed

section \<open>Decoding\<close>

lemma dec_connack_post:
  assumes H: "live_list H None []" and L: "rx_ok m (int e)" "p + 2 \<le> e"
  shows "post (\<lambda>(H', a'). released H H') (\<lambda>(H', a') _. Ex (holds H H' (ack_props a'))) (dec_connack m p e (H, a))"
proof -
  have h0: "Ex (holds H H None)" using H by (intro exI [of _ "[]"]) simp
  show ?thesis unfolding dec_connack_def prod.case Let_def
    by (intro post_rd [OF L(1)] post_if post_props [OF H L(1)] post_fail_free [of H])
      (use L(2) in \<open>auto intro: h0 intro!: post_fail_free\<close>)
qed

lemma MqttDecode_ConnectAck_post:
  assumes H: "live_list H None []" and L: "rx_ok m L"
  shows "post (\<lambda>(H', a'). released H H' \<and> (\<exists>a1. a' = Some a1))
      (\<lambda>(H', a') _. \<exists>a1. a' = Some a1 \<and> Ex (holds H H' (ack_props a1)))
      (MqttDecode_ConnectAck H (Some m) L (Some a))" (is "post ?E ?Q _")
proof -
  have c: "post ?E ?Q (some_state (then_state (dec_connack m p e (H, a)) (\<lambda>s _. (s, Ok ret))))"
    if "rx_ok m (int e)" "p + 2 \<le> e" for p e ret
  proof -
    obtain H1 a1 x where d: "dec_connack m p e (H, a) = ((H1, a1), x)" by (metis prod_cases3 prod.collapse)
    from dec_connack_post [OF H that, of a] show ?thesis unfolding d by (elim postE) auto
  qed
  show ?thesis unfolding MqttDecode_ConnectAck_def option.case Let_def
    by (intro post_if post_header [OF L]) (use L in \<open>auto intro!: c simp: rx_ok_def nat_add_distrib split: if_splits\<close>)
qed

lemma MqttDecode_ConnectAck_complete:
  assumes H: "live_list H None []" "length tvs \<le> card (free_cells H)" and L: "rx_ok m L"
    and ok: "connack_ok (ack_level a) flags code tvs" "auth_ok tvs" "\<not> ack_level a \<ge> 5 \<longrightarrow> tvs = []"
    and bd: "bd = connack_body (ack_level a) flags code tvs" "length bd \<le> 0x0FFFFFFF"
    and pk: "pk = type_flags 2 0 0 0 # vbi_bytes (length bd) @ bd" "blk m 0 (length pk) = pk" "int (length pk) \<le> L"
  shows "\<exists>H' a'. MqttDecode_ConnectAck H (Some m) L (Some a) = ((H', Some a'), Ok (int (length pk))) \<and>
    ack_flags a' = flags \<and> ack_return_code a' = code \<and> holds H H' (ack_props a') tvs"
proof -
  obtain h where h: "MqttDecode_FixedHeader m L 2 = Ok h" "fh_remain_len h = int (length bd)"
    "blk m (fh_header_len h) (length bd) = bd" "int (fh_header_len h + length bd) \<le> L"
    "length pk = fh_header_len h + length bd" "\<not> L \<le> 0" "fh_header_len h + length bd \<le> length m"
    using header_read [OF L pk bd(2)] plain_flags [of 2] by auto
  define v5 where "v5 \<longleftrightarrow> ack_level a \<ge> 5"
  define p where "p = fh_header_len h"
  define c where "c = (if v5 then props_block tvs else [])"
  have b: "bd = [flags, code] @ c" by (simp add: bd(1) connack_body_def c_def v5_def)
  have lb: "length bd = 2 + length c" by (simp add: b)
  note bs = blk_split [OF h(3) b h(7), folded p_def]
  have r: "rd m p = Ok flags" "rd m (Suc p) = Ok code"
    using bs(1) h(7) lb by (simp_all add: p_def rd_def eval_nat_numeral blk_Suc)
  define e where "e = p + length bd"
  have rx: "rx_ok m (int e)" using h(4,7) L by (simp add: rx_ok_def e_def p_def)
  let ?a = "a\<lparr>ack_flags := flags, ack_return_code := code, ack_props := None\<rparr>"
  have fl: "flags AND 254 = 0" "code = 0 \<or> flags AND 1 = 0" using ok(1) by (auto simp: connack_ok_def)
  have "\<exists>H' h'. dec_connack m p e (H, a) = ((H', ?a\<lparr>ack_props := h'\<rparr>), Ok ()) \<and> holds H H' h' tvs"
  proof (cases v5)
    case True
    then have pok: "props_ok 2 tvs" using ok(1) by (simp add: connack_ok_def v5_def)
    have c: "c = props_block tvs" using True by (simp add: c_def)
    have pb: "blk m (p + 2) (length (props_block tvs)) = props_block tvs" using bs(2) by (simp add: c)
    have le: "int (p + 2 + length (props_block tvs)) \<le> int e" by (simp add: e_def lb c)
    from block_at(2) [OF H rx pb le pok ok(2), of OUT_OF_BUFFER] obtain H' h' where
      d: "dec_block (le_rest_after (int e) (p + 2) OUT_OF_BUFFER) 2 m (int e) (p + 2) H = ((H', h'), Ok (p + 2 + length (props_block tvs)))"
      "holds H H' h' tvs" by blast
    have q: "p + 2 + length (props_block tvs) = e" by (simp add: e_def lb c)
    have "dec_connack m p e (H, a) = ((H', ?a\<lparr>ack_props := h'\<rparr>), Ok ())"
      using True fl d(1) [unfolded q] by (simp add: dec_connack_def r Let_def v5_def)
    with d(2) show ?thesis by blast
  next
    case False
    have "dec_connack m p e (H, a) = ((H, ?a\<lparr>ack_props := None\<rparr>), Ok ())"
      using False fl by (simp add: dec_connack_def r Let_def v5_def)
    moreover have "tvs = []" using False ok(3) by (simp add: v5_def)
    ultimately show ?thesis using H(1) by (intro exI [of _ H] exI [of _ None]) simp
  qed
  then obtain H' h' where d: "dec_connack m p e (H, a) = ((H', ?a\<lparr>ack_props := h'\<rparr>), Ok ())" "holds H H' h' tvs" by blast
  have len: "v5 \<longrightarrow> \<not> length bd < 2" "\<not> v5 \<longrightarrow> length bd = 2" using lb by (simp_all add: c_def)
  have ne: "nat (int p + int (length bd)) = e" "\<not> L < int p + int (length bd)" using h(4) by (auto simp: e_def p_def)
  have "MqttDecode_ConnectAck H (Some m) L (Some a) = ((H', Some (?a\<lparr>ack_props := h'\<rparr>)), Ok (int (length pk)))"
    using len ne d(1) h(6) unfolding MqttDecode_ConnectAck_def option.case v5_def [symmetric]
    by (simp add: h(1,2,5) p_def [symmetric] Let_def)
  with d(2) show ?thesis by (intro exI [of _ H'] exI [of _ "?a\<lparr>ack_props := h'\<rparr>"]) simp
qed

section \<open>The contract of the codec\<close>

definition connack_value :: "store \<Rightarrow> MqttConnectAck \<Rightarrow> (nat \<times> prop_value) list" where
  "connack_value H a = (if ack_level a \<ge> MQTT_CONNECT_PROTOCOL_LEVEL_5 then prop_list H (ack_props a) else [])"

lemma connack_old:
  "connack_body (ack_level a) f c (connack_value H a) = connack_body (ack_level a) f c (prop_list H (ack_props a))"
  "connack_ok (ack_level a) f c (connack_value H a) = connack_ok (ack_level a) f c (prop_list H (ack_props a))"
  by (simp_all add: connack_body_def connack_ok_def connack_value_def)

text \<open>The decoder also asks that Authentication Data come with an Authentication Method.\<close>

interpretation connack: packet_codec
  "\<lambda>(H, a) m tx_buf_len. MqttEncode_ConnectAck H (Some m) tx_buf_len (Some a)"
  "\<lambda>(D, d) m rx_buf_len. MqttDecode_ConnectAck D (Some m) rx_buf_len d"
  "\<lambda>_. type_flags 2 0 0 0"
  "\<lambda>(H, a). connack_body (ack_level a) (ack_flags a) (ack_return_code a) (connack_value H a)"
  "\<lambda>(H, a). props_src H (ack_props a)"
  "\<lambda>(H, a). connack_ok (ack_level a) (ack_flags a) (ack_return_code a) (connack_value H a)"
  "\<lambda>(D, d). live_list D None [] \<and> d \<noteq> None"
  "\<lambda>(H, a) (D, d). ack_level (the d) = ack_level a \<and> auth_ok (connack_value H a) \<and>
     length (connack_value H a) \<le> card (free_cells D)"
  "\<lambda>(H, a) (D, _) (D', d). \<exists>d'. d = Some d' \<and> ack_flags d' = ack_flags a \<and> ack_return_code d' = ack_return_code a \<and>
     holds D D' (ack_props d') (connack_value H a)"
  "\<lambda>(D, _) (D', _). released D D'"
proof (unfold_locales, goal_cases)
  case (1 s L m)
  obtain H a where s: "s = (H, a)" by fastforce
  show ?case using 1 MqttEncode_ConnectAck_eq(1) [of H a L m] unfolding s prod.case connack_old by simp
next
  case (2 s L m)
  obtain H a where s: "s = (H, a)" by fastforce
  show ?case using 2 MqttEncode_ConnectAck_eq [of H a L m] send_packet_small [of L m] unfolding s prod.case connack_old by fastforce
next
  case (3 s d m L pk)
  obtain H a where s: "s = (H, a)" by fastforce
  obtain D d0 where d: "d = (D, Some d0)" using 3(2) by (cases d) auto
  have f: "ack_level d0 = ack_level a" "auth_ok (connack_value H a)" "length (connack_value H a) \<le> card (free_cells D)"
    "live_list D None []" using 3(2,3) by (simp_all add: s d)
  have ok: "connack_ok (ack_level d0) (ack_flags a) (ack_return_code a) (connack_value H a)" using 3(1) f by (simp add: s)
  have old: "\<not> ack_level d0 \<ge> 5 \<longrightarrow> connack_value H a = []" using f by (simp add: connack_value_def)
  from MqttDecode_ConnectAck_complete [OF f(4,3) 3(4) ok f(2) old refl _ _ 3(7,8)] 3(5,6)
  show ?case unfolding s d prod.case f(1) by fastforce
next
  case (4 d m L d' x)
  obtain D d0 where d: "d = (D, Some d0)" using 4(1) by (cases d) auto
  have H: "live_list D None []" using 4(1) by (simp add: d)
  obtain D' r' y where r: "MqttDecode_ConnectAck D (Some m) L (Some d0) = ((D', r'), y)" by (metis prod_cases3 prod.collapse)
  have "d' = (D', r')" "x = y" using 4(3) by (simp_all add: d r)
  then show ?case using MqttDecode_ConnectAck_post [OF H 4(2), of d0] unfolding r d by (auto elim!: postE)
qed

text \<open>C28: what \<^verbatim>\<open>MqttEncode_ConnectAck\<close> writes is decoded by \<^verbatim>\<open>MqttDecode_ConnectAck\<close> to the same flags, return
  code and properties, provided Authentication Data in the list comes with an Authentication Method.\<close>

theorem connack_round_trip:
  assumes "props_src H (ack_props a)" "tx_buf_len \<le> int (length m)" "tx_buf_len < 2147483648"
    and "MqttEncode_ConnectAck H (Some m) tx_buf_len (Some a) = Ok (m', k)" "auth_ok (connack_value H a)"
    and "live_list D None []" "length (connack_value H a) \<le> card (free_cells D)" "ack_level d = ack_level a"
  shows "\<exists>D' d'. MqttDecode_ConnectAck D (Some m') (int k) (Some d) = ((D', Some d'), Ok (int k)) \<and>
    ack_flags d' = ack_flags a \<and> ack_return_code d' = ack_return_code a \<and> holds D D' (ack_props d') (connack_value H a)"
  using connack.round_trip [of "(H, a)" tx_buf_len m m' k "(D, Some d)"] assms
  by (cases "MqttDecode_ConnectAck D (Some m') (int k) (Some d)") auto

theorem connack_round_trip_witness:
  "\<exists>m' k D' d'. MqttEncode_ConnectAck [] (Some (replicate 8 0)) 8 (Some \<lparr>ack_flags = 1, ack_return_code = 0, ack_props = None, ack_level = 5\<rparr>) = Ok (m', k) \<and>
     MqttDecode_ConnectAck (replicate 30 zero_prop) (Some m') (int k)
       (Some \<lparr>ack_flags = 0, ack_return_code = 7, ack_props = None, ack_level = 5\<rparr>) = ((D', Some d'), Ok (int k)) \<and>
     ack_flags d' = 1 \<and> ack_return_code d' = 0"
proof -
  let ?r = "\<lparr>ack_flags = 1, ack_return_code = 0, ack_props = None, ack_level = 5\<rparr> :: MqttConnectAck"
  let ?d = "\<lparr>ack_flags = 0, ack_return_code = 7, ack_props = None, ack_level = 5\<rparr> :: MqttConnectAck"
  have "connack_ok 5 1 0 []" by (simp add: connack_ok_def MqttPacket_ConnectAckReturnCodeValid_def props_ok_def)
  then have "\<exists>m' k. MqttEncode_ConnectAck [] (Some (replicate 8 0)) 8 (Some ?r) = Ok (m', k)"
    using MqttEncode_ConnectAck_eq(1) [of "[]" ?r 8 "replicate 8 0"]
    by (simp add: send_packet_def Let_def connack_body_def vbi_bytes_small props_block_def props_bytes_def)
  then obtain m' k where e: "MqttEncode_ConnectAck [] (Some (replicate 8 0)) 8 (Some ?r) = Ok (m', k)" by blast
  have "live_list (replicate 30 zero_prop) None []" by (simp add: live_list_def)
  from connack_round_trip [OF _ _ _ e _ this, of ?d] e show ?thesis by (auto simp: connack_value_def auth_ok_def)
qed

end
