(* ===== verification/Packet_Control.thy ===== *)
theory Packet_Control
  imports Packet_Codec
begin

text \<open>
  The packets without a payload: PINGREQ and PINGRESP, DISCONNECT and AUTH, from \<^verbatim>\<open>MqttEncode_Ping\<close> to
  \<^verbatim>\<open>MqttDecode_Auth\<close> of \<^verbatim>\<open>src/mqtt_packet.c\<close> (the \<^verbatim>\<open>WOLFMQTT_V5\<close> decoder of DISCONNECT), and
  \<^verbatim>\<open>MqttPacket_TypeDesc\<close>.
\<close>

section \<open>Operations\<close>

subsection \<open>PING\<close>

definition MqttEncode_Ping :: "mem option \<Rightarrow> int \<Rightarrow> (mem \<times> nat) outcome" where
  "MqttEncode_Ping tx_buf tx_buf_len =
     (case tx_buf of
        None \<Rightarrow> Err BAD_ARG
      | Some m \<Rightarrow> MqttEncode_FixedHeader m tx_buf_len 0 MQTT_PACKET_TYPE_PING_REQ 0 0 0)"

definition MqttDecode_Ping :: "mem option \<Rightarrow> int \<Rightarrow> int outcome" where
  "MqttDecode_Ping rx_buf rx_buf_len =
     (case rx_buf of
        None \<Rightarrow> Err BAD_ARG
      | Some m \<Rightarrow>
          if rx_buf_len \<le> 0 then Err BAD_ARG
          else bnd (MqttDecode_FixedHeader m rx_buf_len MQTT_PACKET_TYPE_PING_RESP) (\<lambda>h.
            if fh_remain_len h \<noteq> 0 then Err MALFORMED_DATA
            else Ok (int (fh_header_len h) + fh_remain_len h)))"

subsection \<open>DISCONNECT\<close>

record MqttDisconnect =
  disc_reason_code :: byte
  disc_props :: "nat option"
  disc_level :: byte

definition MqttEncode_Disconnect ::
  "store \<Rightarrow> mem option \<Rightarrow> int \<Rightarrow> MqttDisconnect option \<Rightarrow> (mem \<times> nat) outcome" where
  "MqttEncode_Disconnect H tx_buf tx_buf_len disconnect =
     (case tx_buf of
        None \<Rightarrow> Err BAD_ARG
      | Some m \<Rightarrow>
          (case disconnect of
             Some disc \<Rightarrow>
               if disc_level disc \<ge> MQTT_CONNECT_PROTOCOL_LEVEL_5 then
                 if \<not> MqttPacket_DisconnectReasonCodeValid (disc_reason_code disc) then Err BAD_ARG
                 else bnd (if disc_props disc \<noteq> None then props_len_pass MQTT_PACKET_TYPE_DISCONNECT H (disc_props disc) m
                           else Ok (0, 0)) (\<lambda>(props_len, tmp_len).
                   let remain_len = (if props_len + tmp_len \<noteq> 0 \<or> disc_reason_code disc \<noteq> 0
                                     then props_len + tmp_len + 1 else props_len + tmp_len) in
                   enc_frame m tx_buf_len remain_len MQTT_PACKET_TYPE_DISCONNECT 0 0 0
                     (puts [if remain_len \<noteq> 0 \<or> disc_reason_code disc \<noteq> 0 then put_bytes [disc_reason_code disc]
                            else put_nothing,
                            if disc_props disc \<noteq> None then put_props MQTT_PACKET_TYPE_DISCONNECT H (disc_props disc) props_len
                            else put_nothing]))
               else enc_frame m tx_buf_len 0 MQTT_PACKET_TYPE_DISCONNECT 0 0 0 put_nothing
           | None \<Rightarrow> enc_frame m tx_buf_len 0 MQTT_PACKET_TYPE_DISCONNECT 0 0 0 put_nothing))"

definition MqttDecode_Disconnect ::
  "store \<Rightarrow> mem option \<Rightarrow> int \<Rightarrow> MqttDisconnect option \<Rightarrow> (store \<times> MqttDisconnect option) \<times> int outcome" where
  "MqttDecode_Disconnect H rx_buf rx_buf_len disconnect =
     (case (rx_buf, disconnect) of
        (Some m, Some disc) \<Rightarrow>
          if rx_buf_len \<le> 0 then ((H, disconnect), Err BAD_ARG)
          else some_state (at_state (MqttDecode_FixedHeader m rx_buf_len MQTT_PACKET_TYPE_DISCONNECT) (H, disc) (\<lambda>h.
            let p = fh_header_len h; ret = int p + fh_remain_len h; disc1 = disc\<lparr>disc_props := None\<rparr> in
            if fh_remain_len h > 0 then
              if rx_buf_len < int p + 1 then ((H, disc1), Err OUT_OF_BUFFER)
              else at_state (rd m p) (H, disc1) (\<lambda>code.
                let disc2 = disc1\<lparr>disc_reason_code := code\<rparr> in
                if fh_remain_len h > 1 then
                  if rx_buf_len < int (p + 1) then ((H, disc2), Err OUT_OF_BUFFER)
                  else then_state (with_props (\<lambda>h. disc2\<lparr>disc_props := h\<rparr>)
                         (dec_block (le_rest rx_buf_len (p + 1) OUT_OF_BUFFER) MQTT_PACKET_TYPE_DISCONNECT
                           m rx_buf_len (p + 1) H)) (\<lambda>s _. (s, Ok ret))
                else ((H, disc2), Ok ret))
            else ((H, disc1\<lparr>disc_reason_code := 0\<rparr>), Ok ret)))
      | _ \<Rightarrow> ((H, disconnect), Err BAD_ARG))"

subsection \<open>AUTH\<close>

record MqttAuth =
  auth_reason_code :: byte
  auth_props :: "nat option"

abbreviation (input) "MQTT_REASON_SUCCESS \<equiv> (0x00 :: byte)"
abbreviation (input) "MQTT_REASON_CONT_AUTH \<equiv> (0x18 :: byte)"
abbreviation (input) "MQTT_REASON_REAUTH \<equiv> (0x19 :: byte)"

definition MqttEncode_Auth ::
  "store \<Rightarrow> mem option \<Rightarrow> int \<Rightarrow> MqttAuth option \<Rightarrow> (mem \<times> nat) outcome" where
  "MqttEncode_Auth H tx_buf tx_buf_len auth_opt =
     (case (tx_buf, auth_opt) of
        (Some m, Some auth) \<Rightarrow>
          if tx_buf_len \<le> 0 then Err BAD_ARG
          else bnd (if auth_reason_code auth = MQTT_REASON_CONT_AUTH \<or> auth_reason_code auth = MQTT_REASON_REAUTH
                    then find_prop (length H) H (auth_props auth) MQTT_PROP_AUTH_METHOD else Ok True) (\<lambda>found.
            if \<not> found then Err BAD_ARG
            else bnd (props_len_pass MQTT_PACKET_TYPE_AUTH H (auth_props auth) m) (\<lambda>(props_len, tmp_len).
              let remain_len = (if auth_reason_code auth = MQTT_REASON_SUCCESS \<and> props_len = 0 then 0
                                else 1 + props_len + tmp_len) in
              enc_frame m tx_buf_len remain_len MQTT_PACKET_TYPE_AUTH 0 0 0
                (if remain_len = 0 then put_nothing
                 else if auth_reason_code auth = MQTT_REASON_SUCCESS \<or> auth_reason_code auth = MQTT_REASON_CONT_AUTH \<or>
                   auth_reason_code auth = MQTT_REASON_REAUTH
                 then puts [put_bytes [auth_reason_code auth],
                            put_props MQTT_PACKET_TYPE_AUTH H (auth_props auth) props_len]
                 else (\<lambda>_. Err MALFORMED_DATA))))
      | _ \<Rightarrow> Err BAD_ARG)"

definition auth_len_check :: "int \<Rightarrow> nat \<Rightarrow> word32 \<Rightarrow> nat \<Rightarrow> mqtt_err option" where
  "auth_len_check rx_buf_len p props_len tmp =
     (if unat props_len \<le> rx_left rx_buf_len p
      then if int (p + tmp) > rx_buf_len then Some OUT_OF_BUFFER else None
      else Some MALFORMED_DATA)"

definition MqttDecode_Auth ::
  "store \<Rightarrow> mem option \<Rightarrow> int \<Rightarrow> MqttAuth option \<Rightarrow> (store \<times> MqttAuth option) \<times> int outcome" where
  "MqttDecode_Auth H rx_buf rx_buf_len auth_opt =
     (case (rx_buf, auth_opt) of
        (Some m, Some auth) \<Rightarrow>
          if rx_buf_len \<le> 0 then ((H, auth_opt), Err BAD_ARG)
          else some_state (at_state (MqttDecode_FixedHeader m rx_buf_len MQTT_PACKET_TYPE_AUTH) (H, auth) (\<lambda>h.
            let p = fh_header_len h; ret = int p + fh_remain_len h; auth1 = auth\<lparr>auth_props := None\<rparr> in
            if fh_remain_len h > 0 then
              if rx_buf_len < int p + 1 then ((H, auth1), Err OUT_OF_BUFFER)
              else at_state (rd m p) (H, auth1) (\<lambda>code.
                let auth2 = auth1\<lparr>auth_reason_code := code\<rparr> in
                if code = MQTT_REASON_SUCCESS \<or> code = MQTT_REASON_CONT_AUTH \<or> code = MQTT_REASON_REAUTH then
                  if rx_buf_len < int (p + 1) then ((H, auth2), Err OUT_OF_BUFFER)
                  else then_state (with_props (\<lambda>h. auth2\<lparr>auth_props := h\<rparr>)
                         (dec_block (auth_len_check rx_buf_len (p + 1)) MQTT_PACKET_TYPE_AUTH
                           m rx_buf_len (p + 1) H)) (\<lambda>(H1, auth3) _.
                    if auth_props auth3 = None then ((H1, auth3), Err MALFORMED_DATA)
                    else ((H1, auth3), Ok ret))
                else ((H, auth2), Err MALFORMED_DATA))
            else ((H, auth1\<lparr>auth_reason_code := MQTT_REASON_SUCCESS\<rparr>), Ok ret)))
      | _ \<Rightarrow> ((H, auth_opt), Err BAD_ARG))"

subsection \<open>Names of the packet types\<close>

definition MqttPacket_TypeDesc :: "nat \<Rightarrow> string" where
  "MqttPacket_TypeDesc packet_type =
     (if packet_type = 1 then ''Connect''
      else if packet_type = 2 then ''Connect Ack''
      else if packet_type = 3 then ''Publish''
      else if packet_type = 4 then ''Publish Ack''
      else if packet_type = 5 then ''Publish Received''
      else if packet_type = 6 then ''Publish Release''
      else if packet_type = 7 then ''Publish Complete''
      else if packet_type = 8 then ''Subscribe''
      else if packet_type = 9 then ''Subscribe Ack''
      else if packet_type = 10 then ''Unsubscribe''
      else if packet_type = 11 then ''Unsubscribe Ack''
      else if packet_type = 12 then ''Ping Req''
      else if packet_type = 13 then ''Ping Resp''
      else if packet_type = 14 then ''Disconnect''
      else if packet_type = 15 then ''Auth''
      else if packet_type = 0 then ''Reserved''
      else if packet_type = 16 then ''Any''
      else ''Unknown'')"

section \<open>Safety of the decoders\<close>

lemma MqttDecode_Disconnect_post:
  assumes H: "live_list H None []" and L: "rx_ok m L"
  shows "post (\<lambda>(H', d'). released H H' \<and> (\<exists>d1. d' = Some d1)) (\<lambda>(H', d') _. \<exists>d1. d' = Some d1 \<and> Ex (holds H H' (disc_props d1)))
      (MqttDecode_Disconnect H (Some m) L (Some d))"
proof -
  have h0: "Ex (holds H H None)" using H by (intro exI [of _ "[]"]) simp
  show ?thesis unfolding MqttDecode_Disconnect_def option.case prod.case Let_def
    by (intro post_some_state post_if post_header [OF L] post_rd [OF L] post_props [OF H L]) (use h0 in auto)
qed

lemma MqttDecode_Auth_post:
  assumes H: "live_list H None []" and L: "rx_ok m L"
  shows "post (\<lambda>(H', d'). released H H' \<and> (\<exists>d1. d' = Some d1)) (\<lambda>(H', d') _. \<exists>d1. d' = Some d1 \<and> Ex (holds H H' (auth_props d1)))
      (MqttDecode_Auth H (Some m) L (Some d))"
proof -
  have h0: "Ex (holds H H None)" using H by (intro exI [of _ "[]"]) simp
  show ?thesis unfolding MqttDecode_Auth_def option.case prod.case Let_def
    by (intro post_some_state post_if post_header [OF L] post_rd [OF L] post_props [OF H L]) (use h0 in \<open>auto dest: holds_None\<close>)
qed

section \<open>The packets\<close>

definition disc_body :: "byte \<Rightarrow> byte \<Rightarrow> (nat \<times> prop_value) list \<Rightarrow> byte list" where
  "disc_body level reason tvs =
     (if level \<ge> MQTT_CONNECT_PROTOCOL_LEVEL_5 \<and> (reason \<noteq> 0 \<or> tvs \<noteq> [])
      then [reason] @ (if tvs \<noteq> [] then props_block tvs else []) else [])"

definition disc_ok :: "byte \<Rightarrow> byte \<Rightarrow> (nat \<times> prop_value) list \<Rightarrow> bool" where
  "disc_ok level reason tvs \<longleftrightarrow> (level \<ge> MQTT_CONNECT_PROTOCOL_LEVEL_5 \<longrightarrow>
     MqttPacket_DisconnectReasonCodeValid reason \<and> props_ok MQTT_PACKET_TYPE_DISCONNECT tvs)"

definition auth_body :: "byte \<Rightarrow> (nat \<times> prop_value) list \<Rightarrow> byte list" where
  "auth_body reason tvs = (if reason = 0 \<and> tvs = [] then [] else [reason] @ props_block tvs)"

definition auth_pk_ok :: "byte \<Rightarrow> (nat \<times> prop_value) list \<Rightarrow> bool" where
  "auth_pk_ok reason tvs \<longleftrightarrow> (reason = 0 \<or> reason = 0x18 \<or> reason = 0x19) \<and> props_ok MQTT_PACKET_TYPE_AUTH tvs \<and>
     (reason \<noteq> 0 \<longrightarrow> MQTT_PROP_AUTH_METHOD \<in> fst ` set tvs)"

lemma props_bytes_0: "props_ok packet tvs \<Longrightarrow> (length (props_bytes tvs) = 0) = (tvs = [])"
proof (cases tvs)
  case (Cons tv tvs')
  assume "props_ok packet tvs"
  then have "0 < length (prop_bytes tv)" using Cons by (intro prop_bytes_length(2) [of packet]) (simp add: props_ok_def)
  then show ?thesis using Cons by (simp add: props_bytes_Cons)
qed (simp add: props_bytes_def)

lemma MqttEncode_Disconnect_eq:
  fixes a :: MqttDisconnect
  assumes src: "props_src H (disc_props a)" and tx: "tx_buf_len \<le> int (length m)"
  defines "tvs \<equiv> prop_list H (disc_props a)"
  shows "disc_ok (disc_level a) (disc_reason_code a) tvs \<Longrightarrow>
      MqttEncode_Disconnect H (Some m) tx_buf_len (Some a) =
        send_packet m tx_buf_len (type_flags 14 0 0 0) (disc_body (disc_level a) (disc_reason_code a) tvs)"
    and "\<not> disc_ok (disc_level a) (disc_reason_code a) tvs \<Longrightarrow>
      \<exists>e. MqttEncode_Disconnect H (Some m) tx_buf_len (Some a) = Err e"
proof -
  note lp = props_len_pass_list [OF src, folded tvs_def]
  have nil: "(disc_props a = None) = (tvs = [])" unfolding tvs_def using prop_list_Nil [OF src] by simp
  {
    assume "\<not> disc_ok (disc_level a) (disc_reason_code a) tvs"
    then show "\<exists>e. MqttEncode_Disconnect H (Some m) tx_buf_len (Some a) = Err e"
      by (auto simp: MqttEncode_Disconnect_def Let_def lp nil disc_ok_def props_ok_def)
  next
    assume ok: "disc_ok (disc_level a) (disc_reason_code a) tvs"
    show "MqttEncode_Disconnect H (Some m) tx_buf_len (Some a) =
        send_packet m tx_buf_len (type_flags 14 0 0 0) (disc_body (disc_level a) (disc_reason_code a) tvs)"
    proof (cases "disc_level a \<ge> 5")
      case False
      then show ?thesis using enc_frame_eq [OF emits_nothing _ tx, of 0 14 0 0 0]
        by (simp add: MqttEncode_Disconnect_def disc_body_def)
    next
      case True
      define body where "body = disc_body (disc_level a) (disc_reason_code a) tvs"
      define n where "n = (if tvs \<noteq> [] then length (props_bytes tvs) else 0)"
      define k where "k = (if tvs \<noteq> [] then length (vbi_bytes (length (props_bytes tvs))) else 0)"
      have k0: "(n + k = 0) = (tvs = [])" by (auto simp: n_def k_def)
      let ?rs = "disc_reason_code a \<noteq> 0 \<or> tvs \<noteq> []"
      let ?w = "puts [if ?rs then put_bytes [disc_reason_code a] else put_nothing,
        if tvs \<noteq> [] then put_props 14 H (disc_props a) n else put_nothing]"
      have "emits ?w ((if ?rs then [disc_reason_code a] else []) @ (if tvs \<noteq> [] then props_block tvs else []) @ [])"
        using ok True src unfolding tvs_def by (intro emits_intros) (auto simp: disc_ok_def n_def tvs_def)
      then have e: "emits ?w body" using True by (auto simp: body_def disc_body_def)
      have l: "length body = (if ?rs then n + k + 1 else n + k)"
        using True by (auto simp: body_def disc_body_def n_def k_def props_block_def)
      have lb: "length body < 2 ^ 32"
        using ok True props_block_bound [of 14 tvs] by (auto simp: body_def disc_body_def disc_ok_def)
      have "MqttEncode_Disconnect H (Some m) tx_buf_len (Some a) =
          enc_frame m tx_buf_len (if ?rs then n + k + 1 else n + k) 14 0 0 0 ?w"
        using ok True k0 by (auto simp: MqttEncode_Disconnect_def Let_def lp nil disc_ok_def n_def k_def)
      then show ?thesis unfolding body_def [symmetric] using enc_frame_eq [OF e l [symmetric] tx lb] by simp
    qed
  }
qed

lemma MqttEncode_Auth_eq:
  fixes a :: MqttAuth
  assumes src: "props_src H (auth_props a)" and tx: "tx_buf_len \<le> int (length m)"
  defines "tvs \<equiv> prop_list H (auth_props a)"
  shows "auth_pk_ok (auth_reason_code a) tvs \<Longrightarrow>
      MqttEncode_Auth H (Some m) tx_buf_len (Some a) =
        (if tx_buf_len \<le> 0 then Err BAD_ARG else send_packet m tx_buf_len (type_flags 15 0 0 0) (auth_body (auth_reason_code a) tvs))"
    and "\<not> auth_pk_ok (auth_reason_code a) tvs \<Longrightarrow>
      \<exists>e. MqttEncode_Auth H (Some m) tx_buf_len (Some a) = Err e"
proof -
  note lp = props_len_pass_list [OF src, folded tvs_def] and fp = find_prop_list [OF src, folded tvs_def]
  let ?c = "auth_reason_code a"
  {
    assume bad: "\<not> auth_pk_ok ?c tvs"
    show "\<exists>e. MqttEncode_Auth H (Some m) tx_buf_len (Some a) = Err e"
    proof (cases "props_ok 15 tvs \<and> ?c \<noteq> 0 \<and> ?c \<noteq> 0x18 \<and> ?c \<noteq> 0x19")
      case True
      then show ?thesis using enc_frame_err [OF tx, where payload = "\<lambda>_. Err MALFORMED_DATA"] by (auto simp: MqttEncode_Auth_def lp fp Let_def)
    next
      case False
      then show ?thesis using bad by (auto simp: MqttEncode_Auth_def lp fp auth_pk_ok_def)
    qed
  next
    assume ok: "auth_pk_ok ?c tvs"
    have pok: "props_ok 15 tvs" using ok by (simp add: auth_pk_ok_def)
    define n where "n = length (props_bytes tvs)"
    define k where "k = length (vbi_bytes n)"
    have n0: "(n = 0) = (tvs = [])" unfolding n_def by (rule props_bytes_0 [OF pok])
    define body where "body = auth_body ?c tvs"
    let ?s = "?c = 0 \<and> tvs = []"
    let ?w = "if ?s then put_nothing else puts [put_bytes [?c], put_props 15 H (auth_props a) n]"
    have "emits (puts [put_bytes [?c], put_props 15 H (auth_props a) n]) ([?c] @ props_block tvs @ [])"
      using pok src unfolding tvs_def by (intro emits_intros) (auto simp: n_def tvs_def)
    then have e: "emits ?w body" by (auto simp: body_def auth_body_def emits_nothing)
    have l: "length body = (if ?s then 0 else 1 + n + k)"
      by (auto simp: body_def auth_body_def n_def k_def props_block_def)
    have lb: "length body < 2 ^ 32" using props_block_bound [OF pok] by (auto simp: body_def auth_body_def)
    show "MqttEncode_Auth H (Some m) tx_buf_len (Some a) =
        (if tx_buf_len \<le> 0 then Err BAD_ARG else send_packet m tx_buf_len (type_flags 15 0 0 0) body)"
    proof (cases "tx_buf_len \<le> 0")
      case False
      then have "MqttEncode_Auth H (Some m) tx_buf_len (Some a) = enc_frame m tx_buf_len (if ?s then 0 else 1 + n + k) 15 0 0 0 ?w"
        using ok n0 by (auto simp: MqttEncode_Auth_def lp fp auth_pk_ok_def Let_def n_def [symmetric] k_def)
      then show ?thesis using False enc_frame_eq [OF e l [symmetric] tx lb] by simp
    qed (simp add: MqttEncode_Auth_def)
  }
qed

section \<open>Reading back\<close>

lemma MqttDecode_Disconnect_complete:
  assumes H: "live_list H None []" "length tvs \<le> card (free_cells H)" and L: "rx_ok m L"
    and ok: "disc_ok level reason tvs" "\<not> level \<ge> 5 \<longrightarrow> tvs = []"
    and bd: "bd = disc_body level reason tvs" "length bd \<le> 0x0FFFFFFF"
    and pk: "pk = type_flags 14 0 0 0 # vbi_bytes (length bd) @ bd" "blk m 0 (length pk) = pk" "int (length pk) \<le> L"
  shows "\<exists>H' a'. MqttDecode_Disconnect H (Some m) L (Some a) = ((H', Some a'), Ok (int (length pk))) \<and>
    (level \<ge> 5 \<longrightarrow> disc_reason_code a' = reason) \<and> holds H H' (disc_props a') tvs"
proof -
  obtain h where h: "MqttDecode_FixedHeader m L 14 = Ok h" "fh_remain_len h = int (length bd)"
    "blk m (fh_header_len h) (length bd) = bd" "int (fh_header_len h + length bd) \<le> L"
    "length pk = fh_header_len h + length bd" "\<not> L \<le> 0" "fh_header_len h + length bd \<le> length m"
    using header_read [OF L pk bd(2)] plain_flags [of 14] by auto
  define p where "p = fh_header_len h"
  note D = MqttDecode_Disconnect_def option.case prod.case if_not_P [OF h(6)] h(1,2,5) p_def [symmetric] at_state_simps Let_def
  show ?thesis
  proof (cases "level \<ge> 5 \<and> (reason \<noteq> 0 \<or> tvs \<noteq> [])")
    case False
    then have "bd = []" by (simp add: bd(1) disc_body_def)
    then have "MqttDecode_Disconnect H (Some m) L (Some a) = ((H, Some (a\<lparr>disc_props := None, disc_reason_code := 0\<rparr>)), Ok (int (length pk)))"
      unfolding D by simp
    moreover have "tvs = []" "level \<ge> 5 \<longrightarrow> reason = 0" using False ok(2) by auto
    ultimately show ?thesis using H(1) by simp
  next
    case True
    define c where "c = (if tvs \<noteq> [] then props_block tvs else [])"
    have b: "bd = [reason] @ c" using True by (simp add: bd(1) disc_body_def c_def)
    have lb: "length bd = 1 + length c" by (simp add: b)
    note bs = blk_split [OF h(3) b h(7), folded p_def]
    have le: "int (p + 1 + length c) \<le> L" "int (p + 1) \<le> L" using h(4) lb by (simp_all add: p_def)
    have r: "rd m p = Ok reason" using bs(1) le by (intro rd_at [OF L]) auto
    let ?a = "a\<lparr>disc_props := None, disc_reason_code := reason\<rparr>"
    show ?thesis
    proof (cases "tvs = []")
      case nil: True
      then have "MqttDecode_Disconnect H (Some m) L (Some a) = ((H, Some ?a), Ok (int (length pk)))"
        unfolding D using le by (simp add: r lb c_def)
      then show ?thesis using nil H(1) by simp
    next
      case False
      have pok: "props_ok 14 tvs" using ok(1) True by (simp add: disc_ok_def)
      have c: "c = props_block tvs" using False by (simp add: c_def)
      have lc: "0 < length c" unfolding c by (cases "vbi_bytes (length (props_bytes tvs))") (simp_all add: props_block_def)
      have pb: "blk m (p + 1) (length (props_block tvs)) = props_block tvs" using bs(2) by (simp add: c)
      from block_at(1) [OF H L pb _ pok auth_ok_other [OF _ pok], of OUT_OF_BUFFER] le c obtain H' h' where
        d: "dec_block (le_rest L (p + 1) OUT_OF_BUFFER) 14 m L (p + 1) H = ((H', h'), Ok (p + 1 + length (props_block tvs)))"
        "holds H H' h' tvs" by auto
      have "MqttDecode_Disconnect H (Some m) L (Some a) = ((H', Some (?a\<lparr>disc_props := h'\<rparr>)), Ok (int (length pk)))"
        unfolding D using le lc d(1) by (simp add: r lb)
      then show ?thesis using d(2) by simp
    qed
  qed
qed

lemma MqttDecode_Auth_complete:
  assumes H: "live_list H None []" "length tvs \<le> card (free_cells H)" and L: "rx_ok m L"
    and ok: "auth_pk_ok reason tvs" "auth_ok tvs"
    and bd: "bd = auth_body reason tvs" "length bd \<le> 0x0FFFFFFF"
    and pk: "pk = type_flags 15 0 0 0 # vbi_bytes (length bd) @ bd" "blk m 0 (length pk) = pk" "int (length pk) \<le> L"
  shows "\<exists>H' a'. MqttDecode_Auth H (Some m) L (Some a) = ((H', Some a'), Ok (int (length pk))) \<and>
    auth_reason_code a' = reason \<and> holds H H' (auth_props a') tvs"
proof -
  obtain h where h: "MqttDecode_FixedHeader m L 15 = Ok h" "fh_remain_len h = int (length bd)"
    "blk m (fh_header_len h) (length bd) = bd" "int (fh_header_len h + length bd) \<le> L"
    "length pk = fh_header_len h + length bd" "\<not> L \<le> 0" "fh_header_len h + length bd \<le> length m"
    using header_read [OF L pk bd(2)] plain_flags [of 15] by auto
  define p where "p = fh_header_len h"
  note D = MqttDecode_Auth_def option.case prod.case if_not_P [OF h(6)] h(1,2,5) p_def [symmetric] at_state_simps Let_def
  show ?thesis
  proof (cases "reason = 0 \<and> tvs = []")
    case True
    then have "bd = []" by (simp add: bd(1) auth_body_def)
    then have "MqttDecode_Auth H (Some m) L (Some a) = ((H, Some (a\<lparr>auth_props := None, auth_reason_code := 0\<rparr>)), Ok (int (length pk)))"
      unfolding D by simp
    then show ?thesis using H(1) True by simp
  next
    case False
    then have b: "bd = [reason] @ props_block tvs" by (simp add: bd(1) auth_body_def)
    have lb: "length bd = 1 + length (props_block tvs)" by (simp add: b)
    note bs = blk_split [OF h(3) b h(7), folded p_def]
    have le: "int (p + 1 + length (props_block tvs)) \<le> L" "int (p + 1) \<le> L" using h(4) lb by (simp_all add: p_def)
    have r: "rd m p = Ok reason" using bs(1) le by (intro rd_at [OF L]) auto
    have pok: "props_ok 15 tvs" and ne: "tvs \<noteq> []" using ok(1) False by (auto simp: auth_pk_ok_def)
    have pb: "blk m (p + 1) (length (props_block tvs)) = props_block tvs" using bs(2) by simp
    let ?n = "length (props_bytes tvs)"
    have ck: "auth_len_check L (p + 1) (word_of_nat ?n) (length (vbi_bytes ?n)) = None"
      using rest_checks(1) [OF L le(1) pok, of MALFORMED_DATA] le(1)
      by (simp add: auth_len_check_def le_rest_def props_block_def split: if_splits)
    from dec_block_complete [where bad = "auth_len_check L (p + 1)", OF H L pb le(1) pok ok(2) ck] obtain H' h' where
      d: "dec_block (auth_len_check L (p + 1)) 15 m L (p + 1) H = ((H', h'), Ok (p + 1 + length (props_block tvs)))"
      "holds H H' h' tvs" by blast
    have h': "h' \<noteq> None" using d(2) ne by (cases h') (auto dest: holds_None)
    have rs: "reason = 0 \<or> reason = 0x18 \<or> reason = 0x19" using ok(1) by (simp add: auth_pk_ok_def)
    have "MqttDecode_Auth H (Some m) L (Some a) = ((H', Some (a\<lparr>auth_reason_code := reason, auth_props := h'\<rparr>)), Ok (int (length pk)))"
      unfolding D using le d(1) h' rs by (simp add: r lb)
    then show ?thesis using d(2) by simp
  qed
qed

section \<open>The contract of the codecs\<close>

definition disc_value :: "store \<Rightarrow> MqttDisconnect \<Rightarrow> (nat \<times> prop_value) list" where
  "disc_value H a = (if disc_level a \<ge> MQTT_CONNECT_PROTOCOL_LEVEL_5 then prop_list H (disc_props a) else [])"

lemma disc_old:
  "disc_body (disc_level a) c (disc_value H a) = disc_body (disc_level a) c (prop_list H (disc_props a))"
  "disc_ok (disc_level a) c (disc_value H a) = disc_ok (disc_level a) c (prop_list H (disc_props a))"
  by (simp_all add: disc_body_def disc_ok_def disc_value_def)

interpretation disc: packet_codec
  "\<lambda>(H, a) m tx_buf_len. MqttEncode_Disconnect H (Some m) tx_buf_len (Some a)"
  "\<lambda>(D, d) m rx_buf_len. MqttDecode_Disconnect D (Some m) rx_buf_len d"
  "\<lambda>_. type_flags 14 0 0 0"
  "\<lambda>(H, a). disc_body (disc_level a) (disc_reason_code a) (disc_value H a)"
  "\<lambda>(H, a). props_src H (disc_props a)"
  "\<lambda>(H, a). disc_ok (disc_level a) (disc_reason_code a) (disc_value H a)"
  "\<lambda>(D, d). live_list D None [] \<and> d \<noteq> None"
  "\<lambda>(H, a) (D, d). length (disc_value H a) \<le> card (free_cells D)"
  "\<lambda>(H, a) (D, _) (D', d). \<exists>d'. d = Some d' \<and> (disc_level a \<ge> 5 \<longrightarrow> disc_reason_code d' = disc_reason_code a) \<and>
     holds D D' (disc_props d') (disc_value H a)"
  "\<lambda>(D, _) (D', _). released D D'"
proof (unfold_locales, goal_cases)
  case (1 s L m)
  obtain H a where s: "s = (H, a)" by fastforce
  show ?case using 1 MqttEncode_Disconnect_eq(1) [of H a L m] unfolding s prod.case disc_old by simp
next
  case (2 s L m)
  obtain H a where s: "s = (H, a)" by fastforce
  show ?case using 2 MqttEncode_Disconnect_eq [of H a L m] send_packet_small [of L m] unfolding s prod.case disc_old by fastforce
next
  case (3 s d m L pk)
  obtain H a where s: "s = (H, a)" by fastforce
  obtain D d0 where d: "d = (D, Some d0)" using 3(2) by (cases d) auto
  have f: "length (disc_value H a) \<le> card (free_cells D)" "live_list D None []" using 3(2,3) by (simp_all add: s d)
  have ok: "disc_ok (disc_level a) (disc_reason_code a) (disc_value H a)" using 3(1) by (simp add: s)
  have old: "\<not> disc_level a \<ge> 5 \<longrightarrow> disc_value H a = []" by (simp add: disc_value_def)
  from MqttDecode_Disconnect_complete [OF f(2,1) 3(4) ok old refl _ _ 3(7,8), of d0] 3(5,6)
  show ?case unfolding s d prod.case by fastforce
next
  case (4 d m L d' x)
  obtain D d0 where d: "d = (D, Some d0)" using 4(1) by (cases d) auto
  have H: "live_list D None []" using 4(1) by (simp add: d)
  obtain D' r' y where r: "MqttDecode_Disconnect D (Some m) L (Some d0) = ((D', r'), y)" by (metis prod_cases3 prod.collapse)
  have "d' = (D', r')" "x = y" using 4(3) by (simp_all add: d r)
  then show ?case using MqttDecode_Disconnect_post [OF H 4(2), of d0] unfolding r d by (auto elim!: postE)
qed

interpretation auth: packet_codec
  "\<lambda>(H, a) m tx_buf_len. MqttEncode_Auth H (Some m) tx_buf_len (Some a)"
  "\<lambda>(D, d) m rx_buf_len. MqttDecode_Auth D (Some m) rx_buf_len d"
  "\<lambda>_. type_flags 15 0 0 0"
  "\<lambda>(H, a). auth_body (auth_reason_code a) (prop_list H (auth_props a))"
  "\<lambda>(H, a). props_src H (auth_props a)"
  "\<lambda>(H, a). auth_pk_ok (auth_reason_code a) (prop_list H (auth_props a))"
  "\<lambda>(D, d). live_list D None [] \<and> d \<noteq> None"
  "\<lambda>(H, a) (D, d). auth_ok (prop_list H (auth_props a)) \<and> length (prop_list H (auth_props a)) \<le> card (free_cells D)"
  "\<lambda>(H, a) (D, _) (D', d). \<exists>d'. d = Some d' \<and> auth_reason_code d' = auth_reason_code a \<and>
     holds D D' (auth_props d') (prop_list H (auth_props a))"
  "\<lambda>(D, _) (D', _). released D D'"
proof (unfold_locales, goal_cases)
  case (1 s L m)
  obtain H a where s: "s = (H, a)" by fastforce
  show ?case using 1 MqttEncode_Auth_eq(1) [of H a L m] unfolding s by simp
next
  case (2 s L m)
  obtain H a where s: "s = (H, a)" by fastforce
  show ?case using 2 MqttEncode_Auth_eq [of H a L m] unfolding s by fastforce
next
  case (3 s d m L pk)
  obtain H a where s: "s = (H, a)" by fastforce
  obtain D d0 where d: "d = (D, Some d0)" using 3(2) by (cases d) auto
  have f: "length (prop_list H (auth_props a)) \<le> card (free_cells D)" "live_list D None []" "auth_ok (prop_list H (auth_props a))"
    using 3(2,3) by (simp_all add: s d)
  have ok: "auth_pk_ok (auth_reason_code a) (prop_list H (auth_props a))" using 3(1) by (simp add: s)
  from MqttDecode_Auth_complete [OF f(2,1) 3(4) ok f(3) refl _ _ 3(7,8), of d0] 3(5,6)
  show ?case unfolding s d prod.case by fastforce
next
  case (4 d m L d' x)
  obtain D d0 where d: "d = (D, Some d0)" using 4(1) by (cases d) auto
  have H: "live_list D None []" using 4(1) by (simp add: d)
  obtain D' r' y where r: "MqttDecode_Auth D (Some m) L (Some d0) = ((D', r'), y)" by (metis prod_cases3 prod.collapse)
  have "d' = (D', r')" "x = y" using 4(3) by (simp_all add: d r)
  then show ?case using MqttDecode_Auth_post [OF H 4(2), of d0] unfolding r d by (auto elim!: postE)
qed

section \<open>Properties\<close>

text \<open>What \<^verbatim>\<open>MqttEncode_Disconnect\<close> writes is decoded by \<^verbatim>\<open>MqttDecode_Disconnect\<close> to the same properties, and
  on a v5 connection to the same reason code; a normal v5 disconnection without properties takes the
  short form and is read back as reason code zero.\<close>

theorem disconnect_round_trip:
  assumes "props_src H (disc_props a)" "tx_buf_len \<le> int (length m)" "tx_buf_len < 2147483648"
    and "MqttEncode_Disconnect H (Some m) tx_buf_len (Some a) = Ok (m', k)"
    and "live_list D None []" "length (disc_value H a) \<le> card (free_cells D)"
  shows "\<exists>D' d'. MqttDecode_Disconnect D (Some m') (int k) (Some d) = ((D', Some d'), Ok (int k)) \<and>
    (disc_level a \<ge> 5 \<longrightarrow> disc_reason_code d' = disc_reason_code a) \<and> holds D D' (disc_props d') (disc_value H a)"
  using disc.round_trip [of "(H, a)" tx_buf_len m m' k "(D, Some d)"] assms
  by (cases "MqttDecode_Disconnect D (Some m') (int k) (Some d)") auto

theorem disconnect_round_trip_witness:
  "\<exists>m' k D' d'. MqttEncode_Disconnect [] (Some (replicate 8 0)) 8 (Some \<lparr>disc_reason_code = 4, disc_props = None, disc_level = 5\<rparr>) = Ok (m', k) \<and>
     MqttDecode_Disconnect (replicate 30 zero_prop) (Some m') (int k)
       (Some \<lparr>disc_reason_code = 0, disc_props = None, disc_level = 5\<rparr>) = ((D', Some d'), Ok (int k)) \<and>
     disc_reason_code d' = 4"
proof -
  let ?r = "\<lparr>disc_reason_code = 4, disc_props = None, disc_level = 5\<rparr> :: MqttDisconnect"
  let ?d = "\<lparr>disc_reason_code = 0, disc_props = None, disc_level = 5\<rparr> :: MqttDisconnect"
  have "disc_ok 5 4 []" by (simp add: disc_ok_def MqttPacket_DisconnectReasonCodeValid_def props_ok_def)
  then have "\<exists>m' k. MqttEncode_Disconnect [] (Some (replicate 8 0)) 8 (Some ?r) = Ok (m', k)"
    using MqttEncode_Disconnect_eq(1) [of "[]" ?r 8 "replicate 8 0"]
    by (simp add: send_packet_def Let_def disc_body_def vbi_bytes_small)
  then obtain m' k where e: "MqttEncode_Disconnect [] (Some (replicate 8 0)) 8 (Some ?r) = Ok (m', k)" by blast
  have "live_list (replicate 30 zero_prop) None []" by (simp add: live_list_def)
  from disconnect_round_trip [OF _ _ _ e this, of ?d] e show ?thesis by (auto simp: disc_value_def)
qed

text \<open>what \<^verbatim>\<open>MqttEncode_Auth\<close> writes is decoded by \<^verbatim>\<open>MqttDecode_Auth\<close> to the same reason code and properties,
  provided Authentication Data comes with an Authentication Method; the short form of a success
  without properties included.\<close>

theorem auth_round_trip:
  assumes "props_src H (auth_props a)" "tx_buf_len \<le> int (length m)" "tx_buf_len < 2147483648"
    and "MqttEncode_Auth H (Some m) tx_buf_len (Some a) = Ok (m', k)" "auth_ok (prop_list H (auth_props a))"
    and "live_list D None []" "length (prop_list H (auth_props a)) \<le> card (free_cells D)"
  shows "\<exists>D' d'. MqttDecode_Auth D (Some m') (int k) (Some d) = ((D', Some d'), Ok (int k)) \<and>
    auth_reason_code d' = auth_reason_code a \<and> holds D D' (auth_props d') (prop_list H (auth_props a))"
  using auth.round_trip [of "(H, a)" tx_buf_len m m' k "(D, Some d)"] assms
  by (cases "MqttDecode_Auth D (Some m') (int k) (Some d)") auto

theorem auth_round_trip_witness:
  "\<exists>m' k D' d'. MqttEncode_Auth [] (Some (replicate 8 0)) 8 (Some \<lparr>auth_reason_code = 0, auth_props = None\<rparr>) = Ok (m', k) \<and>
     MqttDecode_Auth (replicate 30 zero_prop) (Some m') (int k)
       (Some \<lparr>auth_reason_code = 9, auth_props = None\<rparr>) = ((D', Some d'), Ok (int k)) \<and> auth_reason_code d' = 0"
proof -
  let ?r = "\<lparr>auth_reason_code = 0, auth_props = None\<rparr> :: MqttAuth"
  let ?d = "\<lparr>auth_reason_code = 9, auth_props = None\<rparr> :: MqttAuth"
  have "auth_pk_ok 0 []" by (simp add: auth_pk_ok_def props_ok_def)
  then have "\<exists>m' k. MqttEncode_Auth [] (Some (replicate 8 0)) 8 (Some ?r) = Ok (m', k)"
    using MqttEncode_Auth_eq(1) [of "[]" ?r 8 "replicate 8 0"]
    by (simp add: send_packet_def Let_def auth_body_def vbi_bytes_small)
  then obtain m' k where e: "MqttEncode_Auth [] (Some (replicate 8 0)) 8 (Some ?r) = Ok (m', k)" by blast
  have "live_list (replicate 30 zero_prop) None []" by (simp add: live_list_def)
  from auth_round_trip [OF _ _ _ e _ this, of ?d] e show ?thesis by (auto simp: auth_ok_def)
qed

lemma ping_resp_byte: "MQTT_PACKET_TYPE_GET tf = 13 \<and> MqttPacket_FixedHeaderFlagsValid tf \<longleftrightarrow> tf = 0xD0"
  by (rule byte_cases_256) code_simp

text \<open>\<^verbatim>\<open>MqttEncode_Ping\<close> writes the two bytes of a PINGREQ, and \<^verbatim>\<open>MqttDecode_Ping\<close> accepts exactly the two bytes
  of a PINGRESP.\<close>

theorem ping_exact:
  assumes "rx_ok m L" "5 \<le> L"
  shows "MqttEncode_Ping (Some m) L = Ok (splice_at m 0 [0xC0, 0], 2) \<and>
    (MqttDecode_Ping (Some m) L = Ok k \<longleftrightarrow> k = 2 \<and> blk m 0 2 = [0xD0, 0])"
proof
  have tf: "type_flags 12 0 0 0 = 0xC0" by code_simp
  show "MqttEncode_Ping (Some m) L = Ok (splice_at m 0 [0xC0, 0], 2)"
    using assms by (simp add: MqttEncode_Ping_def MqttEncode_FixedHeader_eq header_bytes_def tf vbi_bytes_small wr_def rx_ok_def)
next
  have L: "L < 2 ^ 32" "L \<le> int (length m)" using assms(1) by (simp_all add: rx_ok_def)
  have v0: "vbi_bytes 0 = [0]" by (simp add: vbi_bytes_small)
  show "MqttDecode_Ping (Some m) L = Ok k \<longleftrightarrow> k = 2 \<and> blk m 0 2 = [0xD0, 0]"
  proof
    assume d: "MqttDecode_Ping (Some m) L = Ok k"
    then obtain h where h: "MqttDecode_FixedHeader m L 13 = Ok h" "fh_remain_len h = 0" "k = int (fh_header_len h)"
      using assms(2) by (auto simp: MqttDecode_Ping_def bnd_Ok_iff split: if_splits)
    from MqttDecode_FixedHeader_sound [OF h(1) L(1)] obtain tf n where n: "h = header_of tf n"
      "blk m 0 (fh_header_len h) = tf # vbi_bytes n" "MQTT_PACKET_TYPE_GET tf = 13" "MqttPacket_FixedHeaderFlagsValid tf" by metis
    then show "k = 2 \<and> blk m 0 2 = [0xD0, 0]" using h(2,3) ping_resp_byte [of tf] v0 by (auto simp: numeral_2_eq_2)
  next
    assume a: "k = 2 \<and> blk m 0 2 = [0xD0, 0]"
    have "MqttDecode_FixedHeader m L 13 = Ok (header_of 0xD0 0)"
      using a assms(2) L ping_resp_byte [of "0xD0"]
      by (intro MqttDecode_FixedHeader_complete) (auto simp: v0 numeral_2_eq_2)
    then show "MqttDecode_Ping (Some m) L = Ok k" using a assms(2) by (simp add: MqttDecode_Ping_def v0)
  qed
qed

theorem ping_exact_witness:
  "MqttEncode_Ping (Some [0xD0, 0, 0, 0, 0]) 5 = Ok ([0xC0, 0, 0, 0, 0], 2) \<and> MqttDecode_Ping (Some [0xD0, 0, 0, 0, 0]) 5 = Ok 2"
  using ping_exact [of "[0xD0, 0, 0, 0, 0]" 5 2] by (simp add: rx_ok_def blk_def splice_at_def)

end
