(* ===== verification/Packet_Subscribe.thy ===== *)
theory Packet_Subscribe
  imports Packet_Codec
begin

text \<open>
  SUBSCRIBE and UNSUBSCRIBE: \<^verbatim>\<open>MqttEncode_Subscribe\<close>, \<^verbatim>\<open>MqttDecode_Subscribe\<close>, \<^verbatim>\<open>MqttEncode_Unsubscribe\<close> and
  \<^verbatim>\<open>MqttDecode_Unsubscribe\<close> of \<^verbatim>\<open>src/mqtt_packet.c\<close>.  The two packets differ in the options byte behind each
  topic filter only, which the flag \<open>sub\<close> of the shared steps stands for.
\<close>

section \<open>Operations\<close>

abbreviation (input) "MAX_MQTT_TOPICS \<equiv> (12 :: nat)"
abbreviation (input) "MQTT_SUBSCRIBE_NO_LOCAL \<equiv> (0x04 :: byte)"
abbreviation (input) "MQTT_SUBSCRIBE_OPTIONS_MASK \<equiv> (0x3C :: byte)"

record MqttTopic =
  topic_filter :: "byte list option"
  topic_qos :: MqttQoS
  sub_options :: byte

text \<open>\<^verbatim>\<open>struct _MqttSubscribe\<close> and \<^verbatim>\<open>struct _MqttUnsubscribe\<close> have the same fields here; \<open>topics\<close> is the caller's array.\<close>

record MqttSubscribe =
  sub_packet_id :: word16
  topic_count :: int
  topics :: "MqttTopic list option"
  sub_props :: "nat option"
  sub_level :: byte

subsection \<open>Encode\<close>

text \<open>The checks on one topic and the length it takes in the packet.\<close>

definition topic_len :: "bool \<Rightarrow> byte \<Rightarrow> MqttTopic \<Rightarrow> nat outcome" where
  "topic_len sub level topic =
     (case topic_filter topic of
        None \<Rightarrow> Err BAD_ARG
      | Some f \<Rightarrow>
          if XSTRLEN f > 0xFFFF then Err BAD_ARG
          else if sub \<and> topic_qos topic > MQTT_QOS_2 then Err BAD_ARG
          else bnd (MqttPacket_TopicFilterValid_ex (Some f) (XSTRLEN f) level) (\<lambda>valid.
            if \<not> valid then Err MALFORMED_DATA
            else bnd (MqttEncode_Utf8Ok (Some f) (XSTRLEN f)) (\<lambda>utf8.
              if \<not> utf8 then Err MALFORMED_DATA
              else Ok (XSTRLEN f + MQTT_DATA_LEN_SIZE + (if sub then 1 else 0)))))"

fun topics_len :: "bool \<Rightarrow> byte \<Rightarrow> nat \<Rightarrow> MqttTopic list \<Rightarrow> int \<Rightarrow> int outcome" where
  "topics_len sub level 0 ts remain_len = Ok remain_len"
| "topics_len sub level (Suc n) ts remain_len =
     (case ts of
        [] \<Rightarrow> Fault
      | t # ts' \<Rightarrow> bnd (topic_len sub level t) (\<lambda>k.
          bnd (ck_int (remain_len + int k)) (topics_len sub level n ts')))"

definition put_options :: "byte \<Rightarrow> MqttTopic \<Rightarrow> cursor \<Rightarrow> cursor outcome" where
  "put_options level topic cur =
     (if level \<ge> MQTT_CONNECT_PROTOCOL_LEVEL_5 then
        if sub_options topic AND NOT MQTT_SUBSCRIBE_OPTIONS_MASK \<noteq> 0 \<or> drop_bit 4 (sub_options topic) AND 3 = 3
        then Err MALFORMED_DATA
        else bnd (if sub_options topic AND MQTT_SUBSCRIBE_NO_LOCAL \<noteq> 0
                  then MqttPacket_TopicFilterIsShared (topic_filter topic) (XSTRLEN (the (topic_filter topic)))
                  else Ok False) (\<lambda>shared.
          if shared then Err MALFORMED_DATA
          else put_bytes [qos_code (topic_qos topic) OR (sub_options topic AND MQTT_SUBSCRIBE_OPTIONS_MASK)] cur)
      else put_bytes [qos_code (topic_qos topic)] cur)"

definition put_topic :: "bool \<Rightarrow> byte \<Rightarrow> MqttTopic \<Rightarrow> cursor \<Rightarrow> cursor outcome" where
  "put_topic sub level topic =
     puts [put (\<lambda>m buf. MqttEncode_String m buf (the (topic_filter topic))),
           if sub then put_options level topic else put_nothing]"

definition enc_topics ::
  "bool \<Rightarrow> byte \<Rightarrow> store \<Rightarrow> mem option \<Rightarrow> int \<Rightarrow> MqttSubscribe option \<Rightarrow> (mem \<times> nat) outcome" where
  "enc_topics sub ptype H tx_buf tx_buf_len subscribe =
     (case (tx_buf, subscribe) of
        (Some m, Some s) \<Rightarrow>
          if sub_packet_id s = 0 then Err PACKET_ID
          else if topic_count s \<le> 0 then Err BAD_ARG
          else (case topics s of
            None \<Rightarrow> Err BAD_ARG
          | Some ts \<Rightarrow>
              let v5 = (sub_level s \<ge> MQTT_CONNECT_PROTOCOL_LEVEL_5); n = nat (topic_count s) in
              bnd (topics_len sub (sub_level s) n ts (int MQTT_DATA_LEN_SIZE)) (\<lambda>remain_len0.
              bnd (if v5 then props_len_pass ptype H (sub_props s) m else Ok (0, 0)) (\<lambda>(props_len, tmp_len).
              bnd (ck_int (remain_len0 + int props_len + int tmp_len)) (\<lambda>remain_len.
              enc_frame m tx_buf_len (nat remain_len) ptype 0 1 0
                (puts ([put (\<lambda>m buf. MqttEncode_Num m buf (sub_packet_id s)),
                        if v5 then put_props ptype H (sub_props s) props_len else put_nothing] @
                       map (put_topic sub (sub_level s)) (take n ts)))))))
      | _ \<Rightarrow> Err BAD_ARG)"

definition MqttEncode_Subscribe ::
  "store \<Rightarrow> mem option \<Rightarrow> int \<Rightarrow> MqttSubscribe option \<Rightarrow> (mem \<times> nat) outcome" where
  "MqttEncode_Subscribe = enc_topics True MQTT_PACKET_TYPE_SUBSCRIBE"

definition MqttEncode_Unsubscribe ::
  "store \<Rightarrow> mem option \<Rightarrow> int \<Rightarrow> MqttSubscribe option \<Rightarrow> (mem \<times> nat) outcome" where
  "MqttEncode_Unsubscribe = enc_topics False MQTT_PACKET_TYPE_UNSUBSCRIBE"

subsection \<open>Decode\<close>

text \<open>The check of an options byte.\<close>

definition options_bad :: "byte \<Rightarrow> byte list \<Rightarrow> byte \<Rightarrow> bool outcome" where
  "options_bad level f options =
     (if level \<ge> MQTT_CONNECT_PROTOCOL_LEVEL_5 then
        if options AND 0xC0 \<noteq> 0 \<or> options AND 3 > 2 \<or> drop_bit 4 options AND 3 = 3 then Ok True
        else if options AND MQTT_SUBSCRIBE_NO_LOCAL \<noteq> 0
        then MqttPacket_TopicFilterIsShared (Some f) (length f) else Ok False
      else Ok (options AND 0xFC \<noteq> 0 \<or> options AND 3 > 2))"

text \<open>The loop over the payload, from \<open>p\<close> to \<open>rx_end\<close>: the array of topics and their number.\<close>

function dec_topics_loop ::
  "bool \<Rightarrow> byte \<Rightarrow> mem \<Rightarrow> nat \<Rightarrow> MqttTopic list \<Rightarrow> nat \<Rightarrow> nat \<Rightarrow> (MqttTopic list \<times> nat) \<times> unit outcome" where
  "dec_topics_loop sub level m rx_end ts n p =
     (if p < rx_end then
        if n \<ge> MAX_MQTT_TOPICS then ((ts, n), Err OUT_OF_BUFFER)
        else if n \<ge> length ts then ((ts, n), Fault)
        else at_state (MqttDecode_String m p (rx_left (int rx_end) p)) (ts, n) (\<lambda>(f, tmp).
          let t1 = (ts ! n)\<lparr>topic_filter := Some f\<rparr>; s1 = (ts[n := t1], n); q = p + tmp in
          if q > rx_end then (s1, Err OUT_OF_BUFFER)
          else at_state (MqttPacket_TopicFilterValid_ex (Some f) (length f) level) s1 (\<lambda>valid.
            if \<not> valid then (s1, Err MALFORMED_DATA)
            else if sub then
              if q \<ge> rx_end then (s1, Err OUT_OF_BUFFER)
              else at_state (rd m q) s1 (\<lambda>options.
                at_state (options_bad level f options) s1 (\<lambda>bad.
                  if bad then (s1, Err MALFORMED_DATA)
                  else dec_topics_loop sub level m rx_end
                         (ts[n := t1\<lparr>topic_qos := qos_of (options AND 3),
                                     sub_options := options AND MQTT_SUBSCRIBE_OPTIONS_MASK\<rparr>]) (n + 1) (q + 1)))
            else dec_topics_loop sub level m rx_end (ts[n := t1]) (n + 1) q))
      else ((ts, n), Ok ()))"
  by pat_completeness auto
termination
  by (relation "measure (\<lambda>(sub, level, m, rx_end, ts, n, p). MAX_MQTT_TOPICS - n)") auto

text \<open>The payload, and the checks behind the loop: the properties go back to the pool when a topic is refused.\<close>

definition finish_topics ::
  "bool \<Rightarrow> mem \<Rightarrow> nat \<Rightarrow> MqttTopic list \<Rightarrow> store \<times> MqttSubscribe \<Rightarrow> nat \<Rightarrow> (store \<times> MqttSubscribe) \<times> int outcome" where
  "finish_topics sub m rx_end ts = (\<lambda>(H, s) p.
     case dec_topics_loop sub (sub_level s) m rx_end ts 0 p of
       ((ts1, n), r) \<Rightarrow>
         (let s1 = s\<lparr>topics := Some ts1, topic_count := int n\<rparr> in
          case r of
            Fault \<Rightarrow> ((H, s1), Fault)
          | Err e \<Rightarrow> fail_free e H (sub_props s1) (s1\<lparr>sub_props := None\<rparr>)
          | Ok _ \<Rightarrow> if n = 0 then fail_free MALFORMED_DATA H (sub_props s1) (s1\<lparr>sub_props := None\<rparr>)
                   else ((H, s1), Ok (int rx_end))))"

definition dec_topics ::
  "bool \<Rightarrow> byte \<Rightarrow> store \<Rightarrow> mem option \<Rightarrow> int \<Rightarrow> MqttSubscribe option \<Rightarrow> (store \<times> MqttSubscribe option) \<times> int outcome" where
  "dec_topics sub ptype H rx_buf rx_buf_len subscribe =
     (case (rx_buf, subscribe) of
        (Some m, Some s) \<Rightarrow>
          if rx_buf_len \<le> 0 then ((H, subscribe), Err BAD_ARG)
          else (case topics s of
            None \<Rightarrow> ((H, subscribe), Err BAD_ARG)
          | Some ts \<Rightarrow>
              some_state (at_state (MqttDecode_FixedHeader m rx_buf_len ptype) (H, s) (\<lambda>h.
              let p = fh_header_len h; rx_end = nat (int p + fh_remain_len h) in
              if rx_buf_len < int p + fh_remain_len h then ((H, s), Err OUT_OF_BUFFER)
              else at_state (MqttDecode_Num m p (rx_left rx_buf_len p)) (H, s) (\<lambda>(pid, tmp).
              if pid = 0 then ((H, s\<lparr>sub_packet_id := pid\<rparr>), Err PACKET_ID)
              else let s1 = s\<lparr>sub_packet_id := pid, sub_props := None\<rparr> in
              if sub_level s1 \<ge> MQTT_CONNECT_PROTOCOL_LEVEL_5 then
                if rx_buf_len < int (p + tmp) then ((H, s1), Err OUT_OF_BUFFER)
                else then_state (with_props (\<lambda>h. s1\<lparr>sub_props := h\<rparr>) (dec_block no_check ptype m rx_buf_len (p + tmp) H))
                       (finish_topics sub m rx_end ts)
              else finish_topics sub m rx_end ts (H, s1) (p + tmp)))))
      | _ \<Rightarrow> ((H, subscribe), Err BAD_ARG))"

definition MqttDecode_Subscribe ::
  "store \<Rightarrow> mem option \<Rightarrow> int \<Rightarrow> MqttSubscribe option \<Rightarrow> (store \<times> MqttSubscribe option) \<times> int outcome" where
  "MqttDecode_Subscribe = dec_topics True MQTT_PACKET_TYPE_SUBSCRIBE"

definition MqttDecode_Unsubscribe ::
  "store \<Rightarrow> mem option \<Rightarrow> int \<Rightarrow> MqttSubscribe option \<Rightarrow> (store \<times> MqttSubscribe option) \<times> int outcome" where
  "MqttDecode_Unsubscribe = dec_topics False MQTT_PACKET_TYPE_UNSUBSCRIBE"

section \<open>Topics on the wire\<close>

definition filter_rule :: "byte \<Rightarrow> byte list \<Rightarrow> bool" where
  "filter_rule level f = (if level \<ge> MQTT_CONNECT_PROTOCOL_LEVEL_5 \<and> take 7 f = share_prefix then share_ok f else filter_ok f)"

text \<open>A topic that passes the length pass, and the options that pass the write pass.\<close>

definition topic_ok :: "bool \<Rightarrow> byte \<Rightarrow> MqttTopic \<Rightarrow> bool" where
  "topic_ok sub level t \<longleftrightarrow> (\<exists>f. topic_filter t = Some f \<and> utf8_str (cstr_bytes f) \<and> filter_rule level (cstr_bytes f) \<and>
     (sub \<longrightarrow> topic_qos t \<noteq> MQTT_QOS_3))"

definition options_ok :: "byte \<Rightarrow> byte list \<Rightarrow> byte \<Rightarrow> bool" where
  "options_ok level f opts \<longleftrightarrow> (level \<ge> MQTT_CONNECT_PROTOCOL_LEVEL_5 \<longrightarrow>
     opts AND NOT MQTT_SUBSCRIBE_OPTIONS_MASK = 0 \<and> drop_bit 4 opts AND 3 \<noteq> 3 \<and>
     (opts AND MQTT_SUBSCRIBE_NO_LOCAL \<noteq> 0 \<longrightarrow> take 7 f \<noteq> share_prefix))"

definition topic_str :: "MqttTopic \<Rightarrow> byte list" where
  "topic_str t = cstr_bytes (the (topic_filter t))"

definition options_byte :: "byte \<Rightarrow> MqttTopic \<Rightarrow> byte" where
  "options_byte level t = qos_code (topic_qos t) OR
     (if level \<ge> MQTT_CONNECT_PROTOCOL_LEVEL_5 then sub_options t AND MQTT_SUBSCRIBE_OPTIONS_MASK else 0)"

definition topic_bytes :: "bool \<Rightarrow> byte \<Rightarrow> MqttTopic \<Rightarrow> byte list" where
  "topic_bytes sub level t = str_bytes (topic_str t) @ (if sub then [options_byte level t] else [])"

lemma filter_valid_cstr:
  "MqttPacket_TopicFilterValid_ex (Some f) (XSTRLEN f) v = Ok (filter_rule v (cstr_bytes f))"
  by (simp add: filter_valid_eq XSTRLEN_le cstr_bytes_take filter_rule_def)

lemma filter_valid_full: "MqttPacket_TopicFilterValid_ex (Some f) (length f) v = Ok (filter_rule v f)"
  by (simp add: filter_valid_eq filter_rule_def)

lemma topic_len_ok: "topic_ok sub level t \<Longrightarrow> topic_len sub level t = Ok (length (topic_bytes sub level t))"
  by (auto simp: topic_ok_def topic_len_def utf8_str_def filter_valid_cstr utf8_cstr qos_gt_2 topic_bytes_def topic_str_def)

lemma topic_len_bad: "\<not> topic_ok sub level t \<Longrightarrow> \<exists>e. topic_len sub level t = Err e"
  by (auto simp: topic_ok_def topic_len_def utf8_str_def filter_valid_cstr utf8_cstr qos_gt_2 split: option.splits)

text \<open>The total length of the topics stays below the limit of \<^verbatim>\<open>int\<close>: what the caller owes.\<close>

definition topics_size :: "MqttTopic list \<Rightarrow> nat" where
  "topics_size ts = (\<Sum>t\<leftarrow>ts. length (topic_str t) + 3)"

lemma topic_bytes_size: "length (topic_bytes sub level t) \<le> length (topic_str t) + 3"
  by (simp add: topic_bytes_def)

lemma topics_bytes_size: "length (concat (map (topic_bytes sub level) ts)) \<le> topics_size ts"
  by (induction ts) (auto simp: topics_size_def topic_bytes_def)

lemma topics_len_ok:
  "n \<le> length ts \<Longrightarrow> \<forall>t \<in> set (take n ts). topic_ok sub level t \<Longrightarrow> acc + int (topics_size (take n ts)) < 2147483648 \<Longrightarrow> 0 \<le> acc \<Longrightarrow>
   topics_len sub level n ts acc = Ok (acc + int (length (concat (map (topic_bytes sub level) (take n ts)))))"
proof (induction n arbitrary: ts acc)
  case (Suc n)
  then obtain t ts' where ts: "ts = t # ts'" by (cases ts) auto
  let ?k = "length (topic_bytes sub level t)"
  have k: "?k \<le> length (topic_str t) + 3" by (rule topic_bytes_size)
  have b: "acc + int ?k < 2147483648" "acc + int ?k + int (topics_size (take n ts')) < 2147483648"
    using Suc.prems(3) k by (auto simp: ts topics_size_def)
  have "ck_int (acc + int ?k) = Ok (acc + int ?k)" using b(1) Suc.prems(4) by (simp add: ck_int_def)
  moreover have "topics_len sub level n ts' (acc + int ?k) =
      Ok (acc + int ?k + int (length (concat (map (topic_bytes sub level) (take n ts')))))"
    using Suc.prems b(2) by (intro Suc.IH) (auto simp: ts)
  ultimately show ?case using Suc.prems(2) by (simp add: ts topic_len_ok)
qed simp

lemma topics_len_bad:
  "n \<le> length ts \<Longrightarrow> \<not> (\<forall>t \<in> set (take n ts). topic_ok sub level t) \<Longrightarrow> acc + int (topics_size (take n ts)) < 2147483648 \<Longrightarrow> 0 \<le> acc \<Longrightarrow>
   \<exists>e. topics_len sub level n ts acc = Err e"
proof (induction n arbitrary: ts acc)
  case (Suc n)
  then obtain t ts' where ts: "ts = t # ts'" by (cases ts) auto
  show ?case
  proof (cases "topic_ok sub level t")
    case True
    let ?k = "length (topic_bytes sub level t)"
    have k: "?k \<le> length (topic_str t) + 3" by (rule topic_bytes_size)
    have b: "acc + int ?k < 2147483648" "acc + int ?k + int (topics_size (take n ts')) < 2147483648"
      using Suc.prems(3) k by (auto simp: ts topics_size_def)
    have "ck_int (acc + int ?k) = Ok (acc + int ?k)" using b(1) Suc.prems(4) by (simp add: ck_int_def)
    moreover have "\<exists>e. topics_len sub level n ts' (acc + int ?k) = Err e"
      using Suc.prems b(2) True by (intro Suc.IH) (auto simp: ts)
    ultimately show ?thesis using True by (simp add: ts topic_len_ok)
  next
    case False
    then show ?thesis using topic_len_bad [OF False] by (auto simp: ts)
  qed
qed simp

lemma put_options_emits:
  assumes "options_ok level (cstr_bytes f) (sub_options t)" "topic_filter t = Some f"
  shows "emits (put_options level t) [options_byte level t]"
proof -
  have "take 7 (take (XSTRLEN f) f) = take 7 (cstr_bytes f)" by (simp add: cstr_bytes_take)
  then show ?thesis using assms emits_bytes [of "[options_byte level t]"]
    by (auto simp: emits_def put_options_def options_ok_def options_byte_def is_shared_eq XSTRLEN_le)
qed

lemma put_topic_emits:
  assumes "topic_ok sub level t" "sub \<Longrightarrow> options_ok level (topic_str t) (sub_options t)"
  shows "emits (put_topic sub level t) (topic_bytes sub level t)"
proof -
  obtain f where f: "topic_filter t = Some f" "utf8_str (cstr_bytes f)" using assms(1) by (auto simp: topic_ok_def)
  have s: "XSTRLEN f \<le> 65535" using f(2) by (simp add: utf8_str_def)
  have "emits (put_topic sub level t) (str_bytes (cstr_bytes f) @ (if sub then [options_byte level t] else []) @ [])"
    unfolding put_topic_def f(1) option.sel using s f(1) assms(2)
    by (intro emits_intros put_options_emits [of level f]) (auto simp: topic_str_def)
  then show ?thesis by (simp add: topic_bytes_def topic_str_def f(1))
qed

lemma put_topic_bad:
  assumes "topic_ok True level t" "\<not> options_ok level (topic_str t) (sub_options t)" "p + length (topic_bytes True level t) \<le> length m"
  shows "\<exists>e. put_topic True level t (m, p) = Err e"
proof -
  obtain f where f: "topic_filter t = Some f" "utf8_str (cstr_bytes f)" using assms(1) by (auto simp: topic_ok_def)
  have s: "XSTRLEN f \<le> 65535" using f(2) by (simp add: utf8_str_def)
  have "emits (put (\<lambda>m buf. MqttEncode_String m buf f)) (str_bytes (cstr_bytes f))" using s by (intro emits_intros)
  from emitsD [OF this, of p m] have w: "put (\<lambda>m buf. MqttEncode_String m buf f) (m, p) =
      Ok (splice_at m p (str_bytes (cstr_bytes f)), p + length (str_bytes (cstr_bytes f)))"
    using assms(3) by (simp add: topic_bytes_def topic_str_def f(1))
  have "take 7 (take (XSTRLEN f) f) = take 7 (cstr_bytes f)" by (simp add: cstr_bytes_take)
  then have "\<exists>e. put_options level t cur = Err e" for cur
    using assms(2) f(1) by (auto simp: put_options_def options_ok_def is_shared_eq XSTRLEN_le topic_str_def)
  then obtain e where "put_options level t (splice_at m p (str_bytes (cstr_bytes f)), p + length (str_bytes (cstr_bytes f))) = Err e" by blast
  then show ?thesis unfolding put_topic_def f(1) option.sel puts.simps w bnd.simps if_True by simp
qed

lemma puts_append: "puts (fs @ gs) s = bnd (puts fs s) (puts gs)"
proof (induction fs arbitrary: s)
  case (Cons f fs)
  then have "puts (fs @ gs) = (\<lambda>s. bnd (puts fs s) (puts gs))" by (intro ext)
  then show ?case by (simp add: bnd_assoc)
qed simp

lemma put_topics_emits:
  "\<forall>t \<in> set ts. topic_ok sub level t \<and> (sub \<longrightarrow> options_ok level (topic_str t) (sub_options t)) \<Longrightarrow>
   emits (puts (map (put_topic sub level) ts)) (concat (map (topic_bytes sub level) ts))"
  by (induction ts) (auto intro!: emits_intros put_topic_emits simp del: puts.simps)

lemma put_topics_bad:
  "\<forall>t \<in> set ts. topic_ok True level t \<Longrightarrow> \<not> (\<forall>t \<in> set ts. options_ok level (topic_str t) (sub_options t)) \<Longrightarrow>
   p + length (concat (map (topic_bytes True level) ts)) \<le> length m \<Longrightarrow> \<exists>e. puts (map (put_topic True level) ts) (m, p) = Err e"
proof (induction ts arbitrary: m p)
  case (Cons t ts)
  show ?case
  proof (cases "options_ok level (topic_str t) (sub_options t)")
    case True
    have e: "emits (put_topic True level t) (topic_bytes True level t)" using Cons.prems(1) True by (intro put_topic_emits) auto
    have "put_topic True level t (m, p) = Ok (splice_at m p (topic_bytes True level t), p + length (topic_bytes True level t))"
      using Cons.prems(3) by (intro emitsD [OF e]) simp
    moreover have "\<exists>e. puts (map (put_topic True level) ts) (splice_at m p (topic_bytes True level t), p + length (topic_bytes True level t)) = Err e"
      using Cons.prems True by (intro Cons.IH) auto
    ultimately show ?thesis by simp
  next
    case False
    then show ?thesis using put_topic_bad [of level t p m] Cons.prems by auto
  qed
qed simp

section \<open>The packet\<close>

definition sub_topics :: "MqttSubscribe \<Rightarrow> MqttTopic list" where
  "sub_topics s = take (nat (topic_count s)) (the (topics s))"

definition topics_body :: "bool \<Rightarrow> byte \<Rightarrow> word16 \<Rightarrow> (nat \<times> prop_value) list \<Rightarrow> MqttTopic list \<Rightarrow> byte list" where
  "topics_body sub level pid tvs ts =
     num_bytes pid @ (if level \<ge> MQTT_CONNECT_PROTOCOL_LEVEL_5 then props_block tvs else []) @ concat (map (topic_bytes sub level) ts)"

definition topics_ok :: "bool \<Rightarrow> byte \<Rightarrow> byte \<Rightarrow> word16 \<Rightarrow> (nat \<times> prop_value) list \<Rightarrow> MqttTopic list \<Rightarrow> bool" where
  "topics_ok sub ptype level pid tvs ts \<longleftrightarrow> pid \<noteq> 0 \<and> ts \<noteq> [] \<and>
     (\<forall>t \<in> set ts. topic_ok sub level t \<and> (sub \<longrightarrow> options_ok level (topic_str t) (sub_options t))) \<and>
     (level \<ge> MQTT_CONNECT_PROTOCOL_LEVEL_5 \<longrightarrow> props_ok ptype tvs)"

text \<open>What the caller of the encoder owes: the array has the topics it announces, of a total size below the limit of \<^verbatim>\<open>int\<close>.\<close>

definition topics_wf :: "store \<Rightarrow> MqttSubscribe \<Rightarrow> bool" where
  "topics_wf H s \<longleftrightarrow> props_src H (sub_props s) \<and>
     (\<forall>ts. topics s = Some ts \<longrightarrow> nat (topic_count s) \<le> length ts) \<and> topics_size (sub_topics s) < 2000000000"

lemma enc_topics_eq:
  fixes s :: MqttSubscribe
  assumes wf: "topics_wf H s" and tx: "tx_buf_len \<le> int (length m)"
  defines "tvs \<equiv> prop_list H (sub_props s)"
  defines "ts \<equiv> if topics s = None then [] else sub_topics s"
  shows "topics_ok sub ptype (sub_level s) (sub_packet_id s) tvs ts \<Longrightarrow>
      enc_topics sub ptype H (Some m) tx_buf_len (Some s) =
        send_packet m tx_buf_len (type_flags ptype 0 1 0) (topics_body sub (sub_level s) (sub_packet_id s) tvs ts)"
    and "\<not> topics_ok sub ptype (sub_level s) (sub_packet_id s) tvs ts \<Longrightarrow>
      \<exists>e. enc_topics sub ptype H (Some m) tx_buf_len (Some s) = Err e"
proof -
  have src: "props_src H (sub_props s)" using wf by (simp add: topics_wf_def)
  note lp = props_len_pass_list [OF src, folded tvs_def]
  define v5 where "v5 \<longleftrightarrow> sub_level s \<ge> 5"
  define n where "n = (if v5 then length (props_bytes tvs) else 0)"
  define k where "k = (if v5 then length (vbi_bytes (length (props_bytes tvs))) else 0)"
  define bs where "bs = concat (map (topic_bytes sub (sub_level s)) ts)"
  let ?w = "puts ([put (\<lambda>m buf. MqttEncode_Num m buf (sub_packet_id s)), if v5 then put_props ptype H (sub_props s) n else put_nothing] @
      map (put_topic sub (sub_level s)) ts)"
  have ne: "ts = [] \<longleftrightarrow> topic_count s \<le> 0 \<or> topics s = None"
    using wf by (auto simp: ts_def sub_topics_def topics_wf_def)
  have ts: "topics s = Some us \<Longrightarrow> ts = take (nat (topic_count s)) us" for us by (simp add: ts_def sub_topics_def)
  have size: "topics_size ts < 2000000000" using wf by (auto simp: topics_wf_def ts_def topics_size_def)
  have lbs: "length bs < 2000000000" using topics_bytes_size [of sub "sub_level s" ts] size by (simp add: bs_def)
  have red: "enc_topics sub ptype H (Some m) tx_buf_len (Some s) = enc_frame m tx_buf_len (2 + n + k + length bs) ptype 0 1 0 ?w"
    if g: "sub_packet_id s \<noteq> 0" "ts \<noteq> []" "\<forall>t \<in> set ts. topic_ok sub (sub_level s) t" "v5 \<longrightarrow> props_ok ptype tvs"
  proof -
    obtain us where us: "topics s = Some us" using g(2) ne by (cases "topics s") auto
    have c: "\<not> topic_count s \<le> 0" using g(2) ne by auto
    have "topics_len sub (sub_level s) (nat (topic_count s)) us 2 = Ok (2 + int (length bs))"
      unfolding bs_def ts [OF us] using wf us size g(3) unfolding ts [OF us]
      by (intro topics_len_ok) (auto simp: topics_wf_def)
    moreover have "n + k \<le> 4000000"
      using g(4) props_bytes_bound [of ptype tvs] vbi_bytes_length_4 [of "length (props_bytes tvs)"] by (auto simp: n_def k_def)
    ultimately show ?thesis using us c g(1,4) lbs
      by (auto simp: enc_topics_def Let_def lp v5_def [symmetric] ts [OF us, symmetric] ck_int_def n_def k_def nat_add_distrib ac_simps)
  qed
  {
    assume ok: "topics_ok sub ptype (sub_level s) (sub_packet_id s) tvs ts"
    have "emits (puts (map (put_topic sub (sub_level s)) ts)) bs"
      using ok unfolding bs_def by (intro put_topics_emits) (auto simp: topics_ok_def)
    then have "emits ?w (num_bytes (sub_packet_id s) @ (if v5 then props_block tvs else []) @ bs)"
      using ok src unfolding tvs_def append_Cons append_Nil
      by (intro emits_intros) (auto simp: topics_ok_def v5_def n_def tvs_def)
    then have e: "emits ?w (topics_body sub (sub_level s) (sub_packet_id s) tvs ts)" by (simp add: topics_body_def bs_def v5_def)
    have l: "length (topics_body sub (sub_level s) (sub_packet_id s) tvs ts) = 2 + n + k + length bs"
      by (auto simp: topics_body_def bs_def v5_def n_def k_def props_block_def)
    have lb: "length (topics_body sub (sub_level s) (sub_packet_id s) tvs ts) < 2 ^ 32"
      using ok props_block_bound [of ptype tvs] lbs by (auto simp: topics_body_def topics_ok_def bs_def [symmetric])
    show "enc_topics sub ptype H (Some m) tx_buf_len (Some s) =
        send_packet m tx_buf_len (type_flags ptype 0 1 0) (topics_body sub (sub_level s) (sub_packet_id s) tvs ts)"
      using ok enc_frame_eq [OF e l [symmetric] tx lb] red by (auto simp: topics_ok_def v5_def)
  next
    assume bad: "\<not> topics_ok sub ptype (sub_level s) (sub_packet_id s) tvs ts"
    show "\<exists>e. enc_topics sub ptype H (Some m) tx_buf_len (Some s) = Err e"
    proof (cases "sub_packet_id s \<noteq> 0 \<and> ts \<noteq> []")
      case g: True
      obtain us where us: "topics s = Some us" using g ne by (cases "topics s") auto
      have c: "\<not> topic_count s \<le> 0" using g ne by auto
      have wf': "nat (topic_count s) \<le> length us" "2 + int (topics_size ts) < 2147483648" using wf us size by (auto simp: topics_wf_def)
      show ?thesis
      proof (cases "\<forall>t \<in> set ts. topic_ok sub (sub_level s) t")
        case False
        then have "\<exists>e. topics_len sub (sub_level s) (nat (topic_count s)) us 2 = Err e"
          using wf' unfolding ts [OF us] by (intro topics_len_bad) auto
        then show ?thesis using us c g by (auto simp: enc_topics_def Let_def)
      next
        case tok: True
        show ?thesis
        proof (cases "v5 \<longrightarrow> props_ok ptype tvs")
          case False
          have "topics_len sub (sub_level s) (nat (topic_count s)) us 2 = Ok (2 + int (length bs))"
            using wf' tok unfolding bs_def ts [OF us] by (intro topics_len_ok) auto
          then show ?thesis using us c g False by (auto simp: enc_topics_def Let_def lp v5_def)
        next
          case True
          have o: "sub" "\<not> (\<forall>t \<in> set ts. options_ok (sub_level s) (topic_str t) (sub_options t))"
            using bad g tok True by (auto simp: topics_ok_def v5_def)
          have e: "emits (puts [put (\<lambda>m buf. MqttEncode_Num m buf (sub_packet_id s)), if v5 then put_props ptype H (sub_props s) n else put_nothing])
              (num_bytes (sub_packet_id s) @ (if v5 then props_block tvs else []) @ [])" (is "emits ?f ?bs")
            using True src unfolding tvs_def by (intro emits_intros) (auto simp: n_def tvs_def)
          have lf: "length ?bs = 2 + n + k" by (auto simp: n_def k_def props_block_def)
          have "\<exists>e. ?w (m', p) = Err e" if "p + (2 + n + k + length bs) \<le> length m'" for m' p
            unfolding puts_append using that emitsD [OF e, of p m'] lf o tok
              put_topics_bad [of ts "sub_level s" "p + length ?bs" "splice_at m' p ?bs"]
            by (simp add: bs_def)
          then show ?thesis unfolding red [OF conjunct1 [OF g] conjunct2 [OF g] tok True] by (rule enc_frame_err [OF tx])
        qed
      qed
    qed (auto simp: enc_topics_def ne split: option.splits)
  }
qed

section \<open>Decoding the topics\<close>

declare dec_topics_loop.simps [simp del]

text \<open>The options byte against its parts, over all 256 bytes.\<close>

lemma options_parts:
  fixes b :: byte
  shows "b AND 0xC0 = 0 \<Longrightarrow> qos_code (qos_of (b AND 3)) OR (b AND 0x3C) = b"
    and "(b AND 0xFC = 0) = (b AND 0xC0 = 0 \<and> b AND 0x3C = 0)"
    and "(2 < b AND 3) = (qos_of (b AND 3) = MQTT_QOS_3)"
    and "drop_bit 4 (b AND 0x3C) AND 3 = drop_bit 4 b AND 3"
proof -
  have "b AND 0xC0 = 0 \<longrightarrow> qos_code (qos_of (b AND 3)) OR (b AND 0x3C) = b"
    by (rule byte_cases_256 [where P = "\<lambda>b. b AND 0xC0 = 0 \<longrightarrow> qos_code (qos_of (b AND 3)) OR (b AND 0x3C) = b"]) code_simp
  then show "b AND 0xC0 = 0 \<Longrightarrow> qos_code (qos_of (b AND 3)) OR (b AND 0x3C) = b" by simp
  show "(b AND 0xFC = 0) = (b AND 0xC0 = 0 \<and> b AND 0x3C = 0)"
    by (rule byte_cases_256 [where P = "\<lambda>b. (b AND 0xFC = 0) = (b AND 0xC0 = 0 \<and> b AND 0x3C = 0)"]) code_simp
  show "(2 < b AND 3) = (qos_of (b AND 3) = MQTT_QOS_3)"
    by (rule byte_cases_256 [where P = "\<lambda>b. (2 < b AND 3) = (qos_of (b AND 3) = MQTT_QOS_3)"]) code_simp
  show "drop_bit 4 (b AND 0x3C) AND 3 = drop_bit 4 b AND 3"
    by (rule byte_cases_256 [where P = "\<lambda>b. drop_bit 4 (b AND 0x3C) AND 3 = drop_bit 4 b AND 3"]) code_simp
qed

lemma options_join:
  fixes b :: byte
  assumes "b AND NOT 0x3C = 0" "q \<noteq> MQTT_QOS_3"
  shows "(qos_code q OR b) AND 0xC0 = 0" "(qos_code q OR b) AND 3 = qos_code q" "(qos_code q OR b) AND 0x3C = b"
proof -
  have b: "b AND 0x3C = b" using assms(1) by (simp add: bit_eq_iff bit_simps) auto
  have "b AND 0xC0 = 0" "b AND 3 = 0" by (subst b [symmetric], simp add: and.assoc)+
  with b show "(qos_code q OR b) AND 0xC0 = 0" "(qos_code q OR b) AND 3 = qos_code q" "(qos_code q OR b) AND 0x3C = b"
    using assms(2) by (cases q; simp add: bit.conj_disj_distrib2)+
qed


text \<open>What the standard asks of one topic of the packet, and the checks of the decoder.\<close>

abbreviation topic_good :: "bool \<Rightarrow> byte \<Rightarrow> MqttTopic \<Rightarrow> bool" where
  "topic_good sub level t \<equiv> topic_ok sub level t \<and> (sub \<longrightarrow> options_ok level (topic_str t) (sub_options t))"

lemma utf8_cstr_id: "utf8_str f \<Longrightarrow> cstr_bytes f = f"
  by (auto simp: utf8_str_def intro: cstr_bytes_id dest: utf8_ok_no_nul)

lemma options_accept:
  assumes "options_bad level f b = Ok False" "utf8_str f" "filter_rule level f"
    and t: "t' = t\<lparr>topic_filter := Some f, topic_qos := qos_of (b AND 3), sub_options := b AND 0x3C\<rparr>"
  shows "topic_good True level t'" "topic_bytes True level t' = str_bytes f @ [b]"
proof -
  have c: "b AND 0xC0 = 0" "qos_of (b AND 3) \<noteq> MQTT_QOS_3" "\<not> level \<ge> 5 \<Longrightarrow> b AND 0x3C = 0"
    "level \<ge> 5 \<Longrightarrow> drop_bit 4 b AND 3 \<noteq> 3" "level \<ge> 5 \<Longrightarrow> b AND 4 \<noteq> 0 \<Longrightarrow> take 7 f \<noteq> share_prefix"
    using assms(1) by (auto simp: options_bad_def options_parts(2,3) is_shared_eq split: if_splits)
  have "(b AND 0x3C) AND NOT 0x3C = 0" "(b AND 0x3C) AND 4 = b AND 4" by (simp_all add: and.assoc)
  with c assms(2,3) show "topic_good True level t'"
    by (auto simp: t topic_ok_def options_ok_def topic_str_def utf8_cstr_id options_parts(4))
  show "topic_bytes True level t' = str_bytes f @ [b]"
    using c(1,3) options_parts(1) [of b] assms(2)
    by (auto simp: t topic_bytes_def topic_str_def options_byte_def utf8_cstr_id and.assoc)
qed

lemma options_bad_no_fault: "options_bad level f b \<in> {Ok True, Ok False}"
  by (auto simp: options_bad_def is_shared_eq)

lemma topics_slice:
  assumes "take (Suc n) us = take (Suc n) (ts[n := t])" "Suc n \<le> k" "k \<le> length ts" "length us = length ts"
  shows "take n us = take n ts" "drop n (take k us) = t # drop (Suc n) (take k us)"
proof -
  have n: "n < length ts" "n < length us" using assms(2-4) by auto
  have "take n (take (Suc n) us) = take n (take (Suc n) (ts[n := t]))" using assms(1) by simp
  then show "take n us = take n ts" by simp
  have "us ! n = t" using arg_cong [OF assms(1), of "\<lambda>xs. xs ! n"] n by simp
  then show "drop n (take k us) = t # drop (Suc n) (take k us)"
    using assms(2) n by (subst Cons_nth_drop_Suc [symmetric]) auto
qed

definition loop_ok :: "bool \<Rightarrow> byte \<Rightarrow> mem \<Rightarrow> nat \<Rightarrow> MqttTopic list \<Rightarrow> nat \<Rightarrow> nat \<Rightarrow> MqttTopic list \<times> nat \<Rightarrow> bool" where
  "loop_ok sub level m e ts n p = (\<lambda>(us, k). length us = length ts \<and> n \<le> k \<and> k \<le> MAX_MQTT_TOPICS \<and> take n us = take n ts \<and>
     (\<forall>t \<in> set (drop n (take k us)). topic_good sub level t) \<and>
     blk m p (e - p) = concat (map (topic_bytes sub level) (drop n (take k us))))"

lemma loop_ok_step:
  assumes "loop_ok sub level m e (ts[n := t]) (Suc n) q s" "topic_good sub level t" "12 \<le> length ts"
    and "q \<le> e" "q = p + length (topic_bytes sub level t)" "blk m p (length (topic_bytes sub level t)) = topic_bytes sub level t"
  shows "loop_ok sub level m e ts n p s"
proof -
  obtain us k where s: "s = (us, k)" by fastforce
  have l: "length us = length ts" "Suc n \<le> k" "k \<le> 12" "take (Suc n) us = take (Suc n) (ts[n := t])"
    and g: "\<forall>t \<in> set (drop (Suc n) (take k us)). topic_good sub level t"
    and b: "blk m q (e - q) = concat (map (topic_bytes sub level) (drop (Suc n) (take k us)))"
    using assms(1) by (auto simp: loop_ok_def s)
  have "k \<le> length ts" using l(3) assms(3) by simp
  note sl = topics_slice [OF l(4,2) this l(1)]
  have "e - p = length (topic_bytes sub level t) + (e - q)" using assms(4,5) by simp
  then have "blk m p (e - p) = topic_bytes sub level t @ blk m q (e - q)" using assms(5,6) by (simp add: blk_add)
  then show ?thesis using l g b assms(2) by (simp add: loop_ok_def s sl)
qed

lemma dec_topics_loop_post:
  assumes L: "rx_ok m (int e)"
  shows "p \<le> e \<Longrightarrow> n \<le> 12 \<Longrightarrow> 12 \<le> length ts \<Longrightarrow>
    post (\<lambda>(us, k). length us = length ts) (\<lambda>s _. loop_ok sub level m e ts n p s) (dec_topics_loop sub level m e ts n p)"
proof (induction "12 - n" arbitrary: n ts p rule: less_induct)
  case less
  show ?case
  proof (cases "p < e \<and> n < 12")
    case True
    have n: "\<not> length ts \<le> n" "\<not> 12 \<le> n" "p < e" using True less.prems(3) by auto
    have p: "int p \<le> int e" using True by simp
    have IH: "post (\<lambda>(us, k). length us = length ts) (\<lambda>s _. loop_ok sub level m e ts n p s) (dec_topics_loop sub level m e (ts[n := t]) (n + 1) q)"
      if "topic_good sub level t" "q \<le> e" "q = p + length (topic_bytes sub level t)"
        "blk m p (length (topic_bytes sub level t)) = topic_bytes sub level t" for t q
      by (rule post_weaken [OF less.hyps [of "n + 1" q "ts[n := t]"]])
        (use that less.prems n in \<open>auto intro: loop_ok_step\<close>)
    show ?thesis
      unfolding dec_topics_loop.simps [of sub level m e ts n p] if_not_P [OF n(1)] if_not_P [OF n(2)] if_P [OF n(3)]
    proof (rule post_String [OF L p], goal_cases)
      case (2 f)
      note u = utf8_cstr_id [OF 2(3)]
      let ?t = "(ts ! n)\<lparr>topic_filter := Some f\<rparr>"
      have q: "int (p + (2 + length f)) + 1 \<le> int e" if "\<not> e \<le> p + (2 + length f)" using that by simp
      show ?case unfolding prod.case Let_def filter_valid_full at_state_simps
      proof (intro post_if post_rd [OF L] q, goal_cases)
        case (5 b)
        let ?t' = "?t\<lparr>topic_qos := qos_of (b AND 3), sub_options := b AND 0x3C\<rparr>"
        have v: "filter_rule level f" using 5 by simp
        have bl: "blk m p (2 + length f + 1) = str_bytes f @ [b]" using 2(2) 5 blk_add [of m p "2 + length f" 1] by simp
        show ?case
        proof (intro post_at_state post_if, goal_cases)
          case (4 bad)
          have o: "options_bad level f b = Ok False" using 4 by simp
          note a = options_accept [OF o 2(3) v, of ?t' "ts ! n"]
          show ?case using q a bl \<open>sub\<close> \<open>\<not> e \<le> p + (2 + length f)\<close> by (intro IH) auto
        qed (use options_bad_no_fault [of level f b] in auto)
      next
        case 6
        have "topic_good sub level ?t" using 6 2(3) by (auto simp: topic_ok_def topic_str_def u)
        then show ?case using 6 2 by (intro IH) (auto simp: topic_bytes_def topic_str_def u)
      qed auto
    qed simp
  next
    case False
    then show ?thesis using less.prems
      by (subst dec_topics_loop.simps) (auto simp: loop_ok_def)
  qed
qed

text \<open>What the wire carries of a topic.\<close>

definition topic_value :: "bool \<Rightarrow> byte \<Rightarrow> MqttTopic \<Rightarrow> byte list \<times> (MqttQoS \<times> byte) option" where
  "topic_value sub level t = (topic_str t,
     if sub then Some (topic_qos t, if level \<ge> MQTT_CONNECT_PROTOCOL_LEVEL_5 then sub_options t else 0) else None)"

lemma options_complete:
  assumes "topic_good True level t" "b = options_byte level t"
  shows "options_bad level (topic_str t) b = Ok False" "qos_of (b AND 3) = topic_qos t"
    "b AND 0x3C = (if level \<ge> 5 then sub_options t else 0)"
proof -
  define opts where "opts = (if level \<ge> 5 then sub_options t else 0)"
  have q: "topic_qos t \<noteq> MQTT_QOS_3" using assms(1) by (auto simp: topic_ok_def)
  have "opts AND NOT 0x3C = 0" using assms(1) by (simp add: opts_def options_ok_def)
  note j = options_join [OF this q]
  have m: "opts AND 0x3C = opts" using j(3) q by (auto simp: bit_eq_iff bit_simps)
  have b: "b = qos_code (topic_qos t) OR opts" using m by (auto simp: assms(2) options_byte_def opts_def)
  show b3: "b AND 0x3C = opts" unfolding b by (rule j(3))
  show qe: "qos_of (b AND 3) = topic_qos t" unfolding b j(2) by (rule qos_of_code)
  have b4: "b AND 4 = opts AND 4" "drop_bit 4 b AND 3 = drop_bit 4 opts AND 3"
    using options_parts(4) [of b] by (simp_all add: b3 [symmetric] and.assoc)
  have "b AND 0xC0 = 0" unfolding b by (rule j(1))
  moreover have "\<not> 2 < b AND 3" using q qe by (simp add: options_parts(3))
  ultimately show "options_bad level (topic_str t) b = Ok False"
    using assms(1) b3 b4 by (auto simp: options_bad_def options_parts(2) options_ok_def is_shared_eq opts_def)
qed

lemma dec_topics_loop_complete:
  assumes L: "rx_ok m (int e)"
  shows "\<forall>t \<in> set us. topic_good sub level t \<Longrightarrow> n + length us \<le> 12 \<Longrightarrow> 12 \<le> length ts \<Longrightarrow>
    bs = concat (map (topic_bytes sub level) us) \<Longrightarrow> e = p + length bs \<Longrightarrow> blk m p (length bs) = bs \<Longrightarrow>
    \<exists>ts'. dec_topics_loop sub level m e ts n p = ((ts', n + length us), Ok ()) \<and> length ts' = length ts \<and> take n ts' = take n ts \<and>
      map (topic_value sub level) (drop n (take (n + length us) ts')) = map (topic_value sub level) us"
proof (induction us arbitrary: n ts p bs)
  case Nil
  then show ?case by (subst dec_topics_loop.simps) simp
next
  case (Cons t us)
  define f where "f = topic_str t"
  define tail where "tail = concat (map (topic_bytes sub level) us)"
  define opt where "opt = (if sub then [options_byte level t] else [])"
  have u: "utf8_str f" "filter_rule level f" using Cons.prems(1) by (auto simp: topic_ok_def f_def topic_str_def)
  have tb: "topic_bytes sub level t = str_bytes f @ opt" by (simp add: topic_bytes_def f_def opt_def)
  have bs: "bs = str_bytes f @ opt @ tail" using Cons.prems(4) by (simp add: tb tail_def)
  have le: "p + length bs \<le> length m" using L Cons.prems(5) by (simp add: rx_ok_def)
  note s1 = blk_split [OF Cons.prems(6) bs le]
  have le2: "p + length (str_bytes f) + length (opt @ tail) \<le> length m" using le by (simp add: bs)
  note s2 = blk_split [OF s1(2) refl le2]
  define k where "k = 2 + length f"
  have S: "MqttDecode_String m p (rx_left (int e) p) = Ok (f, k)"
    unfolding k_def using s1(1) Cons.prems(5) by (intro String_at [OF L] u) (auto simp: bs)
  define q where "q = p + k"
  have q: "p < e" "q \<le> e" "q + length opt \<le> e" "sub \<Longrightarrow> \<not> e \<le> q" using Cons.prems(5) by (auto simp: q_def k_def bs opt_def)
  have n: "\<not> 12 \<le> n" "\<not> length ts \<le> n" using Cons.prems(2,3) by auto
  define t1 where "t1 = (if sub then (ts ! n)\<lparr>topic_filter := Some f, topic_qos := qos_of (options_byte level t AND 3),
      sub_options := options_byte level t AND 0x3C\<rparr> else (ts ! n)\<lparr>topic_filter := Some f\<rparr>)"
  have step: "dec_topics_loop sub level m e ts n p = dec_topics_loop sub level m e (ts[n := t1]) (Suc n) (q + length opt)"
  proof (cases sub)
    case True
    have r: "rd m q = Ok (options_byte level t)"
      using s2(1) q(3) True by (intro rd_at [OF L]) (simp_all add: opt_def q_def k_def)
    have o: "options_bad level f (options_byte level t) = Ok False"
      using Cons.prems(1) True unfolding f_def by (intro options_complete) auto
    show ?thesis using q n u r o True
      by (subst dec_topics_loop.simps) (simp add: S Let_def q_def [symmetric] filter_valid_full t1_def opt_def)
  next
    case False
    then show ?thesis using q n u
      by (subst dec_topics_loop.simps) (simp add: S Let_def q_def [symmetric] filter_valid_full t1_def opt_def)
  qed
  have v: "topic_value sub level t1 = topic_value sub level t"
    using Cons.prems(1) options_complete(2,3) [of level t] u
    by (auto simp: topic_value_def t1_def topic_str_def [of "_\<lparr>topic_filter := _\<rparr>"] topic_str_def [of "_\<lparr>topic_filter := _, topic_qos := _\<rparr>"]
        topic_str_def [of "_\<lparr>topic_filter := _, topic_qos := _, sub_options := _\<rparr>"] utf8_cstr_id f_def)
  from Cons.IH [of "Suc n" "ts[n := t1]" tail "q + length opt"] Cons.prems(1-3,5) s2(2)
  obtain ts' where ts': "dec_topics_loop sub level m e (ts[n := t1]) (Suc n) (q + length opt) = ((ts', Suc n + length us), Ok ())"
    "length ts' = length ts" "take (Suc n) ts' = take (Suc n) (ts[n := t1])"
    "map (topic_value sub level) (drop (Suc n) (take (Suc n + length us) ts')) = map (topic_value sub level) us"
    by (auto simp: tail_def bs q_def k_def add.assoc)
  have k: "Suc n + length us \<le> length ts" using Cons.prems(2,3) by simp
  note sl = topics_slice [OF ts'(3) _ k ts'(2)]
  show ?case unfolding step ts'(1)
    using ts' sl v by (intro exI [of _ ts']) simp
qed

section \<open>Decoding the packet\<close>

lemma finish_topics_post:
  assumes h: "holds H H1 (sub_props s) tvs" and L: "rx_ok m (int e)" and ts: "12 \<le> length ts"
    and E: "\<And>H' us k. released H H' \<Longrightarrow> E (H', s\<lparr>topics := Some us, topic_count := k, sub_props := None\<rparr>)"
    and Q: "\<And>us k. \<lbrakk>p < e; take k us \<noteq> []; k \<le> length us; k \<le> 12; \<forall>t \<in> set (take k us). topic_good sub (sub_level s) t;
      blk m p (e - p) = concat (map (topic_bytes sub (sub_level s)) (take k us))\<rbrakk> \<Longrightarrow>
      Q (H1, s\<lparr>topics := Some us, topic_count := int k\<rparr>) (int e)"
  shows "post E Q (finish_topics sub m e ts (H1, s) p)"
proof (cases "p < e")
  case False
  then have "dec_topics_loop sub (sub_level s) m e ts 0 p = ((ts, 0), Ok ())" by (subst dec_topics_loop.simps) simp
  then show ?thesis using h E by (auto simp: finish_topics_def Let_def intro!: post_fail_free)
next
  case True
  obtain us k r where d: "dec_topics_loop sub (sub_level s) m e ts 0 p = ((us, k), r)" by (metis prod_cases3 prod.collapse)
  have "post (\<lambda>(us, k). length us = length ts) (\<lambda>s' _. loop_ok sub (sub_level s) m e ts 0 p s') ((us, k), r)"
    unfolding d [symmetric] using True ts by (intro dec_topics_loop_post [OF L]) simp_all
  then show ?thesis
  proof (cases rule: postE)
    case (error e)
    then show ?thesis using h E by (auto simp: finish_topics_def d Let_def intro!: post_fail_free)
  next
    case (ok x)
    then have "k \<noteq> 0 \<Longrightarrow> Q (H1, s\<lparr>topics := Some us, topic_count := int k\<rparr>) (int e)"
      using True ts by (intro Q) (auto simp: loop_ok_def)
    then show ?thesis using ok h E by (auto simp: finish_topics_def d Let_def intro!: post_fail_free)
  qed
qed

text \<open>What an accepted packet is: the bytes of a list of topics that obeys the rules.\<close>

definition topics_read :: "bool \<Rightarrow> byte \<Rightarrow> store \<Rightarrow> mem \<Rightarrow> byte \<Rightarrow> store \<Rightarrow> MqttSubscribe \<Rightarrow> nat \<Rightarrow> bool" where
  "topics_read sub ptype H m level H' s k \<longleftrightarrow> (\<exists>tf tvs. holds H H' (sub_props s) tvs \<and> sub_level s = level \<and>
     topics_ok sub ptype level (sub_packet_id s) tvs (sub_topics s) \<and> topic_count s = int (length (sub_topics s)) \<and>
     length (sub_topics s) \<le> MAX_MQTT_TOPICS \<and>
     (let body = topics_body sub level (sub_packet_id s) tvs (sub_topics s)
      in blk m 0 k = tf # vbi_bytes (length body) @ body) \<and>
     MQTT_PACKET_TYPE_GET tf = ptype \<and> MqttPacket_FixedHeaderFlagsValid tf)"

lemma dec_topics_post:
  assumes H: "live_list H None []" and L: "rx_ok m L" and ts: "topics s = Some ts" "12 \<le> length ts"
  shows "post (\<lambda>(H', s'). released H H' \<and> (\<exists>s1. s' = Some s1))
      (\<lambda>(H', s') r. \<exists>s1. s' = Some s1 \<and> 0 \<le> r \<and> r \<le> L \<and> topics_read sub ptype H m (sub_level s) H' s1 (nat r))
      (dec_topics sub ptype H (Some m) L (Some s))" (is "post ?E ?Q _")
proof -
  have h0: "holds H H None []" using H by simp
  have fin: "post (\<lambda>(H', s'). released H H' \<and> (\<exists>s1. Some s' = Some s1))
      (\<lambda>(H', s') r. \<exists>s1. Some s' = Some s1 \<and> 0 \<le> r \<and> r \<le> L \<and> topics_read sub ptype H m (sub_level s) H' s1 (nat r)) (finish_topics sub m e ts (H1, s1) q)"
    if "holds H H1 (sub_props s1) tvs" "e = hl + n" "int e \<le> L" "hl = 1 + length (vbi_bytes n)" "blk m 0 hl = tf # vbi_bytes n"
      "MQTT_PACKET_TYPE_GET tf = ptype" "MqttPacket_FixedHeaderFlagsValid tf" "sub_level s1 = sub_level s"
      "sub_packet_id s1 \<noteq> 0" "blk m hl 2 = num_bytes (sub_packet_id s1)" "q = hl + 2 + length pb"
      "blk m (hl + 2) (length pb) = pb" "pb = (if sub_level s \<ge> 5 then props_block tvs else [])" "sub_level s \<ge> 5 \<longrightarrow> props_ok ptype tvs"
    for e H1 s1 q tvs hl n tf pb
  proof (rule finish_topics_post [OF that(1) _ ts(2)], goal_cases)
    case 1
    then show ?case using L that(3) by (simp add: rx_ok_def)
  next
    case (3 us k)
    define bs where "bs = concat (map (topic_bytes sub (sub_level s)) (take k us))"
    have e: "hl + (2 + (length pb + (e - q))) = e" using 3(1) that(11) by simp
    have "blk m q (e - q) = bs" using 3(6) that(8) by (simp add: bs_def)
    then have "blk m 0 (hl + (2 + (length pb + (e - q)))) = (tf # vbi_bytes n) @ num_bytes (sub_packet_id s1) @ pb @ bs"
      unfolding blk_add add_0 that(11) by (simp only: that(5,10,12) add.assoc)
    then have b: "blk m 0 e = tf # vbi_bytes n @ num_bytes (sub_packet_id s1) @ pb @ bs" unfolding e by simp
    have "length (blk m 0 e) = e" using L that(3) by (simp add: rx_ok_def)
    then have n: "n = length (num_bytes (sub_packet_id s1) @ pb @ bs)" unfolding b using that(2,4) by simp
    let ?s = "s1\<lparr>topics := Some us, topic_count := int k\<rparr>"
    have st: "sub_topics ?s = take k us" by (simp add: sub_topics_def)
    have bd: "topics_body sub (sub_level s) (sub_packet_id s1) tvs (take k us) = num_bytes (sub_packet_id s1) @ pb @ bs"
      by (simp add: topics_body_def that(13) bs_def)
    have wire: "blk m 0 e = tf # vbi_bytes (length (topics_body sub (sub_level s) (sub_packet_id s1) tvs (take k us))) @
        topics_body sub (sub_level s) (sub_packet_id s1) tvs (take k us)" unfolding bd n [symmetric] by (rule b)
    have "topics_read sub ptype H m (sub_level s) H1 ?s e"
      unfolding topics_read_def st Let_def using 3(2-5) that(1,6-9,14) wire
      by (intro exI [of _ tf] exI [of _ tvs] conjI) (simp_all add: topics_ok_def)
    then show ?case using that(3) by simp
  qed simp
  have rel: "released H H" using holds_None [OF h0] by simp
  show ?thesis unfolding dec_topics_def option.case prod.case ts(1) Let_def
  proof (intro post_if post_some_state post_header [OF L] post_Num [OF L], goal_cases)
    case (6 h tf n pid)
    define hl where "hl = fh_header_len h"
    have e: "nat (int hl + fh_remain_len h) = hl + n" using 6(3) by simp
    have le: "int (hl + n) \<le> L" using 6(3,10) by (simp add: hl_def)
    note F = fin [OF _ refl le 6(6,7) [folded hl_def] 6(8,9)]
    show ?case unfolding prod.case hl_def [symmetric] e
    proof (intro post_if post_props [OF H L], goal_cases)
      case (5 H1 h1 tvs q)
      then show ?case using 6(12) by (intro F [of _ _ tvs _ "props_block tvs"]) (auto simp: hl_def)
    next
      case 6
      then show ?case using h0 \<open>blk m (fh_header_len h) 2 = num_bytes pid\<close> by (intro F [of _ _ "[]" _ "[]"]) (auto simp: hl_def)
    qed (use 6 rel in \<open>auto simp: hl_def\<close>)
  qed (use rel in auto)
qed

lemma finish_topics_complete:
  assumes L: "rx_ok m (int e)" and us: "us \<noteq> []" "\<forall>t \<in> set us. topic_good sub (sub_level s) t" "length us \<le> 12" "12 \<le> length ts"
    and bs: "bs = concat (map (topic_bytes sub (sub_level s)) us)" "e = p + length bs" "blk m p (length bs) = bs"
  shows "\<exists>ts'. finish_topics sub m e ts (H, s) p = ((H, s\<lparr>topics := Some ts', topic_count := int (length us)\<rparr>), Ok (int e)) \<and>
    map (topic_value sub (sub_level s)) (take (length us) ts') = map (topic_value sub (sub_level s)) us"
proof -
  have "0 + length us \<le> 12" using us(3) by simp
  from dec_topics_loop_complete [OF L us(2) this us(4) bs]
  obtain ts' where "dec_topics_loop sub (sub_level s) m e ts 0 p = ((ts', length us), Ok ())"
    "map (topic_value sub (sub_level s)) (take (length us) ts') = map (topic_value sub (sub_level s)) us" by auto
  then show ?thesis using us(1) by (auto simp: finish_topics_def Let_def)
qed

lemma dec_topics_complete:
  assumes H: "live_list H None []" "length tvs \<le> card (free_cells H)" and L: "rx_ok m L" and pt: "ptype \<in> {8, 10}"
    and d: "topics d = Some ts" "12 \<le> length ts"
    and ok: "topics_ok sub ptype (sub_level d) pid tvs us" "\<not> sub_level d \<ge> 5 \<longrightarrow> tvs = []" "length us \<le> 12"
    and bd: "bd = topics_body sub (sub_level d) pid tvs us" "length bd \<le> 0x0FFFFFFF"
    and pk: "pk = type_flags ptype 0 1 0 # vbi_bytes (length bd) @ bd" "blk m 0 (length pk) = pk" "int (length pk) \<le> L"
  shows "\<exists>H' d'. dec_topics sub ptype H (Some m) L (Some d) = ((H', Some d'), Ok (int (length pk))) \<and>
    sub_packet_id d' = pid \<and> topic_count d' = int (length us) \<and>
    map (topic_value sub (sub_level d)) (sub_topics d') = map (topic_value sub (sub_level d)) us \<and> holds H H' (sub_props d') tvs"
proof -
  obtain h where h: "MqttDecode_FixedHeader m L ptype = Ok h" "fh_remain_len h = int (length bd)"
    "blk m (fh_header_len h) (length bd) = bd" "int (fh_header_len h + length bd) \<le> L"
    "length pk = fh_header_len h + length bd" "\<not> L \<le> 0" "fh_header_len h + length bd \<le> length m"
    using header_read [OF L pk bd(2)] qos1_flags [of ptype] pt by auto
  define v5 where "v5 \<longleftrightarrow> sub_level d \<ge> 5"
  define p where "p = fh_header_len h"
  define pb where "pb = (if v5 then props_block tvs else [])"
  define bs where "bs = concat (map (topic_bytes sub (sub_level d)) us)"
  define e where "e = p + length bd"
  have b: "bd = num_bytes pid @ (pb @ bs)" by (simp add: bd(1) topics_body_def pb_def v5_def bs_def)
  have lb: "length bd = 2 + length pb + length bs" by (simp add: b)
  note s1 = blk_split [OF h(3) b h(7), folded p_def]
  have le2: "p + length (num_bytes pid) + length (pb @ bs) \<le> length m" using h(7) lb by (simp add: p_def)
  note s2 = blk_split [OF s1(2) refl le2]
  define k where "k = (2 :: nat)"
  define q where "q = p + k"
  have N: "MqttDecode_Num m p (rx_left L p) = Ok (pid, k)"
    unfolding k_def using s1(1) h(4) lb by (intro Num_at [OF L]) (simp_all add: p_def)
  have rx: "rx_ok m (int e)" using h(4,7) L by (simp add: rx_ok_def e_def p_def)
  have ne: "nat (int p + int (length bd)) = e" "\<not> L < int p + int (length bd)" "\<not> L < int p + int k" "e = q + length pb + length bs"
    using h(4) lb by (auto simp: e_def p_def q_def k_def)
  have g: "us \<noteq> []" "\<forall>t \<in> set us. topic_good sub (sub_level d) t" "pid \<noteq> 0" "v5 \<longrightarrow> props_ok ptype tvs"
    using ok(1) by (auto simp: topics_ok_def v5_def)
  let ?d = "d\<lparr>sub_packet_id := pid, sub_props := None\<rparr>"
  have fin: "\<exists>ts'. finish_topics sub m e ts (H', ?d\<lparr>sub_props := h'\<rparr>) (q + length pb) =
        ((H', ?d\<lparr>sub_props := h', topics := Some ts', topic_count := int (length us)\<rparr>), Ok (int e)) \<and>
      map (topic_value sub (sub_level d)) (take (length us) ts') = map (topic_value sub (sub_level d)) us" for H' h'
    using finish_topics_complete [OF rx g(1) _ ok(3) d(2), of sub "?d\<lparr>sub_props := h'\<rparr>" bs "q + length pb" H'] g(2) ne(4) s2(2)
    by (simp add: bs_def q_def k_def)
  have "\<exists>H' h' ts'. dec_topics sub ptype H (Some m) L (Some d) =
      ((H', Some (?d\<lparr>sub_props := h', topics := Some ts', topic_count := int (length us)\<rparr>)), Ok (int e)) \<and>
      map (topic_value sub (sub_level d)) (take (length us) ts') = map (topic_value sub (sub_level d)) us \<and> holds H H' h' tvs"
  proof (cases v5)
    case True
    then have pb: "pb = props_block tvs" "props_ok ptype tvs" using g(4) by (simp_all add: pb_def)
    have bl: "blk m q (length (props_block tvs)) = props_block tvs" using s2(1) by (simp add: q_def k_def pb)
    have le: "int (q + length (props_block tvs)) \<le> L" using h(4) lb by (simp add: q_def k_def pb p_def)
    have au: "auth_ok tvs" using pt pb(2) by (intro auth_ok_other [of ptype]) auto
    from block_at(3) [OF H L bl le pb(2) au] obtain H' h' where
      blk: "dec_block no_check ptype m L q H = ((H', h'), Ok (q + length pb))" "holds H H' h' tvs" unfolding pb(1) by blast
    obtain ts' where ts': "finish_topics sub m e ts (H', ?d\<lparr>sub_props := h'\<rparr>) (q + length pb) =
        ((H', ?d\<lparr>sub_props := h', topics := Some ts', topic_count := int (length us)\<rparr>), Ok (int e))"
      "map (topic_value sub (sub_level d)) (take (length us) ts') = map (topic_value sub (sub_level d)) us" using fin [of H' h'] by blast
    have "dec_topics sub ptype H (Some m) L (Some d) =
        ((H', Some (?d\<lparr>sub_props := h', topics := Some ts', topic_count := int (length us)\<rparr>)), Ok (int e))"
      using True ne(1-3) g(3) h(6) blk(1) ts'(1) unfolding dec_topics_def option.case prod.case d(1)
      by (simp add: h(1,2) p_def [symmetric] N q_def [symmetric] Let_def v5_def)
    with ts'(2) blk(2) show ?thesis by blast
  next
    case False
    obtain ts' where ts': "finish_topics sub m e ts (H, ?d\<lparr>sub_props := None\<rparr>) (q + length pb) =
        ((H, ?d\<lparr>sub_props := None, topics := Some ts', topic_count := int (length us)\<rparr>), Ok (int e))"
      "map (topic_value sub (sub_level d)) (take (length us) ts') = map (topic_value sub (sub_level d)) us" using fin [of H None] by blast
    have "dec_topics sub ptype H (Some m) L (Some d) =
        ((H, Some (?d\<lparr>sub_props := None, topics := Some ts', topic_count := int (length us)\<rparr>)), Ok (int e))"
      using False ne(1-3) g(3) h(6) ts'(1) unfolding dec_topics_def option.case prod.case d(1)
      by (simp add: h(1,2) p_def [symmetric] N q_def [symmetric] Let_def v5_def pb_def)
    moreover have "holds H H None tvs" using H(1) ok(2) False by (simp add: v5_def)
    ultimately show ?thesis using ts'(2) by blast
  qed
  then obtain H' h' ts' where D: "dec_topics sub ptype H (Some m) L (Some d) =
      ((H', Some (?d\<lparr>sub_props := h', topics := Some ts', topic_count := int (length us)\<rparr>)), Ok (int e))"
    "map (topic_value sub (sub_level d)) (take (length us) ts') = map (topic_value sub (sub_level d)) us" "holds H H' h' tvs" by blast
  show ?thesis unfolding D(1) using D(2,3) h(5) by (simp add: sub_topics_def e_def p_def)
qed

section \<open>The contract of the codecs\<close>

text \<open>The values a caller hands over: properties at level 5 only.\<close>

definition topics_props :: "store \<Rightarrow> MqttSubscribe \<Rightarrow> (nat \<times> prop_value) list" where
  "topics_props H s = (if sub_level s \<ge> MQTT_CONNECT_PROTOCOL_LEVEL_5 then prop_list H (sub_props s) else [])"

definition topics_given :: "MqttSubscribe \<Rightarrow> MqttTopic list" where
  "topics_given s = (if topics s = None then [] else sub_topics s)"

lemma topics_old:
  "topics_body sub (sub_level s) pid (topics_props H s) ts = topics_body sub (sub_level s) pid (prop_list H (sub_props s)) ts"
  "topics_ok sub ptype (sub_level s) pid (topics_props H s) ts = topics_ok sub ptype (sub_level s) pid (prop_list H (sub_props s)) ts"
  by (simp_all add: topics_body_def topics_ok_def topics_props_def)

text \<open>A structure the decoder may fill: an array of \<^verbatim>\<open>MAX_MQTT_TOPICS\<close> topics at least.\<close>

definition topics_room :: "MqttSubscribe option \<Rightarrow> bool" where
  "topics_room d = (case d of None \<Rightarrow> False | Some s \<Rightarrow> (case topics s of None \<Rightarrow> False | Some ts \<Rightarrow> MAX_MQTT_TOPICS \<le> length ts))"

definition topics_same :: "bool \<Rightarrow> store \<times> MqttSubscribe \<Rightarrow> store \<Rightarrow> store \<Rightarrow> MqttSubscribe option \<Rightarrow> bool" where
  "topics_same sub = (\<lambda>(H, s) D D' d. \<exists>d'. d = Some d' \<and> sub_packet_id d' = sub_packet_id s \<and>
     topic_count d' = topic_count s \<and>
     map (topic_value sub (sub_level s)) (sub_topics d') = map (topic_value sub (sub_level s)) (sub_topics s) \<and>
     holds D D' (sub_props d') (topics_props H s))"

lemma topics_codec:
  assumes pt: "ptype \<in> {8, 10}"
  shows "packet_codec
    (\<lambda>(H, s) m tx_buf_len. enc_topics sub ptype H (Some m) tx_buf_len (Some s))
    (\<lambda>(D, d) m rx_buf_len. dec_topics sub ptype D (Some m) rx_buf_len d)
    (\<lambda>_. type_flags ptype 0 1 0)
    (\<lambda>(H, s). topics_body sub (sub_level s) (sub_packet_id s) (topics_props H s) (topics_given s))
    (\<lambda>(H, s). topics_wf H s)
    (\<lambda>(H, s). topics_ok sub ptype (sub_level s) (sub_packet_id s) (topics_props H s) (topics_given s))
    (\<lambda>(D, d). live_list D None [] \<and> topics_room d)
    (\<lambda>(H, s) (D, d). sub_level (the d) = sub_level s \<and> topics_wf H s \<and> topic_count s \<le> int MAX_MQTT_TOPICS \<and>
       length (topics_props H s) \<le> card (free_cells D))
    (\<lambda>s (D, _) (D', d). topics_same sub s D D' d)
    (\<lambda>(D, _) (D', _). released D D')"
proof (unfold_locales, goal_cases)
  case (1 s L m)
  obtain H a where s: "s = (H, a)" by fastforce
  show ?case using 1 enc_topics_eq(1) [of H a L m] unfolding s prod.case topics_old topics_given_def by simp
next
  case (2 s L m)
  obtain H a where s: "s = (H, a)" by fastforce
  show ?case using 2 enc_topics_eq [of H a L m] send_packet_small [of L m]
    unfolding s prod.case topics_old topics_given_def by fastforce
next
  case (3 s d m L pk)
  obtain H a where s: "s = (H, a)" by fastforce
  obtain D d0 ts where d: "d = (D, Some d0)" "topics d0 = Some ts" "12 \<le> length ts"
    using 3(2) by (cases d) (auto simp: topics_room_def split: option.splits)
  have f: "sub_level d0 = sub_level a" "topics_wf H a" "topic_count a \<le> 12" "length (topics_props H a) \<le> card (free_cells D)"
    "live_list D None []" using 3(2,3) by (simp_all add: s d)
  have ok: "topics_ok sub ptype (sub_level d0) (sub_packet_id a) (topics_props H a) (topics_given a)" using 3(1) f by (simp add: s)
  have g: "topics_given a = sub_topics a" "topic_count a = int (length (sub_topics a))" "length (sub_topics a) \<le> 12"
    using ok f(2,3) by (auto simp: topics_ok_def topics_given_def sub_topics_def topics_wf_def split: if_splits)
  have old: "\<not> sub_level d0 \<ge> 5 \<longrightarrow> topics_props H a = []" using f by (simp add: topics_props_def)
  from dec_topics_complete [OF f(5,4) 3(4) pt d(2,3) ok old _ refl _ _ 3(7,8)] 3(5,6) g(3)
  show ?case unfolding s d prod.case f(1) g(1) topics_same_def using g(2) by fastforce
next
  case (4 d m L d' x)
  obtain D d0 ts where d: "d = (D, Some d0)" "topics d0 = Some ts" "12 \<le> length ts"
    using 4(1) by (cases d) (auto simp: topics_room_def split: option.splits)
  have H: "live_list D None []" using 4(1) by (simp add: d)
  obtain D' r' y where r: "dec_topics sub ptype D (Some m) L (Some d0) = ((D', r'), y)" by (metis prod_cases3 prod.collapse)
  have "d' = (D', r')" "x = y" using 4(3) by (simp_all add: d r)
  then show ?case using dec_topics_post [OF H 4(2) d(2,3), of sub ptype] unfolding r d by (auto elim!: postE)
qed

interpretation subscribe: packet_codec
  "\<lambda>(H, s) m tx_buf_len. MqttEncode_Subscribe H (Some m) tx_buf_len (Some s)"
  "\<lambda>(D, d) m rx_buf_len. MqttDecode_Subscribe D (Some m) rx_buf_len d"
  "\<lambda>_. type_flags 8 0 1 0"
  "\<lambda>(H, s). topics_body True (sub_level s) (sub_packet_id s) (topics_props H s) (topics_given s)"
  "\<lambda>(H, s). topics_wf H s"
  "\<lambda>(H, s). topics_ok True 8 (sub_level s) (sub_packet_id s) (topics_props H s) (topics_given s)"
  "\<lambda>(D, d). live_list D None [] \<and> topics_room d"
  "\<lambda>(H, s) (D, d). sub_level (the d) = sub_level s \<and> topics_wf H s \<and> topic_count s \<le> int MAX_MQTT_TOPICS \<and>
     length (topics_props H s) \<le> card (free_cells D)"
  "\<lambda>s (D, _) (D', d). topics_same True s D D' d"
  "\<lambda>(D, _) (D', _). released D D'"
  unfolding MqttEncode_Subscribe_def MqttDecode_Subscribe_def by (rule topics_codec) simp

interpretation unsubscribe: packet_codec
  "\<lambda>(H, s) m tx_buf_len. MqttEncode_Unsubscribe H (Some m) tx_buf_len (Some s)"
  "\<lambda>(D, d) m rx_buf_len. MqttDecode_Unsubscribe D (Some m) rx_buf_len d"
  "\<lambda>_. type_flags 10 0 1 0"
  "\<lambda>(H, s). topics_body False (sub_level s) (sub_packet_id s) (topics_props H s) (topics_given s)"
  "\<lambda>(H, s). topics_wf H s"
  "\<lambda>(H, s). topics_ok False 10 (sub_level s) (sub_packet_id s) (topics_props H s) (topics_given s)"
  "\<lambda>(D, d). live_list D None [] \<and> topics_room d"
  "\<lambda>(H, s) (D, d). sub_level (the d) = sub_level s \<and> topics_wf H s \<and> topic_count s \<le> int MAX_MQTT_TOPICS \<and>
     length (topics_props H s) \<le> card (free_cells D)"
  "\<lambda>s (D, _) (D', d). topics_same False s D D' d"
  "\<lambda>(D, _) (D', _). released D D'"
  unfolding MqttEncode_Unsubscribe_def MqttDecode_Unsubscribe_def by (rule topics_codec) simp

text \<open>A subscription to \<open>a/+\<close> and to \<open>#\<close>, with options, and an empty destination.\<close>

definition sub_msg :: MqttSubscribe where
  "sub_msg = \<lparr>sub_packet_id = 7, topic_count = 2,
     topics = Some [\<lparr>topic_filter = Some [0x61, 0x2F, 0x2B, 0], topic_qos = MQTT_QOS_1, sub_options = 0x14\<rparr>,
                    \<lparr>topic_filter = Some [0x23, 0], topic_qos = MQTT_QOS_2, sub_options = 0\<rparr>],
     sub_props = None, sub_level = 5\<rparr>"

definition sub_dst :: MqttSubscribe where
  "sub_dst = sub_msg\<lparr>sub_packet_id := 0, topic_count := 0,
     topics := Some (replicate 12 \<lparr>topic_filter = None, topic_qos = MQTT_QOS_0, sub_options = 0\<rparr>)\<rparr>"

lemma sub_msg_facts:
  "topics_wf H sub_msg" "topics_props H sub_msg = []" "topics_ok True 8 5 7 [] (sub_topics sub_msg)"
  "length (topics_body True 5 7 [] (sub_topics sub_msg)) = 13" "topics_room (Some sub_dst)" "sub_level sub_dst = 5"
proof -
  let ?t = "\<lparr>topic_filter = Some [0x61, 0x2F, 0x2B, 0], topic_qos = MQTT_QOS_1, sub_options = 0x14\<rparr> :: MqttTopic"
  let ?u = "\<lparr>topic_filter = Some [0x23, 0], topic_qos = MQTT_QOS_2, sub_options = 0\<rparr> :: MqttTopic"
  have st: "sub_topics sub_msg = [?t, ?u]" by (simp add: sub_topics_def sub_msg_def)
  show "topics_wf H sub_msg" by (simp add: topics_wf_def st topics_size_def topic_str_def XSTRLEN_def) (simp add: sub_msg_def)
  show "topics_props H sub_msg = []" by (simp add: topics_props_def sub_msg_def)
  have "filter_ok [0x61, 0x2F, 0x2B]" "filter_ok [0x23]" "utf8_ok [0x61, 0x2F, 0x2B]" "utf8_ok [0x23]" by code_simp+
  then have "topic_good True 5 ?t" "topic_good True 5 ?u"
    by (simp_all add: topic_ok_def options_ok_def topic_str_def cstr_bytes_def utf8_str_def filter_rule_def share_prefix_def)
  then show "topics_ok True 8 5 7 [] (sub_topics sub_msg)" by (simp add: st topics_ok_def props_ok_def)
  show "length (topics_body True 5 7 [] (sub_topics sub_msg)) = 13"
    by (simp add: st topics_body_def topic_bytes_def topic_str_def XSTRLEN_def props_block_def props_bytes_def vbi_bytes_small)
  show "topics_room (Some sub_dst)" "sub_level sub_dst = 5" by (simp_all add: topics_room_def sub_dst_def sub_msg_def)
qed

text \<open>C23: a SUBSCRIBE packet that \<^verbatim>\<open>MqttEncode_Subscribe\<close> writes, with at most \<^verbatim>\<open>MAX_MQTT_TOPICS\<close> topics, is decoded by
  \<^verbatim>\<open>MqttDecode_Subscribe\<close> to the same packet identifier, number of topics, topic filters, QoS, subscription
  options and properties.\<close>

theorem subscribe_round_trip:
  assumes "topics_wf H s" "tx_buf_len \<le> int (length m)" "tx_buf_len < 2147483648"
    and "MqttEncode_Subscribe H (Some m) tx_buf_len (Some s) = Ok (m', k)" "topic_count s \<le> 12"
    and "live_list D None []" "length (topics_props H s) \<le> card (free_cells D)" "sub_level d = sub_level s" "topics_room (Some d)"
  shows "\<exists>D' d'. MqttDecode_Subscribe D (Some m') (int k) (Some d) = ((D', Some d'), Ok (int k)) \<and>
    sub_packet_id d' = sub_packet_id s \<and> topic_count d' = topic_count s \<and>
    map (topic_value True (sub_level s)) (sub_topics d') = map (topic_value True (sub_level s)) (sub_topics s) \<and>
    holds D D' (sub_props d') (topics_props H s)"
  using subscribe.round_trip [of "(H, s)" tx_buf_len m m' k "(D, Some d)"] assms
  by (cases "MqttDecode_Subscribe D (Some m') (int k) (Some d)") (auto simp: topics_same_def)

theorem subscribe_round_trip_witness:
  "\<exists>m' k D' d'. MqttEncode_Subscribe [] (Some (replicate 20 0)) 20 (Some sub_msg) = Ok (m', k) \<and>
     MqttDecode_Subscribe (replicate 30 zero_prop) (Some m') (int k) (Some sub_dst) = ((D', Some d'), Ok (int k)) \<and>
     sub_packet_id d' = 7 \<and> topic_count d' = 2"
proof -
  have l: "sub_level sub_msg = 5" "sub_packet_id sub_msg = 7" "topic_count sub_msg = 2" "topics sub_msg \<noteq> None" by (simp_all add: sub_msg_def)
  have "\<exists>m' k. MqttEncode_Subscribe [] (Some (replicate 20 0)) 20 (Some sub_msg) = Ok (m', k)"
    using subscribe.enc_ok [of "([], sub_msg)" 20 "replicate 20 0"]
    by (simp add: send_packet_def Let_def sub_msg_facts l topics_given_def vbi_bytes_small)
  then obtain m' k where e: "MqttEncode_Subscribe [] (Some (replicate 20 0)) 20 (Some sub_msg) = Ok (m', k)" by blast
  have "live_list (replicate 30 zero_prop) None []" by (simp add: live_list_def)
  from subscribe_round_trip [OF sub_msg_facts(1) _ _ e _ this, of sub_dst] e show ?thesis by (auto simp: sub_msg_facts l)
qed

text \<open>C24: \<^verbatim>\<open>MqttDecode_Subscribe\<close> stays inside its buffer and inside an array of \<^verbatim>\<open>MAX_MQTT_TOPICS\<close> topics; on an error no
  property cell is lost; and a packet it accepts is, byte for byte, the encoding of a non-zero packet identifier, a
  legal property list and at least one topic, each with a filter that follows the topic filter rules, a QoS of at
  most 2 and options without reserved bits and without No Local on a shared subscription.\<close>

theorem subscribe_decode_safe:
  assumes "live_list D None []" "rx_ok m rx_buf_len" "topics d = Some ts" "12 \<le> length ts"
    and "MqttDecode_Subscribe D (Some m) rx_buf_len (Some d) = ((D', d'), r)"
  shows "r \<noteq> Fault \<and> (\<forall>e. r = Err e \<longrightarrow> released D D') \<and>
    (\<forall>k. r = Ok k \<longrightarrow> k \<le> rx_buf_len \<and> (\<exists>s. d' = Some s \<and> topics_read True 8 D m (sub_level d) D' s (nat k)))"
  using dec_topics_post [OF assms(1-4), of True 8] assms(5) unfolding MqttDecode_Subscribe_def by (auto elim!: postE)

theorem subscribe_decode_safe_witness:
  "\<exists>D' d' r. MqttDecode_Subscribe (replicate 30 zero_prop) (Some [0x82, 7, 0, 7, 0, 0, 1, 0x23, 2]) 9 (Some sub_dst) = ((D', d'), r) \<and>
     r \<noteq> Fault"
proof -
  have h: "live_list (replicate 30 zero_prop) None []" by (simp add: live_list_def)
  obtain D' d' r where "MqttDecode_Subscribe (replicate 30 zero_prop) (Some [0x82, 7, 0, 7, 0, 0, 1, 0x23, 2]) 9 (Some sub_dst) = ((D', d'), r)"
    by (metis prod_cases3 prod.collapse)
  with subscribe_decode_safe [OF h _ _ _ this] show ?thesis by (auto simp: rx_ok_def sub_dst_def)
qed

end
