(* ===== verification/Packet_Suback.thy ===== *)
theory Packet_Suback
  imports Packet_Codec
begin

text \<open>
  SUBACK and UNSUBACK: \<^verbatim>\<open>MqttDecode_SubscribeAck\<close>, \<^verbatim>\<open>MqttDecode_UnsubscribeAck\<close> and \<^verbatim>\<open>MqttEncode_UnsubscribeAck\<close>
  of \<^verbatim>\<open>src/mqtt_packet.c\<close>.  The broker writes its SUBACK without an encoder of this file.
\<close>

section \<open>Operations\<close>

abbreviation (input) "MAX_MQTT_TOPICS \<equiv> (12 :: nat)"

record MqttSubscribeAck =
  suback_packet_id :: word16
  return_codes :: "byte list"
  return_code_count :: word16
  suback_props :: "nat option"
  suback_level :: byte

text \<open>\<open>reason_codes\<close> points to the codes: an array of the caller, or the payload of the packet after decoding.\<close>

record MqttUnsubscribeAck =
  unsuback_packet_id :: word16
  unsuback_props :: "nat option"
  reason_codes :: "byte list option"
  reason_code_count :: word16
  unsuback_level :: byte

text \<open>The loop over \<open>n\<close> codes from \<open>p\<close>: whether all are valid.\<close>

fun scan_codes :: "(byte \<Rightarrow> bool) \<Rightarrow> mem \<Rightarrow> nat \<Rightarrow> nat \<Rightarrow> bool outcome" where
  "scan_codes valid m p 0 = Ok True"
| "scan_codes valid m p (Suc n) = bnd (rd m p) (\<lambda>b. if valid b then scan_codes valid m (p + 1) n else Ok False)"

subsection \<open>SUBACK\<close>

definition dec_suback_codes ::
  "mem \<Rightarrow> int \<Rightarrow> int \<Rightarrow> store \<times> MqttSubscribeAck \<Rightarrow> nat \<Rightarrow> (store \<times> MqttSubscribeAck) \<times> int outcome" where
  "dec_suback_codes m rx_buf_len ret = (\<lambda>(H, a) p.
     let payload_len = ret - int p; buf_remain = rx_buf_len - int p in
     if payload_len < 0 \<or> buf_remain < 0 then fail_free OUT_OF_BUFFER H (suback_props a) (a\<lparr>suback_props := None\<rparr>)
     else if payload_len > buf_remain then fail_free OUT_OF_BUFFER H (suback_props a) (a\<lparr>suback_props := None\<rparr>)
     else let a1 = a\<lparr>return_code_count := word_of_int (if payload_len > 0xFFFF then 0xFFFF else payload_len)\<rparr>;
              n = nat (if payload_len > int MAX_MQTT_TOPICS then int MAX_MQTT_TOPICS else payload_len) in
       at_state (scan_codes (\<lambda>code. MqttPacket_SubAckReturnCodeValid code (suback_level a1)) m p n) (H, a1) (\<lambda>valid.
         if \<not> valid then fail_free MALFORMED_DATA H (suback_props a1) (a1\<lparr>suback_props := None\<rparr>)
         else at_state (rdn m p n) (H, a1) (\<lambda>codes.
           ((H, a1\<lparr>return_codes := codes @ replicate (MAX_MQTT_TOPICS - n) 0\<rparr>), Ok ret))))"

definition MqttDecode_SubscribeAck ::
  "store \<Rightarrow> mem option \<Rightarrow> int \<Rightarrow> MqttSubscribeAck option \<Rightarrow> (store \<times> MqttSubscribeAck option) \<times> int outcome" where
  "MqttDecode_SubscribeAck H rx_buf rx_buf_len subscribe_ack =
     (case (rx_buf, subscribe_ack) of
        (Some m, Some a) \<Rightarrow>
          if rx_buf_len \<le> 0 then ((H, subscribe_ack), Err BAD_ARG)
          else some_state (at_state (MqttDecode_FixedHeader m rx_buf_len MQTT_PACKET_TYPE_SUBSCRIBE_ACK) (H, a) (\<lambda>h.
            let p = fh_header_len h; ret = int p + fh_remain_len h in
            if fh_remain_len h < int MQTT_DATA_LEN_SIZE then ((H, a), Err MALFORMED_DATA)
            else at_state (MqttDecode_Num m p (rx_left rx_buf_len p)) (H, a) (\<lambda>(pid, tmp).
            let a1 = a\<lparr>suback_packet_id := pid, suback_props := None\<rparr> in
            if suback_level a1 \<ge> MQTT_CONNECT_PROTOCOL_LEVEL_5 \<and> fh_remain_len h > int MQTT_DATA_LEN_SIZE then
              if rx_buf_len < int (p + tmp) then ((H, a1), Err OUT_OF_BUFFER)
              else then_state (with_props (\<lambda>h. a1\<lparr>suback_props := h\<rparr>)
                     (dec_block (le_rest rx_buf_len (p + tmp) OUT_OF_BUFFER) MQTT_PACKET_TYPE_SUBSCRIBE_ACK m rx_buf_len (p + tmp) H))
                     (dec_suback_codes m rx_buf_len ret)
            else dec_suback_codes m rx_buf_len ret (H, a1) (p + tmp))))
      | _ \<Rightarrow> ((H, subscribe_ack), Err BAD_ARG))"

subsection \<open>UNSUBACK\<close>

definition dec_unsuback_codes ::
  "mem \<Rightarrow> nat \<Rightarrow> store \<times> MqttUnsubscribeAck \<Rightarrow> nat \<Rightarrow> (store \<times> MqttUnsubscribeAck) \<times> int outcome" where
  "dec_unsuback_codes m packet_end = (\<lambda>(H, a) p.
     if p > packet_end then ((H, a), Err OUT_OF_BUFFER)
     else let n = (word_of_nat (packet_end - p) :: word16) in
       at_state (rdn m p (unat n)) (H, a) (\<lambda>codes.
       let a1 = a\<lparr>reason_codes := Some codes, reason_code_count := n\<rparr> in
       at_state (scan_codes MqttPacket_UnsubAckReasonCodeValid m p (unat n)) (H, a1) (\<lambda>valid.
         if \<not> valid then fail_free MALFORMED_DATA H (unsuback_props a1) (a1\<lparr>unsuback_props := None\<rparr>)
         else ((H, a1), Ok (int packet_end)))))"

definition MqttDecode_UnsubscribeAck ::
  "store \<Rightarrow> mem option \<Rightarrow> int \<Rightarrow> MqttUnsubscribeAck option \<Rightarrow> (store \<times> MqttUnsubscribeAck option) \<times> int outcome" where
  "MqttDecode_UnsubscribeAck H rx_buf rx_buf_len unsubscribe_ack =
     (case (rx_buf, unsubscribe_ack) of
        (Some m, Some a) \<Rightarrow>
          if rx_buf_len \<le> 0 then ((H, unsubscribe_ack), Err BAD_ARG)
          else some_state (at_state (MqttDecode_FixedHeader m rx_buf_len MQTT_PACKET_TYPE_UNSUBSCRIBE_ACK) (H, a) (\<lambda>h.
            let p = fh_header_len h; ret = int p + fh_remain_len h; packet_end = nat ret;
                v5 = (unsuback_level a \<ge> MQTT_CONNECT_PROTOCOL_LEVEL_5) in
            if rx_buf_len < ret then ((H, a), Err OUT_OF_BUFFER)
            else if (if v5 then fh_remain_len h < int MQTT_DATA_LEN_SIZE else fh_remain_len h \<noteq> int MQTT_DATA_LEN_SIZE)
            then ((H, a), Err MALFORMED_DATA)
            else at_state (MqttDecode_Num m p (rx_left rx_buf_len p)) (H, a) (\<lambda>(pid, tmp).
            let a1 = a\<lparr>unsuback_packet_id := pid, unsuback_props := None\<rparr> in
            if \<not> v5 then ((H, a1), Ok ret)
            else if fh_remain_len h > int MQTT_DATA_LEN_SIZE then
              then_state (with_props (\<lambda>h. a1\<lparr>unsuback_props := h\<rparr>)
                (dec_block (le_rest_after (int packet_end) (p + tmp) OUT_OF_BUFFER) MQTT_PACKET_TYPE_UNSUBSCRIBE_ACK
                   m (int packet_end) (p + tmp) H))
                (dec_unsuback_codes m packet_end)
            else dec_unsuback_codes m packet_end (H, a1) (p + tmp))))
      | _ \<Rightarrow> ((H, unsubscribe_ack), Err BAD_ARG))"

definition MqttEncode_UnsubscribeAck ::
  "store \<Rightarrow> mem option \<Rightarrow> int \<Rightarrow> MqttUnsubscribeAck option \<Rightarrow> (mem \<times> nat) outcome" where
  "MqttEncode_UnsubscribeAck H tx_buf tx_buf_len unsubscribe_ack =
     (case (tx_buf, unsubscribe_ack) of
        (Some m, Some a) \<Rightarrow>
          if unsuback_packet_id a = 0 then Err PACKET_ID
          else if unsuback_level a \<ge> MQTT_CONNECT_PROTOCOL_LEVEL_5 then
            bnd (props_len_pass MQTT_PACKET_TYPE_UNSUBSCRIBE_ACK H (unsuback_props a) m) (\<lambda>(props_len, tmp_len).
            bnd (case reason_codes a of
                   Some codes \<Rightarrow>
                     bnd (scan_codes MqttPacket_UnsubAckReasonCodeValid codes 0 (unat (reason_code_count a))) (\<lambda>valid.
                       if \<not> valid then Err BAD_ARG else rdn codes 0 (unat (reason_code_count a)))
                 | None \<Rightarrow> Ok []) (\<lambda>codes.
            enc_frame m tx_buf_len (MQTT_DATA_LEN_SIZE + props_len + tmp_len + length codes) MQTT_PACKET_TYPE_UNSUBSCRIBE_ACK 0 0 0
              (puts [put (\<lambda>m buf. MqttEncode_Num m buf (unsuback_packet_id a)),
                     put_props MQTT_PACKET_TYPE_UNSUBSCRIBE_ACK H (unsuback_props a) props_len,
                     put_bytes codes])))
          else enc_frame m tx_buf_len MQTT_DATA_LEN_SIZE MQTT_PACKET_TYPE_UNSUBSCRIBE_ACK 0 0 0
                 (puts [put (\<lambda>m buf. MqttEncode_Num m buf (unsuback_packet_id a))])
      | _ \<Rightarrow> Err BAD_ARG)"

section \<open>SUBACK: what is accepted, and what is returned\<close>

lemma scan_codes_eq: "p + n \<le> length m \<Longrightarrow> scan_codes valid m p n = Ok (\<forall>b \<in> set (blk m p n). valid b)"
  by (induction n arbitrary: p) (auto simp: rd_ok blk_Suc)

definition suback_body :: "bool \<Rightarrow> word16 \<Rightarrow> (nat \<times> prop_value) list \<Rightarrow> byte list \<Rightarrow> byte list" where
  "suback_body v pid tvs codes = num_bytes pid @ (if v then props_block tvs else []) @ codes"

text \<open>The values the decoder leaves for the codes of the payload.\<close>

definition codes_kept :: "MqttSubscribeAck \<Rightarrow> byte list \<Rightarrow> bool" where
  "codes_kept a codes \<longleftrightarrow> return_codes a = take MAX_MQTT_TOPICS codes @ replicate (MAX_MQTT_TOPICS - length codes) 0 \<and>
     return_code_count a = word_of_nat (min 0xFFFF (length codes))"

lemma dec_suback_codes_eq:
  assumes "int p \<le> ret" "ret \<le> L" "rx_ok m L" "ret = int p + int (length codes)" "blk m p (length codes) = codes"
  shows "dec_suback_codes m L ret (H, a) p =
    (let a1 = a\<lparr>return_code_count := word_of_nat (min 0xFFFF (length codes))\<rparr> in
     if \<forall>c \<in> set (take 12 codes). MqttPacket_SubAckReturnCodeValid c (suback_level a)
     then ((H, a1\<lparr>return_codes := take 12 codes @ replicate (12 - length codes) 0\<rparr>), Ok ret)
     else fail_free MALFORMED_DATA H (suback_props a) (a1\<lparr>suback_props := None\<rparr>))"
proof -
  let ?n = "min 12 (length codes)"
  have m: "p + length codes \<le> length m" using assms(2,3,4) by (simp add: rx_ok_def)
  have b: "blk m p ?n = take 12 codes"
    using assms(5) by (metis blk_def take_take min.commute)
  have w: "(word_of_int (if ret - int p > 65535 then 65535 else ret - int p) :: word16) = word_of_nat (min 0xFFFF (length codes))"
    using assms(4) by (auto simp: min_def)
  have n: "nat (if ret - int p > 12 then 12 else ret - int p) = ?n" using assms(4) by (auto simp: min_def)
  have s: "scan_codes v m p ?n = Ok (\<forall>c \<in> set (take 12 codes). v c)" for v
    using m b by (subst scan_codes_eq) auto
  have r: "rdn m p ?n = Ok (take 12 codes)" using m b by (simp add: rdn_def)
  show ?thesis
    unfolding dec_suback_codes_def prod.case Let_def of_nat_numeral w n using assms(1,2,4) s r by (auto simp: min_def)
qed

lemma dec_suback_codes_post:
  assumes h: "holds H H1 (suback_props a) tvs" and L: "rx_ok m L" "int p \<le> L"
    and E: "\<And>H' n. released H H' \<Longrightarrow> E (H', a\<lparr>suback_props := None\<rparr>) \<and> E (H', a\<lparr>return_code_count := n, suback_props := None\<rparr>)"
    and Q: "\<And>a1 codes. \<lbrakk>int p \<le> ret; ret \<le> L; codes = blk m p (nat ret - p); codes_kept a1 codes; suback_packet_id a1 = suback_packet_id a;
      suback_props a1 = suback_props a; suback_level a1 = suback_level a;
      \<forall>c \<in> set (take 12 codes). MqttPacket_SubAckReturnCodeValid c (suback_level a)\<rbrakk> \<Longrightarrow> Q (H1, a1) ret"
  shows "post E Q (dec_suback_codes m L ret (H1, a) p)"
proof (cases "int p \<le> ret \<and> ret \<le> L")
  case True
  define codes where "codes = blk m p (nat ret - p)"
  have "p + (nat ret - p) \<le> length m" using True L(1) by (auto simp: rx_ok_def)
  then have l: "length codes = nat ret - p" by (simp add: codes_def)
  have e: "ret = int p + int (length codes)" "blk m p (length codes) = codes" unfolding l using True by (auto simp: codes_def)
  show ?thesis unfolding dec_suback_codes_eq [OF conjunct1 [OF True] conjunct2 [OF True] L(1) e] Let_def
    by (rule post_if) (use True E in \<open>auto intro!: Q post_fail_free [OF h] simp: codes_kept_def codes_def [symmetric] l\<close>)
next
  case False
  then show ?thesis using L(2) E by (auto simp: dec_suback_codes_def Let_def intro!: post_fail_free [OF h])
qed

definition suback_read :: "store \<Rightarrow> mem \<Rightarrow> store \<Rightarrow> MqttSubscribeAck \<Rightarrow> nat \<Rightarrow> bool" where
  "suback_read H m H' a k \<longleftrightarrow> (\<exists>tf v tvs codes. let body = suback_body v (suback_packet_id a) tvs codes in
     blk m 0 k = tf # vbi_bytes (length body) @ body \<and> MQTT_PACKET_TYPE_GET tf = MQTT_PACKET_TYPE_SUBSCRIBE_ACK \<and>
     MqttPacket_FixedHeaderFlagsValid tf \<and> (v \<longleftrightarrow> suback_level a \<ge> MQTT_CONNECT_PROTOCOL_LEVEL_5 \<and> length body \<noteq> 2) \<and>
     (v \<longrightarrow> props_ok MQTT_PACKET_TYPE_SUBSCRIBE_ACK tvs) \<and> holds H H' (suback_props a) tvs \<and> codes_kept a codes \<and>
     (\<forall>c \<in> set (take MAX_MQTT_TOPICS codes). MqttPacket_SubAckReturnCodeValid c (suback_level a)))"

lemma MqttDecode_SubscribeAck_post:
  assumes H: "live_list H None []" and L: "rx_ok m L"
  shows "post (\<lambda>(H', a'). released H H' \<and> (\<exists>a1. a' = Some a1))
      (\<lambda>(H', a') r. \<exists>a1. a' = Some a1 \<and> 0 \<le> r \<and> r \<le> L \<and> suback_level a1 = suback_level a \<and> suback_read H m H' a1 (nat r))
      (MqttDecode_SubscribeAck H (Some m) L (Some a))"
proof -
  have h0: "holds H H None []" using H by simp
  have rel: "released H H" using holds_None [OF h0] by simp
  have fin: "post (\<lambda>(H', a'). released H H' \<and> (\<exists>a1. Some a' = Some a1))
      (\<lambda>(H', a') r. \<exists>a1. Some a' = Some a1 \<and> 0 \<le> r \<and> r \<le> L \<and> suback_level a1 = suback_level a \<and> suback_read H m H' a1 (nat r))
      (dec_suback_codes m L (int hl + int n) (H1, a1) q)"
    if "holds H H1 (suback_props a1) tvs" "int q \<le> L" "hl = 1 + length (vbi_bytes n)" "blk m 0 hl = tf # vbi_bytes n"
      "MQTT_PACKET_TYPE_GET tf = 9" "MqttPacket_FixedHeaderFlagsValid tf" "suback_level a1 = suback_level a"
      "blk m hl 2 = num_bytes (suback_packet_id a1)" "q = hl + 2 + length pb" "blk m (hl + 2) (length pb) = pb"
      "pb = (if v then props_block tvs else [])" "v \<longleftrightarrow> suback_level a \<ge> 5 \<and> n \<noteq> 2" "v \<longrightarrow> props_ok 9 tvs"
    for H1 a1 q tvs hl n tf pb v
  proof (rule dec_suback_codes_post [OF that(1) L that(2)], goal_cases)
    case (2 a2 codes)
    define e where "e = hl + n"
    have q: "q \<le> e" "int e \<le> L" using 2(1,2) by (simp_all add: e_def)
    have c: "codes = blk m q (e - q)" using 2(3) by (simp add: e_def nat_add_distrib)
    have e: "hl + (2 + (length pb + (e - q))) = e" using q(1) that(9) by simp
    have "blk m 0 (hl + (2 + (length pb + (e - q)))) = (tf # vbi_bytes n) @ num_bytes (suback_packet_id a1) @ pb @ codes"
      unfolding blk_add add_0 c that(9) by (simp only: that(4,8,10) add.assoc)
    then have b: "blk m 0 e = tf # vbi_bytes n @ num_bytes (suback_packet_id a1) @ pb @ codes" unfolding e by simp
    define body where "body = suback_body v (suback_packet_id a2) tvs codes"
    have bd: "body = num_bytes (suback_packet_id a1) @ pb @ codes" by (simp add: body_def suback_body_def that(11) 2(5))
    have "length (blk m 0 e) = e" using L q(2) by (simp add: rx_ok_def)
    then have n: "n = length body" unfolding b bd using that(3) by (simp add: e_def)
    have w: "blk m 0 e = tf # vbi_bytes (length body) @ body" unfolding n [symmetric] unfolding bd by (rule b)
    have v: "v \<longleftrightarrow> suback_level a2 \<ge> 5 \<and> length body \<noteq> 2" using that(7,12) 2(7) n by simp
    have "suback_read H m H1 a2 e" unfolding suback_read_def Let_def
      by (rule exI [of _ tf], rule exI [of _ v], rule exI [of _ tvs], rule exI [of _ codes], unfold body_def [symmetric], intro conjI)
        (use w v that(1,5,6,13) 2(4,6,7,8) in simp_all)
    then show ?case using q 2(7) that(7) by (simp add: e_def nat_add_distrib)
  qed simp
  show ?thesis unfolding MqttDecode_SubscribeAck_def option.case prod.case Let_def
  proof (intro post_if post_some_state post_header [OF L] post_Num [OF L], goal_cases)
    case (6 h tf n pid)
    define hl where "hl = fh_header_len h"
    have le: "int (hl + 2) \<le> L" "blk m hl 2 = num_bytes pid" using 6(11,12) by (simp_all add: hl_def)
    note F = fin [OF _ _ 6(6,7) [folded hl_def] 6(8,9)]
    show ?case unfolding prod.case 6(3) hl_def [symmetric]
    proof (intro post_if post_props [OF H L], goal_cases)
      case (4 H1 h1 tvs q)
      then show ?case using le by (intro F [of _ _ tvs _ "props_block tvs" True]) auto
    next
      case 5
      then show ?case using h0 le 6(3,10) by (intro F [of _ _ "[]" _ "[]" False]) auto
    qed (use le rel in auto)
  qed (use rel in auto)
qed

lemma MqttDecode_SubscribeAck_complete:
  assumes H: "live_list H None []" "length tvs \<le> card (free_cells H)" and L: "rx_ok m L"
    and ok: "v \<longleftrightarrow> suback_level a \<ge> 5" "if v then props_ok 9 tvs else tvs = []"
      "\<forall>c \<in> set (take 12 codes). MqttPacket_SubAckReturnCodeValid c (suback_level a)"
    and bd: "bd = suback_body v pid tvs codes" "length bd \<le> 0x0FFFFFFF"
    and pk: "pk = type_flags 9 0 0 0 # vbi_bytes (length bd) @ bd" "blk m 0 (length pk) = pk" "int (length pk) \<le> L"
  shows "\<exists>H' a'. MqttDecode_SubscribeAck H (Some m) L (Some a) = ((H', Some a'), Ok (int (length pk))) \<and>
    suback_packet_id a' = pid \<and> codes_kept a' codes \<and> holds H H' (suback_props a') tvs"
proof -
  obtain h where h: "MqttDecode_FixedHeader m L 9 = Ok h" "fh_remain_len h = int (length bd)"
    "blk m (fh_header_len h) (length bd) = bd" "int (fh_header_len h + length bd) \<le> L"
    "length pk = fh_header_len h + length bd" "\<not> L \<le> 0" "fh_header_len h + length bd \<le> length m"
    using header_read [OF L pk bd(2)] plain_flags [of 9] by auto
  define p where "p = fh_header_len h"
  define pb where "pb = (if v then props_block tvs else [])"
  define k where "k = (2 :: nat)"
  define q where "q = p + k"
  have b: "bd = num_bytes pid @ (pb @ codes)" by (simp add: bd(1) suback_body_def pb_def)
  have lb: "length bd = k + length pb + length codes" by (simp add: b k_def)
  note s1 = blk_split [OF h(3) b h(7), folded p_def]
  have le2: "p + length (num_bytes pid) + length (pb @ codes) \<le> length m" using h(7) lb by (simp add: p_def k_def)
  note s2 = blk_split [OF s1(2) refl le2]
  have N: "MqttDecode_Num m p (rx_left L p) = Ok (pid, k)"
    unfolding k_def using s1(1) h(4) lb by (intro Num_at [OF L]) (simp_all add: p_def k_def)
  define ret where "ret = int p + int (length bd)"
  let ?a = "a\<lparr>suback_packet_id := pid, suback_props := None\<rparr>"
  have fin: "\<exists>a'. dec_suback_codes m L ret (H', ?a\<lparr>suback_props := h'\<rparr>) (q + length pb) = ((H', a'), Ok ret) \<and>
      suback_packet_id a' = pid \<and> codes_kept a' codes \<and> suback_props a' = h'" for H' h'
    using h(4) s2(2) ok(3) lb
    by (subst dec_suback_codes_eq [OF _ _ L, of _ _ codes]) (auto simp: Let_def codes_kept_def ret_def q_def k_def p_def)
  have g: "\<not> L < int p + int k" "\<not> length bd < 2" "int (length pk) = ret" using h(4,5) lb by (auto simp: p_def k_def ret_def)
  show ?thesis
  proof (cases v)
    case True
    then have pb: "pb = props_block tvs" "props_ok 9 tvs" using ok(2) by (simp_all add: pb_def)
    have bl: "blk m q (length (props_block tvs)) = props_block tvs" using s2(1) by (simp add: q_def k_def pb)
    have le: "int (q + length (props_block tvs)) \<le> L" using h(4) lb by (simp add: q_def k_def pb p_def)
    from block_at(1) [OF H L bl le pb(2) auth_ok_other [OF _ pb(2)], of OUT_OF_BUFFER] obtain H' h' where
      blk: "dec_block (le_rest L q OUT_OF_BUFFER) 9 m L q H = ((H', h'), Ok (q + length pb))" "holds H H' h' tvs" unfolding pb(1) by auto
    obtain a' where a': "dec_suback_codes m L ret (H', ?a\<lparr>suback_props := h'\<rparr>) (q + length pb) = ((H', a'), Ok ret)"
      "suback_packet_id a' = pid" "codes_kept a' codes" "suback_props a' = h'" using fin by blast
    have "length pb > 0" by (simp add: pb(1) props_block_def)
    then have "length bd > 2" using lb by (simp add: k_def)
    then have "MqttDecode_SubscribeAck H (Some m) L (Some a) = ((H', Some a'), Ok ret)"
      using True ok(1) g h(6) blk(1) a'(1) unfolding MqttDecode_SubscribeAck_def option.case prod.case
      by (simp add: h(1,2) p_def [symmetric] N q_def [symmetric] Let_def ret_def [symmetric])
    then show ?thesis using a' blk(2) g(3) by (intro exI [of _ H'] exI [of _ a']) simp
  next
    case False
    obtain a' where a': "dec_suback_codes m L ret (H, ?a\<lparr>suback_props := None\<rparr>) (q + length pb) = ((H, a'), Ok ret)"
      "suback_packet_id a' = pid" "codes_kept a' codes" "suback_props a' = None" using fin by blast
    have "MqttDecode_SubscribeAck H (Some m) L (Some a) = ((H, Some a'), Ok ret)"
      using False ok(1) g h(6) a'(1) unfolding MqttDecode_SubscribeAck_def option.case prod.case
      by (simp add: h(1,2) p_def [symmetric] N q_def [symmetric] Let_def ret_def [symmetric] pb_def)
    then show ?thesis using a' H(1) ok(2) False g(3) by (intro exI [of _ H] exI [of _ a']) simp
  qed
qed

section \<open>UNSUBACK\<close>

definition unsuback_body :: "byte \<Rightarrow> word16 \<Rightarrow> (nat \<times> prop_value) list \<Rightarrow> byte list \<Rightarrow> byte list" where
  "unsuback_body level pid tvs codes = num_bytes pid @ (if level \<ge> MQTT_CONNECT_PROTOCOL_LEVEL_5 then props_block tvs @ codes else [])"

definition unsuback_ok :: "byte \<Rightarrow> word16 \<Rightarrow> (nat \<times> prop_value) list \<Rightarrow> byte list \<Rightarrow> bool" where
  "unsuback_ok level pid tvs codes \<longleftrightarrow> pid \<noteq> 0 \<and> (level \<ge> MQTT_CONNECT_PROTOCOL_LEVEL_5 \<longrightarrow>
     props_ok MQTT_PACKET_TYPE_UNSUBSCRIBE_ACK tvs \<and> (\<forall>c \<in> set codes. MqttPacket_UnsubAckReasonCodeValid c))"

text \<open>What a caller hands over: the announced number of codes is in the array.\<close>

definition unsuback_codes :: "MqttUnsubscribeAck \<Rightarrow> byte list" where
  "unsuback_codes a = (case reason_codes a of None \<Rightarrow> [] | Some codes \<Rightarrow> take (unat (reason_code_count a)) codes)"

definition unsuback_wf :: "store \<Rightarrow> MqttUnsubscribeAck \<Rightarrow> bool" where
  "unsuback_wf H a \<longleftrightarrow> props_src H (unsuback_props a) \<and>
     (\<forall>codes. reason_codes a = Some codes \<longrightarrow> unat (reason_code_count a) \<le> length codes)"

lemma MqttEncode_UnsubscribeAck_eq:
  fixes a :: MqttUnsubscribeAck
  assumes wf: "unsuback_wf H a" and tx: "tx_buf_len \<le> int (length m)"
  defines "tvs \<equiv> prop_list H (unsuback_props a)"
  shows "unsuback_ok (unsuback_level a) (unsuback_packet_id a) tvs (unsuback_codes a) \<Longrightarrow>
      MqttEncode_UnsubscribeAck H (Some m) tx_buf_len (Some a) = send_packet m tx_buf_len (type_flags 11 0 0 0)
        (unsuback_body (unsuback_level a) (unsuback_packet_id a) tvs (unsuback_codes a))"
    and "\<not> unsuback_ok (unsuback_level a) (unsuback_packet_id a) tvs (unsuback_codes a) \<Longrightarrow>
      \<exists>e. MqttEncode_UnsubscribeAck H (Some m) tx_buf_len (Some a) = Err e"
proof -
  have src: "props_src H (unsuback_props a)" using wf by (simp add: unsuback_wf_def)
  note lp = props_len_pass_list [OF src, folded tvs_def]
  let ?cs = "unsuback_codes a"
  have codes: "(case reason_codes a of
      Some codes \<Rightarrow> bnd (scan_codes MqttPacket_UnsubAckReasonCodeValid codes 0 (unat (reason_code_count a))) (\<lambda>valid.
        if \<not> valid then Err BAD_ARG else rdn codes 0 (unat (reason_code_count a)))
    | None \<Rightarrow> Ok []) = (if \<forall>c \<in> set ?cs. MqttPacket_UnsubAckReasonCodeValid c then Ok ?cs else Err BAD_ARG)"
    using wf by (auto simp: unsuback_wf_def unsuback_codes_def scan_codes_eq rdn_def blk_def split: option.splits)
  {
    assume "\<not> unsuback_ok (unsuback_level a) (unsuback_packet_id a) tvs ?cs"
    then show "\<exists>e. MqttEncode_UnsubscribeAck H (Some m) tx_buf_len (Some a) = Err e"
      unfolding MqttEncode_UnsubscribeAck_def prod.case option.case codes by (auto simp: lp unsuback_ok_def)
  next
    assume ok: "unsuback_ok (unsuback_level a) (unsuback_packet_id a) tvs ?cs"
    define n where "n = length (props_bytes tvs)"
    define k where "k = length (vbi_bytes n)"
    have lc: "length ?cs < 65536"
      by (auto simp: unsuback_codes_def min_less_iff_disj split: option.splits)
    let ?w = "puts [put (\<lambda>m buf. MqttEncode_Num m buf (unsuback_packet_id a)), put_props 11 H (unsuback_props a) n, put_bytes ?cs]"
    show "MqttEncode_UnsubscribeAck H (Some m) tx_buf_len (Some a) = send_packet m tx_buf_len (type_flags 11 0 0 0)
        (unsuback_body (unsuback_level a) (unsuback_packet_id a) tvs ?cs)" (is "_ = send_packet _ _ _ ?body")
    proof (cases "unsuback_level a \<ge> 5")
      case True
      have "emits ?w (num_bytes (unsuback_packet_id a) @ props_block tvs @ ?cs @ [])"
        using ok True src unfolding tvs_def by (intro emits_intros) (auto simp: unsuback_ok_def n_def tvs_def)
      then have e: "emits ?w ?body" using True by (simp add: unsuback_body_def)
      have l: "length ?body = 2 + n + k + length ?cs" using True by (simp add: unsuback_body_def n_def k_def props_block_def)
      have lb: "length ?body < 2 ^ 32" using ok True props_block_bound [of 11 tvs] lc by (auto simp: unsuback_body_def unsuback_ok_def)
      have "MqttEncode_UnsubscribeAck H (Some m) tx_buf_len (Some a) = enc_frame m tx_buf_len (2 + n + k + length ?cs) 11 0 0 0 ?w"
        unfolding MqttEncode_UnsubscribeAck_def prod.case option.case codes using ok True by (simp add: lp unsuback_ok_def n_def k_def)
      then show ?thesis using enc_frame_eq [OF e l [symmetric] tx lb] by simp
    next
      case False
      have "emits (puts [put (\<lambda>m buf. MqttEncode_Num m buf (unsuback_packet_id a))]) (num_bytes (unsuback_packet_id a) @ [])"
        by (intro emits_intros)
      from enc_frame_eq [OF this _ tx, of 2] show ?thesis
        using ok False by (simp add: MqttEncode_UnsubscribeAck_def unsuback_body_def unsuback_ok_def)
    qed
  }
qed

lemma dec_unsuback_codes_post:
  assumes h: "holds H H1 (unsuback_props a) tvs" and e: "e \<le> length m"
    and E: "\<And>H' cs n. released H H' \<Longrightarrow> E (H', a\<lparr>reason_codes := cs, reason_code_count := n, unsuback_props := None\<rparr>)"
    and Q: "\<And>cs n. p \<le> e \<Longrightarrow> \<forall>c \<in> set cs. MqttPacket_UnsubAckReasonCodeValid c \<Longrightarrow> n = word_of_nat (e - p) \<Longrightarrow> cs = blk m p (unat n) \<Longrightarrow>
      Q (H1, a\<lparr>reason_codes := Some cs, reason_code_count := n\<rparr>) (int e)"
    and p: "p \<le> e"
  shows "post E Q (dec_unsuback_codes m e (H1, a) p)"
proof -
  have "unat (word_of_nat (e - p) :: word16) \<le> e - p" by (simp add: unsigned_of_nat)
  then have l: "p + unat (word_of_nat (e - p) :: word16) \<le> length m" using p e by linarith
  show ?thesis unfolding dec_unsuback_codes_def prod.case Let_def rdn_ok [OF l] at_state_simps scan_codes_eq [OF l]
    by (intro post_if) (use p in \<open>auto intro!: E Q post_fail_free [OF h]\<close>)
qed

lemma MqttDecode_UnsubscribeAck_post:
  assumes H: "live_list H None []" and L: "rx_ok m L"
  shows "post (\<lambda>(H', a'). released H H' \<and> (\<exists>a1. a' = Some a1))
      (\<lambda>(H', a') _. \<exists>a1. a' = Some a1 \<and> Ex (holds H H' (unsuback_props a1)) \<and>
         (unsuback_level a \<ge> 5 \<longrightarrow> (\<exists>cs. reason_codes a1 = Some cs \<and> length cs = unat (reason_code_count a1) \<and>
            (\<forall>c \<in> set cs. MqttPacket_UnsubAckReasonCodeValid c))))
      (MqttDecode_UnsubscribeAck H (Some m) L (Some a))" (is "post ?E ?Q _")
proof -
  have h0: "holds H H None []" using H by simp
  have rel: "released H H" using holds_None [OF h0] by simp
  have fin: "post (\<lambda>(H', a'). released H H' \<and> (\<exists>a1. Some a' = Some a1))
      (\<lambda>(H', a') _. \<exists>a1. Some a' = Some a1 \<and> Ex (holds H H' (unsuback_props a1)) \<and>
         (unsuback_level a \<ge> 5 \<longrightarrow> (\<exists>cs. reason_codes a1 = Some cs \<and> length cs = unat (reason_code_count a1) \<and>
            (\<forall>c \<in> set cs. MqttPacket_UnsubAckReasonCodeValid c))))
      (dec_unsuback_codes m e (H1, a1) p)"
    if "holds H H1 (unsuback_props a1) tvs" "int e \<le> L" "p \<le> e" for H1 a1 tvs e p
  proof (rule dec_unsuback_codes_post [OF that(1) _ _ _ that(3)], goal_cases)
    case (3 cs n)
    have "unat n \<le> e - p" by (simp add: 3(3) unsigned_of_nat)
    then have "p + unat n \<le> length m" using that(2,3) L unfolding rx_ok_def by linarith
    then show ?case using 3 that(1) by auto
  qed (use that L in \<open>auto simp: rx_ok_def\<close>)
  show ?thesis unfolding MqttDecode_UnsubscribeAck_def option.case prod.case Let_def
  proof (intro post_if post_some_state post_header [OF L] post_Num [OF L], goal_cases)
    case (7 h tf n pid)
    define hl where "hl = fh_header_len h"
    have e: "nat (int hl + fh_remain_len h) = hl + n" using 7(3) by simp
    have le: "int (hl + n) \<le> L" using 7(3,10) by (simp add: hl_def)
    have rx: "rx_ok m (int (hl + n))" using L le by (simp add: rx_ok_def)
    have n: "2 \<le> n" using 7(3,11) by (auto split: if_splits)
    show ?case unfolding prod.case 7(3) hl_def [symmetric]
      by (intro post_if post_props [OF H] fin) (use h0 le n rel rx in \<open>auto simp: nat_add_distrib\<close>)
  qed (use rel in auto)
qed

lemma MqttDecode_UnsubscribeAck_complete:
  assumes H: "live_list H None []" "length tvs \<le> card (free_cells H)" and L: "rx_ok m L"
    and ok: "unsuback_ok (unsuback_level a) pid tvs codes" "\<not> unsuback_level a \<ge> 5 \<longrightarrow> tvs = []" "length codes < 65536"
    and bd: "bd = unsuback_body (unsuback_level a) pid tvs codes" "length bd \<le> 0x0FFFFFFF"
    and pk: "pk = type_flags 11 0 0 0 # vbi_bytes (length bd) @ bd" "blk m 0 (length pk) = pk" "int (length pk) \<le> L"
  shows "\<exists>H' a'. MqttDecode_UnsubscribeAck H (Some m) L (Some a) = ((H', Some a'), Ok (int (length pk))) \<and>
    unsuback_packet_id a' = pid \<and> holds H H' (unsuback_props a') tvs \<and>
    (unsuback_level a \<ge> 5 \<longrightarrow> reason_codes a' = Some codes \<and> unat (reason_code_count a') = length codes)"
proof -
  obtain h where h: "MqttDecode_FixedHeader m L 11 = Ok h" "fh_remain_len h = int (length bd)"
    "blk m (fh_header_len h) (length bd) = bd" "int (fh_header_len h + length bd) \<le> L"
    "length pk = fh_header_len h + length bd" "\<not> L \<le> 0" "fh_header_len h + length bd \<le> length m"
    using header_read [OF L pk bd(2)] plain_flags [of 11] by auto
  define v5 where "v5 \<longleftrightarrow> unsuback_level a \<ge> 5"
  define p where "p = fh_header_len h"
  define k where "k = (2 :: nat)"
  define q where "q = p + k"
  define e where "e = p + length bd"
  define rest where "rest = (if v5 then props_block tvs @ codes else [])"
  have b: "bd = num_bytes pid @ rest" by (simp add: bd(1) unsuback_body_def v5_def rest_def)
  have lb: "length bd = k + length rest" by (simp add: b k_def)
  note s1 = blk_split [OF h(3) b h(7), folded p_def]
  have N: "MqttDecode_Num m p (rx_left L p) = Ok (pid, k)"
    unfolding k_def using s1(1) h(4) lb by (intro Num_at [OF L]) (simp_all add: p_def k_def)
  have ret: "int p + int (length bd) = int e" "int (length pk) = int e" "\<not> L < int e" using h(4,5) by (simp_all add: e_def p_def)
  let ?a = "a\<lparr>unsuback_packet_id := pid, unsuback_props := None\<rparr>"
  show ?thesis
  proof (cases v5)
    case True
    then have pok: "props_ok 11 tvs" "\<forall>c \<in> set codes. MqttPacket_UnsubAckReasonCodeValid c" using ok(1) by (simp_all add: unsuback_ok_def v5_def)
    have r: "rest = props_block tvs @ codes" using True by (simp add: rest_def)
    have le2: "q + length rest \<le> length m" using h(7) lb by (simp add: q_def p_def)
    have "blk m q (length rest) = rest" using s1(2) by (simp add: q_def k_def)
    note s2 = blk_split [OF this r le2]
    have rx: "rx_ok m (int e)" using h(4,7) L by (simp add: rx_ok_def e_def p_def)
    have le: "int (q + length (props_block tvs)) \<le> int e" using lb r by (simp add: q_def e_def)
    from block_at(2) [OF H rx s2(1) le pok(1) auth_ok_other [OF _ pok(1)], of OUT_OF_BUFFER] obtain H' h' where
      blk: "dec_block (le_rest_after (int e) q OUT_OF_BUFFER) 11 m (int e) q H = ((H', h'), Ok (q + length (props_block tvs)))"
      "holds H H' h' tvs" by auto
    have ep: "e - (q + length (props_block tvs)) = length codes" "q + length (props_block tvs) \<le> e" using lb r by (auto simp: e_def q_def)
    have u: "unat (word_of_nat (length codes) :: word16) = length codes" using ok(3) by (simp add: unat_word16_of_nat)
    have lm: "q + length (props_block tvs) + length codes \<le> length m" using le2 r by simp
    let ?a' = "?a\<lparr>unsuback_props := h', reason_codes := Some codes, reason_code_count := word_of_nat (length codes)\<rparr>"
    have d: "dec_unsuback_codes m e (H', ?a\<lparr>unsuback_props := h'\<rparr>) (q + length (props_block tvs)) = ((H', ?a'), Ok (int e))"
      using ep(2) s2(2) pok(2) scan_codes_eq [OF lm] by (simp add: dec_unsuback_codes_def ep(1) u rdn_ok [OF lm] Let_def)
    have "length (props_block tvs) > 0" by (simp add: props_block_def)
    then have bl: "length bd > 2" "\<not> length bd < 2" using lb r by (simp_all add: k_def)
    have "MqttDecode_UnsubscribeAck H (Some m) L (Some a) = ((H', Some ?a'), Ok (int e))"
      using True bl ret(3) h(6) blk(1) d unfolding MqttDecode_UnsubscribeAck_def option.case prod.case
      by (simp add: h(1,2) p_def [symmetric] N q_def [symmetric] Let_def ret(1) v5_def)
    then show ?thesis using blk(2) u ret(2) by (intro exI [of _ H'] exI [of _ ?a']) simp
  next
    case False
    have bl: "length bd = 2" using lb False by (simp add: k_def rest_def)
    have pe: "int p + 2 = int e" by (simp add: e_def bl)
    have "MqttDecode_UnsubscribeAck H (Some m) L (Some a) = ((H, Some ?a), Ok (int e))"
      using False ret(3) h(6) unfolding MqttDecode_UnsubscribeAck_def option.case prod.case
      by (simp add: h(1,2) bl p_def [symmetric] N Let_def pe v5_def)
    then show ?thesis using H(1) ok(2) False ret(2) by (intro exI [of _ H] exI [of _ ?a]) (simp add: v5_def)
  qed
qed

section \<open>The contracts\<close>

definition unsuback_value :: "store \<Rightarrow> MqttUnsubscribeAck \<Rightarrow> (nat \<times> prop_value) list" where
  "unsuback_value H a = (if unsuback_level a \<ge> MQTT_CONNECT_PROTOCOL_LEVEL_5 then prop_list H (unsuback_props a) else [])"

lemma unsuback_old:
  "unsuback_body (unsuback_level a) pid (unsuback_value H a) cs = unsuback_body (unsuback_level a) pid (prop_list H (unsuback_props a)) cs"
  "unsuback_ok (unsuback_level a) pid (unsuback_value H a) cs = unsuback_ok (unsuback_level a) pid (prop_list H (unsuback_props a)) cs"
  by (simp_all add: unsuback_body_def unsuback_ok_def unsuback_value_def)

lemma unsuback_codes_less: "length (unsuback_codes a) < 65536"
  by (auto simp: unsuback_codes_def min_less_iff_disj split: option.splits)

interpretation unsuback: packet_codec
  "\<lambda>(H, a) m tx_buf_len. MqttEncode_UnsubscribeAck H (Some m) tx_buf_len (Some a)"
  "\<lambda>(D, d) m rx_buf_len. MqttDecode_UnsubscribeAck D (Some m) rx_buf_len d"
  "\<lambda>_. type_flags 11 0 0 0"
  "\<lambda>(H, a). unsuback_body (unsuback_level a) (unsuback_packet_id a) (unsuback_value H a) (unsuback_codes a)"
  "\<lambda>(H, a). unsuback_wf H a"
  "\<lambda>(H, a). unsuback_ok (unsuback_level a) (unsuback_packet_id a) (unsuback_value H a) (unsuback_codes a)"
  "\<lambda>(D, d). live_list D None [] \<and> d \<noteq> None"
  "\<lambda>(H, a) (D, d). unsuback_level (the d) = unsuback_level a \<and> length (unsuback_value H a) \<le> card (free_cells D)"
  "\<lambda>(H, a) (D, _) (D', d). \<exists>d'. d = Some d' \<and> unsuback_packet_id d' = unsuback_packet_id a \<and>
     holds D D' (unsuback_props d') (unsuback_value H a) \<and>
     (unsuback_level a \<ge> MQTT_CONNECT_PROTOCOL_LEVEL_5 \<longrightarrow>
        reason_codes d' = Some (unsuback_codes a) \<and> unat (reason_code_count d') = length (unsuback_codes a))"
  "\<lambda>(D, _) (D', _). released D D'"
proof (unfold_locales, goal_cases)
  case (1 s L m)
  obtain H a where s: "s = (H, a)" by fastforce
  show ?case using 1 MqttEncode_UnsubscribeAck_eq(1) [of H a L m] unfolding s prod.case unsuback_old by simp
next
  case (2 s L m)
  obtain H a where s: "s = (H, a)" by fastforce
  show ?case using 2 MqttEncode_UnsubscribeAck_eq [of H a L m] send_packet_small [of L m] unfolding s prod.case unsuback_old by fastforce
next
  case (3 s d m L pk)
  obtain H a where s: "s = (H, a)" by fastforce
  obtain D d0 where d: "d = (D, Some d0)" using 3(2) by (cases d) auto
  have f: "unsuback_level d0 = unsuback_level a" "length (unsuback_value H a) \<le> card (free_cells D)" "live_list D None []"
    using 3(2,3) by (simp_all add: s d)
  have ok: "unsuback_ok (unsuback_level d0) (unsuback_packet_id a) (unsuback_value H a) (unsuback_codes a)" using 3(1) f by (simp add: s)
  have old: "\<not> unsuback_level d0 \<ge> 5 \<longrightarrow> unsuback_value H a = []" using f by (simp add: unsuback_value_def)
  from MqttDecode_UnsubscribeAck_complete [OF f(3,2) 3(4) ok old unsuback_codes_less refl _ _ 3(7,8)] 3(5,6)
  show ?case unfolding s d prod.case f(1) by fastforce
next
  case (4 d m L d' x)
  obtain D d0 where d: "d = (D, Some d0)" using 4(1) by (cases d) auto
  have H: "live_list D None []" using 4(1) by (simp add: d)
  obtain D' r' y where r: "MqttDecode_UnsubscribeAck D (Some m) L (Some d0) = ((D', r'), y)" by (metis prod_cases3 prod.collapse)
  have "d' = (D', r')" "x = y" using 4(3) by (simp_all add: d r)
  then show ?case using MqttDecode_UnsubscribeAck_post [OF H 4(2), of d0] unfolding r d by (auto elim!: postE)
qed

text \<open>C29: an UNSUBACK that \<^verbatim>\<open>MqttEncode_UnsubscribeAck\<close> writes is decoded by \<^verbatim>\<open>MqttDecode_UnsubscribeAck\<close> to the same packet
  identifier, properties and, at protocol level 5, the same list of reason codes.\<close>

theorem unsuback_round_trip:
  assumes "unsuback_wf H a" "tx_buf_len \<le> int (length m)" "tx_buf_len < 2147483648"
    and "MqttEncode_UnsubscribeAck H (Some m) tx_buf_len (Some a) = Ok (m', k)"
    and "live_list D None []" "length (unsuback_value H a) \<le> card (free_cells D)" "unsuback_level d = unsuback_level a"
  shows "\<exists>D' d'. MqttDecode_UnsubscribeAck D (Some m') (int k) (Some d) = ((D', Some d'), Ok (int k)) \<and>
    unsuback_packet_id d' = unsuback_packet_id a \<and> holds D D' (unsuback_props d') (unsuback_value H a) \<and>
    (unsuback_level a \<ge> 5 \<longrightarrow>
       reason_codes d' = Some (unsuback_codes a) \<and> unat (reason_code_count d') = length (unsuback_codes a))"
  using unsuback.round_trip [of "(H, a)" tx_buf_len m m' k "(D, Some d)"] assms
  by (cases "MqttDecode_UnsubscribeAck D (Some m') (int k) (Some d)") auto

theorem unsuback_round_trip_witness:
  "\<exists>m' k D' d'. MqttEncode_UnsubscribeAck [] (Some (replicate 8 0)) 8
       (Some \<lparr>unsuback_packet_id = 9, unsuback_props = None, reason_codes = Some [0, 0x11], reason_code_count = 2, unsuback_level = 5\<rparr>) = Ok (m', k) \<and>
     MqttDecode_UnsubscribeAck (replicate 30 zero_prop) (Some m') (int k)
       (Some \<lparr>unsuback_packet_id = 0, unsuback_props = None, reason_codes = None, reason_code_count = 0, unsuback_level = 5\<rparr>) =
       ((D', Some d'), Ok (int k)) \<and>
     unsuback_packet_id d' = 9 \<and> reason_codes d' = Some [0, 0x11]"
proof -
  let ?a = "\<lparr>unsuback_packet_id = 9, unsuback_props = None, reason_codes = Some [0, 0x11], reason_code_count = 2, unsuback_level = 5\<rparr> :: MqttUnsubscribeAck"
  let ?d = "\<lparr>unsuback_packet_id = 0, unsuback_props = None, reason_codes = None, reason_code_count = 0, unsuback_level = 5\<rparr> :: MqttUnsubscribeAck"
  have wf: "unsuback_wf [] ?a" by (simp add: unsuback_wf_def)
  have c: "unsuback_codes ?a = [0, 0x11]" by (simp add: unsuback_codes_def)
  have "unsuback_ok 5 9 [] [0, 0x11]" by (simp add: unsuback_ok_def MqttPacket_UnsubAckReasonCodeValid_def props_ok_def)
  then have "\<exists>m' k. MqttEncode_UnsubscribeAck [] (Some (replicate 8 0)) 8 (Some ?a) = Ok (m', k)"
    using MqttEncode_UnsubscribeAck_eq(1) [OF wf, of 8 "replicate 8 0"]
    by (simp add: send_packet_def Let_def unsuback_body_def vbi_bytes_small props_block_def props_bytes_def c)
  then obtain m' k where e: "MqttEncode_UnsubscribeAck [] (Some (replicate 8 0)) 8 (Some ?a) = Ok (m', k)" by blast
  have "live_list (replicate 30 zero_prop) None []" by (simp add: live_list_def)
  from unsuback_round_trip [OF wf _ _ e this, of ?d] e show ?thesis by (auto simp: unsuback_value_def c)
qed

text \<open>C31: \<^verbatim>\<open>MqttDecode_SubscribeAck\<close> stays inside its buffer, gives the property cells back on an error, and what it accepts is
  a SUBACK packet: the packet identifier, a legal property list and the codes of the payload.  The structure holds the
  first 12 codes, all of them valid and padded with zeros, and the number of codes, cut off at 65535.\<close>

theorem suback_decode_safe:
  assumes "live_list D None []" "rx_ok m rx_buf_len"
    and "MqttDecode_SubscribeAck D (Some m) rx_buf_len (Some d) = ((D', d'), r)"
  shows "r \<noteq> Fault \<and> (\<forall>e. r = Err e \<longrightarrow> released D D') \<and>
    (\<forall>k. r = Ok k \<longrightarrow> k \<le> rx_buf_len \<and> (\<exists>a. d' = Some a \<and> suback_level a = suback_level d \<and> suback_read D m D' a (nat k)))"
  using MqttDecode_SubscribeAck_post [OF assms(1,2), of d] assms(3) by (auto elim!: postE)

theorem suback_decode_safe_witness:
  "\<exists>D' d' r. MqttDecode_SubscribeAck (replicate 30 zero_prop) (Some [0x90, 5, 0, 1, 0, 1, 0x80]) 7
     (Some \<lparr>suback_packet_id = 0, return_codes = [], return_code_count = 0, suback_props = None, suback_level = 5\<rparr>) = ((D', d'), r) \<and> r \<noteq> Fault"
proof -
  let ?d = "\<lparr>suback_packet_id = 0, return_codes = [], return_code_count = 0, suback_props = None, suback_level = 5\<rparr> :: MqttSubscribeAck"
  have h: "live_list (replicate 30 zero_prop) None []" by (simp add: live_list_def)
  obtain D' d' r where "MqttDecode_SubscribeAck (replicate 30 zero_prop) (Some [0x90, 5, 0, 1, 0, 1, 0x80]) 7 (Some ?d) = ((D', d'), r)"
    by (metis prod_cases3 prod.collapse)
  with suback_decode_safe [OF h _ this] show ?thesis by (auto simp: rx_ok_def)
qed

text \<open>every SUBACK packet of the standard that lies in the buffer, with any number of valid codes, is accepted by
  \<^verbatim>\<open>MqttDecode_SubscribeAck\<close>, which returns its length, its packet identifier, its properties and its codes.\<close>

theorem suback_decode_accepts:
  assumes "live_list D None []" "length tvs \<le> card (free_cells D)" "rx_ok m rx_buf_len"
    and "v \<longleftrightarrow> suback_level d \<ge> 5" "if v then props_ok 9 tvs else tvs = []"
    and "\<forall>c \<in> set (take 12 codes). MqttPacket_SubAckReturnCodeValid c (suback_level d)"
    and "body = suback_body v pid tvs codes" "length body \<le> 0x0FFFFFFF"
    and "pk = type_flags 9 0 0 0 # vbi_bytes (length body) @ body" "blk m 0 (length pk) = pk" "int (length pk) \<le> rx_buf_len"
  shows "\<exists>D' d'. MqttDecode_SubscribeAck D (Some m) rx_buf_len (Some d) = ((D', Some d'), Ok (int (length pk))) \<and>
    suback_packet_id d' = pid \<and> codes_kept d' codes \<and> holds D D' (suback_props d') tvs"
  using MqttDecode_SubscribeAck_complete [OF assms] .

theorem suback_decode_accepts_witness:
  "\<exists>D' d'. MqttDecode_SubscribeAck (replicate 30 zero_prop) (Some [0x90, 5, 0, 1, 0, 1, 0x80]) 7
     (Some \<lparr>suback_packet_id = 0, return_codes = [], return_code_count = 0, suback_props = None, suback_level = 5\<rparr>) = ((D', Some d'), Ok 7) \<and>
     suback_packet_id d' = 1 \<and> return_codes d' = [1, 0x80, 0, 0, 0, 0, 0, 0, 0, 0, 0, 0] \<and> return_code_count d' = 2"
proof -
  let ?d = "\<lparr>suback_packet_id = 0, return_codes = [], return_code_count = 0, suback_props = None, suback_level = 5\<rparr> :: MqttSubscribeAck"
  let ?m = "[0x90, 5, 0, 1, 0, 1, 0x80] :: byte list"
  have h: "live_list (replicate 30 zero_prop) None []" by (simp add: live_list_def)
  have b: "[0, 1, 0, 1, 0x80] = suback_body True 1 [] [1, 0x80]"
    by (simp add: suback_body_def num_bytes_def props_block_def props_bytes_def vbi_bytes_small)
  have "props_ok 9 []" "\<forall>c \<in> set (take 12 [1, 0x80]). MqttPacket_SubAckReturnCodeValid c 5"
    by (simp_all add: props_ok_def MqttPacket_SubAckReturnCodeValid_def)
  moreover have tf: "type_flags 9 0 0 0 = 0x90" by code_simp
  ultimately have "\<exists>D' d'. MqttDecode_SubscribeAck (replicate 30 zero_prop) (Some ?m) 7 (Some ?d) = ((D', Some d'), Ok (int (length ?m))) \<and>
      suback_packet_id d' = 1 \<and> codes_kept d' [1, 0x80] \<and> holds (replicate 30 zero_prop) D' (suback_props d') []"
    by (intro suback_decode_accepts [OF h _ _ _ _ _ b]) (simp_all add: rx_ok_def vbi_bytes_small blk_def)
  moreover have "replicate 10 (0 :: byte) = [0, 0, 0, 0, 0, 0, 0, 0, 0, 0]" by code_simp
  ultimately show ?thesis by (auto simp: codes_kept_def)
qed

end
