(* ===== verification/Packet_Connect.thy ===== *)
theory Packet_Connect
  imports Packet_Codec
begin

text \<open>
  CONNECT: \<^verbatim>\<open>MqttEncode_Connect\<close> and \<^verbatim>\<open>MqttDecode_Connect\<close> of \<^verbatim>\<open>src/mqtt_packet.c\<close>, the value a CONNECT packet
  carries, and what the encoder writes.  The laws of the decoder are in \<open>Connect_Decode\<close>.
\<close>

section \<open>Operations\<close>

abbreviation (input) "MQTT_CONNECT_PROTOCOL_LEVEL \<equiv> MQTT_CONNECT_PROTOCOL_LEVEL_5"
abbreviation (input) "MQTT_CONNECT_FLAG_RESERVED \<equiv> (0x01 :: byte)"
abbreviation (input) "MQTT_CONNECT_FLAG_CLEAN_SESSION \<equiv> (0x02 :: byte)"
abbreviation (input) "MQTT_CONNECT_FLAG_WILL_FLAG \<equiv> (0x04 :: byte)"
abbreviation (input) "MQTT_CONNECT_FLAG_WILL_QOS_MASK \<equiv> (0x18 :: byte)"
abbreviation (input) "MQTT_CONNECT_FLAG_WILL_RETAIN \<equiv> (0x20 :: byte)"
abbreviation (input) "MQTT_CONNECT_FLAG_PASSWORD \<equiv> (0x40 :: byte)"
abbreviation (input) "MQTT_CONNECT_FLAG_USERNAME \<equiv> (0x80 :: byte)"
abbreviation (input) "CONNECT_PACKET_SIZE \<equiv> (10 :: nat)"

definition MQTT_CONNECT_FLAG_GET_QOS :: "byte \<Rightarrow> byte" where
  "MQTT_CONNECT_FLAG_GET_QOS flags = drop_bit 3 (flags AND MQTT_CONNECT_FLAG_WILL_QOS_MASK)"

definition MQTT_CONNECT_FLAG_SET_QOS :: "byte \<Rightarrow> byte" where
  "MQTT_CONNECT_FLAG_SET_QOS q = push_bit 3 q AND MQTT_CONNECT_FLAG_WILL_QOS_MASK"

text \<open>The length and the name of the protocol, as \<^verbatim>\<open>MQTT_CONNECT_INIT\<close> has them.\<close>

definition protocol_head :: "byte list" where
  "protocol_head = [0, 4, 0x4D, 0x51, 0x54, 0x54]"

record MqttConnect =
  keep_alive_sec :: word16
  clean_session :: byte
  client_id :: "byte list option"
  con_level :: byte
  enable_lwt :: byte
  lwt_msg :: "MqttMessage option"
  username :: "byte list option"
  password :: "byte list option"
  con_props :: "nat option"
  password_len :: word16

text \<open>The loop over the types of the Will Properties; \<open>stop\<close> is the result when the bound on the walk is reached.\<close>

fun will_types :: "bool outcome \<Rightarrow> nat \<Rightarrow> store \<Rightarrow> nat option \<Rightarrow> bool outcome" where
  "will_types stop 0 H cur = (if cur = None then Ok True else stop)"
| "will_types stop (Suc n) H cur =
     (case cur of None \<Rightarrow> Ok True
      | Some i \<Rightarrow> if i < length H
          then if MqttWillProps_ValidateType (type (H ! i)) then will_types stop n H (next (H ! i)) else Ok False
          else Fault)"

subsection \<open>Encode\<close>

text \<open>The length pass, field by field: the checks and the length of the field.\<close>

definition con_string_len :: "byte list \<Rightarrow> nat outcome" where
  "con_string_len s =
     (if XSTRLEN s > 0xFFFF then Err BAD_ARG
      else bnd (MqttEncode_Utf8Ok (Some s) (XSTRLEN s)) (\<lambda>utf8.
        if \<not> utf8 then Err MALFORMED_DATA else Ok (XSTRLEN s + MQTT_DATA_LEN_SIZE)))"

definition con_id_len :: "MqttConnect \<Rightarrow> byte list \<Rightarrow> nat outcome" where
  "con_id_len c cid = bnd (con_string_len cid) (\<lambda>k.
     if XSTRLEN cid = 0 \<and> clean_session c = 0 \<and> con_level c = MQTT_CONNECT_PROTOCOL_LEVEL_4 then Err BAD_ARG else Ok k)"

definition con_will_len :: "store \<Rightarrow> mem \<Rightarrow> byte \<Rightarrow> MqttMessage \<Rightarrow> byte list \<Rightarrow> (nat \<times> nat) outcome" where
  "con_will_len H m level w t =
     (if buffer w = None \<and> total_len w \<noteq> 0 then Err BAD_ARG
      else if XSTRLEN t > 0xFFFF then Err BAD_ARG
      else bnd (MqttPacket_TopicNameValid (Some t) (XSTRLEN t) level) (\<lambda>valid.
        if \<not> valid then Err MALFORMED_DATA
        else bnd (MqttEncode_Utf8Ok (Some t) (XSTRLEN t)) (\<lambda>utf8.
          if \<not> utf8 then Err MALFORMED_DATA
          else if qos w > MQTT_QOS_2 then Err BAD_ARG
          else if total_len w > 0xFFFF then Err BAD_ARG
          else let n = XSTRLEN t + MQTT_DATA_LEN_SIZE + unat (total_len w) + MQTT_DATA_LEN_SIZE in
            if level \<ge> MQTT_CONNECT_PROTOCOL_LEVEL_5 then
              bnd (will_types (Ok False) MQTT_MAX_PROPS H (msg_props w)) (\<lambda>allowed.
                if \<not> allowed then Err PROPERTY
                else bnd (props_len_pass MQTT_PACKET_TYPE_CONNECT H (msg_props w) m) (\<lambda>(props_len, tmp_len).
                  Ok (n + props_len + tmp_len, props_len)))
            else Ok (n, 0))))"

definition con_lwt_len :: "store \<Rightarrow> mem \<Rightarrow> MqttConnect \<Rightarrow> (nat \<times> nat) outcome" where
  "con_lwt_len H m c =
     (if enable_lwt c = 0 then Ok (0, 0)
      else case lwt_msg c of
        None \<Rightarrow> Err BAD_ARG
      | Some w \<Rightarrow> (case topic_name w of None \<Rightarrow> Err BAD_ARG | Some t \<Rightarrow> con_will_len H m (con_level c) w t))"

definition con_password_len :: "MqttConnect \<Rightarrow> byte list \<Rightarrow> nat outcome" where
  "con_password_len c pw =
     (let str_len = (if password_len c > 0 then unat (password_len c) else XSTRLEN pw) in
      if str_len > 0xFFFF then Err BAD_ARG else Ok str_len)"

text \<open>The connect flags and the ten bytes of \<^verbatim>\<open>MqttConnectPacket\<close>.\<close>

definition con_flags :: "MqttConnect \<Rightarrow> byte" where
  "con_flags c =
     (if clean_session c \<noteq> 0 then MQTT_CONNECT_FLAG_CLEAN_SESSION else 0) OR
     (if enable_lwt c \<noteq> 0 then
        MQTT_CONNECT_FLAG_WILL_FLAG OR
        (if qos (the (lwt_msg c)) \<noteq> MQTT_QOS_0 then MQTT_CONNECT_FLAG_SET_QOS (qos_code (qos (the (lwt_msg c)))) else 0) OR
        (if retain (the (lwt_msg c)) \<noteq> 0 then MQTT_CONNECT_FLAG_WILL_RETAIN else 0)
      else 0) OR
     (if username c \<noteq> None then MQTT_CONNECT_FLAG_USERNAME else 0) OR
     (if password c \<noteq> None then MQTT_CONNECT_FLAG_PASSWORD else 0)"

definition put_connect_packet :: "MqttConnect \<Rightarrow> cursor \<Rightarrow> cursor outcome" where
  "put_connect_packet c cur = bnd (MqttEncode_Num [0, 0] (Some 0) (keep_alive_sec c)) (\<lambda>(keep_alive, _).
     put_bytes (protocol_head @ [con_level c, con_flags c] @ keep_alive) cur)"

definition put_will :: "store \<Rightarrow> byte \<Rightarrow> MqttMessage \<Rightarrow> nat \<Rightarrow> cursor \<Rightarrow> cursor outcome" where
  "put_will H level w lwt_props_len =
     puts [if level \<ge> MQTT_CONNECT_PROTOCOL_LEVEL_5 then put_props MQTT_PACKET_TYPE_CONNECT H (msg_props w) lwt_props_len
           else put_nothing,
           put (\<lambda>m buf. MqttEncode_String m buf (the (topic_name w))),
           put (\<lambda>m buf. MqttEncode_Data m buf (buffer w) (ucast (total_len w)))]"

definition enc_connect :: "store \<Rightarrow> mem \<Rightarrow> int \<Rightarrow> MqttConnect \<Rightarrow> byte list \<Rightarrow> (mem \<times> nat) outcome" where
  "enc_connect H m tx_buf_len c cid =
     (if con_level c \<noteq> MQTT_CONNECT_PROTOCOL_LEVEL_4 \<and> con_level c \<noteq> MQTT_CONNECT_PROTOCOL_LEVEL_5 then Err BAD_ARG
      else if con_level c = MQTT_CONNECT_PROTOCOL_LEVEL_4 \<and> password c \<noteq> None \<and> username c = None then Err BAD_ARG
      else let v5 = (con_level c \<ge> MQTT_CONNECT_PROTOCOL_LEVEL_5) in
        bnd (if v5 then props_len_pass MQTT_PACKET_TYPE_CONNECT H (con_props c) m else Ok (0, 0)) (\<lambda>(props_len, tmp_len).
        bnd (con_id_len c cid) (\<lambda>id_len.
        bnd (con_lwt_len H m c) (\<lambda>(lwt_len, lwt_props_len).
        bnd (case username c of None \<Rightarrow> Ok 0 | Some u \<Rightarrow> con_string_len u) (\<lambda>user_len.
        bnd (case password c of None \<Rightarrow> Ok 0 | Some pw \<Rightarrow> con_password_len c pw) (\<lambda>pw_len.
        let remain_len = CONNECT_PACKET_SIZE + props_len + tmp_len + id_len + lwt_len + user_len +
              (if password c = None then 0 else pw_len + MQTT_DATA_LEN_SIZE) in
        enc_frame m tx_buf_len remain_len MQTT_PACKET_TYPE_CONNECT 0 0 0
          (puts [put_connect_packet c,
                 if v5 then put_props MQTT_PACKET_TYPE_CONNECT H (con_props c) props_len else put_nothing,
                 put (\<lambda>m buf. MqttEncode_String m buf cid),
                 if enable_lwt c \<noteq> 0 then put_will H (con_level c) (the (lwt_msg c)) lwt_props_len else put_nothing,
                 case username c of None \<Rightarrow> put_nothing | Some u \<Rightarrow> put (\<lambda>m buf. MqttEncode_String m buf u),
                 if password c = None then put_nothing
                 else put (\<lambda>m buf. MqttEncode_Data m buf (password c) (word_of_nat pw_len))])))))))"

text \<open>The encoder also writes the default protocol level into the structure of its caller.\<close>

definition MqttEncode_Connect ::
  "store \<Rightarrow> mem option \<Rightarrow> int \<Rightarrow> MqttConnect option \<Rightarrow> MqttConnect option \<times> (mem \<times> nat) outcome" where
  "MqttEncode_Connect H tx_buf tx_buf_len mc_connect =
     (case (tx_buf, mc_connect) of
        (Some m, Some c) \<Rightarrow>
          (case client_id c of
             None \<Rightarrow> (mc_connect, Err BAD_ARG)
           | Some cid \<Rightarrow>
               let c1 = (if con_level c = 0 then c\<lparr>con_level := MQTT_CONNECT_PROTOCOL_LEVEL\<rparr> else c) in
               (Some c1, enc_connect H m tx_buf_len c1 cid))
      | _ \<Rightarrow> (mc_connect, Err BAD_ARG))"

subsection \<open>Decode\<close>

text \<open>The checks on the connect flags.\<close>

definition con_flags_bad :: "byte \<Rightarrow> byte \<Rightarrow> bool" where
  "con_flags_bad level flags \<longleftrightarrow>
     flags AND MQTT_CONNECT_FLAG_RESERVED \<noteq> 0 \<or>
     (flags AND MQTT_CONNECT_FLAG_WILL_FLAG = 0 \<and>
        flags AND (MQTT_CONNECT_FLAG_WILL_QOS_MASK OR MQTT_CONNECT_FLAG_WILL_RETAIN) \<noteq> 0) \<or>
     (flags AND MQTT_CONNECT_FLAG_WILL_FLAG \<noteq> 0 \<and> MQTT_CONNECT_FLAG_GET_QOS flags = 3) \<or>
     (level = MQTT_CONNECT_PROTOCOL_LEVEL_4 \<and> flags AND MQTT_CONNECT_FLAG_PASSWORD \<noteq> 0 \<and>
        flags AND MQTT_CONNECT_FLAG_USERNAME = 0)"

type_synonym con_state = "store \<times> MqttConnect"

text \<open>One field after the other: \<open>p\<close> is the read position, \<open>e\<close> the end of the packet.\<close>

definition dec_con_props :: "mem \<Rightarrow> int \<Rightarrow> con_state \<Rightarrow> nat \<Rightarrow> con_state \<times> nat outcome" where
  "dec_con_props m rx_buf_len = (\<lambda>(H, c) p.
     if con_level c = MQTT_CONNECT_PROTOCOL_LEVEL_5 then
       if rx_buf_len < int p then ((H, c), Err OUT_OF_BUFFER)
       else with_props (\<lambda>h. c\<lparr>con_props := h\<rparr>) (dec_block no_check MQTT_PACKET_TYPE_CONNECT m rx_buf_len p H)
     else ((H, c), Ok p))"

definition dec_con_string ::
  "(byte list \<Rightarrow> MqttConnect \<Rightarrow> MqttConnect) \<Rightarrow> mem \<Rightarrow> int \<Rightarrow> nat \<Rightarrow> con_state \<Rightarrow> nat \<Rightarrow> con_state \<times> nat outcome" where
  "dec_con_string upd m rx_buf_len e = (\<lambda>(H, c) p.
     at_state (MqttDecode_String m p (rx_left rx_buf_len p)) (H, c) (\<lambda>(s, tmp).
       if p + tmp > e then ((H, upd s c), Err OUT_OF_BUFFER) else ((H, upd s c), Ok (p + tmp))))"

definition dec_will_props :: "byte \<Rightarrow> mem \<Rightarrow> int \<Rightarrow> store \<times> MqttMessage \<Rightarrow> nat \<Rightarrow> (store \<times> MqttMessage) \<times> nat outcome" where
  "dec_will_props level m rx_buf_len = (\<lambda>(H, w) p.
     if level = MQTT_CONNECT_PROTOCOL_LEVEL_5 then
       if rx_buf_len < int p then ((H, w), Err OUT_OF_BUFFER)
       else then_state (with_props (\<lambda>h. w\<lparr>msg_props := h\<rparr>) (dec_block no_check MQTT_PACKET_TYPE_CONNECT m rx_buf_len p H))
         (\<lambda>(H1, w1) q. at_state (will_types Fault (length H1) H1 (msg_props w1)) (H1, w1) (\<lambda>allowed.
            if \<not> allowed then ((H1, w1), Err PROPERTY) else ((H1, w1), Ok q)))
     else ((H, w), Ok p))"

definition dec_will_topic ::
  "byte \<Rightarrow> mem \<Rightarrow> int \<Rightarrow> nat \<Rightarrow> store \<times> MqttMessage \<Rightarrow> nat \<Rightarrow> (store \<times> MqttMessage) \<times> nat outcome" where
  "dec_will_topic level m rx_buf_len e = (\<lambda>(H, w) p.
     at_state (MqttDecode_String m p (rx_left rx_buf_len p)) (H, w) (\<lambda>(t, tmp).
       let w1 = w\<lparr>topic_name := Some t, topic_name_len := word_of_nat (length t)\<rparr> in
       if p + tmp > e then ((H, w1), Err OUT_OF_BUFFER)
       else at_state (if topic_name_len w1 = 0 then Ok False else MqttPacket_TopicNameValid (Some t) (length t) level) (H, w1)
         (\<lambda>valid. if \<not> valid then ((H, w1), Err MALFORMED_DATA) else ((H, w1), Ok (p + tmp)))))"

definition dec_will_payload :: "mem \<Rightarrow> int \<Rightarrow> nat \<Rightarrow> store \<times> MqttMessage \<Rightarrow> nat \<Rightarrow> (store \<times> MqttMessage) \<times> nat outcome" where
  "dec_will_payload m rx_buf_len e = (\<lambda>(H, w) p.
     at_state (MqttDecode_Num m p (rx_left rx_buf_len p)) (H, w) (\<lambda>(lwt_len, tmp).
       let w1 = w\<lparr>total_len := ucast lwt_len\<rparr> in
       if p + tmp + unat lwt_len > e then ((H, w1), Err OUT_OF_BUFFER)
       else at_state (rdn m (p + tmp) (unat lwt_len)) (H, w1) (\<lambda>bs.
         ((H, w1\<lparr>buffer := Some bs, buffer_len := ucast lwt_len, buffer_pos := 0\<rparr>), Ok (p + tmp + unat lwt_len)))))"

definition dec_con_will :: "byte \<Rightarrow> mem \<Rightarrow> int \<Rightarrow> nat \<Rightarrow> con_state \<Rightarrow> nat \<Rightarrow> con_state \<times> nat outcome" where
  "dec_con_will flags m rx_buf_len e = (\<lambda>(H, c) p.
     if enable_lwt c = 0 then ((H, c), Ok p)
     else case lwt_msg c of
       None \<Rightarrow> ((H, c), Err BAD_ARG)
     | Some w \<Rightarrow>
         let w1 = w\<lparr>qos := qos_of (MQTT_CONNECT_FLAG_GET_QOS flags),
                    retain := (if flags AND MQTT_CONNECT_FLAG_WILL_RETAIN \<noteq> 0 then 1 else 0)\<rparr> in
         (case then_state (dec_will_props (con_level c) m rx_buf_len (H, w1) p) (\<lambda>s q.
               then_state (dec_will_topic (con_level c) m rx_buf_len e s q) (dec_will_payload m rx_buf_len e)) of
            ((H', w'), r) \<Rightarrow> ((H', c\<lparr>lwt_msg := Some w'\<rparr>), r)))"

definition dec_con_password :: "mem \<Rightarrow> int \<Rightarrow> nat \<Rightarrow> con_state \<Rightarrow> nat \<Rightarrow> con_state \<times> nat outcome" where
  "dec_con_password m rx_buf_len e = (\<lambda>(H, c) p.
     at_state (MqttDecode_Num m p (rx_left rx_buf_len p)) (H, c) (\<lambda>(plen, tmp).
       if unat plen > u32 (rx_buf_len - int p - int tmp) then ((H, c), Err OUT_OF_BUFFER)
       else if p + tmp + unat plen > e then ((H, c), Err OUT_OF_BUFFER)
       else at_state (rdn m (p + tmp) (unat plen)) (H, c) (\<lambda>bs.
         ((H, c\<lparr>password := Some bs, password_len := plen\<rparr>), Ok (p + tmp + unat plen)))))"

text \<open>User name and password, and the end of the packet.\<close>

definition dec_con_login :: "byte \<Rightarrow> mem \<Rightarrow> int \<Rightarrow> nat \<Rightarrow> con_state \<Rightarrow> nat \<Rightarrow> con_state \<times> int outcome" where
  "dec_con_login flags m rx_buf_len e s p =
     then_state (if flags AND MQTT_CONNECT_FLAG_USERNAME \<noteq> 0
                 then dec_con_string (\<lambda>t. username_update (\<lambda>_. Some t)) m rx_buf_len e s p else (s, Ok p)) (\<lambda>s1 p1.
     then_state (if flags AND MQTT_CONNECT_FLAG_PASSWORD \<noteq> 0
                 then dec_con_password m rx_buf_len e s1 p1 else (s1, Ok p1)) (\<lambda>s2 p2.
     if p2 \<noteq> e then (s2, Err MALFORMED_DATA) else (s2, Ok (int e))))"

definition dec_con_fields :: "byte list \<Rightarrow> mem \<Rightarrow> int \<Rightarrow> nat \<Rightarrow> con_state \<Rightarrow> nat \<Rightarrow> con_state \<times> int outcome" where
  "dec_con_fields packet m rx_buf_len e = (\<lambda>(H, c) p.
     let flags = packet ! 7 in
     if con_flags_bad (con_level c) flags then ((H, c), Err MALFORMED_DATA)
     else at_state (MqttDecode_Num packet 8 MQTT_DATA_LEN_SIZE) (H, c) (\<lambda>(keep_alive, _).
       then_state (dec_con_props m rx_buf_len (H, c\<lparr>keep_alive_sec := keep_alive\<rparr>) p) (\<lambda>s1 p1.
       then_state (dec_con_string (\<lambda>t. client_id_update (\<lambda>_. Some t)) m rx_buf_len e s1 p1) (\<lambda>s2 p2.
       then_state (dec_con_will flags m rx_buf_len e s2 p2) (dec_con_login flags m rx_buf_len e)))))"

text \<open>The label \<^verbatim>\<open>cleanup\<close>.\<close>

definition con_cleanup :: "con_state \<times> int outcome \<Rightarrow> con_state \<times> int outcome" where
  "con_cleanup = (\<lambda>((H, c), r).
     case r of
       Err err \<Rightarrow>
         (case MqttProps_Free H (con_props c) of
            Ok H1 \<Rightarrow>
              let c1 = c\<lparr>con_props := None\<rparr> in
              if enable_lwt c = 0 then ((H1, c1), Err err)
              else (case lwt_msg c of
                None \<Rightarrow> ((H1, c1), Err err)
              | Some w \<Rightarrow>
                  (case MqttProps_Free H1 (msg_props w) of
                     Ok H2 \<Rightarrow> ((H2, c1\<lparr>lwt_msg := Some (w\<lparr>msg_props := None\<rparr>)\<rparr>), Err err)
                   | _ \<Rightarrow> ((H1, c1), Fault)))
          | _ \<Rightarrow> ((H, c), Fault))
     | _ \<Rightarrow> ((H, c), r))"

text \<open>The structure before the fields are read.\<close>

definition con_start :: "byte list \<Rightarrow> MqttConnect \<Rightarrow> MqttConnect" where
  "con_start packet c =
     (let lwt = (if packet ! 7 AND MQTT_CONNECT_FLAG_WILL_FLAG \<noteq> 0 then 1 else 0) in
      c\<lparr>con_level := packet ! 6,
        clean_session := (if packet ! 7 AND MQTT_CONNECT_FLAG_CLEAN_SESSION \<noteq> 0 then 1 else 0),
        enable_lwt := lwt, username := None, password := None, password_len := 0, con_props := None,
        lwt_msg := (if lwt \<noteq> 0 then map_option (\<lambda>w. w\<lparr>msg_props := None\<rparr>) (lwt_msg c) else lwt_msg c)\<rparr>)"

definition MqttDecode_Connect ::
  "store \<Rightarrow> mem option \<Rightarrow> int \<Rightarrow> MqttConnect option \<Rightarrow> (store \<times> MqttConnect option) \<times> int outcome" where
  "MqttDecode_Connect H rx_buf rx_buf_len mc_connect =
     (case (rx_buf, mc_connect) of
        (Some m, Some c) \<Rightarrow>
          if rx_buf_len \<le> 0 then ((H, mc_connect), Err BAD_ARG)
          else some_state (at_state (MqttDecode_FixedHeader m rx_buf_len MQTT_PACKET_TYPE_CONNECT) (H, c) (\<lambda>h.
            let p = fh_header_len h; ret = int p + fh_remain_len h in
            if rx_buf_len < ret then ((H, c), Err OUT_OF_BUFFER)
            else if int CONNECT_PACKET_SIZE > fh_remain_len h \<or> rx_buf_len < int p + int CONNECT_PACKET_SIZE
            then ((H, c), Err OUT_OF_BUFFER)
            else at_state (rdn m p CONNECT_PACKET_SIZE) (H, c) (\<lambda>packet.
              at_state (MqttDecode_Num packet 0 MQTT_DATA_LEN_SIZE) (H, c) (\<lambda>(protocol_len, _).
                if protocol_len \<noteq> 4 \<or> blk packet 2 4 \<noteq> drop 2 protocol_head then ((H, c), Err MALFORMED_DATA)
                else con_cleanup (dec_con_fields packet m rx_buf_len (nat ret) (H, con_start packet c) (p + CONNECT_PACKET_SIZE))))))
      | _ \<Rightarrow> ((H, mc_connect), Err BAD_ARG))"

section \<open>The value of a CONNECT packet\<close>

record will_val =
  wv_qos :: MqttQoS
  wv_retain :: bool
  wv_props :: "(nat \<times> prop_value) list"
  wv_topic :: "byte list"
  wv_payload :: "byte list"

record con_val =
  cv_level :: byte
  cv_clean :: bool
  cv_keep :: word16
  cv_props :: "(nat \<times> prop_value) list"
  cv_id :: "byte list"
  cv_will :: "will_val option"
  cv_user :: "byte list option"
  cv_pass :: "byte list option"

definition flags_of :: "bool \<Rightarrow> (MqttQoS \<times> bool) option \<Rightarrow> bool \<Rightarrow> bool \<Rightarrow> byte" where
  "flags_of clean will user pass =
     (if clean then 2 else 0) OR
     (case will of None \<Rightarrow> 0 | Some (q, ret) \<Rightarrow> 4 OR push_bit 3 (qos_code q) OR (if ret then 0x20 else 0)) OR
     (if user then 0x80 else 0) OR (if pass then 0x40 else 0)"

definition will_bytes :: "byte \<Rightarrow> will_val \<Rightarrow> byte list" where
  "will_bytes level w = (if level = MQTT_CONNECT_PROTOCOL_LEVEL_5 then props_block (wv_props w) else []) @
     str_bytes (wv_topic w) @ str_bytes (wv_payload w)"

definition con_flag_byte :: "con_val \<Rightarrow> byte" where
  "con_flag_byte v = flags_of (cv_clean v) (map_option (\<lambda>w. (wv_qos w, wv_retain w)) (cv_will v)) (cv_user v \<noteq> None) (cv_pass v \<noteq> None)"

definition opt_bytes :: "('a \<Rightarrow> byte list) \<Rightarrow> 'a option \<Rightarrow> byte list" where
  "opt_bytes f x = (case x of None \<Rightarrow> [] | Some y \<Rightarrow> f y)"

definition con_bytes :: "con_val \<Rightarrow> byte list" where
  "con_bytes v = (protocol_head @ [cv_level v, con_flag_byte v] @ num_bytes (cv_keep v)) @
     (if cv_level v = MQTT_CONNECT_PROTOCOL_LEVEL_5 then props_block (cv_props v) else []) @
     str_bytes (cv_id v) @ opt_bytes (will_bytes (cv_level v)) (cv_will v) @
     opt_bytes str_bytes (cv_user v) @ opt_bytes str_bytes (cv_pass v)"

text \<open>
  The rules both sides share (\<open>con_rule\<close>), those of the encoder alone (\<open>con_enc_rule\<close>: a supported level,
  no empty client identifier with a kept session before level 5, a non-empty Will Topic before level 5)
  and those of the decoder alone (\<open>con_dec_rule\<close>).
\<close>

definition will_rule :: "byte \<Rightarrow> will_val \<Rightarrow> bool" where
  "will_rule level w \<longleftrightarrow> utf8_str (wv_topic w) \<and> no_wildcard (wv_topic w) \<and> wv_qos w \<noteq> MQTT_QOS_3 \<and> length (wv_payload w) \<le> 65535 \<and>
     (if level = MQTT_CONNECT_PROTOCOL_LEVEL_5
      then props_ok MQTT_PACKET_TYPE_CONNECT (wv_props w) \<and> (\<forall>t \<in> fst ` set (wv_props w). MqttWillProps_ValidateType t)
      else wv_props w = [])"

definition con_rule :: "con_val \<Rightarrow> bool" where
  "con_rule v \<longleftrightarrow> (cv_level v = MQTT_CONNECT_PROTOCOL_LEVEL_4 \<longrightarrow> cv_pass v \<noteq> None \<longrightarrow> cv_user v \<noteq> None) \<and>
     (if cv_level v = MQTT_CONNECT_PROTOCOL_LEVEL_5 then props_ok MQTT_PACKET_TYPE_CONNECT (cv_props v) else cv_props v = []) \<and>
     utf8_str (cv_id v) \<and> (\<forall>w. cv_will v = Some w \<longrightarrow> will_rule (cv_level v) w) \<and>
     (\<forall>u. cv_user v = Some u \<longrightarrow> utf8_str u) \<and> (\<forall>pw. cv_pass v = Some pw \<longrightarrow> length pw \<le> 65535)"

definition con_enc_rule :: "con_val \<Rightarrow> bool" where
  "con_enc_rule v \<longleftrightarrow> cv_level v \<in> {MQTT_CONNECT_PROTOCOL_LEVEL_4, MQTT_CONNECT_PROTOCOL_LEVEL_5} \<and>
     (cv_level v = MQTT_CONNECT_PROTOCOL_LEVEL_4 \<longrightarrow>
        (cv_id v = [] \<longrightarrow> cv_clean v) \<and> (\<forall>w. cv_will v = Some w \<longrightarrow> wv_topic w \<noteq> []))"

definition con_dec_rule :: "con_val \<Rightarrow> bool" where
  "con_dec_rule v \<longleftrightarrow> auth_ok (cv_props v) \<and> (\<forall>w. cv_will v = Some w \<longrightarrow> wv_topic w \<noteq> [])"

section \<open>What the encoder writes\<close>

text \<open>The value a caller hands over, and what the caller owes: lists in the store, buffers as long as announced.\<close>

definition will_val_of :: "store \<Rightarrow> byte \<Rightarrow> MqttMessage \<Rightarrow> will_val" where
  "will_val_of H level w = \<lparr>wv_qos = qos w, wv_retain = (retain w \<noteq> 0),
     wv_props = (if level = MQTT_CONNECT_PROTOCOL_LEVEL_5 then prop_list H (msg_props w) else []),
     wv_topic = cstr_bytes (the (topic_name w)),
     wv_payload = (case buffer w of None \<Rightarrow> [] | Some b \<Rightarrow> take (unat (total_len w)) b)\<rparr>"

definition pass_bytes :: "MqttConnect \<Rightarrow> byte list \<Rightarrow> byte list" where
  "pass_bytes c pw = (if password_len c > 0 then take (unat (password_len c)) pw else cstr_bytes pw)"

definition con_val_of :: "store \<Rightarrow> MqttConnect \<Rightarrow> con_val" where
  "con_val_of H c = \<lparr>cv_level = con_level c, cv_clean = (clean_session c \<noteq> 0), cv_keep = keep_alive_sec c,
     cv_props = (if con_level c = MQTT_CONNECT_PROTOCOL_LEVEL_5 then prop_list H (con_props c) else []),
     cv_id = cstr_bytes (the (client_id c)),
     cv_will = (if enable_lwt c \<noteq> 0 then map_option (will_val_of H (con_level c)) (lwt_msg c) else None),
     cv_user = map_option cstr_bytes (username c), cv_pass = map_option (pass_bytes c) (password c)\<rparr>"

definition will_wf :: "store \<Rightarrow> MqttMessage \<Rightarrow> bool" where
  "will_wf H w \<longleftrightarrow> props_src H (msg_props w) \<and> (\<forall>b. buffer w = Some b \<longrightarrow> unat (total_len w) \<le> length b)"

definition con_wf :: "store \<Rightarrow> MqttConnect \<Rightarrow> bool" where
  "con_wf H c \<longleftrightarrow> props_src H (con_props c) \<and> (\<forall>w. enable_lwt c \<noteq> 0 \<and> lwt_msg c = Some w \<longrightarrow> will_wf H w) \<and>
     (\<forall>pw. password c = Some pw \<longrightarrow> unat (password_len c) \<le> length pw)"

text \<open>The pointers that must not be \<^verbatim>\<open>NULL\<close>.\<close>

definition will_given :: "MqttMessage \<Rightarrow> bool" where
  "will_given w \<longleftrightarrow> topic_name w \<noteq> None \<and> (buffer w = None \<longrightarrow> total_len w = 0)"

definition con_given :: "MqttConnect \<Rightarrow> bool" where
  "con_given c \<longleftrightarrow> client_id c \<noteq> None \<and> (enable_lwt c \<noteq> 0 \<longrightarrow> (\<exists>w. lwt_msg c = Some w \<and> will_given w))"

lemma con_string_len_eq:
  "con_string_len s = (if utf8_str (cstr_bytes s) then Ok (length (str_bytes (cstr_bytes s)))
     else if XSTRLEN s > 65535 then Err BAD_ARG else Err MALFORMED_DATA)"
  by (auto simp: con_string_len_def utf8_str_def utf8_cstr)

lemma will_types_bounded:
  "chain H h is \<Longrightarrow> will_types (Ok False) n H h = Ok (length is \<le> n \<and> (\<forall>t \<in> fst ` set (props_val H is). MqttWillProps_ValidateType t)) \<or>
    (n < length is \<and> will_types (Ok False) n H h = Ok False)"
proof (induction "is" arbitrary: n h)
  case Nil
  then show ?case by (cases n) (simp_all add: props_val_def)
next
  case (Cons i "is")
  show ?case
  proof (cases n)
    case (Suc k)
    then show ?thesis using Cons.prems Cons.IH [of "next (H ! i)" k] by (auto simp: props_val_def)
  qed (use Cons.prems in simp)
qed

lemma will_types_chain:
  "chain H h is \<Longrightarrow> length is \<le> n \<Longrightarrow>
   will_types stop n H h = Ok (\<forall>t \<in> fst ` set (props_val H is). MqttWillProps_ValidateType t)"
proof (induction "is" arbitrary: n h)
  case Nil
  then show ?case by (cases n) (simp_all add: props_val_def)
next
  case (Cons i "is")
  then obtain k where "n = Suc k" by (cases n) simp_all
  with Cons show ?case by (auto simp: props_val_def)
qed

lemma will_types_list:
  assumes "props_src H h"
  shows "will_types (Ok False) 30 H h =
    Ok (length (prop_list H h) \<le> 30 \<and> (\<forall>t \<in> fst ` set (prop_list H h). MqttWillProps_ValidateType t))"
proof -
  obtain "is" where i: "chain H h is" "prop_list H h = props_val H is" using assms by (elim props_srcE) auto
  then show ?thesis using will_types_bounded [OF i(1), of 30] by (auto simp: props_val_def)
qed

text \<open>The length pass of the Will: an error unless the Will obeys the rules.\<close>

definition will_enc_ok :: "byte \<Rightarrow> will_val \<Rightarrow> bool" where
  "will_enc_ok level v \<longleftrightarrow> will_rule level v \<and> (level < MQTT_CONNECT_PROTOCOL_LEVEL_5 \<longrightarrow> wv_topic v \<noteq> [])"

lemma con_will_len_eq:
  fixes w :: MqttMessage
  assumes wf: "will_wf H w" and t: "topic_name w = Some t" and l: "level \<in> {4, 5}"
  defines "v \<equiv> will_val_of H level w"
  shows "will_given w \<Longrightarrow> will_enc_ok level v \<Longrightarrow>
      con_will_len H m level w t = Ok (length (will_bytes level v), if level = 5 then length (props_bytes (wv_props v)) else 0)"
    and "\<not> (will_given w \<and> will_enc_ok level v) \<Longrightarrow> \<exists>e. con_will_len H m level w t = Err e"
proof -
  have src: "props_src H (msg_props w)" using wf by (simp add: will_wf_def)
  note lp = props_len_pass_list [OF src] and wt = will_types_list [OF src]
  have v: "wv_qos v = qos w" "wv_topic v = cstr_bytes t" "wv_props v = (if level = 5 then prop_list H (msg_props w) else [])"
    "wv_payload v = (case buffer w of None \<Rightarrow> [] | Some b \<Rightarrow> take (unat (total_len w)) b)"
    by (simp_all add: v_def will_val_of_def t)
  have pl: "length (wv_payload v) = unat (total_len w)" if "will_given w"
    using wf that by (auto simp: v(4) will_given_def will_wf_def split: option.splits)
  have big: "(total_len w > 0xFFFF) = (unat (total_len w) > 65535)" by (simp add: word_less_nat_alt)
  have l5: "level \<ge> 5 \<longleftrightarrow> level = 5" "level < 5 \<longleftrightarrow> level \<noteq> 5" using l by auto
  {
    assume g: "will_given w" and ok: "will_enc_ok level v"
    then show "con_will_len H m level w t = Ok (length (will_bytes level v), if level = 5 then length (props_bytes (wv_props v)) else 0)"
      using pl [OF g] t
      by (auto simp: con_will_len_def will_enc_ok_def will_rule_def v(1-3) will_given_def topic_name_cstr utf8_str_def utf8_cstr
          qos_gt_2 big l5 lp wt Let_def will_bytes_def props_block_def props_ok_def)
  next
    assume bad: "\<not> (will_given w \<and> will_enc_ok level v)"
    show "\<exists>e. con_will_len H m level w t = Err e"
    proof (cases "will_given w")
      case True
      then show ?thesis using bad pl [OF True] t
        by (auto simp: con_will_len_def will_enc_ok_def will_rule_def v(1-3) will_given_def topic_name_cstr utf8_str_def utf8_cstr
            qos_gt_2 big l5 lp wt Let_def)
    qed (use t in \<open>simp add: con_will_len_def will_given_def\<close>)
  }
qed

lemma will_enc_ok_bytes: "will_enc_ok level v \<Longrightarrow> length (will_bytes level v) \<le> 4100000"
  using props_block_bound [of 1 "wv_props v"] by (auto simp: will_enc_ok_def will_rule_def will_bytes_def utf8_str_def)

lemma data_payload:
  assumes "\<forall>b. d = Some b \<longrightarrow> n \<le> length b" "d = None \<longrightarrow> n = 0" "n \<le> 65535"
  shows "data_bytes d (word_of_nat n) = str_bytes (case d of None \<Rightarrow> [] | Some b \<Rightarrow> take n b)"
  using assms by (cases d) (auto simp: data_bytes_def str_bytes_def unat_word16_of_nat min_def)

lemma put_will_emits:
  fixes w :: MqttMessage
  assumes wf: "will_wf H w" "will_given w" and l: "level \<in> {4, 5}"
  defines "v \<equiv> will_val_of H level w"
  assumes ok: "will_enc_ok level v" and n: "n = (if level = 5 then length (props_bytes (wv_props v)) else 0)"
  shows "emits (put_will H level w n) (will_bytes level v)"
proof -
  obtain t where t: "topic_name w = Some t" using wf(2) by (auto simp: will_given_def)
  have src: "props_src H (msg_props w)" using wf(1) by (simp add: will_wf_def)
  have v: "wv_topic v = cstr_bytes t" "wv_props v = (if level = 5 then prop_list H (msg_props w) else [])"
    "wv_payload v = (case buffer w of None \<Rightarrow> [] | Some b \<Rightarrow> take (unat (total_len w)) b)"
    by (simp_all add: v_def will_val_of_def t)
  have tl: "unat (total_len w) \<le> 65535"
    using ok wf by (auto simp: will_enc_ok_def will_rule_def v(3) will_wf_def will_given_def min_def split: option.splits if_splits)
  have uc: "(ucast (total_len w) :: word16) = word_of_nat (unat (total_len w))" by (simp add: unsigned_ucast_eq unsigned_of_nat word_unat_eq_iff)
  have u: "unat (ucast (total_len w) :: word16) = unat (total_len w)" using tl by (simp add: uc unat_word16_of_nat)
  have d: "data_bytes (buffer w) (ucast (total_len w)) = str_bytes (wv_payload v)"
    unfolding uc v(3) using wf tl by (intro data_payload) (auto simp: will_wf_def will_given_def)
  have "emits (put_will H level w n)
      ((if level \<ge> 5 then props_block (prop_list H (msg_props w)) else []) @ str_bytes (cstr_bytes t) @ data_bytes (buffer w) (ucast (total_len w)) @ [])"
    unfolding put_will_def t option.sel using ok src l wf(1) u
    by (intro emits_intros) (auto simp: n will_enc_ok_def will_rule_def v utf8_str_def will_wf_def)
  then show ?thesis using l by (auto simp: will_bytes_def v(1,2) d)
qed

lemma con_flags_eq:
  assumes "enable_lwt c \<noteq> 0 \<longrightarrow> lwt_msg c \<noteq> None \<and> qos (the (lwt_msg c)) \<noteq> MQTT_QOS_3"
  shows "con_flags c = con_flag_byte (con_val_of H c)"
proof -
  have q: "q \<noteq> MQTT_QOS_3 \<Longrightarrow> (if q \<noteq> MQTT_QOS_0 then MQTT_CONNECT_FLAG_SET_QOS (qos_code q) else 0) = push_bit 3 (qos_code q)" for q
    by (cases q) (simp_all add: MQTT_CONNECT_FLAG_SET_QOS_def)
  show ?thesis using assms q [of "qos (the (lwt_msg c))"]
    by (auto simp: con_flags_def con_flag_byte_def con_val_of_def will_val_of_def flags_of_def)
qed

lemma put_connect_packet_emits [emits_intros]:
  "emits (put_connect_packet c) (protocol_head @ [con_level c, con_flags c] @ num_bytes (keep_alive_sec c))"
proof -
  have "MqttEncode_Num [0, 0] (Some 0) (keep_alive_sec c) = Ok (num_bytes (keep_alive_sec c), 2)"
    by (simp add: enc_eq wr_def splice_at_def)
  then have "put_connect_packet c = put_bytes (protocol_head @ [con_level c, con_flags c] @ num_bytes (keep_alive_sec c))"
    by (intro ext) (simp add: put_connect_packet_def)
  then show ?thesis using emits_bytes by metis
qed

text \<open>The rules of the encoder, with the pointers it needs.\<close>

definition con_enc_ok :: "store \<Rightarrow> MqttConnect \<Rightarrow> bool" where
  "con_enc_ok H c \<longleftrightarrow> con_given c \<and> con_rule (con_val_of H c) \<and> con_enc_rule (con_val_of H c)"

lemma con_lwt_len_eq:
  assumes wf: "con_wf H c" and l: "con_level c \<in> {4, 5}"
  defines "ok \<equiv> (enable_lwt c \<noteq> 0 \<longrightarrow> (\<exists>w. lwt_msg c = Some w \<and> will_given w)) \<and>
    (\<forall>w. cv_will (con_val_of H c) = Some w \<longrightarrow> will_enc_ok (con_level c) w)"
  shows "ok \<Longrightarrow> con_lwt_len H m c = Ok (length (opt_bytes (will_bytes (con_level c)) (cv_will (con_val_of H c))),
      if enable_lwt c \<noteq> 0 \<and> con_level c = 5 then length (props_bytes (wv_props (the (cv_will (con_val_of H c))))) else 0)"
    and "\<not> ok \<Longrightarrow> \<exists>e. con_lwt_len H m c = Err e"
proof -
  have w: "will_wf H w" if "enable_lwt c \<noteq> 0" "lwt_msg c = Some w" for w using wf that by (auto simp: con_wf_def)
  {
    assume ok: ok
    show "con_lwt_len H m c = Ok (length (opt_bytes (will_bytes (con_level c)) (cv_will (con_val_of H c))),
      if enable_lwt c \<noteq> 0 \<and> con_level c = 5 then length (props_bytes (wv_props (the (cv_will (con_val_of H c))))) else 0)"
    proof (cases "enable_lwt c = 0")
      case False
      then obtain w t where wt: "lwt_msg c = Some w" "will_given w" "topic_name w = Some t" using ok by (auto simp: ok_def will_given_def)
      have "will_enc_ok (con_level c) (will_val_of H (con_level c) w)" using ok False wt(1) by (simp add: ok_def con_val_of_def)
      from con_will_len_eq(1) [OF w [OF False wt(1)] wt(3) l wt(2) this, of m] False wt show ?thesis
        by (simp add: con_lwt_len_def opt_bytes_def con_val_of_def)
    qed (simp add: con_lwt_len_def opt_bytes_def con_val_of_def)
  next
    assume bad: "\<not> ok"
    then have e: "enable_lwt c \<noteq> 0" by (auto simp: ok_def con_val_of_def)
    show "\<exists>e. con_lwt_len H m c = Err e"
    proof (cases "\<exists>w t. lwt_msg c = Some w \<and> topic_name w = Some t")
      case True
      then obtain w t where wt: "lwt_msg c = Some w" "topic_name w = Some t" by blast
      have "\<not> (will_given w \<and> will_enc_ok (con_level c) (will_val_of H (con_level c) w))"
        using bad e wt by (auto simp: ok_def con_val_of_def)
      from con_will_len_eq(2) [OF w [OF e wt(1)] wt(2) l this, of m] e wt show ?thesis by (simp add: con_lwt_len_def)
    qed (use e in \<open>auto simp: con_lwt_len_def split: option.splits\<close>)
  }
qed

lemma con_password_len_eq:
  assumes "unat (password_len c) \<le> length pw"
  shows "con_password_len c pw = (if length (pass_bytes c pw) \<le> 65535 then Ok (length (pass_bytes c pw)) else Err BAD_ARG)"
  using assms by (auto simp: con_password_len_def pass_bytes_def Let_def) (use unat_word16_less [of "password_len c"] in linarith)

lemma pass_data:
  assumes "unat (password_len c) \<le> length pw" "length (pass_bytes c pw) \<le> 65535"
  shows "data_bytes (Some pw) (word_of_nat (length (pass_bytes c pw))) = str_bytes (pass_bytes c pw)"
proof -
  have "take (length (pass_bytes c pw)) pw = pass_bytes c pw" "length (pass_bytes c pw) \<le> length pw"
    using assms(1) XSTRLEN_le by (auto simp: pass_bytes_def cstr_bytes_take)
  then show ?thesis using assms(2) by (simp add: data_bytes_def str_bytes_def unat_word16_of_nat)
qed

lemma con_bytes_bound: "con_rule v \<Longrightarrow> length (con_bytes v) < 2 ^ 32"
  using props_block_bound [of 1 "cv_props v"] props_block_bound [of 1 "wv_props (the (cv_will v))"]
  by (auto simp: con_rule_def con_bytes_def will_rule_def opt_bytes_def will_bytes_def utf8_str_def protocol_head_def split: option.splits)

text \<open>A sequence of checks fails as soon as one of them does.\<close>

lemma bnd_err: "r \<noteq> Fault \<Longrightarrow> (\<And>x. r = Ok x \<Longrightarrow> \<exists>e. f x = Err e) \<Longrightarrow> \<exists>e. bnd r f = Err e"
  by (cases r) auto

lemma bnd_errs:
  assumes "a \<noteq> Fault" "b \<noteq> Fault" "c \<noteq> Fault" "d \<noteq> Fault" "f \<noteq> Fault"
    and "(\<exists>e. a = Err e) \<or> (\<exists>e. b = Err e) \<or> (\<exists>e. c = Err e) \<or> (\<exists>e. d = Err e) \<or> (\<exists>e. f = Err e)"
  shows "\<exists>e. bnd a (\<lambda>(x, y). bnd b (\<lambda>i. bnd c (\<lambda>(z, w). bnd d (\<lambda>u. bnd f (k x y i z w u))))) = Err e"
proof (rule bnd_err [OF assms(1)])
  fix p assume a: "a = Ok p"
  show "\<exists>e. (case p of (x, y) \<Rightarrow> bnd b (\<lambda>i. bnd c (\<lambda>(z, w). bnd d (\<lambda>u. bnd f (k x y i z w u))))) = Err e"
    unfolding case_prod_beta
  proof (intro bnd_err assms(2-5), goal_cases)
    case (1 i q u n)
    then show ?case using assms(6) a by simp
  qed
qed

lemma enc_connect_eq:
  assumes wf: "con_wf H c" and cid: "client_id c = Some cid" and tx: "tx_buf_len \<le> int (length m)"
  shows "con_enc_ok H c \<Longrightarrow>
      enc_connect H m tx_buf_len c cid = send_packet m tx_buf_len (type_flags 1 0 0 0) (con_bytes (con_val_of H c))"
    and "\<not> con_enc_ok H c \<Longrightarrow> \<exists>e. enc_connect H m tx_buf_len c cid = Err e"
proof -
  have src: "props_src H (con_props c)" and pw: "password c = Some p \<Longrightarrow> unat (password_len c) \<le> length p" for p
    using wf by (auto simp: con_wf_def)
  note lp = props_len_pass_list [OF src]
  define v where "v = con_val_of H c"
  have v: "cv_level v = con_level c" "cv_clean v = (clean_session c \<noteq> 0)" "cv_keep v = keep_alive_sec c" "cv_id v = cstr_bytes cid"
    "cv_props v = (if con_level c = 5 then prop_list H (con_props c) else [])"
    "cv_user v = map_option cstr_bytes (username c)" "cv_pass v = map_option (pass_bytes c) (password c)"
    by (simp_all add: v_def con_val_of_def cid)
  have idl: "con_id_len c cid = (if utf8_str (cv_id v) \<and> \<not> (cv_id v = [] \<and> \<not> cv_clean v \<and> con_level c = 4) then Ok (length (str_bytes (cv_id v)))
      else if utf8_str (cv_id v) \<or> XSTRLEN cid > 65535 then Err BAD_ARG else Err MALFORMED_DATA)"
    by (auto simp: con_id_len_def con_string_len_eq v XSTRLEN_0)
  have ul: "(case username c of None \<Rightarrow> Ok 0 | Some u \<Rightarrow> con_string_len u) =
      (if \<forall>u. cv_user v = Some u \<longrightarrow> utf8_str u then Ok (length (opt_bytes str_bytes (cv_user v)))
       else if XSTRLEN (the (username c)) > 65535 then Err BAD_ARG else Err MALFORMED_DATA)"
    by (auto simp: v con_string_len_eq opt_bytes_def split: option.splits)
  have pl: "(case password c of None \<Rightarrow> Ok 0 | Some pw \<Rightarrow> con_password_len c pw) =
      (if \<forall>p. cv_pass v = Some p \<longrightarrow> length p \<le> 65535 then Ok (case cv_pass v of None \<Rightarrow> 0 | Some p \<Rightarrow> length p) else Err BAD_ARG)"
    using pw by (auto simp: v con_password_len_eq split: option.splits)
  {
    assume ok: "con_enc_ok H c"
    have r: "con_given c" "con_rule v" "con_enc_rule v" using ok by (simp_all add: con_enc_ok_def v_def)
    have l: "con_level c \<in> {4, 5}" using r(3) by (simp add: con_enc_rule_def v)
    define n where "n = (if con_level c = 5 then length (props_bytes (cv_props v)) else 0)"
    define k where "k = (if con_level c = 5 then length (vbi_bytes (length (props_bytes (cv_props v)))) else 0)"
    define wn where "wn = (if enable_lwt c \<noteq> 0 \<and> con_level c = 5 then length (props_bytes (wv_props (the (cv_will v)))) else 0)"
    define pn where "pn = (case cv_pass v of None \<Rightarrow> 0 | Some p \<Rightarrow> length p)"
    let ?wb = "opt_bytes (will_bytes (con_level c)) (cv_will v)"
    have wok: "(enable_lwt c \<noteq> 0 \<longrightarrow> (\<exists>w. lwt_msg c = Some w \<and> will_given w)) \<and> (\<forall>w. cv_will v = Some w \<longrightarrow> will_enc_ok (con_level c) w)"
      using r l by (auto simp: con_given_def con_rule_def con_enc_rule_def will_enc_ok_def v)
    note lwt = con_lwt_len_eq(1) [OF wf l wok [unfolded v_def], of m, folded v_def, folded wn_def]
    let ?w = "puts [put_connect_packet c,
       if con_level c \<ge> 5 then put_props 1 H (con_props c) n else put_nothing,
       put (\<lambda>m buf. MqttEncode_String m buf cid),
       if enable_lwt c \<noteq> 0 then put_will H (con_level c) (the (lwt_msg c)) wn else put_nothing,
       case username c of None \<Rightarrow> put_nothing | Some u \<Rightarrow> put (\<lambda>m buf. MqttEncode_String m buf u),
       if password c = None then put_nothing else put (\<lambda>m buf. MqttEncode_Data m buf (password c) (word_of_nat pn))]"
    have enc: "enc_connect H m tx_buf_len c cid =
        enc_frame m tx_buf_len (10 + n + k + length (str_bytes (cv_id v)) + length ?wb + length (opt_bytes str_bytes (cv_user v)) +
          (if password c = None then 0 else pn + 2)) 1 0 0 0 ?w"
    proof -
      have pr: "(if 5 \<le> con_level c then props_len_pass 1 H (con_props c) m else Ok (0, 0)) = Ok (n, k)"
        using r(2) l by (auto simp: con_rule_def v(1,5) lp n_def k_def)
      have i: "con_id_len c cid = Ok (length (str_bytes (cv_id v)))" using r by (auto simp: idl con_rule_def con_enc_rule_def v(1))
      have u: "(case username c of None \<Rightarrow> Ok 0 | Some u \<Rightarrow> con_string_len u) = Ok (length (opt_bytes str_bytes (cv_user v)))"
        using r(2) unfolding ul by (simp add: con_rule_def)
      have pp: "(case password c of None \<Rightarrow> Ok 0 | Some pw \<Rightarrow> con_password_len c pw) = Ok pn"
        using r(2) unfolding pl pn_def by (simp add: con_rule_def)
      have c: "\<not> (con_level c \<noteq> 4 \<and> con_level c \<noteq> 5)" "\<not> (con_level c = 4 \<and> password c \<noteq> None \<and> username c = None)"
        using r(2) l by (auto simp: con_rule_def v(1,6,7))
      show ?thesis unfolding enc_connect_def if_not_P [OF c(1)] if_not_P [OF c(2)] Let_def pr i u pp lwt bnd.simps prod.case by simp
    qed
    have eu: "emits (case username c of None \<Rightarrow> put_nothing | Some u \<Rightarrow> put (\<lambda>m buf. MqttEncode_String m buf u)) (opt_bytes str_bytes (cv_user v))"
      using r(2) by (cases "username c") (auto simp: v opt_bytes_def con_rule_def utf8_str_def intro!: emits_intros)
    have ep: "emits (if password c = None then put_nothing else put (\<lambda>m buf. MqttEncode_Data m buf (password c) (word_of_nat pn)))
        (opt_bytes str_bytes (cv_pass v))"
    proof (cases "password c")
      case (Some p)
      have lp: "length (pass_bytes c p) \<le> 65535" using r(2) Some by (simp add: con_rule_def v)
      have "length (pass_bytes c p) \<le> length p" using pw [OF Some] XSTRLEN_le by (auto simp: pass_bytes_def)
      then have "emits (put (\<lambda>m buf. MqttEncode_Data m buf (Some p) (word_of_nat pn))) (data_bytes (Some p) (word_of_nat pn))"
        using lp Some by (intro emits_intros) (simp add: pn_def v unat_word16_of_nat)
      then show ?thesis using pass_data [OF pw [OF Some] lp] Some by (simp add: pn_def v opt_bytes_def)
    qed (simp add: v opt_bytes_def emits_nothing)
    have ew: "emits (if enable_lwt c \<noteq> 0 then put_will H (con_level c) (the (lwt_msg c)) wn else put_nothing) ?wb"
    proof (cases "enable_lwt c = 0")
      case False
      then obtain w where w: "lwt_msg c = Some w" "will_given w" using wok by auto
      have cw: "cv_will v = Some (will_val_of H (con_level c) w)" using False w by (simp add: v_def con_val_of_def)
      have "emits (put_will H (con_level c) w wn) (will_bytes (con_level c) (will_val_of H (con_level c) w))"
        using wf False w wok cw by (intro put_will_emits l) (auto simp: con_wf_def wn_def)
      then show ?thesis using False w cw by (simp add: opt_bytes_def)
    qed (simp add: v_def con_val_of_def opt_bytes_def emits_nothing)
    have es: "emits (put (\<lambda>m buf. MqttEncode_String m buf cid)) (str_bytes (cv_id v))"
      using r(2) by (auto simp: v con_rule_def utf8_str_def intro!: emits_intros)
    have ex: "emits (if con_level c \<ge> 5 then put_props 1 H (con_props c) n else put_nothing)
        (if con_level c \<ge> 5 then props_block (prop_list H (con_props c)) else [])"
      using r(2) src l by (intro emits_if emits_prop_list emits_nothing) (auto simp: con_rule_def v n_def)
    have "emits ?w ((protocol_head @ [con_level c, con_flags c] @ num_bytes (keep_alive_sec c)) @
        (if con_level c \<ge> 5 then props_block (prop_list H (con_props c)) else []) @ str_bytes (cv_id v) @ ?wb @
        opt_bytes str_bytes (cv_user v) @ opt_bytes str_bytes (cv_pass v) @ [])"
      by (intro emits_puts_Cons emits_puts_Nil put_connect_packet_emits ex es ew eu ep)
    moreover have cf: "con_flags c = con_flag_byte v"
      unfolding v_def using wok by (intro con_flags_eq) (auto simp: will_enc_ok_def will_rule_def v_def con_val_of_def will_val_of_def)
    ultimately have e: "emits ?w (con_bytes v)" using l by (auto simp: con_bytes_def v(1,3,5))
    have len: "length (con_bytes v) = 10 + n + k + length (str_bytes (cv_id v)) + length ?wb + length (opt_bytes str_bytes (cv_user v)) +
        (if password c = None then 0 else pn + 2)"
      by (auto simp: con_bytes_def v(1) n_def k_def pn_def protocol_head_def props_block_def opt_bytes_def v(7) split: option.splits)
    show "enc_connect H m tx_buf_len c cid = send_packet m tx_buf_len (type_flags 1 0 0 0) (con_bytes (con_val_of H c))"
      using enc enc_frame_eq [OF e len [symmetric] tx con_bytes_bound [OF r(2)], of 1 0 0 0] unfolding v_def by simp
  next
    assume bad: "\<not> con_enc_ok H c"
    show "\<exists>e. enc_connect H m tx_buf_len c cid = Err e"
    proof (cases "con_level c \<in> {4, 5} \<and> (con_level c = 4 \<longrightarrow> password c \<noteq> None \<longrightarrow> username c \<noteq> None)")
      case l: True
      have c: "\<not> (con_level c \<noteq> 4 \<and> con_level c \<noteq> 5)" "\<not> (con_level c = 4 \<and> password c \<noteq> None \<and> username c = None)" using l by auto
      let ?ok = "(enable_lwt c \<noteq> 0 \<longrightarrow> (\<exists>w. lwt_msg c = Some w \<and> will_given w)) \<and> (\<forall>w. cv_will v = Some w \<longrightarrow> will_enc_ok (con_level c) w)"
      show ?thesis
      proof (cases ?ok)
        case True
        then have "con_given c" using cid by (simp add: con_given_def)
        with True bad l have b: "\<not> ((con_level c = 5 \<longrightarrow> props_ok 1 (cv_props v)) \<and> utf8_str (cv_id v) \<and> \<not> (cv_id v = [] \<and> \<not> cv_clean v \<and> con_level c = 4) \<and>
            (\<forall>u. cv_user v = Some u \<longrightarrow> utf8_str u) \<and> (\<forall>p. cv_pass v = Some p \<longrightarrow> length p \<le> 65535))"
          by (auto simp: con_enc_ok_def con_rule_def con_enc_rule_def will_enc_ok_def v_def [symmetric] v(1,5-7))
        from con_lwt_len_eq(1) [OF wf _ True [unfolded v_def], of m] l obtain x where "con_lwt_len H m c = Ok x" by auto
        then show ?thesis unfolding enc_connect_def idl ul pl if_not_P [OF c(1)] if_not_P [OF c(2)] Let_def
          using b c by (intro bnd_errs) (auto simp: lp v(5))
      next
        case False
        from con_lwt_len_eq(2) [OF wf _ False [unfolded v_def], of m] l obtain e where "con_lwt_len H m c = Err e" by auto
        then show ?thesis unfolding enc_connect_def idl ul pl if_not_P [OF c(1)] if_not_P [OF c(2)] Let_def
          by (intro bnd_errs) (auto simp: lp)
      qed
    qed (auto simp: enc_connect_def)
  }
qed

end
