(* ===== verification/Connect_Decode.thy ===== *)
theory Connect_Decode
  imports Packet_Connect
begin

text \<open>
  The decoder of CONNECT: it stays inside its buffer, gives both property lists back when it fails, and accepts
  exactly the packets that follow the rules; with the encoder it forms a codec.
\<close>

section \<open>Two property lists in one store\<close>

text \<open>The list of the packet and the list of the Will, decoded one after the other.\<close>

lemma free_two:
  assumes a: "holds Ha H1 h1 t1" "released H1 Hb" "holds Hb H h2 t2"
  obtains H3 H4 where "MqttProps_Free H h1 = Ok H3" "MqttProps_Free H3 h2 = Ok H4" "released Ha H4"
proof -
  from a(1) obtain js1 where j1: "live_list H1 h1 js1" "set js1 \<subseteq> free_cells Ha" "free_cells H1 = free_cells Ha - set js1"
    "length H1 = length Ha" "\<forall>j. j \<notin> set js1 \<longrightarrow> H1 ! j = Ha ! j" by (auto simp: holds_def)
  from a(3) obtain js2 where j2: "live_list H h2 js2" "set js2 \<subseteq> free_cells Hb" "free_cells H = free_cells Hb - set js2"
    "length H = length Hb" "\<forall>j. j \<notin> set js2 \<longrightarrow> H ! j = Hb ! j" by (auto simp: holds_def)
  have r: "free_cells Hb = free_cells H1" "length Hb = length H1" "\<forall>j. j \<notin> free_cells H1 \<longrightarrow> Hb ! j = H1 ! j"
    using a(2) by (auto simp: released_def)
  have d: "set js1 \<inter> set js2 = {}" using j1(3) j2(2) r(1) by auto
  have "live_list Hb h1 js1" by (rule released_live [OF a(2) j1(1)])
  moreover have "H ! j = Hb ! j" if "j \<in> set js1" for j using that d j2(5) by auto
  ultimately have c1: "live_list H h1 js1"
    using j2(4) chain_cong [of H Hb js1 h1] by (auto simp: live_list_def)
  then have ch1: "chain H h1 js1" "30 \<le> length H" by (auto simp: live_list_def)
  define H3 where "H3 = store_free H js1"
  have c2: "live_list H3 h2 js2" unfolding H3_def by (rule store_free_frame(1) [OF ch1(1) j2(1) d])
  then have ch2: "chain H3 h2 js2" "30 \<le> length H3" by (auto simp: live_list_def)
  define H4 where "H4 = store_free H3 js2"
  have sub: "set js1 \<subseteq> {..<30}" "set js2 \<subseteq> {..<30}" using j1(2) j2(2) by (auto simp: free_cells_def)
  have "free_cells H4 = free_cells H \<union> set js1 \<union> set js2"
    using store_free_cells [OF ch1] store_free_cells [OF ch2] sub by (auto simp: H3_def H4_def)
  then have f: "free_cells H4 = free_cells Ha" using j1(2,3) j2(2,3) r(1) by auto
  have "H4 ! j = Ha ! j" if "j \<notin> free_cells Ha" for j
  proof -
    have n: "j \<notin> set js1" "j \<notin> set js2" "j \<notin> free_cells H1" using that j1(2,3) j2(2) r(1) by auto
    then have "H4 ! j = H ! j" unfolding H4_def H3_def
      using store_free_nth [OF chain_range [OF ch1(1)] chain_distinct [OF ch1(1)], of j]
        store_free_nth [OF chain_range [OF ch2(1)] chain_distinct [OF ch2(1)], of j] by (simp add: H3_def)
    then show ?thesis using n j1(5) j2(5) r(3) by simp
  qed
  then have "released Ha H4" using f j1(4) j2(4) r(2) by (simp add: released_def H4_def H3_def)
  then show thesis using that [of H3 H4] MqttProps_Free_ok [OF ch1(1)] MqttProps_Free_ok [OF ch2(1)] by (simp add: H3_def H4_def)
qed

definition will_ptr :: "MqttConnect \<Rightarrow> nat option" where
  "will_ptr c = (if enable_lwt c = 0 then None else case lwt_msg c of None \<Rightarrow> None | Some w \<Rightarrow> msg_props w)"

lemma will_ptr_update [simp]:
  "will_ptr (c\<lparr>con_props := h\<rparr>) = will_ptr c" "will_ptr (c\<lparr>client_id := i\<rparr>) = will_ptr c" "will_ptr (c\<lparr>username := u\<rparr>) = will_ptr c"
  "will_ptr (c\<lparr>password := pw\<rparr>) = will_ptr c" "will_ptr (c\<lparr>password_len := n\<rparr>) = will_ptr c" "will_ptr (c\<lparr>keep_alive_sec := k\<rparr>) = will_ptr c"
  by (simp_all add: will_ptr_def)

text \<open>The lists the structure owns at any point of the decoder.\<close>

definition owned :: "store \<Rightarrow> con_state \<Rightarrow> bool" where
  "owned H0 = (\<lambda>(H, c). \<exists>Ha H1 Hb t1 t2. released H0 Ha \<and> holds Ha H1 (con_props c) t1 \<and> released H1 Hb \<and> holds Hb H (will_ptr c) t2)"

lemma con_cleanup_post:
  assumes "post (owned H0) Q sr"
  shows "post (\<lambda>(H, c). released H0 H) Q (con_cleanup sr)"
proof -
  obtain H c r where sr: "sr = ((H, c), r)" by (metis prod_cases3 prod.collapse)
  from assms [unfolded sr] show ?thesis
  proof (cases rule: postE)
    case (error e)
    then obtain Ha H1 Hb t1 t2 where o: "released H0 Ha" "holds Ha H1 (con_props c) t1" "released H1 Hb" "holds Hb H (will_ptr c) t2"
      by (auto simp: owned_def)
    obtain H3 H4 where f: "MqttProps_Free H (con_props c) = Ok H3" "MqttProps_Free H3 (will_ptr c) = Ok H4" "released Ha H4"
      using free_two [OF o(2-4)] .
    have n: "will_ptr c = None \<Longrightarrow> H4 = H3" using f(2) MqttProps_Free_ok [of H3 None "[]"] by (simp add: store_free_def)
    have "released H0 H4" using released_trans [OF o(1) f(3)] .
    then show ?thesis using f n error
      by (auto simp: sr con_cleanup_def Let_def will_ptr_def split: option.splits if_splits)
  next
    case (ok x)
    then show ?thesis by (simp add: sr con_cleanup_def)
  qed
qed

lemma holds_live: "holds H H' h tvs \<Longrightarrow> live_list H' None []"
  by (auto simp: holds_def live_list_def)

lemma owned_start: "live_list H None [] \<Longrightarrow> con_props c = None \<Longrightarrow> will_ptr c = None \<Longrightarrow> owned H (H, c)"
  unfolding owned_def prod.case by (intro exI [of _ H] exI [of _ "[]"]) simp

lemma owned_first:
  assumes "holds H H1 (con_props c) t1" "will_ptr c = None"
  shows "owned H (H1, c)"
  unfolding owned_def prod.case using assms holds_live [OF assms(1)]
  by (intro exI [of _ H] exI [of _ H1] exI [of _ t1] exI [of _ "[]"]) simp

lemma owned_released:
  assumes "holds H H1 (con_props c) t1" "released H1 H2" "will_ptr c = None"
  shows "owned H (H2, c)"
proof -
  have "live_list H2 None []" using released_live [OF assms(2) holds_live [OF assms(1)]] .
  then show ?thesis unfolding owned_def prod.case using assms
    by (intro exI [of _ H] exI [of _ H1] exI [of _ H2] exI [of _ t1] exI [of _ "[]"]) simp
qed

lemma owned_both: "holds H H1 (con_props c) t1 \<Longrightarrow> holds H1 H2 (will_ptr c) t2 \<Longrightarrow> owned H (H2, c)"
  unfolding owned_def prod.case by (meson released_refl)

lemma owned_cong: "con_props c' = con_props c \<Longrightarrow> will_ptr c' = will_ptr c \<Longrightarrow> owned H0 (H, c) \<Longrightarrow> owned H0 (H, c')"
  by (simp add: owned_def)

section \<open>The fields, one by one\<close>

lemma post_with_props:
  "post (\<lambda>(H', h). E (H', g h)) (\<lambda>(H', h) q. Q (H', g h) q) sr \<Longrightarrow> post E Q (with_props g sr)"
  by (cases sr; cases "snd sr") (auto simp: with_props_def split: prod.splits)

lemma dec_con_props_post:
  assumes H: "live_list H None []" and L: "rx_ok m L" "int p \<le> L" and c: "con_props c = None" "will_ptr c = None"
  shows "post (owned H) (\<lambda>(H', c') q. \<exists>h tvs. c' = c\<lparr>con_props := h\<rparr> \<and> holds H H' h tvs \<and> int q \<le> L \<and>
      (if con_level c = 5 then props_ok 1 tvs \<and> auth_ok tvs else tvs = []) \<and>
      (let bs = (if con_level c = 5 then props_block tvs else []) in q = p + length bs \<and> blk m p (length bs) = bs))
    (dec_con_props m L (H, c) p)"
proof -
  have E: "owned H (H', c\<lparr>con_props := None\<rparr>)" if "released H H'" for H'
  proof -
    have "live_list H' None []" using released_live [OF that H] .
    moreover have "will_ptr (c\<lparr>con_props := None\<rparr>) = None" using c(2) by simp
    ultimately show ?thesis unfolding owned_def prod.case using that
      by (intro exI [of _ H'] exI [of _ "[]"]) simp
  qed
  have b: "post (owned H) (\<lambda>(H', c') q. \<exists>h tvs. c' = c\<lparr>con_props := h\<rparr> \<and> holds H H' h tvs \<and> int q \<le> L \<and>
      props_ok 1 tvs \<and> auth_ok tvs \<and> q = p + length (props_block tvs) \<and> blk m p (length (props_block tvs)) = props_block tvs)
    (with_props (\<lambda>h. c\<lparr>con_props := h\<rparr>) (dec_block no_check 1 m L p H))"
    by (rule post_with_props, rule post_weaken [OF post_block [OF H L]]) (auto intro: E)
  show ?thesis
  proof (cases "con_level c = 5")
    case True
    then show ?thesis unfolding dec_con_props_def prod.case using L(2)
      by (auto simp: Let_def intro!: post_weaken [OF b])
  next
    case False
    then show ?thesis unfolding dec_con_props_def prod.case using L(2) c H
      by (auto simp: Let_def intro!: exI [of _ None])
  qed
qed

lemma dec_con_string_post:
  assumes L: "rx_ok m L" "int p \<le> L"
    and upd: "\<And>t. con_props (upd t c) = con_props c" "\<And>t. will_ptr (upd t c) = will_ptr c" and o: "owned H0 (H, c)"
  shows "post (owned H0) (\<lambda>(H', c') q. H' = H \<and> q \<le> e \<and> (\<exists>t. c' = upd t c \<and> utf8_str t \<and>
      q = p + length (str_bytes t) \<and> blk m p (length (str_bytes t)) = str_bytes t))
    (dec_con_string upd m L e (H, c) p)"
proof -
  have "owned H0 (H, upd t c)" for t using upd o by (intro owned_cong [OF _ _ o]) auto
  then show ?thesis unfolding dec_con_string_def prod.case
    by (intro post_String [OF L] o) auto
qed

definition wowned :: "store \<Rightarrow> store \<times> MqttMessage \<Rightarrow> bool" where
  "wowned H1 = (\<lambda>(H, w). \<exists>Hb t2. released H1 Hb \<and> holds Hb H (msg_props w) t2)"

lemma wowned_cong: "msg_props w' = msg_props w \<Longrightarrow> wowned H0 (H, w) \<Longrightarrow> wowned H0 (H, w')"
  by (simp add: wowned_def)

lemma will_types_holds:
  "holds H H' h tvs \<Longrightarrow> will_types Fault (length H') H' h = Ok (\<forall>t \<in> fst ` set tvs. MqttWillProps_ValidateType t)"
proof -
  assume "holds H H' h tvs"
  then obtain js where "chain H' h js" "props_val H' js = tvs" by (auto simp: holds_def live_list_def)
  then show ?thesis using will_types_chain [of H' h js "length H'"] chain_length by auto
qed

lemma dec_will_props_post:
  assumes H: "live_list H None []" and L: "rx_ok m L" "int p \<le> L" and w: "msg_props w = None"
  shows "post (wowned H) (\<lambda>(H', w') q. \<exists>h tvs. w' = w\<lparr>msg_props := h\<rparr> \<and> holds H H' h tvs \<and> int q \<le> L \<and>
      (if level = 5 then props_ok 1 tvs \<and> (\<forall>t \<in> fst ` set tvs. MqttWillProps_ValidateType t) else tvs = []) \<and>
      (let bs = (if level = 5 then props_block tvs else []) in q = p + length bs \<and> blk m p (length bs) = bs))
    (dec_will_props level m L (H, w) p)"
proof (cases "level = 5")
  case True
  have E: "wowned H (H', w\<lparr>msg_props := None\<rparr>)" if "released H H'" for H'
    unfolding wowned_def prod.case using that released_live [OF that H] by (intro exI [of _ H'] exI [of _ "[]"]) simp
  have E2: "wowned H (H', w\<lparr>msg_props := h\<rparr>)" if "holds H H' h tvs" for H' h tvs
    unfolding wowned_def prod.case using that by (intro exI [of _ H] exI [of _ tvs]) simp
  show ?thesis unfolding dec_will_props_def prod.case if_P [OF True]
  proof (intro post_if post_props [OF H L], goal_cases)
    case (3 H' h tvs q)
    then show ?case using True by (auto simp: will_types_holds Let_def intro: E2)
  qed (use L(2) E in auto)
next
  case False
  then show ?thesis unfolding dec_will_props_def prod.case using L(2) w H
    by (auto simp: Let_def intro!: exI [of _ None])
qed

lemma dec_will_topic_post:
  assumes L: "rx_ok m L" "int p \<le> L" and o: "wowned H0 (H, w)"
  shows "post (wowned H0) (\<lambda>(H', w') q. H' = H \<and> q \<le> e \<and> (\<exists>t. w' = w\<lparr>topic_name := Some t, topic_name_len := word_of_nat (length t)\<rparr> \<and>
      utf8_str t \<and> t \<noteq> [] \<and> no_wildcard t \<and> q = p + length (str_bytes t) \<and> blk m p (length (str_bytes t)) = str_bytes t))
    (dec_will_topic level m L e (H, w) p)"
proof -
  have o': "wowned H0 (H, w\<lparr>topic_name := Some t, topic_name_len := n\<rparr>)" for t n by (rule wowned_cong [OF _ o]) simp
  show ?thesis unfolding dec_will_topic_def prod.case
  proof (intro post_String [OF L] o, goal_cases)
    case (1 t)
    then have l: "length t \<le> 65535" by (simp add: utf8_str_def)
    have n0: "((word_of_nat (length t) :: word16) = 0) = (t = [])" by (rule word16_len_0 [OF l])
    show ?case using 1 o' by (auto simp: Let_def n0 topic_name_valid_eq)
  qed
qed

lemma dec_will_payload_post:
  assumes L: "rx_ok m L" "int p \<le> L" "int e \<le> L" and o: "wowned H0 (H, w)"
  shows "post (wowned H0) (\<lambda>(H', w') q. H' = H \<and> q \<le> e \<and> (\<exists>bs n. w' = w\<lparr>total_len := ucast n, buffer := Some bs, buffer_len := ucast n, buffer_pos := 0\<rparr> \<and>
      length bs = unat (n :: word16) \<and> q = p + length (str_bytes bs) \<and> blk m p (length (str_bytes bs)) = str_bytes bs))
    (dec_will_payload m L e (H, w) p)"
proof -
  have o': "wowned H0 (H, w\<lparr>total_len := n\<rparr>)" for n by (rule wowned_cong [OF _ o]) simp
  show ?thesis unfolding dec_will_payload_def prod.case
  proof (intro post_Num [OF L(1,2)] o, goal_cases)
    case (1 n)
    show ?case unfolding prod.case Let_def
    proof (intro post_if, goal_cases)
      case 2
      then have le: "p + 2 + unat n \<le> e" "p + 2 + unat n \<le> length m" using L by (auto simp: rx_ok_def)
      define bs where "bs = blk m (p + 2) (unat n)"
      have lb: "length bs = unat n" using le(2) by (simp add: bs_def)
      have "blk m p (2 + unat n) = num_bytes n @ bs" unfolding blk_add using 1(2) by (simp add: bs_def)
      moreover have "str_bytes bs = num_bytes n @ bs" by (simp add: str_bytes_def lb)
      moreover have "rdn m (p + 2) (unat n) = Ok bs" using le(2) by (simp add: rdn_ok bs_def)
      ultimately show ?case using le lb by (auto intro!: exI [of _ bs] exI [of _ n])
    qed (use o' in simp)
  qed
qed

text \<open>What the structure of the Will holds after decoding.\<close>

definition will_is :: "MqttMessage \<Rightarrow> will_val \<Rightarrow> bool" where
  "will_is w v \<longleftrightarrow> qos w = wv_qos v \<and> retain w = of_bool (wv_retain v) \<and> topic_name w = Some (wv_topic v) \<and>
     unat (topic_name_len w) = length (wv_topic v) \<and> buffer w = Some (wv_payload v) \<and>
     unat (total_len w) = length (wv_payload v) \<and> buffer_pos w = 0"

definition will_list :: "will_val option \<Rightarrow> (nat \<times> prop_value) list" where
  "will_list v = (case v of None \<Rightarrow> [] | Some w \<Rightarrow> wv_props w)"

lemma unat_ucast16: "unat (ucast (n :: word16) :: word32) = unat n"
proof -
  have "unat n < 4294967296" using unat_word16_less [of n] by linarith
  then show ?thesis by (simp add: unsigned_ucast_eq take_bit_nat_eq_self)
qed

lemma dec_will_post:
  assumes H: "live_list H None []" and L: "rx_ok m L" "int p \<le> L" "int e \<le> L" and w: "msg_props w = None" and q3: "qos w \<noteq> MQTT_QOS_3" "retain w \<in> {0, 1}"
  shows "post (wowned H) (\<lambda>(H', w') q. q \<le> e \<and> (\<exists>v. will_is w' v \<and> holds H H' (msg_props w') (wv_props v) \<and> will_rule level v \<and> wv_topic v \<noteq> [] \<and>
      wv_qos v = qos w \<and> wv_retain v = (retain w \<noteq> 0) \<and> q = p + length (will_bytes level v) \<and> blk m p (length (will_bytes level v)) = will_bytes level v))
    (then_state (dec_will_props level m L (H, w) p) (\<lambda>s q. then_state (dec_will_topic level m L e s q) (dec_will_payload m L e)))"
proof (rule post_then_state [OF dec_will_props_post [OF H L(1,2) w]], clarify, goal_cases)
  case (1 H1 w1 q1 h tvs)
  define b1 where "b1 = (if level = 5 then props_block tvs else [])"
  have q1: "q1 = p + length b1" "blk m p (length b1) = b1" using 1(4) by (simp_all add: b1_def Let_def)
  have o: "wowned H (H1, w\<lparr>msg_props := h\<rparr>)" unfolding wowned_def prod.case using 1(1) by (intro exI [of _ H]) auto
  show ?case
  proof (rule post_then_state [OF dec_will_topic_post [OF L(1) 1(2) o]], clarify, goal_cases)
    case (1 H2 w2 q2 t)
    define w2 where "w2 = w\<lparr>msg_props := h, topic_name := Some t, topic_name_len := word_of_nat (length t)\<rparr>"
    have o2: "wowned H (H1, w2)" by (rule wowned_cong [OF _ o]) (simp add: w2_def)
    have p2: "int (q1 + length (str_bytes t)) \<le> L" using 1(1) L(3) by linarith
    show ?case unfolding w2_def [symmetric]
    proof (rule post_weaken [OF dec_will_payload_post [OF L(1) p2 L(3) o2]], assumption, clarify, goal_cases)
      case (1 H3 w3 q3 bs n)
      define v where "v = \<lparr>wv_qos = qos w, wv_retain = (retain w \<noteq> 0), wv_props = tvs, wv_topic = t, wv_payload = bs\<rparr>"
      have lb: "length bs \<le> 65535" using 1(2) unat_word16_less [of n] by linarith
      have lt: "length t < 65536" using \<open>utf8_str t\<close> by (simp add: utf8_str_def)
      have wb: "will_bytes level v = b1 @ str_bytes t @ str_bytes bs" by (simp add: will_bytes_def v_def b1_def)
      have "blk m p (length b1 + (length (str_bytes t) + length (str_bytes bs))) = b1 @ str_bytes t @ str_bytes bs"
        unfolding blk_add using q1 1(3) \<open>blk m q1 (length (str_bytes t)) = str_bytes t\<close> by (simp add: add.assoc)
      then have bl: "blk m p (length (will_bytes level v)) = will_bytes level v" unfolding wb by simp
      have pos: "q1 + length (str_bytes t) + length (str_bytes bs) = p + length (will_bytes level v)" unfolding wb q1(1) by simp
      have r: "will_rule level v" using \<open>utf8_str t\<close> \<open>no_wildcard t\<close> q3(1) lb \<open>if level = 5 then _ else _\<close>
        by (auto simp: will_rule_def v_def)
      have "will_is (w2\<lparr>total_len := ucast n, buffer := Some bs, buffer_len := ucast n, buffer_pos := 0\<rparr>) v"
        using q3(2) 1(2) lt by (auto simp: will_is_def v_def w2_def unat_ucast16 unat_word16_of_nat)
      then show ?case using bl pos r 1(1) \<open>t \<noteq> []\<close> \<open>holds H H1 h tvs\<close> by (intro conjI exI [of _ v]) (auto simp: v_def w2_def)
    qed
  qed
qed

lemma dec_con_will_post:
  assumes h: "holds H0 H (con_props c) t1" and L: "rx_ok m L" "int p \<le> L" "int e \<le> L" and p: "p \<le> e" and c: "will_ptr c = None"
    and q3: "enable_lwt c \<noteq> 0 \<Longrightarrow> qos_of (MQTT_CONNECT_FLAG_GET_QOS flags) \<noteq> MQTT_QOS_3"
  shows "post (owned H0) (\<lambda>(H', c') q. q \<le> e \<and> (\<exists>lm ov. c' = c\<lparr>lwt_msg := lm\<rparr> \<and> holds H H' (will_ptr c') (will_list ov) \<and>
      (ov = None) = (enable_lwt c = 0) \<and>
      (\<forall>v. ov = Some v \<longrightarrow> will_rule (con_level c) v \<and> wv_topic v \<noteq> [] \<and> (\<exists>w. lm = Some w \<and> will_is w v) \<and>
        wv_qos v = qos_of (MQTT_CONNECT_FLAG_GET_QOS flags) \<and> wv_retain v = (flags AND 0x20 \<noteq> 0)) \<and>
      q = p + length (opt_bytes (will_bytes (con_level c)) ov) \<and>
      blk m p (length (opt_bytes (will_bytes (con_level c)) ov)) = opt_bytes (will_bytes (con_level c)) ov))
    (dec_con_will flags m L e (H, c) p)"
proof (cases "enable_lwt c = 0")
  case True
  have "live_list H None []" using holds_live [OF h] .
  then show ?thesis using True p c by (auto simp: dec_con_will_def opt_bytes_def will_list_def intro!: exI [of _ "lwt_msg c"] exI [of _ "None :: will_val option"])
next
  case False
  show ?thesis
  proof (cases "lwt_msg c")
    case None
    then show ?thesis using False owned_first [OF h c] by (simp add: dec_con_will_def)
  next
    case (Some w)
    define w1 where "w1 = w\<lparr>qos := qos_of (MQTT_CONNECT_FLAG_GET_QOS flags), retain := (if flags AND 0x20 \<noteq> 0 then 1 else 0)\<rparr>"
    have w1: "msg_props w1 = None" "qos w1 \<noteq> MQTT_QOS_3" "retain w1 \<in> {0, 1}"
      using c Some False q3 by (auto simp: w1_def will_ptr_def)
    obtain H' w' r where d: "then_state (dec_will_props (con_level c) m L (H, w1) p) (\<lambda>s q.
        then_state (dec_will_topic (con_level c) m L e s q) (dec_will_payload m L e)) = ((H', w'), r)"
      by (metis prod_cases3 prod.collapse)
    have D: "dec_con_will flags m L e (H, c) p = ((H', c\<lparr>lwt_msg := Some w'\<rparr>), r)"
      using False Some d by (simp add: dec_con_will_def Let_def w1_def)
    have wp: "will_ptr (c\<lparr>lwt_msg := Some w'\<rparr>) = msg_props w'" using False by (simp add: will_ptr_def)
    from dec_will_post [OF holds_live [OF h] L w1, of "con_level c", unfolded d] show ?thesis
    proof (cases rule: postE)
      case (error err)
      then obtain Hb t2 where "released H Hb" "holds Hb H' (msg_props w') t2" by (auto simp: wowned_def)
      then have "owned H0 (H', c\<lparr>lwt_msg := Some w'\<rparr>)" unfolding owned_def prod.case wp using h
        by (intro exI [of _ H0] exI [of _ H] exI [of _ Hb] exI [of _ t1] exI [of _ t2]) simp
      then show ?thesis using error by (simp add: D)
    next
      case (ok q)
      then obtain v where v: "q \<le> e" "will_is w' v" "holds H H' (msg_props w') (wv_props v)" "will_rule (con_level c) v" "wv_topic v \<noteq> []"
        "wv_qos v = qos w1" "wv_retain v = (retain w1 \<noteq> 0)" "q = p + length (will_bytes (con_level c) v)"
        "blk m p (length (will_bytes (con_level c) v)) = will_bytes (con_level c) v" by auto
      then show ?thesis using ok(1) wp False
        by (auto simp: D opt_bytes_def will_list_def w1_def intro!: exI [of _ "Some w'"] exI [of _ "Some v"])
    qed
  qed
qed

lemma dec_con_password_post:
  assumes L: "rx_ok m L" "int p \<le> L" "int e \<le> L" and o: "owned H0 (H, c)"
  shows "post (owned H0) (\<lambda>(H', c') q. H' = H \<and> q \<le> e \<and> (\<exists>bs n. c' = c\<lparr>password := Some bs, password_len := n\<rparr> \<and>
      length bs = unat n \<and> q = p + length (str_bytes bs) \<and> blk m p (length (str_bytes bs)) = str_bytes bs))
    (dec_con_password m L e (H, c) p)"
  unfolding dec_con_password_def prod.case
proof (intro post_Num [OF L(1,2)] o, goal_cases)
  case (1 n)
  show ?case unfolding prod.case
  proof (intro post_if, goal_cases)
    case 3
    then have le: "p + 2 + unat n \<le> e" "p + 2 + unat n \<le> length m" using L by (auto simp: rx_ok_def)
    define bs where "bs = blk m (p + 2) (unat n)"
    have lb: "length bs = unat n" using le(2) by (simp add: bs_def)
    have "blk m p (2 + unat n) = num_bytes n @ bs" unfolding blk_add using 1(2) by (simp add: bs_def)
    moreover have "str_bytes bs = num_bytes n @ bs" by (simp add: str_bytes_def lb)
    moreover have "rdn m (p + 2) (unat n) = Ok bs" using le(2) by (simp add: rdn_ok bs_def)
    ultimately show ?case using le lb by (auto intro!: exI [of _ bs] exI [of _ n])
  qed (use o in simp_all)
qed

text \<open>The flag byte against the fields it announces, over all 256 bytes.\<close>

lemma flags_parts:
  assumes "\<not> con_flags_bad level f"
  shows "f = flags_of (f AND 2 \<noteq> 0) (if f AND 4 \<noteq> 0 then Some (qos_of (MQTT_CONNECT_FLAG_GET_QOS f), f AND 0x20 \<noteq> 0) else None)
      (f AND 0x80 \<noteq> 0) (f AND 0x40 \<noteq> 0)" (is "f = ?g f")
    and "f AND 4 \<noteq> 0 \<Longrightarrow> qos_of (MQTT_CONNECT_FLAG_GET_QOS f) \<noteq> MQTT_QOS_3"
proof -
  let ?P = "\<lambda>f. f AND 1 = 0 \<and> (f AND 4 = 0 \<longrightarrow> f AND (0x18 OR 0x20) = 0) \<and> (f AND 4 \<noteq> 0 \<longrightarrow> MQTT_CONNECT_FLAG_GET_QOS f \<noteq> 3)"
  have "?P f \<longrightarrow> f = ?g f" by (rule byte_cases_256 [where P = "\<lambda>f. ?P f \<longrightarrow> f = ?g f"]) code_simp
  moreover have P: "?P f" using assms by (auto simp: con_flags_bad_def)
  ultimately show "f = ?g f" by blast
  have "MQTT_CONNECT_FLAG_GET_QOS f < 4"
    by (rule byte_cases_256 [where P = "\<lambda>f. MQTT_CONNECT_FLAG_GET_QOS f < 4"]) code_simp
  then show "f AND 4 \<noteq> 0 \<Longrightarrow> qos_of (MQTT_CONNECT_FLAG_GET_QOS f) \<noteq> MQTT_QOS_3" using P qos_code_of [of "MQTT_CONNECT_FLAG_GET_QOS f"] by auto
qed

section \<open>The packet\<close>

text \<open>What the structure holds after decoding the packet with value \<open>v\<close>.\<close>

definition con_is :: "MqttConnect \<Rightarrow> con_val \<Rightarrow> bool" where
  "con_is c v \<longleftrightarrow> con_level c = cv_level v \<and> clean_session c = of_bool (cv_clean v) \<and> keep_alive_sec c = cv_keep v \<and>
     client_id c = Some (cv_id v) \<and> enable_lwt c = of_bool (cv_will v \<noteq> None) \<and>
     (\<forall>w. cv_will v = Some w \<longrightarrow> (\<exists>m. lwt_msg c = Some m \<and> will_is m w)) \<and>
     username c = cv_user v \<and> password c = cv_pass v \<and> (\<forall>pw. cv_pass v = Some pw \<longrightarrow> unat (password_len c) = length pw)"

definition con_rest :: "con_val \<Rightarrow> byte list" where
  "con_rest v = (if cv_level v = 5 then props_block (cv_props v) else []) @
     str_bytes (cv_id v) @ opt_bytes (will_bytes (cv_level v)) (cv_will v) @
     opt_bytes str_bytes (cv_user v) @ opt_bytes str_bytes (cv_pass v)"

lemma con_bytes_split: "con_bytes v = (protocol_head @ [cv_level v, con_flag_byte v] @ num_bytes (cv_keep v)) @ con_rest v"
  by (simp add: con_bytes_def con_rest_def)

text \<open>Reading pieces one after the other.\<close>

lemma blk_join: "blk m p (length a) = a \<Longrightarrow> blk m (p + length a) (length b) = b \<Longrightarrow> blk m p (length (a @ b)) = a @ b"
  by (simp add: blk_add)

lemma Num_total:
  assumes "p + 2 \<le> length m"
  obtains n where "MqttDecode_Num m p 2 = Ok (n, 2)" "blk m p 2 = num_bytes n"
proof -
  have b: "blk m p 2 = num_bytes (push_bit 8 (ucast (m ! p)) + ucast (m ! (p + 1)))"
    using num_bytes_value [of "m ! p" "m ! (p + 1)" "push_bit 8 (ucast (m ! p)) + ucast (m ! (p + 1))"] assms by (simp add: blk_2)
  then show thesis using that MqttDecode_Num_complete [OF b] assms by simp
qed

lemma dec_con_login_post:
  assumes L: "rx_ok m L" "int e \<le> L" and p: "p \<le> e" and o: "owned H0 (H, c)" and c: "username c = None" "password c = None"
  shows "post (owned H0) (\<lambda>(H', c') r. H' = H \<and> r = int e \<and> (\<exists>u pw n. c' = c\<lparr>username := u, password := pw, password_len := n\<rparr> \<and>
      (u = None) = (f AND 0x80 = 0) \<and> (pw = None) = (f AND 0x40 = 0) \<and> (\<forall>t. u = Some t \<longrightarrow> utf8_str t) \<and>
      (\<forall>b. pw = Some b \<longrightarrow> length b \<le> 65535 \<and> unat n = length b) \<and>
      (let bs = opt_bytes str_bytes u @ opt_bytes str_bytes pw in p + length bs = e \<and> blk m p (length bs) = bs)))
    (dec_con_login f m L e (H, c) p)"
proof -
  have pL: "int p \<le> L" using p L(2) by linarith
  have su: "post (owned H0) (\<lambda>(H', c') q. H' = H \<and> q \<le> e \<and> (\<exists>u. c' = c\<lparr>username := u\<rparr> \<and> (u = None) = (f AND 0x80 = 0) \<and>
      (\<forall>t. u = Some t \<longrightarrow> utf8_str t) \<and> q = p + length (opt_bytes str_bytes u) \<and> blk m p (length (opt_bytes str_bytes u)) = opt_bytes str_bytes u))
    (if f AND 0x80 \<noteq> 0 then dec_con_string (\<lambda>t. username_update (\<lambda>_. Some t)) m L e (H, c) p else ((H, c), Ok p))"
  proof (rule post_if, goal_cases)
    case 1
    show ?case by (rule post_weaken [OF dec_con_string_post [OF L(1) pL _ _ o, where e = e]])
      (use 1 in \<open>auto simp: opt_bytes_def intro!: exI [of _ "Some _"]\<close>)
  next
    case 2
    then show ?case using p c(1) by (auto simp: opt_bytes_def intro!: exI [of _ "None :: byte list option"])
  qed
  show ?thesis unfolding dec_con_login_def
  proof (rule post_then_state [OF su], clarify, goal_cases)
    case (1 H1 c1 p1 u)
    have o1: "owned H0 (H, c\<lparr>username := u\<rparr>)" by (rule owned_cong [OF _ _ o]) simp_all
    have p1: "int (p + length (opt_bytes str_bytes u)) \<le> L" using 1(1) L(2) by linarith
    have sp: "post (owned H0) (\<lambda>(H', c') q. H' = H \<and> q \<le> e \<and> (\<exists>pw n. c' = c\<lparr>username := u, password := pw, password_len := n\<rparr> \<and>
        (pw = None) = (f AND 0x40 = 0) \<and> (\<forall>b. pw = Some b \<longrightarrow> length b \<le> 65535 \<and> unat n = length b) \<and>
        q = p + length (opt_bytes str_bytes u) + length (opt_bytes str_bytes pw) \<and>
        blk m (p + length (opt_bytes str_bytes u)) (length (opt_bytes str_bytes pw)) = opt_bytes str_bytes pw))
      (if f AND 0x40 \<noteq> 0 then dec_con_password m L e (H, c\<lparr>username := u\<rparr>) (p + length (opt_bytes str_bytes u))
       else ((H, c\<lparr>username := u\<rparr>), Ok (p + length (opt_bytes str_bytes u))))"
    proof (rule post_if, goal_cases)
      case 1
      show ?case
      proof (rule post_weaken [OF dec_con_password_post [OF L(1) p1 L(2) o1]], assumption, clarify, goal_cases)
        case (1 H2 c2 q bs n)
        have "length bs \<le> 65535" using 1(2) unat_word16_less [of n] by linarith
        then show ?case using 1 \<open>f AND 0x40 \<noteq> 0\<close> by (intro conjI exI [of _ "Some bs"] exI [of _ n]) (simp_all add: opt_bytes_def)
      qed
    next
      case 2
      then show ?case using 1(1) c(2) by (auto simp: opt_bytes_def intro!: exI [of _ "None :: byte list option"] exI [of _ "password_len c"])
    qed
    show ?case
    proof (rule post_then_state [OF sp], clarify, goal_cases)
      case (1 H2 c2 p2 pw n)
      have o2: "owned H0 (H, c\<lparr>username := u, password := pw, password_len := n\<rparr>)" by (rule owned_cong [OF _ _ o]) simp_all
      define a b where "a = opt_bytes str_bytes u" and "b = opt_bytes str_bytes pw"
      have bl: "blk m p (length (a @ b)) = a @ b" using 1(4) \<open>blk m p (length (opt_bytes str_bytes u)) = opt_bytes str_bytes u\<close>
        by (intro blk_join) (simp_all add: a_def b_def)
      show ?case
      proof (rule post_if, goal_cases)
        case 2
        then have "p + length (a @ b) = e" by (simp add: a_def b_def)
        then show ?case using bl 1 \<open>(u = None) = _\<close> \<open>\<forall>t. u = Some t \<longrightarrow> utf8_str t\<close> unfolding post_simps prod.case
          by (intro conjI exI [of _ u] exI [of _ pw] exI [of _ n]) (simp_all add: Let_def a_def b_def)
      qed (use o2 in simp)
    qed
  qed
qed

lemma dec_con_fields_post:
  assumes H: "live_list H None []" and L: "rx_ok m L" "int p \<le> L" "int e \<le> L"
    and pk: "length packet = 10" "f = packet ! 7"
    and c: "con_props c = None" "will_ptr c = None" "username c = None" "password c = None"
      "clean_session c = of_bool (f AND 2 \<noteq> 0)" "enable_lwt c = of_bool (f AND 4 \<noteq> 0)"
  shows "post (owned H) (\<lambda>(H', c') r. r = int e \<and> (\<exists>v H1. con_is c' v \<and> con_rule v \<and> con_dec_rule v \<and> cv_level v = con_level c \<and>
      con_flag_byte v = f \<and> num_bytes (cv_keep v) = blk packet 8 2 \<and> holds H H1 (con_props c') (cv_props v) \<and>
      holds H1 H' (will_ptr c') (will_list (cv_will v)) \<and> p + length (con_rest v) = e \<and> blk m p (length (con_rest v)) = con_rest v))
    (dec_con_fields packet m L e (H, c) p)" (is "post _ ?Q _")
proof -
  obtain ka where ka: "MqttDecode_Num packet 8 2 = Ok (ka, 2)" "blk packet 8 2 = num_bytes ka"
    using Num_total [of 8 packet] pk(1) by auto
  let ?c = "c\<lparr>keep_alive_sec := ka\<rparr>"
  show ?thesis unfolding dec_con_fields_def prod.case Let_def pk(2) [symmetric] ka(1) at_state_simps
  proof (intro post_if, goal_cases)
    case 1
    then show ?case using H c by (simp add: owned_start)
  next
    case 2
    note fl = flags_parts [OF 2]
    have c1: "con_props ?c = None" "will_ptr ?c = None" using c by simp_all
    show ?case
    proof (rule post_then_state [OF dec_con_props_post [OF H L(1,2) c1]], clarify, goal_cases)
      case (1 H1 c1' p1 h tvs)
      define b1 where "b1 = (if con_level c = 5 then props_block tvs else [])"
      have p1: "p1 = p + length b1" "blk m p (length b1) = b1" using 1(4) by (simp_all add: b1_def Let_def)
      have wp: "will_ptr (?c\<lparr>con_props := h\<rparr>) = None" using c(2) by simp
      have h1: "holds H H1 (con_props (?c\<lparr>con_props := h\<rparr>)) tvs" using 1(1) by simp
      show ?case
      proof (rule post_then_state [OF dec_con_string_post [OF L(1) 1(2) _ _ owned_first [OF h1 wp]]], simp, simp add: will_ptr_def, clarify, goal_cases)
        case (1 H2 c2' p2 cid)
        let ?c2 = "?c\<lparr>con_props := h, client_id := Some cid\<rparr>"
        have h2: "holds H H1 (con_props ?c2) tvs" using h1 by simp
        have p2: "int (p1 + length (str_bytes cid)) \<le> L" using 1(1) L(3) by linarith
        have w2: "will_ptr ?c2 = None" using c(2) by simp
        have q3: "enable_lwt ?c2 \<noteq> 0 \<Longrightarrow> qos_of (MQTT_CONNECT_FLAG_GET_QOS f) \<noteq> MQTT_QOS_3" using fl(2) c(6) by auto
        show ?case
        proof (rule post_then_state [OF dec_con_will_post [OF h2 L(1) p2 L(3) 1(1) w2 q3]], assumption, clarify, goal_cases)
          case (1 H3 c3' q lm ov)
          define wb where "wb = opt_bytes (will_bytes (con_level c)) ov"
          define f3 where "f3 = ?c2\<lparr>lwt_msg := lm\<rparr>"
          define p3 where "p3 = p1 + length (str_bytes cid) + length wb"
          have p3: "p3 = p1 + length (str_bytes cid) + length wb" "blk m (p1 + length (str_bytes cid)) (length wb) = wb" "p3 \<le> e"
            using 1 by (simp_all add: wb_def p3_def)
          have o3: "owned H (H3, f3)" using h2 1(2) by (intro owned_both) (simp_all add: f3_def)
          have u3: "username f3 = None" "password f3 = None" using c(3,4) by (simp_all add: f3_def)
          have lv: "con_level ?c2 = con_level c" by simp
          show ?case unfolding f3_def [symmetric] lv wb_def [symmetric] p3_def [symmetric]
          proof (rule post_weaken [OF dec_con_login_post [OF L(1,3) p3(3) o3 u3, of f]], assumption, clarify, goal_cases)
            case (1 H4 c4 r u pw n)
            define v where "v = \<lparr>cv_level = con_level c, cv_clean = (f AND 2 \<noteq> 0), cv_keep = ka, cv_props = tvs, cv_id = cid,
              cv_will = ov, cv_user = u, cv_pass = pw\<rparr>"
            let ?lb = "opt_bytes str_bytes u @ opt_bytes str_bytes pw"
            have r: "con_rest v = b1 @ str_bytes cid @ wb @ ?lb" by (simp add: con_rest_def v_def b1_def wb_def)
            have j: "blk m p3 (length ?lb) = ?lb" "p3 + length ?lb = e" using 1(5) by (simp_all add: Let_def)
            have j2: "blk m (p1 + length (str_bytes cid)) (length (wb @ ?lb)) = wb @ ?lb" using j(1) unfolding p3(1) by (rule blk_join [OF p3(2)])
            have j3: "blk m p1 (length (str_bytes cid @ (wb @ ?lb))) = str_bytes cid @ (wb @ ?lb)"
              by (rule blk_join [OF \<open>blk m p1 (length (str_bytes cid)) = str_bytes cid\<close> j2])
            have bl: "blk m p (length (con_rest v)) = con_rest v" unfolding r using j3 unfolding p1(1) by (rule blk_join [OF p1(2)])
            have len: "p + length (con_rest v) = e" using p1(1) p3(1) j(2) by (simp add: r)
            have ovs: "map_option (\<lambda>w. (wv_qos w, wv_retain w)) ov =
                (if f AND 4 \<noteq> 0 then Some (qos_of (MQTT_CONNECT_FLAG_GET_QOS f), f AND 0x20 \<noteq> 0) else None)"
              using \<open>(ov = None) = _\<close> \<open>\<forall>v. ov = Some v \<longrightarrow> _\<close> c(6) by (cases ov) auto
            have fb: "con_flag_byte v = f" using fl(1) 1(1,2) by (simp add: con_flag_byte_def v_def ovs)
            have rule: "con_rule v" "con_dec_rule v"
              using 2 \<open>if con_level _ = 5 then _ else _\<close> \<open>utf8_str cid\<close> \<open>\<forall>v. ov = Some v \<longrightarrow> _\<close> 1(1-4)
              by (auto simp: con_rule_def con_dec_rule_def v_def con_flags_bad_def auth_ok_def split: if_splits)
            have is_v: "con_is (f3\<lparr>username := u, password := pw, password_len := n\<rparr>) v"
              using \<open>(ov = None) = _\<close> \<open>\<forall>v. ov = Some v \<longrightarrow> _\<close> 1(4) c(5,6) by (auto simp: con_is_def v_def f3_def)
            have h3: "holds H H1 (con_props (f3\<lparr>username := u, password := pw, password_len := n\<rparr>)) (cv_props v)"
              "holds H1 H3 (will_ptr (f3\<lparr>username := u, password := pw, password_len := n\<rparr>)) (will_list (cv_will v))"
              using h2 \<open>holds H1 H3 _ _\<close> by (simp_all add: f3_def v_def)
            show ?case using is_v rule fb h3 len bl ka(2) by (intro conjI refl exI [of _ v] exI [of _ H1]) (simp_all add: v_def)
          qed
        qed
      qed
    qed
  qed
qed

text \<open>An accepted packet: its bytes, the structure and the two lists all carry the value \<open>v\<close>.\<close>

definition con_read :: "store \<Rightarrow> mem \<Rightarrow> store \<Rightarrow> MqttConnect \<Rightarrow> nat \<Rightarrow> bool" where
  "con_read H m H' c k \<longleftrightarrow> (\<exists>tf v H1. con_is c v \<and> con_rule v \<and> con_dec_rule v \<and>
     holds H H1 (con_props c) (cv_props v) \<and> holds H1 H' (will_ptr c) (will_list (cv_will v)) \<and>
     blk m 0 k = tf # vbi_bytes (length (con_bytes v)) @ con_bytes v \<and>
     MQTT_PACKET_TYPE_GET tf = MQTT_PACKET_TYPE_CONNECT \<and> MqttPacket_FixedHeaderFlagsValid tf)"

lemma con_start_facts:
  "con_props (con_start packet c) = None" "will_ptr (con_start packet c) = None" "username (con_start packet c) = None"
  "password (con_start packet c) = None" "clean_session (con_start packet c) = of_bool (packet ! 7 AND 2 \<noteq> 0)"
  "enable_lwt (con_start packet c) = of_bool (packet ! 7 AND 4 \<noteq> 0)" "con_level (con_start packet c) = packet ! 6"
  by (auto simp: con_start_def Let_def will_ptr_def split: option.splits)

lemma packet_head:
  assumes "length packet = 10" "blk packet 0 2 = num_bytes 4" "blk packet 2 4 = drop 2 protocol_head"
  shows "packet = protocol_head @ [packet ! 6, packet ! 7] @ blk packet 8 2"
proof -
  have "packet = blk packet 0 (2 + (4 + (2 + 2)))" using assms(1) by (simp add: blk_def)
  also have "\<dots> = blk packet 0 2 @ blk packet 2 4 @ blk packet 6 2 @ blk packet 8 2" unfolding blk_add add_0 by simp
  also have "blk packet 6 2 = [packet ! 6, packet ! 7]" using assms(1) by (simp add: blk_2)
  finally show ?thesis using assms(2,3) by (simp add: num_bytes_def protocol_head_def)
qed

lemma MqttDecode_Connect_post:
  assumes H: "live_list H None []" and L: "rx_ok m L"
  shows "post (\<lambda>(H', c'). released H H' \<and> (\<exists>c1. c' = Some c1))
      (\<lambda>(H', c') r. \<exists>c1. c' = Some c1 \<and> 0 \<le> r \<and> r \<le> L \<and> con_read H m H' c1 (nat r))
      (MqttDecode_Connect H (Some m) L (Some c))"
proof -
  have rel: "released H H" by simp
  show ?thesis unfolding MqttDecode_Connect_def option.case prod.case Let_def
  proof (intro post_if post_some_state post_header [OF L], goal_cases)
    case (5 h tf n)
    define hl where "hl = fh_header_len h"
    define packet where "packet = blk m hl 10"
    define e where "e = hl + n"
    have n: "10 \<le> n" "int e \<le> L" "nat (int hl + int n) = e" using 5(3,10,11) by (auto simp: hl_def e_def)
    have lm: "hl + 10 \<le> length m" "e \<le> length m" using n L by (auto simp: rx_ok_def e_def)
    have lp: "length packet = 10" using lm(1) by (simp add: packet_def)
    have rp: "rdn m hl 10 = Ok packet" using lm(1) by (simp add: rdn_ok packet_def)
    obtain pn where pn: "MqttDecode_Num packet 0 2 = Ok (pn, 2)" "blk packet 0 2 = num_bytes pn" using Num_total [of 0 packet] lp by auto
    show ?case unfolding 5(3) hl_def [symmetric] rp at_state_simps pn(1) prod.case n(3)
    proof (rule post_if, goal_cases)
      case 2
      then have pk: "packet = protocol_head @ [packet ! 6, packet ! 7] @ blk packet 8 2" using pn(2) by (intro packet_head lp) simp_all
      have p10: "int (hl + 10) \<le> L" using n by (simp add: e_def)
      show ?case
      proof (rule post_weaken [OF con_cleanup_post [OF dec_con_fields_post [OF H L p10 n(2) lp refl con_start_facts(1-6)]]], goal_cases)
        case (2 s r)
        then obtain H' c' v H1 where s: "s = (H', c')" "r = int e" "con_is c' v" "con_rule v" "con_dec_rule v" "cv_level v = packet ! 6"
          "con_flag_byte v = packet ! 7" "num_bytes (cv_keep v) = blk packet 8 2" "holds H H1 (con_props c') (cv_props v)"
          "holds H1 H' (will_ptr c') (will_list (cv_will v))" "hl + 10 + length (con_rest v) = e"
          "blk m (hl + 10) (length (con_rest v)) = con_rest v" by (cases s) (auto simp: con_start_facts)
        have pk2: "packet = protocol_head @ [cv_level v, con_flag_byte v] @ num_bytes (cv_keep v)" using pk s(6-8) by simp
        have cb: "con_bytes v = packet @ con_rest v" unfolding con_bytes_split using pk2 by simp
        have b: "blk m hl (length (con_bytes v)) = con_bytes v"
          unfolding cb using lp s(12) by (intro blk_join) (simp_all add: packet_def)
        have ln: "length (con_bytes v) = n" using s(11) lp by (simp add: cb e_def)
        have "blk m 0 (hl + n) = tf # vbi_bytes n @ con_bytes v"
          unfolding blk_add add_0 using 5(7) b [unfolded ln] by (simp add: hl_def)
        then have "con_read H m H' c' e" unfolding con_read_def
          using s(3-5,9,10) ln 5(8,9) by (intro exI [of _ tf] exI [of _ v] exI [of _ H1]) (simp add: e_def)
        then show ?case using s(1,2) n(2) by simp
      qed (auto split: prod.splits)
    qed (use rel in simp)
  qed (use rel in auto)
qed

section \<open>Reading back a packet\<close>

lemma flags_of_bits:
  assumes "\<forall>q r. w = Some (q, r) \<longrightarrow> q \<noteq> MQTT_QOS_3"
  shows "flags_of a w u p AND 1 = 0" "(flags_of a w u p AND 2 \<noteq> 0) = a" "(flags_of a w u p AND 4 \<noteq> 0) = (w \<noteq> None)"
    "(flags_of a w u p AND 0x80 \<noteq> 0) = u" "(flags_of a w u p AND 0x40 \<noteq> 0) = p"
    "w = None \<Longrightarrow> flags_of a w u p AND 0x38 = 0"
    "w = Some (q, r) \<Longrightarrow> MQTT_CONNECT_FLAG_GET_QOS (flags_of a w u p) = qos_code q"
    "w = Some (q, r) \<Longrightarrow> (flags_of a w u p AND 0x20 \<noteq> 0) = r"
proof -
  consider (none) "w = None" | (some) q r where "w = Some (q, r)" "q \<noteq> MQTT_QOS_3" using assms by (cases w) auto
  then have "flags_of a w u p AND 1 = 0 \<and> (flags_of a w u p AND 2 \<noteq> 0) = a \<and> (flags_of a w u p AND 4 \<noteq> 0) = (w \<noteq> None) \<and>
    (flags_of a w u p AND 0x80 \<noteq> 0) = u \<and> (flags_of a w u p AND 0x40 \<noteq> 0) = p \<and>
    (w = None \<longrightarrow> flags_of a w u p AND 0x38 = 0) \<and>
    (\<forall>q r. w = Some (q, r) \<longrightarrow> MQTT_CONNECT_FLAG_GET_QOS (flags_of a w u p) = qos_code q \<and> (flags_of a w u p AND 0x20 \<noteq> 0) = r)"
  proof cases
    case none
    then show ?thesis by (cases a; cases u; cases p) (simp_all add: flags_of_def)
  next
    case (some q r)
    then show ?thesis by (cases q; cases a; cases r; cases u; cases p) (simp_all add: flags_of_def MQTT_CONNECT_FLAG_GET_QOS_def)
  qed
  then show "flags_of a w u p AND 1 = 0" "(flags_of a w u p AND 2 \<noteq> 0) = a" "(flags_of a w u p AND 4 \<noteq> 0) = (w \<noteq> None)"
    "(flags_of a w u p AND 0x80 \<noteq> 0) = u" "(flags_of a w u p AND 0x40 \<noteq> 0) = p"
    "w = None \<Longrightarrow> flags_of a w u p AND 0x38 = 0"
    "w = Some (q, r) \<Longrightarrow> MQTT_CONNECT_FLAG_GET_QOS (flags_of a w u p) = qos_code q"
    "w = Some (q, r) \<Longrightarrow> (flags_of a w u p AND 0x20 \<noteq> 0) = r" by blast+
qed

lemma con_flag_bits:
  assumes "con_rule v"
  defines "f \<equiv> con_flag_byte v"
  shows "\<not> con_flags_bad (cv_level v) f" "(f AND 2 \<noteq> 0) = cv_clean v" "(f AND 4 \<noteq> 0) = (cv_will v \<noteq> None)"
    "(f AND 0x80 \<noteq> 0) = (cv_user v \<noteq> None)" "(f AND 0x40 \<noteq> 0) = (cv_pass v \<noteq> None)"
    "cv_will v = Some w \<Longrightarrow> qos_of (MQTT_CONNECT_FLAG_GET_QOS f) = wv_qos w"
    "cv_will v = Some w \<Longrightarrow> (f AND 0x20 \<noteq> 0) = wv_retain w"
proof -
  let ?w = "map_option (\<lambda>w. (wv_qos w, wv_retain w)) (cv_will v)"
  have q: "\<forall>q r. ?w = Some (q, r) \<longrightarrow> q \<noteq> MQTT_QOS_3" using assms(1) by (auto simp: con_rule_def will_rule_def)
  note b = flags_of_bits [OF q, where a = "cv_clean v" and u = "cv_user v \<noteq> None" and p = "cv_pass v \<noteq> None", folded con_flag_byte_def, folded f_def]
  show "(f AND 2 \<noteq> 0) = cv_clean v" "(f AND 4 \<noteq> 0) = (cv_will v \<noteq> None)" "(f AND 0x80 \<noteq> 0) = (cv_user v \<noteq> None)" "(f AND 0x40 \<noteq> 0) = (cv_pass v \<noteq> None)"
    using b(2-5) by simp_all
  show "cv_will v = Some w \<Longrightarrow> qos_of (MQTT_CONNECT_FLAG_GET_QOS f) = wv_qos w" "cv_will v = Some w \<Longrightarrow> (f AND 0x20 \<noteq> 0) = wv_retain w"
    using b(7,8) by auto
  have "MQTT_CONNECT_FLAG_GET_QOS f = 3 \<Longrightarrow> cv_will v = None"
  proof (cases "cv_will v")
    case (Some w)
    then have "wv_qos w \<noteq> MQTT_QOS_3" "MQTT_CONNECT_FLAG_GET_QOS f = qos_code (wv_qos w)" using q b(7) by auto
    then show "MQTT_CONNECT_FLAG_GET_QOS f = 3 \<Longrightarrow> cv_will v = None" by (cases "wv_qos w") auto
  qed simp
  then show "\<not> con_flags_bad (cv_level v) f" using b(1,3-6) assms(1) by (auto simp: con_flags_bad_def con_rule_def)
qed

lemma holds_card: "holds H H' h tvs \<Longrightarrow> card (free_cells H') = card (free_cells H) - length tvs"
proof -
  assume "holds H H' h tvs"
  then obtain js where js: "live_list H' h js" "set js \<subseteq> free_cells H" "free_cells H' = free_cells H - set js" "props_val H' js = tvs"
    by (auto simp: holds_def)
  have "distinct js" using js(1) chain_distinct by (auto simp: live_list_def)
  moreover have "length tvs = length js" using js(4) by (auto simp: props_val_def)
  ultimately show ?thesis using js(2,3) by (simp add: card_Diff_subset distinct_card)
qed

lemma dec_con_props_complete:
  assumes H: "live_list H None []" "length tvs \<le> card (free_cells H)" and L: "rx_ok m L" and c: "con_props c = None"
    and ok: "if con_level c = 5 then props_ok 1 tvs else tvs = []" "auth_ok tvs"
    and b: "b1 = (if con_level c = 5 then props_block tvs else [])" "blk m p (length b1) = b1" "int (p + length b1) \<le> L"
  shows "\<exists>H' h. dec_con_props m L (H, c) p = ((H', c\<lparr>con_props := h\<rparr>), Ok (p + length b1)) \<and> holds H H' h tvs"
proof (cases "con_level c = 5")
  case True
  then have "blk m p (length (props_block tvs)) = props_block tvs" "int (p + length (props_block tvs)) \<le> L" "props_ok 1 tvs"
    using b ok by simp_all
  from block_at(3) [OF H L this ok(2)] True b show ?thesis by (auto simp: dec_con_props_def)
next
  case False
  have e: "c\<lparr>con_props := None\<rparr> = c" using c by simp
  show ?thesis by (rule exI [of _ H], rule exI [of _ "None :: nat option"], unfold e) (use False b(1) H ok in \<open>simp add: dec_con_props_def\<close>)
qed

lemma dec_con_string_complete:
  assumes "rx_ok m L" "utf8_str t" "blk m p (length (str_bytes t)) = str_bytes t" "p + length (str_bytes t) \<le> e" "int e \<le> L"
  shows "dec_con_string upd m L e (H, c) p = ((H, upd t c), Ok (p + length (str_bytes t)))"
proof -
  define k where "k = 2 + length t"
  have "MqttDecode_String m p (rx_left L p) = Ok (t, k)" unfolding k_def using assms by (intro String_at) auto
  then show ?thesis using assms(4) by (simp add: dec_con_string_def k_def)
qed

text \<open>The two fields of binary data: a length and the bytes.\<close>

lemma data_at:
  assumes L: "rx_ok m L" and bs: "length bs \<le> 65535" "blk m p (length (str_bytes bs)) = str_bytes bs" "int (p + length (str_bytes bs)) \<le> L"
  obtains n where "MqttDecode_Num m p (rx_left L p) = Ok (n, 2)" "unat n = length bs" "rdn m (p + 2) (unat n) = Ok bs" "n = word_of_nat (length bs)"
proof -
  have u: "unat (word_of_nat (length bs) :: word16) = length bs" using bs(1) by (simp add: unat_word16_of_nat)
  have le: "p + length (str_bytes bs) \<le> length m" using bs(3) L by (simp add: rx_ok_def)
  note sp = blk_split [OF bs(2) _ le, of "num_bytes (word_of_nat (length bs))" bs]
  have "MqttDecode_Num m p (rx_left L p) = Ok (word_of_nat (length bs), 2)"
    using sp(1) bs(3) by (intro Num_at [OF L]) (simp_all add: str_bytes_def)
  moreover have "rdn m (p + 2) (length bs) = Ok bs" using sp(2) le by (simp add: rdn_def str_bytes_def)
  ultimately show thesis using that u by simp
qed

lemma will_auth_ok: "\<forall>t \<in> fst ` set tvs. MqttWillProps_ValidateType t \<Longrightarrow> auth_ok tvs"
  by (auto simp: auth_ok_def MqttWillProps_ValidateType_def)

lemma dec_will_props_complete:
  assumes H: "live_list H None []" "length tvs \<le> card (free_cells H)" and L: "rx_ok m L" and w: "msg_props w = None"
    and ok: "if level = 5 then props_ok 1 tvs \<and> (\<forall>t \<in> fst ` set tvs. MqttWillProps_ValidateType t) else tvs = []"
    and b: "b1 = (if level = 5 then props_block tvs else [])" "blk m p (length b1) = b1" "int (p + length b1) \<le> L"
  shows "\<exists>H' h. dec_will_props level m L (H, w) p = ((H', w\<lparr>msg_props := h\<rparr>), Ok (p + length b1)) \<and> holds H H' h tvs"
proof (cases "level = 5")
  case True
  then have "blk m p (length (props_block tvs)) = props_block tvs" "int (p + length (props_block tvs)) \<le> L" "props_ok 1 tvs" "auth_ok tvs"
    using b ok will_auth_ok by simp_all
  from block_at(3) [OF H L this] True b ok show ?thesis by (auto simp: dec_will_props_def will_types_holds)
next
  case False
  have e: "w\<lparr>msg_props := None\<rparr> = w" using w by simp
  show ?thesis by (rule exI [of _ H], rule exI [of _ "None :: nat option"], unfold e) (use False b(1) H ok in \<open>simp add: dec_will_props_def\<close>)
qed

lemma dec_will_complete:
  assumes H: "live_list H None []" "length (wv_props v) \<le> card (free_cells H)" and L: "rx_ok m L" "int e \<le> L"
    and w: "msg_props w = None" "qos w = wv_qos v" "retain w = of_bool (wv_retain v)" and ok: "will_rule level v" "wv_topic v \<noteq> []"
    and b: "blk m p (length (will_bytes level v)) = will_bytes level v" "p + length (will_bytes level v) \<le> e"
  shows "\<exists>H' w'. then_state (dec_will_props level m L (H, w) p) (\<lambda>s q. then_state (dec_will_topic level m L e s q) (dec_will_payload m L e)) =
      ((H', w'), Ok (p + length (will_bytes level v))) \<and> will_is w' v \<and> holds H H' (msg_props w') (wv_props v)"
proof -
  define b1 where "b1 = (if level = 5 then props_block (wv_props v) else [])"
  define t where "t = wv_topic v"
  define bs where "bs = wv_payload v"
  have lm: "p + length (will_bytes level v) \<le> length m" using b(2) L by (simp add: rx_ok_def)
  have wb: "will_bytes level v = b1 @ (str_bytes t @ str_bytes bs)" by (simp add: will_bytes_def b1_def t_def bs_def)
  note s1 = blk_split [OF b(1) wb lm]
  have le2: "p + length b1 + length (str_bytes t @ str_bytes bs) \<le> length m" using lm unfolding wb by simp
  note s2 = blk_split [OF s1(2) refl le2]
  have pe: "p + length b1 + length (str_bytes t) + length (str_bytes bs) \<le> e" using b(2) unfolding wb by simp
  have r: "utf8_str t" "no_wildcard t" "length bs \<le> 65535" "t \<noteq> []"
    "if level = 5 then props_ok 1 (wv_props v) \<and> (\<forall>t \<in> fst ` set (wv_props v). MqttWillProps_ValidateType t) else wv_props v = []"
    using ok by (simp_all add: will_rule_def t_def bs_def)
  have "int (p + length b1) \<le> L" using pe L(2) by linarith
  from dec_will_props_complete [OF H L(1) w(1) r(5) b1_def s1(1) this] obtain H' h where
    d1: "dec_will_props level m L (H, w) p = ((H', w\<lparr>msg_props := h\<rparr>), Ok (p + length b1))" "holds H H' h (wv_props v)" by blast
  define p1 where "p1 = p + length b1"
  define k where "k = length (str_bytes t)"
  have "MqttDecode_String m p1 (rx_left L p1) = Ok (t, 2 + length t)"
    using s2(1) pe L(2) by (intro String_at [OF L(1) _ _ r(1)]) (auto simp: p1_def)
  then have S: "MqttDecode_String m p1 (rx_left L p1) = Ok (t, k)" by (simp add: k_def)
  define w2 where "w2 = w\<lparr>msg_props := h, topic_name := Some t, topic_name_len := word_of_nat (length t)\<rparr>"
  have lt: "length t \<le> 65535" using r(1) by (simp add: utf8_str_def)
  have "\<not> e < p1 + k" using pe by (simp add: p1_def k_def)
  then have d2: "dec_will_topic level m L e (H', w\<lparr>msg_props := h\<rparr>) p1 = ((H', w2), Ok (p1 + k))"
    using S r(2,4) word16_len_0 [OF lt] by (simp add: dec_will_topic_def Let_def topic_name_valid_eq w2_def)
  have "int (p1 + k + length (str_bytes bs)) \<le> L" "blk m (p1 + k) (length (str_bytes bs)) = str_bytes bs"
    using pe L(2) s2(2) by (auto simp: p1_def k_def)
  from data_at [OF L(1) r(3) this(2,1)] obtain n where n: "MqttDecode_Num m (p1 + k) (rx_left L (p1 + k)) = Ok (n, 2)" "unat n = length bs"
    "rdn m (p1 + k + 2) (unat n) = Ok bs" by metis
  define w3 where "w3 = w2\<lparr>total_len := ucast n, buffer := Some bs, buffer_len := ucast n, buffer_pos := 0\<rparr>"
  have pos: "p1 + k + 2 + unat n = p + length (will_bytes level v)" using n(2) by (simp add: wb p1_def k_def)
  define k2 where "k2 = (2 :: nat)"
  have "\<not> e < p1 + k + k2 + unat n" using pe n(2) by (simp add: p1_def k_def k2_def)
  then have d3: "dec_will_payload m L e (H', w2) (p1 + k) = ((H', w3), Ok (p1 + k + 2 + unat n))"
    using n(1,3) unfolding k2_def [symmetric] by (simp add: dec_will_payload_def Let_def w3_def)
  have "will_is w3 v" using w(2,3) n(2) lt by (simp add: will_is_def w3_def w2_def t_def bs_def unat_ucast16 unat_word16_of_nat)
  moreover have "holds H H' (msg_props w3) (wv_props v)" using d1(2) by (simp add: w3_def w2_def)
  ultimately show ?thesis using d1(1) [folded p1_def] d2 d3 pos by auto
qed

lemma dec_con_will_complete:
  assumes H: "live_list H None []" "length (will_list ov) \<le> card (free_cells H)" and L: "rx_ok m L" "int e \<le> L"
    and c: "will_ptr c = None" "(enable_lwt c \<noteq> 0) = (ov \<noteq> None)" "ov \<noteq> None \<longrightarrow> lwt_msg c \<noteq> None"
    and ok: "\<forall>v. ov = Some v \<longrightarrow> will_rule (con_level c) v \<and> wv_topic v \<noteq> [] \<and>
      qos_of (MQTT_CONNECT_FLAG_GET_QOS f) = wv_qos v \<and> (f AND 0x20 \<noteq> 0) = wv_retain v"
    and b: "wb = opt_bytes (will_bytes (con_level c)) ov" "blk m p (length wb) = wb" "p + length wb \<le> e"
  shows "\<exists>H' lm. dec_con_will f m L e (H, c) p = ((H', c\<lparr>lwt_msg := lm\<rparr>), Ok (p + length wb)) \<and>
    holds H H' (will_ptr (c\<lparr>lwt_msg := lm\<rparr>)) (will_list ov) \<and> (\<forall>v. ov = Some v \<longrightarrow> (\<exists>w. lm = Some w \<and> will_is w v))"
proof (cases ov)
  case None
  have e: "c\<lparr>lwt_msg := lwt_msg c\<rparr> = c" by simp
  show ?thesis by (rule exI [of _ H], rule exI [of _ "lwt_msg c"], unfold e)
    (use None c H b(1) in \<open>simp add: dec_con_will_def opt_bytes_def will_list_def\<close>)
next
  case (Some v)
  then obtain w where w: "lwt_msg c = Some w" using c(3) by auto
  define w1 where "w1 = w\<lparr>qos := qos_of (MQTT_CONNECT_FLAG_GET_QOS f), retain := (if f AND 0x20 \<noteq> 0 then 1 else 0)\<rparr>"
  have e: "enable_lwt c \<noteq> 0" using c(2) Some by simp
  have w1: "msg_props w1 = None" "qos w1 = wv_qos v" "retain w1 = of_bool (wv_retain v)"
    using c(1) e w ok Some by (auto simp: will_ptr_def w1_def)
  have v: "will_rule (con_level c) v" "wv_topic v \<noteq> []" "length (wv_props v) \<le> card (free_cells H)"
    "blk m p (length (will_bytes (con_level c) v)) = will_bytes (con_level c) v" "p + length (will_bytes (con_level c) v) \<le> e"
    using ok H(2) b Some by (simp_all add: will_list_def opt_bytes_def)
  from dec_will_complete [OF H(1) v(3) L w1 v(1,2,4,5)] obtain H' w' where
    d: "then_state (dec_will_props (con_level c) m L (H, w1) p) (\<lambda>s q. then_state (dec_will_topic (con_level c) m L e s q) (dec_will_payload m L e)) =
      ((H', w'), Ok (p + length (will_bytes (con_level c) v)))" "will_is w' v" "holds H H' (msg_props w') (wv_props v)" by blast
  have "dec_con_will f m L e (H, c) p = ((H', c\<lparr>lwt_msg := Some w'\<rparr>), Ok (p + length wb))"
    using e w d(1) b(1) Some by (simp add: dec_con_will_def Let_def w1_def opt_bytes_def)
  moreover have "will_ptr (c\<lparr>lwt_msg := Some w'\<rparr>) = msg_props w'" using e by (simp add: will_ptr_def)
  ultimately show ?thesis using d(2,3) Some by (intro exI [of _ H'] exI [of _ "Some w'"]) (simp add: will_list_def)
qed

lemma dec_con_password_complete:
  assumes L: "rx_ok m L" "int e \<le> L" and bs: "length bs \<le> 65535" "blk m p (length (str_bytes bs)) = str_bytes bs" "p + length (str_bytes bs) \<le> e"
  shows "dec_con_password m L e (H, c) p = ((H, c\<lparr>password := Some bs, password_len := word_of_nat (length bs)\<rparr>), Ok (p + length (str_bytes bs)))"
proof -
  have "int (p + length (str_bytes bs)) \<le> L" using bs(3) L(2) by linarith
  from data_at [OF L(1) bs(1,2) this] obtain n where n: "MqttDecode_Num m p (rx_left L p) = Ok (n, 2)" "unat n = length bs"
    "rdn m (p + 2) (unat n) = Ok bs" "n = word_of_nat (length bs)" .
  define k where "k = (2 :: nat)"
  have "L - int p - int k < 2 ^ 32" "0 \<le> L - int p - int k" "\<not> L - int p - int k < int (unat n)"
    using L bs(3) n(2) by (auto simp: rx_ok_def k_def)
  then have "\<not> u32 (L - int p - int k) < unat n" by (simp add: nat_less_iff)
  moreover have "\<not> e < p + k + unat n" using bs(3) n(2) by (simp add: k_def)
  ultimately have "dec_con_password m L e (H, c) p = ((H, c\<lparr>password := Some bs, password_len := n\<rparr>), Ok (p + k + unat n))"
    using n(1,3) unfolding k_def [symmetric] by (simp add: dec_con_password_def)
  then show ?thesis using n(2,4) by (simp add: k_def)
qed

lemma dec_con_login_complete:
  assumes L: "rx_ok m L" "int e \<le> L" and c: "username c = None" "password c = None"
    and f: "(f AND 0x80 \<noteq> 0) = (u \<noteq> None)" "(f AND 0x40 \<noteq> 0) = (pw \<noteq> None)"
    and ok: "\<forall>t. u = Some t \<longrightarrow> utf8_str t" "\<forall>b. pw = Some b \<longrightarrow> length b \<le> 65535"
    and b: "blk m p (length (opt_bytes str_bytes u @ opt_bytes str_bytes pw)) = opt_bytes str_bytes u @ opt_bytes str_bytes pw"
      "p + length (opt_bytes str_bytes u @ opt_bytes str_bytes pw) = e"
  shows "\<exists>n. dec_con_login f m L e (H, c) p = ((H, c\<lparr>username := u, password := pw, password_len := n\<rparr>), Ok (int e)) \<and>
    (\<forall>b. pw = Some b \<longrightarrow> unat n = length b)"
proof -
  define p1 where "p1 = p + length (opt_bytes str_bytes u)"
  have lm: "p + length (opt_bytes str_bytes u @ opt_bytes str_bytes pw) \<le> length m" using b(2) L by (simp add: rx_ok_def)
  note sp = blk_split [OF b(1) refl lm, folded p1_def]
  have e1: "p1 + length (opt_bytes str_bytes pw) = e" using b(2) by (simp add: p1_def)
  have eu: "c\<lparr>username := None\<rparr> = c" using c(1) by simp
  have d1: "(if f AND 0x80 \<noteq> 0 then dec_con_string (\<lambda>t. username_update (\<lambda>_. Some t)) m L e (H, c) p else ((H, c), Ok p)) =
      ((H, c\<lparr>username := u\<rparr>), Ok p1)"
  proof (cases u)
    case None
    then show ?thesis using f(1) by (simp add: eu p1_def opt_bytes_def)
  next
    case (Some t)
    then show ?thesis using f(1) sp(1) ok(1) e1 dec_con_string_complete [OF L(1), of t p e "\<lambda>t. username_update (\<lambda>_. Some t)" H c] L(2)
      by (simp add: p1_def opt_bytes_def)
  qed
  let ?c = "c\<lparr>username := u\<rparr>"
  have "\<exists>n. (if f AND 0x40 \<noteq> 0 then dec_con_password m L e (H, ?c) p1 else ((H, ?c), Ok p1)) =
      ((H, ?c\<lparr>password := pw, password_len := n\<rparr>), Ok e) \<and> (\<forall>b. pw = Some b \<longrightarrow> unat n = length b)"
  proof (cases pw)
    case None
    have "?c\<lparr>password := None, password_len := password_len c\<rparr> = ?c" using c(2) by simp
    then show ?thesis using None f(2) e1 by (intro exI [of _ "password_len c"]) (simp add: opt_bytes_def)
  next
    case (Some bs)
    then have "dec_con_password m L e (H, ?c) p1 = ((H, ?c\<lparr>password := Some bs, password_len := word_of_nat (length bs)\<rparr>), Ok (p1 + length (str_bytes bs)))"
      using sp(2) ok(2) e1 by (intro dec_con_password_complete L) (simp_all add: opt_bytes_def)
    then show ?thesis using Some f(2) e1 ok(2)
      by (intro exI [of _ "word_of_nat (length bs)"]) (simp add: opt_bytes_def unat_word16_of_nat)
  qed
  then obtain n where "(if f AND 0x40 \<noteq> 0 then dec_con_password m L e (H, ?c) p1 else ((H, ?c), Ok p1)) =
      ((H, ?c\<lparr>password := pw, password_len := n\<rparr>), Ok e)" "\<forall>b. pw = Some b \<longrightarrow> unat n = length b" by blast
  then show ?thesis unfolding dec_con_login_def d1 then_state_simps by (intro exI [of _ n]) simp
qed

lemma dec_con_fields_complete:
  assumes H: "live_list H None []" "length (cv_props v) + length (will_list (cv_will v)) \<le> card (free_cells H)" and L: "rx_ok m L" "int e \<le> L"
    and pk: "length packet = 10" "packet ! 7 = con_flag_byte v" "blk packet 8 2 = num_bytes (cv_keep v)"
    and c: "con_props c = None" "will_ptr c = None" "username c = None" "password c = None" "con_level c = cv_level v"
      "clean_session c = of_bool (cv_clean v)" "enable_lwt c = of_bool (cv_will v \<noteq> None)" "cv_will v \<noteq> None \<longrightarrow> lwt_msg c \<noteq> None"
    and ok: "con_rule v" "con_dec_rule v" and b: "blk m p (length (con_rest v)) = con_rest v" "p + length (con_rest v) = e"
  shows "\<exists>H1 H' c'. dec_con_fields packet m L e (H, c) p = ((H', c'), Ok (int e)) \<and> con_is c' v \<and>
    holds H H1 (con_props c') (cv_props v) \<and> holds H1 H' (will_ptr c') (will_list (cv_will v))"
proof -
  define b1 where "b1 = (if cv_level v = 5 then props_block (cv_props v) else [])"
  define wb where "wb = opt_bytes (will_bytes (cv_level v)) (cv_will v)"
  define lb where "lb = opt_bytes str_bytes (cv_user v) @ opt_bytes str_bytes (cv_pass v)"
  define sb where "sb = str_bytes (cv_id v)"
  have r: "con_rest v = b1 @ (sb @ (wb @ lb))" by (simp add: con_rest_def b1_def wb_def lb_def sb_def)
  have lm: "p + length (con_rest v) \<le> length m" using b(2) L by (simp add: rx_ok_def)
  note s1 = blk_split [OF b(1) r lm]
  define p1 where "p1 = p + length b1"
  have lm1: "p1 + length (sb @ (wb @ lb)) \<le> length m" using lm unfolding r p1_def by simp
  note s2 = blk_split [OF s1(2) [folded p1_def] refl lm1]
  define p2 where "p2 = p1 + length sb"
  have lm2: "p2 + length (wb @ lb) \<le> length m" using lm1 unfolding p2_def by simp
  note s3 = blk_split [OF s2(2) [folded p2_def] refl lm2]
  define p3 where "p3 = p2 + length wb"
  have e: "p3 + length lb = e" using b(2) unfolding r p3_def p2_def p1_def by simp
  have pos: "p3 \<le> e" "p2 + length wb \<le> e" "p1 + length sb \<le> e" "int (p + length b1) \<le> L"
    using e L(2) by (simp_all add: p3_def p2_def p1_def)
  note bits = con_flag_bits [OF ok(1), folded pk(2)]
  let ?c = "c\<lparr>keep_alive_sec := cv_keep v\<rparr>"
  have l1: "length (cv_props v) \<le> card (free_cells H)" using H(2) by simp
  have ko: "if con_level ?c = 5 then props_ok 1 (cv_props v) else cv_props v = []" "auth_ok (cv_props v)"
    using ok c(5) by (simp_all add: con_rule_def con_dec_rule_def)
  have bb: "b1 = (if con_level ?c = 5 then props_block (cv_props v) else [])" using c(5) by (simp add: b1_def)
  have cp: "con_props ?c = None" using c(1) by simp
  obtain H1 h where d1: "dec_con_props m L (H, ?c) p = ((H1, ?c\<lparr>con_props := h\<rparr>), Ok p1)" "holds H H1 h (cv_props v)"
    using dec_con_props_complete [OF H(1) l1 L(1) cp ko bb s1(1) pos(4)] unfolding p1_def by blast
  let ?c2 = "?c\<lparr>con_props := h, client_id := Some (cv_id v)\<rparr>"
  have "utf8_str (cv_id v)" using ok(1) by (simp add: con_rule_def)
  from dec_con_string_complete [OF L(1) this s2(1) [unfolded sb_def] pos(3) [unfolded sb_def] L(2), of "\<lambda>t. client_id_update (\<lambda>_. Some t)" H1 "?c\<lparr>con_props := h\<rparr>"]
  have d2: "dec_con_string (\<lambda>t. client_id_update (\<lambda>_. Some t)) m L e (H1, ?c\<lparr>con_props := h\<rparr>) p1 = ((H1, ?c2), Ok p2)"
    by (simp add: p2_def sb_def)
  have l2: "length (will_list (cv_will v)) \<le> card (free_cells H1)" using holds_card [OF d1(2)] H(2) by simp
  have wp: "will_ptr ?c2 = None" "(enable_lwt ?c2 \<noteq> 0) = (cv_will v \<noteq> None)" "cv_will v \<noteq> None \<longrightarrow> lwt_msg ?c2 \<noteq> None"
    using c(2,7,8) by simp_all
  have wo: "\<forall>w. cv_will v = Some w \<longrightarrow> will_rule (con_level ?c2) w \<and> wv_topic w \<noteq> [] \<and>
      qos_of (MQTT_CONNECT_FLAG_GET_QOS (packet ! 7)) = wv_qos w \<and> (packet ! 7 AND 0x20 \<noteq> 0) = wv_retain w"
    using ok c(5) bits(6,7) by (simp add: con_rule_def con_dec_rule_def)
  have wbb: "wb = opt_bytes (will_bytes (con_level ?c2)) (cv_will v)" using c(5) by (simp add: wb_def)
  obtain H2 lm where d3: "dec_con_will (packet ! 7) m L e (H1, ?c2) p2 = ((H2, ?c2\<lparr>lwt_msg := lm\<rparr>), Ok p3)"
    "holds H1 H2 (will_ptr (?c2\<lparr>lwt_msg := lm\<rparr>)) (will_list (cv_will v))" "\<forall>w. cv_will v = Some w \<longrightarrow> (\<exists>x. lm = Some x \<and> will_is x w)"
    using dec_con_will_complete [OF holds_live [OF d1(2)] l2 L wp wo wbb s3(1) pos(2), folded p3_def] by (elim exE conjE) (rule that)
  let ?c3 = "?c2\<lparr>lwt_msg := lm\<rparr>"
  have u3: "username ?c3 = None" "password ?c3 = None" using c(3,4) by simp_all
  have lo: "\<forall>t. cv_user v = Some t \<longrightarrow> utf8_str t" "\<forall>b. cv_pass v = Some b \<longrightarrow> length b \<le> 65535" using ok(1) by (simp_all add: con_rule_def)
  obtain n where d4: "dec_con_login (packet ! 7) m L e (H2, ?c3) p3 =
      ((H2, ?c3\<lparr>username := cv_user v, password := cv_pass v, password_len := n\<rparr>), Ok (int e))" "\<forall>b. cv_pass v = Some b \<longrightarrow> unat n = length b"
    using dec_con_login_complete [OF L u3 bits(4,5) lo s3(2) [unfolded lb_def, folded p3_def] e [unfolded lb_def], of H2] by blast
  have ka: "MqttDecode_Num packet 8 2 = Ok (cv_keep v, 2)" using pk(1,3) by (intro MqttDecode_Num_complete) auto
  let ?c4 = "?c3\<lparr>username := cv_user v, password := cv_pass v, password_len := n\<rparr>"
  have "dec_con_fields packet m L e (H, c) p = ((H2, ?c4), Ok (int e))"
    using bits(1) c(5) unfolding dec_con_fields_def prod.case Let_def ka at_state_simps d1(1) then_state_simps d2 d3(1) d4(1) by simp
  moreover have "con_is ?c4 v" using c(5-7) d3(3) d4(2) by (simp add: con_is_def)
  moreover have "holds H H1 (con_props ?c4) (cv_props v)" "holds H1 H2 (will_ptr ?c4) (will_list (cv_will v))"
    using d1(2) d3(2) by simp_all
  ultimately show ?thesis by blast
qed

lemma MqttDecode_Connect_complete:
  assumes H: "live_list H None []" "length (cv_props v) + length (will_list (cv_will v)) \<le> card (free_cells H)" and L: "rx_ok m L"
    and ok: "con_rule v" "con_dec_rule v" "cv_will v \<noteq> None \<longrightarrow> lwt_msg c \<noteq> None" "length (con_bytes v) \<le> 0x0FFFFFFF"
    and pk: "pk = type_flags 1 0 0 0 # vbi_bytes (length (con_bytes v)) @ con_bytes v" "blk m 0 (length pk) = pk" "int (length pk) \<le> L"
  shows "\<exists>H1 H' c'. MqttDecode_Connect H (Some m) L (Some c) = ((H', Some c'), Ok (int (length pk))) \<and> con_is c' v \<and>
    holds H H1 (con_props c') (cv_props v) \<and> holds H1 H' (will_ptr c') (will_list (cv_will v))"
proof -
  obtain h where h: "MqttDecode_FixedHeader m L 1 = Ok h" "fh_remain_len h = int (length (con_bytes v))"
    "blk m (fh_header_len h) (length (con_bytes v)) = con_bytes v" "int (fh_header_len h + length (con_bytes v)) \<le> L"
    "length pk = fh_header_len h + length (con_bytes v)" "\<not> L \<le> 0" "fh_header_len h + length (con_bytes v) \<le> length m"
    using header_read [OF L pk ok(4)] plain_flags [of 1] by auto
  define p where "p = fh_header_len h"
  define packet where "packet = protocol_head @ [cv_level v, con_flag_byte v] @ num_bytes (cv_keep v)"
  have lp: "length packet = 10" "packet ! 6 = cv_level v" "packet ! 7 = con_flag_byte v" "blk packet 8 2 = num_bytes (cv_keep v)"
    "blk packet 0 2 = num_bytes 4" "blk packet 2 4 = drop 2 protocol_head"
    by (simp_all add: packet_def protocol_head_def blk_def num_bytes_def)
  have cb: "con_bytes v = packet @ con_rest v" by (simp add: con_bytes_split packet_def)
  note s1 = blk_split [OF h(3) cb h(7), folded p_def, unfolded lp(1)]
  have le: "p + 10 \<le> length m" using h(7) lp(1) by (simp add: cb p_def)
  have rp: "rdn m p 10 = Ok packet" using s1(1) le by (simp add: rdn_def)
  have n4: "MqttDecode_Num packet 0 2 = Ok (4, 2)" using lp by (intro MqttDecode_Num_complete) auto
  define e where "e = p + length (con_bytes v)"
  define p10 where "p10 = p + (10 :: nat)"
  have ne: "nat (int p + int (length (con_bytes v))) = e" "int e \<le> L" "\<not> L < int p + int (length (con_bytes v))"
    "p10 + length (con_rest v) = e" "\<not> (int 10 > int (length (con_bytes v)) \<or> L < int p + int 10)"
    using h(4) lp(1) by (auto simp: e_def p_def cb p10_def)
  note bits = con_flag_bits [OF ok(1)]
  have cs: "con_level (con_start packet c) = cv_level v" "clean_session (con_start packet c) = of_bool (cv_clean v)"
    "enable_lwt (con_start packet c) = of_bool (cv_will v \<noteq> None)" "cv_will v \<noteq> None \<longrightarrow> lwt_msg (con_start packet c) \<noteq> None"
    using bits(2,3) ok(3) lp(2,3) by (auto simp: con_start_facts) (auto simp: con_start_def Let_def split: if_splits)
  obtain H1 H' c' where d: "dec_con_fields packet m L e (H, con_start packet c) p10 = ((H', c'), Ok (int e))" "con_is c' v"
    "holds H H1 (con_props c') (cv_props v)" "holds H1 H' (will_ptr c') (will_list (cv_will v))"
    using dec_con_fields_complete [OF H L ne(2) lp(1,3,4) con_start_facts(1-4) cs ok(1,2) s1(2) [folded p10_def] ne(4)] by blast
  have "MqttDecode_Connect H (Some m) L (Some c) = ((H', Some c'), Ok (int e))"
    using ne h(6) d(1) lp(6) unfolding MqttDecode_Connect_def option.case prod.case
    by (simp add: h(1,2) p_def [symmetric] Let_def rp n4 p10_def con_cleanup_def)
  then show ?thesis using d(2-4) h(5) by (intro exI [of _ H1] exI [of _ H'] exI [of _ c']) (simp add: e_def p_def)
qed

section \<open>The codec\<close>

text \<open>The structure as the encoder leaves it: a level of zero stands for the newest one.\<close>

definition con_norm :: "MqttConnect \<Rightarrow> MqttConnect" where
  "con_norm c = (if con_level c = 0 then c\<lparr>con_level := MQTT_CONNECT_PROTOCOL_LEVEL\<rparr> else c)"

lemma con_norm_wf: "con_wf H (con_norm c) = con_wf H c"
  by (simp add: con_norm_def con_wf_def)

lemma MqttEncode_Connect_norm:
  "client_id c = Some cid \<Longrightarrow> snd (MqttEncode_Connect H (Some m) tx_buf_len (Some c)) = enc_connect H m tx_buf_len (con_norm c) cid"
  "client_id (con_norm c) = client_id c"
  by (simp_all add: MqttEncode_Connect_def con_norm_def Let_def)

definition con_value :: "store \<Rightarrow> MqttConnect \<Rightarrow> con_val" where
  "con_value H c = con_val_of H (con_norm c)"

lemma con_enc_ok_rule: "con_enc_ok H (con_norm c) \<Longrightarrow> con_rule (con_value H c)"
  by (simp add: con_enc_ok_def con_value_def)

interpretation connect: packet_codec
  "\<lambda>(H, c) m tx_buf_len. snd (MqttEncode_Connect H (Some m) tx_buf_len (Some c))"
  "\<lambda>(D, d) m rx_buf_len. MqttDecode_Connect D (Some m) rx_buf_len d"
  "\<lambda>_. type_flags 1 0 0 0"
  "\<lambda>(H, c). con_bytes (con_value H c)"
  "\<lambda>(H, c). con_wf H c"
  "\<lambda>(H, c). con_enc_ok H (con_norm c)"
  "\<lambda>(D, d). live_list D None [] \<and> d \<noteq> None"
  "\<lambda>(H, c) (D, d). con_dec_rule (con_value H c) \<and> (cv_will (con_value H c) \<noteq> None \<longrightarrow> lwt_msg (the d) \<noteq> None) \<and>
     length (cv_props (con_value H c)) + length (will_list (cv_will (con_value H c))) \<le> card (free_cells D)"
  "\<lambda>(H, c) (D, _) (D', d). \<exists>d' D1. d = Some d' \<and> con_is d' (con_value H c) \<and>
     holds D D1 (con_props d') (cv_props (con_value H c)) \<and> holds D1 D' (will_ptr d') (will_list (cv_will (con_value H c)))"
  "\<lambda>(D, _) (D', _). released D D'"
proof (unfold_locales, goal_cases)
  case (1 s L m)
  obtain H c where s: "s = (H, c)" by fastforce
  have ok: "con_enc_ok H (con_norm c)" "con_wf H (con_norm c)" using 1 by (simp_all add: s con_norm_wf)
  then obtain cid where cid: "client_id c = Some cid" by (auto simp: con_enc_ok_def con_given_def MqttEncode_Connect_norm)
  show ?case using enc_connect_eq(1) [OF ok(2) _ 1(4) ok(1)] cid by (simp add: s MqttEncode_Connect_norm con_value_def)
next
  case (2 s L m)
  obtain H c where s: "s = (H, c)" by fastforce
  have wf: "con_wf H (con_norm c)" using 2 by (simp add: s con_norm_wf)
  show ?case
  proof (cases "client_id c")
    case None
    then show ?thesis by (simp add: s MqttEncode_Connect_def)
  next
    case (Some cid)
    note eq = enc_connect_eq [OF wf _ 2(3), of cid]
    have "\<exists>e. enc_connect H m L (con_norm c) cid = Err e"
    proof (cases "con_enc_ok H (con_norm c)")
      case True
      then have "L \<le> 0" using 2(2) by (simp add: s)
      then show ?thesis using eq(1) True Some send_packet_small [of L m] by (auto simp: MqttEncode_Connect_norm)
    qed (use eq(2) Some in \<open>auto simp: MqttEncode_Connect_norm\<close>)
    then show ?thesis using Some by (simp add: s MqttEncode_Connect_norm)
  qed
next
  case (3 s d m L pk)
  obtain H c where s: "s = (H, c)" by fastforce
  obtain D d0 where d: "d = (D, Some d0)" using 3(2) by (cases d) auto
  have f: "con_dec_rule (con_value H c)" "cv_will (con_value H c) \<noteq> None \<longrightarrow> lwt_msg d0 \<noteq> None"
    "length (cv_props (con_value H c)) + length (will_list (cv_will (con_value H c))) \<le> card (free_cells D)" "live_list D None []"
    using 3(2,3) by (simp_all add: s d)
  have r: "con_rule (con_value H c)" using 3(1) by (simp add: s con_enc_ok_rule)
  have n: "length (con_bytes (con_value H c)) \<le> 0x0FFFFFFF"
    "pk = type_flags 1 0 0 0 # vbi_bytes (length (con_bytes (con_value H c))) @ con_bytes (con_value H c)" using 3(5,6) by (simp_all add: s)
  from MqttDecode_Connect_complete [OF f(4,3) 3(4) r f(1,2) n 3(7,8)] show ?case unfolding s d prod.case by blast
next
  case (4 d m L d' x)
  obtain D d0 where d: "d = (D, Some d0)" using 4(1) by (cases d) auto
  have H: "live_list D None []" using 4(1) by (simp add: d)
  obtain D' r' y where r: "MqttDecode_Connect D (Some m) L (Some d0) = ((D', r'), y)" by (metis prod_cases3 prod.collapse)
  have "d' = (D', r')" "x = y" using 4(3) by (simp_all add: d r)
  then show ?case using MqttDecode_Connect_post [OF H 4(2), of d0] unfolding r d by (auto elim!: postE)
qed

text \<open>C25: what \<^verbatim>\<open>MqttEncode_Connect\<close> writes is decoded by \<^verbatim>\<open>MqttDecode_Connect\<close> to the same protocol level, clean
  session flag, keep alive time, client identifier, Will message, user name, password and both property lists,
  provided Authentication Data comes with a method, a Will has a topic and the receiver has a place for it.\<close>

theorem connect_round_trip:
  assumes "con_wf H c" "tx_buf_len \<le> int (length m)" "tx_buf_len < 2147483648"
    and "snd (MqttEncode_Connect H (Some m) tx_buf_len (Some c)) = Ok (m', k)"
    and "v = con_value H c" "con_dec_rule v" "cv_will v \<noteq> None \<longrightarrow> lwt_msg d \<noteq> None"
    and "live_list D None []" "length (cv_props v) + length (will_list (cv_will v)) \<le> card (free_cells D)"
  shows "\<exists>D1 D' d'. MqttDecode_Connect D (Some m') (int k) (Some d) = ((D', Some d'), Ok (int k)) \<and> con_is d' v \<and>
    holds D D1 (con_props d') (cv_props v) \<and> holds D1 D' (will_ptr d') (will_list (cv_will v))"
  using connect.round_trip [of "(H, c)" tx_buf_len m m' k "(D, Some d)"] assms
  by (cases "MqttDecode_Connect D (Some m') (int k) (Some d)") auto

text \<open>A structure that uses every field, with a Will topic of the reader's choice.\<close>

definition will_msg :: "byte list \<Rightarrow> MqttMessage" where
  "will_msg t = \<lparr>packet_id = 0, msg_type = 0, qos = MQTT_QOS_1, retain = 1, duplicate = 0, topic_name = Some t, topic_name_len = 0,
     total_len = 2, buffer = Some [0x68, 0x69], buffer_len = 2, buffer_pos = 0, buffer_new = 0, intBuf_len = 0, intBuf_pos = 0,
     msg_props = None, msg_level = 5\<rparr>"

definition full_connect :: "byte list \<Rightarrow> MqttConnect" where
  "full_connect t = \<lparr>keep_alive_sec = 60, clean_session = 1, client_id = Some [0x63, 0], con_level = 0, enable_lwt = 1,
     lwt_msg = Some (will_msg t), username = Some [0x75, 0], password = Some [0x70, 0], con_props = None, password_len = 0\<rparr>"

definition full_val :: "byte list \<Rightarrow> con_val" where
  "full_val u = \<lparr>cv_level = 5, cv_clean = True, cv_keep = 60, cv_props = [], cv_id = [0x63],
     cv_will = Some \<lparr>wv_qos = MQTT_QOS_1, wv_retain = True, wv_props = [], wv_topic = u, wv_payload = [0x68, 0x69]\<rparr>,
     cv_user = Some [0x75], cv_pass = Some [0x70]\<rparr>"

lemma full_connect_value: "con_value [] (full_connect t) = full_val (cstr_bytes t)"
  by (simp add: full_val_def con_value_def con_norm_def con_val_of_def will_val_of_def full_connect_def will_msg_def cstr_bytes_def pass_bytes_def)

lemma full_connect_wf: "con_wf [] (full_connect t)"
  by (simp add: con_wf_def full_connect_def will_msg_def will_wf_def)

lemma full_connect_enc:
  assumes "utf8_str (cstr_bytes t)" "no_wildcard (cstr_bytes t)" "length (cstr_bytes t) < 2"
  shows "snd (MqttEncode_Connect [] (Some (replicate 40 0)) 40 (Some (full_connect t))) =
    send_packet (replicate 40 0) 40 (type_flags 1 0 0 0) (con_bytes (full_val (cstr_bytes t)))"
proof -
  have u: "utf8_str [0x63]" "utf8_str [0x75]" by (simp_all add: utf8_str_def) code_simp+
  have "con_given (con_norm (full_connect t))"
    by (simp add: con_given_def con_norm_def full_connect_def will_given_def will_msg_def)
  then have "con_enc_ok [] (con_norm (full_connect t))" using assms u
    unfolding con_enc_ok_def con_value_def [symmetric] full_connect_value
    by (simp add: full_val_def con_rule_def con_enc_rule_def will_rule_def props_ok_def)
  then show ?thesis using connect.enc_ok [of "([], full_connect t)" 40 "replicate 40 0"] full_connect_wf by (simp add: full_connect_value)
qed

lemma full_val_bytes:
  "con_bytes (full_val u) = [0, 4, 0x4D, 0x51, 0x54, 0x54, 5, 0xEE, 0, 60, 0, 0, 1, 0x63, 0] @ str_bytes u @ [0, 2, 0x68, 0x69, 0, 1, 0x75, 0, 1, 0x70]"
proof -
  have "con_flag_byte (full_val []) = 0xEE" by code_simp
  then have "con_flag_byte (full_val u) = 0xEE" by (simp add: con_flag_byte_def full_val_def)
  then show ?thesis by (simp add: con_bytes_def full_val_def protocol_head_def num_bytes_def props_block_def props_bytes_def vbi_bytes.simps
    str_bytes_def opt_bytes_def will_bytes_def)
qed

theorem connect_round_trip_witness:
  "\<exists>m' k D' d'. snd (MqttEncode_Connect [] (Some (replicate 40 0)) 40 (Some (full_connect [0x77, 0]))) = Ok (m', k) \<and>
      MqttDecode_Connect (replicate 30 zero_prop) (Some m') (int k) (Some (full_connect [])) = ((D', Some d'), Ok (int k)) \<and>
      client_id d' = Some [0x63] \<and> keep_alive_sec d' = 60 \<and> username d' = Some [0x75] \<and> password d' = Some [0x70] \<and>
      (\<exists>w. lwt_msg d' = Some w \<and> topic_name w = Some [0x77] \<and> buffer w = Some [0x68, 0x69] \<and> qos w = MQTT_QOS_1)"
proof -
  let ?c = "full_connect [0x77, 0]"
  have c: "cstr_bytes [0x77, 0] = [0x77]" by (simp add: cstr_bytes_def)
  note v = full_connect_value [of "[0x77, 0]", unfolded c]
  have live: "live_list (replicate 30 zero_prop) None []" by (simp add: live_list_def)
  have u: "utf8_str [0x77]" by (simp add: utf8_str_def) code_simp
  have "\<exists>m' k. snd (MqttEncode_Connect [] (Some (replicate 40 0)) 40 (Some ?c)) = Ok (m', k)"
    using full_connect_enc [of "[0x77, 0]"] u unfolding c full_val_bytes
    by (simp add: no_wildcard_def send_packet_def Let_def vbi_bytes_small str_bytes_def)
  then obtain m' k where e: "snd (MqttEncode_Connect [] (Some (replicate 40 0)) 40 (Some ?c)) = Ok (m', k)" by blast
  have r: "con_dec_rule (con_value [] ?c)" "cv_will (con_value [] ?c) \<noteq> None \<longrightarrow> lwt_msg (full_connect []) \<noteq> None"
    "length (cv_props (con_value [] ?c)) + length (will_list (cv_will (con_value [] ?c))) \<le> card (free_cells (replicate 30 zero_prop))"
    unfolding v by (simp_all add: con_dec_rule_def auth_ok_def will_list_def full_connect_def full_val_def)
  have "(40 :: int) \<le> int (length (replicate 40 (0 :: byte)))" "(40 :: int) < 2147483648" by simp_all
  from connect_round_trip [OF full_connect_wf this e refl r(1,2) live r(3)] e show ?thesis
    unfolding v con_is_def will_is_def full_val_def by auto
qed

text \<open>C26: \<^verbatim>\<open>MqttDecode_Connect\<close> never reads outside the received bytes.  After an error no cell of the property
  pool is lost and none in use is changed; on success the bytes it consumed are the encoding of a value within
  the rules of the protocol, and the structure and its two property lists carry exactly that value.\<close>

theorem connect_decode_safe:
  assumes "rx_ok m L" "live_list H None []"
  shows "\<exists>H' c' r. MqttDecode_Connect H (Some m) L (Some c) = ((H', Some c'), r) \<and>
    ((\<exists>e. r = Err e \<and> released H H') \<or> (\<exists>k. r = Ok (int k) \<and> int k \<le> L \<and> con_read H m H' c' k))"
proof -
  obtain H' c0 r where d: "MqttDecode_Connect H (Some m) L (Some c) = ((H', c0), r)" by (metis prod_cases3 prod.collapse)
  from MqttDecode_Connect_post [OF assms(2,1), of c, unfolded d] show ?thesis unfolding d
    by (cases rule: postE) (auto, metis nat_0_le)
qed

theorem connect_decode_safe_witness:
  "\<exists>H' c' r. MqttDecode_Connect (replicate 30 zero_prop) (Some [0x10, 12, 0, 4, 0x4D, 0x51, 0x54, 0x54, 4, 0x02, 0, 60, 0, 0]) 14
     (Some (full_connect [])) = ((H', Some c'), r) \<and> r \<noteq> Fault"
proof -
  have "live_list (replicate 30 zero_prop) None []" by (simp add: live_list_def)
  from connect_decode_safe [OF _ this, of "[0x10, 12, 0, 4, 0x4D, 0x51, 0x54, 0x54, 4, 0x02, 0, 60, 0, 0]" 14 "full_connect []"]
  show ?thesis by (auto simp: rx_ok_def)
qed

end
