(* ===== verification/Mqtt_Socket.thy ===== *)
theory Mqtt_Socket
  imports Mqtt_Vbi
begin

text \<open>
  The socket layer, \<^verbatim>\<open>src/mqtt_socket.c\<close>, in a build without TLS, libcurl and MQTT-SN: \<^verbatim>\<open>MqttSocket_Init\<close>,
  \<^verbatim>\<open>MqttSocket_Connect\<close>, \<^verbatim>\<open>MqttSocket_Disconnect\<close>, and the transfers \<^verbatim>\<open>MqttSocket_Read\<close> and \<^verbatim>\<open>MqttSocket_Write\<close>, which
  resume at a saved position when the transport accepts or delivers only a part.

  The transport is the application's: its callbacks are fields of \<open>MqttNet\<close>, functions on a state \<open>'w\<close> of the
  outside world that nothing is known about.  A read callback returns its code and the bytes it stored.  The
  build option \<^verbatim>\<open>WOLFMQTT_NONBLOCK\<close> is the argument \<open>nb\<close>.  Results are the codes of the C functions; \<open>Fault\<close>
  is an access outside a buffer or a call of a missing callback.
\<close>

section \<open>State\<close>

record 'w MqttNet =
  net_connect :: "('w \<Rightarrow> byte list option \<Rightarrow> word16 \<Rightarrow> int \<Rightarrow> 'w \<times> int) option"
  net_read :: "('w \<Rightarrow> nat \<Rightarrow> int \<Rightarrow> 'w \<times> int \<times> byte list) option"
  net_write :: "('w \<Rightarrow> byte list \<Rightarrow> int \<Rightarrow> 'w \<times> int) option"
  net_disconnect :: "('w \<Rightarrow> 'w \<times> int) option"

text \<open>Position and total of a transfer are \<^verbatim>\<open>int\<close> in C; the position stays below the length of the transfer, and the total, which
  only reports progress, is taken without a bound.\<close>

record MqttSk =
  sk_pos :: nat
  sk_total :: nat

datatype MqttPkStat = MQTT_PK_BEGIN | MQTT_PK_READ_HEAD | MQTT_PK_READ

record MqttPkRead =
  pk_stat :: MqttPkStat
  pk_header_len :: int
  pk_remain_len :: int

record 'w MqttClient =
  cl_net :: "'w MqttNet option"
  cl_flags :: word32
  cl_packet :: MqttPkRead
  cl_read :: MqttSk
  cl_write :: MqttSk
  cl_packet_sz_max :: word32
  cl_cmd_timeout_ms :: int
  cl_keep_alive_sec :: word16
  cl_last_tx_time :: nat

abbreviation (input) "MQTT_CLIENT_FLAG_IS_CONNECTED \<equiv> (0x01 :: word32)"
abbreviation (input) "MQTT_CLIENT_FLAG_IS_TLS \<equiv> (0x02 :: word32)"
abbreviation (input) "MQTT_CLIENT_FLAG_CONNECT_SENT \<equiv> (0x20 :: word32)"
abbreviation (input) "MQTT_CLIENT_FLAG_DISCONNECT_SENT \<equiv> (0x40 :: word32)"
abbreviation (input) "MQTT_DEFAULT_PORT \<equiv> (1883 :: word16)"

section \<open>Operations\<close>

definition MqttClient_Flags :: "'w MqttClient \<Rightarrow> word32 \<Rightarrow> word32 \<Rightarrow> 'w MqttClient" where
  "MqttClient_Flags c msk flags = c\<lparr>cl_flags := (cl_flags c AND NOT msk) OR flags\<rparr>"

definition MqttSocket_Init :: "'w MqttClient option \<Rightarrow> 'w MqttNet option \<Rightarrow> 'w MqttClient option \<times> int" where
  "MqttSocket_Init client net =
     (case client of
        None \<Rightarrow> (None, err_code BAD_ARG)
      | Some c \<Rightarrow>
          (Some (MqttClient_Flags (c\<lparr>cl_net := net\<rparr>) (MQTT_CLIENT_FLAG_IS_CONNECTED OR MQTT_CLIENT_FLAG_IS_TLS) 0),
           case net of
             None \<Rightarrow> err_code BAD_ARG
           | Some n \<Rightarrow>
               if net_connect n \<noteq> None \<and> net_read n \<noteq> None \<and> net_write n \<noteq> None \<and> net_disconnect n \<noteq> None
               then 0 else err_code BAD_ARG))"

definition cb_write :: "'w MqttClient \<Rightarrow> ('w \<Rightarrow> byte list \<Rightarrow> int \<Rightarrow> 'w \<times> int) option" where
  "cb_write c = (case cl_net c of None \<Rightarrow> None | Some n \<Rightarrow> net_write n)"

definition cb_read :: "'w MqttClient \<Rightarrow> ('w \<Rightarrow> nat \<Rightarrow> int \<Rightarrow> 'w \<times> int \<times> byte list) option" where
  "cb_read c = (case cl_net c of None \<Rightarrow> None | Some n \<Rightarrow> net_read n)"

subsection \<open>Write\<close>

definition MqttSocket_WriteDo :: "'w \<Rightarrow> 'w MqttClient \<Rightarrow> mem \<Rightarrow> nat \<Rightarrow> nat \<Rightarrow> int \<Rightarrow> ('w \<times> int) outcome" where
  "MqttSocket_WriteDo w c buf p n timeout_ms =
     (case cb_write c of None \<Rightarrow> Fault | Some f \<Rightarrow> bnd (rdn buf p n) (\<lambda>bs. Ok (f w bs timeout_ms)))"

text \<open>\<open>rc\<close> bytes are transferred: the position and the total move on.\<close>

definition sk_step :: "nat \<Rightarrow> MqttSk \<Rightarrow> MqttSk" where
  "sk_step k s = s\<lparr>sk_pos := sk_pos s + k, sk_total := sk_total s + k\<rparr>"

definition write_once :: "'w \<Rightarrow> 'w MqttClient \<Rightarrow> mem \<Rightarrow> nat \<Rightarrow> int \<Rightarrow> ('w \<times> 'w MqttClient \<times> int) outcome" where
  "write_once w c buf n timeout_ms =
     bnd (MqttSocket_WriteDo w c buf (sk_pos (cl_write c)) (n - sk_pos (cl_write c)) timeout_ms) (\<lambda>(w', rc).
       if rc \<ge> 0 then
         let k = min (nat rc) (n - sk_pos (cl_write c)); c' = c\<lparr>cl_write := sk_step k (cl_write c)\<rparr> in
         Ok (w', c', if sk_pos (cl_write c') < n then err_code CONTINUE else int k)
       else Ok (w', c, rc))"

text \<open>The loop of the blocking build; the caller has checked that the position is inside the buffer.\<close>

function write_loop :: "'w \<Rightarrow> 'w MqttClient \<Rightarrow> mem \<Rightarrow> nat \<Rightarrow> int \<Rightarrow> ('w \<times> 'w MqttClient \<times> int) outcome" where
  "write_loop w c buf n timeout_ms =
     (if sk_pos (cl_write c) < n then
        bnd (MqttSocket_WriteDo w c buf (sk_pos (cl_write c)) (n - sk_pos (cl_write c)) timeout_ms) (\<lambda>(w', rc).
          if rc \<le> 0 then Ok (w', c, rc)
          else
            let k = min (nat rc) (n - sk_pos (cl_write c)); c' = c\<lparr>cl_write := sk_step k (cl_write c)\<rparr> in
            if sk_pos (cl_write c') < n then write_loop w' c' buf n timeout_ms else Ok (w', c', int k))
      else Fault)"
  by pat_completeness auto
termination
  by (relation "measure (\<lambda>(w, c, buf, n, t). n - sk_pos (cl_write c))") (auto simp: sk_step_def)

definition MqttSocket_Write ::
  "bool \<Rightarrow> 'w \<Rightarrow> 'w MqttClient \<Rightarrow> mem option \<Rightarrow> int \<Rightarrow> int \<Rightarrow> ('w \<times> 'w MqttClient \<times> int) outcome" where
  "MqttSocket_Write nb w c buf buf_len timeout_ms =
     (case buf of
        None \<Rightarrow> Ok (w, c, err_code BAD_ARG)
      | Some m \<Rightarrow>
          if cb_write c = None \<or> buf_len \<le> 0 then Ok (w, c, err_code BAD_ARG)
          else if int (sk_pos (cl_write c)) \<ge> buf_len then Ok (w, c, err_code OUT_OF_BUFFER)
          else bnd ((if nb then write_once else write_loop) w c m (nat buf_len) timeout_ms) (\<lambda>(w', c', rc).
            if rc > 0 then Ok (w', c'\<lparr>cl_write := (cl_write c')\<lparr>sk_pos := 0\<rparr>\<rparr>, int (sk_pos (cl_write c')))
            else Ok (w', c', rc)))"

subsection \<open>Read\<close>

text \<open>The buffer of a read begins at the offset \<open>off\<close> of \<open>m\<close>.\<close>

definition MqttSocket_ReadDo :: "'w \<Rightarrow> 'w MqttClient \<Rightarrow> mem \<Rightarrow> nat \<Rightarrow> nat \<Rightarrow> int \<Rightarrow> ('w \<times> mem \<times> int) outcome" where
  "MqttSocket_ReadDo w c m p n timeout_ms =
     (case cb_read c of
        None \<Rightarrow> Fault
      | Some f \<Rightarrow> (case f w n timeout_ms of (w', rc, bs) \<Rightarrow> bnd (wr m p bs) (\<lambda>m'. Ok (w', m', rc))))"

definition read_once :: "'w \<Rightarrow> 'w MqttClient \<Rightarrow> mem \<Rightarrow> nat \<Rightarrow> nat \<Rightarrow> int \<Rightarrow> ('w \<times> 'w MqttClient \<times> mem \<times> int) outcome" where
  "read_once w c m off n timeout_ms =
     bnd (MqttSocket_ReadDo w c m (off + sk_pos (cl_read c)) (n - sk_pos (cl_read c)) timeout_ms) (\<lambda>(w', m', rc).
       if rc \<ge> 0 then
         let k = min (nat rc) (n - sk_pos (cl_read c)); c' = c\<lparr>cl_read := sk_step k (cl_read c)\<rparr> in
         Ok (w', c', m', if sk_pos (cl_read c') < n then err_code CONTINUE else int k)
       else Ok (w', c, m', rc))"

function read_loop :: "'w \<Rightarrow> 'w MqttClient \<Rightarrow> mem \<Rightarrow> nat \<Rightarrow> nat \<Rightarrow> int \<Rightarrow> ('w \<times> 'w MqttClient \<times> mem \<times> int) outcome" where
  "read_loop w c m off n timeout_ms =
     (if sk_pos (cl_read c) < n then
        bnd (MqttSocket_ReadDo w c m (off + sk_pos (cl_read c)) (n - sk_pos (cl_read c)) timeout_ms) (\<lambda>(w', m', rc).
          if rc \<le> 0 then Ok (w', c, m', rc)
          else
            let k = min (nat rc) (n - sk_pos (cl_read c)); c' = c\<lparr>cl_read := sk_step k (cl_read c)\<rparr> in
            if sk_pos (cl_read c') < n then read_loop w' c' m' off n timeout_ms else Ok (w', c', m', int k))
      else Fault)"
  by pat_completeness auto
termination
  by (relation "measure (\<lambda>(w, c, m, off, n, t). n - sk_pos (cl_read c))") (auto simp: sk_step_def)

definition MqttSocket_Read ::
  "bool \<Rightarrow> 'w \<Rightarrow> 'w MqttClient \<Rightarrow> mem \<Rightarrow> nat \<Rightarrow> int \<Rightarrow> int \<Rightarrow> ('w \<times> 'w MqttClient \<times> mem \<times> int) outcome" where
  "MqttSocket_Read nb w c m off buf_len timeout_ms =
     (if cb_read c = None \<or> buf_len \<le> 0 then Ok (w, c, m, err_code BAD_ARG)
      else if int (sk_pos (cl_read c)) \<ge> buf_len then Ok (w, c, m, err_code OUT_OF_BUFFER)
      else bnd ((if nb then read_once else read_loop) w c m off (nat buf_len) timeout_ms) (\<lambda>(w', c', m', rc).
        if rc > 0 then Ok (w', c'\<lparr>cl_read := (cl_read c')\<lparr>sk_pos := 0\<rparr>\<rparr>, m', min (int (sk_pos (cl_read c'))) buf_len)
        else Ok (w', c', m', rc)))"

subsection \<open>Connect and disconnect\<close>

definition MqttSocket_Connect ::
  "'w \<Rightarrow> 'w MqttClient \<Rightarrow> byte list option \<Rightarrow> word16 \<Rightarrow> int \<Rightarrow> bool \<Rightarrow> 'w \<times> 'w MqttClient \<times> int" where
  "MqttSocket_Connect w c host port timeout_ms use_tls =
     (case (case cl_net c of None \<Rightarrow> None | Some n \<Rightarrow> net_connect n) of
        None \<Rightarrow> (w, c, err_code BAD_ARG)
      | Some f \<Rightarrow>
          if use_tls then (w, c, err_code BAD_ARG)
          else if cl_flags c AND MQTT_CLIENT_FLAG_IS_CONNECTED = 0 then
            (case f w host (if port = 0 then MQTT_DEFAULT_PORT else port) timeout_ms of
               (w', rc) \<Rightarrow>
                 if rc \<noteq> 0 then (w', c, rc)
                 else (w', MqttClient_Flags c (MQTT_CLIENT_FLAG_CONNECT_SENT OR MQTT_CLIENT_FLAG_DISCONNECT_SENT)
                        MQTT_CLIENT_FLAG_IS_CONNECTED, 0))
          else (w, c, 0))"

definition MqttSocket_Disconnect :: "'w \<Rightarrow> 'w MqttClient \<Rightarrow> 'w \<times> 'w MqttClient \<times> int" where
  "MqttSocket_Disconnect w c =
     (case (case cl_net c of None \<Rightarrow> (w, 0)
                           | Some n \<Rightarrow> (case net_disconnect n of None \<Rightarrow> (w, 0) | Some f \<Rightarrow> f w)) of
        (w', rc) \<Rightarrow>
          (w', MqttClient_Flags c (MQTT_CLIENT_FLAG_IS_CONNECTED OR MQTT_CLIENT_FLAG_CONNECT_SENT OR MQTT_CLIENT_FLAG_DISCONNECT_SENT) 0,
           if rc < 0 then err_code NETWORK else rc))"

end
