(* ===== verification/Packet_IO.thy ===== *)
theory Packet_IO
  imports Mqtt_Socket
begin

text \<open>
  Reading and writing whole packets: \<^verbatim>\<open>MqttPacket_Write\<close>, \<^verbatim>\<open>MqttPacket_Read\<close> and \<^verbatim>\<open>MqttPacket_HandleNetError\<close> of
  \<^verbatim>\<open>src/mqtt_packet.c\<close>.  The reader is a state machine over the fixed header and the rest of the packet
  that a partial transfer leaves and the next call enters again.
\<close>

section \<open>Operations\<close>

abbreviation (input) "MQTT_PACKET_HEADER_MIN_SIZE \<equiv> (2 :: nat)"
abbreviation (input) "MQTT_PACKET_MAX_LEN_BYTES \<equiv> (4 :: nat)"

text \<open>Without \<^verbatim>\<open>WOLFMQTT_DISCONNECT_CB\<close> the error is only passed on.\<close>

definition MqttPacket_HandleNetError :: "'w MqttClient \<Rightarrow> int \<Rightarrow> int" where
  "MqttPacket_HandleNetError client rc = rc"

definition MqttPacket_Write ::
  "bool \<Rightarrow> nat \<Rightarrow> 'w \<Rightarrow> 'w MqttClient \<Rightarrow> mem option \<Rightarrow> int \<Rightarrow> ('w \<times> 'w MqttClient \<times> int) outcome" where
  "MqttPacket_Write nb now w c tx_buf tx_buf_len =
     bnd (if cl_packet_sz_max c > 0 \<and> tx_buf_len > 0 \<and> u32 tx_buf_len > unat (cl_packet_sz_max c)
          then Ok (w, c, err_code SERVER_PROP)
          else MqttSocket_Write nb w c tx_buf tx_buf_len (cl_cmd_timeout_ms c)) (\<lambda>(w', c', rc).
       let rc = MqttPacket_HandleNetError c' rc in
       Ok (w', if rc = tx_buf_len \<and> cl_keep_alive_sec c' \<noteq> 0 then c'\<lparr>cl_last_tx_time := now\<rparr> else c', rc))"

type_synonym 'w reading = "'w \<times> 'w MqttClient \<times> mem"
type_synonym 'w read_result = "('w \<times> 'w MqttClient \<times> mem \<times> int) outcome"

definition set_pk :: "(MqttPkRead \<Rightarrow> MqttPkRead) \<Rightarrow> 'w MqttClient \<Rightarrow> 'w MqttClient" where
  "set_pk f c = c\<lparr>cl_packet := f (cl_packet c)\<rparr>"

text \<open>The three states: the rest of the packet, the length bytes, the first two bytes.\<close>

definition pk_read :: "bool \<Rightarrow> int \<Rightarrow> int \<Rightarrow> 'w \<Rightarrow> 'w MqttClient \<Rightarrow> mem \<Rightarrow> 'w read_result" where
  "pk_read nb rx_buf_len timeout_ms w c0 m =
     (let c = set_pk (pk_stat_update (\<lambda>_. MQTT_PK_READ)) c0;
          header_len = pk_header_len (cl_packet c);
          remain_read = min (pk_remain_len (cl_packet c)) (rx_buf_len - header_len) in
      if rx_buf_len < header_len then Ok (w, c, m, err_code OUT_OF_BUFFER)
      else
        bnd (if pk_remain_len (cl_packet c) > 0
             then MqttSocket_Read nb w c m (nat header_len) remain_read timeout_ms
             else Ok (w, c, m, 0)) (\<lambda>(w', c', m', rc).
          if pk_remain_len (cl_packet c) > 0 \<and> rc \<le> 0 then Ok (w', c', m', MqttPacket_HandleNetError c' rc)
          else if pk_remain_len (cl_packet c) > 0 \<and> rc > remain_read
          then Ok (w', c', m', MqttPacket_HandleNetError c' (err_code NETWORK))
          else
            let got = (if pk_remain_len (cl_packet c) > 0 then rc else remain_read) in
            Ok (w', set_pk (pk_stat_update (\<lambda>_. MQTT_PK_BEGIN)) c', m',
                min (pk_header_len (cl_packet c') + got) rx_buf_len)))"

text \<open>The loop over the length bytes: \<open>Inr i\<close> when the last of them is at index \<open>i\<close>, \<open>Inl rc\<close> for a return.\<close>

function head_loop :: "bool \<Rightarrow> int \<Rightarrow> int \<Rightarrow> nat \<Rightarrow> 'w \<Rightarrow> 'w MqttClient \<Rightarrow> mem \<Rightarrow> ('w \<times> 'w MqttClient \<times> mem \<times> (int + nat)) outcome" where
  "head_loop nb rx_buf_len timeout_ms i w c m =
     (if i < MQTT_PACKET_MAX_LEN_BYTES then
        bnd (rd m (1 + i)) (\<lambda>b.
          if b AND 0x80 = 0 then Ok (w, c, m, Inr i)
          else if i = MQTT_PACKET_MAX_LEN_BYTES - 1
          then Ok (w, c, m, Inl (MqttPacket_HandleNetError c (err_code MALFORMED_DATA)))
          else if pk_header_len (cl_packet c) \<ge> rx_buf_len then Ok (w, c, m, Inl (err_code OUT_OF_BUFFER))
          else
            bnd (MqttSocket_Read nb w c m (nat (pk_header_len (cl_packet c))) 1 timeout_ms) (\<lambda>(w', c', m', rc).
              if rc < 0 then Ok (w', c', m', Inl (MqttPacket_HandleNetError c' rc))
              else if rc \<noteq> 1 then Ok (w', c', m', Inl (MqttPacket_HandleNetError c' (err_code NETWORK)))
              else head_loop nb rx_buf_len timeout_ms (i + 1) w' (set_pk (pk_header_len_update (\<lambda>n. n + 1)) c') m'))
      else Ok (w, c, m, Inr i))"
  by pat_completeness auto
termination
  by (relation "measure (\<lambda>(nb, L, t, i, w, c, m). 4 - i)") auto

definition pk_read_head :: "bool \<Rightarrow> int \<Rightarrow> int \<Rightarrow> 'w \<Rightarrow> 'w MqttClient \<Rightarrow> mem \<Rightarrow> 'w read_result" where
  "pk_read_head nb rx_buf_len timeout_ms w c0 m =
     (let c = set_pk (pk_stat_update (\<lambda>_. MQTT_PK_READ_HEAD)) c0 in
      bnd (head_loop nb rx_buf_len timeout_ms (nat (pk_header_len (cl_packet c)) - MQTT_PACKET_HEADER_MIN_SIZE) w c m)
        (\<lambda>(w1, c1, m1, r).
          case r of
            Inl rc \<Rightarrow> Ok (w1, c1, m1, rc)
          | Inr i \<Rightarrow>
              let used = pk_header_len (cl_packet c1) - (int i + 1) in
              if rx_buf_len < used then Ok (w1, c1, m1, err_code OUT_OF_BUFFER)
              else
                (case MqttDecode_Vbi m1 1 (u32 (rx_buf_len - used)) of
                   Fault \<Rightarrow> Fault
                 | Err e \<Rightarrow> Ok (w1, c1, m1, MqttPacket_HandleNetError c1 (err_code e))
                 | Ok (remain_len, k) \<Rightarrow>
                     if unat remain_len > MQTT_PACKET_MAX_REMAIN_LEN
                     then Ok (w1, c1, m1, MqttPacket_HandleNetError c1 (err_code MALFORMED_DATA))
                     else pk_read nb rx_buf_len timeout_ms w1
                       (set_pk (\<lambda>p. p\<lparr>pk_remain_len := int (unat remain_len), pk_header_len := int (k + 1)\<rparr>) c1) m1)))"

definition pk_begin :: "bool \<Rightarrow> int \<Rightarrow> int \<Rightarrow> 'w \<Rightarrow> 'w MqttClient \<Rightarrow> mem \<Rightarrow> 'w read_result" where
  "pk_begin nb rx_buf_len timeout_ms w c0 m =
     (let c = set_pk (\<lambda>p. p\<lparr>pk_header_len := int MQTT_PACKET_HEADER_MIN_SIZE, pk_remain_len := 0\<rparr>) c0 in
      bnd (MqttSocket_Read nb w c m 0 (int MQTT_PACKET_HEADER_MIN_SIZE) timeout_ms) (\<lambda>(w1, c1, m1, rc).
        if rc < 0 then Ok (w1, c1, m1, MqttPacket_HandleNetError c1 rc)
        else if rc \<noteq> pk_header_len (cl_packet c1) then Ok (w1, c1, m1, MqttPacket_HandleNetError c1 (err_code NETWORK))
        else pk_read_head nb rx_buf_len timeout_ms w1 c1 m1))"

definition pk_switch :: "bool \<Rightarrow> int \<Rightarrow> int \<Rightarrow> 'w \<Rightarrow> 'w MqttClient \<Rightarrow> mem \<Rightarrow> 'w read_result" where
  "pk_switch nb rx_buf_len timeout_ms w c m =
     (case pk_stat (cl_packet c) of
        MQTT_PK_BEGIN \<Rightarrow> pk_begin nb rx_buf_len timeout_ms w c m
      | MQTT_PK_READ_HEAD \<Rightarrow> pk_read_head nb rx_buf_len timeout_ms w c m
      | MQTT_PK_READ \<Rightarrow> pk_read nb rx_buf_len timeout_ms w c m)"

definition MqttPacket_Read ::
  "bool \<Rightarrow> 'w \<Rightarrow> 'w MqttClient option \<Rightarrow> mem option \<Rightarrow> int \<Rightarrow> int \<Rightarrow> ('w \<times> 'w MqttClient option \<times> mem option \<times> int) outcome" where
  "MqttPacket_Read nb w client rx_buf rx_buf_len timeout_ms =
     (case (client, rx_buf) of
        (Some c, Some m) \<Rightarrow>
          if rx_buf_len < int MQTT_PACKET_MAX_LEN_BYTES + 1 then Ok (w, client, rx_buf, err_code OUT_OF_BUFFER)
          else bnd (pk_switch nb rx_buf_len timeout_ms w c m) (\<lambda>(w', c', m', rc). Ok (w', Some c', Some m', rc))
      | _ \<Rightarrow> Ok (w, client, rx_buf, err_code BAD_ARG))"

section \<open>Reading a packet that arrives in pieces\<close>

text \<open>
  What a read callback promises: while bytes are \<open>pending\<close> it delivers some of them, in order and at most as
  many as asked for, or it reports that none are there yet, which happens at most \<open>waits\<close> times.
\<close>

definition source_ok :: "('w \<Rightarrow> nat \<Rightarrow> int \<Rightarrow> 'w \<times> int \<times> byte list) \<Rightarrow> ('w \<Rightarrow> byte list) \<Rightarrow> ('w \<Rightarrow> nat) \<Rightarrow> bool" where
  "source_ok f pending waits \<longleftrightarrow> (\<forall>w n t w' rc bs. 0 < n \<longrightarrow> pending w \<noteq> [] \<longrightarrow> f w n t = (w', rc, bs) \<longrightarrow>
     ((rc = 0 \<or> rc = err_code CONTINUE) \<and> bs = [] \<and> pending w' = pending w \<and> waits w' < waits w) \<or>
     (0 < rc \<and> rc \<le> int n \<and> nat rc \<le> length (pending w) \<and> bs = take (nat rc) (pending w) \<and>
        pending w' = drop (nat rc) (pending w) \<and> waits w' \<le> waits w))"

lemma MqttSocket_Read_source:
  assumes src: "source_ok f pending waits" "cb_read c = Some f" and p: "sk_pos (cl_read c) = p" "p < n"
    and x: "pending w = x @ y" "length x = n - p" and m: "off + n \<le> length m"
  obtains (more) w' k where "k < n - p" "waits w' + (n - p - k) < waits w + (n - p)" "pending w' = drop k x @ y"
      "MqttSocket_Read True w c m off (int n) t = Ok (w', c\<lparr>cl_read := sk_step k (cl_read c)\<rparr>, splice_at m (off + p) (take k x), err_code CONTINUE)"
    | (all) w' where "waits w' \<le> waits w" "pending w' = y"
      "MqttSocket_Read True w c m off (int n) t =
         Ok (w', c\<lparr>cl_read := (sk_step (n - p) (cl_read c))\<lparr>sk_pos := 0\<rparr>\<rparr>, splice_at m (off + p) x, int n)"
proof -
  obtain w' rc bs where f: "f w (n - p) t = (w', rc, bs)" by (metis prod_cases3)
  have np: "0 < n - p" "pending w \<noteq> []" using p x by auto
  from src(1) [unfolded source_ok_def, rule_format, OF np f]
  consider (wait) "rc = 0 \<or> rc = err_code CONTINUE" "bs = []" "pending w' = pending w" "waits w' < waits w"
    | (got) k where "rc = int k" "0 < k" "k \<le> n - p" "bs = take k x" "pending w' = drop k x @ y" "waits w' \<le> waits w"
    using x zero_less_imp_eq_int by (cases "0 < rc") fastforce+
  then show thesis
  proof cases
    case wait
    have "MqttSocket_Read True w c m off (int n) t =
        Ok (w', c\<lparr>cl_read := sk_step 0 (cl_read c)\<rparr>, splice_at m (off + p) (take 0 x), err_code CONTINUE)"
      using wait(1,2) p m src(2) f
      by (auto simp: MqttSocket_Read_def read_once_def MqttSocket_ReadDo_def Let_def wr_def sk_step_def)
    then show thesis using more [of 0 w'] wait(3,4) x(1) p(2) by simp
  next
    case got
    have r: "MqttSocket_ReadDo w c m (off + p) (n - p) t = Ok (w', splice_at m (off + p) (take k x), int k)"
      using got(1,3,4) m p(2) src(2) f x(2) by (simp add: MqttSocket_ReadDo_def wr_def)
    show thesis
    proof (cases "k = n - p")
      case True
      then show thesis using all [of w'] got(5,6) x(2) p src(2) r
        by (simp add: MqttSocket_Read_def read_once_def Let_def sk_step_def)
    next
      case False
      then show thesis using more [of k w'] got(2,3,5,6) p src(2) r
        by (simp add: MqttSocket_Read_def read_once_def Let_def sk_step_def)
    qed
  qed
qed


text \<open>The position \<open>d\<close> inside the packet \<open>pk\<close>: so much of it is in the buffer, the rest is still pending.\<close>

definition rx_at :: "('w \<Rightarrow> byte list) \<Rightarrow> byte list \<Rightarrow> byte list \<Rightarrow> nat \<Rightarrow> 'w \<Rightarrow> mem \<Rightarrow> bool" where
  "rx_at pending pk rest d w m \<longleftrightarrow> d \<le> length pk \<and> take d m = take d pk \<and> pending w = drop d pk @ rest"

text \<open>The state of the machine at that position, for a header of \<open>hl\<close> bytes and \<open>n\<close> bytes behind it.\<close>

definition rx_state :: "nat \<Rightarrow> nat \<Rightarrow> nat \<Rightarrow> 'w MqttClient \<Rightarrow> bool" where
  "rx_state hl n d c \<longleftrightarrow>
     (pk_stat (cl_packet c) = MQTT_PK_BEGIN \<and> d = sk_pos (cl_read c) \<and> d < 2) \<or>
     (pk_stat (cl_packet c) = MQTT_PK_READ_HEAD \<and> sk_pos (cl_read c) = 0 \<and> pk_header_len (cl_packet c) = int d \<and> 2 \<le> d \<and> d < hl) \<or>
     (pk_stat (cl_packet c) = MQTT_PK_READ \<and> pk_header_len (cl_packet c) = int hl \<and> pk_remain_len (cl_packet c) = int n \<and>
        d = hl + sk_pos (cl_read c) \<and> sk_pos (cl_read c) < n)"

text \<open>One call: it returns the packet, or it asks to be called again from a later state.\<close>

definition rx_step ::
  "('w \<Rightarrow> nat \<Rightarrow> int \<Rightarrow> 'w \<times> int \<times> byte list) \<Rightarrow> ('w \<Rightarrow> byte list) \<Rightarrow> ('w \<Rightarrow> nat) \<Rightarrow> byte list \<Rightarrow> byte list \<Rightarrow>
   nat \<Rightarrow> nat \<Rightarrow> nat \<Rightarrow> nat \<Rightarrow> 'w read_result \<Rightarrow> bool" where
  "rx_step f pending waits pk rest hl n mu M res \<longleftrightarrow> (\<exists>w' c' m' rc. res = Ok (w', c', m', rc) \<and> length m' = M \<and> cb_read c' = Some f \<and>
     ((rc = int (length pk) \<and> rx_at pending pk rest (length pk) w' m' \<and> pk_stat (cl_packet c') = MQTT_PK_BEGIN \<and> sk_pos (cl_read c') = 0) \<or>
      (rc = err_code CONTINUE \<and> (\<exists>d. rx_at pending pk rest d w' m' \<and> rx_state hl n d c' \<and> waits w' + (length pk - d) < mu))))"

lemma rx_at_splice:
  assumes "rx_at pending pk rest d w m" "d + j \<le> length pk" "length pk \<le> length m" "pending w' = drop (d + j) pk @ rest"
  shows "rx_at pending pk rest (d + j) w' (splice_at m d (take j (drop d pk)))"
proof -
  have "take (d + j) (splice_at m d (take j (drop d pk))) = take d m @ take j (drop d pk)"
    using assms(2,3) by (simp add: splice_at_def take_add)
  then show ?thesis using assms by (simp add: rx_at_def take_add)
qed

lemma cb_read_update [simp]:
  "cb_read (c\<lparr>cl_read := r\<rparr>) = cb_read c" "cb_read (set_pk g c) = cb_read c"
  "cl_packet (set_pk g c) = g (cl_packet c)" "cl_read (set_pk g c) = cl_read c"
  by (simp_all add: cb_read_def set_pk_def)

text \<open>The rest of the packet.\<close>

lemma pk_read_step:
  assumes src: "source_ok f pending waits" "cb_read c = Some f" and at: "rx_at pending pk rest (hl + p) w m"
    and st: "pk_header_len (cl_packet c) = int hl" "pk_remain_len (cl_packet c) = int n" "sk_pos (cl_read c) = p" "p < n \<or> n = 0 \<and> p = 0"
    and len: "length pk = hl + n" "int (length pk) \<le> L" "L \<le> int (length m)" and mu: "waits w + (length pk - (hl + p)) \<le> mu"
  shows "rx_step f pending waits pk rest hl n mu (length m) (pk_read True L t w c m)"
proof (cases "n = 0")
  case True
  then show ?thesis using assms by (auto simp: pk_read_def Let_def rx_step_def)
next
  case False
  then have pn: "p < n" using st(4) by simp
  let ?c = "set_pk (pk_stat_update (\<lambda>_. MQTT_PK_READ)) c"
  have x: "pending w = drop (hl + p) pk @ rest" "length (drop (hl + p) pk) = n - p" using at len(1) by (simp_all add: rx_at_def)
  have src': "cb_read ?c = Some f" "sk_pos (cl_read ?c) = p" using src(2) st(3) by simp_all
  have m: "hl + n \<le> length m" "\<not> L < int hl" "min (int n) (L - int hl) = int n" using len by auto
  show ?thesis
  proof (rule MqttSocket_Read_source [OF src(1) src' pn x m(1), where t = t], goal_cases)
    case more: (1 w' k)
    have "rx_at pending pk rest (hl + p + k) w' (splice_at m (hl + p) (take k (drop (hl + p) pk)))"
      using more(1,3) len by (intro rx_at_splice [OF at]) (simp_all add: add.commute add.left_commute)
    then have "rx_at pending pk rest (hl + (p + k)) w' (splice_at m (hl + p) (take k (drop (hl + p) pk)))" by (simp add: add.assoc)
    then show ?thesis using more(1,2,4) st False m len mu unfolding rx_step_def pk_read_def Let_def
      by (auto simp: MqttPacket_HandleNetError_def rx_state_def sk_step_def src(2) intro!: exI [of _ "hl + (p + k)"])
  next
    case all: (2 w')
    have "rx_at pending pk rest (hl + p + (n - p)) w' (splice_at m (hl + p) (take (n - p) (drop (hl + p) pk)))"
      using all(2) pn len by (intro rx_at_splice [OF at]) simp_all
    then have "rx_at pending pk rest (length pk) w' (splice_at m (hl + p) (drop (hl + p) pk))" using len(1) pn by simp
    then show ?thesis using all(3) st False m len pn unfolding rx_step_def pk_read_def Let_def
      by (auto simp: src(2))
  qed
qed


lemma drop_join: "a \<le> b \<Longrightarrow> take (b - a) (drop a xs) @ drop b xs = drop a xs"
  using append_take_drop_id [of "b - a" "drop a xs"] by (simp del: append_take_drop_id)

lemma rx_at_nth: "rx_at pending pk rest d w m \<Longrightarrow> j < d \<Longrightarrow> m ! j = pk ! j"
  by (metis rx_at_def nth_take)

text \<open>The length bytes: all but the last have the continuation bit.\<close>

lemma vbi_bytes_cont: "j < length (vbi_bytes n) \<Longrightarrow> (vbi_bytes n ! j AND 0x80 = 0) = (Suc j = length (vbi_bytes n))"
proof (induction n arbitrary: j rule: vbi_bytes.induct)
  case (1 n)
  show ?case
  proof (cases "n < 128")
    case True
    then show ?thesis using 1(2) by (simp add: vbi_bytes_small byte_and_80 unat_byte_of_nat)
  next
    case False
    then have v: "vbi_bytes n = word_of_nat (n mod 128 + 128) # vbi_bytes (n div 128)" by (simp add: vbi_bytes.simps [of n])
    show ?thesis
    proof (cases j)
      case 0
      have "unat (word_of_nat (n mod 128 + 128) :: byte) = n mod 128 + 128" by (intro unat_byte_of_nat) simp
      then show ?thesis using 0 vbi_bytes_nonempty(2) [of "n div 128"] by (simp add: v byte_and_80)
    next
      case (Suc k)
      then show ?thesis using 1(1) [OF False, of k] 1(2) by (simp add: v)
    qed
  qed
qed

declare head_loop.simps [simp del]

lemma head_loop_step:
  assumes src: "source_ok f pending waits" and pk: "pk = tf # vbi_bytes n @ body" "hl = 1 + length (vbi_bytes n)" "n \<le> 0x0FFFFFFF"
    and len: "int (length pk) \<le> L" "L \<le> int M"
  shows "cb_read c = Some f \<Longrightarrow> rx_at pending pk rest (i + 2) w m \<Longrightarrow> pk_stat (cl_packet c) = MQTT_PK_READ_HEAD \<Longrightarrow> sk_pos (cl_read c) = 0 \<Longrightarrow>
    pk_header_len (cl_packet c) = int (i + 2) \<Longrightarrow> i + 2 \<le> hl \<Longrightarrow> length m = M \<Longrightarrow>
    \<exists>w' c' m' r. head_loop True L t i w c m = Ok (w', c', m', r) \<and> length m' = M \<and> cb_read c' = Some f \<and>
      ((r = Inl (err_code CONTINUE) \<and> (\<exists>d. rx_at pending pk rest d w' m' \<and> rx_state hl n d c' \<and>
          waits w' + (length pk - d) < waits w + (length pk - (i + 2)))) \<or>
       (r = Inr (hl - 2) \<and> rx_at pending pk rest hl w' m' \<and> pk_header_len (cl_packet c') = int hl \<and> sk_pos (cl_read c') = 0 \<and> waits w' \<le> waits w))"
proof (induction "hl - (i + 2)" arbitrary: i w c m)
  case 0
  then have i: "i + 2 = hl" "i < length (vbi_bytes n)" "i < 4" "i + 2 \<le> length m"
    using pk(2) vbi_bytes_length_4 [OF pk(3)] len by (auto simp: rx_at_def pk(1))
  have b: "rd m (1 + i) = Ok (vbi_bytes n ! i)" using i rx_at_nth [OF "0.prems"(2), of "1 + i"] by (simp add: rd_def pk(1) nth_append)
  have "vbi_bytes n ! i AND 0x80 = 0" using vbi_bytes_cont [OF i(2)] i(1) pk(2) by simp
  then have "head_loop True L t i w c m = Ok (w, c, m, Inr i)" unfolding head_loop.simps [of _ _ _ i] b using i(3) by simp
  then show ?case using "0.prems" i(1) by auto
next
  case (Suc k)
  then have i: "i + 2 < hl" "i < length (vbi_bytes n)" "i < 4" "i \<noteq> 4 - 1" "i + 2 < length pk"
    using pk(2) vbi_bytes_length_4 [OF pk(3)] by (auto simp: pk(1))
  have lm: "i + 2 + 1 \<le> length m" "\<not> L \<le> int (i + 2)" using i(5) len Suc.prems(7) by auto
  have b: "rd m (1 + i) = Ok (vbi_bytes n ! i)" using lm i(2) rx_at_nth [OF Suc.prems(2), of "1 + i"] by (simp add: rd_def pk(1) nth_append)
  have hn: "nat (pk_header_len (cl_packet c)) = i + 2" using Suc.prems(5) by simp
  have "vbi_bytes n ! i AND 0x80 \<noteq> 0" using vbi_bytes_cont [OF i(2)] i(1) pk(2) by simp
  then have h: "head_loop True L t i w c m =
      bnd (MqttSocket_Read True w c m (i + 2) 1 t) (\<lambda>(w', c', m', rc).
        if rc < 0 then Ok (w', c', m', Inl (MqttPacket_HandleNetError c' rc))
        else if rc \<noteq> 1 then Ok (w', c', m', Inl (MqttPacket_HandleNetError c' (err_code NETWORK)))
        else head_loop True L t (i + 1) w' (set_pk (pk_header_len_update (\<lambda>n. n + 1)) c') m')"
    unfolding head_loop.simps [of _ _ _ i] b bnd.simps hn using i(3,4) Suc.prems(5) lm(2) by simp
  have x: "pending w = take 1 (drop (i + 2) pk) @ (drop (i + 3) pk @ rest)" "length (take 1 (drop (i + 2) pk)) = 1 - 0"
    using Suc.prems(2) i(5) by (simp_all add: rx_at_def Cons_nth_drop_Suc [symmetric] eval_nat_numeral)
  show ?case
  proof (rule MqttSocket_Read_source [OF src Suc.prems(1,4) zero_less_one x lm(1), where t = t], goal_cases)
    case more: (1 w' j)
    then have "MqttSocket_Read True w c m (i + 2) 1 t = Ok (w', c\<lparr>cl_read := sk_step 0 (cl_read c)\<rparr>, m, err_code CONTINUE)"
      "rx_at pending pk rest (i + 2) w' m" "waits w' < waits w" using Suc.prems(2) x(1) by (simp_all add: rx_at_def)
    then show ?case using Suc.prems i(1) unfolding h
      by (auto simp: MqttPacket_HandleNetError_def rx_state_def sk_step_def intro!: exI [of _ "i + 2"])
  next
    case all: (2 w')
    let ?m = "splice_at m (i + 2) (take 1 (drop (i + 2) pk))"
    let ?c = "set_pk (pk_header_len_update (\<lambda>n. n + 1)) (c\<lparr>cl_read := (sk_step 1 (cl_read c))\<lparr>sk_pos := 0\<rparr>\<rparr>)"
    have r: "head_loop True L t i w c m = head_loop True L t (i + 1) w' ?c ?m" using all(3) unfolding h by simp
    have at: "rx_at pending pk rest (i + 1 + 2) w' ?m" using all(2) i(5) Suc.prems(2,7) len rx_at_splice [OF Suc.prems(2), of 1 w'] by (simp add: numeral_3_eq_3)
    have "length ?m = M" using lm(1) Suc.prems(7) i(5) by simp
    moreover have "k = hl - (i + 1 + 2)" "i + 1 + 2 \<le> hl" using Suc.hyps(2) i(1) by simp_all
    moreover have "cb_read ?c = Some f" "pk_stat (cl_packet ?c) = MQTT_PK_READ_HEAD" "sk_pos (cl_read ?c) = 0"
      "pk_header_len (cl_packet ?c) = int (i + 1 + 2)" using Suc.prems(1,3,5) by simp_all
    ultimately obtain w2 c2 m2 r2 where ih: "head_loop True L t (i + 1) w' ?c ?m = Ok (w2, c2, m2, r2)" "length m2 = M" "cb_read c2 = Some f"
      "(r2 = Inl (err_code CONTINUE) \<and> (\<exists>d. rx_at pending pk rest d w2 m2 \<and> rx_state hl n d c2 \<and> waits w2 + (length pk - d) < waits w' + (length pk - (i + 1 + 2)))) \<or>
       (r2 = Inr (hl - 2) \<and> rx_at pending pk rest hl w2 m2 \<and> pk_header_len (cl_packet c2) = int hl \<and> sk_pos (cl_read c2) = 0 \<and> waits w2 \<le> waits w')"
      using Suc.hyps(1) [of "i + 1" ?c w' ?m] at by blast
    have "waits w' + (length pk - (i + 1 + 2)) \<le> waits w + (length pk - (i + 2))" using all(1) by linarith
    then have "(r2 = Inl (err_code CONTINUE) \<and> (\<exists>d. rx_at pending pk rest d w2 m2 \<and> rx_state hl n d c2 \<and> waits w2 + (length pk - d) < waits w + (length pk - (i + 2)))) \<or>
       (r2 = Inr (hl - 2) \<and> rx_at pending pk rest hl w2 m2 \<and> pk_header_len (cl_packet c2) = int hl \<and> sk_pos (cl_read c2) = 0 \<and> waits w2 \<le> waits w)"
      using ih(4) all(1) by (meson order_less_le_trans order_trans)
    then show ?case using ih(1-3) unfolding r by blast
  qed
qed


lemma pk_read_head_step:
  assumes src: "source_ok f pending waits" "cb_read c = Some f" and at: "rx_at pending pk rest d w m"
    and pk: "pk = tf # vbi_bytes n @ body" "hl = 1 + length (vbi_bytes n)" "n \<le> 0x0FFFFFFF" "length body = n"
    and st: "sk_pos (cl_read c) = 0" "pk_header_len (cl_packet c) = int d" "2 \<le> d" "d \<le> hl"
    and len: "int (length pk) \<le> L" "L \<le> int (length m)" "L < 2147483648" and mu: "waits w + (length pk - d) \<le> mu"
  shows "rx_step f pending waits pk rest hl n mu (length m) (pk_read_head True L t w c m)"
proof -
  define c1 where "c1 = set_pk (pk_stat_update (\<lambda>_. MQTT_PK_READ_HEAD)) c"
  have d: "d - 2 + 2 = d" "nat (pk_header_len (cl_packet c1)) - 2 = d - 2" using st(2,3) by (simp_all add: c1_def)
  have s1: "cb_read c1 = Some f" "pk_stat (cl_packet c1) = MQTT_PK_READ_HEAD" "sk_pos (cl_read c1) = 0" "pk_header_len (cl_packet c1) = int d"
    using src(2) st by (simp_all add: c1_def)
  obtain w' c' m' r where h: "head_loop True L t (d - 2) w c1 m = Ok (w', c', m', r)" "length m' = length m" "cb_read c' = Some f"
    "(r = Inl (err_code CONTINUE) \<and> (\<exists>d'. rx_at pending pk rest d' w' m' \<and> rx_state hl n d' c' \<and> waits w' + (length pk - d') < waits w + (length pk - d))) \<or>
     (r = Inr (hl - 2) \<and> rx_at pending pk rest hl w' m' \<and> pk_header_len (cl_packet c') = int hl \<and> sk_pos (cl_read c') = 0 \<and> waits w' \<le> waits w)"
    using head_loop_step [OF src(1) pk(1-3) len(1,2), of c1 rest "d - 2" w m t, unfolded d(1), OF s1(1) at s1(2-4) st(4) refl] by blast
  from h(4) show ?thesis
  proof (elim disjE conjE exE, goal_cases)
    case (1 d')
    then show ?case using h(1-3) mu unfolding rx_step_def pk_read_head_def c1_def [symmetric] Let_def d(2) by auto
  next
    case 2
    have hl: "int hl - (int (hl - 2) + 1) = 1" "1 + length (vbi_bytes n) \<le> length m'"
      using st(3,4) len h(2) by (linarith, simp add: pk(1))
    have "blk m' 1 (length (vbi_bytes n)) = blk (take hl m') 1 (length (vbi_bytes n))" by (simp add: blk_def pk(2) drop_take)
    also have "\<dots> = vbi_bytes n" using 2(2) by (simp add: rx_at_def pk(1,2) blk_def)
    finally have v: "MqttDecode_Vbi m' 1 (u32 (L - 1)) = Ok (word_of_nat n, length (vbi_bytes n))"
      using hl len pk(3) by (intro MqttDecode_Vbi_complete) (auto simp: pk(1) pk(4))
    have n: "unat (word_of_nat n :: word32) = n" using pk(3) by (intro unat_word32_of_nat) simp
    define c2 where "c2 = set_pk (\<lambda>p. p\<lparr>pk_remain_len := int n, pk_header_len := int (length (vbi_bytes n) + 1)\<rparr>) c'"
    have "pk_read_head True L t w c m = pk_read True L t w' c2 m'"
      unfolding pk_read_head_def c1_def [symmetric] Let_def d(2) h(1) 2(1) bnd.simps prod.case sum.case 2(3) hl(1) v outcome.case n c2_def
      using len pk(3) by (simp add: pk(1))
    moreover have "rx_step f pending waits pk rest hl n mu (length m') (pk_read True L t w' c2 m')"
      using 2 h(2,3) len mu st(4) pk
      by (intro pk_read_step [OF src(1), where p = 0]) (auto simp: c2_def)
    ultimately show ?case using h(2) by simp
  qed
qed

lemma pk_switch_step:
  assumes src: "source_ok f pending waits" "cb_read c = Some f" and at: "rx_at pending pk rest d w m" "rx_state hl n d c"
    and pk: "pk = tf # vbi_bytes n @ body" "hl = 1 + length (vbi_bytes n)" "n \<le> 0x0FFFFFFF" "length body = n"
    and len: "int (length pk) \<le> L" "L \<le> int (length m)" "L < 2147483648"
  shows "rx_step f pending waits pk rest hl n (waits w + (length pk - d)) (length m) (pk_switch True L t w c m)"
proof -
  have "0 < length (vbi_bytes n)" by simp
  then have hl: "2 \<le> hl" "length pk = hl + n" unfolding pk by (linarith, simp add: pk(4))
  from at(2) show ?thesis unfolding rx_state_def
  proof (elim disjE conjE, goal_cases)
    case 1
    let ?c = "set_pk (\<lambda>p. p\<lparr>pk_header_len := int 2, pk_remain_len := 0\<rparr>) c"
    have x: "pending w = take (2 - d) (drop d pk) @ (drop 2 pk @ rest)" "length (take (2 - d) (drop d pk)) = 2 - d"
      using at(1) hl 1(3) append_take_drop_id [of "2 - d" "drop d pk"] by (simp_all add: rx_at_def add.commute del: append_take_drop_id)
    have m: "0 + 2 \<le> length m" using hl len by simp
    have s: "cb_read ?c = Some f" "sk_pos (cl_read ?c) = d" using src(2) 1(2) by simp_all
    show ?case unfolding pk_switch_def 1(1) pk_begin_def Let_def MqttPkStat.case
    proof (rule MqttSocket_Read_source [OF src(1) s 1(3) x m, where t = t], goal_cases)
      case more: (1 w' k)
      have "rx_at pending pk rest (d + k) w' (splice_at m d (take k (drop d pk)))"
        using more(1,3) hl len drop_join [of "d + k" 2 pk] by (intro rx_at_splice [OF at(1)]) (auto simp: drop_take add.commute)
      moreover have "take k (take (2 - d) (drop d pk)) = take k (drop d pk)" "length (splice_at m d (take k (drop d pk))) = length m"
        using more(1) m by simp_all
      ultimately show ?case using more 1 hl unfolding rx_step_def
        by (auto simp: MqttPacket_HandleNetError_def rx_state_def sk_step_def src(2) intro!: exI [of _ "d + k"])
    next
      case all: (2 w')
      have "rx_at pending pk rest (d + (2 - d)) w' (splice_at m d (take (2 - d) (drop d pk)))"
        using all(2) 1(3) hl len by (intro rx_at_splice [OF at(1)]) auto
      then have at2: "rx_at pending pk rest 2 w' (splice_at m d (take (2 - d) (drop d pk)))" using 1(3) by simp
      define m2 where "m2 = splice_at m d (take (2 - d) (drop d pk))"
      define c2 where "c2 = ?c\<lparr>cl_read := (sk_step (2 - d) (cl_read ?c))\<lparr>sk_pos := 0\<rparr>\<rparr>"
      have l: "length m2 = length m" using m 1(3) x(2) by (simp add: m2_def)
      have c2: "cb_read c2 = Some f" "sk_pos (cl_read c2) = 0" "pk_header_len (cl_packet c2) = int 2" using src(2) by (simp_all add: c2_def)
      have "waits w' + (length pk - 2) \<le> waits w + (length pk - d)" using all(1) 1(3) by linarith
      from pk_read_head_step [OF src(1) c2(1) at2 [folded m2_def] pk c2(2,3) order_refl hl(1) len(1) _ len(3) this] len(2)
      have "rx_step f pending waits pk rest hl n (waits w + (length pk - d)) (length m) (pk_read_head True L t w' c2 m2)" by (simp add: l)
      moreover have "MqttSocket_Read True w ?c m 0 (int 2) t = Ok (w', c2, m2, int 2)" using all(3) by (simp add: c2_def m2_def)
      ultimately show ?case using c2(3) by simp
    qed
  next
    case 2
    then show ?case using src at(1) pk len unfolding pk_switch_def 2(1) by (auto intro!: pk_read_head_step)
  next
    case 3
    then show ?case using src at(1) pk len hl unfolding pk_switch_def 3(1) by (auto intro!: pk_read_step [where p = "sk_pos (cl_read c)"])
  qed
qed


text \<open>The application calls again as long as it is told to continue.\<close>

fun read_again ::
  "nat \<Rightarrow> bool \<Rightarrow> 'w \<Rightarrow> 'w MqttClient option \<Rightarrow> mem option \<Rightarrow> int \<Rightarrow> int \<Rightarrow> ('w \<times> 'w MqttClient option \<times> mem option \<times> int) outcome" where
  "read_again 0 nb w client rx_buf rx_buf_len t = Ok (w, client, rx_buf, err_code CONTINUE)"
| "read_again (Suc k) nb w client rx_buf rx_buf_len t =
     bnd (MqttPacket_Read nb w client rx_buf rx_buf_len t) (\<lambda>(w', client', rx_buf', rc).
       if rc = err_code CONTINUE then read_again k nb w' client' rx_buf' rx_buf_len t else Ok (w', client', rx_buf', rc))"

lemma read_again_steps:
  assumes src: "source_ok f pending waits"
    and pk: "pk = tf # vbi_bytes n @ body" "hl = 1 + length (vbi_bytes n)" "n \<le> 0x0FFFFFFF" "length body = n"
    and len: "int (length pk) \<le> L" "L \<le> int M" "L < 2147483648" "5 \<le> L"
  shows "cb_read c = Some f \<Longrightarrow> rx_at pending pk rest d w m \<Longrightarrow> rx_state hl n d c \<Longrightarrow> length m = M \<Longrightarrow> waits w + (length pk - d) < k \<Longrightarrow>
    \<exists>w' c' m'. read_again k True w (Some c) (Some m) L t = Ok (w', Some c', Some m', int (length pk)) \<and>
      rx_at pending pk rest (length pk) w' m' \<and> pk_stat (cl_packet c') = MQTT_PK_BEGIN \<and> sk_pos (cl_read c') = 0"
proof (induction k arbitrary: w c m d)
  case (Suc k)
  have r: "MqttPacket_Read True w (Some c) (Some m) L t =
      bnd (pk_switch True L t w c m) (\<lambda>(w', c', m', rc). Ok (w', Some c', Some m', rc))" using len(4) by (simp add: MqttPacket_Read_def)
  have st: "rx_step f pending waits pk rest hl n (waits w + (length pk - d)) M (pk_switch True L t w c m)"
    using pk_switch_step [OF src Suc.prems(1-3) pk len(1) _ len(3), of t] Suc.prems(4) len(2) by simp
  then obtain w' c' m' rc where s: "pk_switch True L t w c m = Ok (w', c', m', rc)" "length m' = M" "cb_read c' = Some f"
    "(rc = int (length pk) \<and> rx_at pending pk rest (length pk) w' m' \<and> pk_stat (cl_packet c') = MQTT_PK_BEGIN \<and> sk_pos (cl_read c') = 0) \<or>
     (rc = err_code CONTINUE \<and> (\<exists>d'. rx_at pending pk rest d' w' m' \<and> rx_state hl n d' c' \<and> waits w' + (length pk - d') < waits w + (length pk - d)))"
    unfolding rx_step_def by blast
  from s(4) show ?case
  proof (elim disjE conjE exE, goal_cases)
    case 1
    then show ?case using s(1) by (simp add: r)
  next
    case (2 d')
    then have "waits w' + (length pk - d') < k" using Suc.prems(5) by linarith
    from Suc.IH [OF s(3) 2(2,3) s(2) this] show ?case using s(1) 2(1) by (simp add: r)
  qed
qed simp

text \<open>C15: in the non-blocking build a packet that arrives in pieces of any size, with pauses in between, is put together:
  if \<^verbatim>\<open>MqttPacket_Read\<close> is called again whenever it returns \<^verbatim>\<open>MQTT_CODE_CONTINUE\<close>, then after at most as many calls as
  there are pauses and bytes it returns the length of the packet, with exactly its bytes at the start of the
  buffer, no byte of the following packet consumed, and the reader in its initial state.\<close>

theorem packet_read_returns:
  assumes "source_ok f pending waits" "cb_read c = Some f" "pk_stat (cl_packet c) = MQTT_PK_BEGIN" "sk_pos (cl_read c) = 0"
    and "pending w = pk @ rest" "pk = tf # vbi_bytes (length body) @ body" "length body \<le> MQTT_PACKET_MAX_REMAIN_LEN"
    and "int (length pk) \<le> L" "5 \<le> L" "L \<le> int (length m)" "L < 2147483648" "waits w + length pk < k"
  shows "\<exists>w' c' m'. read_again k True w (Some c) (Some m) L t = Ok (w', Some c', Some m', int (length pk)) \<and>
    take (length pk) m' = pk \<and> pending w' = rest \<and> pk_stat (cl_packet c') = MQTT_PK_BEGIN \<and> sk_pos (cl_read c') = 0"
proof -
  have "rx_at pending pk rest 0 w m" using assms(5) by (simp add: rx_at_def)
  moreover have "rx_state (1 + length (vbi_bytes (length body))) (length body) 0 c" using assms(3,4) by (simp add: rx_state_def)
  ultimately show ?thesis
    using read_again_steps [OF assms(1,6) refl assms(7) refl assms(8,10,11,9,2), of rest 0 w m k t] assms(12) by (auto simp: rx_at_def)
qed

text \<open>A transport that delivers given pieces; an empty piece is a pause.\<close>

fun chunk_read :: "byte list list \<Rightarrow> nat \<Rightarrow> int \<Rightarrow> byte list list \<times> int \<times> byte list" where
  "chunk_read [] n t = ([], 0, [])"
| "chunk_read (b # bs) n t =
     (if b = [] then (bs, err_code CONTINUE, [])
      else (if length b \<le> n then bs else drop n b # bs, int (min n (length b)), take n b))"

lemma chunk_source: "source_ok chunk_read concat (\<lambda>w. length (filter (\<lambda>b. b = []) w))"
  unfolding source_ok_def
proof (intro allI impI, goal_cases)
  case (1 w n t w' rc bs)
  then show ?case by (cases w) (auto split: if_splits)
qed

definition chunk_client :: "byte list list MqttClient" where
  "chunk_client = \<lparr>cl_net = Some \<lparr>net_connect = None, net_read = Some chunk_read, net_write = None, net_disconnect = None\<rparr>, cl_flags = 1,
     cl_packet = \<lparr>pk_stat = MQTT_PK_BEGIN, pk_header_len = 0, pk_remain_len = 0\<rparr>, cl_read = \<lparr>sk_pos = 0, sk_total = 0\<rparr>,
     cl_write = \<lparr>sk_pos = 0, sk_total = 0\<rparr>, cl_packet_sz_max = 0, cl_cmd_timeout_ms = 1000, cl_keep_alive_sec = 0, cl_last_tx_time = 0\<rparr>"

theorem packet_read_returns_witness:
  "\<exists>w' c' m'. read_again 9 True [[0xC0], [], [0x00, 0xE0], [0x00]] (Some chunk_client) (Some (replicate 8 0)) 8 1000 =
      Ok (w', Some c', Some m', 2) \<and> take 2 m' = [0xC0, 0x00] \<and> concat w' = [0xE0, 0x00]"
proof -
  have c: "cb_read chunk_client = Some chunk_read" "pk_stat (cl_packet chunk_client) = MQTT_PK_BEGIN" "sk_pos (cl_read chunk_client) = 0"
    by (simp_all add: chunk_client_def cb_read_def)
  have p: "concat [[0xC0], [], [0x00, 0xE0], [0x00]] = [0xC0, 0x00] @ [0xE0, 0x00 :: byte]"
    "[0xC0, 0x00] = 0xC0 # vbi_bytes (length ([] :: byte list)) @ []" "length ([] :: byte list) \<le> 0x0FFFFFFF"
    by (simp_all add: vbi_bytes_small)
  have l: "int (length [0xC0, 0x00 :: byte]) \<le> 8" "(5 :: int) \<le> 8" "(8 :: int) \<le> int (length (replicate 8 (0 :: byte)))" "(8 :: int) < 2147483648"
    "length (filter (\<lambda>b. b = []) [[0xC0], [], [0x00, 0xE0], [0x00 :: byte]]) + length [0xC0, 0x00 :: byte] < 9" by simp_all
  have "int (length [0xC0, 0x00 :: byte]) = 2" "length [0xC0, 0x00 :: byte] = 2" by simp_all
  then show ?thesis using packet_read_returns [OF chunk_source c p l, of 1000] by metis
qed

section \<open>Safety for every transport\<close>

text \<open>The callback stores no more than it is asked for; its return code may be anything.\<close>

definition stores_at_most :: "('w \<Rightarrow> nat \<Rightarrow> int \<Rightarrow> 'w \<times> int \<times> byte list) \<Rightarrow> bool" where
  "stores_at_most f \<longleftrightarrow> (\<forall>w n t. length (snd (snd (f w n t))) \<le> n)"

text \<open>A read keeps the buffer inside its bounds, leaves the packet state alone and never reports more than asked for.\<close>

definition read_safe :: "('w \<Rightarrow> nat \<Rightarrow> int \<Rightarrow> 'w \<times> int \<times> byte list) \<Rightarrow> MqttPkRead \<Rightarrow> nat \<Rightarrow> int \<Rightarrow> 'w read_result \<Rightarrow> bool" where
  "read_safe f pk M L res \<longleftrightarrow> (\<exists>w' c' m' rc. res = Ok (w', c', m', rc) \<and> length m' = M \<and> cb_read c' = Some f \<and> cl_packet c' = pk \<and> rc \<le> L)"

lemma MqttSocket_ReadDo_safe:
  assumes "stores_at_most f" "cb_read c = Some f" "p + n \<le> length m"
  obtains w' m' rc where "MqttSocket_ReadDo w c m p n t = Ok (w', m', rc)" "length m' = length m"
proof -
  obtain w' rc bs where f: "f w n t = (w', rc, bs)" by (metis prod_cases3)
  have "length bs \<le> n" using assms(1) f unfolding stores_at_most_def by (metis snd_conv)
  then show thesis using that [of w' "splice_at m p bs" rc] assms(2,3) f by (simp add: MqttSocket_ReadDo_def wr_def)
qed

declare read_loop.simps [simp del]

lemma read_loop_safe:
  "stores_at_most f \<Longrightarrow> cb_read c = Some f \<Longrightarrow> cl_packet c = pk \<Longrightarrow> off + n \<le> length m \<Longrightarrow> length m = M \<Longrightarrow> sk_pos (cl_read c) < n \<Longrightarrow>
   read_safe f pk M (int n) (read_loop w c m off n t)"
proof (induction w c m off n t rule: read_loop.induct)
  case (1 w c m off n t)
  have b: "off + sk_pos (cl_read c) + (n - sk_pos (cl_read c)) \<le> length m" using "1.prems"(4,6) by simp
  obtain w' m' rc where r: "MqttSocket_ReadDo w c m (off + sk_pos (cl_read c)) (n - sk_pos (cl_read c)) t = Ok (w', m', rc)" "length m' = length m"
    using MqttSocket_ReadDo_safe [OF "1.prems"(1,2) b] by blast
  define k where "k = min (nat rc) (n - sk_pos (cl_read c))"
  define c' where "c' = c\<lparr>cl_read := sk_step k (cl_read c)\<rparr>"
  have c': "cb_read c' = Some f" "cl_packet c' = pk" "int k \<le> int n" using "1.prems"(2,3) by (simp_all add: c'_def k_def)
  have e: "read_loop w c m off n t = (if rc \<le> 0 then Ok (w', c, m', rc)
      else if sk_pos (cl_read c') < n then read_loop w' c' m' off n t else Ok (w', c', m', int k))"
    using "1.prems"(6) unfolding read_loop.simps [of w] r(1) bnd.simps prod.case Let_def k_def [symmetric] c'_def [symmetric] by simp
  show ?case
  proof (cases "rc \<le> 0 \<or> \<not> sk_pos (cl_read c') < n")
    case True
    then show ?thesis using e r(2) c' "1.prems" by (auto simp: read_safe_def)
  next
    case False
    then have "read_safe f pk M (int n) (read_loop w' c' m' off n t)"
      using "1.IH" [OF "1.prems"(6) r(1) refl refl _ k_def c'_def] "1.prems" c' r(2) by simp
    then show ?thesis using False e by simp
  qed
qed

lemma MqttSocket_Read_safe:
  assumes "stores_at_most f" "cb_read c = Some f" "off + nat L \<le> length m" "cl_packet c = pk"
  shows "read_safe f pk (length m) (max 0 L) (MqttSocket_Read nb w c m off L t)"
proof (cases "L \<le> 0 \<or> int (sk_pos (cl_read c)) \<ge> L")
  case True
  then show ?thesis using assms by (auto simp: MqttSocket_Read_def read_safe_def)
next
  case False
  define n where "n = nat L"
  have n: "L = int n" "sk_pos (cl_read c) < n" "off + n \<le> length m" using False assms(3) by (auto simp: n_def)
  have "read_safe f pk (length m) (int n) ((if nb then read_once else read_loop) w c m off n t)"
  proof (cases nb)
    case True
    have b: "off + sk_pos (cl_read c) + (n - sk_pos (cl_read c)) \<le> length m" using n by simp
    obtain w' m' rc where r: "MqttSocket_ReadDo w c m (off + sk_pos (cl_read c)) (n - sk_pos (cl_read c)) t = Ok (w', m', rc)" "length m' = length m"
      using MqttSocket_ReadDo_safe [OF assms(1,2) b] by blast
    then show ?thesis using True assms(2,4) by (auto simp: read_once_def Let_def read_safe_def)
  qed (use read_loop_safe [OF assms(1,2,4) n(3) refl n(2)] in simp)
  then show ?thesis using False assms(2) by (auto simp: MqttSocket_Read_def read_safe_def n_def)
qed


text \<open>The invariant of the reader between two calls, and what every call keeps.\<close>

definition rx_inv :: "MqttPkRead \<Rightarrow> bool" where
  "rx_inv p \<longleftrightarrow> (pk_stat p \<noteq> MQTT_PK_BEGIN \<longrightarrow> 2 \<le> pk_header_len p \<and> pk_header_len p \<le> 5) \<and>
     (pk_stat p = MQTT_PK_READ \<longrightarrow> 0 \<le> pk_remain_len p)"

definition rx_safe :: "('w \<Rightarrow> nat \<Rightarrow> int \<Rightarrow> 'w \<times> int \<times> byte list) \<Rightarrow> nat \<Rightarrow> int \<Rightarrow> 'w read_result \<Rightarrow> bool" where
  "rx_safe f M L res \<longleftrightarrow> (\<exists>w' c' m' rc. res = Ok (w', c', m', rc) \<and> length m' = M \<and> cb_read c' = Some f \<and> rx_inv (cl_packet c') \<and> rc \<le> L)"

lemma read_safeE:
  assumes "read_safe f pk M L res"
  obtains w' c' m' rc where "res = Ok (w', c', m', rc)" "length m' = M" "cb_read c' = Some f" "cl_packet c' = pk" "rc \<le> L"
  using assms by (auto simp: read_safe_def)

lemma pk_read_safe:
  assumes f: "stores_at_most f" "cb_read c = Some f" and p: "2 \<le> pk_header_len (cl_packet c)" "pk_header_len (cl_packet c) \<le> 5" "0 \<le> pk_remain_len (cl_packet c)"
    and L: "5 \<le> L" "L \<le> int (length m)"
  shows "rx_safe f (length m) L (pk_read nb L t w c m)"
proof -
  define c1 where "c1 = set_pk (pk_stat_update (\<lambda>_. MQTT_PK_READ)) c"
  define n where "n = min (pk_remain_len (cl_packet c1)) (L - pk_header_len (cl_packet c1))"
  have c1: "cb_read c1 = Some f" "rx_inv (cl_packet c1)" "pk_header_len (cl_packet c1) = pk_header_len (cl_packet c)"
    "pk_remain_len (cl_packet c1) = pk_remain_len (cl_packet c)" using f(2) p by (simp_all add: c1_def rx_inv_def)
  have n: "0 \<le> n" "nat (pk_header_len (cl_packet c1)) + nat n \<le> length m" "n \<le> L - pk_header_len (cl_packet c1)"
    using p L unfolding n_def c1(3,4) by auto
  have nl: "\<not> L < pk_header_len (cl_packet c1)" using p(2) L(1) c1(3) by simp
  show ?thesis
  proof (cases "pk_remain_len (cl_packet c1) > 0")
    case True
    from MqttSocket_Read_safe [OF f(1) c1(1) n(2) refl, of nb w t]
    obtain w' c' m' rc where r: "MqttSocket_Read nb w c1 m (nat (pk_header_len (cl_packet c1))) n t = Ok (w', c', m', rc)"
      "length m' = length m" "cb_read c' = Some f" "cl_packet c' = cl_packet c1" "rc \<le> max 0 n" by (elim read_safeE)
    show ?thesis using True r n c1 L(1) nl unfolding rx_safe_def pk_read_def Let_def c1_def [symmetric] n_def [symmetric]
      by (auto simp: MqttPacket_HandleNetError_def rx_inv_def)
  next
    case False
    then show ?thesis using n c1 nl unfolding rx_safe_def pk_read_def Let_def c1_def [symmetric] n_def [symmetric]
      by (auto simp: rx_inv_def)
  qed
qed

lemma head_loop_safe:
  "stores_at_most f \<Longrightarrow> cb_read c = Some f \<Longrightarrow> pk_stat (cl_packet c) = MQTT_PK_READ_HEAD \<Longrightarrow> pk_header_len (cl_packet c) = int i + 2 \<Longrightarrow> i \<le> 3 \<Longrightarrow>
   5 \<le> L \<Longrightarrow> L \<le> int M \<Longrightarrow> length m = M \<Longrightarrow>
   \<exists>w' c' m' r. head_loop nb L t i w c m = Ok (w', c', m', r) \<and> length m' = M \<and> cb_read c' = Some f \<and> pk_stat (cl_packet c') = MQTT_PK_READ_HEAD \<and>
     2 \<le> pk_header_len (cl_packet c') \<and> pk_header_len (cl_packet c') \<le> 5 \<and>
     (case r of Inl rc \<Rightarrow> rc \<le> L | Inr j \<Rightarrow> pk_header_len (cl_packet c') = int j + 2)"
proof (induction nb L t i w c m rule: head_loop.induct)
  case (1 nb L t i w c m)
  have b: "rd m (1 + i) = Ok (m ! (1 + i))" "i < 4" using "1.prems"(5-8) by (auto simp: rd_def)
  show ?case
  proof (cases "m ! (1 + i) AND 0x80 = 0 \<or> i = 3 \<or> pk_header_len (cl_packet c) \<ge> L")
    case True
    then show ?thesis using b "1.prems" unfolding head_loop.simps [of nb L t i] b(1) bnd.simps by (auto simp: MqttPacket_HandleNetError_def)
  next
    case False
    have off: "nat (pk_header_len (cl_packet c)) + nat 1 \<le> length m" using False "1.prems"(4,7,8) by auto
    from MqttSocket_Read_safe [OF "1.prems"(1,2) off refl, of nb w t]
    obtain w' c' m' rc where r: "MqttSocket_Read nb w c m (nat (pk_header_len (cl_packet c))) 1 t = Ok (w', c', m', rc)"
      "length m' = length m" "cb_read c' = Some f" "cl_packet c' = cl_packet c" "rc \<le> max 0 1" by (elim read_safeE)
    define c2 where "c2 = set_pk (pk_header_len_update (\<lambda>n. n + 1)) c'"
    have e: "head_loop nb L t i w c m = (if rc < 0 then Ok (w', c', m', Inl rc) else if rc \<noteq> 1 then Ok (w', c', m', Inl (err_code NETWORK))
        else head_loop nb L t (i + 1) w' c2 m')"
      using False b(2) unfolding head_loop.simps [of nb L t i] b(1) r(1) bnd.simps prod.case c2_def by (simp add: MqttPacket_HandleNetError_def)
    show ?thesis
    proof (cases "rc = 1")
      case True
      have c2: "cb_read c2 = Some f" "pk_stat (cl_packet c2) = MQTT_PK_READ_HEAD" "pk_header_len (cl_packet c2) = int (i + 1) + 2"
        using r(3,4) "1.prems"(3,4) by (simp_all add: c2_def)
      have i: "i + 1 \<le> 3" using False b(2) by auto
      from "1.IH" [OF b(2,1) _ _ _ r(1) refl refl refl, unfolded c2_def [symmetric], OF _ _ _ _ _ "1.prems"(1) c2 i "1.prems"(6,7)] False True r(2) "1.prems"(8)
      show ?thesis unfolding e by simp
    next
      case False
      then show ?thesis using e r "1.prems" by auto
    qed
  qed
qed

lemma pk_read_head_safe:
  assumes f: "stores_at_most f" "cb_read c = Some f" and p: "2 \<le> pk_header_len (cl_packet c)" "pk_header_len (cl_packet c) \<le> 5"
    and L: "5 \<le> L" "L \<le> int (length m)" "L < 2147483648"
  shows "rx_safe f (length m) L (pk_read_head nb L t w c m)"
proof -
  define c1 where "c1 = set_pk (pk_stat_update (\<lambda>_. MQTT_PK_READ_HEAD)) c"
  define i where "i = nat (pk_header_len (cl_packet c1)) - 2"
  have c1: "cb_read c1 = Some f" "pk_stat (cl_packet c1) = MQTT_PK_READ_HEAD" "pk_header_len (cl_packet c1) = int i + 2" "i \<le> 3"
    using f(2) p by (simp_all add: c1_def i_def)
  obtain w' c' m' r where h: "head_loop nb L t i w c1 m = Ok (w', c', m', r)" "length m' = length m" "cb_read c' = Some f"
    "pk_stat (cl_packet c') = MQTT_PK_READ_HEAD" "2 \<le> pk_header_len (cl_packet c')" "pk_header_len (cl_packet c') \<le> 5"
    "case r of Inl rc \<Rightarrow> rc \<le> L | Inr j \<Rightarrow> pk_header_len (cl_packet c') = int j + 2"
    using head_loop_safe [OF f(1) c1 L(1,2) refl, of nb t w] by blast
  show ?thesis
  proof (cases r)
    case (Inl rc)
    then show ?thesis using h unfolding rx_safe_def pk_read_head_def c1_def [symmetric] i_def [symmetric] Let_def by (simp add: rx_inv_def)
  next
    case (Inr j)
    have u: "pk_header_len (cl_packet c') - (int j + 1) = 1" "u32 (L - 1) = nat (L - 1)" using h(7) Inr L by simp_all
    have e: "pk_read_head nb L t w c m =
       (case MqttDecode_Vbi m' 1 (nat (L - 1)) of Fault \<Rightarrow> Fault
        | Err e \<Rightarrow> Ok (w', c', m', err_code e)
        | Ok (n, k) \<Rightarrow> if unat n > 0x0FFFFFFF then Ok (w', c', m', err_code MALFORMED_DATA)
            else pk_read nb L t w' (set_pk (\<lambda>p. p\<lparr>pk_remain_len := int (unat n), pk_header_len := int (k + 1)\<rparr>) c') m')"
      unfolding pk_read_head_def c1_def [symmetric] i_def [symmetric] Let_def h(1) Inr bnd.simps prod.case sum.case u MqttPacket_HandleNetError_def
      using L(1) by simp
    have inv: "rx_inv (cl_packet c')" using h(4-6) by (simp add: rx_inv_def)
    have nf: "MqttDecode_Vbi m' 1 (nat (L - 1)) \<noteq> Fault" using L h(2) by (intro MqttDecode_Vbi_no_fault) simp
    show ?thesis
    proof (cases "MqttDecode_Vbi m' 1 (nat (L - 1))")
      case (Err x)
      then show ?thesis using e h(2,3) inv L(1) err_code_neg [of x] by (simp add: rx_safe_def)
    next
      case (Ok v)
      obtain n k where v: "v = (n, k)" by fastforce
      define c2 where "c2 = set_pk (\<lambda>p. p\<lparr>pk_remain_len := int (unat n), pk_header_len := int (k + 1)\<rparr>) c'"
      have s: "0 < k" "k \<le> 4" "\<not> unat n > 0x0FFFFFFF" using MqttDecode_Vbi_sound [OF Ok [unfolded v]] by simp_all
      have "rx_safe f (length m') L (pk_read nb L t w' c2 m')" using s h(2,3) L by (intro pk_read_safe [OF f(1)]) (simp_all add: c2_def)
      then show ?thesis unfolding e Ok v outcome.case prod.case c2_def [symmetric] if_not_P [OF s(3)] by (simp add: h(2))
    qed (use nf in simp)
  qed
qed

text \<open>C16: whatever codes the transport returns, \<^verbatim>\<open>MqttPacket_Read\<close> never writes outside the receive buffer as long as the
  transport stores no more bytes than it is asked for, it keeps the invariant of its state, so that it may be
  called again after any result, and it never reports more bytes than the buffer holds; in both builds.\<close>

theorem packet_read_safe:
  assumes "stores_at_most f" "cb_read c = Some f" "rx_inv (cl_packet c)" "L \<le> int (length m)" "L < 2147483648"
  shows "\<exists>w' c' m' rc. MqttPacket_Read nb w (Some c) (Some m) L t = Ok (w', Some c', Some m', rc) \<and> length m' = length m \<and>
    cb_read c' = Some f \<and> rx_inv (cl_packet c') \<and> (5 \<le> L \<longrightarrow> rc \<le> L)"
proof (cases "5 \<le> L")
  case True
  have "rx_safe f (length m) L (pk_switch nb L t w c m)"
  proof (cases "pk_stat (cl_packet c)")
    case MQTT_PK_BEGIN
    let ?c = "set_pk (\<lambda>p. p\<lparr>pk_header_len := int 2, pk_remain_len := 0\<rparr>) c"
    have o: "0 + nat (int 2) \<le> length m" "cb_read ?c = Some f" using True assms by auto
    from MqttSocket_Read_safe [OF assms(1) o(2,1) refl, of nb w t]
    obtain w' c' m' rc where r: "MqttSocket_Read nb w ?c m 0 (int 2) t = Ok (w', c', m', rc)"
      "length m' = length m" "cb_read c' = Some f" "cl_packet c' = cl_packet ?c" "rc \<le> max 0 (int 2)" by (elim read_safeE)
    have "rx_safe f (length m') L (pk_read_head nb L t w' c' m')"
      using assms(1,4,5) r True by (intro pk_read_head_safe) auto
    then show ?thesis using r True MQTT_PK_BEGIN unfolding pk_switch_def pk_begin_def Let_def
      by (auto simp: rx_safe_def rx_inv_def MqttPacket_HandleNetError_def)
  qed (use assms True in \<open>auto simp: pk_switch_def rx_inv_def intro!: pk_read_head_safe pk_read_safe\<close>)
  then show ?thesis using True by (auto simp: MqttPacket_Read_def rx_safe_def)
qed (use assms in \<open>auto simp: MqttPacket_Read_def\<close>)

theorem packet_read_safe_witness:
  "\<exists>w' c' m' rc. MqttPacket_Read False [[0xC0], [], [0xFF, 0xFF]] (Some chunk_client) (Some (replicate 5 0)) 5 0 = Ok (w', Some c', Some m', rc) \<and>
     length m' = 5 \<and> rc \<le> 5"
proof -
  have "stores_at_most chunk_read" unfolding stores_at_most_def
  proof (intro allI, goal_cases)
    case (1 w n t)
    show ?case by (cases w) auto
  qed
  moreover have "cb_read chunk_client = Some chunk_read" "rx_inv (cl_packet chunk_client)" by (simp_all add: chunk_client_def cb_read_def rx_inv_def)
  ultimately show ?thesis using packet_read_safe [of chunk_read chunk_client 5 "replicate 5 0" False "[[0xC0], [], [0xFF, 0xFF]]" 0] by fastforce
qed


section \<open>Writing a packet in pieces\<close>

text \<open>What a write callback promises: it takes a first part of the bytes, or reports that it cannot take any yet, at most \<open>waits\<close> times.\<close>

definition sink_ok :: "('w \<Rightarrow> byte list \<Rightarrow> int \<Rightarrow> 'w \<times> int) \<Rightarrow> ('w \<Rightarrow> byte list) \<Rightarrow> ('w \<Rightarrow> nat) \<Rightarrow> bool" where
  "sink_ok f sent waits \<longleftrightarrow> (\<forall>w bs t w' rc. bs \<noteq> [] \<longrightarrow> f w bs t = (w', rc) \<longrightarrow>
     ((rc = 0 \<or> rc = err_code CONTINUE) \<and> sent w' = sent w \<and> waits w' < waits w) \<or>
     (0 < rc \<and> nat rc \<le> length bs \<and> sent w' = sent w @ take (nat rc) bs \<and> waits w' \<le> waits w))"

fun write_again :: "nat \<Rightarrow> bool \<Rightarrow> nat \<Rightarrow> 'w \<Rightarrow> 'w MqttClient \<Rightarrow> mem option \<Rightarrow> int \<Rightarrow> ('w \<times> 'w MqttClient \<times> int) outcome" where
  "write_again 0 nb now w c tx_buf tx_buf_len = Ok (w, c, err_code CONTINUE)"
| "write_again (Suc k) nb now w c tx_buf tx_buf_len =
     bnd (MqttPacket_Write nb now w c tx_buf tx_buf_len) (\<lambda>(w', c', rc).
       if rc = err_code CONTINUE then write_again k nb now w' c' tx_buf tx_buf_len else Ok (w', c', rc))"

lemma cb_write_update [simp]: "cb_write (c\<lparr>cl_write := r\<rparr>) = cb_write c" "cb_write (c\<lparr>cl_last_tx_time := t\<rparr>) = cb_write c"
  by (simp_all add: cb_write_def)

lemma MqttSocket_Write_sink:
  assumes snk: "sink_ok f sent waits" "cb_write c = Some f" and p: "sk_pos (cl_write c) = p" "p < n" and m: "n \<le> length m"
  obtains (more) w' k where "k < n - p" "waits w' + (n - p - k) < waits w + (n - p)" "sent w' = sent w @ take k (drop p m)"
      "MqttSocket_Write True w c (Some m) (int n) t = Ok (w', c\<lparr>cl_write := sk_step k (cl_write c)\<rparr>, err_code CONTINUE)"
    | (all) w' where "sent w' = sent w @ take (n - p) (drop p m)"
      "MqttSocket_Write True w c (Some m) (int n) t = Ok (w', c\<lparr>cl_write := (sk_step (n - p) (cl_write c))\<lparr>sk_pos := 0\<rparr>\<rparr>, int n)"
proof -
  obtain w' rc where f: "f w (blk m p (n - p)) t = (w', rc)" by fastforce
  have l: "length (blk m p (n - p)) = n - p" using m p by simp
  then have ne: "blk m p (n - p) \<noteq> []" using p(2) by (metis diff_is_0_eq leD list.size(3))
  have r: "MqttSocket_WriteDo w c m p (n - p) t = Ok (w', rc)" using snk(2) m p(2) f by (simp add: MqttSocket_WriteDo_def rdn_def)
  from snk(1) [unfolded sink_ok_def, rule_format, OF ne f]
  consider (wait) "rc = 0 \<or> rc = err_code CONTINUE" "sent w' = sent w" "waits w' < waits w"
    | (got) k where "rc = int k" "0 < k" "k \<le> n - p" "sent w' = sent w @ take k (drop p m)" "waits w' \<le> waits w"
    using zero_less_imp_eq_int by (cases "0 < rc") (fastforce simp: l blk_def)+
  then show thesis
  proof cases
    case wait
    then have "MqttSocket_Write True w c (Some m) (int n) t = Ok (w', c\<lparr>cl_write := sk_step 0 (cl_write c)\<rparr>, err_code CONTINUE)"
      using p snk(2) r by (auto simp: MqttSocket_Write_def write_once_def Let_def sk_step_def)
    then show thesis using more [of 0 w'] wait p(2) by simp
  next
    case got
    show thesis
    proof (cases "k = n - p")
      case True
      then show thesis using all [of w'] got p snk(2) r by (simp add: MqttSocket_Write_def write_once_def Let_def sk_step_def)
    next
      case False
      then show thesis using more [of k w'] got p snk(2) r by (simp add: MqttSocket_Write_def write_once_def Let_def sk_step_def)
    qed
  qed
qed

lemma write_again_steps:
  assumes snk: "sink_ok f sent waits" and m: "n \<le> length m" "n < 4294967296"
  shows "cb_write c = Some f \<Longrightarrow> sk_pos (cl_write c) = p \<Longrightarrow> p < n \<Longrightarrow> sent w = base @ take p m \<Longrightarrow>
    cl_packet_sz_max c = 0 \<or> n \<le> unat (cl_packet_sz_max c) \<Longrightarrow> waits w + (n - p) < k \<Longrightarrow>
    \<exists>w' c'. write_again k True now w c (Some m) (int n) = Ok (w', c', int n) \<and> sent w' = base @ take n m \<and> sk_pos (cl_write c') = 0"
proof (induction k arbitrary: w c p)
  case (Suc k)
  have sz: "\<not> (cl_packet_sz_max c > 0 \<and> int n > 0 \<and> u32 (int n) > unat (cl_packet_sz_max c))" using Suc.prems(5) m(2) by auto
  have r: "MqttPacket_Write True now w c (Some m) (int n) = bnd (MqttSocket_Write True w c (Some m) (int n) (cl_cmd_timeout_ms c)) (\<lambda>(w', c', rc).
      Ok (w', if rc = int n \<and> cl_keep_alive_sec c' \<noteq> 0 then c'\<lparr>cl_last_tx_time := now\<rparr> else c', rc))"
    unfolding MqttPacket_Write_def if_not_P [OF sz] MqttPacket_HandleNetError_def Let_def ..
  show ?case
  proof (rule MqttSocket_Write_sink [OF snk Suc.prems(1-3) m(1), where w = w and t = "cl_cmd_timeout_ms c"], goal_cases)
    case more: (1 w' j)
    have "sent w' = base @ take (p + j) m" using more(3) Suc.prems(4) by (simp add: take_add)
    moreover have "p + j < n" "waits w' + (n - (p + j)) < k" using more(1,2) Suc.prems(6) by auto
    ultimately show ?case using Suc.IH [of "c\<lparr>cl_write := sk_step j (cl_write c)\<rparr>" "p + j" w'] Suc.prems(1,2,5) more(4) r
      by (simp add: sk_step_def)
  next
    case all: (2 w')
    have "sent w' = base @ take n m" using all(1) Suc.prems(3,4) take_add [of p "n - p" m] by simp
    then show ?case using all(2) r Suc.prems(3) by (auto simp: sk_step_def)
  qed
qed simp

text \<open>C32: in the non-blocking build \<^verbatim>\<open>MqttPacket_Write\<close>, called again whenever it returns \<^verbatim>\<open>MQTT_CODE_CONTINUE\<close>, hands
  exactly the bytes of the packet to the transport, in order and each of them once, however the transport
  splits and delays them, and then reports the length of the packet.\<close>

theorem packet_write_returns:
  assumes "sink_ok f sent waits" "cb_write c = Some f" "sk_pos (cl_write c) = 0" "0 < n" "n \<le> length m" "n < 2147483648"
    and "cl_packet_sz_max c = 0 \<or> n \<le> unat (cl_packet_sz_max c)" "waits w + n < k"
  shows "\<exists>w' c'. write_again k True now w c (Some m) (int n) = Ok (w', c', int n) \<and> sent w' = sent w @ take n m \<and> sk_pos (cl_write c') = 0"
  using write_again_steps [OF assms(1,5) _ assms(2,3,4) _ assms(7), of w "sent w" k now] assms(6,8) by simp

text \<open>A transport that takes pieces of given sizes; a size of zero is a pause.\<close>

fun piece_write :: "nat list \<times> byte list \<Rightarrow> byte list \<Rightarrow> int \<Rightarrow> (nat list \<times> byte list) \<times> int" where
  "piece_write ([], out) bs t = (([], out @ bs), int (length bs))"
| "piece_write (k # ks, out) bs t =
     (if k = 0 then ((ks, out), err_code CONTINUE) else ((ks, out @ take k bs), int (min k (length bs))))"

lemma piece_sink: "sink_ok piece_write snd (\<lambda>w. length (filter (\<lambda>k. k = 0) (fst w)))"
  unfolding sink_ok_def
proof (intro allI impI, goal_cases)
  case (1 w bs t w' rc)
  obtain ks out where w: "w = (ks, out)" by fastforce
  show ?case using 1 unfolding w by (cases ks) (auto simp: min_def split: if_splits)
qed

definition piece_client :: "(nat list \<times> byte list) MqttClient" where
  "piece_client = \<lparr>cl_net = Some \<lparr>net_connect = None, net_read = None, net_write = Some piece_write, net_disconnect = None\<rparr>, cl_flags = 1,
     cl_packet = \<lparr>pk_stat = MQTT_PK_BEGIN, pk_header_len = 0, pk_remain_len = 0\<rparr>, cl_read = \<lparr>sk_pos = 0, sk_total = 0\<rparr>,
     cl_write = \<lparr>sk_pos = 0, sk_total = 0\<rparr>, cl_packet_sz_max = 0, cl_cmd_timeout_ms = 1000, cl_keep_alive_sec = 0, cl_last_tx_time = 0\<rparr>"

theorem packet_write_returns_witness:
  "\<exists>w' c'. write_again 5 True 0 ([0, 1], []) piece_client (Some [0xC0, 0x00, 0x55]) (int 2) = Ok (w', c', int 2) \<and> snd w' = [0xC0, 0x00]"
proof -
  have c: "cb_write piece_client = Some piece_write" "sk_pos (cl_write piece_client) = 0" "cl_packet_sz_max piece_client = 0"
    by (simp_all add: piece_client_def cb_write_def)
  have l: "(0 :: nat) < 2" "2 \<le> length [0xC0, 0x00, 0x55 :: byte]" "(2 :: nat) < 2147483648"
    "length (filter (\<lambda>k. k = 0) (fst ([0, 1 :: nat], [] :: byte list))) + 2 < 5" by simp_all
  have "snd ([0, 1 :: nat], [] :: byte list) @ take 2 [0xC0, 0x00, 0x55] = [0xC0, 0x00]" by simp
  then show ?thesis using packet_write_returns [OF piece_sink c(1,2) l(1-3) disjI1 [OF c(3)] l(4), of 0] by metis
qed

end
