(* ===== verification/Broker_State.thy ===== *)
theory Broker_State
  imports Mqtt_Socket Mqtt_Header Prop_Pool
begin

text \<open>
  The data of the broker, \<^verbatim>\<open>wolfmqtt/mqtt_broker.h\<close>, in the build with dynamic memory: the records of a queued
  publication, a connected client, an offline session, a subscription, a retained message and the broker itself.

  A pointer to a client is a number, its handle.  A linked list is the list of its nodes from the head on; a C
  string is the bytes of its object with the terminator; a pointer that may be \<^verbatim>\<open>NULL\<close> is an option.  Whether a
  call of the allocator succeeds is an argument of the operation that makes the call.
\<close>

section \<open>Constants\<close>

type_synonym word64 = "64 word"
type_synonym handle = nat

abbreviation (input) "BROKER_MAX_SUBS_PER_CLIENT \<equiv> (8 :: int)"
abbreviation (input) "BROKER_MAX_RETAINED \<equiv> (16 :: int)"
abbreviation (input) "BROKER_MAX_INBOUND_QOS2 \<equiv> (16 :: nat)"

text \<open>The states of an entry of the outbound queue.\<close>

abbreviation (input) "BROKER_OUTQ_QUEUED \<equiv> (0 :: byte)"
abbreviation (input) "BROKER_OUTQ_PUBLISH_SENT \<equiv> (1 :: byte)"
abbreviation (input) "BROKER_OUTQ_PUBREL_SENT \<equiv> (2 :: byte)"

section \<open>Records\<close>

record BrokerOutPub =
  op_topic :: cstr
  op_payload :: "mem option"
  op_payload_len :: word32
  op_qos :: MqttQoS
  op_packet_id :: word16
  op_retain :: byte
  op_state :: byte
  op_retransmit_dup :: byte
  op_enq_time :: word64
  op_enqueue_seq :: word64
  op_expiry_sec :: word32
  op_level :: byte
  op_props :: "nat option"

record BrokerOrphanSession =
  os_client_id :: cstr
  os_level :: byte
  os_session_expiry_sec :: word32
  os_orphan_since :: word64
  os_out_q :: "BrokerOutPub list"
  os_out_q_count :: int
  os_out_q_inflight :: int
  os_qos2_pending :: "word16 list"
  os_qos2_pending_count :: int

record 'w BrokerClient =
  bc_client_id :: "cstr option"
  bc_tx_buf :: mem
  bc_tx_buf_len :: int
  bc_rx_buf :: mem
  bc_rx_buf_len :: int
  bc_sock :: "int option"
  bc_level :: byte
  bc_clean_session :: byte
  bc_connected :: byte
  bc_sub_count :: int
  bc_client :: "'w MqttClient"
  bc_qos2_pending :: "word16 list"
  bc_qos2_pending_count :: int
  bc_out_q :: "BrokerOutPub list"
  bc_out_q_count :: int
  bc_out_q_inflight :: int
  bc_out_q_pending_len :: int
  bc_direct_pending_len :: int
  bc_client_receive_max :: word16
  bc_session_expiry_sec :: word32
  bc_session_established :: byte
  bc_connack_pending_len :: int

record BrokerSub =
  bs_filter :: "cstr option"
  bs_client_id :: "cstr option"
  bs_client :: "handle option"
  bs_qos :: MqttQoS

record BrokerRetainedMsg =
  rm_topic :: "cstr option"
  rm_payload :: "mem option"
  rm_payload_len :: word32
  rm_store_time :: word64
  rm_expiry_sec :: word32
  rm_qos :: MqttQoS
  rm_pending_delete :: byte

text \<open>
  The lists of the broker with their counters; the list of connected clients is not among them, the operations take
  the clients they change as arguments.
\<close>

record Broker =
  br_subs :: "BrokerSub list"
  br_subs_gen :: word32
  br_retained :: "BrokerRetainedMsg list"
  br_retained_count :: int
  br_retained_delivering :: int
  br_orphans :: "BrokerOrphanSession list"
  br_orphan_count :: int
  br_next_packet_id :: word16

text \<open>Structures after \<^verbatim>\<open>XMEMSET(&x, 0, sizeof(x))\<close>.\<close>

definition zero_out_pub :: BrokerOutPub where
  "zero_out_pub = \<lparr>op_topic = [0], op_payload = None, op_payload_len = 0, op_qos = MQTT_QOS_0, op_packet_id = 0, op_retain = 0,
     op_state = 0, op_retransmit_dup = 0, op_enq_time = 0, op_enqueue_seq = 0, op_expiry_sec = 0, op_level = 0, op_props = None\<rparr>"

definition zero_mqtt_client :: "'w MqttClient" where
  "zero_mqtt_client = \<lparr>cl_net = None, cl_flags = 0, cl_packet = \<lparr>pk_stat = MQTT_PK_BEGIN, pk_header_len = 0, pk_remain_len = 0\<rparr>,
     cl_read = \<lparr>sk_pos = 0, sk_total = 0\<rparr>, cl_write = \<lparr>sk_pos = 0, sk_total = 0\<rparr>, cl_packet_sz_max = 0,
     cl_cmd_timeout_ms = 0, cl_keep_alive_sec = 0, cl_last_tx_time = 0\<rparr>"

definition zero_client :: "'w BrokerClient" where
  "zero_client = \<lparr>bc_client_id = None, bc_tx_buf = [], bc_tx_buf_len = 0, bc_rx_buf = [], bc_rx_buf_len = 0, bc_sock = None,
     bc_level = 0, bc_clean_session = 0, bc_connected = 0, bc_sub_count = 0, bc_client = zero_mqtt_client,
     bc_qos2_pending = [], bc_qos2_pending_count = 0, bc_out_q = [], bc_out_q_count = 0, bc_out_q_inflight = 0,
     bc_out_q_pending_len = 0, bc_direct_pending_len = 0, bc_client_receive_max = 0, bc_session_expiry_sec = 0,
     bc_session_established = 0, bc_connack_pending_len = 0\<rparr>"

definition zero_broker :: Broker where
  "zero_broker = \<lparr>br_subs = [], br_subs_gen = 0, br_retained = [], br_retained_count = 0, br_retained_delivering = 0,
     br_orphans = [], br_orphan_count = 0, br_next_packet_id = 0\<rparr>"

section \<open>Strings and lists\<close>

text \<open>\<^verbatim>\<open>XSTRCMP(a, b) == 0\<close>, and the macro \<^verbatim>\<open>BROKER_STR_VALID\<close>.\<close>

definition XSTREQ :: "cstr \<Rightarrow> cstr \<Rightarrow> bool" where
  "XSTREQ a b \<longleftrightarrow> cstr_bytes a = cstr_bytes b"

definition BROKER_STR_VALID :: "cstr option \<Rightarrow> bool" where
  "BROKER_STR_VALID s \<longleftrightarrow> s \<noteq> None"

text \<open>\<^verbatim>\<open>(word16)XSTRLEN(s) == n && XMEMCMP(s, f, n) == 0\<close>, for a string \<open>s\<close> and the \<open>n\<close> bytes \<open>f\<close>.\<close>

definition str_is :: "cstr \<Rightarrow> byte list \<Rightarrow> word16 \<Rightarrow> bool" where
  "str_is s f n \<longleftrightarrow> (word_of_nat (XSTRLEN s) :: word16) = n \<and> take (unat n) s = take (unat n) f"

text \<open>A walk along a list that stops at the first node with a property: find it, change it, unlink it.\<close>

fun upd_first :: "('a \<Rightarrow> bool) \<Rightarrow> ('a \<Rightarrow> 'a) \<Rightarrow> 'a list \<Rightarrow> 'a list" where
  "upd_first P f [] = []"
| "upd_first P f (x # xs) = (if P x then f x # xs else x # upd_first P f xs)"

fun rem_first :: "('a \<Rightarrow> bool) \<Rightarrow> 'a list \<Rightarrow> 'a list" where
  "rem_first P [] = []"
| "rem_first P (x # xs) = (if P x then xs else x # rem_first P xs)"

named_theorems walk_simps \<open>laws of the walks along a list\<close>

lemma rem_first_length [walk_simps]: "length (rem_first P xs) = length xs - (if list_ex P xs then 1 else 0)"
proof (induction xs)
  case (Cons a xs)
  then show ?case by (cases xs) auto
qed simp

lemma rem_first_none [walk_simps]: "\<not> list_ex P xs \<Longrightarrow> rem_first P xs = xs"
  by (induction xs) auto

lemma upd_first_none [walk_simps]: "\<not> list_ex P xs \<Longrightarrow> upd_first P f xs = xs"
  by (induction xs) auto

lemma upd_first_length [walk_simps]: "length (upd_first P f xs) = length xs"
  by (induction xs) auto

lemma upd_first_map: "(\<And>x. P x \<Longrightarrow> g (f x) = g x) \<Longrightarrow> map g (upd_first P f xs) = map g xs"
  by (induction xs) auto

lemma rem_first_subset: "set (rem_first P xs) \<subseteq> set xs"
  by (induction xs) auto

lemma rem_first_distinct: "distinct (map g xs) \<Longrightarrow> distinct (map g (rem_first P xs))"
  by (induction xs) (auto dest: subsetD [OF rem_first_subset])

lemma rem_first_split: "list_ex P xs \<Longrightarrow> \<exists>as x bs. xs = as @ x # bs \<and> P x \<and> \<not> list_ex P as \<and> rem_first P xs = as @ bs"
proof (induction xs)
  case (Cons a xs)
  show ?case
  proof (cases "P a")
    case True
    then have "a # xs = [] @ a # xs \<and> P a \<and> \<not> list_ex P [] \<and> rem_first P (a # xs) = [] @ xs" by simp
    then show ?thesis by blast
  next
    case False
    then obtain as x bs where "xs = as @ x # bs" "P x" "\<not> list_ex P as" "rem_first P xs = as @ bs"
      using Cons by auto
    then have "a # xs = (a # as) @ x # bs \<and> P x \<and> \<not> list_ex P (a # as) \<and> rem_first P (a # xs) = (a # as) @ bs"
      using False by simp
    then show ?thesis by blast
  qed
qed simp

section \<open>Partial correctness of a call\<close>

text \<open>Whenever the call returns, its result satisfies \<open>P\<close>; the rules follow the text of the caller.\<close>

definition returns :: "('a \<Rightarrow> bool) \<Rightarrow> 'a outcome \<Rightarrow> bool" where
  "returns P r \<longleftrightarrow> (\<forall>x. r = Ok x \<longrightarrow> P x)"

named_theorems returns_intros \<open>rules for a call that returns\<close>

lemma returns_basic [returns_intros]:
  "P x \<Longrightarrow> returns P (Ok x)" "returns P Fault" "returns P (Err e)"
  by (simp_all add: returns_def)

lemma returns_bnd [returns_intros]: "(\<And>x. m = Ok x \<Longrightarrow> returns P (f x)) \<Longrightarrow> returns P (bnd m f)"
  by (cases m) (simp_all add: returns_def)

lemma returns_if [returns_intros]: "(c \<Longrightarrow> returns P a) \<Longrightarrow> (\<not> c \<Longrightarrow> returns P b) \<Longrightarrow> returns P (if c then a else b)"
  by simp

lemma returns_let [returns_intros]: "returns P (f x) \<Longrightarrow> returns P (let y = x in f y)"
  by simp

lemma returns_prod [returns_intros]: "(\<And>a b. p = (a, b) \<Longrightarrow> returns P (f a b)) \<Longrightarrow> returns P (case p of (a, b) \<Rightarrow> f a b)"
  by (cases p) simp

lemma returns_option [returns_intros]:
  "(p = None \<Longrightarrow> returns P a) \<Longrightarrow> (\<And>x. p = Some x \<Longrightarrow> returns P (f x)) \<Longrightarrow> returns P (case p of None \<Rightarrow> a | Some x \<Rightarrow> f x)"
  by (cases p) simp_all

lemma returns_outcome [returns_intros]:
  "(r = Fault \<Longrightarrow> returns P a) \<Longrightarrow> (\<And>e. r = Err e \<Longrightarrow> returns P (f e)) \<Longrightarrow> (\<And>x. r = Ok x \<Longrightarrow> returns P (g x)) \<Longrightarrow>
   returns P (case r of Fault \<Rightarrow> a | Err e \<Rightarrow> f e | Ok x \<Rightarrow> g x)"
  by (cases r) simp_all

lemma returns_weaken: "returns P r \<Longrightarrow> (\<And>x. P x \<Longrightarrow> Q x) \<Longrightarrow> returns Q r"
  by (auto simp: returns_def)

lemma returnsD: "returns P r \<Longrightarrow> r = Ok x \<Longrightarrow> P x"
  by (simp add: returns_def)

lemma returns_seq: "returns Q m \<Longrightarrow> (\<And>x. Q x \<Longrightarrow> returns P (f x)) \<Longrightarrow> returns P (bnd m f)"
  by (cases m) (simp_all add: returns_def)

end
