(* ===== verification/Broker_Qos2.thy ===== *)
theory Broker_Qos2
  imports Broker_State
begin

text \<open>
  Exactly-once reception, \<^verbatim>\<open>BrokerInboundQos2_*\<close> of \<^verbatim>\<open>src/mqtt_broker.c\<close>: the packet identifiers of QoS 2
  publications a client has sent and not yet released.  The code has the table twice, as a linked list with a
  counter and, with \<^verbatim>\<open>WOLFMQTT_STATIC_MEMORY\<close>, as an array in which zero marks a free slot; both implement the
  interface \<open>pending_ids\<close>, a set of at most \<open>BROKER_MAX_INBOUND_QOS2\<close> identifiers.  The client of the interface is
  the duplicate detection in \<^verbatim>\<open>BrokerHandle_Publish\<close> and \<^verbatim>\<open>BrokerHandle_PublishRel\<close>.
\<close>

section \<open>The linked list\<close>

definition BrokerInboundQos2_Contains :: "'w BrokerClient \<Rightarrow> word16 \<Rightarrow> bool" where
  "BrokerInboundQos2_Contains bc pid = (if pid = 0 then False else list_ex (\<lambda>p. p = pid) (bc_qos2_pending bc))"

definition BrokerInboundQos2_Add :: "bool \<Rightarrow> 'w BrokerClient \<Rightarrow> word16 \<Rightarrow> 'w BrokerClient \<times> int" where
  "BrokerInboundQos2_Add malloc bc pid =
     (if pid = 0 then (bc, err_code BAD_ARG)
      else if BrokerInboundQos2_Contains bc pid then (bc, 0)
      else if bc_qos2_pending_count bc \<ge> int BROKER_MAX_INBOUND_QOS2 then (bc, err_code OUT_OF_BUFFER)
      else if \<not> malloc then (bc, err_code MEMORY)
      else (bc\<lparr>bc_qos2_pending := pid # bc_qos2_pending bc, bc_qos2_pending_count := bc_qos2_pending_count bc + 1\<rparr>, 0))"

definition BrokerInboundQos2_Remove :: "'w BrokerClient \<Rightarrow> word16 \<Rightarrow> 'w BrokerClient" where
  "BrokerInboundQos2_Remove bc pid =
     (if pid = 0 then bc
      else if list_ex (\<lambda>p. p = pid) (bc_qos2_pending bc) then
        bc\<lparr>bc_qos2_pending := rem_first (\<lambda>p. p = pid) (bc_qos2_pending bc),
           bc_qos2_pending_count := (if bc_qos2_pending_count bc > 0 then bc_qos2_pending_count bc - 1
                                     else bc_qos2_pending_count bc)\<rparr>
      else bc)"

definition BrokerInboundQos2_Clear :: "'w BrokerClient \<Rightarrow> 'w BrokerClient" where
  "BrokerInboundQos2_Clear bc = bc\<lparr>bc_qos2_pending := [], bc_qos2_pending_count := 0\<rparr>"

definition BrokerInboundQos2_HasPending :: "'w BrokerClient \<Rightarrow> bool" where
  "BrokerInboundQos2_HasPending bc \<longleftrightarrow> bc_qos2_pending_count bc > 0"

text \<open>The new client, the old one, and whether the state was carried over.\<close>

definition BrokerInboundQos2_Takeover ::
  "'w BrokerClient \<Rightarrow> 'w BrokerClient \<Rightarrow> 'w BrokerClient \<times> 'w BrokerClient \<times> bool" where
  "BrokerInboundQos2_Takeover new_bc old =
     (let old_persists = (if bc_level old \<ge> 5 then bc_session_expiry_sec old \<noteq> 0 else bc_clean_session old = 0) in
      if \<not> old_persists \<or> \<not> BrokerInboundQos2_HasPending old then (new_bc, old, False)
      else (new_bc\<lparr>bc_qos2_pending := bc_qos2_pending old, bc_qos2_pending_count := bc_qos2_pending_count old\<rparr>,
            old\<lparr>bc_qos2_pending := [], bc_qos2_pending_count := 0\<rparr>, True))"

section \<open>The array of the static build\<close>

definition StaticQos2_Contains :: "word16 list \<Rightarrow> word16 \<Rightarrow> bool" where
  "StaticQos2_Contains arr pid = (if pid = 0 then False else list_ex (\<lambda>p. p = pid) arr)"

definition StaticQos2_Add :: "word16 list \<Rightarrow> word16 \<Rightarrow> word16 list \<times> int" where
  "StaticQos2_Add arr pid =
     (if pid = 0 then (arr, err_code BAD_ARG)
      else if StaticQos2_Contains arr pid then (arr, 0)
      else if list_ex (\<lambda>p. p = 0) arr then (upd_first (\<lambda>p. p = 0) (\<lambda>_. pid) arr, 0)
      else (arr, err_code OUT_OF_BUFFER))"

definition StaticQos2_Remove :: "word16 list \<Rightarrow> word16 \<Rightarrow> word16 list" where
  "StaticQos2_Remove arr pid = (if pid = 0 then arr else upd_first (\<lambda>p. p = pid) (\<lambda>_. 0) arr)"

definition StaticQos2_Clear :: "word16 list \<Rightarrow> word16 list" where
  "StaticQos2_Clear arr = map (\<lambda>_. 0) arr"

section \<open>Duplicate detection\<close>

text \<open>
  The verdict on a QoS 2 publication: it is new and goes on to the subscribers, it is a duplicate and is only
  acknowledged again, or the handler returns a code.
\<close>

datatype verdict = Fresh | Duplicate | Refused int

definition qos2_verdict ::
  "('s \<Rightarrow> word16 \<Rightarrow> bool) \<Rightarrow> ('s \<Rightarrow> word16 \<Rightarrow> 's \<times> int) \<Rightarrow> 's \<Rightarrow> word16 \<Rightarrow> 's \<times> verdict" where
  "qos2_verdict contains add s pid =
     (if contains s pid then (s, Duplicate)
      else (case add s pid of (s', rc) \<Rightarrow> if rc \<noteq> 0 then (s', Refused rc) else (s', Fresh)))"

text \<open>
  What a client sends, with the result of the allocator, and the run of the table over it: the verdict on every
  publication, with its identifier.
\<close>

datatype arrival = Arr_Publish bool word16 | Arr_Pubrel word16

fun qos2_run ::
  "('s \<Rightarrow> word16 \<Rightarrow> bool) \<Rightarrow> (bool \<Rightarrow> 's \<Rightarrow> word16 \<Rightarrow> 's \<times> int) \<Rightarrow> ('s \<Rightarrow> word16 \<Rightarrow> 's) \<Rightarrow> 's \<Rightarrow> arrival list
   \<Rightarrow> 's \<times> (word16 \<times> verdict) list" where
  "qos2_run contains add remove s [] = (s, [])"
| "qos2_run contains add remove s (Arr_Publish malloc pid # as) =
     (case qos2_verdict contains (add malloc) s pid of (s', v) \<Rightarrow>
        (case qos2_run contains add remove s' as of (s'', vs) \<Rightarrow> (s'', (pid, v) # vs)))"
| "qos2_run contains add remove s (Arr_Pubrel pid # as) = qos2_run contains add remove (remove s pid) as"

text \<open>
  The specification: a bounded set of identifiers that starts a new exchange exactly when the identifier is not
  in it.
\<close>

fun set_run :: "word16 set \<Rightarrow> arrival list \<Rightarrow> (word16 \<times> verdict) list" where
  "set_run S [] = []"
| "set_run S (Arr_Publish malloc pid # as) =
     (if pid \<in> S then (pid, Duplicate) # set_run S as
      else if card S \<ge> BROKER_MAX_INBOUND_QOS2 then (pid, Refused (err_code OUT_OF_BUFFER)) # set_run S as
      else if \<not> malloc then (pid, Refused (err_code MEMORY)) # set_run S as
      else (pid, Fresh) # set_run (insert pid S) as)"
| "set_run S (Arr_Pubrel pid # as) = set_run (S - {pid}) as"

text \<open>The decoders reject a packet whose identifier is zero.\<close>

definition ids_ok :: "arrival list \<Rightarrow> bool" where
  "ids_ok as = list_all (\<lambda>a. case a of Arr_Publish _ pid \<Rightarrow> pid \<noteq> 0 | Arr_Pubrel pid \<Rightarrow> pid \<noteq> 0) as"

section \<open>The interface\<close>

locale pending_ids =
  fixes contains :: "'s \<Rightarrow> word16 \<Rightarrow> bool"
    and add :: "bool \<Rightarrow> 's \<Rightarrow> word16 \<Rightarrow> 's \<times> int"
    and remove :: "'s \<Rightarrow> word16 \<Rightarrow> 's"
    and clear :: "'s \<Rightarrow> 's"
    and ids :: "'s \<Rightarrow> word16 set"
    and inv :: "'s \<Rightarrow> bool"
  assumes ids_bounded: "inv s \<Longrightarrow> finite (ids s) \<and> card (ids s) \<le> BROKER_MAX_INBOUND_QOS2 \<and> 0 \<notin> ids s"
    and contains_iff: "inv s \<Longrightarrow> contains s i \<longleftrightarrow> i \<in> ids s"
    and add_zero: "add malloc s 0 = (s, err_code BAD_ARG)"
    and add_present: "inv s \<Longrightarrow> i \<in> ids s \<Longrightarrow> add malloc s i = (s, 0)"
    and add_full: "inv s \<Longrightarrow> i \<noteq> 0 \<Longrightarrow> i \<notin> ids s \<Longrightarrow> card (ids s) \<ge> BROKER_MAX_INBOUND_QOS2
      \<Longrightarrow> add malloc s i = (s, err_code OUT_OF_BUFFER)"
    and add_new: "inv s \<Longrightarrow> i \<noteq> 0 \<Longrightarrow> i \<notin> ids s \<Longrightarrow> card (ids s) < BROKER_MAX_INBOUND_QOS2
      \<Longrightarrow> \<exists>s'. add True s i = (s', 0) \<and> inv s' \<and> ids s' = insert i (ids s)"
    and add_oom: "add False s i = add True s i \<or> add False s i = (s, err_code MEMORY)"
    and remove_ids: "inv s \<Longrightarrow> inv (remove s i) \<and> ids (remove s i) = ids s - {i}"
    and clear_ids: "inv s \<Longrightarrow> inv (clear s) \<and> ids (clear s) = {}"
begin

text \<open>What one addition does, whatever the allocator says.\<close>

lemma add_effect:
  assumes "inv s" "i \<noteq> 0" "i \<notin> ids s"
  shows "\<exists>s' rc. add malloc s i = (s', rc) \<and> inv s' \<and>
    (if rc = 0 then ids s' = insert i (ids s) else s' = s)"
proof (cases "card (ids s) < BROKER_MAX_INBOUND_QOS2")
  case True
  then obtain s' where s': "add True s i = (s', 0)" "inv s'" "ids s' = insert i (ids s)" using add_new [OF assms] by blast
  consider "add malloc s i = (s', 0)" | "add malloc s i = (s, err_code MEMORY)" using add_oom [of s i] s' by (cases malloc) auto
  then show ?thesis by cases (use s' assms(1) in auto)
next
  case False
  then show ?thesis using add_full [OF assms] assms(1) by simp
qed

lemma verdict_effect:
  assumes "inv s" "i \<noteq> 0"
  shows "\<exists>s' v. qos2_verdict contains (add malloc) s i = (s', v) \<and> inv s' \<and> ids s \<subseteq> ids s' \<and>
    (v = Duplicate \<longleftrightarrow> i \<in> ids s) \<and> (v = Fresh \<longrightarrow> i \<in> ids s')"
proof (cases "i \<in> ids s")
  case True
  then show ?thesis using assms contains_iff by (simp add: qos2_verdict_def)
next
  case False
  then show ?thesis using add_effect [OF assms False, of malloc] contains_iff [OF assms(1), of i]
    by (auto simp: qos2_verdict_def)
qed

lemma pending_duplicate:
  assumes "inv s" "ids_ok as" "i \<in> ids s" "Arr_Pubrel i \<notin> set as" "(i, v) \<in> set (snd (qos2_run contains add remove s as))"
  shows "v = Duplicate"
  using assms
proof (induction as arbitrary: s)
  case (Cons a as)
  then have ok: "ids_ok as" by (simp add: ids_ok_def)
  show ?case
  proof (cases a)
    case (Arr_Publish malloc j)
    then have "j \<noteq> 0" using Cons.prems(2) by (simp add: ids_ok_def)
    with verdict_effect [OF Cons.prems(1)] obtain s' u where u: "qos2_verdict contains (add malloc) s j = (s', u)"
      "inv s'" "ids s \<subseteq> ids s'" "u = Duplicate \<longleftrightarrow> j \<in> ids s" by metis
    then have "(i, v) = (j, u) \<or> (i, v) \<in> set (snd (qos2_run contains add remove s' as))"
      using Cons.prems(5) Arr_Publish by (auto split: prod.splits)
    then show ?thesis using Cons.IH [OF u(2) ok] Cons.prems(3,4) u(3,4) by auto
  next
    case (Arr_Pubrel j)
    then show ?thesis using Cons.IH [OF _ ok] remove_ids [OF Cons.prems(1), of j] Cons.prems(3-5) by auto
  qed
qed simp

lemma once:
  assumes "inv s" "ids_ok (Arr_Publish malloc i # as)" "Arr_Pubrel i \<notin> set as"
    and "qos2_run contains add remove s (Arr_Publish malloc i # as) = (s', (i, Fresh) # vs)" "(i, v) \<in> set vs"
  shows "v = Duplicate"
proof -
  have i: "i \<noteq> 0" and ok: "ids_ok as" using assms(2) by (simp_all add: ids_ok_def)
  obtain t u where u: "qos2_verdict contains (add malloc) s i = (t, u)" "inv t" "u = Fresh \<longrightarrow> i \<in> ids t"
    using verdict_effect [OF assms(1) i] by blast
  have "u = Fresh" "snd (qos2_run contains add remove t as) = vs" using assms(4) u(1) by (auto split: prod.splits)
  then show ?thesis using pending_duplicate [OF u(2) ok _ assms(3)] u(3) assms(5) by simp
qed

end

text \<open>With an allocator the failure of an allocation is an error of its own; then the run is that of the set.\<close>

locale pending_ids_alloc = pending_ids +
  assumes add_no_mem: "inv s \<Longrightarrow> i \<noteq> 0 \<Longrightarrow> i \<notin> ids s \<Longrightarrow> card (ids s) < BROKER_MAX_INBOUND_QOS2
      \<Longrightarrow> add False s i = (s, err_code MEMORY)"
begin

lemma run_refines: "inv s \<Longrightarrow> ids_ok as \<Longrightarrow> snd (qos2_run contains add remove s as) = set_run (ids s) as"
proof (induction as arbitrary: s)
  case (Cons a as)
  then have ok: "ids_ok as" by (simp add: ids_ok_def)
  note cs = contains_iff [OF Cons.prems(1)]
  show ?case
  proof (cases a)
    case (Arr_Publish malloc i)
    then have i: "i \<noteq> 0" using Cons.prems by (simp add: ids_ok_def)
    consider "i \<in> ids s" | "i \<notin> ids s" "card (ids s) \<ge> BROKER_MAX_INBOUND_QOS2"
      | "i \<notin> ids s" "card (ids s) < BROKER_MAX_INBOUND_QOS2" "\<not> malloc"
      | "i \<notin> ids s" "card (ids s) < BROKER_MAX_INBOUND_QOS2" "malloc" by fastforce
    then show ?thesis
    proof cases
      case 4
      obtain s' where s': "add True s i = (s', 0)" "inv s'" "ids s' = insert i (ids s)"
        using add_new [OF Cons.prems(1) i 4(1,2)] by blast
      then show ?thesis using Arr_Publish 4 Cons.IH [OF s'(2) ok] cs
        by (cases "qos2_run contains add remove s' as") (simp add: qos2_verdict_def)
    qed (use Arr_Publish i Cons.IH [OF Cons.prems(1) ok] cs add_full [OF Cons.prems(1) i]
           add_no_mem [OF Cons.prems(1) i] in \<open>auto simp: qos2_verdict_def split: prod.split\<close>)
  next
    case (Arr_Pubrel i)
    then show ?thesis using remove_ids [OF Cons.prems(1)] Cons.IH [OF _ ok] by simp
  qed
qed simp

end

section \<open>Both tables implement it\<close>

subsection \<open>The linked list\<close>

definition qos2_ids :: "'w BrokerClient \<Rightarrow> word16 set" where
  "qos2_ids bc = set (bc_qos2_pending bc)"

definition qos2_inv :: "'w BrokerClient \<Rightarrow> bool" where
  "qos2_inv bc \<longleftrightarrow> distinct (bc_qos2_pending bc) \<and> 0 \<notin> set (bc_qos2_pending bc) \<and>
     bc_qos2_pending_count bc = int (length (bc_qos2_pending bc)) \<and> length (bc_qos2_pending bc) \<le> BROKER_MAX_INBOUND_QOS2"

lemma rem_first_eq: "rem_first (\<lambda>p. p = i) xs = remove1 i xs"
  by (induction xs) auto

lemmas qos2_defs = qos2_ids_def qos2_inv_def BrokerInboundQos2_Contains_def BrokerInboundQos2_Add_def
  BrokerInboundQos2_Remove_def BrokerInboundQos2_Clear_def rem_first_eq list_ex_iff

interpretation qos2: pending_ids_alloc BrokerInboundQos2_Contains BrokerInboundQos2_Add BrokerInboundQos2_Remove
  BrokerInboundQos2_Clear qos2_ids qos2_inv
proof (unfold_locales, goal_cases)
  case (7 s i) then show ?case by (auto simp: qos2_defs)
next
  case (8 s i)
  then have "i \<in> set (bc_qos2_pending s) \<Longrightarrow> 0 < length (bc_qos2_pending s)" by (metis length_pos_if_in_set)
  with 8 show ?case by (auto simp: qos2_defs length_remove1 of_nat_diff Suc_le_eq)
qed (auto simp: qos2_defs distinct_card)

lemma qos2_takeover:
  assumes "qos2_inv old" "BrokerInboundQos2_Takeover new_bc old = (n, d, True)"
  shows "qos2_inv n \<and> qos2_ids n = qos2_ids old \<and> qos2_ids n \<noteq> {} \<and> qos2_inv d \<and> qos2_ids d = {}"
  using assms by (auto simp: BrokerInboundQos2_Takeover_def BrokerInboundQos2_HasPending_def qos2_inv_def qos2_ids_def
      Let_def split: if_splits)

subsection \<open>The array\<close>

definition static_ids :: "word16 list \<Rightarrow> word16 set" where
  "static_ids arr = set arr - {0}"

definition static_inv :: "word16 list \<Rightarrow> bool" where
  "static_inv arr \<longleftrightarrow> length arr = BROKER_MAX_INBOUND_QOS2 \<and> distinct (filter (\<lambda>p. p \<noteq> 0) arr)"

lemma static_card: "static_inv arr \<Longrightarrow> card (static_ids arr) = length (filter (\<lambda>p. p \<noteq> 0) arr)"
proof -
  assume "static_inv arr"
  moreover have "static_ids arr = set (filter (\<lambda>p. p \<noteq> 0) arr)" by (auto simp: static_ids_def)
  ultimately show ?thesis by (metis static_inv_def distinct_card)
qed

lemma static_full: "static_inv arr \<Longrightarrow> 0 \<in> set arr \<longleftrightarrow> card (static_ids arr) < BROKER_MAX_INBOUND_QOS2"
proof (rule iffI, goal_cases)
  case 1
  then show ?case using static_card [OF 1(1)] length_filter_less [of 0 arr "\<lambda>p. p \<noteq> 0"] by (simp add: static_inv_def)
next
  case 2
  show ?case
  proof (rule ccontr)
    assume "0 \<notin> set arr"
    then have "filter (\<lambda>p. p \<noteq> 0) arr = arr" by (induction arr) auto
    then show False using static_card [OF 2(1)] 2 by (simp add: static_inv_def)
  qed
qed

lemma put_slot:
  "0 \<in> set arr \<Longrightarrow> i \<noteq> 0 \<Longrightarrow> i \<notin> set arr \<Longrightarrow> distinct (filter (\<lambda>p. p \<noteq> 0) arr) \<Longrightarrow>
   set (upd_first (\<lambda>p. p = 0) (\<lambda>_. i) arr) - {0} = insert i (set arr - {0}) \<and>
   distinct (filter (\<lambda>p. p \<noteq> 0) (upd_first (\<lambda>p. p = 0) (\<lambda>_. i) arr))"
  by (induction arr) auto

lemma clear_slot:
  "i \<noteq> 0 \<Longrightarrow> distinct (filter (\<lambda>p. p \<noteq> 0) arr) \<Longrightarrow>
   set (upd_first (\<lambda>p. p = i) (\<lambda>_. 0) arr) - {0} = set arr - {0} - {i} \<and>
   distinct (filter (\<lambda>p. p \<noteq> 0) (upd_first (\<lambda>p. p = i) (\<lambda>_. 0) arr))"
  by (induction arr) auto

interpretation static_qos2: pending_ids StaticQos2_Contains "\<lambda>_. StaticQos2_Add" StaticQos2_Remove StaticQos2_Clear
  static_ids static_inv
proof (unfold_locales, goal_cases)
  case (1 s)
  then have "length s = BROKER_MAX_INBOUND_QOS2" by (simp add: static_inv_def)
  then have "card (static_ids s) \<le> BROKER_MAX_INBOUND_QOS2"
    unfolding static_card [OF 1] using length_filter_le [of "\<lambda>p. p \<noteq> 0" s] by linarith
  then show ?case by (simp add: static_ids_def)
next
  case (5 s i)
  have "0 \<notin> set s" using static_full [OF 5(1)] 5(4) by linarith
  moreover have "i \<notin> set s" using 5(2,3) by (simp add: static_ids_def)
  ultimately have "\<not> list_ex (\<lambda>p. p = 0) s" "\<not> list_ex (\<lambda>p. p = i) s" by (auto simp: list_ex_iff)
  then show ?case using 5(2) by (simp add: StaticQos2_Add_def StaticQos2_Contains_def)
next
  case (6 s i)
  have z: "0 \<in> set s" using static_full 6 by blast
  then have "list_ex (\<lambda>p. p = 0) s" "\<not> list_ex (\<lambda>p. p = i) s" using 6(2,3) by (auto simp: list_ex_iff static_ids_def)
  then show ?case using 6(1-3) put_slot [OF z 6(2)]
    by (simp add: StaticQos2_Add_def StaticQos2_Contains_def static_ids_def static_inv_def upd_first_length)
next
  case (8 s i)
  show ?case
  proof (cases "i = 0")
    case True then show ?thesis using 8 by (auto simp: StaticQos2_Remove_def static_ids_def)
  next
    case False
    then show ?thesis using 8 clear_slot [OF False, of s]
      by (simp add: StaticQos2_Remove_def static_ids_def static_inv_def walk_simps)
  qed
qed (auto simp: StaticQos2_Contains_def StaticQos2_Add_def StaticQos2_Clear_def static_ids_def static_inv_def list_ex_iff)

section \<open>Properties\<close>

text \<open>C4: Exactly-once reception.  Once a QoS 2 publication with identifier \<open>i\<close> has been accepted, every later
  publication with that identifier is a duplicate, which is not given to the subscribers, until the client has
  released the identifier with PUBREL, whatever else the client sends and whatever the allocator does.\<close>

theorem qos2_exactly_once:
  assumes "qos2_inv bc" "ids_ok (Arr_Publish malloc i # as)" "Arr_Pubrel i \<notin> set as"
    and "qos2_run BrokerInboundQos2_Contains BrokerInboundQos2_Add BrokerInboundQos2_Remove bc (Arr_Publish malloc i # as)
       = (bc', (i, Fresh) # vs)"
    and "(i, v) \<in> set vs"
  shows "v = Duplicate"
  by (rule qos2.once [OF assms])

theorem qos2_exactly_once_witness:
  "snd (qos2_run BrokerInboundQos2_Contains BrokerInboundQos2_Add BrokerInboundQos2_Remove (zero_client :: unit BrokerClient)
     [Arr_Publish True 7, Arr_Publish True 9, Arr_Pubrel 9, Arr_Publish True 7])
   = [(7, Fresh), (9, Fresh), (7, Duplicate)]"
proof -
  let ?run = "qos2_run BrokerInboundQos2_Contains BrokerInboundQos2_Add BrokerInboundQos2_Remove"
  let ?as = "[Arr_Publish True 9, Arr_Pubrel 9, Arr_Publish True 7]"
  obtain bc' v where run: "?run (zero_client :: unit BrokerClient) (Arr_Publish True 7 # ?as) = (bc', (7, Fresh) # [(9, Fresh), (7, v)])"
    by (simp add: qos2_verdict_def BrokerInboundQos2_Contains_def BrokerInboundQos2_Add_def BrokerInboundQos2_Remove_def zero_client_def)
  have "v = Duplicate"
    by (rule qos2_exactly_once [OF _ _ _ run]) (simp_all add: qos2_inv_def zero_client_def ids_ok_def)
  then show ?thesis using run by simp
qed

text \<open>C7: The list with its counter refines a set: from a table that satisfies the invariant, the verdicts on any
  sequence of publications and releases are those of a set of at most sixteen identifiers.\<close>

theorem qos2_refines_set:
  assumes "qos2_inv bc" "ids_ok as"
  shows "snd (qos2_run BrokerInboundQos2_Contains BrokerInboundQos2_Add BrokerInboundQos2_Remove bc as) = set_run (qos2_ids bc) as"
  by (rule qos2.run_refines [OF assms])

theorem qos2_refines_set_witness:
  "snd (qos2_run BrokerInboundQos2_Contains BrokerInboundQos2_Add BrokerInboundQos2_Remove (zero_client :: unit BrokerClient)
     [Arr_Publish False 5, Arr_Publish True 5, Arr_Pubrel 5, Arr_Publish True 5])
   = [(5, Refused (err_code MEMORY)), (5, Fresh), (5, Fresh)]"
  using qos2_refines_set [of "zero_client :: unit BrokerClient" "[Arr_Publish False 5, Arr_Publish True 5, Arr_Pubrel 5, Arr_Publish True 5]"]
  by (simp add: qos2_inv_def zero_client_def ids_ok_def qos2_ids_def)

end
