(* ===== verification/Broker_Refine.thy ===== *)
theory Broker_Refine
  imports Broker_State
begin

text \<open>
  Data refinement for the tables of the broker.  A table is a state with operations that return a code; its
  specification is a function on an abstract value.  The interface \<open>table_spec\<close> asks that every operation of the table
  returns, keeps the invariant and has the effect and the code of the specification; its client is a whole sequence of
  operations.  The laws of lookup in a list with distinct keys are shared by the tables.
\<close>

section \<open>Sequences of operations\<close>

fun run_ops :: "('s \<Rightarrow> 'o \<Rightarrow> ('s \<times> int) outcome) \<Rightarrow> 's \<Rightarrow> 'o list \<Rightarrow> ('s \<times> int list) outcome" where
  "run_ops step s [] = Ok (s, [])"
| "run_ops step s (op # ops) = bnd (step s op) (\<lambda>(s', rc). bnd (run_ops step s' ops) (\<lambda>(s'', rcs). Ok (s'', rc # rcs)))"

fun run_spec :: "('a \<Rightarrow> 'o \<Rightarrow> 'a \<times> int) \<Rightarrow> 'a \<Rightarrow> 'o list \<Rightarrow> 'a \<times> int list" where
  "run_spec spec a [] = (a, [])"
| "run_spec spec a (op # ops) = (case spec a op of (a', rc) \<Rightarrow> (case run_spec spec a' ops of (a'', rcs) \<Rightarrow> (a'', rc # rcs)))"

locale table_spec =
  fixes step :: "'s \<Rightarrow> 'o \<Rightarrow> ('s \<times> int) outcome"
    and spec :: "'a \<Rightarrow> 'o \<Rightarrow> 'a \<times> int"
    and abs :: "'s \<Rightarrow> 'a"
    and inv :: "'s \<Rightarrow> bool"
    and wf :: "'o \<Rightarrow> bool"
  assumes step_refines: "inv s \<Longrightarrow> wf op \<Longrightarrow> \<exists>s' rc. step s op = Ok (s', rc) \<and> inv s' \<and> spec (abs s) op = (abs s', rc)"
begin

lemma run_refines:
  "inv s \<Longrightarrow> list_all wf ops \<Longrightarrow>
   \<exists>s' rcs. run_ops step s ops = Ok (s', rcs) \<and> inv s' \<and> run_spec spec (abs s) ops = (abs s', rcs)"
proof (induction ops arbitrary: s)
  case (Cons op ops)
  obtain s1 rc where s1: "step s op = Ok (s1, rc)" "inv s1" "spec (abs s) op = (abs s1, rc)"
    using step_refines [OF Cons.prems(1)] Cons.prems(2) by (metis list.pred_inject(2))
  then obtain s2 rcs where "run_ops step s1 ops = Ok (s2, rcs)" "inv s2" "run_spec spec (abs s1) ops = (abs s2, rcs)"
    using Cons by (metis list.pred_inject(2))
  then show ?case using s1 by simp
qed simp

end

section \<open>Lookup in a list with keys\<close>

lemma find_key_None: "find (\<lambda>x. key x = k) l = None \<longleftrightarrow> k \<notin> set (map key l)"
  by (induction l) auto

lemma find_key_filter:
  "distinct (map key l) \<Longrightarrow>
   find (\<lambda>x. key x = k) (filter Q l) = (case find (\<lambda>x. key x = k) l of None \<Rightarrow> None | Some x \<Rightarrow> if Q x then Some x else None)"
proof (induction l)
  case (Cons a l)
  have "find (\<lambda>x. key x = key a) l = None" "find (\<lambda>x. key x = key a) (filter Q l) = None"
    using Cons.prems unfolding find_key_None by auto
  then show ?case using Cons by (cases "key a = k") auto
qed simp

lemma find_key_upd:
  "(\<And>x. key (f x) = key x) \<Longrightarrow> find (\<lambda>x. key x = k') (upd_first (\<lambda>x. key x = k) f l) =
   (if k' = k then map_option f (find (\<lambda>x. key x = k) l) else find (\<lambda>x. key x = k') l)"
  by (induction l) auto

lemma find_key_rem:
  "distinct (map key l) \<Longrightarrow> find (\<lambda>x. key x = k') (rem_first (\<lambda>x. key x = k) l) =
   (if k' = k then None else find (\<lambda>x. key x = k') l)"
proof (induction l)
  case (Cons a l)
  have "find (\<lambda>x. key x = key a) l = None" using Cons.prems unfolding find_key_None by auto
  then show ?case using Cons by (cases "key a = k") auto
qed simp

lemma upd_first_cong: "(\<And>x. x \<in> set l \<Longrightarrow> P x = Q x) \<Longrightarrow> upd_first P f l = upd_first Q f l"
  by (induction l) auto

lemma rem_first_cong: "(\<And>x. x \<in> set l \<Longrightarrow> P x = Q x) \<Longrightarrow> rem_first P l = rem_first Q l"
  by (induction l) auto

lemma list_ex_key: "list_ex (\<lambda>x. key x = k) l \<longleftrightarrow> find (\<lambda>x. key x = k) l \<noteq> None"
  by (induction l) auto

lemma upd_first_id: "(\<And>x. x \<in> set l \<Longrightarrow> f x = x) \<Longrightarrow> upd_first P f l = l"
  by (induction l) auto

lemma upd_first_set: "x \<in> set (upd_first P f l) \<Longrightarrow> x \<in> set l \<or> (\<exists>y \<in> set l. x = f y)"
  by (induction l) (auto split: if_splits)

end
