(* ===== verification/Broker_Subs.thy ===== *)
theory Broker_Subs
  imports Broker_Refine Broker_Qos2
begin

text \<open>
  Subscriptions, \<^verbatim>\<open>BrokerSubs_*\<close> of \<^verbatim>\<open>src/mqtt_broker.c\<close>, in the build with dynamic memory: one list for all clients, with
  the number of subscriptions of each client in its own record.  A subscription of a client that is gone has no client
  and is found again by the client identifier.  For the connected clients the list is a map from client and topic
  filter to the granted QoS (\<open>subs_map\<close>).

  A connected client is named by its handle \<open>h\<close>; \<open>cid h\<close> is the \<^verbatim>\<open>client_id\<close> of its record.
\<close>

section \<open>Operations\<close>

text \<open>The subscription of client \<open>h\<close> to the filter in the first \<open>n\<close> bytes of \<open>f\<close>.\<close>

definition is_sub :: "handle \<Rightarrow> byte list \<Rightarrow> word16 \<Rightarrow> BrokerSub \<Rightarrow> bool" where
  "is_sub h f n s \<longleftrightarrow> bs_client s = Some h \<and> (case bs_filter s of None \<Rightarrow> False | Some g \<Rightarrow> str_is g f n)"

text \<open>\<open>malloc\<close> answers the three allocations: the node, its filter, its copy of the client identifier.\<close>

definition BrokerSubs_Add ::
  "(nat \<Rightarrow> bool) \<Rightarrow> handle \<Rightarrow> Broker \<Rightarrow> 'w BrokerClient \<Rightarrow> byte list \<Rightarrow> word16 \<Rightarrow> MqttQoS \<Rightarrow> (Broker \<times> 'w BrokerClient \<times> int) outcome" where
  "BrokerSubs_Add malloc h b bc flt n q =
     (if list_ex (is_sub h flt n) (br_subs b)
      then Ok (b\<lparr>br_subs := upd_first (is_sub h flt n) (\<lambda>s. s\<lparr>bs_qos := q\<rparr>) (br_subs b)\<rparr>, bc, 0)
      else if bc_sub_count bc \<ge> BROKER_MAX_SUBS_PER_CLIENT then Ok (b, bc, err_code MEMORY)
      else if \<not> malloc 0 \<or> \<not> malloc 1 then Ok (b, bc, err_code MEMORY)
      else
        bnd (rdn flt 0 (unat n)) (\<lambda>f.
          if BROKER_STR_VALID (bc_client_id bc) \<and> \<not> malloc 2 then Ok (b, bc, err_code MEMORY)
          else
            let sub = \<lparr>bs_filter = Some (f @ [0]), bs_client_id = map_option (\<lambda>c. cstr_bytes c @ [0]) (bc_client_id bc),
                       bs_client = Some h, bs_qos = q\<rparr>
            in Ok (b\<lparr>br_subs := sub # br_subs b, br_subs_gen := br_subs_gen b + 1\<rparr>, bc\<lparr>bc_sub_count := bc_sub_count bc + 1\<rparr>, 1)))"

definition BrokerSubs_Remove :: "handle \<Rightarrow> Broker \<Rightarrow> 'w BrokerClient \<Rightarrow> byte list \<Rightarrow> word16 \<Rightarrow> Broker \<times> 'w BrokerClient" where
  "BrokerSubs_Remove h b bc flt n =
     (if list_ex (is_sub h flt n) (br_subs b)
      then (b\<lparr>br_subs := rem_first (is_sub h flt n) (br_subs b), br_subs_gen := br_subs_gen b + 1\<rparr>,
            bc\<lparr>bc_sub_count := (if bc_sub_count bc > 0 then bc_sub_count bc - 1 else bc_sub_count bc)\<rparr>)
      else (b, bc))"

text \<open>The loops that unlink every node with a property; the generation counts the nodes.\<close>

definition remove_subs :: "(BrokerSub \<Rightarrow> bool) \<Rightarrow> Broker \<Rightarrow> Broker" where
  "remove_subs P b = b\<lparr>br_subs := filter (\<lambda>s. \<not> P s) (br_subs b), br_subs_gen := br_subs_gen b + word_of_nat (length (filter P (br_subs b)))\<rparr>"

definition BrokerSubs_RemoveClient :: "handle \<Rightarrow> Broker \<Rightarrow> 'w BrokerClient \<Rightarrow> Broker \<times> 'w BrokerClient" where
  "BrokerSubs_RemoveClient h b bc = (remove_subs (\<lambda>s. bs_client s = Some h) b, bc\<lparr>bc_sub_count := 0\<rparr>)"

text \<open>The subscription belongs to the identifier, through its client or, when it has none, through its own copy.\<close>

definition owned_by :: "(handle \<Rightarrow> cstr option) \<Rightarrow> cstr \<Rightarrow> BrokerSub \<Rightarrow> bool" where
  "owned_by cid c s \<longleftrightarrow>
     (case bs_client s of
        Some h \<Rightarrow> (case cid h of None \<Rightarrow> False | Some d \<Rightarrow> XSTREQ d c)
      | None \<Rightarrow> (case bs_client_id s of None \<Rightarrow> False | Some d \<Rightarrow> XSTREQ d c))"

definition BrokerSubs_RemoveByClientId :: "(handle \<Rightarrow> cstr option) \<Rightarrow> Broker \<Rightarrow> cstr option \<Rightarrow> Broker" where
  "BrokerSubs_RemoveByClientId cid b client_id =
     (case client_id of
        None \<Rightarrow> b
      | Some c \<Rightarrow> if XSTRLEN c = 0 then b else remove_subs (owned_by cid c) b)"

text \<open>The subscriptions of the identifier get the new client \<open>h\<close>; the result has their number.\<close>

definition BrokerSubs_ReassociateClient ::
  "(handle \<Rightarrow> cstr option) \<Rightarrow> handle \<Rightarrow> Broker \<Rightarrow> cstr option \<Rightarrow> 'w BrokerClient \<Rightarrow> Broker \<times> 'w BrokerClient \<times> int" where
  "BrokerSubs_ReassociateClient cid h b client_id new_bc =
     (case client_id of
        None \<Rightarrow> (b, new_bc, 0)
      | Some c \<Rightarrow>
          if XSTRLEN c = 0 then (b, new_bc, 0)
          else
            let count = int (length (filter (owned_by cid c) (br_subs b))) in
            (b\<lparr>br_subs := map (\<lambda>s. if owned_by cid c s then s\<lparr>bs_client := Some h\<rparr> else s) (br_subs b)\<rparr>,
             if count > 0 then new_bc\<lparr>bc_sub_count := bc_sub_count new_bc + count\<rparr> else new_bc, count))"

text \<open>The first connected client, other than \<open>exclude\<close>, with the identifier; \<open>clients\<close> is the list of handles.\<close>

definition BrokerClient_FindByClientId ::
  "(handle \<Rightarrow> cstr option) \<Rightarrow> handle list \<Rightarrow> cstr option \<Rightarrow> handle option \<Rightarrow> handle option" where
  "BrokerClient_FindByClientId cid clients client_id exclude =
     (case client_id of
        None \<Rightarrow> None
      | Some c \<Rightarrow>
          if XSTRLEN c = 0 then None
          else find (\<lambda>h. Some h \<noteq> exclude \<and> (case cid h of None \<Rightarrow> False | Some d \<Rightarrow> XSTREQ d c)) clients)"

section \<open>The map of subscriptions\<close>

definition sub_key :: "BrokerSub \<Rightarrow> handle option \<times> byte list" where
  "sub_key s = (bs_client s, case bs_filter s of None \<Rightarrow> [] | Some g \<Rightarrow> cstr_bytes g)"

definition subs_map :: "Broker \<Rightarrow> handle \<times> byte list \<Rightarrow> MqttQoS option" where
  "subs_map b = (\<lambda>(h, f). map_option bs_qos (find (\<lambda>s. sub_key s = (Some h, f)) (br_subs b)))"

definition sub_ok :: "BrokerSub \<Rightarrow> bool" where
  "sub_ok s \<longleftrightarrow> (case bs_filter s of None \<Rightarrow> False | Some g \<Rightarrow> XSTRLEN g \<le> 0xFFFF \<and> XSTRLEN g < length g)"

text \<open>
  Every subscription has a filter of at most 65535 bytes, no client has two for one filter, and the counter of client
  \<open>h\<close> is the number of its subscriptions.
\<close>

definition subs_inv :: "handle \<Rightarrow> bool \<Rightarrow> Broker \<times> 'w BrokerClient \<Rightarrow> bool" where
  "subs_inv h has_id = (\<lambda>(b, bc). (\<forall>s \<in> set (br_subs b). sub_ok s) \<and> distinct (map sub_key (filter (\<lambda>s. bs_client s \<noteq> None) (br_subs b))) \<and>
     bc_sub_count bc = int (length (filter (\<lambda>s. bs_client s = Some h) (br_subs b))) \<and>
     bc_sub_count bc \<le> BROKER_MAX_SUBS_PER_CLIENT \<and> (bc_client_id bc \<noteq> None) = has_id)"

datatype sub_op = Subscribe "nat \<Rightarrow> bool" "byte list" word16 MqttQoS | Unsubscribe "byte list" word16

fun sub_step :: "handle \<Rightarrow> Broker \<times> 'w BrokerClient \<Rightarrow> sub_op \<Rightarrow> ((Broker \<times> 'w BrokerClient) \<times> int) outcome" where
  "sub_step h (b, bc) (Subscribe malloc f n q) = bnd (BrokerSubs_Add malloc h b bc f n q) (\<lambda>(b', bc', rc). Ok ((b', bc'), rc))"
| "sub_step h (b, bc) (Unsubscribe f n) = Ok (BrokerSubs_Remove h b bc f n, 0)"

text \<open>The specification: the filters of one client are at most eight; the other clients are not concerned.\<close>

fun sub_spec :: "handle \<Rightarrow> bool \<Rightarrow> (handle \<times> byte list \<Rightarrow> MqttQoS option) \<Rightarrow> sub_op \<Rightarrow> (handle \<times> byte list \<Rightarrow> MqttQoS option) \<times> int" where
  "sub_spec h has_id M (Subscribe malloc f n q) =
     (let k = (h, take (unat n) f) in
      if M k \<noteq> None then (M(k \<mapsto> q), 0)
      else if int (card {g. M (h, g) \<noteq> None}) \<ge> BROKER_MAX_SUBS_PER_CLIENT \<or> \<not> malloc 0 \<or> \<not> malloc 1 \<or> has_id \<and> \<not> malloc 2
      then (M, err_code MEMORY)
      else (M(k \<mapsto> q), 1))"
| "sub_spec h has_id M (Unsubscribe f n) = (M((h, take (unat n) f) := None), 0)"

text \<open>The decoder gives filters that lie in the packet and have no NUL character.\<close>

fun sub_wf :: "sub_op \<Rightarrow> bool" where
  "sub_wf (Subscribe malloc f n q) = (unat n \<le> length f \<and> 0 \<notin> set (take (unat n) f))"
| "sub_wf (Unsubscribe f n) = (unat n \<le> length f \<and> 0 \<notin> set (take (unat n) f))"

section \<open>Refinement\<close>

lemma is_sub_key:
  assumes "sub_ok s" "unat n \<le> length f" "0 \<notin> set (take (unat n) f)"
  shows "is_sub h f n s \<longleftrightarrow> sub_key s = (Some h, take (unat n) f)"
proof -
  obtain g where g: "bs_filter s = Some g" "XSTRLEN g \<le> 0xFFFF" "XSTRLEN g < length g" using assms(1) by (auto simp: sub_ok_def split: option.splits)
  have c: "cstr_bytes g = take (XSTRLEN g) g" unfolding cstr_bytes_def XSTRLEN_def by (rule takeWhile_eq_take)
  have u: "unat (word_of_nat (XSTRLEN g) :: word16) = XSTRLEN g" using g(2) by (intro unat_word16_of_nat) simp
  have "str_is g f n \<longleftrightarrow> XSTRLEN g = unat n \<and> take (unat n) g = take (unat n) f"
    unfolding str_is_def word_unat_eq_iff u ..
  also have "\<dots> \<longleftrightarrow> cstr_bytes g = take (unat n) f"
  proof
    assume "XSTRLEN g = unat n \<and> take (unat n) g = take (unat n) f"
    then show "cstr_bytes g = take (unat n) f" using c by simp
  next
    assume a: "cstr_bytes g = take (unat n) f"
    then have "XSTRLEN g = unat n" using c g(3) assms(2) by (metis length_take less_imp_le_nat min.absorb2)
    then show "XSTRLEN g = unat n \<and> take (unat n) g = take (unat n) f" using a c by simp
  qed
  finally show ?thesis by (simp add: is_sub_def sub_key_def g(1))
qed

lemma find_client: "find (\<lambda>s. sub_key s = (Some h, f)) l = find (\<lambda>s. sub_key s = (Some h, f)) (filter (\<lambda>s. bs_client s \<noteq> None) l)"
  by (induction l) (auto simp: sub_key_def)

lemma sub_card:
  assumes "distinct (map sub_key (filter (\<lambda>s. bs_client s \<noteq> None) (br_subs b)))"
  shows "card {g. subs_map b (h, g) \<noteq> None} = length (filter (\<lambda>s. bs_client s = Some h) (br_subs b))"
proof -
  let ?l = "filter (\<lambda>s. bs_client s = Some h) (br_subs b)"
  have "filter (\<lambda>s. bs_client s = Some h) (filter (\<lambda>s. bs_client s \<noteq> None) (br_subs b)) = ?l"
    unfolding filter_filter by (rule filter_cong) auto
  then have d: "distinct (map sub_key ?l)" using distinct_map_filter [OF assms, of "\<lambda>s. bs_client s = Some h"] by simp
  have "subs_map b (h, g) \<noteq> None \<longleftrightarrow> (Some h, g) \<in> set (map sub_key (br_subs b))" for g
    using find_key_None [of sub_key "(Some h, g)" "br_subs b"] by (simp add: subs_map_def)
  then have "{g. subs_map b (h, g) \<noteq> None} = {g. (Some h, g) \<in> set (map sub_key (br_subs b))}" by simp
  also have "\<dots> = snd ` set (map sub_key ?l)" by (auto simp: sub_key_def image_iff) (metis)
  finally have "{g. subs_map b (h, g) \<noteq> None} = snd ` set (map sub_key ?l)" .
  moreover have "inj_on snd (set (map sub_key ?l))" by (auto simp: inj_on_def sub_key_def)
  ultimately show ?thesis using distinct_card [OF d] by (simp add: card_image)
qed

lemma subs_walk:
  fixes h :: handle
  assumes "\<forall>s \<in> set (br_subs b). sub_ok s" "unat n \<le> length f" "0 \<notin> set (take (unat n) f)"
  defines "k \<equiv> (Some h, take (unat n) f)"
  shows "upd_first (is_sub h f n) g (br_subs b) = upd_first (\<lambda>s. sub_key s = k) g (br_subs b)"
    and "rem_first (is_sub h f n) (br_subs b) = rem_first (\<lambda>s. sub_key s = k) (br_subs b)"
    and "list_ex (is_sub h f n) (br_subs b) \<longleftrightarrow> subs_map b (h, take (unat n) f) \<noteq> None"
proof -
  have s: "is_sub h f n s \<longleftrightarrow> sub_key s = k" if "s \<in> set (br_subs b)" for s
    using assms(1) that is_sub_key [OF _ assms(2,3)] by (auto simp: k_def)
  then show "upd_first (is_sub h f n) g (br_subs b) = upd_first (\<lambda>s. sub_key s = k) g (br_subs b)"
    "rem_first (is_sub h f n) (br_subs b) = rem_first (\<lambda>s. sub_key s = k) (br_subs b)"
    by (auto intro: upd_first_cong rem_first_cong)
  have "list_ex (is_sub h f n) (br_subs b) \<longleftrightarrow> list_ex (\<lambda>s. sub_key s = k) (br_subs b)" using s by (auto simp: list_ex_iff)
  then show "list_ex (is_sub h f n) (br_subs b) \<longleftrightarrow> subs_map b (h, take (unat n) f) \<noteq> None"
    by (simp add: list_ex_key subs_map_def k_def)
qed

text \<open>The three ways the list changes.\<close>

lemma sub_update:
  fixes q :: MqttQoS
  assumes "subs_inv h i (b, bc)" "subs_map b (h, f) \<noteq> None"
  defines "b' \<equiv> b\<lparr>br_subs := upd_first (\<lambda>s. sub_key s = (Some h, f)) (\<lambda>s. s\<lparr>bs_qos := q\<rparr>) (br_subs b)\<rparr>"
  shows "subs_inv h i (b', bc) \<and> subs_map b' = (subs_map b)((h, f) \<mapsto> q)"
proof -
  let ?u = "\<lambda>l. upd_first (\<lambda>s. sub_key s = (Some h, f)) (\<lambda>s. s\<lparr>bs_qos := q\<rparr>) l"
  have key: "sub_key (s\<lparr>bs_qos := q\<rparr>) = sub_key s" "sub_ok (s\<lparr>bs_qos := q\<rparr>) = sub_ok s" for s by (simp_all add: sub_key_def sub_ok_def)
  have len: "length (filter (\<lambda>s. bs_client s = Some h) (?u l)) = length (filter (\<lambda>s. bs_client s = Some h) l)" for l
    by (induction l) auto
  have ks: "map sub_key (filter (\<lambda>s. bs_client s \<noteq> None) (?u l)) = map sub_key (filter (\<lambda>s. bs_client s \<noteq> None) l)" for l
    by (induction l) (auto simp: key)
  have "subs_map b' (g, e) = ((subs_map b)((h, f) \<mapsto> q)) (g, e)" for g e
    using assms(2) find_key_upd [of sub_key "\<lambda>s. s\<lparr>bs_qos := q\<rparr>" "(Some g, e)" "(Some h, f)" "br_subs b", OF key(1)]
    by (auto simp: subs_map_def b'_def)
  moreover have "sub_ok s" if "s \<in> set (?u (br_subs b))" for s using upd_first_set [OF that] assms(1) key(2) by (auto simp: subs_inv_def)
  ultimately show ?thesis using assms(1) ks len by (auto simp: subs_inv_def b'_def fun_eq_iff)
qed

lemma sub_insert:
  fixes q :: MqttQoS and c :: "cstr option" and g :: word32
  assumes "subs_inv h i (b, bc)" "subs_map b (h, f) = None" "length f \<le> 0xFFFF" "0 \<notin> set f" "bc_sub_count bc < BROKER_MAX_SUBS_PER_CLIENT"
  defines "b' \<equiv> b\<lparr>br_subs := \<lparr>bs_filter = Some (f @ [0]), bs_client_id = c, bs_client = Some h, bs_qos = q\<rparr> # br_subs b, br_subs_gen := g\<rparr>"
  shows "subs_inv h i (b', bc\<lparr>bc_sub_count := bc_sub_count bc + 1\<rparr>) \<and> subs_map b' = (subs_map b)((h, f) \<mapsto> q)"
proof -
  have tw: "takeWhile (\<lambda>b. b \<noteq> 0) (f @ [0]) = f" using assms(4) by (subst takeWhile_append2) auto
  have key: "sub_key \<lparr>bs_filter = Some (f @ [0]), bs_client_id = c, bs_client = Some h, bs_qos = q\<rparr> = (Some h, f)"
    by (simp add: sub_key_def cstr_bytes_def tw)
  have "(Some h, f) \<notin> set (map sub_key (br_subs b))"
    using assms(2) find_key_None [of sub_key "(Some h, f)" "br_subs b"] by (simp add: subs_map_def)
  moreover have "subs_map b' (e, d) = ((subs_map b)((h, f) \<mapsto> q)) (e, d)" for e d
    by (auto simp: subs_map_def b'_def key)
  moreover have "XSTRLEN (f @ [0]) = length f" by (simp add: XSTRLEN_def tw)
  ultimately show ?thesis using assms(1,3,5) key by (auto simp: subs_inv_def b'_def sub_ok_def fun_eq_iff)
qed

lemma sub_delete:
  fixes g :: word32
  assumes "subs_inv h i (b, bc)" "subs_map b (h, f) \<noteq> None"
  defines "b' \<equiv> b\<lparr>br_subs := rem_first (\<lambda>s. sub_key s = (Some h, f)) (br_subs b), br_subs_gen := g\<rparr>"
  shows "bc_sub_count bc > 0 \<and> subs_inv h i (b', bc\<lparr>bc_sub_count := bc_sub_count bc - 1\<rparr>) \<and> subs_map b' = (subs_map b)((h, f) := None)"
proof -
  let ?P = "\<lambda>s. sub_key s = (Some h, f)" and ?C = "\<lambda>s. bs_client s \<noteq> None" and ?h = "\<lambda>s. bs_client s = Some h"
  have ex: "list_ex ?P (br_subs b)" using assms(2) by (auto simp: list_ex_key subs_map_def)
  have P: "?P s \<Longrightarrow> bs_client s = Some h" for s by (simp add: sub_key_def)
  have fl: "filter ?C (rem_first ?P l) = rem_first ?P (filter ?C l)" for l by (induction l) (auto dest: P)
  have cnt: "list_ex ?P l \<Longrightarrow> int (length (filter ?h (rem_first ?P l))) = int (length (filter ?h l)) - 1 \<and> length (filter ?h l) > 0" for l
    by (induction l) (auto dest: P)
  have "find (\<lambda>s. sub_key s = (Some e, d)) (rem_first ?P (br_subs b)) =
      (if e = h \<and> d = f then None else find (\<lambda>s. sub_key s = (Some e, d)) (br_subs b))" for e d
    unfolding find_client [of e d "rem_first ?P (br_subs b)"] find_client [of e d "br_subs b"] fl
    by (subst find_key_rem) (use assms(1) in \<open>auto simp: subs_inv_def\<close>)
  then have "subs_map b' (e, d) = ((subs_map b)((h, f) := None)) (e, d)" for e d by (simp add: subs_map_def b'_def)
  moreover have "distinct (map sub_key (filter ?C (rem_first ?P (br_subs b))))"
    unfolding fl using assms(1) by (intro rem_first_distinct) (simp add: subs_inv_def)
  ultimately show ?thesis using assms(1) cnt [OF ex] rem_first_subset [of ?P "br_subs b"]
    by (auto simp: subs_inv_def b'_def fun_eq_iff)
qed

lemma sub_refines:
  assumes "subs_inv h i s" "sub_wf op"
  shows "\<exists>s' rc. sub_step h s op = Ok (s', rc) \<and> subs_inv h i s' \<and> sub_spec h i (subs_map (fst s)) op = (subs_map (fst s'), rc)"
proof -
  obtain b bc where s: "s = (b, bc)" by force
  note inv = assms(1) [unfolded s]
  have ok: "\<forall>s \<in> set (br_subs b). sub_ok s" using inv by (simp add: subs_inv_def)
  show ?thesis
  proof (cases op)
    case (Subscribe malloc f n q)
    have w: "unat n \<le> length f" "0 \<notin> set (take (unat n) f)" using assms(2) Subscribe by auto
    have "length (take (unat n) f) = unat n" using w(1) by simp
    then have l: "length (take (unat n) f) \<le> 0xFFFF" using unat_word16_less [of n] by linarith
    have c: "int (card {g. subs_map b (h, g) \<noteq> None}) = bc_sub_count bc" "BROKER_STR_VALID (bc_client_id bc) = i"
      using inv sub_card [of b h] by (auto simp: subs_inv_def BROKER_STR_VALID_def)
    show ?thesis using sub_update [OF inv] sub_insert [OF inv _ l w(2)] inv w
      unfolding s Subscribe sub_step.simps BrokerSubs_Add_def subs_walk [OF ok w] sub_spec.simps Let_def fst_conv c
      by (auto simp: rdn_def blk_def)
  next
    case (Unsubscribe f n)
    have w: "unat n \<le> length f" "0 \<notin> set (take (unat n) f)" using assms(2) Unsubscribe by auto
    show ?thesis using sub_delete [OF inv] inv
      unfolding s Unsubscribe sub_step.simps BrokerSubs_Remove_def subs_walk [OF ok w] sub_spec.simps
      by (auto simp: fun_upd_idem)
  qed
qed

interpretation subs: table_spec "sub_step h" "sub_spec h i" "\<lambda>s. subs_map (fst s)" "subs_inv h i" sub_wf for h i
  by unfold_locales (rule sub_refines)

section \<open>Properties\<close>

text \<open>C12: The subscription list refines a map from client and topic filter to QoS: any sequence of subscriptions and
  removals by one client runs to its end, returns the codes of the specification (1 for a new subscription, 0 for a
  changed one, an error when the client has eight or there is no memory) and leaves its subscriptions and those of all
  other clients as the map has them, with the counter of the client equal to their number.\<close>

theorem subs_refine_map:
  assumes "subs_inv h i (b, bc)" "list_all sub_wf ops"
  shows "\<exists>b' bc' rcs. run_ops (sub_step h) (b, bc) ops = Ok ((b', bc'), rcs) \<and> subs_inv h i (b', bc') \<and>
    run_spec (sub_spec h i) (subs_map b) ops = (subs_map b', rcs)"
  using subs.run_refines [OF assms] by auto

theorem subs_refine_map_witness:
  "\<exists>b' bc'. run_ops (sub_step 3) (zero_broker, zero_client :: unit BrokerClient)
       [Subscribe (\<lambda>_. True) [0x61, 0x62] 1 MQTT_QOS_1, Subscribe (\<lambda>_. True) [0x61] 1 MQTT_QOS_2,
        Subscribe (\<lambda>k. k = 0) [0x63] 1 MQTT_QOS_0, Unsubscribe [0x61] 1, Subscribe (\<lambda>_. True) [0x62] 1 MQTT_QOS_0]
     = Ok ((b', bc'), [1, 0, err_code MEMORY, 0, 1]) \<and> subs_map b' = [(3, [0x62]) \<mapsto> MQTT_QOS_0] \<and> bc_sub_count bc' = 1"
proof -
  let ?ops = "[Subscribe (\<lambda>_. True) [0x61, 0x62] 1 MQTT_QOS_1, Subscribe (\<lambda>_. True) [0x61] 1 MQTT_QOS_2,
        Subscribe (\<lambda>k. k = 0) [0x63] 1 MQTT_QOS_0, Unsubscribe [0x61] 1, Subscribe (\<lambda>_. True) [0x62] 1 MQTT_QOS_0]"
  have e: "subs_map zero_broker = Map.empty" by (simp add: subs_map_def zero_broker_def fun_eq_iff)
  have s: "run_spec (sub_spec 3 False) Map.empty ?ops = ([(3, [0x62]) \<mapsto> MQTT_QOS_0], [1, 0, err_code MEMORY, 0, 1])"
    by (simp add: Let_def fun_eq_iff)
  have "subs_inv 3 False (zero_broker, zero_client :: unit BrokerClient)" "list_all sub_wf ?ops"
    by (simp_all add: subs_inv_def zero_broker_def zero_client_def)
  from subs_refine_map [OF this] obtain b' and bc' :: "unit BrokerClient" where r:
    "run_ops (sub_step 3) (zero_broker, zero_client) ?ops = Ok ((b', bc'), [1, 0, err_code MEMORY, 0, 1])"
    "subs_inv 3 False (b', bc')" "subs_map b' = [(3, [0x62]) \<mapsto> MQTT_QOS_0]" unfolding e s by auto
  have "{g. subs_map b' (3, g) \<noteq> None} = {[0x62]}" by (auto simp: r(3))
  then have "bc_sub_count bc' = 1" using r(2) sub_card [of b' 3] by (simp add: subs_inv_def)
  with r show ?thesis by blast
qed

end
