(* ===== verification/Broker_Queue.thy ===== *)
theory Broker_Queue
  imports Broker_State Packet_Publish Packet_Resp Packet_IO
begin

text \<open>
  The outbound queue of a subscriber, \<^verbatim>\<open>src/mqtt_broker.c\<close>: deep copies of property lists, allocation and release of
  an entry, \<^verbatim>\<open>BrokerClient_EnqueueOutPub\<close>, the drain \<^verbatim>\<open>BrokerClient_DrainOutQueue\<close>, which writes queued publications
  in order up to the limit of unacknowledged ones, and the handlers of PUBACK, PUBREC and PUBCOMP.

  The queue is the list of its entries from head to tail.  A drain keeps the entries before the current one in a
  list of their own; \<open>drain_step\<close> is the body of its loop.  The property store is the one of \<open>Prop_Pool\<close>: a
  copy takes new cells behind those in use, and a cell that is released is zeroed, as the code does before it
  gives the memory back.
\<close>

abbreviation (input) "BROKER_MAX_INFLIGHT_PER_SUB \<equiv> (16 :: int)"
abbreviation (input) "BROKER_MAX_QUEUED_MSGS_PER_SUB \<equiv> (48 :: int)"

section \<open>Copies of property lists\<close>

text \<open>The argument \<open>n\<close> bounds the walk by the number of cells.\<close>

fun free_clone :: "nat \<Rightarrow> store \<Rightarrow> nat option \<Rightarrow> store outcome" where
  "free_clone n H None = Ok H"
| "free_clone 0 H (Some i) = Fault"
| "free_clone (Suc n) H (Some i) = (if i < length H then free_clone n (H[i := zero_prop]) (next (H ! i)) else Fault)"

definition BrokerProps_FreeClone :: "store \<Rightarrow> nat option \<Rightarrow> store outcome" where
  "BrokerProps_FreeClone H head = free_clone (length H) H head"

text \<open>
  A copy of a string; \<open>malloc k\<close> is the result of the \<open>k\<close>-th call of the allocator, and the number of the next
  call is returned with the copy, \<open>None\<close> when there is no memory.
\<close>

definition clone_str :: "(nat \<Rightarrow> bool) \<Rightarrow> nat \<Rightarrow> MqttProp_Str \<Rightarrow> (nat \<times> MqttProp_Str option) outcome" where
  "clone_str malloc k s =
     (case str s of
        None \<Rightarrow> Ok (k, Some no_str)
      | Some b \<Rightarrow>
          if len s > 0 then
            if malloc k then bnd (rdn b 0 (unat (len s))) (\<lambda>bs. Ok (Suc k, Some \<lparr>len = len s, str = Some bs\<rparr>))
            else Ok (Suc k, None)
          else Ok (k, Some no_str))"

text \<open>The copy of one element, \<open>None\<close> when one of its allocations fails.\<close>

definition clone_prop :: "(nat \<Rightarrow> bool) \<Rightarrow> nat \<Rightarrow> MqttProp \<Rightarrow> (nat \<times> MqttProp option) outcome" where
  "clone_prop malloc k src =
     (if \<not> malloc k then Ok (Suc k, None)
      else
        bnd (clone_str malloc (Suc k) (data_str src)) (\<lambda>(k1, s1). case s1 of None \<Rightarrow> Ok (k1, None) | Some s1 \<Rightarrow>
        bnd (clone_str malloc k1 (data_str2 src)) (\<lambda>(k2, s2). case s2 of None \<Rightarrow> Ok (k2, None) | Some s2 \<Rightarrow>
        bnd (clone_str malloc k2 (data_bin src)) (\<lambda>(k3, b). case b of None \<Rightarrow> Ok (k3, None) | Some b \<Rightarrow>
        Ok (k3, Some \<lparr>type = type src, data_byte = data_byte src, data_short = data_short src, data_int = data_int src,
                      data_str = s1, data_bin = b, data_str2 = s2, next = None\<rparr>)))))"

text \<open>
  The loop over the source.  The copies made so far are the cells \<open>head\<close> to \<open>tail\<close>; a failure releases them.
\<close>

fun clone_loop :: "nat \<Rightarrow> (nat \<Rightarrow> bool) \<Rightarrow> nat \<Rightarrow> store \<Rightarrow> nat option \<Rightarrow> nat option \<Rightarrow> nat option \<Rightarrow> (store \<times> nat option) outcome" where
  "clone_loop n malloc k H None head tail = Ok (H, head)"
| "clone_loop 0 malloc k H (Some i) head tail = Fault"
| "clone_loop (Suc n) malloc k H (Some i) head tail =
     (if i < length H then
        bnd (clone_prop malloc k (H ! i)) (\<lambda>(k', dst).
          case dst of
            None \<Rightarrow> bnd (BrokerProps_FreeClone H head) (\<lambda>H'. Ok (H', None))
          | Some d \<Rightarrow>
              (let j = length H; H1 = H @ [d] in
               case tail of
                 None \<Rightarrow> clone_loop n malloc k' H1 (next (H ! i)) (Some j) (Some j)
               | Some t \<Rightarrow> clone_loop n malloc k' (H1[t := (H1 ! t)\<lparr>next := Some j\<rparr>]) (next (H ! i)) head (Some j)))
      else Fault)"

definition BrokerProps_Clone :: "(nat \<Rightarrow> bool) \<Rightarrow> nat \<Rightarrow> store \<Rightarrow> nat option \<Rightarrow> (store \<times> nat option) outcome" where
  "BrokerProps_Clone malloc k H src = clone_loop (length H) malloc k H src None None"

section \<open>Entries\<close>

definition BrokerOutPub_Free :: "store \<Rightarrow> BrokerOutPub \<Rightarrow> store outcome" where
  "BrokerOutPub_Free H e = BrokerProps_FreeClone H (op_props e)"

definition BrokerOutPub_Alloc ::
  "(nat \<Rightarrow> bool) \<Rightarrow> store \<Rightarrow> cstr option \<Rightarrow> mem option \<Rightarrow> word32 \<Rightarrow> nat option \<Rightarrow> (store \<times> BrokerOutPub option) outcome" where
  "BrokerOutPub_Alloc malloc H topic payload payload_len src_props =
     (case topic of None \<Rightarrow> Ok (H, None) | Some t \<Rightarrow>
      if \<not> malloc 0 \<or> \<not> malloc 1 then Ok (H, None)
      else
        let e = zero_out_pub\<lparr>op_topic := cstr_bytes t @ [0]\<rparr> in
        bnd (case payload of
               Some p \<Rightarrow> if payload_len > 0 then
                            if malloc 2 then bnd (rdn p 0 (unat payload_len)) (\<lambda>bs.
                              Ok (Some (e\<lparr>op_payload := Some bs, op_payload_len := payload_len\<rparr>)))
                            else Ok None
                          else Ok (Some e)
             | None \<Rightarrow> Ok (Some e)) (\<lambda>e1.
          case e1 of None \<Rightarrow> Ok (H, None)
          | Some e1 \<Rightarrow>
              if src_props = None then Ok (H, Some e1)
              else bnd (BrokerProps_Clone malloc 3 H src_props) (\<lambda>(H', p).
                Ok (H', case p of None \<Rightarrow> None | Some _ \<Rightarrow> Some (e1\<lparr>op_props := p\<rparr>)))))"

definition BrokerClient_EnqueueOutPub :: "'w BrokerClient \<Rightarrow> BrokerOutPub \<Rightarrow> 'w BrokerClient" where
  "BrokerClient_EnqueueOutPub bc e = bc\<lparr>bc_out_q := bc_out_q bc @ [e], bc_out_q_count := bc_out_q_count bc + 1\<rparr>"

fun free_all :: "store \<Rightarrow> BrokerOutPub list \<Rightarrow> store outcome" where
  "free_all H [] = Ok H"
| "free_all H (e # es) = bnd (BrokerOutPub_Free H e) (\<lambda>H'. free_all H' es)"

definition BrokerClient_FreeOutQueue :: "store \<Rightarrow> 'w BrokerClient \<Rightarrow> (store \<times> 'w BrokerClient) outcome" where
  "BrokerClient_FreeOutQueue H bc =
     bnd (free_all H (bc_out_q bc)) (\<lambda>H'.
       Ok (H', bc\<lparr>bc_out_q := [], bc_out_q_count := 0, bc_out_q_inflight := 0, bc_out_q_pending_len := 0\<rparr>))"

section \<open>Drain\<close>

text \<open>
  What one turn of the loop does with the current entry: keep it and go on (with its new value and the number of
  packets written), unlink it and go on, return with the entry kept or unlinked, or end the loop.
\<close>

datatype turn = Keep BrokerOutPub int | Unlink int | Return_keep BrokerOutPub int | Return_unlink int | Break

type_synonym 'w drain_state = "'w \<times> store \<times> 'w BrokerClient"

definition write_code :: "int \<Rightarrow> int" where
  "write_code wr_rc = (if wr_rc < 0 then wr_rc else err_code NETWORK)"

text \<open>The PUBREL of an exchange resumed after a reconnect is sent again.\<close>

definition drain_rel :: "bool \<Rightarrow> nat \<Rightarrow> 'w drain_state \<Rightarrow> BrokerOutPub \<Rightarrow> ('w drain_state \<times> turn) outcome" where
  "drain_rel nb now = (\<lambda>(w, H, bc) cur.
     let rel = \<lparr>resp_packet_id = op_packet_id cur, resp_reason_code = 0, resp_props = None, resp_level = op_level cur\<rparr> in
     case MqttEncode_PublishResp H (Some (bc_tx_buf bc)) (bc_tx_buf_len bc) MQTT_PACKET_TYPE_PUBLISH_REL (Some rel) of
       Fault \<Rightarrow> Fault
     | Err e \<Rightarrow> Ok ((w, H, bc), Keep cur 0)
     | Ok (m, rel_rc) \<Rightarrow>
         if rel_rc > 0 then
           if bc_out_q_pending_len bc \<noteq> 0 \<and> bc_out_q_pending_len bc \<noteq> int rel_rc
           then Ok ((w, H, bc\<lparr>bc_tx_buf := m\<rparr>), Return_keep cur (err_code SYSTEM_ERR))
           else
             bnd (MqttPacket_Write nb now w (bc_client bc) (Some m) (int rel_rc)) (\<lambda>(w', c, wr_rc).
               let bc1 = bc\<lparr>bc_tx_buf := m, bc_client := c\<rparr> in
               if wr_rc = err_code CONTINUE
               then Ok ((w', H, bc1\<lparr>bc_out_q_pending_len := int rel_rc\<rparr>), Return_keep cur wr_rc)
               else
                 let bc2 = bc1\<lparr>bc_out_q_pending_len := 0\<rparr> in
                 if wr_rc \<noteq> int rel_rc then Ok ((w', H, bc2), Return_keep cur (write_code wr_rc))
                 else Ok ((w', H, bc2), Keep (cur\<lparr>op_retransmit_dup := 0\<rparr>) 1))
         else Ok ((w, H, bc\<lparr>bc_tx_buf := m\<rparr>), Keep cur 0))"

definition drain_msg :: "BrokerOutPub \<Rightarrow> MqttMessage" where
  "drain_msg cur =
     \<lparr>packet_id = op_packet_id cur, msg_type = 0, qos = op_qos cur, retain = op_retain cur, duplicate = op_retransmit_dup cur,
      topic_name = Some (op_topic cur), topic_name_len = 0, total_len = op_payload_len cur, buffer = op_payload cur,
      buffer_len = 0, buffer_pos = 0, buffer_new = 0, intBuf_len = 0, intBuf_pos = 0, msg_props = op_props cur,
      msg_level = op_level cur\<rparr>"

text \<open>After a write that failed: \<open>write.pos\<close> tells whether a part of the publication is on the wire.\<close>

definition drain_failed :: "'w drain_state \<Rightarrow> BrokerOutPub \<Rightarrow> int \<Rightarrow> ('w drain_state \<times> turn) outcome" where
  "drain_failed = (\<lambda>(w, H, bc) cur wr_rc.
     if sk_pos (cl_write (bc_client bc)) > 0 \<and> op_qos cur > MQTT_QOS_0
     then Ok ((w, H, bc), Return_keep (cur\<lparr>op_retransmit_dup := 1\<rparr>) (write_code wr_rc))
     else if sk_pos (cl_write (bc_client bc)) > 0 \<and> wr_rc \<noteq> err_code TIMEOUT
     then bnd (BrokerOutPub_Free H cur) (\<lambda>H'.
       Ok ((w, H', bc\<lparr>bc_out_q_count := bc_out_q_count bc - 1,
                      bc_client := (bc_client bc)\<lparr>cl_write := (cl_write (bc_client bc))\<lparr>sk_pos := 0\<rparr>\<rparr>\<rparr>),
           Return_unlink (write_code wr_rc)))
     else Ok ((w, H, bc), Return_keep cur (write_code wr_rc)))"

definition drain_sent :: "'w drain_state \<Rightarrow> BrokerOutPub \<Rightarrow> ('w drain_state \<times> turn) outcome" where
  "drain_sent = (\<lambda>(w, H, bc) cur.
     if op_qos cur = MQTT_QOS_0 then
       bnd (BrokerOutPub_Free H cur) (\<lambda>H'. Ok ((w, H', bc\<lparr>bc_out_q_count := bc_out_q_count bc - 1\<rparr>), Unlink 1))
     else Ok ((w, H, bc\<lparr>bc_out_q_inflight := bc_out_q_inflight bc + 1\<rparr>),
              Keep (cur\<lparr>op_retransmit_dup := 0, op_state := BROKER_OUTQ_PUBLISH_SENT\<rparr>) 1))"

text \<open>The encoder failed: the entry is dropped, unless its earlier bytes are on the wire.\<close>

definition drain_unencodable :: "'w drain_state \<Rightarrow> BrokerOutPub \<Rightarrow> int \<Rightarrow> ('w drain_state \<times> turn) outcome" where
  "drain_unencodable = (\<lambda>(w, H, bc) cur enc_rc.
     if bc_out_q_pending_len bc \<noteq> 0
     then Ok ((w, H, bc), Return_keep cur (if enc_rc < 0 then enc_rc else err_code SYSTEM_ERR))
     else bnd (BrokerOutPub_Free H cur) (\<lambda>H'.
       Ok ((w, H', bc\<lparr>bc_tx_buf := map (\<lambda>_. 0) (bc_tx_buf bc), bc_out_q_count := bc_out_q_count bc - 1\<rparr>), Unlink 0)))"

definition drain_publish :: "bool \<Rightarrow> nat \<Rightarrow> 'w drain_state \<Rightarrow> BrokerOutPub \<Rightarrow> ('w drain_state \<times> turn) outcome" where
  "drain_publish nb now = (\<lambda>(w, H, bc) cur.
     case MqttEncode_Publish H (Some (bc_tx_buf bc)) (bc_tx_buf_len bc) (Some (drain_msg cur)) 0 of
       Fault \<Rightarrow> Fault
     | Err e \<Rightarrow> drain_unencodable (w, H, bc) cur (err_code e)
     | Ok (m, out_pub, enc_rc) \<Rightarrow>
         if enc_rc \<le> 0 then drain_unencodable (w, H, bc\<lparr>bc_tx_buf := m\<rparr>) cur enc_rc
         else if bc_out_q_pending_len bc \<noteq> 0 \<and> bc_out_q_pending_len bc \<noteq> enc_rc
         then Ok ((w, H, bc\<lparr>bc_tx_buf := m\<rparr>), Return_keep cur (err_code SYSTEM_ERR))
         else
           bnd (MqttPacket_Write nb now w (bc_client bc) (Some m) enc_rc) (\<lambda>(w', c, wr_rc).
             let bc1 = bc\<lparr>bc_tx_buf := m, bc_client := c\<rparr> in
             if wr_rc = err_code CONTINUE then
               Ok ((w', H, bc1\<lparr>bc_out_q_pending_len := enc_rc\<rparr>),
                   Return_keep (if op_qos cur > MQTT_QOS_0 \<and> sk_pos (cl_write c) > 0 then cur\<lparr>op_retransmit_dup := 1\<rparr> else cur) wr_rc)
             else
               let bc2 = bc1\<lparr>bc_out_q_pending_len := 0, bc_tx_buf := splice_at m 0 (replicate (nat enc_rc) 0)\<rparr> in
               if wr_rc \<noteq> enc_rc then drain_failed (w', H, bc2) cur wr_rc
               else drain_sent (w', H, bc2) cur))"

definition drain_step :: "bool \<Rightarrow> nat \<Rightarrow> int \<Rightarrow> 'w drain_state \<Rightarrow> BrokerOutPub \<Rightarrow> ('w drain_state \<times> turn) outcome" where
  "drain_step nb now cap st cur =
     (if op_state cur \<noteq> BROKER_OUTQ_QUEUED then
        if op_state cur = BROKER_OUTQ_PUBREL_SENT \<and> op_retransmit_dup cur \<noteq> 0 then drain_rel nb now st cur
        else Ok (st, Keep cur 0)
      else if op_qos cur > MQTT_QOS_0 \<and> bc_out_q_inflight (snd (snd st)) \<ge> cap then Ok (st, Break)
      else drain_publish nb now st cur)"

text \<open>The loop: \<open>ahead\<close> are the entries it has passed, the argument list the current entry and those behind it.\<close>

fun drain_loop ::
  "bool \<Rightarrow> nat \<Rightarrow> int \<Rightarrow> BrokerOutPub list \<Rightarrow> BrokerOutPub list \<Rightarrow> 'w drain_state \<Rightarrow> int \<Rightarrow> ('w drain_state \<times> int) outcome" where
  "drain_loop nb now cap ahead [] (w, H, bc) sent = Ok ((w, H, bc\<lparr>bc_out_q := ahead\<rparr>), sent)"
| "drain_loop nb now cap ahead (cur # es) (w, H, bc) sent =
     bnd (drain_step nb now cap (w, H, bc) cur) (\<lambda>((w', H', bc'), t).
       case t of
         Keep cur' k \<Rightarrow> drain_loop nb now cap (ahead @ [cur']) es (w', H', bc') (sent + k)
       | Unlink k \<Rightarrow> drain_loop nb now cap ahead es (w', H', bc') (sent + k)
       | Return_keep cur' rc \<Rightarrow> Ok ((w', H', bc'\<lparr>bc_out_q := ahead @ cur' # es\<rparr>), rc)
       | Return_unlink rc \<Rightarrow> Ok ((w', H', bc'\<lparr>bc_out_q := ahead @ es\<rparr>), rc)
       | Break \<Rightarrow> Ok ((w', H', bc'\<lparr>bc_out_q := ahead @ cur # es\<rparr>), sent))"

definition effective_cap :: "'w BrokerClient \<Rightarrow> int" where
  "effective_cap bc =
     (if bc_client_receive_max bc \<noteq> 0 \<and> int (unat (bc_client_receive_max bc)) < BROKER_MAX_INFLIGHT_PER_SUB
      then int (unat (bc_client_receive_max bc)) else BROKER_MAX_INFLIGHT_PER_SUB)"

definition BrokerClient_DrainOutQueue :: "bool \<Rightarrow> nat \<Rightarrow> 'w drain_state \<Rightarrow> ('w drain_state \<times> int) outcome" where
  "BrokerClient_DrainOutQueue nb now = (\<lambda>(w, H, bc).
     if bc_out_q bc = [] \<or> bc_connack_pending_len bc \<noteq> 0 \<or> bc_direct_pending_len bc \<noteq> 0 then Ok ((w, H, bc), 0)
     else drain_loop nb now (effective_cap bc) [] (bc_out_q bc) (w, H, bc) 0)"

section \<open>Acknowledgements\<close>

definition awaits :: "word16 \<Rightarrow> byte \<Rightarrow> BrokerOutPub \<Rightarrow> bool" where
  "awaits pid st e \<longleftrightarrow> op_packet_id e = pid \<and> op_state e = st"

definition BrokerClient_FindOutPub :: "'w BrokerClient \<Rightarrow> word16 \<Rightarrow> byte \<Rightarrow> BrokerOutPub option" where
  "BrokerClient_FindOutPub bc pid expected_state =
     (if pid = 0 then None else find (awaits pid expected_state) (bc_out_q bc))"

text \<open>The entry that \<open>BrokerClient_FindOutPub\<close> found is unlinked.\<close>

definition BrokerClient_UnlinkOutPub ::
  "store \<Rightarrow> 'w BrokerClient \<Rightarrow> word16 \<Rightarrow> byte \<Rightarrow> BrokerOutPub \<Rightarrow> (store \<times> 'w BrokerClient) outcome" where
  "BrokerClient_UnlinkOutPub H bc pid expected_state e =
     bnd (BrokerOutPub_Free H e) (\<lambda>H'.
       Ok (H', bc\<lparr>bc_out_q := rem_first (awaits pid expected_state) (bc_out_q bc), bc_out_q_count := bc_out_q_count bc - 1,
                 bc_out_q_inflight := (if (op_state e = BROKER_OUTQ_PUBLISH_SENT \<or> op_state e = BROKER_OUTQ_PUBREL_SENT)
                                          \<and> bc_out_q_inflight bc > 0
                                       then bc_out_q_inflight bc - 1 else bc_out_q_inflight bc)\<rparr>))"

definition unlink_drain :: "bool \<Rightarrow> nat \<Rightarrow> 'w drain_state \<Rightarrow> word16 \<Rightarrow> byte \<Rightarrow> BrokerOutPub \<Rightarrow> 'w drain_state outcome" where
  "unlink_drain nb now = (\<lambda>(w, H, bc) pid st e.
     bnd (BrokerClient_UnlinkOutPub H bc pid st e) (\<lambda>(H', bc').
       bnd (BrokerClient_DrainOutQueue nb now (w, H', bc')) (\<lambda>(s, rc). Ok s)))"

definition BrokerClient_OnPubAck :: "bool \<Rightarrow> nat \<Rightarrow> 'w drain_state \<Rightarrow> word16 \<Rightarrow> 'w drain_state outcome" where
  "BrokerClient_OnPubAck nb now = (\<lambda>(w, H, bc) pid.
     case BrokerClient_FindOutPub bc pid BROKER_OUTQ_PUBLISH_SENT of
       None \<Rightarrow> Ok (w, H, bc)
     | Some e \<Rightarrow> unlink_drain nb now (w, H, bc) pid BROKER_OUTQ_PUBLISH_SENT e)"

definition BrokerClient_OnPubRec :: "'w BrokerClient \<Rightarrow> word16 \<Rightarrow> 'w BrokerClient \<times> int" where
  "BrokerClient_OnPubRec bc pid =
     (case BrokerClient_FindOutPub bc pid BROKER_OUTQ_PUBLISH_SENT of
        None \<Rightarrow> (bc, 0)
      | Some e \<Rightarrow>
          if op_qos e \<noteq> MQTT_QOS_2 then (bc, - 1)
          else (bc\<lparr>bc_out_q := upd_first (awaits pid BROKER_OUTQ_PUBLISH_SENT)
                     (\<lambda>e. e\<lparr>op_state := BROKER_OUTQ_PUBREL_SENT\<rparr>) (bc_out_q bc)\<rparr>, 1))"

definition BrokerClient_OnPubReject :: "bool \<Rightarrow> nat \<Rightarrow> 'w drain_state \<Rightarrow> word16 \<Rightarrow> 'w drain_state outcome" where
  "BrokerClient_OnPubReject nb now = (\<lambda>(w, H, bc) pid.
     case BrokerClient_FindOutPub bc pid BROKER_OUTQ_PUBLISH_SENT of
       None \<Rightarrow> Ok (w, H, bc)
     | Some e \<Rightarrow> if op_qos e \<noteq> MQTT_QOS_2 then Ok (w, H, bc)
                 else unlink_drain nb now (w, H, bc) pid BROKER_OUTQ_PUBLISH_SENT e)"

definition BrokerClient_OnPubComp :: "bool \<Rightarrow> nat \<Rightarrow> 'w drain_state \<Rightarrow> word16 \<Rightarrow> 'w drain_state outcome" where
  "BrokerClient_OnPubComp nb now = (\<lambda>(w, H, bc) pid.
     case BrokerClient_FindOutPub bc pid BROKER_OUTQ_PUBREL_SENT of
       None \<Rightarrow> Ok (w, H, bc)
     | Some e \<Rightarrow> unlink_drain nb now (w, H, bc) pid BROKER_OUTQ_PUBREL_SENT e)"

section \<open>Packet identifiers\<close>

definition BrokerPacketIdInQueue :: "BrokerOutPub list \<Rightarrow> word16 \<Rightarrow> bool" where
  "BrokerPacketIdInQueue out_q pid = list_ex (\<lambda>e. op_packet_id e = pid) out_q"

definition next_id :: "word16 \<Rightarrow> word16" where
  "next_id c = (if c + 1 = 0 then 1 else c + 1)"

text \<open>The loop ends when it is back at its first candidate, after at most 65535 turns, the argument \<open>n\<close>.\<close>

fun id_search :: "nat \<Rightarrow> BrokerOutPub list \<Rightarrow> word16 \<Rightarrow> word16 \<Rightarrow> word16 option" where
  "id_search 0 out_q first candidate = None"
| "id_search (Suc n) out_q first candidate =
     (if \<not> BrokerPacketIdInQueue out_q candidate then Some candidate
      else if next_id candidate = first then None
      else id_search n out_q first (next_id candidate))"

text \<open>The new value of \<^verbatim>\<open>broker->next_packet_id\<close> and the identifier, zero when all are in use.\<close>

definition BrokerNextPacketIdForQueue :: "word16 \<Rightarrow> BrokerOutPub list \<Rightarrow> word16 \<times> word16" where
  "BrokerNextPacketIdForQueue next_packet_id out_q =
     (let candidate = (if next_packet_id = 0 then 1 else next_packet_id) in
      case id_search 65535 out_q candidate candidate of
        Some c \<Rightarrow> (next_id c, c)
      | None \<Rightarrow> (next_packet_id, 0))"

section \<open>Direct responses\<close>

definition BrokerClient_WriteDirect :: "bool \<Rightarrow> nat \<Rightarrow> 'w \<Rightarrow> 'w BrokerClient \<Rightarrow> int \<Rightarrow> ('w \<times> 'w BrokerClient \<times> int) outcome" where
  "BrokerClient_WriteDirect nb now w bc packet_len =
     (if packet_len \<le> 0 then Ok (w, bc, err_code BAD_ARG)
      else if bc_direct_pending_len bc \<noteq> 0 \<and> bc_direct_pending_len bc \<noteq> packet_len then Ok (w, bc, err_code SYSTEM_ERR)
      else bnd (MqttPacket_Write nb now w (bc_client bc) (Some (bc_tx_buf bc)) packet_len) (\<lambda>(w', c, rc).
        Ok (w', bc\<lparr>bc_client := c, bc_direct_pending_len := (if rc = err_code CONTINUE then packet_len else 0)\<rparr>, rc)))"

definition BrokerClient_WriteResp :: "bool \<Rightarrow> nat \<Rightarrow> 'w \<Rightarrow> 'w BrokerClient \<Rightarrow> int \<Rightarrow> ('w \<times> 'w BrokerClient \<times> int) outcome" where
  "BrokerClient_WriteResp nb now w bc packet_len =
     bnd (BrokerClient_WriteDirect nb now w bc packet_len) (\<lambda>(w', bc', rc).
       Ok (w', bc', if rc = packet_len \<or> rc = err_code CONTINUE then rc else err_code NETWORK))"

section \<open>One turn of the drain\<close>

text \<open>The entry of the queue after a turn is the same message; only its state and its DUP flag may differ.\<close>

definition same_msg :: "BrokerOutPub \<Rightarrow> BrokerOutPub \<Rightarrow> bool" where
  "same_msg e e' \<longleftrightarrow> e' = e\<lparr>op_state := op_state e', op_retransmit_dup := op_retransmit_dup e'\<rparr>"

definition turn_ok :: "int \<Rightarrow> BrokerOutPub \<Rightarrow> 'w BrokerClient \<Rightarrow> 'w BrokerClient \<Rightarrow> turn \<Rightarrow> bool" where
  "turn_ok cap cur bc bc' t \<longleftrightarrow>
     (case t of
        Keep cur' k \<Rightarrow> k \<ge> 0 \<and> same_msg cur cur' \<and> bc_out_q_count bc' = bc_out_q_count bc \<and>
          (if op_state cur = BROKER_OUTQ_QUEUED
           then op_state cur' = BROKER_OUTQ_PUBLISH_SENT \<and> op_qos cur > MQTT_QOS_0 \<and>
                bc_out_q_inflight bc < cap \<and> bc_out_q_inflight bc' = bc_out_q_inflight bc + 1
           else op_state cur' = op_state cur \<and> bc_out_q_inflight bc' = bc_out_q_inflight bc)
      | Unlink k \<Rightarrow> k \<ge> 0 \<and> op_state cur = BROKER_OUTQ_QUEUED \<and> bc_out_q_count bc' = bc_out_q_count bc - 1 \<and>
          bc_out_q_inflight bc' = bc_out_q_inflight bc
      | Return_keep cur' rc \<Rightarrow> rc < 0 \<and> same_msg cur cur' \<and> op_state cur' = op_state cur \<and>
          bc_out_q_count bc' = bc_out_q_count bc \<and> bc_out_q_inflight bc' = bc_out_q_inflight bc
      | Return_unlink rc \<Rightarrow> rc < 0 \<and> op_state cur = BROKER_OUTQ_QUEUED \<and> bc_out_q_count bc' = bc_out_q_count bc - 1 \<and>
          bc_out_q_inflight bc' = bc_out_q_inflight bc
      | Break \<Rightarrow> bc' = bc \<and> op_state cur = BROKER_OUTQ_QUEUED \<and> op_qos cur > MQTT_QOS_0 \<and> bc_out_q_inflight bc \<ge> cap)"

lemma same_msg_simps [simp]:
  "same_msg e e" "same_msg e (e\<lparr>op_retransmit_dup := d\<rparr>)" "same_msg e (e\<lparr>op_retransmit_dup := d, op_state := s\<rparr>)"
  by (simp_all add: same_msg_def)

abbreviation (input) turns :: "int \<Rightarrow> BrokerOutPub \<Rightarrow> 'w BrokerClient \<Rightarrow> 'w drain_state \<times> turn \<Rightarrow> bool" where
  "turns cap cur bc \<equiv> \<lambda>((w, H, bc'), t). turn_ok cap cur bc bc' t"

lemma qos_pos: "q \<noteq> MQTT_QOS_0 \<longleftrightarrow> q > (MQTT_QOS_0 :: MqttQoS)"
  by (cases q) (simp_all add: less_MqttQoS_def)

lemma write_code_neg [simp]: "write_code rc < 0"
  by (simp add: write_code_def)

lemma drain_rel_turn:
  "op_state cur \<noteq> BROKER_OUTQ_QUEUED \<Longrightarrow> returns (turns cap cur bc) (drain_rel nb now (w, H, bc) cur)"
  unfolding drain_rel_def prod.case by (intro returns_intros) (simp_all add: turn_ok_def)

lemma drain_failed_turn:
  "op_state cur = BROKER_OUTQ_QUEUED \<Longrightarrow> returns (turns cap cur bc) (drain_failed (w, H, bc) cur rc)"
  unfolding drain_failed_def prod.case by (intro returns_intros) (simp_all add: turn_ok_def)

lemma drain_sent_turn:
  "op_state cur = BROKER_OUTQ_QUEUED \<Longrightarrow> \<not> (op_qos cur > MQTT_QOS_0 \<and> bc_out_q_inflight bc \<ge> cap) \<Longrightarrow>
   returns (turns cap cur bc) (drain_sent (w, H, bc) cur)"
  unfolding drain_sent_def prod.case using qos_pos [of "op_qos cur"]
  by (intro returns_intros) (simp_all add: turn_ok_def)

lemma drain_unencodable_turn:
  "op_state cur = BROKER_OUTQ_QUEUED \<Longrightarrow> returns (turns cap cur bc) (drain_unencodable (w, H, bc) cur rc)"
  unfolding drain_unencodable_def prod.case by (intro returns_intros) (simp_all add: turn_ok_def)

text \<open>The counters are those before the buffer and the connection were changed.\<close>

lemma turn_ok_fields:
  "turn_ok cap cur b bc' t \<Longrightarrow> bc_out_q_count b = bc_out_q_count bc \<Longrightarrow> bc_out_q_inflight b = bc_out_q_inflight bc \<Longrightarrow>
   t \<noteq> Break \<Longrightarrow> turn_ok cap cur bc bc' t"
  by (cases t) (simp_all add: turn_ok_def split: if_splits)

lemma turns_fields:
  assumes "returns (turns cap cur b) r" "bc_out_q_count b = bc_out_q_count bc" "bc_out_q_inflight b = bc_out_q_inflight bc"
    and "returns (\<lambda>(s, t). t \<noteq> Break) r"
  shows "returns (turns cap cur bc) r"
  unfolding returns_def
proof (intro allI impI, goal_cases)
  case (1 x)
  obtain w H bc' t where x: "x = ((w, H, bc'), t)" by (metis surj_pair)
  show ?case using turn_ok_fields [of cap cur b bc' t bc] returnsD [OF assms(1) 1] returnsD [OF assms(4) 1] assms(2,3)
    unfolding x by simp
qed

lemma failed_no_break: "returns (\<lambda>(s, t). t \<noteq> Break) (drain_failed (w, H, bc) cur rc)"
  unfolding drain_failed_def prod.case by (intro returns_intros) simp_all

lemma sent_no_break: "returns (\<lambda>(s, t). t \<noteq> Break) (drain_sent (w, H, bc) cur)"
  unfolding drain_sent_def prod.case by (intro returns_intros) simp_all

lemma unencodable_no_break: "returns (\<lambda>(s, t). t \<noteq> Break) (drain_unencodable (w, H, bc) cur rc)"
  unfolding drain_unencodable_def prod.case by (intro returns_intros) simp_all

lemma drain_publish_turn:
  assumes "op_state cur = BROKER_OUTQ_QUEUED" "\<not> (op_qos cur > MQTT_QOS_0 \<and> bc_out_q_inflight bc \<ge> cap)"
  shows "returns (turns cap cur bc) (drain_publish nb now (w, H, bc) cur)"
  unfolding drain_publish_def prod.case
  by (intro returns_intros turns_fields [OF drain_unencodable_turn [OF assms(1)] _ _ unencodable_no_break]
        turns_fields [OF drain_failed_turn [OF assms(1)] _ _ failed_no_break]
        turns_fields [OF drain_sent_turn [OF assms(1)] _ _ sent_no_break])
     (use assms in \<open>simp_all add: turn_ok_def\<close>)

lemma drain_step_turn: "returns (turns cap cur bc) (drain_step nb now cap (w, H, bc) cur)"
  unfolding drain_step_def snd_conv
  by (intro returns_intros drain_rel_turn drain_publish_turn) (simp_all add: turn_ok_def)

section \<open>The invariant of the queue\<close>

definition entry_ok :: "BrokerOutPub \<Rightarrow> bool" where
  "entry_ok e \<longleftrightarrow>
     (op_state e = BROKER_OUTQ_QUEUED \<or> op_state e = BROKER_OUTQ_PUBLISH_SENT \<or> op_state e = BROKER_OUTQ_PUBREL_SENT) \<and>
     (op_state e \<noteq> BROKER_OUTQ_QUEUED \<longrightarrow> op_qos e > MQTT_QOS_0) \<and>
     (op_state e = BROKER_OUTQ_PUBREL_SENT \<longrightarrow> op_qos e = MQTT_QOS_2) \<and>
     (op_qos e > MQTT_QOS_0 \<longrightarrow> op_packet_id e \<noteq> 0)"

definition inflight_of :: "BrokerOutPub list \<Rightarrow> int" where
  "inflight_of q = int (length (filter (\<lambda>e. op_state e \<noteq> BROKER_OUTQ_QUEUED) q))"

definition live_ids :: "BrokerOutPub list \<Rightarrow> word16 list" where
  "live_ids q = map op_packet_id (filter (\<lambda>e. op_qos e > MQTT_QOS_0) q)"

definition queue_ok :: "BrokerOutPub list \<Rightarrow> int \<Rightarrow> int \<Rightarrow> bool" where
  "queue_ok q count inflight \<longleftrightarrow> count = int (length q) \<and> inflight = inflight_of q \<and>
     inflight \<le> BROKER_MAX_INFLIGHT_PER_SUB \<and> list_all entry_ok q \<and> distinct (live_ids q)"

definition outq_inv :: "'w BrokerClient \<Rightarrow> bool" where
  "outq_inv bc \<longleftrightarrow> queue_ok (bc_out_q bc) (bc_out_q_count bc) (bc_out_q_inflight bc)"

named_theorems queue_simps \<open>the invariant of a queue in terms of its parts\<close>

lemma queue_parts [queue_simps]:
  "inflight_of (xs @ ys) = inflight_of xs + inflight_of ys" "inflight_of [] = 0"
  "inflight_of (e # es) = (if op_state e \<noteq> BROKER_OUTQ_QUEUED then 1 else 0) + inflight_of es"
  "live_ids (xs @ ys) = live_ids xs @ live_ids ys" "live_ids [] = []"
  "live_ids (e # es) = (if op_qos e > MQTT_QOS_0 then op_packet_id e # live_ids es else live_ids es)"
  by (simp_all add: inflight_of_def live_ids_def)

lemma same_msg_fields: "same_msg e e' \<Longrightarrow> op_qos e' = op_qos e \<and> op_packet_id e' = op_packet_id e"
  unfolding same_msg_def by (cases e; cases e') simp

lemma same_msg_ok:
  assumes "same_msg e e'" "entry_ok e"
    and "op_state e' = op_state e \<or> op_state e' = BROKER_OUTQ_PUBLISH_SENT \<and> op_qos e > MQTT_QOS_0"
  shows "entry_ok e'"
  using assms same_msg_fields [OF assms(1)] by (auto simp: entry_ok_def)

lemma queue_ok_keep:
  assumes "queue_ok (b @ e # es) count inflight" "same_msg e e'" "count' = count"
    and "if op_state e = BROKER_OUTQ_QUEUED \<and> op_state e' \<noteq> BROKER_OUTQ_QUEUED
         then op_state e' = BROKER_OUTQ_PUBLISH_SENT \<and> op_qos e > MQTT_QOS_0 \<and>
              inflight < BROKER_MAX_INFLIGHT_PER_SUB \<and> inflight' = inflight + 1
         else op_state e' = op_state e \<and> inflight' = inflight"
  shows "queue_ok (b @ e' # es) count' inflight'"
  using assms same_msg_fields [OF assms(2)] same_msg_ok [OF assms(2)]
  by (auto simp: queue_ok_def queue_simps split: if_splits)

lemma queue_ok_unlink:
  "queue_ok (b @ e # es) count inflight \<Longrightarrow>
   queue_ok (b @ es) (count - 1) (if op_state e \<noteq> BROKER_OUTQ_QUEUED then inflight - 1 else inflight)"
  by (auto simp: queue_ok_def queue_simps split: if_splits)

lemma drain_loop_inv:
  assumes "queue_ok (ahead @ es) (bc_out_q_count bc) (bc_out_q_inflight bc)" "cap \<le> BROKER_MAX_INFLIGHT_PER_SUB"
  shows "returns (\<lambda>((w, H, bc'), rc). outq_inv bc') (drain_loop nb now cap ahead es (w, H, bc) sent)"
  using assms(1)
proof (induction es arbitrary: ahead w H bc sent)
  case Nil
  then show ?case by (simp add: outq_inv_def returns_def)
next
  case (Cons cur es)
  note unlink = queue_ok_unlink [OF Cons.prems] and keep = queue_ok_keep [OF Cons.prems]
  show ?case unfolding drain_loop.simps
  proof (rule returns_seq [OF drain_step_turn], clarify, goal_cases)
    case (1 w' H' bc' t)
    then have t: "turn_ok cap cur bc bc' t" by simp
    show ?case
    proof (cases t)
      case (Keep cur' k)
      then have "queue_ok ((ahead @ [cur']) @ es) (bc_out_q_count bc') (bc_out_q_inflight bc')"
        using t keep [of cur'] assms(2) by (auto simp: turn_ok_def split: if_splits)
      then show ?thesis using Keep Cons.IH [of "ahead @ [cur']"] by simp
    next
      case (Unlink k)
      then show ?thesis using t unlink Cons.IH [of ahead bc'] by (simp add: turn_ok_def)
    next
      case (Return_keep cur' rc)
      then show ?thesis using t keep [of cur'] by (simp add: turn_ok_def outq_inv_def returns_def)
    next
      case (Return_unlink rc)
      then show ?thesis using t unlink by (simp add: turn_ok_def outq_inv_def returns_def)
    next
      case Break
      then show ?thesis using t Cons.prems by (simp add: turn_ok_def outq_inv_def returns_def)
    qed
  qed
qed

lemma effective_cap_le: "effective_cap bc \<le> BROKER_MAX_INFLIGHT_PER_SUB"
  by (simp add: effective_cap_def)

lemma drain_inv:
  assumes "outq_inv bc"
  shows "returns (\<lambda>((w, H, bc'), rc). outq_inv bc') (BrokerClient_DrainOutQueue nb now (w, H, bc))"
  unfolding BrokerClient_DrainOutQueue_def prod.case
  by (intro returns_intros drain_loop_inv) (use assms effective_cap_le in \<open>simp_all add: outq_inv_def\<close>)

subsection \<open>Acknowledgements\<close>

lemma find_rem_first: "find P xs = Some e \<Longrightarrow> \<exists>as bs. xs = as @ e # bs \<and> P e \<and> \<not> list_ex P as \<and> rem_first P xs = as @ bs"
proof (induction xs)
  case (Cons x xs)
  show ?case
  proof (cases "P x")
    case True
    then show ?thesis using Cons.prems by - (rule exI [of _ "[]"], rule exI [of _ xs], simp)
  next
    case False
    then obtain as bs where "xs = as @ e # bs \<and> P e \<and> \<not> list_ex P as \<and> rem_first P xs = as @ bs" using Cons by auto
    then show ?thesis using False by - (rule exI [of _ "x # as"], rule exI [of _ bs], auto)
  qed
qed simp

lemma find_upd_first: "find P xs = Some e \<Longrightarrow> \<exists>as bs. xs = as @ e # bs \<and> P e \<and> upd_first P f xs = as @ f e # bs"
proof (induction xs)
  case (Cons x xs)
  show ?case
  proof (cases "P x")
    case True
    then show ?thesis using Cons.prems by - (rule exI [of _ "[]"], rule exI [of _ xs], simp)
  next
    case False
    then obtain as bs where "xs = as @ e # bs \<and> P e \<and> upd_first P f xs = as @ f e # bs" using Cons by auto
    then show ?thesis using False by - (rule exI [of _ "x # as"], rule exI [of _ bs], auto)
  qed
qed simp

lemma unlink_inv:
  assumes "outq_inv bc" "BrokerClient_FindOutPub bc pid st = Some e" "st \<noteq> BROKER_OUTQ_QUEUED"
  shows "returns (\<lambda>(H', bc'). outq_inv bc') (BrokerClient_UnlinkOutPub H bc pid st e)"
proof -
  obtain as bs where q: "bc_out_q bc = as @ e # bs" "awaits pid st e" "rem_first (awaits pid st) (bc_out_q bc) = as @ bs"
    using assms(2) find_rem_first unfolding BrokerClient_FindOutPub_def by (metis option.distinct(1))
  have ok: "queue_ok (as @ e # bs) (bc_out_q_count bc) (bc_out_q_inflight bc)" using assms(1) q by (simp add: outq_inv_def)
  then have "op_state e = BROKER_OUTQ_PUBLISH_SENT \<or> op_state e = BROKER_OUTQ_PUBREL_SENT" "bc_out_q_inflight bc > 0"
    using q(2) assms(3) by (auto simp: queue_ok_def entry_ok_def awaits_def queue_simps) (auto simp: inflight_of_def)
  then show ?thesis using queue_ok_unlink [OF ok] q(3) unfolding BrokerClient_UnlinkOutPub_def
    by (intro returns_intros) (auto simp: outq_inv_def)
qed

lemma unlink_drain_inv:
  assumes "outq_inv bc" "BrokerClient_FindOutPub bc pid st = Some e" "st \<noteq> BROKER_OUTQ_QUEUED"
  shows "returns (\<lambda>(w, H, bc'). outq_inv bc') (unlink_drain nb now (w, H, bc) pid st e)"
  unfolding unlink_drain_def prod.case
proof (rule returns_seq [OF unlink_inv [OF assms]], clarify, goal_cases)
  case (1 H' bc')
  show ?case by (rule returns_seq [OF drain_inv [OF 1]]) (auto intro!: returns_intros)
qed

lemma on_rec_inv:
  assumes "outq_inv bc"
  shows "outq_inv (fst (BrokerClient_OnPubRec bc pid))"
proof (cases "BrokerClient_FindOutPub bc pid BROKER_OUTQ_PUBLISH_SENT")
  case (Some e)
  let ?f = "\<lambda>e. e\<lparr>op_state := BROKER_OUTQ_PUBREL_SENT\<rparr>"
  obtain as bs where q: "bc_out_q bc = as @ e # bs" "awaits pid BROKER_OUTQ_PUBLISH_SENT e"
      "upd_first (awaits pid BROKER_OUTQ_PUBLISH_SENT) ?f (bc_out_q bc) = as @ ?f e # bs"
    using Some find_upd_first unfolding BrokerClient_FindOutPub_def by (metis option.distinct(1))
  have "queue_ok (as @ ?f e # bs) (bc_out_q_count bc) (bc_out_q_inflight bc)" if "op_qos e = MQTT_QOS_2"
    using assms q(1,2) that by (auto simp: outq_inv_def queue_ok_def entry_ok_def awaits_def queue_simps)
  then show ?thesis using assms Some q(3) by (auto simp: BrokerClient_OnPubRec_def outq_inv_def)
qed (use assms in \<open>simp add: BrokerClient_OnPubRec_def\<close>)

subsection \<open>New packet identifiers\<close>

lemma unat_next_id: "unat (next_id c) = (if unat c = 65535 then 1 else unat c + 1)"
proof (cases "unat c = 65535")
  case True
  then have "c = 65535" by (simp add: word_unat_eq_iff)
  then show ?thesis by (simp add: next_id_def)
next
  case False
  moreover have "unat c < 65536" by (rule unat_word16_less)
  ultimately have "unat c + 1 < 65536" by linarith
  then have "unat (c + 1) = unat c + 1" by (simp add: unat_word_ariths)
  then show ?thesis using False by (auto simp: next_id_def)
qed

lemma next_id_nonzero: "next_id c \<noteq> 0"
  by (simp add: next_id_def)

text \<open>The candidate in the \<open>j\<close>-th turn.\<close>

lemma unat_iterate:
  assumes "c \<noteq> 0"
  shows "unat ((next_id ^^ j) c) = (unat c - 1 + j) mod 65535 + 1"
proof (induction j)
  case 0
  have "0 < unat c" using assms by (simp add: unat_gt_0)
  moreover from this have "(unat c - 1) mod 65535 = unat c - 1" using unat_word16_less [of c] by (intro mod_less) linarith
  ultimately show ?case by simp
next
  case (Suc j)
  then show ?case by (simp add: unat_next_id mod_Suc)
qed

lemma iterate_all:
  assumes "c \<noteq> 0" "i \<noteq> (0 :: word16)"
  shows "\<exists>j < 65535. (next_id ^^ j) c = i"
proof -
  have b: "0 < unat c" "unat c < 65536" "0 < unat i" "unat i < 65536"
    using unat_word16_less [of c] unat_word16_less [of i] assms by (simp_all add: unat_gt_0)
  define j where "j = (unat i + 65535 - unat c) mod 65535"
  have "(unat c - 1 + j) mod 65535 = (unat c - 1 + (unat i + 65535 - unat c)) mod 65535"
    unfolding j_def by (simp add: mod_add_right_eq)
  also have "unat c - 1 + (unat i + 65535 - unat c) = unat i - 1 + 65535" using b by linarith
  also have "(unat i - 1 + 65535) mod 65535 = unat i - 1" using b(3,4) unfolding mod_add_self2 by (intro mod_less) linarith
  finally have "unat ((next_id ^^ j) c) = unat i" using b by (simp add: unat_iterate [OF assms(1)])
  then show ?thesis by (intro exI [of _ j]) (simp add: j_def word_unat_eq_iff)
qed

lemma id_search_some: "id_search n q f c = Some d \<Longrightarrow> c \<noteq> 0 \<Longrightarrow> d \<noteq> 0 \<and> \<not> BrokerPacketIdInQueue q d"
  by (induction n arbitrary: c) (auto simp: next_id_nonzero split: if_splits)

lemma id_search_none:
  "id_search n q f ((next_id ^^ j) f) = None \<Longrightarrow> f \<noteq> 0 \<Longrightarrow> n + j = 65535 \<Longrightarrow> j \<le> k \<Longrightarrow> k < 65535
   \<Longrightarrow> BrokerPacketIdInQueue q ((next_id ^^ k) f)"
proof (induction n arbitrary: j)
  case (Suc n)
  have here: "BrokerPacketIdInQueue q ((next_id ^^ j) f)" using Suc.prems(1) by (auto split: if_splits)
  show ?case
  proof (cases "k = j")
    case True then show ?thesis using here by simp
  next
    case False
    have "(next_id ^^ Suc j) f \<noteq> f"
    proof
      assume "(next_id ^^ Suc j) f = f"
      then have "unat f = (unat f - 1 + Suc j) mod 65535 + 1" using unat_iterate [OF Suc.prems(2), of "Suc j"] by metis
      moreover have "unat f = (unat f - 1 + 0) mod 65535 + 1" using unat_iterate [OF Suc.prems(2), of 0] by (metis funpow_0)
      ultimately have "(unat f - 1 + Suc j) mod 65535 = (unat f - 1 + 0) mod 65535" by linarith
      then have "65535 dvd Suc j" by (metis add_left_cancel add_0_right mod_eq_dvd_iff_nat le_add1 add_diff_cancel_left')
      then show False using Suc.prems(3,4,5) False by (auto dest: dvd_imp_le)
    qed
    then have "id_search n q f ((next_id ^^ Suc j) f) = None" using Suc.prems(1) here by (simp split: if_splits)
    then show ?thesis using Suc.IH [of "Suc j"] Suc.prems False by simp
  qed
qed simp

lemma next_packet_id_fresh:
  assumes "BrokerNextPacketIdForQueue n q = (n', i)"
  shows "i \<noteq> 0 \<Longrightarrow> \<not> BrokerPacketIdInQueue q i" and "length q < 65535 \<Longrightarrow> i \<noteq> 0"
proof -
  let ?c = "if n = 0 then 1 else n :: word16"
  have c: "?c \<noteq> 0" by simp
  define r where "r = id_search 65535 q ?c ?c"
  have i: "i = (case r of Some d \<Rightarrow> d | None \<Rightarrow> 0)"
    using assms unfolding BrokerNextPacketIdForQueue_def Let_def r_def [symmetric] by (auto split: option.splits)
  have some: "d \<noteq> 0 \<and> \<not> BrokerPacketIdInQueue q d" if "r = Some d" for d
    using id_search_some [OF _ c] that unfolding r_def by blast
  show "i \<noteq> 0 \<Longrightarrow> \<not> BrokerPacketIdInQueue q i" using i some by (cases r) auto
  show "i \<noteq> 0" if l: "length q < 65535"
  proof
    assume "i = 0"
    then have "r = None" using i some by (cases r) auto
    then have "id_search 65535 q ?c ((next_id ^^ 0) ?c) = None" unfolding r_def funpow_0 .
    then have "BrokerPacketIdInQueue q ((next_id ^^ k) ?c)" if "k < 65535" for k
      using id_search_none [OF _ c add_0_right le0 that] by blast
    then have "UNIV - {0} \<subseteq> set (map op_packet_id q)"
      using iterate_all [OF c] by (auto simp: BrokerPacketIdInQueue_def list_ex_iff) (metis imageI)
    then have "card (UNIV - {0 :: word16}) \<le> length q" by (metis List.finite_set card_mono card_length length_map le_trans)
    then show False using l by (simp add: card_Diff_singleton card_word)
  qed
qed

section \<open>The queue as a state machine\<close>

text \<open>
  What happens to the queue of a connected subscriber: a publication is appended with a new identifier, the queue is
  drained, an acknowledgement arrives, the queue is given up.  The state is \<^verbatim>\<open>broker->next_packet_id\<close>, the world, the
  property store and the client.
\<close>

inductive queue_step :: "bool \<Rightarrow> nat \<Rightarrow> word16 \<times> 'w drain_state \<Rightarrow> word16 \<times> 'w drain_state \<Rightarrow> bool" for nb now where
  enqueue0: "op_qos e = MQTT_QOS_0 \<Longrightarrow> op_state e = BROKER_OUTQ_QUEUED \<Longrightarrow>
    queue_step nb now (n, w, H, bc) (n, w, H', BrokerClient_EnqueueOutPub bc e)"
| enqueue: "BrokerNextPacketIdForQueue n (bc_out_q bc) = (n', op_packet_id e) \<Longrightarrow> op_packet_id e \<noteq> 0 \<Longrightarrow>
    op_state e = BROKER_OUTQ_QUEUED \<Longrightarrow> queue_step nb now (n, w, H, bc) (n', w, H', BrokerClient_EnqueueOutPub bc e)"
| drain: "BrokerClient_DrainOutQueue nb now (w, H, bc) = Ok (s, rc) \<Longrightarrow> queue_step nb now (n, w, H, bc) (n, s)"
| puback: "BrokerClient_OnPubAck nb now (w, H, bc) pid = Ok s \<Longrightarrow> queue_step nb now (n, w, H, bc) (n, s)"
| pubrec: "BrokerClient_OnPubRec bc pid = (bc', rc) \<Longrightarrow> queue_step nb now (n, w, H, bc) (n, w, H, bc')"
| pubreject: "BrokerClient_OnPubReject nb now (w, H, bc) pid = Ok s \<Longrightarrow> queue_step nb now (n, w, H, bc) (n, s)"
| pubcomp: "BrokerClient_OnPubComp nb now (w, H, bc) pid = Ok s \<Longrightarrow> queue_step nb now (n, w, H, bc) (n, s)"
| free: "BrokerClient_FreeOutQueue H bc = Ok (H', bc') \<Longrightarrow> queue_step nb now (n, w, H, bc) (n, w, H', bc')"

lemma enqueue_inv:
  assumes "outq_inv bc" "op_state e = BROKER_OUTQ_QUEUED"
    and "op_qos e > MQTT_QOS_0 \<Longrightarrow> op_packet_id e \<noteq> 0 \<and> \<not> BrokerPacketIdInQueue (bc_out_q bc) (op_packet_id e)"
  shows "outq_inv (BrokerClient_EnqueueOutPub bc e)"
proof -
  have "op_packet_id e \<notin> set (live_ids (bc_out_q bc))" if "op_qos e > MQTT_QOS_0"
    using assms(3) [OF that] by (auto simp: live_ids_def BrokerPacketIdInQueue_def list_ex_iff)
  then show ?thesis using assms
    by (auto simp: outq_inv_def BrokerClient_EnqueueOutPub_def queue_ok_def queue_simps entry_ok_def)
qed

lemma ack_inv:
  assumes "outq_inv bc"
  shows "returns (\<lambda>(w, H, bc'). outq_inv bc') (BrokerClient_OnPubAck nb now (w, H, bc) pid)"
    and "returns (\<lambda>(w, H, bc'). outq_inv bc') (BrokerClient_OnPubReject nb now (w, H, bc) pid)"
    and "returns (\<lambda>(w, H, bc'). outq_inv bc') (BrokerClient_OnPubComp nb now (w, H, bc) pid)"
proof -
  show "returns (\<lambda>(w, H, bc'). outq_inv bc') (BrokerClient_OnPubAck nb now (w, H, bc) pid)"
    unfolding BrokerClient_OnPubAck_def prod.case by (intro returns_intros unlink_drain_inv) (simp_all add: assms)
  show "returns (\<lambda>(w, H, bc'). outq_inv bc') (BrokerClient_OnPubReject nb now (w, H, bc) pid)"
    unfolding BrokerClient_OnPubReject_def prod.case by (intro returns_intros unlink_drain_inv) (simp_all add: assms)
  show "returns (\<lambda>(w, H, bc'). outq_inv bc') (BrokerClient_OnPubComp nb now (w, H, bc) pid)"
    unfolding BrokerClient_OnPubComp_def prod.case by (intro returns_intros unlink_drain_inv) (simp_all add: assms)
qed

lemma queue_step_inv: "queue_step nb now s t \<Longrightarrow> outq_inv (snd (snd (snd s))) \<Longrightarrow> outq_inv (snd (snd (snd t)))"
proof (induction rule: queue_step.induct)
  case (enqueue0 e n w H bc H')
  then show ?case by (simp add: enqueue_inv)
next
  case (enqueue n bc n' e w H H')
  then show ?case using next_packet_id_fresh(1) [OF enqueue(1)] by (simp add: enqueue_inv)
next
  case (drain w H bc s rc n)
  then show ?case using returnsD [OF drain_inv drain(1)] by (cases s) simp
next
  case (puback w H bc pid s n)
  then show ?case using returnsD [OF ack_inv(1) puback(1)] by (cases s) simp
next
  case (pubrec bc pid bc' rc n w H)
  then show ?case using on_rec_inv [of bc pid] by simp
next
  case (pubreject w H bc pid s n)
  then show ?case using returnsD [OF ack_inv(2) pubreject(1)] by (cases s) simp
next
  case (pubcomp w H bc pid s n)
  then show ?case using returnsD [OF ack_inv(3) pubcomp(1)] by (cases s) simp
next
  case (free H bc H' bc' n w)
  then show ?case by (auto simp: BrokerClient_FreeOutQueue_def bnd_Ok_iff outq_inv_def queue_ok_def queue_simps)
qed

text \<open>The message of an entry, without the state of its delivery.\<close>

definition msg_of :: "BrokerOutPub \<Rightarrow> BrokerOutPub" where
  "msg_of e = e\<lparr>op_state := 0, op_retransmit_dup := 0\<rparr>"

section \<open>Properties\<close>

text \<open>C5: The bookkeeping of the queue is right in every state that is reached: the count is the number of entries, the
  in-flight count the number of those sent and not acknowledged, never more than the limit of sixteen; every entry is
  in a state its QoS allows, and no two entries that need an acknowledgement have the same packet identifier.\<close>

theorem outq_reachable_inv:
  assumes "(queue_step nb now)\<^sup>*\<^sup>* (n, w, H, bc) (n', w', H', bc')" "outq_inv bc"
  shows "outq_inv bc'"
proof -
  have "outq_inv (snd (snd (snd t)))" if "(queue_step nb now)\<^sup>*\<^sup>* s t" "outq_inv (snd (snd (snd s)))" for s t
    using that by (induction rule: rtranclp_induct) (auto intro: queue_step_inv)
  from this [OF assms(1)] assms(2) show ?thesis by simp
qed

text \<open>A subscriber with one QoS 2 message sent, and a QoS 1 message for it.\<close>

definition sent_entry :: BrokerOutPub where
  "sent_entry = zero_out_pub\<lparr>op_topic := [0x61, 0], op_qos := MQTT_QOS_2, op_packet_id := 1, op_state := BROKER_OUTQ_PUBLISH_SENT\<rparr>"

definition next_entry :: BrokerOutPub where
  "next_entry = zero_out_pub\<lparr>op_topic := [0x62, 0], op_qos := MQTT_QOS_1, op_packet_id := 2\<rparr>"

definition subscriber :: "unit BrokerClient" where
  "subscriber = zero_client\<lparr>bc_out_q := [sent_entry], bc_out_q_count := 1, bc_out_q_inflight := 1, bc_client_receive_max := 1\<rparr>"

lemmas demo_defs = subscriber_def sent_entry_def next_entry_def zero_client_def zero_out_pub_def

lemma next_id_demo: "BrokerNextPacketIdForQueue 1 [sent_entry\<lparr>op_state := s\<rparr>] = (3, 2)"
proof -
  have "id_search (Suc (Suc n)) [sent_entry\<lparr>op_state := s\<rparr>] 1 1 = Some 2" for n
    by (simp add: BrokerPacketIdInQueue_def sent_entry_def next_id_def)
  from this [of 65533] have "id_search 65535 [sent_entry\<lparr>op_state := s\<rparr>] 1 1 = Some 2" by simp
  then show ?thesis by (simp add: BrokerNextPacketIdForQueue_def next_id_def)
qed

theorem outq_reachable_inv_witness:
  "\<exists>bc' H'. (queue_step True 0)\<^sup>*\<^sup>* (1, (), [], subscriber) (3, (), H', bc') \<and> outq_inv bc' \<and>
     map op_packet_id (bc_out_q bc') = [1, 2] \<and> bc_out_q_inflight bc' = 1"
proof -
  let ?b1 = "subscriber\<lparr>bc_out_q := [sent_entry\<lparr>op_state := BROKER_OUTQ_PUBREL_SENT\<rparr>]\<rparr>"
  have "BrokerClient_OnPubRec subscriber 1 = (?b1, 1)"
    by (simp add: BrokerClient_OnPubRec_def BrokerClient_FindOutPub_def awaits_def demo_defs)
  from queue_step.pubrec [OF this] have s1: "queue_step True 0 (1, (), [], subscriber) (1, (), [], ?b1)" .
  have "queue_step True 0 (1, (), [], ?b1) (3, (), [], BrokerClient_EnqueueOutPub ?b1 next_entry)"
    by (rule queue_step.enqueue) (simp_all add: next_id_demo next_entry_def zero_out_pub_def)
  with s1 have s2: "(queue_step True 0)\<^sup>*\<^sup>* (1, (), [], subscriber) (3, (), [], BrokerClient_EnqueueOutPub ?b1 next_entry)"
    by (meson converse_rtranclp_into_rtranclp rtranclp.rtrancl_refl)
  have "outq_inv subscriber"
    by (simp add: outq_inv_def queue_ok_def inflight_of_def live_ids_def entry_ok_def demo_defs less_MqttQoS_def)
  from outq_reachable_inv [OF s2 this] s2 show ?thesis
    by (intro exI conjI) (assumption | simp add: BrokerClient_EnqueueOutPub_def demo_defs)+
qed

section \<open>Where the queue departs from the protocol\<close>

text \<open>
  \<^verbatim>\<open>BrokerClient_OnPubAck\<close> does not look at the QoS of the entry: a PUBACK ends a QoS 2 delivery, whose PUBREC, PUBREL
  and PUBCOMP are then outstanding with no entry in the queue.
\<close>

theorem puback_ends_qos2:
  "op_qos sent_entry = MQTT_QOS_2 \<and>
   BrokerClient_OnPubAck True 0 ((), [], subscriber) 1 = Ok ((), [], subscriber\<lparr>bc_out_q := [], bc_out_q_count := 0, bc_out_q_inflight := 0\<rparr>)"
  by (simp add: BrokerClient_OnPubAck_def BrokerClient_FindOutPub_def unlink_drain_def BrokerClient_UnlinkOutPub_def awaits_def
      BrokerOutPub_Free_def BrokerProps_FreeClone_def BrokerClient_DrainOutQueue_def demo_defs)

text \<open>A subscriber with a buffer of twelve bytes, whose transport takes every write.\<close>

definition small_client :: "unit BrokerClient" where
  "small_client = zero_client\<lparr>bc_tx_buf := [0, 0, 0, 0, 0, 0, 0, 0, 0, 0, 0, 0], bc_tx_buf_len := 12,
     bc_client := zero_mqtt_client\<lparr>cl_net := Some \<lparr>net_connect = None, net_read = None,
       net_write = Some (\<lambda>w bs t. (w, int (length bs))), net_disconnect = None\<rparr>\<rparr>\<rparr>"

end
