(* ===== verification/Broker_Session.thy ===== *)
theory Broker_Session
  imports Broker_Subs Broker_Queue
begin

text \<open>
  Offline sessions, \<^verbatim>\<open>BrokerOrphan_*\<close> of \<^verbatim>\<open>src/mqtt_broker.c\<close>, in the build with dynamic memory and without persistence: when
  a client with a persistent session goes, its outbound queue and its QoS 2 state move to a carrier in the list
  \<^verbatim>\<open>orphan_sessions\<close>; messages published meanwhile are queued there; when the client comes back everything moves to
  its new record and what was not acknowledged is sent again.

  A pointer to a carrier is its position in the list.
\<close>

abbreviation (input) "BROKER_MAX_PERSIST_SESSIONS \<equiv> (64 :: int)"
abbreviation (input) "BROKER_MAX_OFFLINE_MSGS_PER_SUB \<equiv> (32 :: int)"

section \<open>Carriers\<close>

fun find_index :: "('a \<Rightarrow> bool) \<Rightarrow> 'a list \<Rightarrow> nat option" where
  "find_index P [] = None"
| "find_index P (x # xs) = (if P x then Some 0 else map_option Suc (find_index P xs))"

definition remove_at :: "nat \<Rightarrow> 'a list \<Rightarrow> 'a list" where
  "remove_at i xs = take i xs @ drop (Suc i) xs"

definition count_down :: "int \<Rightarrow> int" where
  "count_down c = (if c > 0 then c - 1 else c)"

definition BrokerOrphan_Find :: "Broker \<Rightarrow> cstr option \<Rightarrow> nat option" where
  "BrokerOrphan_Find b client_id =
     (case client_id of None \<Rightarrow> None | Some c \<Rightarrow> find_index (\<lambda>os. XSTREQ (os_client_id os) c) (br_orphans b))"

definition BrokerOrphan_FreeContents :: "store \<Rightarrow> BrokerOrphanSession \<Rightarrow> store outcome" where
  "BrokerOrphan_FreeContents H os = free_all H (os_out_q os)"

definition BrokerOrphan_Remove :: "store \<Rightarrow> Broker \<Rightarrow> nat \<Rightarrow> (store \<times> Broker) outcome" where
  "BrokerOrphan_Remove H b i =
     (if i < length (br_orphans b) then
        bnd (BrokerOrphan_FreeContents H (br_orphans b ! i)) (\<lambda>H'.
          Ok (H', b\<lparr>br_orphans := remove_at i (br_orphans b), br_orphan_count := count_down (br_orphan_count b)\<rparr>))
      else Fault)"

text \<open>The subscriptions of the session go with it.\<close>

definition BrokerOrphan_DropFull :: "store \<Rightarrow> Broker \<Rightarrow> nat \<Rightarrow> (store \<times> Broker) outcome" where
  "BrokerOrphan_DropFull H b i =
     (if i < length (br_orphans b) then
        BrokerOrphan_Remove H
          (remove_subs (\<lambda>s. bs_client s = None \<and>
             (case bs_client_id s of None \<Rightarrow> False | Some d \<Rightarrow> XSTREQ d (os_client_id (br_orphans b ! i)))) b) i
      else Fault)"

text \<open>The scan for the smallest \<^verbatim>\<open>orphan_since\<close>: position and time of the best so far.\<close>

fun oldest :: "nat \<Rightarrow> (nat \<times> word64) option \<Rightarrow> BrokerOrphanSession list \<Rightarrow> nat option" where
  "oldest k best [] = map_option fst best"
| "oldest k best (os # rest) =
     oldest (Suc k)
       (case best of
          None \<Rightarrow> Some (k, os_orphan_since os)
        | Some (j, t) \<Rightarrow> if os_orphan_since os < t then Some (k, os_orphan_since os) else best) rest"

definition BrokerOrphan_EvictOldest :: "store \<Rightarrow> Broker \<Rightarrow> (store \<times> Broker \<times> bool) outcome" where
  "BrokerOrphan_EvictOldest H b =
     (case oldest 0 None (br_orphans b) of
        None \<Rightarrow> Ok (H, b, False)
      | Some i \<Rightarrow> bnd (BrokerOrphan_DropFull H b i) (\<lambda>(H', b'). Ok (H', b', True)))"

text \<open>Every turn but the last drops a carrier, so their number, the argument \<open>n\<close>, bounds the turns.\<close>

fun evict_loop :: "nat \<Rightarrow> store \<Rightarrow> Broker \<Rightarrow> (store \<times> Broker) outcome" where
  "evict_loop 0 H b = Ok (H, b)"
| "evict_loop (Suc n) H b =
     (if br_orphan_count b \<ge> BROKER_MAX_PERSIST_SESSIONS then
        bnd (BrokerOrphan_EvictOldest H b) (\<lambda>(H', b', dropped). if dropped then evict_loop n H' b' else Ok (H', b'))
      else Ok (H, b))"

text \<open>
  A QoS 0 publication of which a part is on the wire is not kept: it is the first queued entry when the position of
  the write is not zero.
\<close>

definition drop_partial :: "store \<Rightarrow> 'w BrokerClient \<Rightarrow> (store \<times> 'w BrokerClient) outcome" where
  "drop_partial H bc =
     (if sk_pos (cl_write (bc_client bc)) > 0 then
        (case find_index (\<lambda>e. op_state e = BROKER_OUTQ_QUEUED) (bc_out_q bc) of
           None \<Rightarrow> Ok (H, bc)
         | Some i \<Rightarrow>
             if op_qos (bc_out_q bc ! i) = MQTT_QOS_0 then
               bnd (BrokerOutPub_Free H (bc_out_q bc ! i)) (\<lambda>H'.
                 Ok (H', bc\<lparr>bc_out_q := remove_at i (bc_out_q bc), bc_out_q_count := bc_out_q_count bc - 1,
                           bc_client := (bc_client bc)\<lparr>cl_write := (cl_write (bc_client bc))\<lparr>sk_pos := 0\<rparr>\<rparr>\<rparr>))
             else Ok (H, bc))
      else Ok (H, bc))"

text \<open>The result tells whether a carrier was made.\<close>

definition BrokerOrphan_Take ::
  "(nat \<Rightarrow> bool) \<Rightarrow> word64 \<Rightarrow> store \<Rightarrow> Broker \<Rightarrow> 'w BrokerClient \<Rightarrow> (store \<times> Broker \<times> 'w BrokerClient \<times> bool) outcome" where
  "BrokerOrphan_Take malloc now H b bc =
     (case bc_client_id bc of
        None \<Rightarrow> Ok (H, b, bc, False)
      | Some c \<Rightarrow>
          bnd (case BrokerOrphan_Find b (bc_client_id bc) of None \<Rightarrow> Ok (H, b) | Some i \<Rightarrow> BrokerOrphan_Remove H b i) (\<lambda>(H1, b1).
          bnd (evict_loop (Suc (length (br_orphans b1))) H1 b1) (\<lambda>(H2, b2).
            if \<not> malloc 0 \<or> \<not> malloc 1 then Ok (H2, b2, bc, False)
            else
              bnd (drop_partial H2 bc) (\<lambda>(H3, bc3).
                Ok (H3,
                    b2\<lparr>br_orphans := \<lparr>os_client_id = cstr_bytes c @ [0], os_level = bc_level bc3,
                          os_session_expiry_sec = bc_session_expiry_sec bc3, os_orphan_since = now,
                          os_out_q = bc_out_q bc3, os_out_q_count = bc_out_q_count bc3, os_out_q_inflight = bc_out_q_inflight bc3,
                          os_qos2_pending = bc_qos2_pending bc3, os_qos2_pending_count = bc_qos2_pending_count bc3\<rparr> # br_orphans b2,
                        br_orphan_count := br_orphan_count b2 + 1\<rparr>,
                    bc3\<lparr>bc_out_q := [], bc_out_q_count := 0, bc_out_q_inflight := 0, bc_qos2_pending := [], bc_qos2_pending_count := 0\<rparr>,
                    True)))))"

text \<open>What was in flight is sent again: a PUBLISH goes back to the queue with DUP set, a PUBREL is only marked.\<close>

definition resume :: "BrokerOutPub \<Rightarrow> BrokerOutPub" where
  "resume e =
     (if op_state e = BROKER_OUTQ_PUBLISH_SENT then e\<lparr>op_state := BROKER_OUTQ_QUEUED, op_retransmit_dup := 1\<rparr>
      else if op_state e = BROKER_OUTQ_PUBREL_SENT then e\<lparr>op_retransmit_dup := 1\<rparr>
      else e)"

definition BrokerOrphan_Reclaim :: "store \<Rightarrow> Broker \<Rightarrow> 'w BrokerClient \<Rightarrow> (store \<times> Broker \<times> 'w BrokerClient \<times> bool) outcome" where
  "BrokerOrphan_Reclaim H b new_bc =
     (case BrokerOrphan_Find b (bc_client_id new_bc) of
        None \<Rightarrow> Ok (H, b, new_bc, False)
      | Some i \<Rightarrow>
          let os = br_orphans b ! i;
              new_bc1 = new_bc\<lparr>bc_out_q := map resume (os_out_q os), bc_out_q_count := os_out_q_count os,
                 bc_out_q_inflight := int (length (filter (\<lambda>e. op_state e = BROKER_OUTQ_PUBREL_SENT) (os_out_q os))),
                 bc_session_expiry_sec := (if bc_session_expiry_sec new_bc = 0xFFFFFFFF then os_session_expiry_sec os
                                           else bc_session_expiry_sec new_bc),
                 bc_qos2_pending := os_qos2_pending os, bc_qos2_pending_count := os_qos2_pending_count os\<rparr>;
              b1 = b\<lparr>br_orphans := (br_orphans b)[i := os\<lparr>os_out_q := [], os_out_q_count := 0, os_out_q_inflight := 0,
                                                        os_qos2_pending := [], os_qos2_pending_count := 0\<rparr>]\<rparr>
          in bnd (BrokerOrphan_Remove H b1 i) (\<lambda>(H', b'). Ok (H', b', new_bc1, True)))"

text \<open>The oldest entries make room; the argument list is what is left of the queue.\<close>

fun drop_oldest :: "store \<Rightarrow> BrokerOutPub list \<Rightarrow> int \<Rightarrow> int \<Rightarrow> (store \<times> BrokerOutPub list \<times> int \<times> int) outcome" where
  "drop_oldest H [] count inflight = Ok (H, [], count, inflight)"
| "drop_oldest H (e # es) count inflight =
     (if count \<ge> BROKER_MAX_OFFLINE_MSGS_PER_SUB then
        bnd (BrokerOutPub_Free H e) (\<lambda>H'.
          drop_oldest H' es (count_down count)
            (if op_state e = BROKER_OUTQ_PUBLISH_SENT \<or> op_state e = BROKER_OUTQ_PUBREL_SENT then count_down inflight else inflight))
      else Ok (H, e # es, count, inflight))"

definition BrokerOrphan_Enqueue ::
  "(nat \<Rightarrow> bool) \<Rightarrow> word64 \<Rightarrow> store \<Rightarrow> Broker \<Rightarrow> nat \<Rightarrow> cstr option \<Rightarrow> mem option \<Rightarrow> word32 \<Rightarrow> MqttQoS \<Rightarrow> byte \<Rightarrow> nat option
   \<Rightarrow> (store \<times> Broker) outcome" where
  "BrokerOrphan_Enqueue malloc now H b i topic payload payload_len q ret src_props =
     (if topic = None \<or> q = MQTT_QOS_0 then Ok (H, b)
      else if i < length (br_orphans b) then
        let os = br_orphans b ! i in
        bnd (drop_oldest H (os_out_q os) (os_out_q_count os) (os_out_q_inflight os)) (\<lambda>(H1, q1, c1, f1).
          let os1 = os\<lparr>os_out_q := q1, os_out_q_count := c1, os_out_q_inflight := f1\<rparr>;
              b1 = b\<lparr>br_orphans := (br_orphans b)[i := os1]\<rparr> in
          bnd (BrokerOutPub_Alloc malloc H1 topic payload payload_len src_props) (\<lambda>(H2, e).
            case e of
              None \<Rightarrow> Ok (H2, b1)
            | Some e \<Rightarrow>
                (case BrokerNextPacketIdForQueue (br_next_packet_id b1) q1 of (n, pid) \<Rightarrow>
                   let b2 = b1\<lparr>br_next_packet_id := n\<rparr> in
                   if pid = 0 then bnd (BrokerOutPub_Free H2 e) (\<lambda>H3. Ok (H3, b2))
                   else if q1 \<noteq> [] \<and> op_enqueue_seq (last q1) = - 1 then bnd (BrokerOutPub_Free H2 e) (\<lambda>H3. Ok (H3, b2))
                   else
                     let e1 = e\<lparr>op_qos := q, op_packet_id := pid, op_retain := ret, op_state := BROKER_OUTQ_QUEUED, op_enq_time := now,
                                op_enqueue_seq := (if q1 = [] then 1 else op_enqueue_seq (last q1) + 1), op_level := os_level os1\<rparr>
                     in Ok (H2, b2\<lparr>br_orphans := (br_orphans b2)[i := os1\<lparr>os_out_q := q1 @ [e1], os_out_q_count := c1 + 1\<rparr>]\<rparr>))))
      else Fault)"

fun free_orphans :: "store \<Rightarrow> BrokerOrphanSession list \<Rightarrow> store outcome" where
  "free_orphans H [] = Ok H"
| "free_orphans H (os # rest) = bnd (BrokerOrphan_FreeContents H os) (\<lambda>H'. free_orphans H' rest)"

definition BrokerOrphan_FreeAll :: "store \<Rightarrow> Broker \<Rightarrow> (store \<times> Broker) outcome" where
  "BrokerOrphan_FreeAll H b = bnd (free_orphans H (br_orphans b)) (\<lambda>H'. Ok (H', b\<lparr>br_orphans := [], br_orphan_count := 0\<rparr>))"

definition session_expired :: "word64 \<Rightarrow> BrokerOrphanSession \<Rightarrow> bool" where
  "session_expired now os \<longleftrightarrow> os_session_expiry_sec os \<noteq> 0xFFFFFFFF \<and> now \<ge> os_orphan_since os \<and>
     unat (now - os_orphan_since os) \<ge> unat (os_session_expiry_sec os)"

text \<open>The scan starts again after every drop; the number of carriers bounds the drops.\<close>

fun sweep :: "nat \<Rightarrow> word64 \<Rightarrow> store \<Rightarrow> Broker \<Rightarrow> (store \<times> Broker) outcome" where
  "sweep n now H b =
     (case find_index (session_expired now) (br_orphans b) of
        None \<Rightarrow> Ok (H, b)
      | Some i \<Rightarrow> (case n of 0 \<Rightarrow> Fault | Suc m \<Rightarrow> bnd (BrokerOrphan_DropFull H b i) (\<lambda>(H', b'). sweep m now H' b')))"

definition BrokerOrphan_ExpireSweep :: "word64 \<Rightarrow> store \<Rightarrow> Broker \<Rightarrow> (store \<times> Broker) outcome" where
  "BrokerOrphan_ExpireSweep now H b = sweep (length (br_orphans b)) now H b"

section \<open>A client leaves\<close>

definition detach :: "handle \<Rightarrow> BrokerSub \<Rightarrow> BrokerSub" where
  "detach h s = (if bs_client s = Some h then s\<lparr>bs_client := None\<rparr> else s)"

definition BrokerSubs_OrphanClient ::
  "(nat \<Rightarrow> bool) \<Rightarrow> word64 \<Rightarrow> handle \<Rightarrow> store \<Rightarrow> Broker \<Rightarrow> 'w BrokerClient \<Rightarrow> (store \<times> Broker \<times> 'w BrokerClient) outcome" where
  "BrokerSubs_OrphanClient malloc now h H b bc =
     bnd (BrokerOrphan_Take malloc now H b bc) (\<lambda>(H', b', bc', taken).
       if \<not> taken then Ok (case BrokerSubs_RemoveClient h b' bc' of (b'', bc'') \<Rightarrow> (H', b'', bc''))
       else Ok (H', b'\<lparr>br_subs := map (detach h) (br_subs b')\<rparr>, bc'))"

definition BrokerSubs_EndClientSession :: "handle \<Rightarrow> store \<Rightarrow> Broker \<Rightarrow> 'w BrokerClient \<Rightarrow> (store \<times> Broker \<times> 'w BrokerClient) outcome" where
  "BrokerSubs_EndClientSession h H b bc =
     (case BrokerSubs_RemoveClient h b bc of (b1, bc1) \<Rightarrow>
        (case BrokerOrphan_Find b1 (bc_client_id bc1) of
           None \<Rightarrow> Ok (H, b1, bc1)
         | Some i \<Rightarrow> bnd (BrokerOrphan_DropFull H b1 i) (\<lambda>(H', b'). Ok (H', b', bc1))))"

section \<open>A session survives the connection\<close>

definition pubrel_count :: "BrokerOutPub list \<Rightarrow> int" where
  "pubrel_count q = int (length (filter (\<lambda>e. op_state e = BROKER_OUTQ_PUBREL_SENT) q))"

lemma resume_facts [simp]:
  "op_qos (resume e) = op_qos e" "op_packet_id (resume e) = op_packet_id e" "op_level (resume e) = op_level e"
  "op_state (resume e) \<noteq> BROKER_OUTQ_PUBLISH_SENT" "msg_of (resume e) = msg_of e"
  "op_state (resume e) = BROKER_OUTQ_PUBREL_SENT \<longleftrightarrow> op_state e = BROKER_OUTQ_PUBREL_SENT"
  by (simp_all add: resume_def msg_of_def)

lemma resume_ok: "entry_ok e \<Longrightarrow> entry_ok (resume e)"
  by (auto simp: entry_ok_def resume_def)

lemma resume_queue:
  assumes "queue_ok q count inflight"
  shows "queue_ok (map resume q) count (pubrel_count q)"
proof -
  have ids: "live_ids (map resume q) = live_ids q" by (induction q) (simp_all add: queue_simps)
  have "inflight_of (map resume q) = pubrel_count q" if "list_all entry_ok q"
    using that by (induction q) (auto simp: queue_simps pubrel_count_def entry_ok_def resume_def)
  moreover have "pubrel_count q \<le> inflight_of q" by (induction q) (auto simp: queue_simps pubrel_count_def)
  ultimately show ?thesis using assms ids resume_ok by (auto simp: queue_ok_def list_all_iff)
qed

lemma find_index_head: "P x \<Longrightarrow> find_index P (x # xs) = Some 0"
  by simp

lemma XSTREQ_refl_copy: "XSTREQ (cstr_bytes c @ [0]) c"
  by (simp add: XSTREQ_def cstr_bytes_def takeWhile_append)

text \<open>What a carrier holds after the client has gone.\<close>

lemma take_carries:
  assumes "bc_client_id bc = Some c" "sk_pos (cl_write (bc_client bc)) = 0"
  shows "returns (\<lambda>(H', b', bc', taken). taken \<longrightarrow> (\<exists>os rest. br_orphans b' = os # rest \<and> XSTREQ (os_client_id os) c \<and>
      os_out_q os = bc_out_q bc \<and> os_out_q_count os = bc_out_q_count bc \<and> os_session_expiry_sec os = bc_session_expiry_sec bc \<and>
      os_qos2_pending os = bc_qos2_pending bc \<and> os_qos2_pending_count os = bc_qos2_pending_count bc \<and> bc_out_q bc' = [] \<and> bc_qos2_pending bc' = []))
    (BrokerOrphan_Take malloc now H b bc)"
  unfolding BrokerOrphan_Take_def assms(1) option.case
  by (intro returns_bnd returns_prod returns_if returns_basic) (use assms(2) in \<open>simp_all add: drop_partial_def XSTREQ_refl_copy\<close>)

text \<open>With no carrier in the list and memory for one, the carrier is made.\<close>

lemma take_makes:
  assumes "bc_client_id bc = Some c" "sk_pos (cl_write (bc_client bc)) = 0" "br_orphans b = []" "br_orphan_count b = 0"
  shows "\<exists>H1 b1 bc1. BrokerOrphan_Take (\<lambda>_. True) now H b bc = Ok (H1, b1, bc1, True)"
  using assms by (simp add: BrokerOrphan_Take_def BrokerOrphan_Find_def drop_partial_def)

lemma XSTREQ_trans: "XSTREQ a b \<Longrightarrow> XSTREQ d b \<Longrightarrow> XSTREQ a d"
  by (simp add: XSTREQ_def)

text \<open>An entry of the old queue and the entry the new record has for it: the same message, to be sent again when it was not
  acknowledged, as a publication with the DUP flag or as a release.\<close>

definition resumed :: "BrokerOutPub \<Rightarrow> BrokerOutPub \<Rightarrow> bool" where
  "resumed e e' \<longleftrightarrow> msg_of e' = msg_of e \<and>
     (op_state e = BROKER_OUTQ_PUBLISH_SENT \<longrightarrow> op_state e' = BROKER_OUTQ_QUEUED \<and> op_retransmit_dup e' = 1) \<and>
     (op_state e = BROKER_OUTQ_PUBREL_SENT \<longrightarrow> op_state e' = BROKER_OUTQ_PUBREL_SENT \<and> op_retransmit_dup e' = 1) \<and>
     (op_state e = BROKER_OUTQ_QUEUED \<longrightarrow> e' = e)"

lemma resume_resumed: "list_all2 resumed q (map resume q)"
  by (auto simp: list_all2_conv_all_nth resumed_def) (simp_all add: resume_def)



end
