(* ===== verification/Broker_Send.thy ===== *)
theory Broker_Send
  imports Broker_Queue Packet_Control Packet_Suback
begin

text \<open>
  The small packets the broker writes itself, \<^verbatim>\<open>src/mqtt_broker.c\<close>: PINGRESP, SUBACK and the DISCONNECT of MQTT v5,
  and the search of a property list.
\<close>

section \<open>Operations\<close>

abbreviation (input) "MQTT_REASON_QUOTA_EXCEEDED \<equiv> (0x97 :: byte)"

definition BrokerSend_PingResp :: "bool \<Rightarrow> nat \<Rightarrow> 'w \<Rightarrow> 'w BrokerClient \<Rightarrow> ('w \<times> 'w BrokerClient \<times> int) outcome" where
  "BrokerSend_PingResp nb now w bc =
     bnd (wr (bc_tx_buf bc) 0 [0xD0, 0]) (\<lambda>m. BrokerClient_WriteResp nb now w (bc\<lparr>bc_tx_buf := m\<rparr>) 2)"

definition BrokerSend_SubAck ::
  "bool \<Rightarrow> nat \<Rightarrow> 'w \<Rightarrow> 'w BrokerClient \<Rightarrow> word16 \<Rightarrow> byte list \<Rightarrow> int \<Rightarrow> ('w \<times> 'w BrokerClient \<times> int) outcome" where
  "BrokerSend_SubAck nb now w bc pid rcodes rcount =
     (if rcount \<le> 0 then Ok (w, bc, err_code BAD_ARG)
      else bnd (rdn rcodes 0 (nat rcount)) (\<lambda>codes.
        if \<not> list_all (\<lambda>c. MqttPacket_SubAckReturnCodeValid c (bc_level bc)) codes then Ok (w, bc, err_code MALFORMED_DATA)
        else
          let v5 = (bc_level bc \<ge> MQTT_CONNECT_PROTOCOL_LEVEL_5);
              remain_len = 2 + length codes + (if v5 then 1 else 0) in
          if 1 + 4 + int remain_len > bc_tx_buf_len bc then Ok (w, bc, err_code OUT_OF_BUFFER)
          else
            bnd (puts [put_bytes [0x90], put (\<lambda>m buf. MqttEncode_Vbi m buf (word_of_nat remain_len)),
                       put (\<lambda>m buf. MqttEncode_Num m buf pid), if v5 then put_bytes [0] else put_nothing,
                       put_bytes codes] (bc_tx_buf bc, 0)) (\<lambda>(m, pos).
              BrokerClient_WriteResp nb now w (bc\<lparr>bc_tx_buf := m\<rparr>) (int pos))))"

text \<open>The argument \<open>n\<close> bounds the walk as in \<open>list_end\<close>.\<close>

fun find_type :: "nat \<Rightarrow> store \<Rightarrow> nat \<Rightarrow> nat option \<Rightarrow> nat option outcome" where
  "find_type n H ty None = Ok None"
| "find_type 0 H ty (Some i) = Fault"
| "find_type (Suc n) H ty (Some i) =
     (if i < length H then if type (H ! i) = ty then Ok (Some i) else find_type n H ty (next (H ! i)) else Fault)"

definition BrokerProps_Find :: "store \<Rightarrow> nat option \<Rightarrow> nat \<Rightarrow> nat option outcome" where
  "BrokerProps_Find H head ty = find_type (length H) H ty head"

definition BrokerSend_Disconnect :: "bool \<Rightarrow> nat \<Rightarrow> 'w \<Rightarrow> store \<Rightarrow> 'w BrokerClient \<Rightarrow> byte \<Rightarrow> ('w \<times> 'w BrokerClient \<times> int) outcome" where
  "BrokerSend_Disconnect nb now w H bc reason_code =
     (if bc_level bc < MQTT_CONNECT_PROTOCOL_LEVEL_5 then Ok (w, bc, 0)
      else
        case MqttEncode_Disconnect H (Some (bc_tx_buf bc)) (bc_tx_buf_len bc)
               (Some \<lparr>disc_reason_code = reason_code, disc_props = None, disc_level = bc_level bc\<rparr>) of
          Fault \<Rightarrow> Fault
        | Err e \<Rightarrow> Ok (w, bc, err_code e)
        | Ok (m, rc) \<Rightarrow> if rc > 0 then BrokerClient_WriteDirect nb now w (bc\<lparr>bc_tx_buf := m\<rparr>) (int rc)
                        else Ok (w, bc\<lparr>bc_tx_buf := m\<rparr>, int rc))"

section \<open>SUBACK between broker and client\<close>

definition suback_packet :: "byte \<Rightarrow> word16 \<Rightarrow> byte list \<Rightarrow> byte list" where
  "suback_packet level pid codes =
     (let body = suback_body (level \<ge> 5) pid [] codes in 0x90 # vbi_bytes (length body) @ body)"

lemma suback_body_length: "length (suback_body v pid [] codes) = 2 + length codes + (if v then 1 else 0)"
  by (simp add: suback_body_def num_bytes_def props_block_def props_bytes_def vbi_bytes_small)

lemma suback_puts:
  assumes "n = 2 + length codes + (if v then 1 else 0)" "n \<le> 0x0FFFFFFF"
  shows "emits (puts [put_bytes [0x90], put (\<lambda>m buf. MqttEncode_Vbi m buf (word_of_nat n)),
      put (\<lambda>m buf. MqttEncode_Num m buf pid), if v then put_bytes [0] else put_nothing, put_bytes codes])
    (0x90 # vbi_bytes n @ suback_body v pid [] codes)"
proof -
  have "emits (puts [put_bytes [0x90], put (\<lambda>m buf. MqttEncode_Vbi m buf (word_of_nat n)),
      put (\<lambda>m buf. MqttEncode_Num m buf pid), if v then put_bytes [0] else put_nothing, put_bytes codes])
    ([0x90] @ vbi_bytes n @ num_bytes pid @ (if v then [0] else []) @ codes @ [])"
    using writes_Vbi [of n] assms(2) by (intro emits_intros emits_put(1)) simp_all
  moreover have "suback_body v pid [] codes = num_bytes pid @ (if v then [0] else []) @ codes"
    by (simp add: suback_body_def props_block_def props_bytes_def vbi_bytes_small)
  ultimately show ?thesis by (simp only: append_Cons append_Nil append_Nil2)
qed

lemma suback_written:
  assumes "codes \<noteq> []" "\<forall>c \<in> set codes. MqttPacket_SubAckReturnCodeValid c (bc_level bc)"
    and "bc_tx_buf_len bc = int (length (bc_tx_buf bc))" "length (bc_tx_buf bc) < 0x0FFFFFFF" "length codes + 8 \<le> length (bc_tx_buf bc)"
  shows "BrokerSend_SubAck nb now w bc pid codes (int (length codes)) =
    BrokerClient_WriteResp nb now w (bc\<lparr>bc_tx_buf := splice_at (bc_tx_buf bc) 0 (suback_packet (bc_level bc) pid codes)\<rparr>)
      (int (length (suback_packet (bc_level bc) pid codes)))"
proof -
  let ?v = "bc_level bc \<ge> 5"
  define n where "n = 2 + length codes + (if ?v then 1 else 0)"
  have n: "n \<le> 0x0FFFFFFF" "n + 5 \<le> length (bc_tx_buf bc)" using assms(4,5) by (auto simp: n_def)
  have pk: "suback_packet (bc_level bc) pid codes = 0x90 # vbi_bytes n @ suback_body ?v pid [] codes"
    by (simp add: suback_packet_def Let_def suback_body_length n_def)
  have "length (vbi_bytes n) \<le> 4" using n(1) by (rule vbi_bytes_length_4)
  then have "0 + length (0x90 # vbi_bytes n @ suback_body ?v pid [] codes) \<le> length (bc_tx_buf bc)"
    using n by (simp add: suback_body_length n_def)
  note e = emitsD [OF suback_puts [OF n_def n(1)] this, folded pk, unfolded add_0]
  have c: "rdn codes 0 (nat (int (length codes))) = Ok codes" "\<not> int (length codes) \<le> 0"
    "list_all (\<lambda>c. MqttPacket_SubAckReturnCodeValid c (bc_level bc)) codes" "\<not> 1 + 4 + int n > bc_tx_buf_len bc"
    using assms(1-3) n(2) by (simp_all add: rdn_def blk_def list_all_iff)
  show ?thesis unfolding BrokerSend_SubAck_def Let_def n_def [symmetric] c(1) bnd.simps
    by (simp only: c(2-4) not_True_eq_False if_False e bnd.simps prod.case)
qed

text \<open>C30: The SUBACK that the broker writes is the packet a client reads: for a list of return codes that are legal at the
  protocol level and fit the transmit buffer, \<^verbatim>\<open>BrokerSend_SubAck\<close> hands a packet to the transport from which
  \<^verbatim>\<open>MqttDecode_SubscribeAck\<close> returns the packet identifier and the codes.\<close>

theorem suback_round_trip:
  assumes "codes \<noteq> []" "\<forall>c \<in> set codes. MqttPacket_SubAckReturnCodeValid c (bc_level bc)"
    and "bc_tx_buf_len bc = int (length (bc_tx_buf bc))" "length (bc_tx_buf bc) < 0x0FFFFFFF" "length codes + 8 \<le> length (bc_tx_buf bc)"
    and "live_list D None []" "suback_level d = bc_level bc"
  shows "\<exists>m n D' d'. BrokerSend_SubAck nb now w bc pid codes (int (length codes)) =
      BrokerClient_WriteResp nb now w (bc\<lparr>bc_tx_buf := m\<rparr>) (int n) \<and>
    MqttDecode_SubscribeAck D (Some (take n m)) (int n) (Some d) = ((D', Some d'), Ok (int n)) \<and>
    suback_packet_id d' = pid \<and> codes_kept d' codes"
proof -
  let ?pk = "suback_packet (bc_level bc) pid codes"
  let ?body = "suback_body (bc_level bc \<ge> 5) pid [] codes"
  let ?m = "splice_at (bc_tx_buf bc) 0 ?pk"
  have b: "length ?body \<le> 0x0FFFFFFF" using assms(4,5) by (simp add: suback_body_length)
  have tf: "type_flags 9 0 0 0 = 0x90" by code_simp
  have pk: "?pk = type_flags 9 0 0 0 # vbi_bytes (length ?body) @ ?body" by (simp add: suback_packet_def Let_def tf)
  have "length ?pk = 1 + length (vbi_bytes (length ?body)) + length ?body" by (simp add: pk)
  then have "length ?pk \<le> length (bc_tx_buf bc)"
    using vbi_bytes_length_4 [OF b] assms(5) suback_body_length [of "bc_level bc \<ge> 5" pid codes] by (simp split: if_splits)
  then have t: "take (length ?pk) ?m = ?pk" by (simp add: splice_at_def)
  have ok: "props_ok 9 []" by (simp add: props_ok_def)
  have "\<exists>D' d'. MqttDecode_SubscribeAck D (Some (take (length ?pk) ?m)) (int (length ?pk)) (Some d) = ((D', Some d'), Ok (int (length ?pk))) \<and>
      suback_packet_id d' = pid \<and> codes_kept d' codes \<and> holds D D' (suback_props d') []"
    unfolding t using assms(2,4,5,6,7) b ok \<open>length ?pk \<le> _\<close>
    by (intro MqttDecode_SubscribeAck_complete [OF _ _ _ _ _ _ refl _ pk]) (auto simp: rx_ok_def blk_def dest: in_set_takeD)
  then show ?thesis using suback_written [OF assms(1-5)] by blast
qed

theorem suback_round_trip_witness:
  "\<exists>m n D' d'. BrokerSend_SubAck True 0 () (small_client\<lparr>bc_level := 5\<rparr>) 7 [1, 0x80] 2 =
      BrokerClient_WriteResp True 0 () (small_client\<lparr>bc_level := 5, bc_tx_buf := m\<rparr>) (int n) \<and>
    MqttDecode_SubscribeAck (replicate 30 zero_prop) (Some (take n m)) (int n)
      (Some \<lparr>suback_packet_id = 0, return_codes = [], return_code_count = 0, suback_props = None, suback_level = 5\<rparr>) = ((D', Some d'), Ok (int n)) \<and>
    suback_packet_id d' = 7 \<and> codes_kept d' [1, 0x80]"
proof -
  let ?bc = "small_client\<lparr>bc_level := 5\<rparr>"
  have v: "\<forall>c \<in> set [1, 0x80]. MqttPacket_SubAckReturnCodeValid c (bc_level ?bc)"
    by (simp add: MqttPacket_SubAckReturnCodeValid_def)
  have b: "bc_tx_buf_len ?bc = int (length (bc_tx_buf ?bc))" "length (bc_tx_buf ?bc) < 0x0FFFFFFF" "length [1, 0x80 :: byte] + 8 \<le> length (bc_tx_buf ?bc)"
    by (simp_all add: small_client_def)
  have h: "live_list (replicate 30 zero_prop) None []" by (simp add: live_list_def)
  from suback_round_trip [OF _ v b h, of "\<lparr>suback_packet_id = 0, return_codes = [], return_code_count = 0, suback_props = None, suback_level = 5\<rparr>" True 0 "()" 7]
  show ?thesis by simp
qed

end
