(* ===== verification/Broker_Topic.thy ===== *)
theory Broker_Topic
  imports Mqtt_Topic
begin

text \<open>
  \<^verbatim>\<open>BrokerTopicMatch\<close> of \<^verbatim>\<open>src/mqtt_broker.c\<close>: which topics a filter selects.  The loop over the two strings is
  compared with the rule of section 4.7 of the standard on the lists of levels.
\<close>

section \<open>Operations\<close>

definition starts :: "byte \<Rightarrow> byte list \<Rightarrow> bool" where
  "starts c s \<longleftrightarrow> s \<noteq> [] \<and> hd s = c"

text \<open>The results behind the loop, when one of the strings has ended.\<close>

definition match_end :: "byte list \<Rightarrow> byte list \<Rightarrow> bool" where
  "match_end f t =
     (if starts TOPIC_LEVEL_MULTI f then tl f = []
      else if f = [TOPIC_LEVEL_SINGLE] \<and> t = [] then True
      else f = [] \<and> t = [])"

text \<open>One turn of the loop: the rests of both strings after the comparison of a character or a level, or \<open>None\<close> for a difference.\<close>

definition match_step :: "byte \<Rightarrow> byte list \<Rightarrow> byte \<Rightarrow> byte list \<Rightarrow> (byte list \<times> byte list) option" where
  "match_step c f d t =
     (if c = TOPIC_LEVEL_SINGLE then Some (f, dropWhile (\<lambda>x. x \<noteq> TOPIC_LEVEL_SEPERATOR) (d # t))
      else if c \<noteq> d then None else Some (f, t))"

function match_loop :: "byte list \<Rightarrow> byte list \<Rightarrow> bool" where
  "match_loop (c # f) (d # t) =
     (if c = TOPIC_LEVEL_MULTI then f = []
      else case match_step c f d t of
        None \<Rightarrow> False
      | Some (f1, t1) \<Rightarrow>
          if starts TOPIC_LEVEL_SEPERATOR t1 \<and> starts TOPIC_LEVEL_SEPERATOR f1 then match_loop (tl f1) (tl t1)
          else if starts TOPIC_LEVEL_SEPERATOR t1 \<or> starts TOPIC_LEVEL_SEPERATOR f1
          then f1 = [TOPIC_LEVEL_SEPERATOR, TOPIC_LEVEL_MULTI] \<and> t1 = []
          else match_loop f1 t1)"
| "match_loop [] t = match_end [] t"
| "match_loop (c # f) [] = match_end (c # f) []"
  by pat_completeness auto
termination
  by (relation "measure (\<lambda>(f, _). length f)") (auto simp: match_step_def starts_def split: if_splits)

definition BrokerTopicMatch :: "byte list option \<Rightarrow> byte list option \<Rightarrow> bool" where
  "BrokerTopicMatch flt topic =
     (case (flt, topic) of
        (Some f, Some t) \<Rightarrow>
          if starts 0x24 (cstr_bytes t) \<and> (starts TOPIC_LEVEL_SINGLE (cstr_bytes f) \<or> starts TOPIC_LEVEL_MULTI (cstr_bytes f)) then False
          else match_loop (cstr_bytes f) (cstr_bytes t)
      | _ \<Rightarrow> False)"

section \<open>The rule\<close>

text \<open>Section 4.7 of the standard: a single-level wildcard stands for any level, the multi-level wildcard for any rest, the
  parent level included; topics that begin with a dollar sign are hidden from filters that begin with a wildcard.\<close>

fun levels_match :: "byte list list \<Rightarrow> byte list list \<Rightarrow> bool" where
  "levels_match [] ts = (ts = [])"
| "levels_match (l # ls) ts =
     (l = [TOPIC_LEVEL_MULTI] \<and> ls = [] \<or>
      (case ts of [] \<Rightarrow> False | t # ts' \<Rightarrow> (l = [TOPIC_LEVEL_SINGLE] \<or> l = t) \<and> levels_match ls ts'))"

definition topic_matches :: "byte list \<Rightarrow> byte list \<Rightarrow> bool" where
  "topic_matches f t \<longleftrightarrow>
     \<not> (starts 0x24 t \<and> (starts TOPIC_LEVEL_SINGLE f \<or> starts TOPIC_LEVEL_MULTI f)) \<and> levels_match (levels f) (levels t)"

text \<open>No level but the first one is empty.\<close>

definition plain_topic :: "byte list \<Rightarrow> bool" where
  "plain_topic t \<longleftrightarrow> t \<noteq> [] \<and> [] \<notin> set (tl (levels t))"

section \<open>The loop decides the rule\<close>

lemma levels_parts:
  "levels (c # s) = (if c = TOPIC_LEVEL_SEPERATOR then [] # levels s else (c # hd (levels s)) # tl (levels s))"
  "(hd (levels s) = []) = (s = [] \<or> starts TOPIC_LEVEL_SEPERATOR s)" "levels s = hd (levels s) # tl (levels s)"
  by (cases s; simp add: starts_def)+

lemma levels_skip:
  "levels (dropWhile (\<lambda>x. x \<noteq> TOPIC_LEVEL_SEPERATOR) s) = [] # tl (levels s)"
  by (induction s) auto

lemma starts_sep: "starts TOPIC_LEVEL_SEPERATOR s \<longleftrightarrow> (\<exists>r. s = TOPIC_LEVEL_SEPERATOR # r)"
  by (cases s) (auto simp: starts_def)

lemma levels_single: "(levels s = [[c]]) = (s = [c] \<and> c \<noteq> TOPIC_LEVEL_SEPERATOR)"
  by (cases s; cases "tl s") (auto simp: levels_parts(2) starts_def)


text \<open>A string is its first level and the rest, which is empty or begins with a separator.\<close>

lemma levels_cases:
  obtains (last) "TOPIC_LEVEL_SEPERATOR \<notin> set s" "levels s = [s]"
    | (more) l r where "s = l @ TOPIC_LEVEL_SEPERATOR # r" "TOPIC_LEVEL_SEPERATOR \<notin> set l" "levels s = l # levels r"
proof (induction s arbitrary: thesis)
  case Nil
  then show ?case by simp
next
  case (Cons c s)
  show ?case
  proof (cases "c = TOPIC_LEVEL_SEPERATOR")
    case True
    then show ?thesis using Cons.prems(2) [of "[]" s] by simp
  next
    case False
    show ?thesis
    proof (rule Cons.IH, goal_cases)
      case 1
      then show ?case using Cons.prems(1) False by simp
    next
      case (2 l r)
      then show ?case using Cons.prems(2) [of "c # l" r] False by simp
    qed
  qed
qed

text \<open>What the loop does at the end of a level.\<close>

definition match_sep :: "byte list \<Rightarrow> byte list \<Rightarrow> bool" where
  "match_sep f1 t1 =
     (if starts TOPIC_LEVEL_SEPERATOR t1 \<and> starts TOPIC_LEVEL_SEPERATOR f1 then match_loop (tl f1) (tl t1)
      else if starts TOPIC_LEVEL_SEPERATOR t1 \<or> starts TOPIC_LEVEL_SEPERATOR f1
      then f1 = [TOPIC_LEVEL_SEPERATOR, TOPIC_LEVEL_MULTI] \<and> t1 = []
      else match_loop f1 t1)"

lemma match_loop_Cons:
  "match_loop (c # f) (d # t) =
     (if c = TOPIC_LEVEL_MULTI then f = []
      else if c = TOPIC_LEVEL_SINGLE then match_sep f (dropWhile (\<lambda>x. x \<noteq> TOPIC_LEVEL_SEPERATOR) (d # t))
      else c = d \<and> match_sep f t)"
  by (simp add: match_step_def match_sep_def)

declare match_loop.simps(1) [simp del]

text \<open>A level without wildcards is compared character by character.\<close>

lemma match_loop_level:
  assumes "l \<noteq> []" "no_wildcard l" "TOPIC_LEVEL_SEPERATOR \<notin> set l" "f = [] \<or> starts TOPIC_LEVEL_SEPERATOR f"
    and "TOPIC_LEVEL_SEPERATOR \<notin> set k" "t = [] \<or> starts TOPIC_LEVEL_SEPERATOR t"
  shows "match_loop (l @ f) (k @ t) = (l = k \<and> match_sep f t)"
  using assms(1-3,5)
proof (induction l arbitrary: k)
  case (Cons c l)
  then show ?case
  proof (cases k)
    case Nil
    then show ?thesis using Cons.prems assms(6) by (cases t) (auto simp: match_loop_Cons no_wildcard_def starts_def match_end_def)
  next
    case (Cons d k')
    have c: "c \<noteq> TOPIC_LEVEL_MULTI" "c \<noteq> TOPIC_LEVEL_SINGLE" using Cons.prems by (auto simp: no_wildcard_def)
    show ?thesis
    proof (cases "l = []")
      case True
      then show ?thesis using c assms(4,6) Cons.prems
        by (cases k') (auto simp: Cons match_loop_Cons match_sep_def starts_def match_end_def)
    next
      case False
      have "match_sep (l @ f) (k' @ t) = match_loop (l @ f) (k' @ t)"
        using False Cons.prems assms(6)
        by (cases l; cases k'; cases t) (auto simp: Cons match_sep_def starts_def match_end_def no_wildcard_def match_loop_Cons)
      moreover have "match_loop (l @ f) (k' @ t) = (l = k' \<and> match_sep f t)"
        using Cons.IH [of k'] Cons.prems False by (simp add: Cons no_wildcard_def)
      ultimately show ?thesis using c by (simp add: Cons match_loop_Cons)
    qed
  qed
qed simp


lemma levels_match_Nil: "levels_match ls [] = (ls = [] \<or> ls = [[TOPIC_LEVEL_MULTI]])"
  by (cases ls) auto

text \<open>The loop is sound, and complete on plain topics.\<close>

definition match_agrees :: "byte list \<Rightarrow> byte list \<Rightarrow> bool" where
  "match_agrees f t \<longleftrightarrow> (match_loop f t \<longrightarrow> levels_match (levels f) (levels t)) \<and>
     (plain_topic t \<longrightarrow> levels_match (levels f) (levels t) \<longrightarrow> match_loop f t)"

lemma plain_rest: "[] \<notin> set (levels s) \<Longrightarrow> plain_topic s"
  by (cases s) (auto simp: plain_topic_def intro: list.set_sel(2))

text \<open>At the end of a level, the shorter filters being known to agree.\<close>

lemma match_sep_rule:
  assumes IH: "\<And>g t. length g < n \<Longrightarrow> levels_ok (levels g) \<Longrightarrow> no_wildcard t \<Longrightarrow> match_agrees g t"
    and asm: "g = [] \<and> gs = [] \<or> (\<exists>g'. g = TOPIC_LEVEL_SEPERATOR # g' \<and> gs = levels g' \<and> levels_ok gs)" "length g < n"
      "s = [] \<and> ss = [] \<or> (\<exists>s'. s = TOPIC_LEVEL_SEPERATOR # s' \<and> ss = levels s')" "no_wildcard s"
  shows "(match_sep g s \<longrightarrow> levels_match gs ss) \<and> ([] \<notin> set ss \<longrightarrow> levels_match gs ss \<longrightarrow> match_sep g s)"
proof (cases "\<exists>g' s'. g = TOPIC_LEVEL_SEPERATOR # g' \<and> s = TOPIC_LEVEL_SEPERATOR # s'")
  case True
  then obtain g' s' where e: "g = TOPIC_LEVEL_SEPERATOR # g'" "s = TOPIC_LEVEL_SEPERATOR # s'" "gs = levels g'" "levels_ok gs" "ss = levels s'"
    using asm(1,3) by auto
  then have "match_agrees g' s'" using IH [of g' s'] asm(2,4) by (simp add: no_wildcard_def)
  then show ?thesis using e plain_rest [of s'] by (auto simp: match_sep_def starts_def match_agrees_def)
next
  case False
  then show ?thesis using asm by (auto simp: match_sep_def starts_def levels_match_Nil match_end_def levels_single)
qed

text \<open>Behind an empty first level, where the loop looks at the next separator before it looks at the next level.\<close>

lemma match_slash_rule:
  assumes IH: "\<And>g t. length g < n \<Longrightarrow> levels_ok (levels g) \<Longrightarrow> no_wildcard t \<Longrightarrow> match_agrees g t"
    and g: "length g < n" "levels_ok (levels g)" and s: "no_wildcard s"
  shows "(match_sep g s \<longrightarrow> levels_match (levels g) (levels s)) \<and>
    ([] \<notin> set (levels s) \<longrightarrow> levels_match (levels g) (levels s) \<longrightarrow> match_sep g s)"
proof (cases "starts TOPIC_LEVEL_SEPERATOR g")
  case True
  then obtain g2 where g2: "g = TOPIC_LEVEL_SEPERATOR # g2" by (auto simp: starts_sep)
  have r: "\<not> levels_match (levels g) (levels s)" if "[] \<notin> set (levels s)"
  proof -
    obtain x xs where x: "levels s = x # xs" using levels_parts(3) [of s] by blast
    then have "x \<noteq> []" using that by auto
    then show ?thesis by (simp add: x g2)
  qed
  show ?thesis
  proof (cases "starts TOPIC_LEVEL_SEPERATOR s")
    case True
    then obtain s2 where s2: "s = TOPIC_LEVEL_SEPERATOR # s2" by (auto simp: starts_sep)
    have "levels_ok (levels g2)" using g(2) by (simp add: g2 levels_ok_Cons)
    moreover have "no_wildcard s2" using s by (simp add: s2 no_wildcard_def)
    ultimately have "match_agrees g2 s2" using IH [of g2 s2] g(1) by (simp add: g2)
    then show ?thesis using r by (simp add: match_sep_def starts_def g2 s2 match_agrees_def)
  next
    case False
    then show ?thesis using True r by (auto simp: match_sep_def)
  qed
next
  case False
  then show ?thesis using IH [OF g s] plain_rest [of s] by (auto simp: match_agrees_def match_sep_def levels_parts(2) starts_sep)
qed

lemma first_level:
  obtains l g gs where "f = l @ g" "levels f = l # gs" "TOPIC_LEVEL_SEPERATOR \<notin> set l"
    "g = [] \<and> gs = [] \<or> (\<exists>g'. g = TOPIC_LEVEL_SEPERATOR # g' \<and> gs = levels g')"
  by (cases rule: levels_cases [of f]) (metis append.right_neutral, metis)

lemma match_loop_rule:
  "levels_ok (levels f) \<Longrightarrow> no_wildcard t \<Longrightarrow> match_agrees f t"
proof (induction "length f" arbitrary: f t rule: less_induct)
  case less
  obtain l g gs where f: "f = l @ g" "levels f = l # gs" "TOPIC_LEVEL_SEPERATOR \<notin> set l"
    "g = [] \<and> gs = [] \<or> (\<exists>g'. g = TOPIC_LEVEL_SEPERATOR # g' \<and> gs = levels g')" using first_level [of f] by blast
  obtain k s ss where t: "t = k @ s" "levels t = k # ss" "TOPIC_LEVEL_SEPERATOR \<notin> set k"
    "s = [] \<and> ss = [] \<or> (\<exists>s'. s = TOPIC_LEVEL_SEPERATOR # s' \<and> ss = levels s')" using first_level [of t] by blast
  have ok: "level_ok l" "gs \<noteq> [] \<longrightarrow> TOPIC_LEVEL_MULTI \<notin> set l \<and> levels_ok gs" using less.prems(1) by (cases gs; auto simp: f(2) levels_ok_Cons)+
  have w: "no_wildcard s" using less.prems(2) t(1) by (auto simp: no_wildcard_def)
  have pl: "plain_topic t \<longleftrightarrow> t \<noteq> [] \<and> [] \<notin> set ss" by (simp add: plain_topic_def t(2))
  have f4: "g = [] \<and> gs = [] \<or> (\<exists>g'. g = TOPIC_LEVEL_SEPERATOR # g' \<and> gs = levels g' \<and> levels_ok gs)" using f(4) ok(2) by auto
  have sep: "length g < length f \<Longrightarrow> (match_sep g s \<longrightarrow> levels_match gs ss) \<and> ([] \<notin> set ss \<longrightarrow> levels_match gs ss \<longrightarrow> match_sep g s)"
    using match_sep_rule [OF less.hyps f4 _ t(4) w] by blast
  have lo: "l = [TOPIC_LEVEL_MULTI] \<or> l = [TOPIC_LEVEL_SINGLE] \<or> no_wildcard l" using ok(1) unfolding level_ok_def no_wildcard_def by blast
  consider "f = []" | "l = [TOPIC_LEVEL_MULTI]" | "l = [TOPIC_LEVEL_SINGLE]" "t = []" | "l = [TOPIC_LEVEL_SINGLE]" "t \<noteq> []" | "l = []" "f \<noteq> []"
    | "l \<noteq> []" "no_wildcard l" using lo f(1) by blast
  then show ?case
  proof cases
    case 1
    then show ?thesis using t(2) by (cases t) (auto simp: match_agrees_def match_end_def starts_def split: if_splits)
  next
    case 2
    then have "gs = []" using ok(2) by auto
    then have "g = []" using f(4) levels_nonempty by metis
    then show ?thesis using 2 f(1,2) by (cases t) (auto simp: match_agrees_def match_loop_Cons match_end_def starts_def)
  next
    case 3
    then show ?thesis using f(1,2,4) by (auto simp: match_agrees_def match_end_def starts_def plain_topic_def)
  next
    case 4
    have "dropWhile (\<lambda>x. x \<noteq> TOPIC_LEVEL_SEPERATOR) t = s" using t by (auto simp: dropWhile_append)
    then have "match_loop f t = match_sep g s" using 4 f(1) by (cases t) (auto simp: match_loop_Cons)
    moreover have "length g < length f" using 4(1) f(1) by simp
    ultimately show ?thesis using sep pl unfolding match_agrees_def f(2) t(2) by (auto simp: 4(1))
  next
    case 5
    then obtain g' where g: "f = TOPIC_LEVEL_SEPERATOR # g'" "gs = levels g'" "levels_ok (levels g')" using f(1) f4 by auto
    show ?thesis
    proof (cases "\<exists>s'. t = TOPIC_LEVEL_SEPERATOR # s'")
      case True
      then obtain s' where t': "t = TOPIC_LEVEL_SEPERATOR # s'" by blast
      have w': "no_wildcard s'" using less.prems(2) by (simp add: t' no_wildcard_def)
      have l: "length g' < length f" by (simp add: g(1))
      show ?thesis using match_slash_rule [OF less.hyps l g(3) w'] unfolding match_agrees_def g(1) t'
        by (simp add: match_loop_Cons plain_topic_def)
    next
      case False
      then have "match_loop f t = False" by (cases t) (auto simp: g(1) match_loop_Cons match_end_def starts_def)
      moreover have "t \<noteq> [] \<Longrightarrow> k \<noteq> []" using t(1,4) False by auto
      ultimately show ?thesis using 5(1) f(2) t(2) pl by (auto simp: match_agrees_def)
    qed
  next
    case 6
    have "match_loop f t = (l = k \<and> match_sep g s)" unfolding f(1) t(1)
      using 6 f(3,4) t(3,4) by (intro match_loop_level) (auto simp: starts_def)
    moreover have "length g < length f" using 6(1) f(1) by simp
    ultimately show ?thesis using sep 6 pl unfolding match_agrees_def f(2) t(2) by (auto simp: no_wildcard_def)
  qed
qed

text \<open>C17: \<^verbatim>\<open>BrokerTopicMatch\<close> selects a topic only where the rule of section 4.7 of the standard does, for every valid
  filter and every topic name without wildcards, and it selects all of them when no level of the topic name behind
  the first one is empty.\<close>

theorem topic_match_exact:
  assumes "filter_ok (cstr_bytes f)" "no_wildcard (cstr_bytes t)"
  shows "(BrokerTopicMatch (Some f) (Some t) \<longrightarrow> topic_matches (cstr_bytes f) (cstr_bytes t)) \<and>
    (plain_topic (cstr_bytes t) \<longrightarrow> BrokerTopicMatch (Some f) (Some t) = topic_matches (cstr_bytes f) (cstr_bytes t))"
  using match_loop_rule [of "cstr_bytes f" "cstr_bytes t"] assms
  by (auto simp: filter_ok_def BrokerTopicMatch_def topic_matches_def match_agrees_def)

theorem topic_match_exact_witness:
  "BrokerTopicMatch (Some [0x61, 0x2F, 0x2B, 0x2F, 0x23, 0]) (Some [0x61, 0x2F, 0x62, 0]) =
     topic_matches [0x61, 0x2F, 0x2B, 0x2F, 0x23] [0x61, 0x2F, 0x62]"
proof -
  have c: "cstr_bytes [0x61, 0x2F, 0x2B, 0x2F, 0x23, 0] = [0x61, 0x2F, 0x2B, 0x2F, 0x23]" "cstr_bytes [0x61, 0x2F, 0x62, 0] = [0x61, 0x2F, 0x62]"
    by (simp_all add: cstr_bytes_def)
  have "filter_ok [0x61, 0x2F, 0x2B, 0x2F, 0x23]" "no_wildcard [0x61, 0x2F, 0x62]" "plain_topic [0x61, 0x2F, 0x62]"
    by (simp_all add: filter_ok_def level_ok_def no_wildcard_def plain_topic_def)
  then show ?thesis using topic_match_exact [of "[0x61, 0x2F, 0x2B, 0x2F, 0x23, 0]" "[0x61, 0x2F, 0x62, 0]"] unfolding c by blast
qed

text \<open>The condition on empty levels is needed: the standard lets the filter \<^verbatim>\<open>/#\<close> select the topic \<^verbatim>\<open>//x\<close>, and
  \<^verbatim>\<open>a/+/#\<close> select \<^verbatim>\<open>a/\<close>, but \<^verbatim>\<open>BrokerTopicMatch\<close> refuses both.\<close>

lemma topic_match_empty_levels:
  "topic_matches [0x2F, 0x23] [0x2F, 0x2F, 0x78] \<and> \<not> BrokerTopicMatch (Some [0x2F, 0x23, 0]) (Some [0x2F, 0x2F, 0x78, 0]) \<and>
   topic_matches [0x61, 0x2F, 0x2B, 0x2F, 0x23] [0x61, 0x2F] \<and>
   \<not> BrokerTopicMatch (Some [0x61, 0x2F, 0x2B, 0x2F, 0x23, 0]) (Some [0x61, 0x2F, 0])"
  by (simp add: topic_matches_def BrokerTopicMatch_def cstr_bytes_def starts_def match_loop_Cons match_sep_def match_end_def)

end
