(* ===== verification/Broker_Retained.thy ===== *)
theory Broker_Retained
  imports Broker_Send Broker_Topic Broker_Refine
begin

text \<open>
  Retained messages, \<^verbatim>\<open>BrokerRetained_*\<close> of \<^verbatim>\<open>src/mqtt_broker.c\<close>, in the build with dynamic memory: a linked list
  with a counter and at most \<open>BROKER_MAX_RETAINED\<close> nodes, one for a topic.  Abstractly it is a map from topics to
  messages (\<open>retained_map\<close>); a node that a delivery in progress keeps from being freed, marked
  \<^verbatim>\<open>pending_delete\<close>, is not in the map.

  The calls of the clock are arguments: \<open>now\<close> is what \<^verbatim>\<open>WOLFMQTT_BROKER_GET_TIME_S\<close> returns.
\<close>

section \<open>Operations\<close>

definition expired :: "word64 \<Rightarrow> BrokerRetainedMsg \<Rightarrow> bool" where
  "expired now rm \<longleftrightarrow> rm_expiry_sec rm > 0 \<and> now \<ge> rm_store_time rm \<and>
     unat (now - rm_store_time rm) \<ge> unat (rm_expiry_sec rm)"

definition same_topic :: "cstr \<Rightarrow> BrokerRetainedMsg \<Rightarrow> bool" where
  "same_topic t rm \<longleftrightarrow> (case rm_topic rm of None \<Rightarrow> False | Some s \<Rightarrow> XSTREQ s t)"

text \<open>A walk that unlinks and frees every node with a property, and counts it off.\<close>

fun reap :: "('a \<Rightarrow> bool) \<Rightarrow> 'a list \<Rightarrow> int \<Rightarrow> 'a list \<times> int" where
  "reap P [] c = ([], c)"
| "reap P (x # xs) c = (if P x then reap P xs (if c > 0 then c - 1 else c) else (case reap P xs c of (ys, d) \<Rightarrow> (x # ys, d)))"

definition reap_retained :: "(BrokerRetainedMsg \<Rightarrow> bool) \<Rightarrow> Broker \<Rightarrow> Broker" where
  "reap_retained P b = (case reap P (br_retained b) (br_retained_count b) of (l, c) \<Rightarrow> b\<lparr>br_retained := l, br_retained_count := c\<rparr>)"

definition BrokerRetained_ReapExpired :: "Broker \<Rightarrow> word64 \<Rightarrow> Broker" where
  "BrokerRetained_ReapExpired b now = (if br_retained_delivering b > 0 then b else reap_retained (expired now) b)"

definition zero_retained :: BrokerRetainedMsg where
  "zero_retained = \<lparr>rm_topic = None, rm_payload = None, rm_payload_len = 0, rm_store_time = 0, rm_expiry_sec = 0,
     rm_qos = MQTT_QOS_0, rm_pending_delete = 0\<rparr>"

definition fill_retained ::
  "mem option \<Rightarrow> word32 \<Rightarrow> word64 \<Rightarrow> word32 \<Rightarrow> MqttQoS \<Rightarrow> BrokerRetainedMsg \<Rightarrow> BrokerRetainedMsg" where
  "fill_retained p n t e q rm =
     rm\<lparr>rm_payload := p, rm_payload_len := n, rm_store_time := t, rm_expiry_sec := e, rm_qos := q\<rparr>"

text \<open>
  The two calls of the clock return \<open>now\<close> and \<open>now2\<close>; \<open>malloc\<close> answers the three allocations, of a node, its
  topic and the payload.
\<close>

definition BrokerRetained_Store ::
  "(nat \<Rightarrow> bool) \<Rightarrow> word64 \<Rightarrow> word64 \<Rightarrow> Broker \<Rightarrow> cstr option \<Rightarrow> mem option \<Rightarrow> word32 \<Rightarrow> MqttQoS \<Rightarrow> word32 \<Rightarrow> (Broker \<times> int) outcome" where
  "BrokerRetained_Store malloc now now2 b topic payload payload_len q expiry_sec =
     (case topic of
        None \<Rightarrow> Ok (b, err_code BAD_ARG)
      | Some t \<Rightarrow>
          let b1 = BrokerRetained_ReapExpired b now;
              is_new = (\<not> list_ex (same_topic t) (br_retained b1));
              b2 = b1\<lparr>br_retained := upd_first (same_topic t) (\<lambda>rm. rm\<lparr>rm_pending_delete := 0\<rparr>) (br_retained b1)\<rparr>
          in
          if is_new \<and> (br_retained_count b2 \<ge> BROKER_MAX_RETAINED \<or> \<not> malloc 0 \<or> \<not> malloc 1)
          then Ok (b2, err_code MEMORY)
          else
            bnd (case payload of
                   Some p \<Rightarrow> if payload_len > 0 then
                                if malloc 2 then bnd (rdn p 0 (unat payload_len)) (\<lambda>bs. Ok (Some (Some bs))) else Ok None
                              else Ok (Some None)
                 | None \<Rightarrow> Ok (Some None)) (\<lambda>staged.
              case staged of
                None \<Rightarrow> Ok (b2, err_code MEMORY)
              | Some new_payload \<Rightarrow>
                  let fill = fill_retained new_payload payload_len now2 expiry_sec q in
                  Ok (if is_new
                      then b2\<lparr>br_retained := fill (zero_retained\<lparr>rm_topic := Some (cstr_bytes t @ [0])\<rparr>) # br_retained b2,
                              br_retained_count := br_retained_count b2 + 1\<rparr>
                      else b2\<lparr>br_retained := upd_first (same_topic t) fill (br_retained b2)\<rparr>, 0)))"

definition BrokerRetained_Delete :: "Broker \<Rightarrow> cstr option \<Rightarrow> Broker" where
  "BrokerRetained_Delete b topic =
     (case topic of
        None \<Rightarrow> b
      | Some t \<Rightarrow>
          if list_ex (same_topic t) (br_retained b) then
            if br_retained_delivering b > 0
            then b\<lparr>br_retained := upd_first (same_topic t) (\<lambda>rm. rm\<lparr>rm_pending_delete := 1\<rparr>) (br_retained b)\<rparr>
            else b\<lparr>br_retained := rem_first (same_topic t) (br_retained b),
                   br_retained_count := (if br_retained_count b > 0 then br_retained_count b - 1 else br_retained_count b)\<rparr>
          else b)"

definition BrokerRetained_FreeAll :: "Broker \<Rightarrow> Broker" where
  "BrokerRetained_FreeAll b = b\<lparr>br_retained := [], br_retained_count := 0\<rparr>"

subsection \<open>Delivery to a new subscription\<close>

definition min_qos :: "MqttQoS \<Rightarrow> MqttQoS \<Rightarrow> MqttQoS" where
  "min_qos a b = (if a < b then a else b)"

text \<open>
  A subscriber whose queue is full is told so and closed.  \<open>close\<close> is the callback of the network interface.
\<close>

definition quota_close ::
  "bool \<Rightarrow> nat \<Rightarrow> ('w \<Rightarrow> int \<Rightarrow> 'w) \<Rightarrow> 'w drain_state \<Rightarrow> 'w drain_state outcome" where
  "quota_close nb tick close = (\<lambda>(w, H, bc).
     bnd (BrokerSend_Disconnect nb tick w H bc MQTT_REASON_QUOTA_EXCEEDED) (\<lambda>(w', bc', rc).
       Ok (case bc_sock bc' of
             None \<Rightarrow> (w', H, bc'\<lparr>bc_connected := 0\<rparr>)
           | Some s \<Rightarrow> (close w' s, H, bc'\<lparr>bc_sock := None, bc_connected := 0\<rparr>))))"

text \<open>One retained message for the subscriber; the result is a code, zero to go on.\<close>

definition deliver_one ::
  "bool \<Rightarrow> nat \<Rightarrow> ('w \<Rightarrow> int \<Rightarrow> 'w) \<Rightarrow> (nat \<Rightarrow> bool) \<Rightarrow> MqttQoS \<Rightarrow> BrokerRetainedMsg \<Rightarrow> word16 \<times> 'w drain_state
   \<Rightarrow> ((word16 \<times> 'w drain_state) \<times> int) outcome" where
  "deliver_one nb tick close malloc sub_qos rm = (\<lambda>(next_packet_id, w, H, bc).
     let eff_qos = min_qos (rm_qos rm) sub_qos in
     if bc_out_q_count bc \<ge> BROKER_MAX_QUEUED_MSGS_PER_SUB
     then bnd (quota_close nb tick close (w, H, bc)) (\<lambda>s. Ok ((next_packet_id, s), err_code MEMORY))
     else
       bnd (BrokerOutPub_Alloc malloc H (rm_topic rm) (if rm_payload_len rm > 0 then rm_payload rm else None) (rm_payload_len rm) None)
         (\<lambda>(H', e). case e of
            None \<Rightarrow> Ok ((next_packet_id, w, H', bc), err_code MEMORY)
          | Some e \<Rightarrow>
              (case (if eff_qos \<ge> MQTT_QOS_1 then BrokerNextPacketIdForQueue next_packet_id (bc_out_q bc) else (next_packet_id, 0)) of
                 (n', pid) \<Rightarrow>
                   if eff_qos \<ge> MQTT_QOS_1 \<and> pid = 0
                   then bnd (BrokerOutPub_Free H' e) (\<lambda>H''. Ok ((n', w, H'', bc), err_code PACKET_ID))
                   else Ok ((n', w, H', BrokerClient_EnqueueOutPub bc (e\<lparr>op_qos := eff_qos, op_packet_id := pid, op_retain := 1,
                              op_state := BROKER_OUTQ_QUEUED, op_level := bc_level bc\<rparr>)), 0))))"

text \<open>
  The walk along the list.  A node that is marked or expired is unlinked, or, inside another delivery, marked; the
  other nodes whose topic matches are queued.  The result holds the new list and counter.
\<close>

fun deliver_loop ::
  "bool \<Rightarrow> nat \<Rightarrow> ('w \<Rightarrow> int \<Rightarrow> 'w) \<Rightarrow> (nat \<Rightarrow> nat \<Rightarrow> bool) \<Rightarrow> word64 \<Rightarrow> bool \<Rightarrow> cstr \<Rightarrow> MqttQoS \<Rightarrow> BrokerRetainedMsg list \<Rightarrow> int
   \<Rightarrow> word16 \<times> 'w drain_state \<Rightarrow> (BrokerRetainedMsg list \<times> int \<times> (word16 \<times> 'w drain_state) \<times> int) outcome" where
  "deliver_loop nb tick close malloc now nested flt sub_qos [] c st = Ok ([], c, st, 0)"
| "deliver_loop nb tick close malloc now nested flt sub_qos (rm # rms) c st =
     (if rm_pending_delete rm \<noteq> 0 \<or> expired now rm then
        if nested
        then bnd (deliver_loop nb tick close malloc now nested flt sub_qos rms c st) (\<lambda>(l, c', st', rc).
               Ok (rm\<lparr>rm_pending_delete := 1\<rparr> # l, c', st', rc))
        else deliver_loop nb tick close malloc now nested flt sub_qos rms (if c > 0 then c - 1 else c) st
      else if (case rm_topic rm of None \<Rightarrow> False | Some t \<Rightarrow> BrokerTopicMatch (Some flt) (Some t)) then
        bnd (deliver_one nb tick close (malloc (length rms)) sub_qos rm st) (\<lambda>(st', rc).
          if rc \<noteq> 0 then Ok (rm # rms, c, st', rc)
          else bnd (deliver_loop nb tick close malloc now nested flt sub_qos rms c st') (\<lambda>(l, c', st'', rc').
                 Ok (rm # l, c', st'', rc')))
      else bnd (deliver_loop nb tick close malloc now nested flt sub_qos rms c st) (\<lambda>(l, c', st', rc).
             Ok (rm # l, c', st', rc)))"

definition BrokerRetained_DeliverToClient ::
  "bool \<Rightarrow> nat \<Rightarrow> ('w \<Rightarrow> int \<Rightarrow> 'w) \<Rightarrow> (nat \<Rightarrow> nat \<Rightarrow> bool) \<Rightarrow> word64 \<Rightarrow> Broker \<Rightarrow> 'w drain_state \<Rightarrow> cstr option \<Rightarrow> MqttQoS
   \<Rightarrow> (Broker \<times> 'w drain_state \<times> int) outcome" where
  "BrokerRetained_DeliverToClient nb tick close malloc now b = (\<lambda>(w, H, bc) flt sub_qos.
     case flt of
       None \<Rightarrow> Ok (b, (w, H, bc), err_code BAD_ARG)
     | Some f \<Rightarrow>
         let depth = br_retained_delivering b + 1 in
         bnd (deliver_loop nb tick close malloc now (depth > 1) f sub_qos (br_retained b) (br_retained_count b)
                (br_next_packet_id b, w, H, bc)) (\<lambda>(l, c, (n, s), rc).
           let depth' = (if depth > 0 then depth - 1 else depth);
               b1 = b\<lparr>br_retained := l, br_retained_count := c, br_retained_delivering := depth', br_next_packet_id := n\<rparr>
           in Ok (if depth' = 0 then reap_retained (\<lambda>rm. rm_pending_delete rm \<noteq> 0) b1 else b1, s, rc)))"

section \<open>The map of retained messages\<close>

lemma reap_eq: "c \<ge> int (length l) \<Longrightarrow> reap P l c = (filter (\<lambda>x. \<not> P x) l, c - int (length (filter P l)))"
  by (induction l arbitrary: c) auto

type_synonym retained_val = "mem option \<times> word32 \<times> word64 \<times> word32 \<times> MqttQoS"

definition rm_key :: "BrokerRetainedMsg \<Rightarrow> byte list" where
  "rm_key rm = (case rm_topic rm of None \<Rightarrow> [] | Some s \<Rightarrow> cstr_bytes s)"

definition rm_val :: "BrokerRetainedMsg \<Rightarrow> retained_val" where
  "rm_val rm = (rm_payload rm, rm_payload_len rm, rm_store_time rm, rm_expiry_sec rm, rm_qos rm)"

definition retained_map :: "Broker \<Rightarrow> byte list \<Rightarrow> retained_val option" where
  "retained_map b k = map_option rm_val (find (\<lambda>rm. rm_key rm = k) (br_retained b))"

text \<open>The state outside a delivery: no node is marked.\<close>

definition retained_inv :: "Broker \<Rightarrow> bool" where
  "retained_inv b \<longleftrightarrow> br_retained_delivering b = 0 \<and> (\<forall>rm \<in> set (br_retained b). rm_topic rm \<noteq> None \<and> rm_pending_delete rm = 0) \<and>
     distinct (map rm_key (br_retained b)) \<and> br_retained_count b = int (length (br_retained b)) \<and>
     br_retained_count b \<le> BROKER_MAX_RETAINED"

definition val_expired :: "word64 \<Rightarrow> retained_val \<Rightarrow> bool" where
  "val_expired now = (\<lambda>(p, n, t, e, q). e > 0 \<and> now \<ge> t \<and> unat (now - t) \<ge> unat e)"

definition alive :: "word64 \<Rightarrow> (byte list \<Rightarrow> retained_val option) \<Rightarrow> byte list \<Rightarrow> retained_val option" where
  "alive now M k = (case M k of None \<Rightarrow> None | Some v \<Rightarrow> if val_expired now v then None else Some v)"

text \<open>What is asked for: a message to retain, with the answers of the allocator and the clock, none any more for a topic, or none at all.\<close>

datatype retain_op = Retain "nat \<Rightarrow> bool" word64 word64 cstr "mem option" word32 MqttQoS word32 | Unretain cstr | Clear

fun retain_step :: "Broker \<Rightarrow> retain_op \<Rightarrow> (Broker \<times> int) outcome" where
  "retain_step b (Retain malloc now now2 t p n q e) = BrokerRetained_Store malloc now now2 b (Some t) p n q e"
| "retain_step b (Unretain t) = Ok (BrokerRetained_Delete b (Some t), 0)"
| "retain_step b Clear = Ok (BrokerRetained_FreeAll b, 0)"

text \<open>The specification: a map of at most \<open>BROKER_MAX_RETAINED\<close> topics that forgets what has expired.\<close>

fun spec_step :: "(byte list \<Rightarrow> retained_val option) \<Rightarrow> retain_op \<Rightarrow> (byte list \<Rightarrow> retained_val option) \<times> int" where
  "spec_step M (Retain malloc now now2 t p n q e) =
     (let A = alive now M; k = cstr_bytes t in
      if A k = None \<and> (int (card (dom A)) \<ge> BROKER_MAX_RETAINED \<or> \<not> malloc 0 \<or> \<not> malloc 1) \<or> p \<noteq> None \<and> n > 0 \<and> \<not> malloc 2
      then (A, err_code MEMORY)
      else (A(k \<mapsto> (if n > 0 then map_option (take (unat n)) p else None, n, now2, e, q)), 0))"
| "spec_step M (Unretain t) = (M(cstr_bytes t := None), 0)"
| "spec_step M Clear = (\<lambda>_. None, 0)"

fun op_wf :: "retain_op \<Rightarrow> bool" where
  "op_wf (Retain malloc now now2 t p n q e) = (case p of None \<Rightarrow> True | Some bs \<Rightarrow> unat n \<le> length bs)"
| "op_wf (Unretain t) = True"
| "op_wf Clear = True"

lemma same_topic_key: "rm_topic rm \<noteq> None \<Longrightarrow> same_topic t rm \<longleftrightarrow> rm_key rm = cstr_bytes t"
  by (auto simp: same_topic_def rm_key_def XSTREQ_def)

lemma retained_card: "distinct (map rm_key (br_retained b)) \<Longrightarrow> card (dom (retained_map b)) = length (br_retained b)"
proof -
  assume d: "distinct (map rm_key (br_retained b))"
  have "dom (retained_map b) = set (map rm_key (br_retained b))"
    using find_key_None [of rm_key _ "br_retained b"] by (auto simp: retained_map_def dom_def)
  then show ?thesis using distinct_card [OF d] by simp
qed

lemma reap_expired:
  assumes "retained_inv b"
  shows "retained_inv (BrokerRetained_ReapExpired b now) \<and> retained_map (BrokerRetained_ReapExpired b now) = alive now (retained_map b)"
proof -
  note i = assms [unfolded retained_inv_def]
  let ?l = "filter (\<lambda>rm. \<not> expired now rm) (br_retained b)"
  have l: "length ?l + length (filter (expired now) (br_retained b)) = length (br_retained b)"
    using sum_length_filter_compl [of "expired now" "br_retained b"] by simp
  have eq: "BrokerRetained_ReapExpired b now = b\<lparr>br_retained := ?l, br_retained_count := int (length ?l)\<rparr>"
    using i l by (simp add: BrokerRetained_ReapExpired_def reap_retained_def reap_eq)
  have v: "expired now rm = val_expired now (rm_val rm)" for rm by (simp add: expired_def val_expired_def rm_val_def)
  have "retained_map (b\<lparr>br_retained := ?l, br_retained_count := int (length ?l)\<rparr>) = alive now (retained_map b)"
    using i find_key_filter [of rm_key "br_retained b"]
    by (auto simp: retained_map_def alive_def v fun_eq_iff split: option.splits)
  then show ?thesis unfolding eq using i l by (auto simp: retained_inv_def distinct_map_filter)
qed

text \<open>Storing: the node of the topic is filled, or a new one is put in front.\<close>

lemma upd_same_topic:
  assumes "retained_inv b"
  shows "upd_first (same_topic t) f (br_retained b) = upd_first (\<lambda>rm. rm_key rm = cstr_bytes t) f (br_retained b)"
    and "rem_first (same_topic t) (br_retained b) = rem_first (\<lambda>rm. rm_key rm = cstr_bytes t) (br_retained b)"
    and "list_ex (same_topic t) (br_retained b) \<longleftrightarrow> retained_map b (cstr_bytes t) \<noteq> None"
proof -
  have s: "same_topic t rm \<longleftrightarrow> rm_key rm = cstr_bytes t" if "rm \<in> set (br_retained b)" for rm
    using assms that same_topic_key by (auto simp: retained_inv_def)
  then show "upd_first (same_topic t) f (br_retained b) = upd_first (\<lambda>rm. rm_key rm = cstr_bytes t) f (br_retained b)"
    "rem_first (same_topic t) (br_retained b) = rem_first (\<lambda>rm. rm_key rm = cstr_bytes t) (br_retained b)"
    by (auto intro: upd_first_cong rem_first_cong)
  have "list_ex (same_topic t) (br_retained b) \<longleftrightarrow> list_ex (\<lambda>rm. rm_key rm = cstr_bytes t) (br_retained b)"
    using s by (auto simp: list_ex_iff)
  then show "list_ex (same_topic t) (br_retained b) \<longleftrightarrow> retained_map b (cstr_bytes t) \<noteq> None"
    by (simp add: list_ex_key retained_map_def)
qed

lemma fill_simps [simp]:
  "rm_key (fill_retained p n t e q rm) = rm_key rm" "rm_topic (fill_retained p n t e q rm) = rm_topic rm"
  "rm_pending_delete (fill_retained p n t e q rm) = rm_pending_delete rm" "rm_val (fill_retained p n t e q rm) = (p, n, t, e, q)"
  by (simp_all add: fill_retained_def rm_key_def rm_val_def)

lemma refill:
  assumes "retained_inv b" "retained_map b (cstr_bytes t) \<noteq> None"
  shows "retained_inv (b\<lparr>br_retained := upd_first (same_topic t) (fill_retained p n now e q) (br_retained b)\<rparr>) \<and>
    retained_map (b\<lparr>br_retained := upd_first (same_topic t) (fill_retained p n now e q) (br_retained b)\<rparr>)
      = (retained_map b)(cstr_bytes t \<mapsto> (p, n, now, e, q))"
proof -
  let ?f = "fill_retained p n now e q" and ?k = "cstr_bytes t"
  let ?l = "upd_first (\<lambda>rm. rm_key rm = ?k) ?f (br_retained b)"
  have "map_option rm_val (find (\<lambda>rm. rm_key rm = k) ?l) = ((retained_map b)(?k \<mapsto> (p, n, now, e, q))) k" for k
    using assms(2) find_key_upd [of rm_key ?f k ?k "br_retained b"] by (auto simp: retained_map_def)
  moreover have "map rm_key ?l = map rm_key (br_retained b)" by (rule upd_first_map) simp
  moreover have "rm_topic rm \<noteq> None \<and> rm_pending_delete rm = 0" if "rm \<in> set ?l" for rm
    using upd_first_set [OF that] assms(1) by (auto simp: retained_inv_def)
  ultimately show ?thesis using assms(1) unfolding upd_same_topic(1) [OF assms(1)]
    by (simp add: retained_inv_def fun_eq_iff retained_map_def upd_first_length)
qed

lemma add_new:
  assumes "retained_inv b" "retained_map b (cstr_bytes t) = None" "br_retained_count b < BROKER_MAX_RETAINED"
  shows "retained_inv (b\<lparr>br_retained := fill_retained p n now e q (zero_retained\<lparr>rm_topic := Some (cstr_bytes t @ [0])\<rparr>) # br_retained b,
        br_retained_count := br_retained_count b + 1\<rparr>) \<and>
    retained_map (b\<lparr>br_retained := fill_retained p n now e q (zero_retained\<lparr>rm_topic := Some (cstr_bytes t @ [0])\<rparr>) # br_retained b,
        br_retained_count := br_retained_count b + 1\<rparr>) = (retained_map b)(cstr_bytes t \<mapsto> (p, n, now, e, q))"
proof -
  have k: "rm_key (zero_retained\<lparr>rm_topic := Some (cstr_bytes t @ [0])\<rparr>) = cstr_bytes t"
    by (simp add: rm_key_def cstr_bytes_def takeWhile_append)
  have "cstr_bytes t \<notin> rm_key ` set (br_retained b)"
    using assms(2) find_key_None [of rm_key "cstr_bytes t" "br_retained b"] by (simp add: retained_map_def)
  then show ?thesis using assms(1,3) k by (auto simp: retained_inv_def retained_map_def fun_eq_iff zero_retained_def)
qed

lemma retain_refines:
  assumes "retained_inv b" "op_wf op"
  shows "\<exists>b' rc. retain_step b op = Ok (b', rc) \<and> retained_inv b' \<and> spec_step (retained_map b) op = (retained_map b', rc)"
proof (cases op)
  case Clear
  then show ?thesis using assms(1) by (simp add: BrokerRetained_FreeAll_def retained_inv_def retained_map_def fun_eq_iff)
next
  case (Unretain t)
  note i = assms(1) [unfolded retained_inv_def]
  let ?l = "rem_first (\<lambda>rm. rm_key rm = cstr_bytes t) (br_retained b)"
  have m: "map_option rm_val (find (\<lambda>rm. rm_key rm = k) ?l) = ((retained_map b)(cstr_bytes t := None)) k" for k
    using i find_key_rem [of rm_key "br_retained b" k "cstr_bytes t"] by (simp add: retained_map_def)
  show ?thesis
  proof (cases "retained_map b (cstr_bytes t) = None")
    case True
    then have "(retained_map b)(cstr_bytes t := None) = retained_map b" by (simp add: fun_upd_idem)
    then show ?thesis using Unretain assms(1) True upd_same_topic(3) [OF assms(1), of t] by (simp add: BrokerRetained_Delete_def)
  next
    case False
    then have ex: "list_ex (\<lambda>rm. rm_key rm = cstr_bytes t) (br_retained b)" by (auto simp: list_ex_key retained_map_def)
    then have "0 < length (br_retained b)" by (cases "br_retained b") auto
    then show ?thesis using Unretain i False m ex rem_first_subset [of "\<lambda>rm. rm_key rm = cstr_bytes t" "br_retained b"]
        rem_first_distinct [of rm_key "br_retained b"] upd_same_topic(2,3) [OF assms(1), of t]
      by (auto simp: BrokerRetained_Delete_def retained_inv_def retained_map_def fun_eq_iff rem_first_length of_nat_diff Suc_le_eq)
  qed
next
  case (Retain malloc now now2 t p n q e)
  define b1 where "b1 = BrokerRetained_ReapExpired b now"
  have b1: "retained_inv b1" "retained_map b1 = alive now (retained_map b)" using reap_expired [OF assms(1)] by (simp_all add: b1_def)
  have u: "b1\<lparr>br_retained := upd_first (same_topic t) (\<lambda>rm. rm\<lparr>rm_pending_delete := 0\<rparr>) (br_retained b1)\<rparr> = b1"
    using b1(1) by (subst upd_first_id) (auto simp: retained_inv_def)
  have c: "int (card (dom (retained_map b1))) = br_retained_count b1" using b1(1) retained_card [of b1] by (simp add: retained_inv_def)
  have staged: "(case p of Some bs \<Rightarrow> if n > 0 then if malloc 2 then bnd (rdn bs 0 (unat n)) (\<lambda>bs. Ok (Some (Some bs))) else Ok None
        else Ok (Some None) | None \<Rightarrow> Ok (Some None)) =
      Ok (if p \<noteq> None \<and> n > 0 \<and> \<not> malloc 2 then None else Some (if n > 0 then map_option (take (unat n)) p else None))"
    using assms(2) Retain by (auto simp: rdn_def blk_def split: option.splits)
  show ?thesis
    unfolding Retain retain_step.simps spec_step.simps BrokerRetained_Store_def option.case Let_def b1_def [symmetric] u staged bnd.simps
      upd_same_topic(3) [OF b1(1)] b1(2) [symmetric] c
    using b1(1) refill [OF b1(1)] add_new [OF b1(1)] by (auto split: if_splits)
qed

interpretation retained: table_spec retain_step spec_step retained_map retained_inv op_wf
  by unfold_locales (rule retain_refines)

section \<open>Properties\<close>

text \<open>C9: The list of retained messages refines a map from topics to messages: any sequence of publications to retain, of
  deletions and of clearings of the whole list runs to its end, and returns the codes and leaves the messages that a map
  of at most sixteen topics gives, which forgets expired messages, replaces the message of a topic and refuses a new topic
  only when it is full or there is no memory.\<close>

theorem retained_refines_map:
  assumes "retained_inv b" "list_all op_wf ops"
  shows "\<exists>b' rcs. run_ops retain_step b ops = Ok (b', rcs) \<and> retained_inv b' \<and>
    run_spec spec_step (retained_map b) ops = (retained_map b', rcs)"
  by (rule retained.run_refines [OF assms])

theorem retained_refines_map_witness:
  "\<exists>b'. run_ops retain_step zero_broker
       [Retain (\<lambda>_. True) 10 10 [0x61, 0] (Some [1]) 1 MQTT_QOS_1 5, Retain (\<lambda>k. k \<noteq> 2) 12 12 [0x61, 0] (Some [2]) 1 MQTT_QOS_0 0,
        Retain (\<lambda>_. True) 15 15 [0x62, 0] (Some [3]) 1 MQTT_QOS_0 0] = Ok (b', [0, err_code MEMORY, 0]) \<and>
     retained_map b' = [[0x62] \<mapsto> (Some [3], 1, 15, 0, MQTT_QOS_0)]"
proof -
  let ?ops = "[Retain (\<lambda>_. True) 10 10 [0x61, 0] (Some [1]) 1 MQTT_QOS_1 5, Retain (\<lambda>k. k \<noteq> 2) 12 12 [0x61, 0] (Some [2]) 1 MQTT_QOS_0 0,
        Retain (\<lambda>_. True) 15 15 [0x62, 0] (Some [3]) 1 MQTT_QOS_0 0]"
  have e: "retained_map zero_broker = Map.empty" by (simp add: retained_map_def zero_broker_def fun_eq_iff)
  have a: "alive now Map.empty = Map.empty" for now by (simp add: alive_def fun_eq_iff)
  have a12: "alive 12 [[0x61] \<mapsto> (Some [1], 1, 10, 5, MQTT_QOS_1)] = [[0x61] \<mapsto> (Some [1], 1, 10, 5, MQTT_QOS_1)]"
    by (auto simp: alive_def val_expired_def fun_eq_iff)
  have a15: "alive 15 [[0x61] \<mapsto> (Some [1], 1, 10, 5, MQTT_QOS_1)] = Map.empty" by (auto simp: alive_def val_expired_def fun_eq_iff)
  have s: "run_spec spec_step Map.empty ?ops = ([[0x62] \<mapsto> (Some [3], 1, 15, 0, MQTT_QOS_0)], [0, err_code MEMORY, 0])"
    by (simp add: a a12 a15 cstr_bytes_def Let_def)
  have "retained_inv zero_broker" "list_all op_wf ?ops" by (simp_all add: retained_inv_def zero_broker_def)
  from retained_refines_map [OF this] show ?thesis unfolding e s by auto
qed

end
