(* ===== verification/Broker_Handlers.thy ===== *)
theory Broker_Handlers
  imports Broker_Qos2 Broker_Session Broker_Retained Packet_Subscribe
begin

text \<open>
  The packet handlers of the broker, \<^verbatim>\<open>BrokerHandle_PublishRel\<close>, \<^verbatim>\<open>BrokerHandle_PublishRec\<close>, \<^verbatim>\<open>BrokerHandle_Subscribe\<close> and
  \<^verbatim>\<open>BrokerHandle_Unsubscribe\<close> of \<^verbatim>\<open>src/mqtt_broker.c\<close>, in the build with dynamic memory, MQTT v5, wildcards and retained
  messages and without persistence.  Each decodes the packet in the receive buffer of the client, changes the tables,
  and writes the response.

  What the handlers do not compute is in \<open>env\<close>: whether the socket may block, the clocks, the callback that closes a
  connection and the answers of the allocator.  A call is identified by a list of numbers, its place in the handler
  and the turns of the loops around it.
\<close>

section \<open>Handlers\<close>

record 'w env =
  env_nb :: bool
  env_tick :: nat
  env_now :: "nat list \<Rightarrow> word64"
  env_close :: "'w \<Rightarrow> int \<Rightarrow> 'w"
  env_malloc :: "nat list \<Rightarrow> bool"

abbreviation (input) "MQTT_REASON_PACKET_ID_NOT_FOUND \<equiv> (0x92 :: byte)"
abbreviation (input) "MQTT_SUBSCRIBE_ACK_CODE_FAILURE \<equiv> (0x80 :: byte)"
abbreviation (input) "BROKER_MAX_FILTER_LEN \<equiv> (128 :: nat)"

subsection \<open>Acknowledgements\<close>

text \<open>The response to a publication is written to the transmit buffer and sent.\<close>

definition send_resp :: "'w env \<Rightarrow> 'w drain_state \<Rightarrow> byte \<Rightarrow> MqttPublishResp \<Rightarrow> ('w drain_state \<times> int) outcome" where
  "send_resp E = (\<lambda>(w, H, bc) ptype resp.
     case MqttEncode_PublishResp H (Some (bc_tx_buf bc)) (bc_tx_buf_len bc) ptype (Some resp) of
       Fault \<Rightarrow> Fault
     | Err e \<Rightarrow> Ok ((w, H, bc), err_code e)
     | Ok (m, rc) \<Rightarrow>
         if rc > 0 then
           bnd (BrokerClient_WriteResp (env_nb E) (env_tick E) w (bc\<lparr>bc_tx_buf := m\<rparr>) (int rc)) (\<lambda>(w', bc', rc').
             Ok ((w', H, bc'), rc'))
         else Ok ((w, H, bc\<lparr>bc_tx_buf := m\<rparr>), int rc))"

text \<open>\<^verbatim>\<open>if (props) MqttProps_Free(props)\<close>\<close>

definition free_props :: "store \<Rightarrow> nat option \<Rightarrow> store outcome" where
  "free_props H p = (case p of None \<Rightarrow> Ok H | Some _ \<Rightarrow> MqttProps_Free H p)"

text \<open>The common head of the handlers: a decoder that failed ends the handler with its code.\<close>

definition decoded ::
  "(store \<times> 'a option) \<times> int outcome \<Rightarrow> (store \<Rightarrow> int \<Rightarrow> 'r outcome) \<Rightarrow> (store \<Rightarrow> 'a \<Rightarrow> 'r outcome) \<Rightarrow> 'r outcome" where
  "decoded d fail go =
     (case d of ((H, a), r) \<Rightarrow>
        (case r of
           Fault \<Rightarrow> Fault
         | Err e \<Rightarrow> fail H (err_code e)
         | Ok rc \<Rightarrow> if rc < 0 then fail H rc else (case a of None \<Rightarrow> Fault | Some x \<Rightarrow> go H x)))"

definition BrokerHandle_PublishRel :: "'w env \<Rightarrow> 'w drain_state \<Rightarrow> int \<Rightarrow> ('w drain_state \<times> int) outcome" where
  "BrokerHandle_PublishRel E = (\<lambda>(w, H, bc) rx_len.
     decoded (MqttDecode_PublishResp H (Some (bc_rx_buf bc)) rx_len MQTT_PACKET_TYPE_PUBLISH_REL
                (Some \<lparr>resp_packet_id = 0, resp_reason_code = 0, resp_props = None, resp_level = bc_level bc\<rparr>))
       (\<lambda>H1 rc. Ok ((w, H1, bc), rc))
       (\<lambda>H1 resp.
          let was_tracked = BrokerInboundQos2_Contains bc (resp_packet_id resp);
              bc1 = BrokerInboundQos2_Remove bc (resp_packet_id resp) in
          bnd (free_props H1 (resp_props resp)) (\<lambda>H2.
            send_resp E (w, H2, bc1) MQTT_PACKET_TYPE_PUBLISH_COMP
              (resp\<lparr>resp_reason_code := (if was_tracked then MQTT_REASON_SUCCESS else MQTT_REASON_PACKET_ID_NOT_FOUND),
                    resp_props := None\<rparr>))))"

definition BrokerHandle_PublishRec :: "'w env \<Rightarrow> 'w drain_state \<Rightarrow> int \<Rightarrow> ('w drain_state \<times> int) outcome" where
  "BrokerHandle_PublishRec E = (\<lambda>(w, H, bc) rx_len.
     decoded (MqttDecode_PublishResp H (Some (bc_rx_buf bc)) rx_len MQTT_PACKET_TYPE_PUBLISH_REC
                (Some \<lparr>resp_packet_id = 0, resp_reason_code = 0, resp_props = None, resp_level = bc_level bc\<rparr>))
       (\<lambda>H1 rc. Ok ((w, H1, bc), rc))
       (\<lambda>H1 resp.
          bnd (free_props H1 (resp_props resp)) (\<lambda>H2.
            if bc_level bc \<ge> MQTT_CONNECT_PROTOCOL_LEVEL_5 \<and> resp_reason_code resp \<ge> 0x80 then
              bnd (BrokerClient_OnPubReject (env_nb E) (env_tick E) (w, H2, bc) (resp_packet_id resp)) (\<lambda>s. Ok (s, 0))
            else
              (case BrokerClient_OnPubRec bc (resp_packet_id resp) of (bc1, rc) \<Rightarrow>
                 if rc < 0 then Ok ((w, H2, bc1), err_code PACKET_TYPE)
                 else send_resp E (w, H2, bc1) MQTT_PACKET_TYPE_PUBLISH_REL
                        (resp\<lparr>resp_reason_code := MQTT_REASON_SUCCESS, resp_props := None\<rparr>)))))"

subsection \<open>Subscriptions\<close>

text \<open>Whether retained messages are sent; \<open>sub_rc\<close> is 1 for a new subscription.\<close>

definition deliver_retained :: "byte \<Rightarrow> byte \<Rightarrow> int \<Rightarrow> bool" where
  "deliver_retained level options sub_rc \<longleftrightarrow>
     \<not> (level \<ge> MQTT_CONNECT_PROTOCOL_LEVEL_5 \<and>
        (let rh = options AND 0x30 in rh = 0x20 \<or> rh = 0x10 \<and> sub_rc \<noteq> 1))"

text \<open>
  One topic of a SUBSCRIBE packet: the code for the SUBACK, or the code with which the handler ends.  The filter lies in
  the receive buffer behind its length, which the handler reads again; the decoded filter has just this length.
\<close>

definition subscribe_topic ::
  "'w env \<Rightarrow> handle \<Rightarrow> nat \<Rightarrow> Broker \<times> 'w drain_state \<Rightarrow> MqttTopic \<Rightarrow> ((Broker \<times> 'w drain_state) \<times> (int + byte)) outcome" where
  "subscribe_topic E h i = (\<lambda>(b, w, H, bc) topic.
     let q = (if topic_qos topic > MQTT_QOS_2 then MQTT_QOS_2 else topic_qos topic) in
     case topic_filter topic of
       None \<Rightarrow> Ok ((b, w, H, bc), Inr MQTT_SUBSCRIBE_ACK_CODE_FAILURE)
     | Some f \<Rightarrow>
         bnd (BrokerSubs_Add (\<lambda>k. env_malloc E [0, i, k]) h b bc f (word_of_nat (length f)) q) (\<lambda>(b1, bc1, sub_rc).
           if sub_rc < 0 then
             Ok ((b1, w, H, bc1), Inr (if bc_level bc1 \<ge> MQTT_CONNECT_PROTOCOL_LEVEL_5 \<and> sub_rc = err_code MEMORY
                                       then MQTT_REASON_QUOTA_EXCEEDED else MQTT_SUBSCRIBE_ACK_CODE_FAILURE))
           else if deliver_retained (bc_level bc1) (sub_options topic) sub_rc then
             bnd (if length f \<ge> BROKER_MAX_FILTER_LEN \<and> \<not> env_malloc E [1, i] then Ok (b1, (w, H, bc1), err_code MEMORY)
                  else BrokerRetained_DeliverToClient (env_nb E) (env_tick E) (env_close E) (\<lambda>k j. env_malloc E [2, i, k, j])
                         (env_now E [0, i]) b1 (w, H, bc1) (Some (f @ [0])) q) (\<lambda>(b2, s, retained_rc).
               Ok ((b2, s), if retained_rc < 0 then Inl retained_rc else Inr (qos_code q)))
           else Ok ((b1, w, H, bc1), Inr (qos_code q))))"

fun subscribe_loop ::
  "'w env \<Rightarrow> handle \<Rightarrow> nat \<Rightarrow> Broker \<times> 'w drain_state \<Rightarrow> MqttTopic list \<Rightarrow> byte list
   \<Rightarrow> ((Broker \<times> 'w drain_state) \<times> (int + byte list)) outcome" where
  "subscribe_loop E h i st [] codes = Ok (st, Inr codes)"
| "subscribe_loop E h i st (t # ts) codes =
     bnd (subscribe_topic E h i st t) (\<lambda>(st', r).
       case r of Inl rc \<Rightarrow> Ok (st', Inl rc) | Inr c \<Rightarrow> subscribe_loop E h (Suc i) st' ts (codes @ [c]))"

definition zero_topic :: MqttTopic where
  "zero_topic = \<lparr>topic_filter = None, topic_qos = MQTT_QOS_0, sub_options = 0\<rparr>"

definition zero_subscribe :: "byte \<Rightarrow> MqttSubscribe" where
  "zero_subscribe level = \<lparr>sub_packet_id = 0, topic_count = 0, topics = Some (replicate MAX_MQTT_TOPICS zero_topic), sub_props = None,
     sub_level = level\<rparr>"

text \<open>The topics of the loop \<^verbatim>\<open>for (i = 0; i < topic_count && i < MAX_MQTT_TOPICS; i++)\<close>.\<close>

definition given_topics :: "MqttSubscribe \<Rightarrow> MqttTopic list" where
  "given_topics s = (case topics s of None \<Rightarrow> [] | Some ts \<Rightarrow> take (min (nat (topic_count s)) MAX_MQTT_TOPICS) ts)"

definition BrokerHandle_Subscribe ::
  "'w env \<Rightarrow> handle \<Rightarrow> Broker \<times> 'w drain_state \<Rightarrow> int \<Rightarrow> ((Broker \<times> 'w drain_state) \<times> int) outcome" where
  "BrokerHandle_Subscribe E h = (\<lambda>(b, w, H, bc) rx_len.
     decoded (MqttDecode_Subscribe H (Some (bc_rx_buf bc)) rx_len (Some (zero_subscribe (bc_level bc))))
       (\<lambda>H1 rc. Ok ((b, w, H1, bc), rc))
       (\<lambda>H1 sub.
          bnd (subscribe_loop E h 0 (b, w, H1, bc) (given_topics sub) []) (\<lambda>((b2, w2, H2, bc2), r).
          bnd (case r of
                 Inl rc \<Rightarrow> Ok (w2, bc2, rc)
               | Inr codes \<Rightarrow> BrokerSend_SubAck (env_nb E) (env_tick E) w2 bc2 (sub_packet_id sub) codes (int (length codes)))
            (\<lambda>(w3, bc3, rc).
          bnd (free_props H2 (sub_props sub)) (\<lambda>H3. Ok ((b2, w3, H3, bc3), rc))))))"

definition unsubscribe_topic :: "handle \<Rightarrow> MqttTopic \<Rightarrow> Broker \<times> 'w BrokerClient \<Rightarrow> Broker \<times> 'w BrokerClient" where
  "unsubscribe_topic h topic = (\<lambda>(b, bc).
     case topic_filter topic of
       None \<Rightarrow> (b, bc)
     | Some f \<Rightarrow> BrokerSubs_Remove h b bc f (word_of_nat (length f)))"

definition BrokerHandle_Unsubscribe ::
  "'w env \<Rightarrow> handle \<Rightarrow> Broker \<times> 'w drain_state \<Rightarrow> int \<Rightarrow> ((Broker \<times> 'w drain_state) \<times> int) outcome" where
  "BrokerHandle_Unsubscribe E h = (\<lambda>(b, w, H, bc) rx_len.
     decoded (MqttDecode_Unsubscribe H (Some (bc_rx_buf bc)) rx_len (Some (zero_subscribe (bc_level bc))))
       (\<lambda>H1 rc. Ok ((b, w, H1, bc), rc))
       (\<lambda>H1 unsub.
          case fold (unsubscribe_topic h) (given_topics unsub) (b, bc) of (b2, bc2) \<Rightarrow>
          let v5 = (bc_level bc2 \<ge> MQTT_CONNECT_PROTOCOL_LEVEL_5);
              reasons = map (\<lambda>_. MQTT_REASON_SUCCESS) (given_topics unsub);
              ack = \<lparr>unsuback_packet_id = sub_packet_id unsub, unsuback_props = None,
                     reason_codes = (if v5 then Some reasons else None),
                     reason_code_count = (if v5 then word_of_int (topic_count unsub) else 0), unsuback_level = bc_level bc2\<rparr>
          in
          bnd (case MqttEncode_UnsubscribeAck H1 (Some (bc_tx_buf bc2)) (bc_tx_buf_len bc2) (Some ack) of
                 Fault \<Rightarrow> Fault
               | Err e \<Rightarrow> Ok (w, bc2, err_code e)
               | Ok (m, rc) \<Rightarrow>
                   if rc > 0 then BrokerClient_WriteResp (env_nb E) (env_tick E) w (bc2\<lparr>bc_tx_buf := m\<rparr>) (int rc)
                   else Ok (w, bc2\<lparr>bc_tx_buf := m\<rparr>, int rc)) (\<lambda>(w3, bc3, rc).
          bnd (free_props H1 (sub_props unsub)) (\<lambda>H3. Ok ((b2, w3, H3, bc3), rc)))))"

end
