(* ===== verification/Broker_Publish.thy ===== *)
theory Broker_Publish
  imports Broker_Handlers
begin

text \<open>
  The distribution of a publication, \<^verbatim>\<open>BrokerHandle_Publish\<close> of \<^verbatim>\<open>src/mqtt_broker.c\<close>: the packet is decoded and checked, a
  QoS 2 duplicate is only acknowledged again, the retained message of the topic is stored or deleted, the subscribers
  are collected (\<^verbatim>\<open>BrokerFanout_*\<close>), the message is queued for each of them, also for those that are offline, and
  the publisher gets its acknowledgement.

  The clients are a function from handles to records.  Without WebSockets a write does not run another handler, so no
  client is unlinked while a publication is distributed, and \<^verbatim>\<open>clients_gen\<close> keeps its value.
\<close>

section \<open>The list of destinations\<close>

abbreviation (input) "BROKER_FANOUT_STACK_TARGETS \<equiv> (16 :: nat)"
abbreviation (input) "MQTT_REASON_PROTOCOL_ERR \<equiv> (0x82 :: byte)"
abbreviation (input) "MQTT_REASON_SERVER_BUSY \<equiv> (0x89 :: byte)"
abbreviation (input) "MQTT_REASON_TOPIC_ALIAS_INVALID \<equiv> (0x94 :: byte)"

record BrokerFanoutList =
  fl_items :: "(handle \<times> MqttQoS) list"
  fl_cap :: nat
  fl_truncated :: bool

definition BrokerFanout_Init :: "nat \<Rightarrow> BrokerFanoutList" where
  "BrokerFanout_Init cap = \<lparr>fl_items = [], fl_cap = cap, fl_truncated = False\<rparr>"

text \<open>A full list is copied to one of twice the size.\<close>

definition BrokerFanout_Add :: "bool \<Rightarrow> BrokerFanoutList \<Rightarrow> handle \<Rightarrow> MqttQoS \<Rightarrow> BrokerFanoutList" where
  "BrokerFanout_Add malloc fl client q =
     (if fl_truncated fl then fl
      else if length (fl_items fl) = fl_cap fl then
        if \<not> malloc then fl\<lparr>fl_truncated := True\<rparr>
        else fl\<lparr>fl_items := fl_items fl @ [(client, q)], fl_cap := fl_cap fl * 2\<rparr>
      else fl\<lparr>fl_items := fl_items fl @ [(client, q)]\<rparr>)"

section \<open>Distribution\<close>

text \<open>A message on its way: its topic, payload, length, QoS and properties.\<close>

record message =
  ms_topic :: cstr
  ms_payload :: "mem option"
  ms_len :: word32
  ms_qos :: MqttQoS
  ms_props :: "nat option"

definition sub_matches :: "cstr \<Rightarrow> BrokerSub \<Rightarrow> bool" where
  "sub_matches topic s \<longleftrightarrow> (case bs_filter s of None \<Rightarrow> False | Some f \<Rightarrow> BrokerTopicMatch (Some f) (Some topic))"

definition online :: "(handle \<Rightarrow> 'w BrokerClient) \<Rightarrow> BrokerSub \<Rightarrow> bool" where
  "online cl s \<longleftrightarrow> (case bs_client s of None \<Rightarrow> False | Some h \<Rightarrow> bc_level (cl h) \<noteq> 0 \<and> bc_connected (cl h) \<noteq> 0)"

text \<open>The first pass, over the subscriptions; messages for offline sessions are queued on the way.\<close>

fun collect ::
  "'w env \<Rightarrow> (handle \<Rightarrow> 'w BrokerClient) \<Rightarrow> message \<Rightarrow> nat \<Rightarrow> BrokerSub list \<Rightarrow> store \<times> Broker \<times> BrokerFanoutList
   \<Rightarrow> (store \<times> Broker \<times> BrokerFanoutList) outcome" where
  "collect E cl ms k [] st = Ok st"
| "collect E cl ms k (s # ss) (H, b, fl) =
     (let eff_qos = min_qos (ms_qos ms) (bs_qos s) in
      if online cl s \<and> sub_matches (ms_topic ms) s then
        collect E cl ms (Suc k) ss (H, b, BrokerFanout_Add (env_malloc E [3, k]) fl (the (bs_client s)) eff_qos)
      else if bs_client s = None \<and> bs_client_id s \<noteq> None \<and> sub_matches (ms_topic ms) s \<and> eff_qos > MQTT_QOS_0 then
        (case BrokerOrphan_Find b (bs_client_id s) of
           None \<Rightarrow> collect E cl ms (Suc k) ss (H, b, fl)
         | Some i \<Rightarrow>
             bnd (BrokerOrphan_Enqueue (\<lambda>j. env_malloc E [4, k, j]) (env_now E [1, k]) H b i (Some (ms_topic ms)) (ms_payload ms)
                    (ms_len ms) eff_qos 0 (ms_props ms)) (\<lambda>(H', b').
               collect E cl ms (Suc k) ss (H', b', fl)))
      else collect E cl ms (Suc k) ss (H, b, fl))"

text \<open>The second pass, over the destinations; \<open>h\<close> is the publisher, whose own queue is drained later.\<close>

definition deliver_target ::
  "'w env \<Rightarrow> handle \<Rightarrow> message \<Rightarrow> nat \<Rightarrow> handle \<times> MqttQoS \<Rightarrow> 'w \<times> store \<times> Broker \<times> (handle \<Rightarrow> 'w BrokerClient)
   \<Rightarrow> ('w \<times> store \<times> Broker \<times> (handle \<Rightarrow> 'w BrokerClient)) outcome" where
  "deliver_target E h ms t = (\<lambda>(g, eff_qos) (w, H, b, cl).
     let wc = cl g in
     if bc_connected wc = 0 then Ok (w, H, b, cl)
     else if bc_out_q_count wc \<ge> BROKER_MAX_QUEUED_MSGS_PER_SUB then
       bnd (quota_close (env_nb E) (env_tick E) (env_close E) (w, H, wc)) (\<lambda>(w', H', wc'). Ok (w', H', b, cl(g := wc')))
     else
       bnd (BrokerOutPub_Alloc (\<lambda>j. env_malloc E [5, t, j]) H (Some (ms_topic ms)) (ms_payload ms) (ms_len ms) (ms_props ms)) (\<lambda>(H1, e).
         case e of
           None \<Rightarrow> Ok (w, H1, b, cl)
         | Some e \<Rightarrow>
             (case (if eff_qos \<ge> MQTT_QOS_1 then BrokerNextPacketIdForQueue (br_next_packet_id b) (bc_out_q wc) else (br_next_packet_id b, 0)) of
                (n, pid) \<Rightarrow>
                  let b1 = b\<lparr>br_next_packet_id := n\<rparr> in
                  if eff_qos \<ge> MQTT_QOS_1 \<and> pid = 0 then bnd (BrokerOutPub_Free H1 e) (\<lambda>H2. Ok (w, H2, b1, cl))
                  else
                    let wc1 = BrokerClient_EnqueueOutPub wc (e\<lparr>op_qos := eff_qos, op_packet_id := pid, op_retain := 0,
                                op_state := BROKER_OUTQ_QUEUED, op_level := bc_level wc\<rparr>) in
                    if g \<noteq> h then
                      bnd (BrokerClient_DrainOutQueue (env_nb E) (env_tick E) (w, H1, wc1)) (\<lambda>((w', H2, wc2), rc). Ok (w', H2, b1, cl(g := wc2)))
                    else Ok (w, H1, b1, cl(g := wc1)))))"

fun deliver_targets ::
  "'w env \<Rightarrow> handle \<Rightarrow> message \<Rightarrow> nat \<Rightarrow> (handle \<times> MqttQoS) list \<Rightarrow> 'w \<times> store \<times> Broker \<times> (handle \<Rightarrow> 'w BrokerClient)
   \<Rightarrow> ('w \<times> store \<times> Broker \<times> (handle \<Rightarrow> 'w BrokerClient)) outcome" where
  "deliver_targets E h ms t [] st = Ok st"
| "deliver_targets E h ms t (x # xs) st = bnd (deliver_target E h ms t x st) (deliver_targets E h ms (Suc t) xs)"

definition fan_out ::
  "'w env \<Rightarrow> handle \<Rightarrow> message \<Rightarrow> 'w \<times> store \<times> Broker \<times> (handle \<Rightarrow> 'w BrokerClient)
   \<Rightarrow> ('w \<times> store \<times> Broker \<times> (handle \<Rightarrow> 'w BrokerClient)) outcome" where
  "fan_out E h ms = (\<lambda>(w, H, b, cl).
     bnd (collect E cl ms 0 (br_subs b) (H, b, BrokerFanout_Init BROKER_FANOUT_STACK_TARGETS)) (\<lambda>(H1, b1, fl).
       deliver_targets E h ms 0 (fl_items fl) (w, H1, b1, cl)))"

section \<open>The handler\<close>

text \<open>The checks of MQTT v5: a property that a client must not use closes the connection.\<close>

definition props_refused :: "'w BrokerClient \<Rightarrow> store \<Rightarrow> MqttMessage \<Rightarrow> byte option outcome" where
  "props_refused bc H pub =
     (if bc_level bc \<ge> MQTT_CONNECT_PROTOCOL_LEVEL_5 \<and> msg_props pub \<noteq> None then
        bnd (BrokerProps_Find H (msg_props pub) MQTT_PROP_SUBSCRIPTION_ID) (\<lambda>p.
          if p \<noteq> None then Ok (Some MQTT_REASON_PROTOCOL_ERR)
          else bnd (BrokerProps_Find H (msg_props pub) MQTT_PROP_TOPIC_ALIAS) (\<lambda>p.
            Ok (if p \<noteq> None then Some MQTT_REASON_TOPIC_ALIAS_INVALID else None)))
      else Ok None)"

text \<open>The retained message of the topic: an empty payload deletes it.\<close>

definition keep_retained :: "'w env \<Rightarrow> store \<Rightarrow> Broker \<Rightarrow> MqttMessage \<Rightarrow> cstr \<Rightarrow> Broker outcome" where
  "keep_retained E H b pub topic =
     (if retain pub = 0 then Ok b
      else if total_len pub = 0 then Ok (BrokerRetained_Delete b (Some topic))
      else if buffer pub = None then Ok b
      else
        bnd (case msg_props pub of None \<Rightarrow> Ok None | Some _ \<Rightarrow> BrokerProps_Find H (msg_props pub) MQTT_PROP_MSG_EXPIRY_INTERVAL) (\<lambda>p.
        bnd (BrokerRetained_Store (\<lambda>k. env_malloc E [6, k]) (env_now E [2]) (env_now E [3]) b (Some topic) (buffer pub) (total_len pub)
               (qos pub) (case p of None \<Rightarrow> 0 | Some i \<Rightarrow> data_int (H ! i))) (\<lambda>(b', rc).
          Ok b')))"

text \<open>The acknowledgement of a publication.\<close>

definition acknowledge :: "'w env \<Rightarrow> MqttMessage \<Rightarrow> 'w drain_state \<Rightarrow> int \<Rightarrow> ('w drain_state \<times> int) outcome" where
  "acknowledge E pub = (\<lambda>(w, H, bc) rc.
     if qos pub = MQTT_QOS_1 \<or> qos pub = MQTT_QOS_2 then
       send_resp E (w, H, bc) (if qos pub = MQTT_QOS_1 then MQTT_PACKET_TYPE_PUBLISH_ACK else MQTT_PACKET_TYPE_PUBLISH_REC)
         \<lparr>resp_packet_id = packet_id pub, resp_reason_code = MQTT_REASON_SUCCESS, resp_props = None, resp_level = bc_level bc\<rparr>
     else Ok ((w, H, bc), rc))"

type_synonym 'w broker_state = "'w \<times> store \<times> Broker \<times> (handle \<Rightarrow> 'w BrokerClient)"

text \<open>The rest of the handler for a publication that is not refused; \<open>dup\<close> tells that it is a QoS 2 duplicate.\<close>

definition distribute :: "'w env \<Rightarrow> handle \<Rightarrow> MqttMessage \<Rightarrow> bool \<Rightarrow> int \<Rightarrow> 'w broker_state \<Rightarrow> ('w broker_state \<times> int) outcome" where
  "distribute E h pub dup rc = (\<lambda>(w, H, b, cl).
     case (case topic_name pub of Some t \<Rightarrow> if topic_name_len pub > 0 then Some (take (unat (topic_name_len pub)) t @ [0]) else None
             | None \<Rightarrow> None) of
       Some topic \<Rightarrow>
         if \<not> env_malloc E [7] then Ok ((w, H, b, cl), err_code MEMORY)
         else
           bnd (if dup then Ok b else keep_retained E H b pub topic) (\<lambda>b1.
           bnd (if \<not> dup \<and> (buffer pub \<noteq> None \<or> total_len pub = 0)
                then fan_out E h \<lparr>ms_topic = topic, ms_payload = buffer pub, ms_len = total_len pub, ms_qos = qos pub,
                                  ms_props = msg_props pub\<rparr> (w, H, b1, cl)
                else Ok (w, H, b1, cl)) (\<lambda>(w2, H2, b2, cl2).
           bnd (acknowledge E pub (w2, H2, cl2 h) rc) (\<lambda>((w3, H3, bc3), rc'). Ok ((w3, H3, b2, cl2(h := bc3)), rc'))))
     | None \<Rightarrow> bnd (acknowledge E pub (w, H, cl h) rc) (\<lambda>((w3, H3, bc3), rc'). Ok ((w3, H3, b, cl(h := bc3)), rc')))"

definition zero_message :: "byte \<Rightarrow> MqttMessage" where
  "zero_message level =
     \<lparr>packet_id = 0, msg_type = 0, qos = MQTT_QOS_0, retain = 0, duplicate = 0, topic_name = None, topic_name_len = 0, total_len = 0,
      buffer = None, buffer_len = 0, buffer_pos = 0, buffer_new = 0, intBuf_len = 0, intBuf_pos = 0, msg_props = None, msg_level = level\<rparr>"

text \<open>Between the decoder and the cleanup.\<close>

definition handle_message :: "'w env \<Rightarrow> handle \<Rightarrow> int \<Rightarrow> MqttMessage \<Rightarrow> 'w broker_state \<Rightarrow> ('w broker_state \<times> int) outcome" where
  "handle_message E h rc pub = (\<lambda>(w, H, b, cl).
     bnd (props_refused (cl h) H pub) (\<lambda>refused.
     case refused of
       Some reason \<Rightarrow>
         bnd (BrokerSend_Disconnect (env_nb E) (env_tick E) w H (cl h) reason) (\<lambda>(w', bc', _).
           Ok ((w', H, b, cl(h := bc')), err_code MALFORMED_DATA))
     | None \<Rightarrow>
         if total_len pub > 0 \<and> buffer_len pub < total_len pub then Ok ((w, H, b, cl), err_code OUT_OF_BUFFER)
         else if qos pub = MQTT_QOS_2 then
           (case qos2_verdict BrokerInboundQos2_Contains (BrokerInboundQos2_Add (env_malloc E [8])) (cl h) (packet_id pub) of
              (bc1, Refused add_rc) \<Rightarrow>
                bnd (if bc_level bc1 \<ge> MQTT_CONNECT_PROTOCOL_LEVEL_5
                     then BrokerSend_Disconnect (env_nb E) (env_tick E) w H bc1
                            (if add_rc = err_code OUT_OF_BUFFER then MQTT_REASON_QUOTA_EXCEEDED else MQTT_REASON_SERVER_BUSY)
                     else Ok (w, bc1, 0)) (\<lambda>(w', bc', _).
                  Ok ((w', H, b, cl(h := bc')), add_rc))
            | (bc1, v) \<Rightarrow> distribute E h pub (v = Duplicate) rc (w, H, b, cl(h := bc1)))
         else distribute E h pub False rc (w, H, b, cl)))"

definition BrokerHandle_Publish :: "'w env \<Rightarrow> handle \<Rightarrow> 'w broker_state \<Rightarrow> int \<Rightarrow> ('w broker_state \<times> int) outcome" where
  "BrokerHandle_Publish E h = (\<lambda>(w, H, b, cl) rx_len.
     case MqttDecode_Publish H (Some (bc_rx_buf (cl h))) rx_len (Some (zero_message (bc_level (cl h)))) of ((H1, p), r) \<Rightarrow>
       (case r of
          Fault \<Rightarrow> Fault
        | Err e \<Rightarrow> Ok ((w, H1, b, cl), err_code e)
        | Ok rc \<Rightarrow>
            if rc < 0 then Ok ((w, H1, b, cl), rc)
            else (case p of
              None \<Rightarrow> Fault
            | Some pub \<Rightarrow>
                bnd (handle_message E h rc pub (w, H1, b, cl)) (\<lambda>((w2, H2, b2, cl2), rc').
                bnd (free_props H2 (msg_props pub)) (\<lambda>H3. Ok ((w2, H3, b2, cl2), rc'))))))"

end
