(* ===== verification/Broker_Machine.thy ===== *)
theory Broker_Machine
  imports Broker_Publish "HOL-Library.Sublist"
begin

text \<open>
  The invariant of the broker and that every operation keeps it: what a write to a connection and a drain leave as it
  was, the tables of retained messages and offline sessions, the distribution of a publication, the subscriptions, and
  the packet handlers.  The runs of the broker are in \<open>Broker_Run\<close>.
\<close>

section \<open>What a write changes\<close>

definition core :: "'w BrokerClient \<Rightarrow> cstr option \<times> byte \<times> int \<times> word16 list \<times> int" where
  "core bc = (bc_client_id bc, bc_level bc, bc_sub_count bc, bc_qos2_pending bc, bc_qos2_pending_count bc)"

definition outq :: "'w BrokerClient \<Rightarrow> BrokerOutPub list \<times> int \<times> int" where
  "outq bc = (bc_out_q bc, bc_out_q_count bc, bc_out_q_inflight bc)"

definition client_ok :: "'w BrokerClient \<Rightarrow> bool" where
  "client_ok bc \<longleftrightarrow> outq_inv bc \<and> bc_out_q_count bc \<le> BROKER_MAX_QUEUED_MSGS_PER_SUB \<and> qos2_inv bc"

lemma returns_conj: "returns P r \<Longrightarrow> returns Q r \<Longrightarrow> returns (\<lambda>x. P x \<and> Q x) r"
  by (auto simp: returns_def)

lemma returns_Ok: "returns P (Ok x) \<longleftrightarrow> P x"
  by (simp add: returns_def)

lemma client_ok_frame: "client_ok bc \<Longrightarrow> core bc' = core bc \<Longrightarrow> outq bc' = outq bc \<Longrightarrow> client_ok bc'"
  by (simp add: core_def outq_def client_ok_def outq_inv_def qos2_inv_def)

lemma write_direct_frame:
  "returns (\<lambda>(w', bc', rc). core bc' = core bc \<and> outq bc' = outq bc) (BrokerClient_WriteDirect nb now w bc n)"
  unfolding BrokerClient_WriteDirect_def by (intro returns_intros) (simp_all add: core_def outq_def)

lemma write_resp_frame:
  "returns (\<lambda>(w', bc', rc). core bc' = core bc \<and> outq bc' = outq bc) (BrokerClient_WriteResp nb now w bc n)"
  unfolding BrokerClient_WriteResp_def
  by (rule returns_seq [OF write_direct_frame]) (auto intro: returns_intros)

lemma tx_frame: "core (bc\<lparr>bc_tx_buf := m\<rparr>) = core bc" "outq (bc\<lparr>bc_tx_buf := m\<rparr>) = outq bc"
  by (simp_all add: core_def outq_def)

lemma disconnect_frame:
  "returns (\<lambda>(w', bc', rc). core bc' = core bc \<and> outq bc' = outq bc) (BrokerSend_Disconnect nb now w H bc reason)"
  unfolding BrokerSend_Disconnect_def
  by (intro returns_intros returns_weaken [OF write_direct_frame]) (auto simp: tx_frame)

lemma suback_frame:
  "returns (\<lambda>(w', bc', rc). core bc' = core bc \<and> outq bc' = outq bc) (BrokerSend_SubAck nb now w bc pid codes n)"
  unfolding BrokerSend_SubAck_def
  by (intro returns_intros returns_weaken [OF write_resp_frame]) (auto simp: tx_frame)

lemma send_resp_frame:
  "returns (\<lambda>((w', H', bc'), rc). core bc' = core bc \<and> outq bc' = outq bc) (send_resp E (w, H, bc) ptype resp)"
  unfolding send_resp_def prod.case
  by (intro returns_outcome returns_basic returns_prod returns_if returns_seq [OF write_resp_frame]) (auto simp: tx_frame intro: returns_intros)

lemma quota_frame:
  "returns (\<lambda>(w', H', bc'). core bc' = core bc \<and> outq bc' = outq bc) (quota_close nb tick close (w, H, bc))"
  unfolding quota_close_def prod.case
  by (rule returns_seq [OF disconnect_frame]) (auto simp: core_def outq_def split: option.splits intro!: returns_intros)

text \<open>A drain changes the queue, which does not grow.\<close>

abbreviation (input) shrinks :: "'w BrokerClient \<Rightarrow> 'w drain_state \<times> 'a \<Rightarrow> bool" where
  "shrinks bc \<equiv> \<lambda>((w, H, bc'), t). core bc' = core bc \<and> bc_out_q_count bc' \<le> bc_out_q_count bc"

lemma drain_parts_frame:
  "returns (shrinks bc) (drain_rel nb now (w, H, bc) cur)"
  "returns (shrinks bc) (drain_failed (w, H, bc) cur rc)"
  "returns (shrinks bc) (drain_sent (w, H, bc) cur)"
  "returns (shrinks bc) (drain_unencodable (w, H, bc) cur rc)"
  unfolding drain_rel_def drain_failed_def drain_sent_def drain_unencodable_def prod.case
  by (intro returns_intros; simp add: core_def)+

lemma shrinks_from:
  "returns (shrinks b) r \<Longrightarrow> core b = core bc \<Longrightarrow> bc_out_q_count b = bc_out_q_count bc \<Longrightarrow> returns (shrinks bc) r"
  by (auto simp: returns_def)

lemma drain_publish_frame: "returns (shrinks bc) (drain_publish nb now (w, H, bc) cur)"
  unfolding drain_publish_def prod.case
  by (intro returns_intros shrinks_from [OF drain_parts_frame(2)] shrinks_from [OF drain_parts_frame(3)] shrinks_from [OF drain_parts_frame(4)])
     (simp_all add: core_def)

lemma drain_step_frame: "returns (shrinks bc) (drain_step nb now cap (w, H, bc) cur)"
  unfolding drain_step_def by (intro returns_intros drain_parts_frame drain_publish_frame) simp_all

lemma drain_loop_frame: "returns (shrinks bc) (drain_loop nb now cap ahead es (w, H, bc) sent)"
proof (induction es arbitrary: ahead w H bc sent)
  case Nil
  then show ?case by (simp add: returns_def core_def)
next
  case (Cons cur es)
  show ?case unfolding drain_loop.simps
  proof (rule returns_seq [OF drain_step_frame], clarify, goal_cases)
    case (1 w' H' bc' t)
    then have c: "core bc' = core bc" "bc_out_q_count bc' \<le> bc_out_q_count bc" by simp_all
    have more: "returns (shrinks bc) (drain_loop nb now cap b es (w', H', bc') s)" for b s
      by (rule returns_weaken [OF Cons.IH]) (use c in auto)
    have q: "core (bc'\<lparr>bc_out_q := q\<rparr>) = core bc" for q using c by (simp add: core_def)
    show ?case by (cases t) (simp_all add: more returns_Ok c(2) q)
  qed
qed

lemma drain_frame: "returns (shrinks bc) (BrokerClient_DrainOutQueue nb now (w, H, bc))"
  unfolding BrokerClient_DrainOutQueue_def prod.case by (intro returns_intros drain_loop_frame) simp_all

lemma drain_ok:
  assumes "client_ok bc"
  shows "returns (\<lambda>((w, H, bc'), rc). client_ok bc') (BrokerClient_DrainOutQueue nb now (w, H, bc))"
proof -
  have "outq_inv bc" using assms by (simp add: client_ok_def)
  from returns_conj [OF drain_inv [OF this] drain_frame] show ?thesis
    by (rule returns_weaken) (use assms in \<open>auto simp: client_ok_def core_def qos2_inv_def\<close>)
qed

section \<open>The tables\<close>

definition carrier_ok :: "BrokerOrphanSession \<Rightarrow> bool" where
  "carrier_ok os \<longleftrightarrow> queue_ok (os_out_q os) (os_out_q_count os) (os_out_q_inflight os) \<and> os_out_q_count os \<le> BROKER_MAX_QUEUED_MSGS_PER_SUB \<and>
     distinct (os_qos2_pending os) \<and> 0 \<notin> set (os_qos2_pending os) \<and> os_qos2_pending_count os = int (length (os_qos2_pending os)) \<and>
     length (os_qos2_pending os) \<le> BROKER_MAX_INBOUND_QOS2"

text \<open>The carriers of a broker, all of them sound, and their number.\<close>

definition orphans_ok :: "BrokerOrphanSession list \<Rightarrow> int \<Rightarrow> bool" where
  "orphans_ok l n \<longleftrightarrow> (\<forall>os \<in> set l. carrier_ok os) \<and> n = int (length l) \<and> n \<le> BROKER_MAX_PERSIST_SESSIONS"

definition tables_ok :: "Broker \<Rightarrow> bool" where
  "tables_ok b \<longleftrightarrow> orphans_ok (br_orphans b) (br_orphan_count b) \<and> retained_inv b"

lemma tables_other [simp]:
  "tables_ok (b\<lparr>br_next_packet_id := n\<rparr>) = tables_ok b"
  "tables_ok (b\<lparr>br_subs := l\<rparr>) = tables_ok b"
  "tables_ok (b\<lparr>br_subs := l, br_subs_gen := g\<rparr>) = tables_ok b"
  by (simp_all add: tables_ok_def retained_inv_def)

lemma tables_orphans:
  "tables_ok b \<Longrightarrow> orphans_ok l n \<Longrightarrow> tables_ok (b\<lparr>br_orphans := l, br_orphan_count := n\<rparr>)"
  "tables_ok b \<Longrightarrow> orphans_ok l (br_orphan_count b) \<Longrightarrow> tables_ok (b\<lparr>br_orphans := l\<rparr>)"
  by (simp_all add: tables_ok_def retained_inv_def)

subsection \<open>Retained messages\<close>

lemma store_ok: "retained_inv b \<Longrightarrow> returns (\<lambda>(b', rc). retained_inv b') (BrokerRetained_Store malloc now now2 b topic p n q e)"
proof -
  assume inv: "retained_inv b"
  show ?thesis
  proof (cases topic)
    case (Some t)
    define b1 where "b1 = BrokerRetained_ReapExpired b now"
    have b1: "retained_inv b1" using reap_expired [OF inv] by (simp add: b1_def)
    have u: "b1\<lparr>br_retained := upd_first (same_topic t) (\<lambda>rm. rm\<lparr>rm_pending_delete := 0\<rparr>) (br_retained b1)\<rparr> = b1"
      using b1 by (subst upd_first_id) (auto simp: retained_inv_def)
    show ?thesis unfolding BrokerRetained_Store_def Some option.case Let_def b1_def [symmetric] u upd_same_topic(3) [OF b1]
      by (cases "retained_map b1 (cstr_bytes t)"; intro returns_intros)
         (simp_all add: b1 refill [OF b1, THEN conjunct1] add_new [OF b1, THEN conjunct1])
  qed (simp add: BrokerRetained_Store_def returns_Ok inv)
qed

lemma delete_ok: "retained_inv b \<Longrightarrow> retained_inv (BrokerRetained_Delete b topic)"
  using retain_refines [of b "Unretain (the topic)"] by (cases topic) (simp_all add: BrokerRetained_Delete_def)

lemma retained_orphans:
  "returns (\<lambda>(b', rc). br_orphans b' = br_orphans b \<and> br_orphan_count b' = br_orphan_count b)
     (BrokerRetained_Store malloc now now2 b topic p n q e)"
  "br_orphans (BrokerRetained_Delete b topic) = br_orphans b" "br_orphan_count (BrokerRetained_Delete b topic) = br_orphan_count b"
proof -
  show "returns (\<lambda>(b', rc). br_orphans b' = br_orphans b \<and> br_orphan_count b' = br_orphan_count b)
     (BrokerRetained_Store malloc now now2 b topic p n q e)"
    unfolding BrokerRetained_Store_def BrokerRetained_ReapExpired_def reap_retained_def
    by (intro returns_intros) (simp_all split: prod.splits)
qed (simp_all add: BrokerRetained_Delete_def split: option.splits)

lemma keep_retained_ok: "tables_ok b \<Longrightarrow> returns tables_ok (keep_retained E H b pub topic)"
proof -
  assume ok: "tables_ok b"
  have st: "returns (\<lambda>(b', rc). tables_ok b') (BrokerRetained_Store malloc now now2 b topic' p n q e)" for malloc now now2 topic' p n q e
    by (rule returns_weaken [OF returns_conj [OF store_ok [of b] retained_orphans(1)]]) (use ok in \<open>auto simp: tables_ok_def\<close>)
  show ?thesis unfolding keep_retained_def
    by (intro returns_if returns_basic returns_bnd returns_seq [OF st])
       (use ok in \<open>auto simp: tables_ok_def delete_ok retained_orphans intro: returns_intros\<close>)
qed

subsection \<open>Offline sessions\<close>

lemma queue_ok_append:
  assumes "queue_ok q c f" "op_state e = BROKER_OUTQ_QUEUED"
    and "op_qos e > MQTT_QOS_0 \<Longrightarrow> op_packet_id e \<noteq> 0 \<and> \<not> BrokerPacketIdInQueue q (op_packet_id e)"
  shows "queue_ok (q @ [e]) (c + 1) f"
  using enqueue_inv [of "zero_client\<lparr>bc_out_q := q, bc_out_q_count := c, bc_out_q_inflight := f\<rparr> :: unit BrokerClient" e] assms
  by (simp add: outq_inv_def BrokerClient_EnqueueOutPub_def)

lemma drop_oldest_ok:
  "queue_ok q c f \<Longrightarrow> returns (\<lambda>(H', q', c', f'). queue_ok q' c' f' \<and> c' < BROKER_MAX_OFFLINE_MSGS_PER_SUB) (drop_oldest H q c f)"
proof (induction q arbitrary: H c f)
  case Nil
  then show ?case by (auto simp: returns_Ok queue_ok_def)
next
  case (Cons e es)
  have u: "queue_ok es (c - 1) (if op_state e \<noteq> BROKER_OUTQ_QUEUED then f - 1 else f)"
    using queue_ok_unlink [of "[]" e es c f] Cons.prems by simp
  have st: "op_state e = BROKER_OUTQ_QUEUED \<or> op_state e = BROKER_OUTQ_PUBLISH_SENT \<or> op_state e = BROKER_OUTQ_PUBREL_SENT"
    using Cons.prems by (auto simp: queue_ok_def entry_ok_def)
  have f: "op_state e \<noteq> BROKER_OUTQ_QUEUED \<Longrightarrow> f > 0" using Cons.prems by (auto simp: queue_ok_def queue_simps) (simp add: inflight_of_def)
  show ?case unfolding drop_oldest.simps
    by (intro returns_if returns_bnd Cons.IH returns_basic) (use u st f Cons.prems in \<open>auto simp: count_down_def\<close>)
qed

lemma orphans_update: "orphans_ok l n \<Longrightarrow> carrier_ok os \<Longrightarrow> orphans_ok (l[i := os]) n"
  using set_update_subset_insert [of l i os] by (auto simp: orphans_ok_def)

lemma orphan_enqueue_ok:
  assumes "tables_ok b"
  shows "returns (\<lambda>(H', b'). tables_ok b' \<and> br_subs b' = br_subs b) (BrokerOrphan_Enqueue malloc now H b i topic p n q ret props)"
proof (cases "topic = None \<or> q = MQTT_QOS_0 \<or> \<not> i < length (br_orphans b)")
  case True
  then show ?thesis using assms by (auto simp: BrokerOrphan_Enqueue_def returns_def)
next
  case False
  have os: "carrier_ok (br_orphans b ! i)" "orphans_ok (br_orphans b) (br_orphan_count b)"
    using assms False by (auto simp: tables_ok_def orphans_ok_def)
  then have qok: "queue_ok (os_out_q (br_orphans b ! i)) (os_out_q_count (br_orphans b ! i)) (os_out_q_inflight (br_orphans b ! i))"
    by (simp add: carrier_ok_def)
  then have rest: "distinct (os_qos2_pending (br_orphans b ! i))" "0 \<notin> set (os_qos2_pending (br_orphans b ! i))"
    "os_qos2_pending_count (br_orphans b ! i) = int (length (os_qos2_pending (br_orphans b ! i)))"
    "length (os_qos2_pending (br_orphans b ! i)) \<le> BROKER_MAX_INBOUND_QOS2"
    using os(1) by (simp_all add: carrier_ok_def)
  have new: "tables_ok (b\<lparr>br_orphans := (br_orphans b)[i := os]\<rparr>)" "tables_ok (b\<lparr>br_next_packet_id := m, br_orphans := (br_orphans b)[i := os]\<rparr>)"
    "tables_ok (b\<lparr>br_orphans := (br_orphans b)[i := os], br_next_packet_id := m\<rparr>)" if "carrier_ok os" for os m
    using assms os(2) that by (auto simp: tables_ok_def retained_inv_def intro!: orphans_update)
  have fresh: "queue_ok (q1 @ [e]) (c1 + 1) f1"
    if "queue_ok q1 c1 f1" "snd (BrokerNextPacketIdForQueue (br_next_packet_id b) q1) = op_packet_id e" "op_packet_id e \<noteq> 0"
       "op_state e = BROKER_OUTQ_QUEUED" for q1 c1 f1 e
    using queue_ok_append [OF that(1,4)] next_packet_id_fresh(1) [of "br_next_packet_id b" q1 _ "op_packet_id e"] that(2,3)
    by (metis prod.collapse)
  note fresh_nil = fresh [of "[]", simplified]
  obtain t where t: "topic = Some t" "q \<noteq> MQTT_QOS_0" "i < length (br_orphans b)" using False by auto
  show ?thesis unfolding BrokerOrphan_Enqueue_def t(1) if_P [OF t(3)]
    apply (rule returns_if, use t(2) in simp, rule returns_let, rule returns_seq [OF drop_oldest_ok [OF qok]])
    apply (intro returns_intros)
       apply (simp_all add: new carrier_ok_def rest)
    apply (intro conjI impI new; simp add: carrier_ok_def rest fresh fresh_nil)
    done
qed

lemma remove_at_parts:
  assumes "i < length l"
  shows "length (remove_at i l) = length l - 1" "set (remove_at i l) \<subseteq> set l"
  using assms by (auto simp: remove_at_def dest: in_set_takeD in_set_dropD)

lemma orphans_remove: "orphans_ok l n \<Longrightarrow> i < length l \<Longrightarrow> orphans_ok (remove_at i l) (count_down n) \<and> count_down n = n - 1"
  using remove_at_parts [of i l] by (auto simp: orphans_ok_def count_down_def)

lemma orphan_remove_ok:
  assumes "tables_ok b"
  shows "returns (\<lambda>(H', b'). tables_ok b' \<and> br_orphan_count b' = br_orphan_count b - 1) (BrokerOrphan_Remove H b i)"
  unfolding BrokerOrphan_Remove_def
  by (intro returns_intros) (use assms orphans_remove in \<open>auto simp: tables_ok_def retained_inv_def\<close>)

lemma drop_full_ok:
  assumes "tables_ok b"
  shows "returns (\<lambda>(H', b'). tables_ok b' \<and> br_orphan_count b' = br_orphan_count b - 1) (BrokerOrphan_DropFull H b i)"
  unfolding BrokerOrphan_DropFull_def
  by (intro returns_if returns_basic returns_weaken [OF orphan_remove_ok]) (use assms in \<open>auto simp: remove_subs_def\<close>)

lemma oldest_None: "oldest k best l = None \<longleftrightarrow> best = None \<and> l = []"
  by (induction k best l rule: oldest.induct) (auto split: option.splits if_splits)

lemma evict_few: "br_orphan_count b < BROKER_MAX_PERSIST_SESSIONS \<Longrightarrow> evict_loop n H b = Ok (H, b)"
  by (cases n) simp_all

lemma evict_ok:
  assumes "tables_ok b"
  shows "returns (\<lambda>(H', b'). tables_ok b' \<and> br_orphan_count b' < BROKER_MAX_PERSIST_SESSIONS) (evict_loop (Suc n) H b)"
proof (cases "br_orphan_count b \<ge> BROKER_MAX_PERSIST_SESSIONS")
  case True
  then have c: "br_orphan_count b = BROKER_MAX_PERSIST_SESSIONS" "br_orphans b \<noteq> []" using assms by (auto simp: tables_ok_def orphans_ok_def)
  then obtain i where i: "oldest 0 None (br_orphans b) = Some i" using oldest_None [of 0 None "br_orphans b"] by auto
  show ?thesis using True unfolding evict_loop.simps BrokerOrphan_EvictOldest_def i option.case
    by (intro returns_if returns_seq [OF returns_seq [OF drop_full_ok [OF assms], where P = "\<lambda>(H', b', d). d \<and> tables_ok b' \<and>
          br_orphan_count b' = br_orphan_count b - 1"]]) (auto simp: returns_Ok evict_few c split: prod.splits)
qed (use assms in \<open>simp add: returns_Ok\<close>)

lemma find_index_Some: "find_index P xs = Some i \<Longrightarrow> i < length xs \<and> P (xs ! i)"
  by (induction xs arbitrary: i) (auto split: if_splits)

lemma drop_partial_ok:
  assumes "client_ok bc"
  shows "returns (\<lambda>(H', bc'). client_ok bc') (drop_partial H bc)"
proof -
  have q: "queue_ok (remove_at i (bc_out_q bc)) (bc_out_q_count bc - 1) (bc_out_q_inflight bc)"
    if "find_index (\<lambda>e. op_state e = BROKER_OUTQ_QUEUED) (bc_out_q bc) = Some i" for i
  proof -
    have i: "i < length (bc_out_q bc)" "op_state (bc_out_q bc ! i) = BROKER_OUTQ_QUEUED" using find_index_Some [OF that] by simp_all
    have "bc_out_q bc = take i (bc_out_q bc) @ bc_out_q bc ! i # drop (Suc i) (bc_out_q bc)" by (rule id_take_nth_drop [OF i(1)])
    then have "queue_ok (take i (bc_out_q bc) @ bc_out_q bc ! i # drop (Suc i) (bc_out_q bc)) (bc_out_q_count bc) (bc_out_q_inflight bc)"
      using assms by (simp add: client_ok_def outq_inv_def)
    from queue_ok_unlink [OF this] show ?thesis using i(2) by (simp add: remove_at_def)
  qed
  show ?thesis unfolding drop_partial_def
    by (intro returns_intros) (use assms q in \<open>auto simp: client_ok_def outq_inv_def qos2_inv_def\<close>)
qed

lemma empty_queue [simp]: "queue_ok [] 0 0"
  by (simp add: queue_ok_def inflight_of_def live_ids_def)

lemma take_ok:
  assumes "tables_ok b" "client_ok bc"
  shows "returns (\<lambda>(H', b', bc', taken). tables_ok b' \<and> client_ok bc') (BrokerOrphan_Take malloc now H b bc)"
proof -
  have old: "returns (\<lambda>(H', b'). tables_ok b') (case x of None \<Rightarrow> Ok (H, b) | Some i \<Rightarrow> BrokerOrphan_Remove H b i)" for x
    by (intro returns_intros returns_weaken [OF orphan_remove_ok [OF assms(1)]]) (use assms in auto)
  show ?thesis unfolding BrokerOrphan_Take_def
    apply (intro returns_option returns_basic)
     apply (simp add: assms)
    apply (rule returns_seq [OF old], clarify)
    apply (rule returns_seq [OF evict_ok], assumption, clarify)
    apply (intro returns_if returns_basic)
     apply (simp add: assms)
    apply (rule returns_seq [OF drop_partial_ok [OF assms(2)]])
    apply (auto simp: returns_Ok tables_ok_def orphans_ok_def carrier_ok_def client_ok_def outq_inv_def qos2_inv_def retained_inv_def)
    done
qed

lemma reclaim_ok:
  assumes "tables_ok b" "client_ok bc"
  shows "returns (\<lambda>(H', b', bc', present). tables_ok b' \<and> client_ok bc') (BrokerOrphan_Reclaim H b bc)"
proof (cases "BrokerOrphan_Find b (bc_client_id bc)")
  case (Some i)
  then have i: "i < length (br_orphans b)" using find_index_Some by (auto simp: BrokerOrphan_Find_def split: option.splits)
  then have os: "carrier_ok (br_orphans b ! i)" using assms(1) by (auto simp: tables_ok_def orphans_ok_def)
  have "tables_ok (b\<lparr>br_orphans := (br_orphans b)[i := (br_orphans b ! i)\<lparr>os_out_q := [], os_out_q_count := 0, os_out_q_inflight := 0,
      os_qos2_pending := [], os_qos2_pending_count := 0\<rparr>]\<rparr>)"
    using assms(1) by (intro tables_orphans orphans_update) (auto simp: tables_ok_def carrier_ok_def)
  from orphan_remove_ok [OF this] show ?thesis unfolding BrokerOrphan_Reclaim_def Some option.case Let_def
    apply (rule returns_seq)
    using os resume_queue [of "os_out_q (br_orphans b ! i)"]
    apply (auto simp: returns_Ok client_ok_def outq_inv_def qos2_inv_def carrier_ok_def pubrel_count_def)
    done
qed (use assms in \<open>simp add: BrokerOrphan_Reclaim_def returns_Ok\<close>)

lemma sweep_turns:
  "sweep 0 now H b = (case find_index (session_expired now) (br_orphans b) of None \<Rightarrow> Ok (H, b) | Some i \<Rightarrow> Fault)"
  "sweep (Suc n) now H b = (case find_index (session_expired now) (br_orphans b) of None \<Rightarrow> Ok (H, b)
     | Some i \<Rightarrow> bnd (BrokerOrphan_DropFull H b i) (\<lambda>(H', b'). sweep n now H' b'))"
  by (subst sweep.simps, simp only: nat.case)+

lemma sweep_ok: "tables_ok b \<Longrightarrow> returns (\<lambda>(H', b'). tables_ok b') (sweep n now H b)"
proof (induction n arbitrary: H b)
  case 0
  show ?case unfolding sweep_turns by (intro returns_option returns_basic) (use 0 in simp)
next
  case (Suc n)
  show ?case unfolding sweep_turns
  proof (intro returns_option returns_basic returns_seq [OF drop_full_ok [OF Suc.prems]], goal_cases)
    case 1
    show ?case using Suc.prems by simp
  next
    case (2 i x)
    obtain H' b' where x: "x = (H', b')" by force
    from 2 have "tables_ok b'" by (simp add: x)
    from Suc.IH [OF this] show ?case unfolding x prod.case .
  qed
qed

lemma remove_client_ok:
  "BrokerSubs_RemoveClient h b bc = (b', bc') \<Longrightarrow> tables_ok b \<Longrightarrow> client_ok bc \<Longrightarrow> tables_ok b' \<and> client_ok bc'"
  by (auto simp: BrokerSubs_RemoveClient_def remove_subs_def client_ok_def outq_inv_def qos2_inv_def)

lemma orphan_client_ok:
  assumes "tables_ok b" "client_ok bc"
  shows "returns (\<lambda>(H', b', bc'). tables_ok b' \<and> client_ok bc') (BrokerSubs_OrphanClient malloc now h H b bc)"
  unfolding BrokerSubs_OrphanClient_def
  by (rule returns_seq [OF take_ok [OF assms]]) (auto simp: returns_Ok split: prod.splits dest!: remove_client_ok)

lemma end_session_ok:
  assumes "tables_ok b" "client_ok bc"
  shows "returns (\<lambda>(H', b', bc'). tables_ok b' \<and> client_ok bc') (BrokerSubs_EndClientSession h H b bc)"
proof -
  obtain b1 bc1 where b1: "BrokerSubs_RemoveClient h b bc = (b1, bc1)" by force
  with remove_client_ok [OF _ assms] have ok: "tables_ok b1" "client_ok bc1" by auto
  show ?thesis unfolding BrokerSubs_EndClientSession_def b1 prod.case
    by (intro returns_option returns_basic) (use ok in \<open>auto intro!: returns_seq [OF drop_full_ok] returns_basic\<close>)
qed

section \<open>Distribution\<close>

lemma collect_ok:
  "tables_ok b \<Longrightarrow> returns (\<lambda>(H', b', fl'). tables_ok b' \<and> br_subs b' = br_subs b) (collect E cl ms k ss (H, b, fl))"
proof (induction ss arbitrary: k H b fl)
  case (Cons s ss)
  have more: "returns (\<lambda>(H', b', fl'). tables_ok b' \<and> br_subs b' = br_subs b) (collect E cl ms k ss (H, c, fl))"
    if "tables_ok c" "br_subs c = br_subs b" for k H c fl
    using Cons.IH [OF that(1)] that(2) by simp
  show ?case unfolding collect.simps Let_def
    by (intro returns_if returns_option more returns_seq [OF orphan_enqueue_ok [OF Cons.prems]]) (use Cons.prems in \<open>auto intro!: more\<close>)
qed (simp add: returns_Ok)

definition broker_inv :: "'w broker_state \<Rightarrow> bool" where
  "broker_inv = (\<lambda>(w, H, b, cl). tables_ok b \<and> (\<forall>h. client_ok (cl h)))"

lemma enqueue_ok:
  assumes "client_ok bc" "bc_out_q_count bc < BROKER_MAX_QUEUED_MSGS_PER_SUB" "op_state e = BROKER_OUTQ_QUEUED"
    and "op_qos e > MQTT_QOS_0 \<Longrightarrow> op_packet_id e \<noteq> 0 \<and> \<not> BrokerPacketIdInQueue (bc_out_q bc) (op_packet_id e)"
  shows "client_ok (BrokerClient_EnqueueOutPub bc e)"
  using enqueue_inv [OF _ assms(3,4)] assms(1,2) by (simp add: client_ok_def BrokerClient_EnqueueOutPub_def qos2_inv_def)

lemma qos_1_iff: "q \<ge> MQTT_QOS_1 \<longleftrightarrow> q > (MQTT_QOS_0 :: MqttQoS)"
  by (cases q) (simp_all add: less_MqttQoS_def less_eq_MqttQoS_def)

lemma deliver_target_ok:
  assumes "broker_inv (w, H, b, cl)"
  shows "returns broker_inv (deliver_target E h ms t x (w, H, b, cl))"
proof -
  obtain g q where x: "x = (g, q)" by force
  have ok: "tables_ok b" "\<And>h. client_ok (cl h)" using assms by (simp_all add: broker_inv_def)
  have quota: "returns (\<lambda>(w', H', bc'). client_ok bc') (quota_close nb tick close (w, H, cl g))" for nb tick close
    by (rule returns_weaken [OF quota_frame]) (auto intro: client_ok_frame [OF ok(2)])
  have enq: "client_ok (BrokerClient_EnqueueOutPub (cl g) (e\<lparr>op_qos := q, op_packet_id := pid, op_retain := 0, op_state := BROKER_OUTQ_QUEUED, op_level := l\<rparr>))"
    if "bc_out_q_count (cl g) < BROKER_MAX_QUEUED_MSGS_PER_SUB" "\<not> (q \<ge> MQTT_QOS_1 \<and> pid = 0)"
      "(if q \<ge> MQTT_QOS_1 then BrokerNextPacketIdForQueue (br_next_packet_id b) (bc_out_q (cl g)) else (br_next_packet_id b, 0)) = (n, pid)" for e n pid l
    using that next_packet_id_fresh(1) [of "br_next_packet_id b" "bc_out_q (cl g)" n pid] by (intro enqueue_ok ok) (auto simp: qos_1_iff)
  have put: "returns broker_inv (if g \<noteq> h
      then bnd (BrokerClient_DrainOutQueue nb tick (w, H1, wc1)) (\<lambda>((w', H2, wc2), rc). Ok (w', H2, b1, cl(g := wc2)))
      else Ok (w, H1, b1, cl(g := wc1)))" if "client_ok wc1" "tables_ok b1" for nb tick H1 wc1 b1
    by (intro returns_if returns_seq [OF drain_ok [OF that(1)]]) (use that ok in \<open>auto simp: broker_inv_def returns_Ok\<close>)
  show ?thesis unfolding deliver_target_def x prod.case Let_def
    apply (intro returns_if returns_basic)
      apply (simp add: assms)
     apply (rule returns_seq [OF quota], auto simp: broker_inv_def ok returns_Ok) [1]
    apply (rule returns_bnd, rule returns_prod, rule returns_option)
     apply (simp add: returns_Ok broker_inv_def ok)
    apply (rule returns_prod, rule returns_if)
     apply (rule returns_bnd, simp add: returns_Ok broker_inv_def ok)
    apply (rule put [OF enq])
       apply (simp_all add: ok)
    done
qed

lemma deliver_targets_ok: "broker_inv st \<Longrightarrow> returns broker_inv (deliver_targets E h ms t xs st)"
proof (induction xs arbitrary: t st)
  case (Cons x xs)
  obtain w H b cl where st: "st = (w, H, b, cl)" by (cases st) auto
  show ?case using Cons.prems unfolding deliver_targets.simps st by (intro returns_seq [OF deliver_target_ok] Cons.IH)
qed (simp add: returns_Ok)

lemma fan_out_ok: "broker_inv (w, H, b, cl) \<Longrightarrow> returns broker_inv (fan_out E h ms (w, H, b, cl))"
  unfolding fan_out_def prod.case
  by (rule returns_seq [OF collect_ok]) (simp add: broker_inv_def, clarify, rule deliver_targets_ok, simp add: broker_inv_def)

lemma send_resp_ok: "client_ok bc \<Longrightarrow> returns (\<lambda>((w', H', bc'), rc). client_ok bc') (send_resp E (w, H, bc) ptype resp)"
  by (rule returns_weaken [OF send_resp_frame]) (auto intro: client_ok_frame)

lemma acknowledge_ok: "client_ok bc \<Longrightarrow> returns (\<lambda>((w', H', bc'), rc). client_ok bc') (acknowledge E pub (w, H, bc) rc)"
  unfolding acknowledge_def prod.case by (intro returns_if send_resp_ok returns_basic) simp_all

lemma broker_inv_upd: "broker_inv (w, H, b, cl) \<Longrightarrow> client_ok bc \<Longrightarrow> broker_inv (w', H', b, cl(h := bc))"
  by (simp add: broker_inv_def)

lemma distribute_ok:
  assumes "broker_inv (w, H, b, cl)"
  shows "returns (\<lambda>(st, rc). broker_inv st) (distribute E h pub dup rc (w, H, b, cl))"
proof -
  have ack: "returns (\<lambda>(st, rc). broker_inv st)
      (bnd (acknowledge E pub (w2, H2, cl2 h) rc) (\<lambda>((w3, H3, bc3), rc'). Ok ((w3, H3, b2, cl2(h := bc3)), rc')))"
    if "broker_inv (w2, H2, b2, cl2)" for w2 H2 b2 cl2
    by (rule returns_seq [OF acknowledge_ok]) (use that in \<open>auto simp: broker_inv_def returns_Ok\<close>)
  have keep: "returns tables_ok (if dup then Ok b else keep_retained E H b pub topic)" for topic
    using assms by (intro returns_if keep_retained_ok returns_basic) (simp_all add: broker_inv_def)
  have fan: "returns broker_inv (if c then fan_out E h ms (w, H, b1, cl) else Ok (w, H, b1, cl))" if "tables_ok b1" for c ms b1
    using assms that by (intro returns_if fan_out_ok returns_basic) (simp_all add: broker_inv_def)
  show ?thesis unfolding distribute_def prod.case
    apply (intro returns_option returns_if returns_basic ack assms)
     apply (simp add: assms)
    apply (rule returns_seq [OF keep], rule returns_seq [OF fan], assumption)
    subgoal for topic b1 st by (cases st) (simp add: ack)
    done
qed

lemma verdict_ok: "qos2_verdict BrokerInboundQos2_Contains (BrokerInboundQos2_Add m) bc pid = (bc1, v) \<Longrightarrow> client_ok bc \<Longrightarrow> client_ok bc1"
  by (auto simp: qos2_verdict_def qos2_defs client_ok_def outq_inv_def split: if_splits)

lemma handle_message_ok:
  assumes "broker_inv (w, H, b, cl)"
  shows "returns (\<lambda>(st, rc). broker_inv st) (handle_message E h rc pub (w, H, b, cl))"
proof -
  have disc: "returns (\<lambda>(w', bc', rc). client_ok bc') (BrokerSend_Disconnect nb tick w H bc reason)" if "client_ok bc" for nb tick bc reason
    by (rule returns_weaken [OF disconnect_frame]) (auto intro: client_ok_frame [OF that])
  obtain bc1 v where v: "qos2_verdict BrokerInboundQos2_Contains (BrokerInboundQos2_Add (env_malloc E [8])) (cl h) (packet_id pub) = (bc1, v)"
    by force
  have bc: "client_ok (cl h)" "client_ok bc1" using assms verdict_ok [OF v] by (simp_all add: broker_inv_def)
  have st1: "broker_inv (w, H, b, cl(h := bc1))" by (rule broker_inv_upd [OF assms bc(2)])
  have leave: "returns (\<lambda>(st, rc). broker_inv st) (bnd (if c then BrokerSend_Disconnect nb tick w H bc1 reason else Ok (w, bc1, 0))
      (\<lambda>(w', bc', _). Ok ((w', H, b, cl(h := bc')), r)))" for c nb tick reason r
    by (rule returns_seq [where Q = "\<lambda>(w', bc', rc). client_ok bc'"], intro returns_if disc returns_basic)
       (use bc assms in \<open>auto simp: returns_Ok broker_inv_upd\<close>)
  show ?thesis unfolding handle_message_def prod.case v
    apply (intro returns_bnd returns_option returns_if returns_basic distribute_ok assms)
      apply (simp add: assms)
     apply (cases v, simp_all add: distribute_ok [OF st1] leave) [1]
    apply (drule returnsD [OF disc [OF bc(1)]])
    apply (auto simp: returns_Ok broker_inv_upd [OF assms])
    done
qed

lemma publish_ok:
  assumes "broker_inv (w, H, b, cl)"
  shows "returns (\<lambda>(st, rc). broker_inv st) (BrokerHandle_Publish E h (w, H, b, cl) n)"
proof -
  have inv: "broker_inv (w, H1, b, cl)" for H1 using assms by (simp add: broker_inv_def)
  show ?thesis unfolding BrokerHandle_Publish_def prod.case
    apply (intro returns_prod returns_outcome returns_option returns_if returns_basic)
      apply (simp_all add: inv)
    apply (rule returns_seq [OF handle_message_ok [OF inv]])
    apply (auto simp: broker_inv_def intro!: returns_bnd returns_basic)
    done
qed

section \<open>Subscriptions\<close>

lemma deliver_one_ok:
  assumes "client_ok bc"
  shows "returns (\<lambda>((n, w, H, bc'), rc). client_ok bc') (deliver_one nb tick close malloc sub_qos rm (n, w, H, bc))"
proof -
  have quota: "returns (\<lambda>(w', H', bc'). client_ok bc') (quota_close nb tick close (w, H, bc))"
    by (rule returns_weaken [OF quota_frame]) (auto intro: client_ok_frame [OF assms])
  have enq: "client_ok (BrokerClient_EnqueueOutPub bc (e\<lparr>op_qos := q, op_packet_id := pid, op_retain := 1, op_state := BROKER_OUTQ_QUEUED, op_level := l\<rparr>))"
    if "bc_out_q_count bc < BROKER_MAX_QUEUED_MSGS_PER_SUB" "\<not> (q \<ge> MQTT_QOS_1 \<and> pid = 0)"
      "(if q \<ge> MQTT_QOS_1 then BrokerNextPacketIdForQueue n (bc_out_q bc) else (n, 0)) = (n', pid)" for e q n' pid l
    using that next_packet_id_fresh(1) [of n "bc_out_q bc" n' pid] by (intro enqueue_ok assms) (auto simp: qos_1_iff)
  show ?thesis unfolding deliver_one_def prod.case Let_def
    apply (rule returns_if)
     apply (rule returns_seq [OF quota], auto simp: returns_Ok) [1]
    apply (rule returns_bnd, rule returns_prod, rule returns_option)
     apply (simp add: returns_Ok assms)
    apply (rule returns_prod, rule returns_if)
     apply (rule returns_bnd, simp add: returns_Ok assms)
    apply (rule returns_basic, simp, rule enq)
      apply simp_all
    done
qed

lemma deliver_loop_ok:
  "client_ok bc \<Longrightarrow> c \<ge> int (length rms) \<Longrightarrow>
   returns (\<lambda>(l, c', (n, w, H, bc'), rc). subseq l rms \<and> c' - int (length l) = c - int (length rms) \<and> client_ok bc')
     (deliver_loop nb tick close malloc now False flt sub_qos rms c (n, w, H, bc))"
proof (induction rms arbitrary: c n w H bc)
  case (Cons rm rms)
  have skip: "returns (\<lambda>(l, c', (n, w, H, bc'), rc). subseq l (rm # rms) \<and> c' - int (length l) = c - int (length (rm # rms)) \<and> client_ok bc')
      (bnd (deliver_loop nb tick close malloc now False flt sub_qos rms c st) (\<lambda>(l, c', st', rc). Ok (rm # l, c', st', rc)))"
    if "client_ok (snd (snd (snd st)))" for st
  proof -
    obtain m v K d where st: "st = (m, v, K, d)" by (cases st) auto
    show ?thesis unfolding st by (rule returns_seq [OF Cons.IH [of d c]]) (use that Cons.prems in \<open>auto simp: st returns_Ok\<close>)
  qed
  have one: "returns (\<lambda>(st, rc). client_ok (snd (snd (snd st)))) (deliver_one nb tick close m sub_qos rm (n, w, H, bc))" for m
    by (rule returns_weaken [OF deliver_one_ok [OF Cons.prems(1)]]) auto
  have drop: "returns (\<lambda>(l, c', (n, w, H, bc'), rc). subseq l (rm # rms) \<and> c' - int (length l) = c - int (length (rm # rms)) \<and> client_ok bc')
      (deliver_loop nb tick close malloc now False flt sub_qos rms (if c > 0 then c - 1 else c) (n, w, H, bc))"
    by (rule returns_weaken [OF Cons.IH]) (use Cons.prems in auto)
  show ?case unfolding deliver_loop.simps if_False
    apply (intro returns_if drop skip)
     apply (rule returns_seq [OF one])
     apply (use skip in \<open>auto simp: returns_Ok Cons.prems\<close>)
    done
qed (simp add: returns_Ok)

lemma subseq_parts: "subseq xs ys \<Longrightarrow> set xs \<subseteq> set ys \<and> (distinct (map f ys) \<longrightarrow> distinct (map f xs))"
  by (induction rule: list_emb.induct) auto

lemma deliver_retained_ok:
  assumes "tables_ok b" "client_ok bc"
  shows "returns (\<lambda>(b', (w', H', bc'), rc). tables_ok b' \<and> client_ok bc')
    (BrokerRetained_DeliverToClient nb tick close malloc now b (w, H, bc) flt q)"
proof (cases flt)
  case (Some f)
  have inv: "retained_inv b" "orphans_ok (br_orphans b) (br_orphan_count b)" using assms(1) by (simp_all add: tables_ok_def)
  then have z: "br_retained_delivering b = 0" "br_retained_count b = int (length (br_retained b))" by (simp_all add: retained_inv_def)
  have keep: "tables_ok (reap_retained (\<lambda>rm. rm_pending_delete rm \<noteq> 0) (b\<lparr>br_retained := l, br_retained_count := int (length l),
      br_retained_delivering := 0, br_next_packet_id := n\<rparr>))" if "subseq l (br_retained b)" for l n
  proof -
    have p: "\<forall>rm \<in> set l. rm_topic rm \<noteq> None \<and> rm_pending_delete rm = 0" "distinct (map rm_key l)" "length l \<le> length (br_retained b)"
      using subseq_parts [OF that, of rm_key] list_emb_length [OF that] inv(1) by (auto simp: retained_inv_def)
    then have "filter (\<lambda>rm. rm_pending_delete rm \<noteq> 0) l = []" "filter (\<lambda>rm. rm_pending_delete rm = 0) l = l" by (auto simp: filter_empty_conv)
    then show ?thesis using p inv by (simp add: reap_retained_def reap_eq tables_ok_def retained_inv_def)
  qed
  show ?thesis unfolding BrokerRetained_DeliverToClient_def prod.case Some option.case Let_def z
    by (simp, rule returns_seq [OF deliver_loop_ok [OF assms(2), of "br_retained b" "int (length (br_retained b))"]])
       (auto simp: returns_Ok keep)
qed (use assms in \<open>simp add: BrokerRetained_DeliverToClient_def returns_Ok\<close>)

lemma subs_add_ok:
  assumes "tables_ok b" "client_ok bc"
  shows "returns (\<lambda>(b', bc', rc). tables_ok b' \<and> client_ok bc') (BrokerSubs_Add malloc h b bc f n q)"
  unfolding BrokerSubs_Add_def Let_def
  by (intro returns_intros) (use assms in \<open>auto simp: client_ok_def outq_inv_def qos2_inv_def\<close>)

lemma subscribe_topic_ok:
  assumes "tables_ok b" "client_ok bc"
  shows "returns (\<lambda>((b', w', H', bc'), r). tables_ok b' \<and> client_ok bc') (subscribe_topic E h i (b, w, H, bc) topic)"
  unfolding subscribe_topic_def prod.case Let_def
  apply (intro returns_option returns_basic)
   apply (simp add: assms)
  apply (rule returns_seq [OF subs_add_ok [OF assms]], clarify)
  apply (intro returns_if returns_basic)
    apply simp
   apply (rule returns_seq [where Q = "\<lambda>(b', (w', H', bc'), rc). tables_ok b' \<and> client_ok bc'"])
    apply (intro returns_if returns_basic deliver_retained_ok; simp)
   apply (auto simp: returns_Ok)
  done

lemma subscribe_loop_ok:
  "tables_ok b \<Longrightarrow> client_ok bc \<Longrightarrow>
   returns (\<lambda>((b', w', H', bc'), r). tables_ok b' \<and> client_ok bc') (subscribe_loop E h i (b, w, H, bc) ts codes)"
proof (induction ts arbitrary: i b w H bc codes)
  case (Cons t ts)
  show ?case unfolding subscribe_loop.simps
    by (rule returns_seq [OF subscribe_topic_ok [OF Cons.prems]]) (auto simp: returns_Ok Cons.IH split: sum.splits)
qed (simp add: returns_Ok)

lemma decoded_ok:
  "(\<And>H rc. returns P (fail H rc)) \<Longrightarrow> (\<And>H x. returns P (go H x)) \<Longrightarrow> returns P (decoded d fail go)"
  unfolding decoded_def by (intro returns_prod returns_outcome returns_if returns_option returns_basic)

lemma subscribe_ok:
  assumes "tables_ok b" "client_ok bc"
  shows "returns (\<lambda>((b', w', H', bc'), rc). tables_ok b' \<and> client_ok bc') (BrokerHandle_Subscribe E h (b, w, H, bc) n)"
proof -
  have ack: "returns (\<lambda>(w', bc', rc). client_ok bc') (case r of Inl rc \<Rightarrow> Ok (v, bc2, rc) | Inr codes \<Rightarrow> BrokerSend_SubAck nb tick v bc2 pid codes (int (length codes)))"
    if "client_ok bc2" for r v bc2 nb tick pid
    using that client_ok_frame [OF that] by (cases r) (auto simp: returns_Ok intro: returns_weaken [OF suback_frame])
  show ?thesis unfolding BrokerHandle_Subscribe_def prod.case
    apply (rule decoded_ok)
     apply (simp add: returns_Ok assms)
    apply (rule returns_seq [OF subscribe_loop_ok [OF assms]], clarify)
    apply (rule returns_seq [OF ack], assumption)
    apply (auto intro!: returns_bnd returns_basic)
    done
qed

lemma unsubscribe_topics_ok:
  "tables_ok b \<Longrightarrow> client_ok bc \<Longrightarrow> fold (unsubscribe_topic h) ts (b, bc) = (b', bc') \<Longrightarrow> tables_ok b' \<and> client_ok bc'"
proof (induction ts arbitrary: b bc)
  case (Cons t ts)
  obtain b1 bc1 where u: "unsubscribe_topic h t (b, bc) = (b1, bc1)" by force
  then have "tables_ok b1 \<and> client_ok bc1" using Cons.prems(1,2)
    by (auto simp: unsubscribe_topic_def BrokerSubs_Remove_def client_ok_def outq_inv_def qos2_inv_def split: option.splits if_splits)
  then show ?case using Cons.IH [of b1 bc1] Cons.prems(3) u by simp
qed simp

lemma unsubscribe_ok:
  assumes "tables_ok b" "client_ok bc"
  shows "returns (\<lambda>((b', w', H', bc'), rc). tables_ok b' \<and> client_ok bc') (BrokerHandle_Unsubscribe E h (b, w, H, bc) n)"
proof -
  have ack: "returns (\<lambda>(w', bc', rc). client_ok bc') (case x of Fault \<Rightarrow> Fault | Err e \<Rightarrow> Ok (v, bc2, err_code e)
       | Ok (m, rc) \<Rightarrow> if rc > 0 then BrokerClient_WriteResp nb tick v (bc2\<lparr>bc_tx_buf := m\<rparr>) (int rc) else Ok (v, bc2\<lparr>bc_tx_buf := m\<rparr>, int rc))"
    if "client_ok bc2" for x v bc2 nb tick
    by (intro returns_intros returns_weaken [OF write_resp_frame]) (auto simp: tx_frame intro: client_ok_frame [OF that] that)
  show ?thesis unfolding BrokerHandle_Unsubscribe_def prod.case
    apply (rule decoded_ok)
     apply (simp add: returns_Ok assms)
    apply (rule returns_prod, drule unsubscribe_topics_ok [OF assms], unfold Let_def)
    apply (rule returns_seq [OF ack], simp)
    apply (auto intro!: returns_bnd returns_basic)
    done
qed

lemma pubrel_ok:
  assumes "client_ok bc"
  shows "returns (\<lambda>((w', H', bc'), rc). client_ok bc') (BrokerHandle_PublishRel E (w, H, bc) n)"
proof -
  have "client_ok (BrokerInboundQos2_Remove bc pid)" for pid
    using assms qos2.remove_ids [of bc pid] by (auto simp: client_ok_def BrokerInboundQos2_Remove_def outq_inv_def)
  then show ?thesis unfolding BrokerHandle_PublishRel_def prod.case Let_def
    by (intro decoded_ok returns_bnd send_resp_ok returns_basic) (use assms in simp_all)
qed

lemma ack_ok:
  assumes "client_ok bc"
  shows "returns (\<lambda>(w', H', bc'). client_ok bc') (BrokerClient_OnPubAck nb now (w, H, bc) pid)"
    and "returns (\<lambda>(w', H', bc'). client_ok bc') (BrokerClient_OnPubReject nb now (w, H, bc) pid)"
    and "returns (\<lambda>(w', H', bc'). client_ok bc') (BrokerClient_OnPubComp nb now (w, H, bc) pid)"
proof -
  have un: "returns (\<lambda>(H', bc'). client_ok bc') (BrokerClient_UnlinkOutPub H bc pid st e)"
    if "BrokerClient_FindOutPub bc pid st = Some e" "st \<noteq> BROKER_OUTQ_QUEUED" for st e
  proof -
    have "returns (\<lambda>(H', bc'). bc_out_q_count bc' \<le> bc_out_q_count bc \<and> core bc' = core bc) (BrokerClient_UnlinkOutPub H bc pid st e)"
      unfolding BrokerClient_UnlinkOutPub_def by (intro returns_intros) (simp add: core_def)
    from returns_conj [OF unlink_inv [OF _ that, of H] this] show ?thesis
      by (rule returns_weaken) (use assms in \<open>auto simp: client_ok_def core_def qos2_inv_def\<close>)
  qed
  have ud: "returns (\<lambda>(w', H', bc'). client_ok bc') (unlink_drain nb now (w, H, bc) pid st e)"
    if "BrokerClient_FindOutPub bc pid st = Some e" "st \<noteq> BROKER_OUTQ_QUEUED" for st e
    unfolding unlink_drain_def prod.case
    by (rule returns_seq [OF un [OF that]], clarify, rule returns_seq [OF drain_ok], assumption) (auto simp: returns_Ok)
  show "returns (\<lambda>(w', H', bc'). client_ok bc') (BrokerClient_OnPubAck nb now (w, H, bc) pid)"
    "returns (\<lambda>(w', H', bc'). client_ok bc') (BrokerClient_OnPubReject nb now (w, H, bc) pid)"
    "returns (\<lambda>(w', H', bc'). client_ok bc') (BrokerClient_OnPubComp nb now (w, H, bc) pid)"
    unfolding BrokerClient_OnPubAck_def BrokerClient_OnPubReject_def BrokerClient_OnPubComp_def prod.case
    by (intro returns_option returns_if returns_basic ud; simp add: assms)+
qed

lemma pubrec_ok:
  assumes "client_ok bc"
  shows "returns (\<lambda>((w', H', bc'), rc). client_ok bc') (BrokerHandle_PublishRec E (w, H, bc) n)"
proof -
  have rec: "client_ok bc'" if "BrokerClient_OnPubRec bc pid = (bc', rc)" for pid bc' rc
    using assms on_rec_inv [of bc pid] that by (auto simp: client_ok_def BrokerClient_OnPubRec_def qos2_inv_def split: option.splits if_splits)
  show ?thesis unfolding BrokerHandle_PublishRec_def prod.case
    apply (rule decoded_ok)
     apply (simp add: returns_Ok assms)
    apply (rule returns_bnd, rule returns_if)
     apply (rule returns_seq [OF ack_ok(2) [OF assms]], auto simp: returns_Ok) [1]
    apply (rule returns_prod, intro returns_if returns_basic send_resp_ok)
     apply (auto dest: rec)
    done
qed

end
