(* ===== verification/Broker_Delivery.thy ===== *)
theory Broker_Delivery
  imports Broker_Queue
begin

text \<open>
  What a subscriber receives.  The transport of the application is described by the bytes it has taken, \<open>sent w\<close>:
  a call of the write callback adds the bytes it accepts and nothing else.  Against this log the drain of an outbound
  queue, \<^verbatim>\<open>BrokerClient_DrainOutQueue\<close>, is specified by the packets of its entries.
\<close>

section \<open>The log of a transport\<close>

definition logs :: "('w \<Rightarrow> byte list \<Rightarrow> int \<Rightarrow> 'w \<times> int) \<Rightarrow> ('w \<Rightarrow> byte list) \<Rightarrow> bool" where
  "logs f sent \<longleftrightarrow> (\<forall>w bs t w' rc. f w bs t = (w', rc) \<longrightarrow> sent w' = sent w @ take (nat rc) bs)"

definition takes_all :: "('w \<Rightarrow> byte list \<Rightarrow> int \<Rightarrow> 'w \<times> int) \<Rightarrow> bool" where
  "takes_all f \<longleftrightarrow> (\<forall>w bs t. snd (f w bs t) = int (length bs))"

lemma logsD: "logs f sent \<Longrightarrow> f w bs t = (w', rc) \<Longrightarrow> sent w' = sent w @ take (nat rc) bs"
  by (simp add: logs_def)

text \<open>A transfer that ends with a positive code has moved the bytes from the old position to the end.\<close>

definition moved :: "('w \<Rightarrow> byte list) \<Rightarrow> mem \<Rightarrow> nat \<Rightarrow> 'w \<Rightarrow> 'w MqttClient \<Rightarrow> 'w \<times> 'w MqttClient \<times> int \<Rightarrow> bool" where
  "moved sent m n w c = (\<lambda>(w', c', rc). \<exists>q. c' = c\<lparr>cl_write := q\<rparr> \<and>
     (rc > 0 \<longrightarrow> sk_pos q = n \<and> sent w' = sent w @ blk m (sk_pos (cl_write c)) (n - sk_pos (cl_write c))))"

lemma write_do:
  assumes "logs f sent" "cb_write c = Some f" "p + n \<le> length m"
  obtains w' rc where "MqttSocket_WriteDo w c m p n t = Ok (w', rc)" "sent w' = sent w @ take (nat rc) (blk m p n)"
    "takes_all f \<Longrightarrow> rc = int n"
proof -
  obtain w' rc where f: "f w (blk m p n) t = (w', rc)" by fastforce
  have "rc = int n" if "takes_all f" using that f assms(3) unfolding takes_all_def by (metis blk_length snd_conv)
  then show thesis using that [of w' rc] logsD [OF assms(1) f] f assms(2,3) by (simp add: MqttSocket_WriteDo_def rdn_def)
qed

lemma write_once_moved:
  assumes "logs f sent" "cb_write c = Some f" "sk_pos (cl_write c) < n" "n \<le> length m"
  shows "\<exists>r. write_once w c m n t = Ok r \<and> moved sent m n w c r \<and> (takes_all f \<longrightarrow> snd (snd r) > 0)"
proof -
  let ?p = "sk_pos (cl_write c)"
  obtain w' rc where d: "MqttSocket_WriteDo w c m ?p (n - ?p) t = Ok (w', rc)" "sent w' = sent w @ take (nat rc) (blk m ?p (n - ?p))"
    "takes_all f \<Longrightarrow> rc = int (n - ?p)"
    using write_do [OF assms(1,2), of ?p "n - ?p" m w t] assms(3,4) by auto
  have l: "length (blk m ?p (n - ?p)) = n - ?p" using assms(3,4) by simp
  have "take (nat rc) (blk m ?p (n - ?p)) = blk m ?p (n - ?p)" if "\<not> ?p + min (nat rc) (n - ?p) < n"
    using that l by simp
  then show ?thesis using d assms(3) by (auto simp: write_once_def Let_def moved_def sk_step_def intro: exI [of _ "cl_write c"])
qed

lemma write_loop_moved:
  assumes "logs f sent" "cb_write c = Some f" "sk_pos (cl_write c) < n" "n \<le> length m"
  shows "\<exists>r. write_loop w c m n t = Ok r \<and> moved sent m n w c r \<and> (takes_all f \<longrightarrow> snd (snd r) > 0)"
  using assms(2-4)
proof (induction w c m n t rule: write_loop.induct)
  case (1 w c m n t)
  let ?p = "sk_pos (cl_write c)"
  obtain w' rc where d: "MqttSocket_WriteDo w c m ?p (n - ?p) t = Ok (w', rc)" "sent w' = sent w @ take (nat rc) (blk m ?p (n - ?p))"
    "takes_all f \<Longrightarrow> rc = int (n - ?p)"
    using write_do [OF assms(1) 1(2), of ?p "n - ?p" m w t] 1(3,4) by auto
  define k where "k = min (nat rc) (n - ?p)"
  define c' where "c' = c\<lparr>cl_write := sk_step k (cl_write c)\<rparr>"
  have s: "sent w' = sent w @ blk m ?p k" using d(2) by (simp add: k_def blk_def min.commute)
  show ?case
  proof (cases "rc > 0 \<and> ?p + k < n")
    case True
    then have c: "cb_write c' = Some f" "sk_pos (cl_write c') = ?p + k" "sk_pos (cl_write c') < n" using 1(2) by (simp_all add: c'_def sk_step_def)
    from True obtain r where r: "write_loop w' c' m n t = Ok r" "moved sent m n w' c' r" "takes_all f \<longrightarrow> snd (snd r) > 0"
      using 1(1) [OF 1(3) d(1) refl _ k_def c'_def c(3) c(1) c(3) 1(4)] by auto
    have "blk m ?p k @ blk m (?p + k) (n - (?p + k)) = blk m ?p (n - ?p)"
      using blk_add [of m ?p k "n - (?p + k)"] True by simp
    then have "moved sent m n w c r" using r(2) s c(2) by (auto simp: moved_def c'_def)
    then show ?thesis using r True d(1) 1(3) by (subst write_loop.simps) (simp add: k_def c'_def sk_step_def Let_def)
  next
    case False
    have "write_loop w c m n t = Ok (if rc \<le> 0 then (w', c, rc) else (w', c', int k))"
      using False d(1) 1(3) by (subst write_loop.simps) (auto simp: k_def c'_def sk_step_def Let_def)
    moreover have "k = n - ?p" if "rc > 0" using that False by (auto simp: k_def)
    ultimately show ?thesis using s d(3) 1(3) by (auto simp: moved_def c'_def sk_step_def intro: exI [of _ "cl_write c"])
  qed
qed

text \<open>A packet is written from an idle connection: the whole of it is on the wire when its length is returned.\<close>

lemma packet_write_log:
  assumes "logs f sent" "cb_write c = Some f" "sk_pos (cl_write c) = 0" "0 < n" "n \<le> length m"
  shows "\<exists>w' c' rc. MqttPacket_Write nb now w c (Some m) (int n) = Ok (w', c', rc) \<and> cb_write c' = Some f \<and> cl_packet_sz_max c' = cl_packet_sz_max c \<and>
    (rc = int n \<longrightarrow> sent w' = sent w @ take n m \<and> sk_pos (cl_write c') = 0) \<and> (takes_all f \<and> cl_packet_sz_max c = 0 \<longrightarrow> rc = int n)"
proof -
  obtain w1 c1 rc1 where r: "(if nb then write_once else write_loop) w c m n (cl_cmd_timeout_ms c) = Ok (w1, c1, rc1)"
    "moved sent m n w c (w1, c1, rc1)" "takes_all f \<longrightarrow> rc1 > 0"
    using write_once_moved [OF assms(1,2), of n m w "cl_cmd_timeout_ms c"] write_loop_moved [OF assms(1,2), of n m w "cl_cmd_timeout_ms c"] assms(3-5)
    by (cases nb) auto
  have z: "sk_pos (cl_write c) = 0" by (fact assms(3))
  have w: "MqttSocket_Write nb w c (Some m) (int n) (cl_cmd_timeout_ms c) =
      Ok (w1, if rc1 > 0 then c1\<lparr>cl_write := (cl_write c1)\<lparr>sk_pos := 0\<rparr>\<rparr> else c1, if rc1 > 0 then int n else rc1)"
    using r(1,2) assms(2,4) z by (auto simp: MqttSocket_Write_def moved_def)
  have m: "rc1 > 0 \<longrightarrow> sent w1 = sent w @ take n m" "cb_write c1 = Some f" "cl_packet_sz_max c1 = cl_packet_sz_max c"
    using r(2) z assms(2) by (auto simp: moved_def blk_def)
  show ?thesis
  proof (cases "cl_packet_sz_max c > 0 \<and> int n > 0 \<and> u32 (int n) > unat (cl_packet_sz_max c)")
    case True
    then show ?thesis using assms(2) by (auto simp: MqttPacket_Write_def MqttPacket_HandleNetError_def)
  next
    case False
    show ?thesis unfolding MqttPacket_Write_def if_not_P [OF False] MqttPacket_HandleNetError_def w
      using m r(3) assms(4) by auto
  qed
qed

section \<open>The packets of a queue\<close>

definition entry_payload :: "BrokerOutPub \<Rightarrow> byte list" where
  "entry_payload e = (case op_payload e of None \<Rightarrow> [] | Some b \<Rightarrow> take (unat (op_payload_len e)) b)"

definition entry_hdr :: "store \<Rightarrow> BrokerOutPub \<Rightarrow> nat list \<Rightarrow> byte list" where
  "entry_hdr H e js = publish_hdr (op_level e) (op_qos e) (op_packet_id e) (cstr_bytes (op_topic e)) (props_val H js)"

text \<open>The PUBLISH of an entry whose properties are the cells \<open>js\<close>: flags, Remaining Length, header and payload.\<close>

definition packet_of :: "store \<Rightarrow> BrokerOutPub \<Rightarrow> nat list \<Rightarrow> byte list" where
  "packet_of H e js =
     type_flags 3 (op_retain e) (qos_code (op_qos e)) (op_retransmit_dup e) #
     vbi_bytes (length (entry_hdr H e js) + length (entry_payload e)) @ entry_hdr H e js @ entry_payload e"

text \<open>An entry that MQTT allows on the wire, in a packet of a size MQTT allows.\<close>

definition publishable :: "store \<Rightarrow> BrokerOutPub \<Rightarrow> nat list \<Rightarrow> bool" where
  "publishable H e js \<longleftrightarrow> chain H (op_props e) js \<and> (\<forall>i \<in> set js. prop_wf (H ! i)) \<and>
     publish_ok (op_level e) (op_qos e) (op_retransmit_dup e) (op_packet_id e) (cstr_bytes (op_topic e)) (props_val H js) \<and>
     (\<forall>b. op_payload e = Some b \<longrightarrow> unat (op_payload_len e) \<le> length b) \<and>
     length (entry_hdr H e js) + length (entry_payload e) \<le> 0x0FFFFFFF"

text \<open>A client with nothing half written and a transmit buffer.\<close>

definition ready :: "('w \<Rightarrow> byte list \<Rightarrow> int \<Rightarrow> 'w \<times> int) \<Rightarrow> nat \<Rightarrow> 'w BrokerClient \<Rightarrow> bool" where
  "ready f room bc \<longleftrightarrow> cb_write (bc_client bc) = Some f \<and> sk_pos (cl_write (bc_client bc)) = 0 \<and> bc_out_q_pending_len bc = 0 \<and>
     length (bc_tx_buf bc) = room \<and> bc_tx_buf_len bc = int room \<and> 5 \<le> room \<and> room < 2147483648"

text \<open>What the encoder leaves in the buffer: the packet, cut off where the buffer ends.\<close>

lemma encode_entry:
  assumes p: "publishable H e js" and r: "ready f room bc"
    and fit: "length (packet_of H e js) - length (entry_payload e) \<le> room"
  defines "pk \<equiv> take room (packet_of H e js)"
  shows "\<exists>out. MqttEncode_Publish H (Some (bc_tx_buf bc)) (bc_tx_buf_len bc) (Some (drain_msg e)) 0 =
    Ok (splice_at (bc_tx_buf bc) 0 pk, out, int (length pk))"
proof -
  let ?hdr = "entry_hdr H e js" and ?pl = "entry_payload e"
  have ok: "chain H (op_props e) js" "\<forall>i \<in> set js. prop_wf (H ! i)" "length ?hdr + length ?pl \<le> 0x0FFFFFFF"
    "publish_ok (op_level e) (op_qos e) (op_retransmit_dup e) (op_packet_id e) (cstr_bytes (op_topic e)) (props_val H js)"
    "op_payload e = Some b \<Longrightarrow> unat (op_payload_len e) \<le> length b" for b
    using p unfolding publishable_def by blast+
  have tx: "bc_tx_buf_len bc = int room" "length (bc_tx_buf bc) = room" "5 \<le> room" "room < 2147483648"
    using r by (simp_all add: ready_def)
  have f: "topic_name (drain_msg e) = Some (op_topic e)" "msg_props (drain_msg e) = op_props e" "msg_level (drain_msg e) = op_level e"
    "qos (drain_msg e) = op_qos e" "duplicate (drain_msg e) = op_retransmit_dup e" "packet_id (drain_msg e) = op_packet_id e"
    "retain (drain_msg e) = op_retain e" by (simp_all add: drain_msg_def)
  have tot: "payload_total (drain_msg e) = length ?pl" "payload_have (drain_msg e) = length ?pl"
    using ok(5) by (auto simp: drain_msg_def payload_total_def payload_have_def entry_payload_def split: option.splits)
  have src: "publish_src_ok (drain_msg e)"
    using ok(5) by (auto simp: publish_src_ok_def drain_msg_def payload_have_def payload_total_def)
  define fx where "fx = type_flags 3 (op_retain e) (qos_code (op_qos e)) (op_retransmit_dup e) # vbi_bytes (length ?hdr + length ?pl)"
  have pkt: "packet_of H e js = fx @ ?hdr @ ?pl" by (simp add: packet_of_def fx_def)
  define n where "n = min (length ?pl) (room - (length fx + length ?hdr))"
  have le: "length fx + length ?hdr \<le> room" using fit by (simp add: pkt)
  have pl: "(case buffer (drain_msg e) of None \<Rightarrow> [] | Some b \<Rightarrow> take n b) = take n ?pl"
    using ok(5) by (auto simp: drain_msg_def entry_payload_def n_def min_def split: option.splits)
  have pk: "pk = fx @ ?hdr @ take n ?pl" "length pk = length fx + length ?hdr + n"
    using le by (auto simp: pk_def pkt n_def min_def)
  have tl: "bc_tx_buf_len bc \<le> int (length (bc_tx_buf bc))" "bc_tx_buf_len bc < 2147483648" "5 \<le> bc_tx_buf_len bc" using tx by simp_all
  have fit': "length ?hdr + length ?pl \<le> 0x0FFFFFFF" "int (length fx + length ?hdr) \<le> bc_tx_buf_len bc" using ok(3) le tx(1) by simp_all
  have ub: "(0 :: byte) \<noteq> 1" by simp
  have "\<exists>out. let n = min (length ?pl) (nat (bc_tx_buf_len bc) - (length fx + length ?hdr)) in
      (MqttEncode_Publish H (Some (bc_tx_buf bc)) (bc_tx_buf_len bc) (Some (drain_msg e)) 0 =
       Ok (splice_at (bc_tx_buf bc) 0 (fx @ ?hdr @ (case buffer (drain_msg e) of None \<Rightarrow> [] | Some b \<Rightarrow> take n b)), out, int (length fx + length ?hdr + n)) \<and>
       (0 < length ?pl \<longrightarrow> buffer_pos out = word_of_nat n))"
    using MqttEncode_Publish_ok [where p = "drain_msg e" and use_cb = 0 and m = "bc_tx_buf bc" and tx_buf_len = "bc_tx_buf_len bc" and H = H,
        unfolded f(2-) tot, OF f(1) ok(1,2,4) src _ tl(1,2,3), folded entry_hdr_def, folded fx_def] fit' by simp
  then show ?thesis unfolding tx(1) nat_int n_def [symmetric] Let_def pl pk(1) [symmetric] pk(2) [symmetric] by auto
qed

section \<open>The cells of a queue\<close>

definition agree_on :: "nat set \<Rightarrow> store \<Rightarrow> store \<Rightarrow> bool" where
  "agree_on S H H' \<longleftrightarrow> length H' = length H \<and> (\<forall>i \<in> S. H' ! i = H ! i)"

lemma chain_agree: "agree_on (set js) H H' \<Longrightarrow> chain H' h js = chain H h js"
  by (induction js arbitrary: h) (auto simp: agree_on_def)

lemma props_val_agree: "agree_on (set js) H H' \<Longrightarrow> props_val H' js = props_val H js"
  by (auto simp: props_val_def agree_on_def)

lemma packet_agree: "agree_on (set js) H H' \<Longrightarrow> packet_of H' e js = packet_of H e js"
  by (simp add: packet_of_def entry_hdr_def props_val_agree)

lemma publishable_agree:
  assumes "agree_on (set js) H H'" "publishable H e js"
  shows "publishable H' e js"
  using assms chain_agree [OF assms(1)] props_val_agree [OF assms(1)] by (simp add: publishable_def entry_hdr_def agree_on_def)

lemma free_chain:
  "chain H h js \<Longrightarrow> distinct js \<Longrightarrow> length js \<le> n \<Longrightarrow> \<exists>H'. free_clone n H h = Ok H' \<and> agree_on (- set js) H H'"
proof (induction js arbitrary: n H h)
  case Nil
  then show ?case by (cases n) (simp_all add: agree_on_def)
next
  case (Cons i js)
  then obtain n' where n: "n = Suc n'" by (cases n) auto
  have c: "chain (H[i := zero_prop]) (next (H ! i)) js"
    using Cons.prems chain_agree [of js H "H[i := zero_prop]"] by (auto simp: agree_on_def nth_list_update)
  obtain H' where "free_clone n' (H[i := zero_prop]) (next (H ! i)) = Ok H'" "agree_on (- set js) (H[i := zero_prop]) H'"
    using Cons.IH [OF c, of n'] Cons.prems n by auto
  then show ?case using Cons.prems n by (auto simp: agree_on_def nth_list_update)
qed

lemma chain_inside: "chain H h js \<Longrightarrow> set js \<subseteq> {..<length H}"
  by (induction js arbitrary: h) auto

lemma free_entry:
  assumes "chain H (op_props e) js" "distinct js"
  shows "\<exists>H'. BrokerOutPub_Free H e = Ok H' \<and> agree_on (- set js) H H'"
proof -
  have "length js \<le> length H"
    using chain_inside [OF assms(1)] distinct_card [OF assms(2)] card_mono [of "{..<length H}" "set js"] by simp
  then show ?thesis unfolding BrokerOutPub_Free_def BrokerProps_FreeClone_def by (rule free_chain [OF assms])
qed

section \<open>One turn of the drain\<close>

text \<open>The bytes an entry puts on the wire when the drain passes it, and what remains of it in the queue.\<close>

definition wire :: "store \<Rightarrow> BrokerOutPub \<Rightarrow> nat list \<Rightarrow> byte list" where
  "wire H e js =
     (if op_state e = BROKER_OUTQ_QUEUED then packet_of H e js
      else if op_state e = BROKER_OUTQ_PUBREL_SENT \<and> op_retransmit_dup e \<noteq> 0 then [0x62, 2] @ num_bytes (op_packet_id e)
      else [])"

definition passed :: "BrokerOutPub \<Rightarrow> BrokerOutPub list" where
  "passed e =
     (if op_state e = BROKER_OUTQ_QUEUED
      then if op_qos e = MQTT_QOS_0 then [] else [e\<lparr>op_retransmit_dup := 0, op_state := BROKER_OUTQ_PUBLISH_SENT\<rparr>]
      else if op_state e = BROKER_OUTQ_PUBREL_SENT \<and> op_retransmit_dup e \<noteq> 0 then [e\<lparr>op_retransmit_dup := 0\<rparr>]
      else [e])"

text \<open>An entry that can go out in one piece.\<close>

definition sendable :: "store \<Rightarrow> nat \<Rightarrow> BrokerOutPub \<Rightarrow> nat list \<Rightarrow> bool" where
  "sendable H room e js \<longleftrightarrow>
     (op_state e = BROKER_OUTQ_QUEUED \<longrightarrow> publishable H e js \<and> length (packet_of H e js) \<le> room) \<and>
     (op_state e = BROKER_OUTQ_PUBREL_SENT \<longrightarrow> op_packet_id e \<noteq> 0)"

text \<open>The turn went on after the bytes \<open>bs\<close>, or it ended the drain.\<close>

definition turned ::
  "('w \<Rightarrow> byte list \<Rightarrow> int \<Rightarrow> 'w \<times> int) \<Rightarrow> ('w \<Rightarrow> byte list) \<Rightarrow> nat \<Rightarrow> int \<Rightarrow> 'w drain_state \<Rightarrow> BrokerOutPub \<Rightarrow> nat list \<Rightarrow> byte list
   \<Rightarrow> 'w drain_state \<Rightarrow> turn \<Rightarrow> bool" where
  "turned f sent room cap = (\<lambda>(w, H, bc) e js bs (w', H', bc') t.
     let on = (\<lambda>k. k \<ge> 0 \<and> ready f room bc' \<and> cl_packet_sz_max (bc_client bc') = cl_packet_sz_max (bc_client bc) \<and>
                   sent w' = sent w @ bs \<and> agree_on (- set js) H H');
         fails = (\<lambda>rc. rc < 0 \<and> \<not> (takes_all f \<and> cl_packet_sz_max (bc_client bc) = 0)) in
     case t of
       Keep e' k \<Rightarrow> on k \<and> passed e = [e']
     | Unlink k \<Rightarrow> on k \<and> passed e = []
     | Return_keep e' rc \<Rightarrow> fails rc
     | Return_unlink rc \<Rightarrow> fails rc
     | Break \<Rightarrow> (w', H', bc') = (w, H, bc) \<and> op_state e = BROKER_OUTQ_QUEUED \<and> op_qos e > MQTT_QOS_0 \<and> bc_out_q_inflight bc \<ge> cap)"

lemma agree_refl [simp]: "agree_on S H H"
  by (simp add: agree_on_def)

lemma drain_rel_turned:
  assumes l: "logs f sent" and r: "ready f room bc" and e: "op_state e = BROKER_OUTQ_PUBREL_SENT" "op_retransmit_dup e \<noteq> 0" "op_packet_id e \<noteq> 0"
  shows "\<exists>s t. drain_rel nb now (w, H, bc) e = Ok (s, t) \<and> turned f sent room cap (w, H, bc) e js (wire H e js) s t"
proof -
  define rel where "rel = \<lparr>resp_packet_id = op_packet_id e, resp_reason_code = 0, resp_props = None, resp_level = op_level e\<rparr>"
  have R: "cb_write (bc_client bc) = Some f" "sk_pos (cl_write (bc_client bc)) = 0" "bc_out_q_pending_len bc = 0"
    "length (bc_tx_buf bc) = room" "bc_tx_buf_len bc = int room" "5 \<le> room" "room < 2147483648" using r by (simp_all add: ready_def)
  let ?pk = "[0x62, 2] @ num_bytes (op_packet_id e)" and ?m = "splice_at (bc_tx_buf bc) 0 ([0x62, 2] @ num_bytes (op_packet_id e))"
  have "resp_flags 6 = 0x62" by code_simp
  moreover have "props_src H None" by (auto simp: props_src_def intro: exI [of _ "[]"])
  moreover have "MqttPacket_PublishRespReasonCodeValid 6 0" by code_simp
  moreover have "prop_list H None = []" by (simp add: prop_list_def props_val_def walk_chain)
  ultimately have enc: "MqttEncode_PublishResp H (Some (bc_tx_buf bc)) (bc_tx_buf_len bc) 6 (Some rel) = Ok (?m, 4)"
    using MqttEncode_PublishResp_eq(1) [of H rel "bc_tx_buf_len bc" "bc_tx_buf bc" 6] R e(3)
    by (simp add: rel_def resp_ok_def resp_body_def send_packet_def vbi_bytes_small num_bytes_def)
  have m: "length ?m = room" "take 4 ?m = ?pk" using R by (simp_all add: splice_at_def num_bytes_def)
  obtain w' c' rc where wr: "MqttPacket_Write nb now w (bc_client bc) (Some ?m) (int 4) = Ok (w', c', rc)"
    "cb_write c' = Some f" "cl_packet_sz_max c' = cl_packet_sz_max (bc_client bc)"
    "rc = int 4 \<longrightarrow> sent w' = sent w @ take 4 ?m \<and> sk_pos (cl_write c') = 0" "takes_all f \<and> cl_packet_sz_max (bc_client bc) = 0 \<longrightarrow> rc = int 4"
    using packet_write_log [OF l R(1,2), of 4 ?m nb now w] m R by auto
  show ?thesis
    unfolding drain_rel_def prod.case rel_def [symmetric] Let_def enc outcome.case
    using R e wr m by (auto simp: turned_def Let_def wire_def passed_def ready_def write_code_def split: if_splits)
qed

lemma drain_publish_turned:
  assumes l: "logs f sent" and r: "ready f room bc" and e: "op_state e = BROKER_OUTQ_QUEUED" "publishable H e js"
    "length (packet_of H e js) - length (entry_payload e) \<le> room" "distinct js"
  shows "\<exists>s t. drain_publish nb now (w, H, bc) e = Ok (s, t) \<and> turned f sent room cap (w, H, bc) e js (take room (packet_of H e js)) s t"
proof -
  define pk where "pk = take room (packet_of H e js)"
  let ?n = "length pk" and ?m = "splice_at (bc_tx_buf bc) 0 pk"
  have R: "cb_write (bc_client bc) = Some f" "sk_pos (cl_write (bc_client bc)) = 0" "bc_out_q_pending_len bc = 0"
    "length (bc_tx_buf bc) = room" "bc_tx_buf_len bc = int room" "5 \<le> room" "room < 2147483648" using r by (simp_all add: ready_def)
  obtain out where enc: "MqttEncode_Publish H (Some (bc_tx_buf bc)) (bc_tx_buf_len bc) (Some (drain_msg e)) 0 = Ok (?m, out, int ?n)"
    using encode_entry [OF e(2) r e(3)] unfolding pk_def by blast
  obtain H1 where free: "BrokerOutPub_Free H e = Ok H1" "agree_on (- set js) H H1"
    using free_entry [of H e js] e(2,4) by (auto simp: publishable_def)
  have n: "0 < ?n" "?n \<le> room" using R(6) by (simp_all add: pk_def packet_of_def)
  have m: "length ?m = room" "take ?n ?m = pk" using R n(2) by (simp_all add: splice_at_def)
  obtain w' c' rc where wr: "MqttPacket_Write nb now w (bc_client bc) (Some ?m) (int ?n) = Ok (w', c', rc)"
    "cb_write c' = Some f" "cl_packet_sz_max c' = cl_packet_sz_max (bc_client bc)"
    "rc = int ?n \<longrightarrow> sent w' = sent w @ take ?n ?m \<and> sk_pos (cl_write c') = 0" "takes_all f \<and> cl_packet_sz_max (bc_client bc) = 0 \<longrightarrow> rc = int ?n"
    using packet_write_log [OF l R(1,2) n(1), of ?m nb now w] m n(2) by auto
  define bc2 where "bc2 = bc\<lparr>bc_tx_buf := ?m, bc_client := c', bc_out_q_pending_len := 0, bc_tx_buf := splice_at ?m 0 (replicate (nat (int ?n)) 0)\<rparr>"
  have pub: "drain_publish nb now (w, H, bc) e =
     (if rc = err_code CONTINUE then
        Ok ((w', H, bc\<lparr>bc_tx_buf := ?m, bc_client := c', bc_out_q_pending_len := int ?n\<rparr>),
            Return_keep (if op_qos e > MQTT_QOS_0 \<and> sk_pos (cl_write c') > 0 then e\<lparr>op_retransmit_dup := 1\<rparr> else e) rc)
      else if rc \<noteq> int ?n then drain_failed (w', H, bc2) e rc else drain_sent (w', H, bc2) e)"
    unfolding drain_publish_def prod.case enc outcome.case using R(3) n wr(1) by (simp add: bc2_def Let_def)
  show ?thesis
  proof (cases "rc = int ?n")
    case True
    have c: "\<not> rc = err_code CONTINUE" using True by simp
    have "ready f room bc2" using R m wr True n(2) by (simp add: ready_def bc2_def)
    moreover have "sent w' = sent w @ take room (packet_of H e js)" "cl_packet_sz_max (bc_client bc2) = cl_packet_sz_max (bc_client bc)"
      using wr m True by (simp_all add: pk_def bc2_def)
    ultimately show ?thesis unfolding pub using True c free e(1)
      by (auto simp: drain_sent_def turned_def Let_def passed_def ready_def)
  next
    case False
    then have nt: "\<not> (takes_all f \<and> cl_packet_sz_max (bc_client bc) = 0)" using wr(5) by blast
    show ?thesis
    proof (cases "rc = err_code CONTINUE")
      case True
      then show ?thesis unfolding pub using nt by (auto simp: turned_def Let_def)
    next
      case ne: False
      show ?thesis unfolding pub using ne False nt free(1) by (auto simp: drain_failed_def turned_def Let_def)
    qed
  qed
qed

lemma drain_step_turned:
  assumes "logs f sent" "ready f room bc" "sendable H room e js" "distinct js"
  shows "\<exists>s t. drain_step nb now cap (w, H, bc) e = Ok (s, t) \<and> turned f sent room cap (w, H, bc) e js (wire H e js) s t"
proof (cases "op_state e = BROKER_OUTQ_QUEUED")
  case True
  show ?thesis
  proof (cases "op_qos e > MQTT_QOS_0 \<and> bc_out_q_inflight bc \<ge> cap")
    case limit: True
    then show ?thesis using True by (simp add: drain_step_def turned_def)
  next
    case False
    have p: "publishable H e js" "length (packet_of H e js) \<le> room" "take room (packet_of H e js) = wire H e js"
      using assms(3) True by (simp_all add: sendable_def wire_def)
    then show ?thesis using True False drain_publish_turned [OF assms(1,2) True p(1) le_trans [OF diff_le_self p(2)] assms(4), of nb now w cap]
      unfolding drain_step_def snd_conv by auto
  qed
next
  case False
  show ?thesis
  proof (cases "op_state e = BROKER_OUTQ_PUBREL_SENT \<and> op_retransmit_dup e \<noteq> 0")
    case True
    then show ?thesis using assms(3) drain_rel_turned [OF assms(1,2), of e nb now w H cap js] False
      unfolding drain_step_def by (simp add: sendable_def)
  next
    case rest: False
    then show ?thesis using False assms(2) by (auto simp: drain_step_def turned_def wire_def passed_def)
  qed
qed

section \<open>The drain\<close>

text \<open>
  The specification: the drain has passed the first \<open>k\<close> entries.  Their packets are on the wire in the order of the
  queue, they have left it or wait for an acknowledgement, and everything behind them is as it was; when there is an
  entry behind them, the limit of unacknowledged messages stands in its way.
\<close>

definition drained ::
  "('w \<Rightarrow> byte list) \<Rightarrow> int \<Rightarrow> store \<Rightarrow> BrokerOutPub list \<Rightarrow> nat list list \<Rightarrow> 'w \<Rightarrow> 'w \<Rightarrow> BrokerOutPub list \<Rightarrow> int \<Rightarrow> bool" where
  "drained sent cap H q jss w w' q' inflight \<longleftrightarrow>
     (\<exists>k \<le> length q. sent w' = sent w @ concat (map2 (wire H) (take k q) (take k jss)) \<and>
        q' = concat (map passed (take k q)) @ drop k q \<and>
        (k < length q \<longrightarrow> op_state (q ! k) = BROKER_OUTQ_QUEUED \<and> op_qos (q ! k) > MQTT_QOS_0 \<and> inflight \<ge> cap))"

lemma drained_Nil: "drained sent cap H [] [] w w [] i"
  by (simp add: drained_def)

lemma drained_stop:
  "op_state e = BROKER_OUTQ_QUEUED \<Longrightarrow> op_qos e > MQTT_QOS_0 \<Longrightarrow> i \<ge> cap \<Longrightarrow> drained sent cap H (e # q) jss w w (e # q) i"
  unfolding drained_def by (rule exI [of _ 0]) simp

lemma wire_agree: "agree_on (set js) H H' \<Longrightarrow> wire H' e js = wire H e js"
  by (simp add: wire_def packet_agree)

lemma sendable_agree: "agree_on (set js) H H' \<Longrightarrow> sendable H room e js \<Longrightarrow> sendable H' room e js"
  using publishable_agree packet_agree by (simp add: sendable_def)

lemma wires_agree: "\<forall>js \<in> set jss. agree_on (set js) H H' \<Longrightarrow> map2 (wire H') es jss = map2 (wire H) es jss"
  by (auto simp: wire_agree dest: set_zip_rightD)

lemma drained_Cons:
  assumes "drained sent cap H' q jss w1 w' q' i" "\<forall>js \<in> set jss. agree_on (set js) H H'" "sent w1 = sent w @ wire H e js"
  shows "drained sent cap H (e # q) (js # jss) w w' (passed e @ q') i"
proof -
  obtain k where k: "k \<le> length q" "sent w' = sent w1 @ concat (map2 (wire H') (take k q) (take k jss))"
    "q' = concat (map passed (take k q)) @ drop k q"
    "k < length q \<longrightarrow> op_state (q ! k) = BROKER_OUTQ_QUEUED \<and> op_qos (q ! k) > MQTT_QOS_0 \<and> i \<ge> cap"
    using assms(1) unfolding drained_def by blast
  have "map2 (wire H') (take k q) (take k jss) = map2 (wire H) (take k q) (take k jss)"
    using assms(2) by (intro wires_agree) (auto dest: in_set_takeD)
  then have "sent w' = sent w @ concat (map2 (wire H) (take (Suc k) (e # q)) (take (Suc k) (js # jss)))" using k(2) assms(3) by (simp only:) simp
  then show ?thesis using k(1,3,4) unfolding drained_def by (intro exI [of _ "Suc k"]) simp
qed

lemma drain_loop_drained:
  assumes "logs f sent"
  shows "ready f room bc \<Longrightarrow> list_all2 (sendable H room) es jss \<Longrightarrow> distinct (concat jss) \<Longrightarrow> n \<ge> 0 \<Longrightarrow>
    \<exists>w' H' bc' rc. drain_loop nb now cap ahead es (w, H, bc) n = Ok ((w', H', bc'), rc) \<and>
      (takes_all f \<and> cl_packet_sz_max (bc_client bc) = 0 \<longrightarrow> rc \<ge> 0) \<and>
      (rc \<ge> 0 \<longrightarrow> (\<exists>q'. bc_out_q bc' = ahead @ q' \<and> drained sent cap H es jss w w' q' (bc_out_q_inflight bc')))"
proof (induction es arbitrary: jss ahead w H bc n)
  case Nil
  then show ?case by (simp add: drained_Nil)
next
  case (Cons e es)
  obtain js jss' where j: "jss = js # jss'" "sendable H room e js" "list_all2 (sendable H room) es jss'"
    using Cons.prems(2) by (auto simp: list_all2_Cons1)
  have d: "distinct js" "distinct (concat jss')" "set js \<inter> set (concat jss') = {}" using Cons.prems(3) by (simp_all add: j(1))
  obtain w1 H1 bc1 t where s: "drain_step nb now cap (w, H, bc) e = Ok ((w1, H1, bc1), t)"
    "turned f sent room cap (w, H, bc) e js (wire H e js) (w1, H1, bc1) t"
    using drain_step_turned [OF assms Cons.prems(1) j(2) d(1), of nb now cap w] by (metis prod_cases3)
  show ?case
  proof (cases "\<exists>k. (t = Unlink k \<and> passed e = []) \<or> (\<exists>e'. t = Keep e' k \<and> passed e = [e'])")
    case True
    then obtain k where k: "(t = Unlink k \<and> passed e = []) \<or> (\<exists>e'. t = Keep e' k \<and> passed e = [e'])" by blast
    then have on: "k \<ge> 0" "ready f room bc1" "cl_packet_sz_max (bc_client bc1) = cl_packet_sz_max (bc_client bc)"
      "sent w1 = sent w @ wire H e js" "agree_on (- set js) H H1" using s(2) by (auto simp: turned_def Let_def)
    have a: "\<forall>js' \<in> set jss'. agree_on (set js') H H1" using on(5) d(3) by (auto simp: agree_on_def)
    have sd: "list_all2 (sendable H1 room) es jss'"
      using j(3) a by (auto simp: list_all2_conv_all_nth intro!: sendable_agree [of _ H H1])
    have loop: "drain_loop nb now cap ahead (e # es) (w, H, bc) n = drain_loop nb now cap (ahead @ passed e) es (w1, H1, bc1) (n + k)"
      using k s(1) by auto
    obtain w' H' bc' rc where r: "drain_loop nb now cap (ahead @ passed e) es (w1, H1, bc1) (n + k) = Ok ((w', H', bc'), rc)"
      "takes_all f \<and> cl_packet_sz_max (bc_client bc) = 0 \<longrightarrow> rc \<ge> 0"
      "rc \<ge> 0 \<longrightarrow> (\<exists>q'. bc_out_q bc' = (ahead @ passed e) @ q' \<and> drained sent cap H1 es jss' w1 w' q' (bc_out_q_inflight bc'))"
      using Cons.IH [OF on(2) sd d(2) add_nonneg_nonneg [OF Cons.prems(4) on(1)], of "ahead @ passed e" w1, unfolded on(3)] by blast
    then show ?thesis unfolding loop j(1) using drained_Cons [where sent = sent, OF _ a on(4)] by fastforce
  next
    case False
    then show ?thesis using s Cons.prems(4) by (cases t) (auto simp: turned_def Let_def j(1) intro: drained_stop)
  qed
qed

text \<open>C6: Ordered delivery.  When nothing is half written and every queued entry is a packet that fits the buffer, a drain that
  reports no error has put exactly the packets of a front part of the queue on the wire, whole and in the order of the
  queue: the PUBLISH of every entry that was waiting, the PUBREL of every release that is to be repeated, and nothing
  else.  QoS 0 messages have left the queue, the others wait in it for their acknowledgement, nothing behind the front
  part has been touched, and when something is left there, the limit of unacknowledged messages is reached.  Over a
  transport that takes every write, the drain reports no error.\<close>

theorem drain_delivers:
  assumes "logs f sent" "ready f room bc" "list_all2 (sendable H room) (bc_out_q bc) jss" "distinct (concat jss)"
    and "bc_connack_pending_len bc = 0" "bc_direct_pending_len bc = 0"
  shows "\<exists>w' H' bc' rc. BrokerClient_DrainOutQueue nb now (w, H, bc) = Ok ((w', H', bc'), rc) \<and>
    (rc \<ge> 0 \<longrightarrow> drained sent (effective_cap bc) H (bc_out_q bc) jss w w' (bc_out_q bc') (bc_out_q_inflight bc')) \<and>
    (takes_all f \<and> cl_packet_sz_max (bc_client bc) = 0 \<longrightarrow> rc \<ge> 0)"
proof (cases "bc_out_q bc = []")
  case True
  then show ?thesis using assms(3) by (simp add: BrokerClient_DrainOutQueue_def drained_Nil)
next
  case False
  then show ?thesis using drain_loop_drained [OF assms(1-4), of 0 nb now "effective_cap bc" "[]" w] assms(5,6)
    by (auto simp: BrokerClient_DrainOutQueue_def)
qed

text \<open>A transport that takes every write and keeps the bytes, a client that uses it, a release to repeat and a message.\<close>

definition keep_bytes :: "byte list \<Rightarrow> byte list \<Rightarrow> int \<Rightarrow> byte list \<times> int" where
  "keep_bytes w bs t = (w @ bs, int (length bs))"

lemma keep_bytes_log: "logs keep_bytes (\<lambda>w. w)" "takes_all keep_bytes"
  by (simp_all add: logs_def takes_all_def keep_bytes_def)

definition log_client :: "byte list BrokerClient" where
  "log_client = zero_client\<lparr>bc_tx_buf := replicate 12 0, bc_tx_buf_len := 12,
     bc_client := zero_mqtt_client\<lparr>cl_net := Some \<lparr>net_connect = None, net_read = None, net_write = Some keep_bytes, net_disconnect = None\<rparr>\<rparr>\<rparr>"

lemma log_client_facts:
  "ready keep_bytes 12 (log_client\<lparr>bc_out_q := q\<rparr>)" "cl_packet_sz_max (bc_client log_client) = 0"
  "bc_connack_pending_len log_client = 0" "bc_direct_pending_len log_client = 0"
  by (simp_all add: ready_def log_client_def zero_client_def zero_mqtt_client_def cb_write_def)

definition rel_entry :: BrokerOutPub where
  "rel_entry = zero_out_pub\<lparr>op_topic := [0x61, 0], op_qos := MQTT_QOS_2, op_packet_id := 3, op_level := 4, op_state := 2, op_retransmit_dup := 1\<rparr>"

definition hi_entry :: BrokerOutPub where
  "hi_entry = zero_out_pub\<lparr>op_topic := [0x61, 0], op_level := 4, op_payload := Some [0x68, 0x69], op_payload_len := 2\<rparr>"

lemma hi_entry_facts:
  "publishable [] hi_entry []" "packet_of [] hi_entry [] = [0x30, 5, 0, 1, 0x61, 0x68, 0x69]"
proof -
  have u: "publish_ok 4 MQTT_QOS_0 0 0 [0x61] []" using hello_msg_facts(13) by (simp add: publish_ok_def)
  have h: "entry_hdr [] hi_entry [] = [0, 1, 0x61]"
    by (simp add: entry_hdr_def hi_entry_def zero_out_pub_def publish_hdr_def str_bytes_def num_bytes_def cstr_bytes_def)
  have p: "entry_payload hi_entry = [0x68, 0x69]" by (simp add: entry_payload_def hi_entry_def)
  have t: "type_flags 3 0 0 0 = 0x30" by code_simp
  show "publishable [] hi_entry []" unfolding publishable_def h p using u
    by (simp add: hi_entry_def zero_out_pub_def cstr_bytes_def props_val_def)
  show "packet_of [] hi_entry [] = [0x30, 5, 0, 1, 0x61, 0x68, 0x69]" unfolding packet_of_def h p using t
    by (simp add: hi_entry_def zero_out_pub_def vbi_bytes_small)
qed

theorem drain_delivers_witness:
  "\<exists>H' bc' rc. BrokerClient_DrainOutQueue True 0 ([0x20], [], log_client\<lparr>bc_out_q := [rel_entry, hi_entry], bc_out_q_count := 2\<rparr>) =
     Ok (([0x20, 0x62, 2, 0, 3, 0x30, 5, 0, 1, 0x61, 0x68, 0x69], H', bc'), rc) \<and> rc \<ge> 0 \<and> bc_out_q bc' = [rel_entry\<lparr>op_retransmit_dup := 0\<rparr>]"
proof -
  let ?bc = "log_client\<lparr>bc_out_q := [rel_entry, hi_entry], bc_out_q_count := 2\<rparr>"
  have r: "ready keep_bytes 12 ?bc" "bc_connack_pending_len ?bc = 0" "bc_direct_pending_len ?bc = 0" "cl_packet_sz_max (bc_client ?bc) = 0"
    using log_client_facts by (simp_all add: ready_def)
  have s: "list_all2 (sendable [] 12) (bc_out_q ?bc) [[], []]"
    using hi_entry_facts by (simp add: sendable_def rel_entry_def hi_entry_def zero_out_pub_def)
  obtain w' H' bc' rc where d: "BrokerClient_DrainOutQueue True 0 ([0x20], [], ?bc) = Ok ((w', H', bc'), rc)" "rc \<ge> 0"
    "drained (\<lambda>w. w) (effective_cap ?bc) [] [rel_entry, hi_entry] [[], []] [0x20] w' (bc_out_q bc') (bc_out_q_inflight bc')"
    using drain_delivers [OF keep_bytes_log(1) r(1) s _ r(2,3), of True 0 "[0x20]"] keep_bytes_log(2) r(4) by auto
  obtain k where k: "k \<le> length [rel_entry, hi_entry]" "w' = [0x20] @ concat (map2 (wire []) (take k [rel_entry, hi_entry]) (take k [[], []]))"
    "bc_out_q bc' = concat (map passed (take k [rel_entry, hi_entry])) @ drop k [rel_entry, hi_entry]"
    "k < length [rel_entry, hi_entry] \<longrightarrow> op_state ([rel_entry, hi_entry] ! k) = 0 \<and> op_qos ([rel_entry, hi_entry] ! k) > MQTT_QOS_0 \<and>
      effective_cap ?bc \<le> bc_out_q_inflight bc'"
    using d(3) unfolding drained_def by blast
  have "k = 2"
  proof (rule ccontr)
    assume "k \<noteq> 2"
    then consider "k = 0" | "k = 1" using k(1) by fastforce
    then show False using k(4) by cases (simp_all add: rel_entry_def hi_entry_def zero_out_pub_def)
  qed
  then show ?thesis using d(1,2) k(2,3) hi_entry_facts(2)
    by (simp add: wire_def passed_def rel_entry_def num_bytes_def) (simp add: hi_entry_def zero_out_pub_def)
qed

section \<open>Where the drain departs from the protocol\<close>

text \<open>C33: A publication that does not fit into the transmit buffer is sent short.  The encoder copies the part of the payload
  that fits and returns the length of the buffer, for a caller that sends the rest itself; the drain takes it for the
  whole packet.  Over a transport that takes every write, the drain puts on the wire exactly the beginning of the packet
  that fits, whose Remaining Length counts the whole payload, and marks the message as sent.\<close>

theorem drain_sends_short:
  assumes "logs f sent" "takes_all f" "ready f room bc" "cl_packet_sz_max (bc_client bc) = 0"
    and "op_state e = BROKER_OUTQ_QUEUED" "publishable H e js" "distinct js"
    and "length (packet_of H e js) - length (entry_payload e) \<le> room" "room < length (packet_of H e js)"
  shows "\<exists>w' H' bc' t. drain_publish nb now (w, H, bc) e = Ok ((w', H', bc'), t) \<and>
    sent w' = sent w @ take room (packet_of H e js) \<and> take room (packet_of H e js) \<noteq> packet_of H e js \<and>
    ((\<exists>k. t = Unlink k) \<and> passed e = [] \<or> (\<exists>e' k. t = Keep e' k \<and> passed e = [e']))"
proof -
  obtain s t where d: "drain_publish nb now (w, H, bc) e = Ok (s, t)" "turned f sent room (bc_out_q_inflight bc + 1) (w, H, bc) e js (take room (packet_of H e js)) s t"
    using drain_publish_turned [OF assms(1,3,5,6,8,7), of nb now w "bc_out_q_inflight bc + 1"] by blast
  obtain w' H' bc' where s: "s = (w', H', bc')" by (metis prod_cases3)
  have "take room (packet_of H e js) \<noteq> packet_of H e js" using assms(9) by (metis length_take min.strict_order_iff min.commute not_less_iff_gr_or_eq)
  then show ?thesis using d assms(2,4) unfolding s by (cases t) (auto simp: turned_def Let_def)
qed

text \<open>A message that needs thirteen bytes, and a buffer of twelve.\<close>

definition hello_entry :: BrokerOutPub where
  "hello_entry = zero_out_pub\<lparr>op_topic := [0x61, 0], op_qos := MQTT_QOS_1, op_packet_id := 7, op_level := 5,
     op_payload := Some [0x68, 0x65, 0x6C, 0x6C, 0x6F], op_payload_len := 5\<rparr>"

lemma hello_entry_facts:
  "publishable [] hello_entry []" "entry_payload hello_entry = [0x68, 0x65, 0x6C, 0x6C, 0x6F]"
  "packet_of [] hello_entry [] = [0x32, 11, 0, 1, 0x61, 0, 7, 0, 0x68, 0x65, 0x6C, 0x6C, 0x6F]"
proof -
  show p: "entry_payload hello_entry = [0x68, 0x65, 0x6C, 0x6C, 0x6F]" by (simp add: entry_payload_def hello_entry_def)
  have h: "entry_hdr [] hello_entry [] = [0, 1, 0x61, 0, 7, 0]"
    using hello_msg_facts(14) by (simp add: entry_hdr_def hello_entry_def cstr_bytes_def props_val_def)
  have t: "type_flags 3 0 1 0 = 0x32" by code_simp
  show "publishable [] hello_entry []" unfolding publishable_def h p using hello_msg_facts(13)
    by (simp add: hello_entry_def zero_out_pub_def cstr_bytes_def props_val_def)
  show "packet_of [] hello_entry [] = [0x32, 11, 0, 1, 0x61, 0, 7, 0, 0x68, 0x65, 0x6C, 0x6C, 0x6F]" unfolding packet_of_def h p using t
    by (simp add: hello_entry_def zero_out_pub_def vbi_bytes_small)
qed

theorem drain_sends_short_witness:
  "\<exists>H' bc' e' k. drain_publish True 0 ([], [], log_client) hello_entry =
     Ok (([0x32, 11, 0, 1, 0x61, 0, 7, 0, 0x68, 0x65, 0x6C, 0x6C], H', bc'), Keep e' k) \<and> op_state e' = BROKER_OUTQ_PUBLISH_SENT"
proof -
  have r: "ready keep_bytes 12 log_client" using log_client_facts(1) [of "bc_out_q log_client"] by simp
  have e: "op_state hello_entry = BROKER_OUTQ_QUEUED" "passed hello_entry = [hello_entry\<lparr>op_retransmit_dup := 0, op_state := 1\<rparr>]"
    by (simp_all add: passed_def hello_entry_def zero_out_pub_def)
  show ?thesis
    using drain_sends_short [OF keep_bytes_log r log_client_facts(2) e(1) hello_entry_facts(1), of True 0 "[]"] e(2)
    by (auto simp: hello_entry_facts)
qed

end
