(* ===== verification/Broker_Run.thy ===== *)
theory Broker_Run
  imports Broker_Machine Broker_Delivery
begin

text \<open>
  Runs of the broker.  A step is a packet that is handled, a queue that is drained, a packet that arrives in the receive
  buffer, a client that leaves with or without a session to keep, a client that takes its session up again, or the
  expiry of sessions; between the steps the world may change.
\<close>

section \<open>The state machine\<close>

inductive broker_step :: "'w broker_state \<Rightarrow> 'w broker_state \<Rightarrow> bool" where
  publish: "BrokerHandle_Publish E h s n = Ok (s', rc) \<Longrightarrow> broker_step s s'"
| subscribe: "BrokerHandle_Subscribe E h (b, w, H, cl h) n = Ok ((b', w', H', bc'), rc) \<Longrightarrow>
    broker_step (w, H, b, cl) (w', H', b', cl(h := bc'))"
| unsubscribe: "BrokerHandle_Unsubscribe E h (b, w, H, cl h) n = Ok ((b', w', H', bc'), rc) \<Longrightarrow>
    broker_step (w, H, b, cl) (w', H', b', cl(h := bc'))"
| pubrel: "BrokerHandle_PublishRel E (w, H, cl h) n = Ok ((w', H', bc'), rc) \<Longrightarrow> broker_step (w, H, b, cl) (w', H', b, cl(h := bc'))"
| pubrec: "BrokerHandle_PublishRec E (w, H, cl h) n = Ok ((w', H', bc'), rc) \<Longrightarrow> broker_step (w, H, b, cl) (w', H', b, cl(h := bc'))"
| puback: "BrokerClient_OnPubAck nb now (w, H, cl h) pid = Ok (w', H', bc') \<Longrightarrow> broker_step (w, H, b, cl) (w', H', b, cl(h := bc'))"
| pubcomp: "BrokerClient_OnPubComp nb now (w, H, cl h) pid = Ok (w', H', bc') \<Longrightarrow> broker_step (w, H, b, cl) (w', H', b, cl(h := bc'))"
| drain: "BrokerClient_DrainOutQueue nb now (w, H, cl h) = Ok ((w', H', bc'), rc) \<Longrightarrow> broker_step (w, H, b, cl) (w', H', b, cl(h := bc'))"
| receive: "broker_step (w, H, b, cl) (w', H, b, cl(h := (cl h)\<lparr>bc_rx_buf := m\<rparr>))"
| leave: "BrokerSubs_OrphanClient malloc now h H b (cl h) = Ok (H', b', bc') \<Longrightarrow> broker_step (w, H, b, cl) (w, H', b', cl(h := bc'))"
| end_session: "BrokerSubs_EndClientSession h H b (cl h) = Ok (H', b', bc') \<Longrightarrow> broker_step (w, H, b, cl) (w, H', b', cl(h := bc'))"
| resume_session: "bc_out_q bc = [] \<Longrightarrow> bc_out_q_count bc = 0 \<Longrightarrow> bc_out_q_inflight bc = 0 \<Longrightarrow> bc_qos2_pending bc = [] \<Longrightarrow>
    bc_qos2_pending_count bc = 0 \<Longrightarrow> BrokerOrphan_Reclaim H b bc = Ok (H', b', bc', present) \<Longrightarrow>
    broker_step (w, H, b, cl) (w, H', b', cl(h := bc'))"
| expire: "BrokerOrphan_ExpireSweep now H b = Ok (H', b') \<Longrightarrow> broker_step (w, H, b, cl) (w, H', b', cl)"

lemma broker_inv_step:
  "broker_inv (w, H, b, cl) \<Longrightarrow> tables_ok b' \<Longrightarrow> client_ok bc \<Longrightarrow> broker_inv (w', H', b', cl(h := bc))"
  by (simp add: broker_inv_def)

lemma broker_parts: "broker_inv (w, H, b, cl) \<Longrightarrow> tables_ok b" "broker_inv (w, H, b, cl) \<Longrightarrow> client_ok (cl h)"
  by (simp_all add: broker_inv_def)

lemma broker_step_inv: "broker_step s t \<Longrightarrow> broker_inv s \<Longrightarrow> broker_inv t"
proof (induction rule: broker_step.induct)
  case (publish E h s n s' rc)
  obtain w H b cl where s: "s = (w, H, b, cl)" by (cases s) auto
  from returnsD [OF publish_ok [OF publish(2) [unfolded s]] publish(1) [unfolded s]] show ?case by simp
next
  case (subscribe E h b w H cl n b' w' H' bc' rc)
  note i = broker_parts [OF subscribe(2)]
  show ?case using returnsD [OF subscribe_ok [OF i] subscribe(1)] by (auto intro: broker_inv_step [OF subscribe(2)])
next
  case (unsubscribe E h b w H cl n b' w' H' bc' rc)
  note i = broker_parts [OF unsubscribe(2)]
  show ?case using returnsD [OF unsubscribe_ok [OF i] unsubscribe(1)] by (auto intro: broker_inv_step [OF unsubscribe(2)])
next
  case (pubrel E w H cl h n w' H' bc' rc b)
  show ?case using returnsD [OF pubrel_ok [OF broker_parts(2) [OF pubrel(2)]] pubrel(1)] by (auto intro: broker_inv_upd [OF pubrel(2)])
next
  case (pubrec E w H cl h n w' H' bc' rc b)
  show ?case using returnsD [OF pubrec_ok [OF broker_parts(2) [OF pubrec(2)]] pubrec(1)] by (auto intro: broker_inv_upd [OF pubrec(2)])
next
  case (puback nb now w H cl h pid w' H' bc' b)
  show ?case using returnsD [OF ack_ok(1) [OF broker_parts(2) [OF puback(2)]] puback(1)] by (auto intro: broker_inv_upd [OF puback(2)])
next
  case (pubcomp nb now w H cl h pid w' H' bc' b)
  show ?case using returnsD [OF ack_ok(3) [OF broker_parts(2) [OF pubcomp(2)]] pubcomp(1)] by (auto intro: broker_inv_upd [OF pubcomp(2)])
next
  case (drain nb now w H cl h w' H' bc' rc b)
  show ?case using returnsD [OF drain_ok [OF broker_parts(2) [OF drain(2)]] drain(1)] by (auto intro: broker_inv_upd [OF drain(2)])
next
  case (receive w H b cl w' h m)
  have "client_ok ((cl h)\<lparr>bc_rx_buf := m\<rparr>)"
    by (rule client_ok_frame [OF broker_parts(2) [OF receive, of h]]) (simp_all add: core_def outq_def)
  then show ?case by (rule broker_inv_upd [OF receive])
next
  case (leave malloc now h H b cl H' b' bc' w)
  note i = broker_parts [OF leave(2)]
  show ?case using returnsD [OF orphan_client_ok [OF i] leave(1)] by (auto intro: broker_inv_step [OF leave(2)])
next
  case (end_session h H b cl H' b' bc' w)
  note i = broker_parts [OF end_session(2)]
  show ?case using returnsD [OF end_session_ok [OF i] end_session(1)] by (auto intro: broker_inv_step [OF end_session(2)])
next
  case (resume_session bc H b H' b' bc' present w cl h)
  then have "client_ok bc" by (simp add: client_ok_def outq_inv_def qos2_inv_def)
  from returnsD [OF reclaim_ok [OF broker_parts(1) [OF resume_session(7)] this] resume_session(6)]
  show ?case by (auto intro: broker_inv_step [OF resume_session(7)])
next
  case (expire now H b H' b' w cl)
  then show ?case using returnsD [OF sweep_ok [OF broker_parts(1) [OF expire(2)]]] unfolding BrokerOrphan_ExpireSweep_def
    by (auto simp: broker_inv_def)
qed

section \<open>Destinations\<close>

text \<open>The clients that a publication goes to, one entry for each matching subscription, in the order of the list.\<close>

definition destinations :: "(handle \<Rightarrow> 'w BrokerClient) \<Rightarrow> message \<Rightarrow> BrokerSub list \<Rightarrow> (handle \<times> MqttQoS) list" where
  "destinations cl ms ss = map (\<lambda>s. (the (bs_client s), min_qos (ms_qos ms) (bs_qos s))) (filter (\<lambda>s. online cl s \<and> sub_matches (ms_topic ms) s) ss)"

text \<open>How a list of destinations grows: to the end, or up to an allocation that fails.\<close>

definition grows :: "bool \<Rightarrow> (handle \<times> MqttQoS) list \<Rightarrow> BrokerFanoutList \<Rightarrow> BrokerFanoutList \<Rightarrow> bool" where
  "grows memory ds fl fl' \<longleftrightarrow> (\<exists>n. fl_items fl' = fl_items fl @ take n ds \<and> (\<not> fl_truncated fl' \<longrightarrow> length ds \<le> n) \<and>
     (fl_truncated fl \<longrightarrow> fl' = fl) \<and> (fl_truncated fl' \<longrightarrow> fl_truncated fl \<or> \<not> memory \<and> length (fl_items fl) + length ds > fl_cap fl)) \<and>
     length (fl_items fl') \<le> fl_cap fl'"

lemma grows_add:
  assumes "grows memory ds (BrokerFanout_Add m fl g q) fl'" "length (fl_items fl) \<le> fl_cap fl" "memory \<longrightarrow> m" "fl_cap fl > 0"
  shows "grows memory ((g, q) # ds) fl fl'"
proof -
  from assms(1) [unfolded grows_def] obtain n where n: "fl_items fl' = fl_items (BrokerFanout_Add m fl g q) @ take n ds"
    "\<not> fl_truncated fl' \<longrightarrow> length ds \<le> n" "fl_truncated (BrokerFanout_Add m fl g q) \<longrightarrow> fl' = BrokerFanout_Add m fl g q"
    "fl_truncated fl' \<longrightarrow> fl_truncated (BrokerFanout_Add m fl g q) \<or> \<not> memory \<and> length (fl_items (BrokerFanout_Add m fl g q)) + length ds > fl_cap (BrokerFanout_Add m fl g q)"
    "length (fl_items fl') \<le> fl_cap fl'" by blast
  show ?thesis
  proof (cases "fl_truncated (BrokerFanout_Add m fl g q)")
    case True
    then show ?thesis using n(3) assms(2-4)
      unfolding grows_def by (intro conjI exI [of _ 0]) (auto simp: BrokerFanout_Add_def split: if_splits)
  next
    case False
    then show ?thesis using n assms(2-4)
      unfolding grows_def by (intro conjI exI [of _ "Suc n"]) (auto simp: BrokerFanout_Add_def split: if_splits)
  qed
qed

lemma add_cap: "length (fl_items fl) \<le> fl_cap fl \<Longrightarrow> fl_cap fl > 0 \<Longrightarrow>
  length (fl_items (BrokerFanout_Add m fl g q)) \<le> fl_cap (BrokerFanout_Add m fl g q) \<and> fl_cap (BrokerFanout_Add m fl g q) > 0"
  by (auto simp: BrokerFanout_Add_def)

lemma collect_grows:
  assumes "memory \<longrightarrow> (\<forall>k. env_malloc E [3, k])"
  shows "length (fl_items fl) \<le> fl_cap fl \<Longrightarrow> fl_cap fl > 0 \<Longrightarrow>
    returns (\<lambda>(H', b', fl'). grows memory (destinations cl ms ss) fl fl') (collect E cl ms k ss (H, b, fl))"
proof (induction ss arbitrary: k H b fl)
  case Nil
  then show ?case by (auto simp: returns_Ok grows_def destinations_def)
next
  case (Cons s ss)
  show ?case
  proof (cases "online cl s \<and> sub_matches (ms_topic ms) s")
    case True
    let ?fl = "BrokerFanout_Add (env_malloc E [3, k]) fl (the (bs_client s)) (min_qos (ms_qos ms) (bs_qos s))"
    have "returns (\<lambda>(H', b', fl'). grows memory (destinations cl ms ss) ?fl fl') (collect E cl ms (Suc k) ss (H, b, ?fl))"
      using add_cap [OF Cons.prems] by (intro Cons.IH) simp_all
    then show ?thesis using True assms grows_add [OF _ Cons.prems(1) _ Cons.prems(2)]
      by (auto simp: Let_def destinations_def elim!: returns_weaken)
  next
    case False
    then have d: "destinations cl ms (s # ss) = destinations cl ms ss" by (auto simp: destinations_def)
    show ?thesis unfolding collect.simps Let_def d if_not_P [OF False]
      by (intro returns_if returns_option Cons.IH Cons.prems returns_bnd returns_prod)
  qed
qed

lemma find_key_Some: "distinct (map key l) \<Longrightarrow> find (\<lambda>x. key x = k) l = Some x \<longleftrightarrow> x \<in> set l \<and> key x = k"
  by (induction l) (auto simp: image_iff)

lemma subs_map_iff:
  assumes "subs_inv h i (b, bc)"
  shows "subs_map b (g, f) = Some q \<longleftrightarrow> (\<exists>s \<in> set (br_subs b). sub_key s = (Some g, f) \<and> bs_qos s = q)"
proof -
  have d: "distinct (map sub_key (filter (\<lambda>s. bs_client s \<noteq> None) (br_subs b)))" using assms by (simp add: subs_inv_def)
  have "subs_map b (g, f) = Some q \<longleftrightarrow> (\<exists>s. find (\<lambda>s. sub_key s = (Some g, f)) (filter (\<lambda>s. bs_client s \<noteq> None) (br_subs b)) = Some s \<and> bs_qos s = q)"
    unfolding subs_map_def prod.case find_client [symmetric] by auto
  also have "\<dots> \<longleftrightarrow> (\<exists>s \<in> set (br_subs b). sub_key s = (Some g, f) \<and> bs_qos s = q)"
    unfolding find_key_Some [OF d] by (auto simp: sub_key_def)
  finally show ?thesis .
qed

lemma match_copy: "BrokerTopicMatch (Some (cstr_bytes f @ [0])) t = BrokerTopicMatch (Some f) t"
  unfolding BrokerTopicMatch_def prod.case option.case XSTREQ_refl_copy [unfolded XSTREQ_def] ..

lemma destinations_iff:
  assumes "subs_inv h i (b, bc)"
  shows "(g, e) \<in> set (destinations cl ms (br_subs b)) \<longleftrightarrow> bc_level (cl g) \<noteq> 0 \<and> bc_connected (cl g) \<noteq> 0 \<and>
    (\<exists>f q. subs_map b (g, f) = Some q \<and> BrokerTopicMatch (Some (f @ [0])) (Some (ms_topic ms)) \<and> e = min_qos (ms_qos ms) q)"
proof -
  have ok: "\<forall>s \<in> set (br_subs b). \<exists>f. bs_filter s = Some f" using assms by (auto simp: subs_inv_def sub_ok_def split: option.splits)
  show ?thesis unfolding subs_map_iff [OF assms]
  proof
    assume "(g, e) \<in> set (destinations cl ms (br_subs b))"
    then obtain s where s: "s \<in> set (br_subs b)" "online cl s" "sub_matches (ms_topic ms) s" "g = the (bs_client s)" "e = min_qos (ms_qos ms) (bs_qos s)"
      by (auto simp: destinations_def)
    then obtain f where f: "bs_filter s = Some f" using ok by blast
    have c: "bs_client s = Some g" using s(2,4) by (auto simp: online_def split: option.splits)
    have "sub_key s = (Some g, cstr_bytes f)" by (simp add: sub_key_def c f)
    moreover have "BrokerTopicMatch (Some (cstr_bytes f @ [0])) (Some (ms_topic ms))" using s(3) by (simp add: sub_matches_def f match_copy)
    ultimately show "bc_level (cl g) \<noteq> 0 \<and> bc_connected (cl g) \<noteq> 0 \<and> (\<exists>f q. (\<exists>s \<in> set (br_subs b). sub_key s = (Some g, f) \<and> bs_qos s = q) \<and>
        BrokerTopicMatch (Some (f @ [0])) (Some (ms_topic ms)) \<and> e = min_qos (ms_qos ms) q)"
      using s(1,2,5) by (auto simp: online_def c)
  next
    assume "bc_level (cl g) \<noteq> 0 \<and> bc_connected (cl g) \<noteq> 0 \<and> (\<exists>f q. (\<exists>s \<in> set (br_subs b). sub_key s = (Some g, f) \<and> bs_qos s = q) \<and>
        BrokerTopicMatch (Some (f @ [0])) (Some (ms_topic ms)) \<and> e = min_qos (ms_qos ms) q)"
    then obtain f s where a: "bc_level (cl g) \<noteq> 0" "bc_connected (cl g) \<noteq> 0" "s \<in> set (br_subs b)" "sub_key s = (Some g, f)"
      "BrokerTopicMatch (Some (f @ [0])) (Some (ms_topic ms))" "e = min_qos (ms_qos ms) (bs_qos s)" by blast
    then obtain f' where f': "bs_filter s = Some f'" using ok by blast
    have "bs_client s = Some g" "f = cstr_bytes f'" using a(4) f' by (auto simp: sub_key_def)
    then show "(g, e) \<in> set (destinations cl ms (br_subs b))"
      using a f' by (auto simp: destinations_def online_def sub_matches_def match_copy intro!: image_eqI [where x = s])
  qed
qed

section \<open>Duplicates\<close>

text \<open>What the publisher of a QoS 2 message reads when the handler reports no error: the PUBREC and nothing else.\<close>

definition pubrec_sent ::
  "('w \<Rightarrow> byte list \<Rightarrow> int \<Rightarrow> 'w \<times> int) \<Rightarrow> ('w \<Rightarrow> byte list) \<Rightarrow> 'w BrokerClient \<Rightarrow> word16 \<Rightarrow> 'w \<Rightarrow> 'w \<Rightarrow> int \<Rightarrow> bool" where
  "pubrec_sent f sent bc pid w w' rc \<longleftrightarrow> (rc \<ge> 0 \<longrightarrow> sent w' = sent w @ [0x50, 2] @ num_bytes pid) \<and>
     (takes_all f \<and> cl_packet_sz_max (bc_client bc) = 0 \<and> pid \<noteq> 0 \<longrightarrow> rc \<ge> 0)"

lemma send_rec_log:
  assumes l: "logs f sent" and r: "ready f room bc" "bc_direct_pending_len bc = 0"
  shows "returns (\<lambda>((w', H', bc'), rc'). pubrec_sent f sent bc pid w w' rc')
    (send_resp E (w, H, bc) 5 \<lparr>resp_packet_id = pid, resp_reason_code = 0, resp_props = None, resp_level = lv\<rparr>)"
proof -
  let ?r = "\<lparr>resp_packet_id = pid, resp_reason_code = 0, resp_props = None, resp_level = lv\<rparr>"
  have R: "cb_write (bc_client bc) = Some f" "sk_pos (cl_write (bc_client bc)) = 0" "length (bc_tx_buf bc) = room" "bc_tx_buf_len bc = int room" "5 \<le> room"
    using r by (simp_all add: ready_def)
  have flags: "resp_flags 5 = 0x50" by code_simp
  have src: "props_src H None" by (auto simp: props_src_def intro: exI [of _ "[]"])
  have reason: "MqttPacket_PublishRespReasonCodeValid 5 0" by code_simp
  have nil: "prop_list H None = []" by (simp add: prop_list_def props_val_def walk_chain)
  show ?thesis
  proof (cases "pid = 0")
    case True
    then have "\<exists>e. MqttEncode_PublishResp H (Some (bc_tx_buf bc)) (bc_tx_buf_len bc) 5 (Some ?r) = Err e"
      using MqttEncode_PublishResp_eq(2) [of H ?r "bc_tx_buf_len bc" "bc_tx_buf bc" 5] R src by (simp add: resp_ok_def)
    then show ?thesis using True by (auto simp: send_resp_def returns_def pubrec_sent_def not_le [THEN iffD2, OF err_code_neg])
  next
    case False
    let ?m = "splice_at (bc_tx_buf bc) 0 ([0x50, 2] @ num_bytes pid)"
    have enc: "MqttEncode_PublishResp H (Some (bc_tx_buf bc)) (bc_tx_buf_len bc) 5 (Some ?r) = Ok (?m, 4)"
      using MqttEncode_PublishResp_eq(1) [of H ?r "bc_tx_buf_len bc" "bc_tx_buf bc" 5] R flags src reason nil False
      by (simp add: resp_ok_def resp_body_def send_packet_def vbi_bytes_small num_bytes_def)
    have m: "length ?m = room" "take 4 ?m = [0x50, 2] @ num_bytes pid" using R by (simp_all add: splice_at_def num_bytes_def)
    obtain w' c' rc where wr: "MqttPacket_Write (env_nb E) (env_tick E) w (bc_client bc) (Some ?m) (int 4) = Ok (w', c', rc)"
      "rc = int 4 \<longrightarrow> sent w' = sent w @ take 4 ?m \<and> sk_pos (cl_write c') = 0"
      "takes_all f \<and> cl_packet_sz_max (bc_client bc) = 0 \<longrightarrow> rc = int 4"
      using packet_write_log [OF l R(1,2), of 4 ?m "env_nb E" "env_tick E" w] m(1) R(5) by auto
    have "send_resp E (w, H, bc) 5 ?r = Ok ((w', H, bc\<lparr>bc_tx_buf := ?m, bc_client := c', bc_direct_pending_len := (if rc = err_code CONTINUE then 4 else 0)\<rparr>),
        if rc = 4 \<or> rc = err_code CONTINUE then rc else err_code NETWORK)"
      using wr(1) r(2) by (simp add: send_resp_def enc BrokerClient_WriteResp_def BrokerClient_WriteDirect_def)
    then show ?thesis using wr(2,3) m(2) by (auto simp: returns_def pubrec_sent_def)
  qed
qed

text \<open>The effect of a duplicate: no table, no other client and no queue changes, and the publication is acknowledged.\<close>

definition only_acknowledged ::
  "('w \<Rightarrow> byte list \<Rightarrow> int \<Rightarrow> 'w \<times> int) \<Rightarrow> ('w \<Rightarrow> byte list) \<Rightarrow> handle \<Rightarrow> word16 \<Rightarrow> 'w broker_state \<Rightarrow> bool \<Rightarrow> 'w broker_state \<times> int \<Rightarrow> bool" where
  "only_acknowledged f sent h pid = (\<lambda>(w, H, b, cl) good ((w', H', b', cl'), rc).
     b' = b \<and> (\<forall>g. g \<noteq> h \<longrightarrow> cl' g = cl g) \<and> core (cl' h) = core (cl h) \<and> outq (cl' h) = outq (cl h) \<and>
     (rc \<ge> 0 \<longrightarrow> sent w' = sent w @ [0x50, 2] @ num_bytes pid) \<and>
     (takes_all f \<and> cl_packet_sz_max (bc_client (cl h)) = 0 \<and> pid \<noteq> 0 \<and> good \<longrightarrow> rc \<ge> 0))"

lemma acknowledge_log:
  assumes "logs f sent" "ready f room (cl h)" "bc_direct_pending_len (cl h) = 0" "qos pub = MQTT_QOS_2"
  shows "returns (only_acknowledged f sent h (packet_id pub) (w, H, b, cl) True)
     (bnd (acknowledge E pub (w, H, cl h) rc) (\<lambda>((w3, H3, bc3), rc'). Ok ((w3, H3, b, cl(h := bc3)), rc')))"
proof -
  have a: "acknowledge E pub (w, H, cl h) rc = send_resp E (w, H, cl h) 5
      \<lparr>resp_packet_id = packet_id pub, resp_reason_code = 0, resp_props = None, resp_level = bc_level (cl h)\<rparr>"
    using assms(4) by (simp add: acknowledge_def)
  show ?thesis unfolding a
    by (rule returns_seq [OF returns_conj [OF send_resp_frame send_rec_log [OF assms(1-3)]]])
       (auto simp: returns_Ok only_acknowledged_def pubrec_sent_def)
qed

lemma only_acknowledged_bad:
  "rc < 0 \<Longrightarrow> \<not> good \<Longrightarrow> core bc = core (cl h) \<Longrightarrow> outq bc = outq (cl h) \<Longrightarrow>
   only_acknowledged f sent h pid (w, H, b, cl) good ((w', H', b, cl(h := bc)), rc)"
  by (simp add: only_acknowledged_def)

lemma only_acknowledged_weaken: "only_acknowledged f sent h pid s True r \<Longrightarrow> only_acknowledged f sent h pid s good r"
  by (auto simp: only_acknowledged_def split: prod.splits)

section \<open>Properties\<close>

text \<open>C1: The broker keeps its invariant.  Whatever packets arrive, in whatever order clients come and go, and whatever the
  allocator, the clocks and the transport answer, every handler that returns leaves for each client a queue of at
  most 48 entries of which at most 16 are unacknowledged, with different packet identifiers, right counters and legal
  states, and at most 16 different unreleased QoS 2 identifiers; the same holds for the at most 64 offline sessions;
  and the at most 16 retained messages have different topics and are none of them marked as deleted.\<close>

theorem broker_reachable_inv:
  assumes "broker_step\<^sup>*\<^sup>* s t" "broker_inv s"
  shows "broker_inv t"
  using assms by (induction rule: rtranclp_induct) (auto intro: broker_step_inv)

text \<open>
  A subscriber with one unacknowledged message leaves; its session stays.
\<close>

theorem broker_reachable_inv_witness:
  "\<exists>b cl. broker_step\<^sup>*\<^sup>* ((), [], zero_broker, (\<lambda>_. zero_client)(1 := subscriber\<lparr>bc_client_id := Some [0x63, 0]\<rparr>)) ((), [], b, cl) \<and>
     br_orphan_count b = 1 \<and> map op_packet_id (os_out_q (hd (br_orphans b))) = [1] \<and> broker_inv ((), [], b, cl)"
proof -
  let ?bc = "subscriber\<lparr>bc_client_id := Some [0x63, 0]\<rparr>" and ?cl = "(\<lambda>_. zero_client)(1 := subscriber\<lparr>bc_client_id := Some [0x63, 0]\<rparr>)"
  define os where "os = \<lparr>os_client_id = [0x63, 0], os_level = 0, os_session_expiry_sec = 0, os_orphan_since = 7, os_out_q = [sent_entry],
      os_out_q_count = 1, os_out_q_inflight = 1, os_qos2_pending = [], os_qos2_pending_count = 0\<rparr>"
  have t: "BrokerSubs_OrphanClient (\<lambda>_. True) 7 1 [] zero_broker (?cl 1) =
      Ok ([], zero_broker\<lparr>br_orphans := [os], br_orphan_count := 1\<rparr>, zero_client\<lparr>bc_client_receive_max := 1, bc_client_id := Some [0x63, 0]\<rparr>)"
    by (simp add: BrokerSubs_OrphanClient_def BrokerOrphan_Take_def BrokerOrphan_Find_def drop_partial_def zero_broker_def subscriber_def
        zero_client_def zero_mqtt_client_def os_def cstr_bytes_def)
  have s: "broker_step\<^sup>*\<^sup>* ((), [], zero_broker, ?cl) ((), [], zero_broker\<lparr>br_orphans := [os], br_orphan_count := 1\<rparr>,
      ?cl(1 := zero_client\<lparr>bc_client_receive_max := 1, bc_client_id := Some [0x63, 0]\<rparr>))"
    by (rule r_into_rtranclp, rule broker_step.leave, rule t)
  have "client_ok (zero_client :: unit BrokerClient)" by (simp add: client_ok_def outq_inv_def qos2_inv_def zero_client_def)
  moreover have "client_ok ?bc"
    by (simp add: client_ok_def outq_inv_def queue_ok_def inflight_of_def live_ids_def entry_ok_def demo_defs less_MqttQoS_def qos2_inv_def)
  ultimately have "broker_inv ((), [], zero_broker, ?cl)"
    by (simp add: broker_inv_def tables_ok_def orphans_ok_def retained_inv_def zero_broker_def)
  from broker_reachable_inv [OF s this] s show ?thesis
    by (intro exI conjI) (assumption | simp add: os_def sent_entry_def)+
qed

text \<open>C2: A publication reaches exactly the subscribers.  When the list of destinations can grow, a client gets a message
  with a QoS just when it is connected and has a subscription whose filter matches the topic, the QoS being the lower
  one of publication and subscription.\<close>

theorem publish_served:
  assumes "subs_inv h i (b, bc)" "collect E cl ms 0 (br_subs b) (H, b, BrokerFanout_Init BROKER_FANOUT_STACK_TARGETS) = Ok (H', b', fl)"
    and "(\<forall>k. env_malloc E [3, k]) \<or> length (br_subs b) \<le> BROKER_FANOUT_STACK_TARGETS"
  shows "(g, e) \<in> set (fl_items fl) \<longleftrightarrow> bc_level (cl g) \<noteq> 0 \<and> bc_connected (cl g) \<noteq> 0 \<and>
    (\<exists>f q. subs_map b (g, f) = Some q \<and> BrokerTopicMatch (Some (f @ [0])) (Some (ms_topic ms)) \<and> e = min_qos (ms_qos ms) q)"
proof -
  let ?fl = "BrokerFanout_Init BROKER_FANOUT_STACK_TARGETS" and ?ds = "destinations cl ms (br_subs b)"
  have "length ?ds \<le> length (br_subs b)" by (simp add: destinations_def)
  moreover have "grows (\<forall>k. env_malloc E [3, k]) ?ds ?fl fl"
    using returnsD [OF collect_grows assms(2)] by (auto simp: BrokerFanout_Init_def)
  ultimately have "fl_items fl = ?ds" using assms(3) by (auto simp: grows_def BrokerFanout_Init_def)
  then show ?thesis using destinations_iff [OF assms(1)] by simp
qed

text \<open>C3: A retransmitted QoS 2 publication has no effect but its acknowledgement.  When the identifier of the publication
  is among those the client has not released, the handler leaves the subscriptions, the retained messages, the offline
  sessions and every other client as they are, and changes neither the queue nor the session of the publisher.  When it
  reports no error, it has put exactly the PUBREC with the identifier on the wire; and it reports no error when there is
  memory for the topic, the payload is complete, the properties are not refused and the transport takes the PUBREC.\<close>

theorem publish_duplicate:
  assumes "MqttDecode_Publish H (Some (bc_rx_buf (cl h))) n (Some (zero_message (bc_level (cl h)))) = ((H1, Some pub), Ok rc)"
    and "qos pub = MQTT_QOS_2" "qos2_inv (cl h)" "packet_id pub \<in> qos2_ids (cl h)"
    and "logs f sent" "ready f room (cl h)" "bc_direct_pending_len (cl h) = 0" "rc \<ge> 0"
    and "BrokerHandle_Publish E h (w, H, b, cl) n = Ok ((w', H', b', cl'), rc')"
  shows "b' = b \<and> (\<forall>g. g \<noteq> h \<longrightarrow> cl' g = cl g) \<and> core (cl' h) = core (cl h) \<and> outq (cl' h) = outq (cl h) \<and>
    (rc' \<ge> 0 \<longrightarrow> sent w' = sent w @ [0x50, 2] @ num_bytes (packet_id pub)) \<and>
    (takes_all f \<and> cl_packet_sz_max (bc_client (cl h)) = 0 \<and> packet_id pub \<noteq> 0 \<and> env_malloc E [7] \<and>
       props_refused (cl h) H1 pub = Ok None \<and> \<not> (total_len pub > 0 \<and> buffer_len pub < total_len pub) \<longrightarrow> rc' \<ge> 0)"
proof -
  define good where "good \<longleftrightarrow> env_malloc E [7] \<and> props_refused (cl h) H1 pub = Ok None \<and> \<not> (total_len pub > 0 \<and> buffer_len pub < total_len pub)"
  let ?Q = "only_acknowledged f sent h (packet_id pub) (w, H1, b, cl) good"
  have v: "qos2_verdict BrokerInboundQos2_Contains (BrokerInboundQos2_Add m) (cl h) (packet_id pub) = (cl h, Duplicate)" for m
    using qos2.contains_iff [OF assms(3)] assms(4) by (simp add: qos2_verdict_def)
  have ack: "returns ?Q (bnd (acknowledge E pub (w, H1, cl h) rc) (\<lambda>((w3, H3, bc3), rc'). Ok ((w3, H3, b, cl(h := bc3)), rc')))"
    by (rule returns_weaken [OF acknowledge_log [where cl = cl and h = h, OF assms(5,6,7,2)] only_acknowledged_weaken])
  have dist: "returns ?Q (distribute E h pub True rc (w, H1, b, cl))"
    unfolding distribute_def prod.case
    by (intro returns_option returns_if returns_basic)
       (use ack only_acknowledged_bad [of _ good "cl h" cl h] in \<open>auto simp: good_def\<close>)
  have d: "returns (\<lambda>(w', bc', rc). core bc' = core (cl h) \<and> outq bc' = outq (cl h)) (BrokerSend_Disconnect nb tick w H1 (cl h) reason)"
    for nb tick reason by (rule disconnect_frame)
  have "returns ?Q (handle_message E h rc pub (w, H1, b, cl))"
    unfolding handle_message_def prod.case v verdict.case fun_upd_triv assms(2) if_P [OF refl]
  proof (rule returns_bnd, rule returns_option, goal_cases)
    case (1 x)
    show ?case using only_acknowledged_bad [of _ good "cl h" cl h] dist by (auto simp: returns_Ok good_def)
  next
    case (2 x reason)
    then show ?case by (intro returns_seq [OF d]) (auto simp: returns_Ok good_def intro!: only_acknowledged_bad)
  qed
  then show ?thesis using assms(1,8,9) unfolding BrokerHandle_Publish_def prod.case good_def only_acknowledged_def
    by (auto simp: bnd_Ok_iff returns_def split: if_splits)
qed

lemma holds_nil: "holds H H' h [] \<Longrightarrow> H' = H \<and> h = None"
  by (auto simp: holds_def live_list_def props_val_def intro: nth_equalityI)

lemma dup_packet:
  "\<exists>pub. MqttDecode_Publish (replicate 30 zero_prop) (Some [0x34, 5, 0, 1, 0x61, 0, 9]) 7 (Some (zero_message 4)) = ((replicate 30 zero_prop, Some pub), Ok 7) \<and>
     qos pub = MQTT_QOS_2 \<and> packet_id pub = 9 \<and> topic_name pub = Some [0x61] \<and> topic_name_len pub = 1 \<and> total_len pub = 0 \<and> msg_props pub = None"
proof -
  have u: "publish_ok 4 MQTT_QOS_2 0 9 [0x61] []" "type_flags 3 0 2 0 = 0x34"
    subgoal using hello_msg_facts(13) by (simp add: publish_ok_def)
    subgoal by code_simp
    done
  have h: "publish_hdr 4 MQTT_QOS_2 9 [0x61] [] = [0, 1, 0x61, 0, 9]"
    by (simp add: publish_hdr_def str_bytes_def num_bytes_def qos_gt_0)
  have L: "live_list (replicate 30 zero_prop) None []" by (simp add: live_list_def)
  have z: "msg_level (zero_message 4) = 4" by (simp add: zero_message_def)
  show ?thesis
    using MqttDecode_Publish_complete [of "[0x34, 5, 0, 1, 0x61, 0, 9]" 7 "replicate 30 zero_prop" "[]" "zero_message 4" MQTT_QOS_2 0 9 "[0x61]" 5 0 0]
    by (auto simp: rx_ok_def L z u h vbi_bytes_small blk_def dest!: holds_nil)
qed

definition dup_client :: "byte list BrokerClient" where
  "dup_client = zero_client\<lparr>bc_tx_buf := [0, 0, 0, 0, 0, 0, 0, 0], bc_tx_buf_len := 8, bc_rx_buf := [0x34, 5, 0, 1, 0x61, 0, 9], bc_level := 4,
     bc_qos2_pending := [9], bc_qos2_pending_count := 1,
     bc_client := zero_mqtt_client\<lparr>cl_net := Some \<lparr>net_connect = None, net_read = None, net_write = Some keep_bytes, net_disconnect = None\<rparr>\<rparr>\<rparr>"

definition dup_env :: "byte list env" where
  "dup_env = \<lparr>env_nb = True, env_tick = 0, env_now = (\<lambda>_. 0), env_close = (\<lambda>w s. w), env_malloc = (\<lambda>_. True)\<rparr>"

lemma dup_client_facts:
  "ready keep_bytes 8 dup_client" "cl_packet_sz_max (bc_client dup_client) = 0" "bc_direct_pending_len dup_client = 0"
  "bc_rx_buf dup_client = [0x34, 5, 0, 1, 0x61, 0, 9]" "bc_level dup_client = 4" "qos2_ids dup_client = {9}" "qos2_inv dup_client"
  by (simp_all add: dup_client_def zero_client_def zero_mqtt_client_def ready_def cb_write_def qos2_ids_def qos2_inv_def)

lemma dup_resp:
  "\<exists>bc w'. send_resp dup_env ([], H, dup_client) 5 \<lparr>resp_packet_id = 9, resp_reason_code = 0, resp_props = None, resp_level = 4\<rparr> = Ok ((w', H, bc), 4)"
proof -
  let ?r = "\<lparr>resp_packet_id = 9, resp_reason_code = 0, resp_props = None, resp_level = 4\<rparr>"
  have "resp_flags 5 = 0x50" by code_simp
  moreover have "props_src H None" by (auto simp: props_src_def intro: exI [of _ "[]"])
  ultimately have e: "MqttEncode_PublishResp H (Some [0, 0, 0, 0, 0, 0, 0, 0]) 8 5 (Some ?r) = Ok ([0x50, 2, 0, 9, 0, 0, 0, 0], 4)"
    using MqttEncode_PublishResp_eq(1) [of H ?r 8 "[0, 0, 0, 0, 0, 0, 0, 0]" 5]
    by (simp add: resp_ok_def resp_body_def send_packet_def num_bytes_def vbi_bytes_small splice_at_def)
  show ?thesis
    by (simp add: send_resp_def e dup_client_def dup_env_def zero_client_def zero_mqtt_client_def BrokerClient_WriteResp_def BrokerClient_WriteDirect_def
        MqttPacket_Write_def MqttSocket_Write_def write_once_def MqttSocket_WriteDo_def cb_write_def sk_step_def MqttPacket_HandleNetError_def rdn_def blk_def keep_bytes_def)
qed

theorem publish_duplicate_witness:
  "\<exists>H' cl' rc'. BrokerHandle_Publish dup_env 1 ([], replicate 30 zero_prop, zero_broker, \<lambda>_. dup_client) 7 =
     Ok (([0x50, 2, 0, 9], H', zero_broker, cl'), rc') \<and> rc' \<ge> 0 \<and> cl' 2 = dup_client \<and> outq (cl' 1) = outq dup_client"
proof -
  let ?H = "replicate 30 zero_prop" and ?cl = "\<lambda>_ :: handle. dup_client"
  note c = dup_client_facts
  obtain pub where pub: "MqttDecode_Publish ?H (Some [0x34, 5, 0, 1, 0x61, 0, 9]) 7 (Some (zero_message 4)) = ((?H, Some pub), Ok 7)"
    "qos pub = MQTT_QOS_2" "packet_id pub = 9" "topic_name pub = Some [0x61]" "topic_name_len pub = 1" "total_len pub = 0" "msg_props pub = None"
    using dup_packet by blast
  obtain bc w1 where bc: "send_resp dup_env ([], ?H, dup_client) 5 \<lparr>resp_packet_id = 9, resp_reason_code = 0, resp_props = None, resp_level = 4\<rparr> = Ok ((w1, ?H, bc), 4)"
    using dup_resp by blast
  have v: "qos2_verdict BrokerInboundQos2_Contains (BrokerInboundQos2_Add m) dup_client 9 = (dup_client, Duplicate)" for m
    using qos2.contains_iff [OF c(7), of 9] c(6) by (simp add: qos2_verdict_def)
  have r: "BrokerHandle_Publish dup_env 1 ([], ?H, zero_broker, ?cl) 7 = Ok ((w1, ?H, zero_broker, ?cl(1 := bc)), 4)"
    unfolding BrokerHandle_Publish_def prod.case c pub(1)
    by (simp add: handle_message_def props_refused_def c pub(2-) v distribute_def acknowledge_def bc free_props_def dup_env_def [THEN arg_cong [where f = env_malloc]])
  have d: "MqttDecode_Publish ?H (Some (bc_rx_buf (?cl 1))) 7 (Some (zero_message (bc_level (?cl 1)))) = ((?H, Some pub), Ok 7)"
    unfolding c by (rule pub(1))
  have i: "qos2_inv (?cl 1)" "packet_id pub \<in> qos2_ids (?cl 1)" by (simp_all add: c pub)
  have "w1 = [0x50, 2, 0, 9] \<and> outq ((?cl(1 := bc)) 1) = outq dup_client"
    using publish_duplicate [OF d pub(2) i keep_bytes_log(1) c(1,3) _ r] pub(3) by (simp add: num_bytes_def)
  then show ?thesis using r by auto
qed

definition demo_subs :: Broker where
  "demo_subs = zero_broker\<lparr>br_subs := [\<lparr>bs_filter = Some [0x61, 0], bs_client_id = None, bs_client = Some 2, bs_qos = MQTT_QOS_0\<rparr>,
     \<lparr>bs_filter = Some [0x62, 0], bs_client_id = None, bs_client = Some 3, bs_qos = MQTT_QOS_2\<rparr>]\<rparr>"

theorem publish_served_witness:
  "\<exists>H' b' fl. collect dup_env (\<lambda>_. dup_client\<lparr>bc_connected := 1\<rparr>) \<lparr>ms_topic = [0x61, 0], ms_payload = None, ms_len = 0, ms_qos = MQTT_QOS_1, ms_props = None\<rparr> 0
       (br_subs demo_subs) ([], demo_subs, BrokerFanout_Init 16) = Ok (H', b', fl) \<and> (2, MQTT_QOS_0) \<in> set (fl_items fl)"
proof -
  let ?cl = "\<lambda>_ :: handle. dup_client\<lparr>bc_connected := 1\<rparr>"
    and ?ms = "\<lparr>ms_topic = [0x61, 0], ms_payload = None, ms_len = 0, ms_qos = MQTT_QOS_1, ms_props = None\<rparr>"
  have c: "bc_level dup_client = 4" "sub_matches [0x61, 0] \<lparr>bs_filter = Some [0x61, 0], bs_client_id = None, bs_client = Some 2, bs_qos = MQTT_QOS_0\<rparr>"
    "\<not> sub_matches [0x61, 0] \<lparr>bs_filter = Some [0x62, 0], bs_client_id = None, bs_client = Some 3, bs_qos = MQTT_QOS_2\<rparr>"
    by (simp_all add: dup_client_def sub_matches_def BrokerTopicMatch_def cstr_bytes_def starts_def match_step_def match_end_def match_loop.simps)
  obtain fl where r: "collect dup_env ?cl ?ms 0 (br_subs demo_subs) ([], demo_subs, BrokerFanout_Init 16) = Ok ([], demo_subs, fl)"
    by (simp add: demo_subs_def online_def c Let_def)
  have inv: "subs_inv 1 False (demo_subs, zero_client :: unit BrokerClient)"
    by (simp add: subs_inv_def demo_subs_def zero_broker_def zero_client_def sub_ok_def sub_key_def cstr_bytes_def XSTRLEN_def)
  have m: "subs_map demo_subs (2, [0x61]) = Some MQTT_QOS_0"
    by (simp add: subs_map_def demo_subs_def sub_key_def cstr_bytes_def)
  have "(\<forall>k. env_malloc dup_env [3, k]) \<or> length (br_subs demo_subs) \<le> 16" by (simp add: dup_env_def)
  from publish_served [OF inv r this, of 2 MQTT_QOS_0] r c(1,2) m show ?thesis
    by (fastforce simp: sub_matches_def min_qos_def less_MqttQoS_def intro!: exI [of _ "[0x61]"])
qed

end
