(* ===== verification/Persist_Record.thy ===== *)
theory Persist_Record
  imports Broker_Session Broker_Retained
begin

text \<open>
  The records of the persistence layer, \<^verbatim>\<open>src/mqtt_broker_persist.c\<close>, in the build with dynamic memory and without
  encryption: integers in network order, the header of twelve bytes, the calls that commit and delete a record
  through the hooks of the application, and the shadow writes \<^verbatim>\<open>BrokerPersist_Put*\<close> and \<^verbatim>\<open>BrokerPersist_Del*\<close>.

  The backend is code of the application: its hooks are the components of the record \<open>hooks\<close>, functions on the
  contents \<open>'k\<close> of the backend, each of which may be absent.  A key and a blob reach a hook as the bytes their
  lengths announce.  A block from the allocator holds the bytes \<open>junk\<close>; whether there is one is an argument.
\<close>

section \<open>Constants and hooks\<close>

abbreviation (input) "SCHEMA_VER \<equiv> (5 :: word16)"
abbreviation (input) "WMQB_WRAP_MODE \<equiv> (0 :: byte)"
abbreviation (input) "WMQB_HDR_LEN \<equiv> (12 :: nat)"
abbreviation (input) "WMQB_SESSION_FLAG_EXPIRY_VALID \<equiv> (1 :: byte)"

abbreviation (input) "NS_META \<equiv> (1 :: byte)"
abbreviation (input) "NS_SESSION \<equiv> (2 :: byte)"
abbreviation (input) "NS_SUBS \<equiv> (3 :: byte)"
abbreviation (input) "NS_RETAINED \<equiv> (4 :: byte)"
abbreviation (input) "NS_OUTQ \<equiv> (5 :: byte)"

text \<open>
  \<^verbatim>\<open>kv_iter\<close> presents records, in an order of its own, until the callback stops it; it returns one code after the
  last record and one after a stop.  \<^verbatim>\<open>kv_get\<close> returns a code and the bytes it puts into the buffer.
\<close>

record iteration =
  it_records :: "(mem \<times> mem) list"
  it_rc :: int
  it_stop_rc :: int

record 'k hooks =
  kv_put :: "('k \<Rightarrow> byte \<Rightarrow> mem \<Rightarrow> mem \<Rightarrow> 'k \<times> int) option"
  kv_get :: "('k \<Rightarrow> byte \<Rightarrow> mem \<Rightarrow> nat \<Rightarrow> mem \<times> int) option"
  kv_del :: "('k \<Rightarrow> byte \<Rightarrow> mem \<Rightarrow> 'k \<times> int) option"
  kv_iter :: "('k \<Rightarrow> byte \<Rightarrow> iteration) option"
  sync :: "('k \<Rightarrow> 'k \<times> int) option"

definition run_sync :: "'k hooks \<Rightarrow> 'k \<Rightarrow> 'k" where
  "run_sync h k = (case sync h of None \<Rightarrow> k | Some s \<Rightarrow> fst (s k))"

definition wmqb_kv_put_commit ::
  "'k hooks option \<Rightarrow> 'k \<Rightarrow> byte \<Rightarrow> mem \<Rightarrow> word16 \<Rightarrow> mem \<Rightarrow> word32 \<Rightarrow> ('k \<times> int) outcome" where
  "wmqb_kv_put_commit persist k ns key key_len blob blob_len =
     (case persist of None \<Rightarrow> Ok (k, 0) | Some h \<Rightarrow>
      (case kv_put h of None \<Rightarrow> Ok (k, 0) | Some kput \<Rightarrow>
        bnd (rdn key 0 (unat key_len)) (\<lambda>kb.
        bnd (rdn blob 0 (unat blob_len)) (\<lambda>bb.
          case kput k ns kb bb of (k1, rc) \<Rightarrow> Ok (if rc = 0 then run_sync h k1 else k1, rc)))))"

definition wmqb_kv_del_commit :: "'k hooks option \<Rightarrow> 'k \<Rightarrow> byte \<Rightarrow> mem \<Rightarrow> word16 \<Rightarrow> ('k \<times> int) outcome" where
  "wmqb_kv_del_commit persist k ns key key_len =
     (case persist of None \<Rightarrow> Ok (k, 0) | Some h \<Rightarrow>
      (case kv_del h of None \<Rightarrow> Ok (k, 0) | Some del \<Rightarrow>
        bnd (rdn key 0 (unat key_len)) (\<lambda>kb.
          case del k ns kb of (k1, rc) \<Rightarrow> Ok (if rc = 0 then run_sync h k1 else k1, rc))))"

section \<open>Integers\<close>

text \<open>The bytes a writer stores, and the readers.\<close>

definition wmqb_w_u16 :: "word16 \<Rightarrow> mem" where
  "wmqb_w_u16 v = [ucast (drop_bit 8 v AND 0xFF), ucast (v AND 0xFF)]"

definition wmqb_w_u32 :: "word32 \<Rightarrow> mem" where
  "wmqb_w_u32 v = [ucast (drop_bit 24 v AND 0xFF), ucast (drop_bit 16 v AND 0xFF), ucast (drop_bit 8 v AND 0xFF), ucast (v AND 0xFF)]"

definition wmqb_w_u64 :: "word64 \<Rightarrow> mem" where
  "wmqb_w_u64 v =
     [ucast (drop_bit 56 v AND 0xFF), ucast (drop_bit 48 v AND 0xFF), ucast (drop_bit 40 v AND 0xFF), ucast (drop_bit 32 v AND 0xFF),
      ucast (drop_bit 24 v AND 0xFF), ucast (drop_bit 16 v AND 0xFF), ucast (drop_bit 8 v AND 0xFF), ucast (v AND 0xFF)]"

definition wmqb_r_u16 :: "mem \<Rightarrow> nat \<Rightarrow> word16 outcome" where
  "wmqb_r_u16 m p =
     bnd (rd m p) (\<lambda>b0. bnd (rd m (p + 1)) (\<lambda>b1. Ok (push_bit 8 (ucast b0) OR ucast b1)))"

definition wmqb_r_u32 :: "mem \<Rightarrow> nat \<Rightarrow> word32 outcome" where
  "wmqb_r_u32 m p =
     bnd (rd m p) (\<lambda>b0. bnd (rd m (p + 1)) (\<lambda>b1. bnd (rd m (p + 2)) (\<lambda>b2. bnd (rd m (p + 3)) (\<lambda>b3.
       Ok (push_bit 24 (ucast b0) OR push_bit 16 (ucast b1) OR push_bit 8 (ucast b2) OR ucast b3)))))"

definition wmqb_r_u64 :: "mem \<Rightarrow> nat \<Rightarrow> word64 outcome" where
  "wmqb_r_u64 m p =
     bnd (rd m p) (\<lambda>b0. bnd (rd m (p + 1)) (\<lambda>b1. bnd (rd m (p + 2)) (\<lambda>b2. bnd (rd m (p + 3)) (\<lambda>b3.
     bnd (rd m (p + 4)) (\<lambda>b4. bnd (rd m (p + 5)) (\<lambda>b5. bnd (rd m (p + 6)) (\<lambda>b6. bnd (rd m (p + 7)) (\<lambda>b7.
       Ok (push_bit 56 (ucast b0) OR push_bit 48 (ucast b1) OR push_bit 40 (ucast b2) OR push_bit 32 (ucast b3) OR
           push_bit 24 (ucast b4) OR push_bit 16 (ucast b5) OR push_bit 8 (ucast b6) OR ucast b7)))))))))"

text \<open>A run of stores, each behind the one before.\<close>

fun wr_run :: "mem \<Rightarrow> nat \<Rightarrow> mem list \<Rightarrow> mem outcome" where
  "wr_run m p [] = Ok m"
| "wr_run m p (bs # rest) = bnd (wr m p bs) (\<lambda>m'. wr_run m' (p + length bs) rest)"

definition wmqb_write_header :: "mem \<Rightarrow> byte \<Rightarrow> word32 \<Rightarrow> mem outcome" where
  "wmqb_write_header buf rec_kind body_len =
     wr_run buf 0 [[0x57], [0x4D], [0x51], [0x42], wmqb_w_u16 SCHEMA_VER, [rec_kind AND 0xFF], [WMQB_WRAP_MODE], wmqb_w_u32 body_len]"

definition wmqb_read_header :: "mem \<Rightarrow> word32 \<Rightarrow> byte \<Rightarrow> word32 outcome" where
  "wmqb_read_header buf buf_len expect_kind =
     (if buf_len < 12 then Err MALFORMED_DATA
      else
        bnd (rdn buf 0 4) (\<lambda>magic.
        if magic \<noteq> [0x57, 0x4D, 0x51, 0x42] then Err MALFORMED_DATA
        else
          bnd (wmqb_r_u16 buf 4) (\<lambda>ver.
          if ver \<noteq> SCHEMA_VER then Err BAD_ARG
          else
            bnd (rd buf 6) (\<lambda>kind.
            if kind \<noteq> expect_kind AND 0xFF then Err BAD_ARG
            else
              bnd (rd buf 7) (\<lambda>wrap.
              if wrap \<noteq> WMQB_WRAP_MODE then Err BAD_ARG
              else
                bnd (wmqb_r_u32 buf 8) (\<lambda>body_len.
                if body_len > buf_len - 12 then Err MALFORMED_DATA else Ok body_len))))))"

text \<open>The block for a record of \<open>rec_len\<close> bytes with the header and the stores behind it.\<close>

definition new_record :: "(nat \<Rightarrow> byte) \<Rightarrow> byte \<Rightarrow> word32 \<Rightarrow> word32 \<Rightarrow> mem list \<Rightarrow> mem outcome" where
  "new_record junk rec_kind body_len rec_len parts =
     bnd (wmqb_write_header (map junk [0..<unat rec_len]) rec_kind body_len) (\<lambda>buf. wr_run buf WMQB_HDR_LEN parts)"

section \<open>Sessions\<close>

definition wmqb_put_session_record ::
  "'k hooks option \<Rightarrow> bool \<Rightarrow> (nat \<Rightarrow> byte) \<Rightarrow> 'k \<Rightarrow> cstr \<Rightarrow> word16 \<Rightarrow> byte \<Rightarrow> word32 \<Rightarrow> word64 \<Rightarrow> ('k \<times> int) outcome" where
  "wmqb_put_session_record persist malloc junk k cid cid_len level session_expiry_sec orphan_since =
     (let body_len = 1 + 1 + 4 + 8 + 2 + ucast cid_len; rec_len = 12 + body_len in
      if \<not> malloc then Ok (k, err_code MEMORY)
      else
        bnd (rdn cid 0 (unat cid_len)) (\<lambda>id.
        bnd (new_record junk NS_SESSION body_len rec_len
               [[level], [WMQB_SESSION_FLAG_EXPIRY_VALID], wmqb_w_u32 session_expiry_sec, wmqb_w_u64 orphan_since,
                wmqb_w_u16 cid_len, id]) (\<lambda>buf.
          wmqb_kv_put_commit persist k NS_SESSION cid cid_len buf rec_len)))"

definition BrokerPersist_PutSession ::
  "'k hooks option \<Rightarrow> bool \<Rightarrow> (nat \<Rightarrow> byte) \<Rightarrow> 'k \<Rightarrow> 'w BrokerClient \<Rightarrow> ('k \<times> int) outcome" where
  "BrokerPersist_PutSession persist malloc junk k bc =
     (case (persist, bc_client_id bc) of
        (Some h, Some cid) \<Rightarrow>
          if XSTRLEN cid = 0 \<or> bc_session_expiry_sec bc = 0 then Ok (k, 0)
          else wmqb_put_session_record persist malloc junk k cid (word_of_nat (XSTRLEN cid)) (bc_level bc) (bc_session_expiry_sec bc) 0
      | _ \<Rightarrow> Ok (k, 0))"

definition BrokerPersist_PutOrphanSession ::
  "'k hooks option \<Rightarrow> bool \<Rightarrow> (nat \<Rightarrow> byte) \<Rightarrow> 'k \<Rightarrow> cstr option \<Rightarrow> byte \<Rightarrow> word32 \<Rightarrow> word64 \<Rightarrow> ('k \<times> int) outcome" where
  "BrokerPersist_PutOrphanSession persist malloc junk k client_id level session_expiry_sec orphan_since =
     (case (persist, client_id) of
        (Some h, Some cid) \<Rightarrow>
          if XSTRLEN cid = 0 then Ok (k, 0)
          else wmqb_put_session_record persist malloc junk k cid (word_of_nat (XSTRLEN cid)) level session_expiry_sec orphan_since
      | _ \<Rightarrow> Ok (k, 0))"

definition BrokerPersist_DelSession :: "'k hooks option \<Rightarrow> 'k \<Rightarrow> cstr option \<Rightarrow> ('k \<times> int) outcome" where
  "BrokerPersist_DelSession persist k client_id =
     (case (persist, client_id) of
        (Some h, Some cid) \<Rightarrow> wmqb_kv_del_commit persist k NS_SESSION cid (word_of_nat (XSTRLEN cid))
      | _ \<Rightarrow> Ok (k, 0))"

section \<open>Subscriptions\<close>

text \<open>The subscriptions a walk for the client stops at; the first pass adds up their sizes, the second stores them.\<close>

definition sub_of :: "cstr \<Rightarrow> BrokerSub \<Rightarrow> bool" where
  "sub_of cid s \<longleftrightarrow> (case (bs_client_id s, bs_filter s) of (Some d, Some f) \<Rightarrow> XSTREQ d cid | _ \<Rightarrow> False)"

fun subs_size :: "cstr \<Rightarrow> BrokerSub list \<Rightarrow> word16 \<Rightarrow> word32 \<Rightarrow> word16 \<times> word32" where
  "subs_size cid [] count body_len = (count, body_len)"
| "subs_size cid (s # rest) count body_len =
     (if sub_of cid s
      then subs_size cid rest (count + 1) (body_len + (1 + 1 + 2 + word_of_nat (XSTRLEN (the (bs_filter s)))))
      else subs_size cid rest count body_len)"

fun subs_write :: "cstr \<Rightarrow> BrokerSub list \<Rightarrow> mem \<Rightarrow> nat \<Rightarrow> mem outcome" where
  "subs_write cid [] buf p = Ok buf"
| "subs_write cid (s # rest) buf p =
     (if sub_of cid s
      then
        let f = the (bs_filter s); flen = word_of_nat (XSTRLEN f) :: word16 in
        bnd (rdn f 0 (unat flen)) (\<lambda>fb.
        bnd (wr_run buf p [[qos_code (bs_qos s)], [0], wmqb_w_u16 flen, fb]) (\<lambda>buf'.
          subs_write cid rest buf' (p + 4 + unat flen)))
      else subs_write cid rest buf p)"

definition BrokerPersist_PutSubs ::
  "'k hooks option \<Rightarrow> bool \<Rightarrow> (nat \<Rightarrow> byte) \<Rightarrow> 'k \<Rightarrow> Broker \<Rightarrow> cstr option \<Rightarrow> ('k \<times> int) outcome" where
  "BrokerPersist_PutSubs persist malloc junk k b client_id =
     (case (persist, client_id) of
        (Some h, Some cid) \<Rightarrow>
          if XSTRLEN cid = 0 then Ok (k, 0)
          else if XSTRLEN cid > 65535 then Ok (k, err_code OUT_OF_BUFFER)
          else
            (case subs_size cid (br_subs b) 0 2 of (count, body_len) \<Rightarrow>
             if count = 0 then wmqb_kv_del_commit persist k NS_SUBS cid (word_of_nat (XSTRLEN cid))
             else if \<not> malloc then Ok (k, err_code MEMORY)
             else
               bnd (new_record junk NS_SUBS body_len (12 + body_len) [wmqb_w_u16 count]) (\<lambda>buf.
               bnd (subs_write cid (br_subs b) buf (WMQB_HDR_LEN + 2)) (\<lambda>buf'.
                 wmqb_kv_put_commit persist k NS_SUBS cid (word_of_nat (XSTRLEN cid)) buf' (12 + body_len))))
      | _ \<Rightarrow> Ok (k, 0))"

definition BrokerPersist_DelSubs :: "'k hooks option \<Rightarrow> 'k \<Rightarrow> cstr option \<Rightarrow> ('k \<times> int) outcome" where
  "BrokerPersist_DelSubs persist k client_id =
     (case (persist, client_id) of
        (Some h, Some cid) \<Rightarrow> wmqb_kv_del_commit persist k NS_SUBS cid (word_of_nat (XSTRLEN cid))
      | _ \<Rightarrow> Ok (k, 0))"

section \<open>Retained messages\<close>

text \<open>
  The last store of a record with a payload is left out when there is none; the bytes of the block then stay as
  the allocator gave them.
\<close>

definition payload_part :: "mem option \<Rightarrow> word32 \<Rightarrow> mem list outcome" where
  "payload_part payload payload_len =
     (case payload of
        Some d \<Rightarrow> if payload_len > 0 then bnd (rdn d 0 (unat payload_len)) (\<lambda>bs. Ok [bs]) else Ok []
      | None \<Rightarrow> Ok [])"

definition BrokerPersist_PutRetained ::
  "'k hooks option \<Rightarrow> bool \<Rightarrow> (nat \<Rightarrow> byte) \<Rightarrow> 'k \<Rightarrow> BrokerRetainedMsg \<Rightarrow> ('k \<times> int) outcome" where
  "BrokerPersist_PutRetained persist malloc junk k rm =
     (case (persist, rm_topic rm) of
        (Some h, Some topic) \<Rightarrow>
          if XSTRLEN topic = 0 then Ok (k, 0)
          else
            let topic_len = word_of_nat (XSTRLEN topic) :: word16; payload_len = rm_payload_len rm;
                body_len = 1 + 1 + 8 + 4 + 2 + ucast topic_len + 4 + payload_len; rec_len = 12 + body_len in
            if \<not> malloc then Ok (k, err_code MEMORY)
            else
              bnd (rdn topic 0 (unat topic_len)) (\<lambda>t.
              bnd (payload_part (rm_payload rm) payload_len) (\<lambda>pl.
              bnd (new_record junk NS_RETAINED body_len rec_len
                     ([[qos_code (rm_qos rm)], [0], wmqb_w_u64 (rm_store_time rm), wmqb_w_u32 (rm_expiry_sec rm),
                       wmqb_w_u16 topic_len, t, wmqb_w_u32 payload_len] @ pl)) (\<lambda>buf.
                wmqb_kv_put_commit persist k NS_RETAINED topic topic_len buf rec_len)))
      | _ \<Rightarrow> Ok (k, 0))"

definition BrokerPersist_DelRetained :: "'k hooks option \<Rightarrow> 'k \<Rightarrow> cstr option \<Rightarrow> ('k \<times> int) outcome" where
  "BrokerPersist_DelRetained persist k topic =
     (case (persist, topic) of
        (Some h, Some t) \<Rightarrow> wmqb_kv_del_commit persist k NS_RETAINED t (word_of_nat (XSTRLEN t))
      | _ \<Rightarrow> Ok (k, 0))"

section \<open>Outbound queues\<close>

text \<open>The key of an entry, in a buffer of \<open>out_cap\<close> bytes.\<close>

definition wmqb_outq_build_key :: "cstr option \<Rightarrow> word16 \<Rightarrow> nat \<Rightarrow> (mem \<times> word16) outcome" where
  "wmqb_outq_build_key client_id pid out_cap =
     (case client_id of None \<Rightarrow> Err BAD_ARG | Some cid \<Rightarrow>
      if XSTRLEN cid + 1 + 2 > out_cap then Err OUT_OF_BUFFER
      else Ok (cstr_bytes cid @ [0] @ wmqb_w_u16 pid, word_of_nat (XSTRLEN cid + 3)))"

text \<open>An error of the callee is the code the caller returns.\<close>

definition or_code :: "'b \<Rightarrow> ('b \<times> int) outcome \<Rightarrow> ('b \<times> int) outcome" where
  "or_code b r = (case r of Err e \<Rightarrow> Ok (b, err_code e) | _ \<Rightarrow> r)"

definition BrokerPersist_PutOutPub ::
  "'k hooks option \<Rightarrow> bool \<Rightarrow> (nat \<Rightarrow> byte) \<Rightarrow> 'k \<Rightarrow> cstr option \<Rightarrow> BrokerOutPub \<Rightarrow> ('k \<times> int) outcome" where
  "BrokerPersist_PutOutPub persist malloc junk k client_id e =
     (if persist = None \<or> client_id = None then Ok (k, 0)
      else if op_qos e = MQTT_QOS_0 then Ok (k, 0)
      else if op_enqueue_seq e = 0 then Ok (k, err_code BAD_ARG)
      else if op_retransmit_dup e > 1 then Ok (k, err_code BAD_ARG)
      else
        let topic_len = word_of_nat (XSTRLEN (op_topic e)) :: word16; payload_len = op_payload_len e in
        or_code k
          (bnd (wmqb_outq_build_key client_id (op_packet_id e) 259) (\<lambda>(key, key_len).
           let body_len = 1 + 1 + 1 + 1 + 2 + 2 + 8 + 8 + 4 + 2 + ucast topic_len + 4 + payload_len; rec_len = 12 + body_len in
           if \<not> malloc then Err MEMORY
           else
             bnd (rdn (op_topic e) 0 (unat topic_len)) (\<lambda>t.
             bnd (payload_part (op_payload e) payload_len) (\<lambda>pl.
             bnd (new_record junk NS_OUTQ body_len rec_len
                    ([[op_state e], [qos_code (op_qos e)], [op_retain e], [op_level e], [op_retransmit_dup e], [0],
                      wmqb_w_u16 (op_packet_id e), wmqb_w_u64 (op_enq_time e), wmqb_w_u64 (op_enqueue_seq e),
                      wmqb_w_u32 (op_expiry_sec e), wmqb_w_u16 topic_len, t, wmqb_w_u32 payload_len] @ pl)) (\<lambda>buf.
               wmqb_kv_put_commit persist k NS_OUTQ key key_len buf rec_len))))))"

definition BrokerPersist_DelOutPub :: "'k hooks option \<Rightarrow> 'k \<Rightarrow> cstr option \<Rightarrow> word16 \<Rightarrow> ('k \<times> int) outcome" where
  "BrokerPersist_DelOutPub persist k client_id pid =
     (if persist = None \<or> client_id = None then Ok (k, 0)
      else
        or_code k
          (bnd (wmqb_outq_build_key client_id pid 259) (\<lambda>(key, key_len).
             wmqb_kv_del_commit persist k NS_OUTQ key key_len)))"

text \<open>
  The keys of a client are collected first, the last one in front, and deleted after the iteration.  \<open>malloc\<close>
  answers the two allocations for the n-th record presented.
\<close>

fun delq_collect :: "(nat \<Rightarrow> bool) \<Rightarrow> mem \<Rightarrow> (mem \<times> mem) list \<Rightarrow> nat \<Rightarrow> mem list \<Rightarrow> mem list" where
  "delq_collect malloc cid [] n head = head"
| "delq_collect malloc cid ((key, blob) # rest) n head =
     (if length key < length cid + 1 \<or> take (length cid) key \<noteq> cid \<or> key ! length cid \<noteq> 0
      then delq_collect malloc cid rest (Suc n) head
      else if \<not> malloc n then head
      else delq_collect malloc cid rest (Suc n) (key # head))"

fun delete_keys :: "('k \<Rightarrow> byte \<Rightarrow> mem \<Rightarrow> 'k \<times> int) \<Rightarrow> byte \<Rightarrow> mem list \<Rightarrow> 'k \<Rightarrow> int \<Rightarrow> 'k \<times> int" where
  "delete_keys del ns [] k deleted = (k, deleted)"
| "delete_keys del ns (key # rest) k deleted =
     (case del k ns key of (k1, rc) \<Rightarrow> delete_keys del ns rest k1 (if rc = 0 then deleted + 1 else deleted))"

definition BrokerPersist_DelOutQueue :: "'k hooks option \<Rightarrow> (nat \<Rightarrow> bool) \<Rightarrow> 'k \<Rightarrow> cstr option \<Rightarrow> ('k \<times> int) outcome" where
  "BrokerPersist_DelOutQueue persist malloc k client_id =
     (case (persist, client_id) of
        (Some h, Some cid) \<Rightarrow>
          (case (kv_iter h, kv_del h) of
             (Some iter, Some del) \<Rightarrow>
               bnd (rdn cid 0 (unat (word_of_nat (XSTRLEN cid) :: word16))) (\<lambda>id.
               case delete_keys del NS_OUTQ (delq_collect malloc id (it_records (iter k NS_OUTQ)) 0 []) k 0 of
                 (k1, deleted) \<Rightarrow> Ok (run_sync h k1, deleted))
           | _ \<Rightarrow> Ok (k, 0))
      | _ \<Rightarrow> Ok (k, 0))"

section \<open>Laws\<close>

named_theorems rec_simps \<open>reading a record part by part\<close>

lemma w_lengths [simp]: "length (wmqb_w_u16 a) = 2" "length (wmqb_w_u32 b) = 4" "length (wmqb_w_u64 c) = 8"
  by (simp_all add: wmqb_w_u16_def wmqb_w_u32_def wmqb_w_u64_def)

lemma rd_skip [rec_simps]: "length a \<le> p \<Longrightarrow> rd (a @ b) p = rd b (p - length a)"
  by (auto simp: rd_def nth_append)

lemma rdn_skip [rec_simps]: "length a \<le> p \<Longrightarrow> rdn (a @ b) p n = rdn b (p - length a) n"
  by (auto simp: rdn_def blk_def)

lemma r_skip [rec_simps]:
  assumes "length a \<le> p"
  shows "wmqb_r_u16 (a @ b) p = wmqb_r_u16 b (p - length a)" "wmqb_r_u32 (a @ b) p = wmqb_r_u32 b (p - length a)"
    "wmqb_r_u64 (a @ b) p = wmqb_r_u64 b (p - length a)"
  using assms by (simp_all add: wmqb_r_u16_def wmqb_r_u32_def wmqb_r_u64_def rd_skip Suc_diff_le)

lemma skip_Cons [rec_simps]:
  assumes "0 < p"
  shows "rd (x # b) p = rd b (p - 1)" "rdn (x # b) p n = rdn b (p - 1) n" "wmqb_r_u16 (x # b) p = wmqb_r_u16 b (p - 1)"
    "wmqb_r_u32 (x # b) p = wmqb_r_u32 b (p - 1)" "wmqb_r_u64 (x # b) p = wmqb_r_u64 b (p - 1)"
  using assms rd_skip [of "[x]" p b] rdn_skip [of "[x]" p b n] r_skip [of "[x]" p b] by simp_all

lemma rd_here [rec_simps]: "rd (x # b) 0 = Ok x"
  by (simp add: rd_def)

lemma rdn_here [rec_simps]: "n = length a \<Longrightarrow> rdn (a @ b) 0 n = Ok a" "n = length a \<Longrightarrow> rdn a 0 n = Ok a"
  by (simp_all add: rdn_def blk_def)

lemma and_FF64: "(ucast ((x :: word64) AND 0xFF) :: byte) = ucast x"
proof -
  have m: "(0xFF :: word64) = mask 8" by (simp add: mask_eq_exp_minus_1)
  show ?thesis unfolding m by (rule bit_word_eqI) (auto simp: bit_simps)
qed

lemma r_u16_here [rec_simps]: "wmqb_r_u16 (wmqb_w_u16 v @ b) 0 = Ok v"
proof -
  have "push_bit 8 (ucast (ucast (drop_bit 8 v) :: byte)) OR ucast (ucast v :: byte) = v"
    by (rule bit_word_eqI) (auto simp: bit_simps)
  then show ?thesis by (simp add: wmqb_r_u16_def wmqb_w_u16_def ucast_and_FF16 rec_simps)
qed

text \<open>A byte of a word, shifted back to its place, has the bits of the word there.\<close>

lemma bit_octet:
  fixes v :: "'a :: len word"
  shows "bit (push_bit k (ucast (ucast (drop_bit k v) :: byte)) :: 'a word) n \<longleftrightarrow> k \<le> n \<and> n < k + 8 \<and> bit v n"
  by (auto simp: bit_simps dest: bit_imp_le_length)

lemma bit_octet_0:
  fixes v :: "'a :: len word"
  shows "bit (ucast (ucast v :: byte) :: 'a word) n \<longleftrightarrow> n < 8 \<and> bit v n"
  by (auto simp: bit_simps dest: bit_imp_le_length)

lemma r_u32_here [rec_simps]: "wmqb_r_u32 (wmqb_w_u32 v @ b) 0 = Ok v"
proof -
  have "push_bit 24 (ucast (ucast (drop_bit 24 v) :: byte)) OR push_bit 16 (ucast (ucast (drop_bit 16 v) :: byte)) OR
      push_bit 8 (ucast (ucast (drop_bit 8 v) :: byte)) OR ucast (ucast v :: byte) = v" (is "?w = v")
  proof (rule bit_word_eqI)
    fix n assume n: "n < LENGTH(32)"
    then consider "n < 8" | "8 \<le> n" "n < 16" | "16 \<le> n" "n < 24" | "24 \<le> n" "n < 32" by fastforce
    then show "bit ?w n = bit v n" by cases (simp_all add: bit_or_iff bit_octet bit_octet_0)
  qed
  then show ?thesis by (simp add: wmqb_r_u32_def wmqb_w_u32_def ucast_and_FF32 rec_simps)
qed

lemma r_u64_here [rec_simps]: "wmqb_r_u64 (wmqb_w_u64 v @ b) 0 = Ok v"
proof -
  have "push_bit 56 (ucast (ucast (drop_bit 56 v) :: byte)) OR push_bit 48 (ucast (ucast (drop_bit 48 v) :: byte)) OR
      push_bit 40 (ucast (ucast (drop_bit 40 v) :: byte)) OR push_bit 32 (ucast (ucast (drop_bit 32 v) :: byte)) OR
      push_bit 24 (ucast (ucast (drop_bit 24 v) :: byte)) OR push_bit 16 (ucast (ucast (drop_bit 16 v) :: byte)) OR
      push_bit 8 (ucast (ucast (drop_bit 8 v) :: byte)) OR ucast (ucast v :: byte) = v" (is "?w = v")
  proof (rule bit_word_eqI)
    fix n assume n: "n < LENGTH(64)"
    then consider "n < 8" | "8 \<le> n" "n < 16" | "16 \<le> n" "n < 24" | "24 \<le> n" "n < 32" | "32 \<le> n" "n < 40" | "40 \<le> n" "n < 48"
      | "48 \<le> n" "n < 56" | "56 \<le> n" "n < 64" by fastforce
    then show "bit ?w n = bit v n" by cases (simp_all add: bit_or_iff bit_octet bit_octet_0)
  qed
  then show ?thesis by (simp add: wmqb_r_u64_def wmqb_w_u64_def and_FF64 rec_simps)
qed

text \<open>The bytes of a header, and a record as one block.\<close>

definition rec_header :: "byte \<Rightarrow> word32 \<Rightarrow> mem" where
  "rec_header rec_kind body_len = [0x57, 0x4D, 0x51, 0x42] @ wmqb_w_u16 SCHEMA_VER @ [rec_kind, WMQB_WRAP_MODE] @ wmqb_w_u32 body_len"

lemma rec_header_length [simp]: "length (rec_header rec_kind n) = 12"
  by (simp add: rec_header_def)

lemma and_FF8 [simp]: "(b :: byte) AND 0xFF = b"
proof -
  have m: "(0xFF :: byte) = mask 8" by (simp add: mask_eq_exp_minus_1)
  show ?thesis unfolding m by (rule bit_word_eqI) (simp add: bit_simps)
qed

lemma wr_run_eq: "p \<le> length m \<Longrightarrow> wr_run m p parts = wr m p (concat parts)"
proof (induction parts arbitrary: m p)
  case (Cons bs rest)
  show ?case
  proof (cases "p + length bs \<le> length m")
    case True
    then have "wr_run m p (bs # rest) = wr (splice_at m p bs) (p + length bs) (concat rest)"
      using Cons.IH [of "p + length bs" "splice_at m p bs"] by (simp add: wr_def)
    then show ?thesis using True by (simp add: wr_append) (simp add: wr_def)
  qed (simp add: wr_append, simp add: wr_def)
qed simp

lemma write_header_eq: "wmqb_write_header buf rec_kind n = wr buf 0 (rec_header rec_kind n)"
  unfolding wmqb_write_header_def by (subst wr_run_eq) (simp_all add: rec_header_def)

text \<open>What the stores leave of a new block: the header, the parts, and untouched bytes behind.\<close>

lemma new_record_prefix:
  assumes "12 + length (concat parts) \<le> unat rec_len"
  shows "new_record junk rec_kind n rec_len parts =
    Ok (rec_header rec_kind n @ concat parts @ map junk [12 + length (concat parts)..<unat rec_len])"
  using assms
  by (simp add: new_record_def write_header_eq wr_run_eq wr_def splice_at_def drop_map take_map)

lemma new_record_eq:
  "unat rec_len = 12 + length (concat parts) \<Longrightarrow> new_record junk rec_kind n rec_len parts = Ok (rec_header rec_kind n @ concat parts)"
  by (simp add: new_record_prefix)

lemma header_reads:
  "rdn (rec_header rec_kind n @ r) 0 4 = Ok [0x57, 0x4D, 0x51, 0x42]"
  "wmqb_r_u16 (rec_header rec_kind n @ r) 4 = Ok SCHEMA_VER"
  "rd (rec_header rec_kind n @ r) 6 = Ok rec_kind"
  "rd (rec_header rec_kind n @ r) 7 = Ok WMQB_WRAP_MODE"
  "wmqb_r_u32 (rec_header rec_kind n @ r) 8 = Ok n"
  by (simp_all add: rec_header_def rec_simps) (simp add: rdn_def blk_def)

lemma read_header_written:
  assumes "unat n + 12 \<le> unat blen"
  shows "wmqb_read_header (rec_header rec_kind n @ r) blen rec_kind = Ok n"
proof -
  have "12 \<le> blen" using assms by (simp add: word_le_nat_alt)
  moreover from this have "unat (blen - 12) = unat blen - 12" by (simp add: unat_sub)
  then have "n \<le> blen - 12" using assms by (simp add: word_le_nat_alt)
  ultimately show ?thesis by (simp add: wmqb_read_header_def header_reads not_le [symmetric])
qed

text \<open>The check stays inside the blob, and a body it accepts fits into it.\<close>

lemma r_total [no_fault]:
  "p + 2 \<le> length m \<Longrightarrow> \<exists>v. wmqb_r_u16 m p = Ok v" "p + 4 \<le> length m \<Longrightarrow> \<exists>v. wmqb_r_u32 m p = Ok v"
  "p + 8 \<le> length m \<Longrightarrow> \<exists>v. wmqb_r_u64 m p = Ok v"
  by (simp_all add: wmqb_r_u16_def wmqb_r_u32_def wmqb_r_u64_def rd_ok)

lemma read_header_no_fault [no_fault]:
  assumes "unat blen \<le> length m"
  shows "wmqb_read_header m blen rec_kind \<noteq> Fault"
proof (cases "blen < 12")
  case False
  then have "12 \<le> length m" using assms by (simp add: word_less_nat_alt)
  moreover from this obtain v w where "wmqb_r_u16 m 4 = Ok v" "wmqb_r_u32 m 8 = Ok w"
    using r_total(1) [of 4 m] r_total(2) [of 8 m] by auto
  ultimately show ?thesis by (simp add: wmqb_read_header_def rdn_ok rd_ok)
qed (simp add: wmqb_read_header_def)

lemma read_header_fits:
  assumes "wmqb_read_header m blen rec_kind = Ok n"
  shows "unat n + 12 \<le> unat blen"
proof -
  have "12 \<le> blen" "n \<le> blen - 12"
    using assms by (auto simp: wmqb_read_header_def bnd_Ok_iff not_less split: if_splits)
  then show ?thesis by (simp add: word_le_nat_alt unat_sub)
qed

end
