(* ===== verification/Persist_Restore.thy ===== *)
theory Persist_Restore
  imports Persist_Record "HOL-Library.Multiset"
begin

text \<open>
  The decoders of the persistence layer, \<^verbatim>\<open>src/mqtt_broker_persist.c\<close>, that put the state of a stored record back into
  the broker: retained messages, subscriptions, sessions and the entries of their outbound queues, and the passes
  over the records of a namespace at the start of the broker.

  A decoder gets the bytes of the key and of the blob the iterator of the backend presents; an error leaves the
  broker as it was.  The value of a QoS byte above 2 is \<open>MQTT_QOS_3\<close>.
\<close>

section \<open>Retained messages\<close>

definition wmqb_retained_expired :: "word64 \<Rightarrow> mem \<Rightarrow> word32 \<Rightarrow> bool outcome" where
  "wmqb_retained_expired now blob blob_len =
     (case wmqb_read_header blob blob_len NS_RETAINED of
        Fault \<Rightarrow> Fault
      | Err e \<Rightarrow> Ok False
      | Ok body_len \<Rightarrow>
          if body_len < 16 then Ok False
          else
            bnd (wmqb_r_u64 blob 14) (\<lambda>store_time.
            bnd (wmqb_r_u32 blob 22) (\<lambda>expiry.
              Ok (expiry \<noteq> 0 \<and> now \<ge> store_time \<and> unat (now - store_time) \<ge> unat expiry))))"

text \<open>The copy of a payload; \<open>malloc\<close> is the answer of the allocator.\<close>

definition copy_payload :: "bool \<Rightarrow> mem \<Rightarrow> nat \<Rightarrow> word32 \<Rightarrow> mem option outcome" where
  "copy_payload malloc blob p payload_len =
     (if payload_len > 0
      then if malloc then bnd (rdn blob p (unat payload_len)) (\<lambda>bs. Ok (Some bs)) else Err MEMORY
      else Ok None)"

definition wmqb_decode_and_insert_retained :: "(nat \<Rightarrow> bool) \<Rightarrow> word64 \<Rightarrow> Broker \<Rightarrow> mem \<Rightarrow> word32 \<Rightarrow> (Broker \<times> int) outcome" where
  "wmqb_decode_and_insert_retained malloc now b blob blob_len =
     or_code b
       (bnd (wmqb_read_header blob blob_len NS_RETAINED) (\<lambda>body_len.
        let e = int (12 + unat body_len) in
        if u32 (e - 12) < 16 then Err MALFORMED_DATA
        else
          bnd (rd blob 12) (\<lambda>q.
          bnd (wmqb_r_u64 blob 14) (\<lambda>store_time.
          bnd (wmqb_r_u32 blob 22) (\<lambda>expiry.
          bnd (wmqb_r_u16 blob 26) (\<lambda>topic_len.
          if u32 (e - 28) < unat topic_len + 4 then Err MALFORMED_DATA
          else
            bnd (wmqb_retained_expired now blob blob_len) (\<lambda>gone.
            if gone then Ok (b, 1)
            else if br_retained_count b \<ge> BROKER_MAX_RETAINED then Ok (b, 1)
            else if \<not> malloc 0 \<or> \<not> malloc 1 then Err MEMORY
            else
              bnd (rdn blob 28 (unat topic_len)) (\<lambda>t.
              bnd (wmqb_r_u32 blob (28 + unat topic_len)) (\<lambda>payload_len.
              if u32 (e - int (32 + unat topic_len)) < unat payload_len then Err MALFORMED_DATA
              else
                bnd (copy_payload (malloc 2) blob (32 + unat topic_len) payload_len) (\<lambda>pl.
                Ok (b\<lparr>br_retained := zero_retained\<lparr>rm_topic := Some (t @ [0]), rm_payload := pl, rm_payload_len := payload_len,
                        rm_qos := qos_of q, rm_store_time := store_time, rm_expiry_sec := expiry\<rparr> # br_retained b,
                       br_retained_count := br_retained_count b + 1\<rparr>, 0)))))))))))"

section \<open>Sessions\<close>

definition zero_orphan :: BrokerOrphanSession where
  "zero_orphan = \<lparr>os_client_id = [0], os_level = 0, os_session_expiry_sec = 0, os_orphan_since = 0, os_out_q = [], os_out_q_count = 0,
     os_out_q_inflight = 0, os_qos2_pending = [], os_qos2_pending_count = 0\<rparr>"

text \<open>\<open>None\<close> when there is no carrier; otherwise the broker with the new one in front.\<close>

definition wmqb_restore_create_orphan ::
  "(nat \<Rightarrow> bool) \<Rightarrow> word64 \<Rightarrow> Broker \<Rightarrow> mem \<Rightarrow> byte \<Rightarrow> word32 \<Rightarrow> word64 \<Rightarrow> Broker option" where
  "wmqb_restore_create_orphan malloc now b client_id level session_expiry_sec orphan_since =
     (if client_id = [] then None
      else if br_orphan_count b \<ge> BROKER_MAX_PERSIST_SESSIONS then None
      else if \<not> malloc 0 \<or> \<not> malloc 1 then None
      else Some (b\<lparr>br_orphans := zero_orphan\<lparr>os_client_id := client_id @ [0], os_level := level,
                     os_session_expiry_sec := session_expiry_sec,
                     os_orphan_since := (if orphan_since \<noteq> 0 then orphan_since else now)\<rparr> # br_orphans b,
                   br_orphan_count := br_orphan_count b + 1\<rparr>))"

definition wmqb_restore_find_orphan :: "Broker \<Rightarrow> mem \<Rightarrow> nat option" where
  "wmqb_restore_find_orphan b client_id =
     find_index (\<lambda>os. XSTRLEN (os_client_id os) = length client_id \<and> take (length client_id) (os_client_id os) = client_id) (br_orphans b)"

definition wmqb_decode_and_insert_session :: "(nat \<Rightarrow> bool) \<Rightarrow> word64 \<Rightarrow> Broker \<Rightarrow> mem \<Rightarrow> word32 \<Rightarrow> (Broker \<times> int) outcome" where
  "wmqb_decode_and_insert_session malloc now b blob blob_len =
     or_code b
       (bnd (wmqb_read_header blob blob_len NS_SESSION) (\<lambda>body_len.
        if body_len < 16 then Err MALFORMED_DATA
        else
          bnd (rd blob 12) (\<lambda>level.
          bnd (wmqb_r_u32 blob 14) (\<lambda>session_expiry.
          bnd (wmqb_r_u64 blob 18) (\<lambda>orphan_since.
          bnd (wmqb_r_u16 blob 26) (\<lambda>cid_len.
          if unat body_len < 16 + unat cid_len then Err MALFORMED_DATA
          else if session_expiry = 0 then Err NOT_FOUND
          else
            bnd (rdn blob 28 (unat cid_len)) (\<lambda>cid.
            case wmqb_restore_create_orphan malloc now b cid level session_expiry orphan_since of
              None \<Rightarrow> Err MEMORY
            | Some b' \<Rightarrow> Ok (b', 0))))))))"

section \<open>Subscriptions\<close>

text \<open>
  The loop over the entries, with the position \<open>p\<close>, the end \<open>e\<close> of the body and the subscriptions made so far, in
  order; an error releases them.  \<open>malloc i\<close> answers the three allocations of entry \<open>i\<close>.
\<close>

fun subs_decode :: "(nat \<Rightarrow> nat \<Rightarrow> bool) \<Rightarrow> mem \<Rightarrow> mem \<Rightarrow> nat \<Rightarrow> nat \<Rightarrow> nat \<Rightarrow> nat \<Rightarrow> BrokerSub list \<Rightarrow> BrokerSub list outcome" where
  "subs_decode malloc key blob e i 0 p local = Ok local"
| "subs_decode malloc key blob e i (Suc todo) p local =
     (if u32 (int e - int p) < 4 then Err MALFORMED_DATA
      else
        bnd (rd blob p) (\<lambda>q.
        bnd (wmqb_r_u16 blob (p + 2)) (\<lambda>flen.
        if u32 (int e - int (p + 4)) < unat flen then Err MALFORMED_DATA
        else if \<not> malloc i 0 \<or> \<not> malloc i 1 then Err MEMORY
        else
          bnd (rdn blob (p + 4) (unat flen)) (\<lambda>f.
          if \<not> malloc i 2 then Err MEMORY
          else
            subs_decode malloc key blob e (Suc i) todo (p + 4 + unat flen)
              (local @ [\<lparr>bs_filter = Some (f @ [0]), bs_client_id = Some (key @ [0]), bs_client = None, bs_qos = qos_of q\<rparr>])))))"

definition wmqb_decode_and_insert_subs ::
  "(nat \<Rightarrow> nat \<Rightarrow> bool) \<Rightarrow> Broker \<Rightarrow> mem \<Rightarrow> mem \<Rightarrow> word32 \<Rightarrow> (Broker \<times> int) outcome" where
  "wmqb_decode_and_insert_subs malloc b key blob blob_len =
     or_code b
       (bnd (wmqb_read_header blob blob_len NS_SUBS) (\<lambda>body_len.
        if key = [] then Err BAD_ARG
        else if wmqb_restore_find_orphan b key = None then Err NOT_FOUND
        else
          let e = 12 + unat body_len in
          if u32 (int e - 12) < 2 then Err MALFORMED_DATA
          else
            bnd (wmqb_r_u16 blob 12) (\<lambda>count.
            bnd (subs_decode malloc key blob e 0 (unat count) 14 []) (\<lambda>local.
              Ok (b\<lparr>br_subs := local @ br_subs b\<rparr>, 0)))))"

section \<open>Outbound queues\<close>

fun seq_insert :: "BrokerOutPub \<Rightarrow> BrokerOutPub list \<Rightarrow> BrokerOutPub list" where
  "seq_insert e [] = [e]"
| "seq_insert e (x # xs) = (if op_enqueue_seq x < op_enqueue_seq e then x # seq_insert e xs else e # x # xs)"

definition insert_out_pub :: "BrokerOutPub \<Rightarrow> BrokerOrphanSession \<Rightarrow> BrokerOrphanSession" where
  "insert_out_pub e os =
     os\<lparr>os_out_q := seq_insert e (os_out_q os), os_out_q_count := os_out_q_count os + 1,
        os_out_q_inflight := (if op_state e = BROKER_OUTQ_PUBLISH_SENT \<or> op_state e = BROKER_OUTQ_PUBREL_SENT
                              then os_out_q_inflight os + 1 else os_out_q_inflight os)\<rparr>"

definition wmqb_decode_and_insert_outq :: "(nat \<Rightarrow> bool) \<Rightarrow> Broker \<Rightarrow> mem \<Rightarrow> mem \<Rightarrow> word32 \<Rightarrow> (Broker \<times> int) outcome" where
  "wmqb_decode_and_insert_outq malloc b key blob blob_len =
     or_code b
       (if length key < 3 then Err BAD_ARG
        else if key ! (length key - 3) \<noteq> 0 then Err MALFORMED_DATA
        else
          bnd (wmqb_read_header blob blob_len NS_OUTQ) (\<lambda>body_len.
          if body_len < 30 then Err MALFORMED_DATA
          else
            let e = int (12 + unat body_len) in
            bnd (rdn blob 12 5) (\<lambda>hd5.
            if hd5 ! 4 > 1 then Err MALFORMED_DATA
            else
              bnd (wmqb_r_u16 blob 18) (\<lambda>pid.
              bnd (wmqb_r_u64 blob 20) (\<lambda>enq_time.
              bnd (wmqb_r_u64 blob 28) (\<lambda>enqueue_seq.
              if enqueue_seq = 0 then Err MALFORMED_DATA
              else
                bnd (wmqb_r_u32 blob 36) (\<lambda>expiry_sec.
                bnd (wmqb_r_u16 blob 40) (\<lambda>topic_len.
                if u32 (e - 42) < unat topic_len + 4 then Err MALFORMED_DATA
                else
                  (case wmqb_restore_find_orphan b (take (length key - 3) key) of
                     None \<Rightarrow> Err NOT_FOUND
                   | Some i \<Rightarrow>
                       if \<not> malloc 0 \<or> \<not> malloc 1 then Err MEMORY
                       else
                         bnd (rdn blob 42 (unat topic_len)) (\<lambda>t.
                         bnd (wmqb_r_u32 blob (42 + unat topic_len)) (\<lambda>payload_len.
                         if u32 (e - int (46 + unat topic_len)) < unat payload_len then Err MALFORMED_DATA
                         else
                           bnd (copy_payload (malloc 2) blob (46 + unat topic_len) payload_len) (\<lambda>pl.
                           let x = zero_out_pub\<lparr>op_topic := t @ [0], op_payload := pl, op_payload_len := payload_len,
                                 op_qos := qos_of (hd5 ! 1), op_packet_id := pid, op_retain := hd5 ! 2, op_state := hd5 ! 0,
                                 op_enq_time := enq_time, op_enqueue_seq := enqueue_seq, op_expiry_sec := expiry_sec,
                                 op_level := hd5 ! 3, op_retransmit_dup := hd5 ! 4\<rparr> in
                           Ok (b\<lparr>br_orphans := (br_orphans b)[i := insert_out_pub x (br_orphans b ! i)]\<rparr>, 0)))))))))))))"

section \<open>Passes over a namespace\<close>

text \<open>
  The callbacks of the restore count what they load and what they skip and never stop the iteration.  Callback
  \<open>n\<close> of a pass gets the answers of the allocator and of the clock as its argument \<open>n\<close>.
\<close>

record restore_ctx =
  rc_broker :: Broker
  rc_loaded :: int
  rc_skipped :: int
  rc_ended :: "mem list"
  rc_ended_count :: int

definition count_result :: "restore_ctx \<Rightarrow> (Broker \<times> int) outcome \<Rightarrow> restore_ctx outcome" where
  "count_result c r =
     bnd r (\<lambda>(b, rc). Ok (if rc = 0 then c\<lparr>rc_broker := b, rc_loaded := rc_loaded c + 1\<rparr>
                                     else c\<lparr>rc_broker := b, rc_skipped := rc_skipped c + 1\<rparr>))"

definition wmqb_iter_retained_cb :: "(nat \<Rightarrow> bool) \<Rightarrow> word64 \<Rightarrow> mem \<times> mem \<Rightarrow> restore_ctx \<Rightarrow> restore_ctx outcome" where
  "wmqb_iter_retained_cb malloc now = (\<lambda>(key, blob) c.
     count_result c (wmqb_decode_and_insert_retained malloc now (rc_broker c) blob (word_of_nat (length blob))))"

definition wmqb_iter_subs_cb :: "(nat \<Rightarrow> nat \<Rightarrow> bool) \<Rightarrow> mem \<times> mem \<Rightarrow> restore_ctx \<Rightarrow> restore_ctx outcome" where
  "wmqb_iter_subs_cb malloc = (\<lambda>(key, blob) c.
     count_result c (wmqb_decode_and_insert_subs malloc (rc_broker c) key blob (word_of_nat (length blob))))"

definition wmqb_iter_outq_cb :: "(nat \<Rightarrow> bool) \<Rightarrow> mem \<times> mem \<Rightarrow> restore_ctx \<Rightarrow> restore_ctx outcome" where
  "wmqb_iter_outq_cb malloc = (\<lambda>(key, blob) c.
     count_result c (wmqb_decode_and_insert_outq malloc (rc_broker c) key blob (word_of_nat (length blob))))"

definition wmqb_session_key_is_client_id :: "mem \<Rightarrow> mem \<Rightarrow> word32 \<Rightarrow> bool outcome" where
  "wmqb_session_key_is_client_id key blob blob_len =
     (if key = [] \<or> length key = 65535 then Ok False
      else
        (case wmqb_read_header blob blob_len NS_SESSION of
           Fault \<Rightarrow> Fault
         | Err e \<Rightarrow> Ok False
         | Ok body_len \<Rightarrow>
             if body_len < 16 then Ok False
             else
               bnd (wmqb_r_u16 blob 26) (\<lambda>cid_len.
               if unat cid_len \<noteq> length key \<or> unat body_len < 16 + unat cid_len then Ok False
               else
                 bnd (rdn blob 28 (length key)) (\<lambda>cid. Ok (cid = key \<and> 0 \<notin> set key)))))"

text \<open>\<open>node\<close> tells whether the two allocations for a collected key succeed.\<close>

definition wmqb_iter_session_cb :: "(nat \<Rightarrow> bool) \<Rightarrow> word64 \<Rightarrow> bool \<Rightarrow> mem \<times> mem \<Rightarrow> restore_ctx \<Rightarrow> restore_ctx outcome" where
  "wmqb_iter_session_cb malloc now node = (\<lambda>(key, blob) c.
     let blob_len = word_of_nat (length blob) in
     bnd (wmqb_decode_and_insert_session malloc now (rc_broker c) blob blob_len) (\<lambda>(b, rc).
       if rc = 0 then Ok (c\<lparr>rc_broker := b, rc_loaded := rc_loaded c + 1\<rparr>)
       else
         let c1 = c\<lparr>rc_broker := b, rc_skipped := rc_skipped c + 1\<rparr> in
         if rc = err_code NOT_FOUND \<and> rc_ended_count c1 < BROKER_MAX_PERSIST_SESSIONS
         then bnd (wmqb_session_key_is_client_id key blob blob_len) (\<lambda>own.
                Ok (if own \<and> node then c1\<lparr>rc_ended := key # rc_ended c1, rc_ended_count := rc_ended_count c1 + 1\<rparr> else c1))
         else Ok c1))"

fun iter_all :: "(nat \<Rightarrow> mem \<times> mem \<Rightarrow> 'c \<Rightarrow> 'c outcome) \<Rightarrow> nat \<Rightarrow> (mem \<times> mem) list \<Rightarrow> 'c \<Rightarrow> 'c outcome" where
  "iter_all cb n [] c = Ok c"
| "iter_all cb n (r # rest) c = bnd (cb n r c) (iter_all cb (Suc n) rest)"

section \<open>Records written and read back\<close>

text \<open>A stored payload agrees with its length.\<close>

definition payload_ok :: "mem option \<Rightarrow> word32 \<Rightarrow> bool" where
  "payload_ok p n \<longleftrightarrow> (case p of None \<Rightarrow> n = 0 | Some d \<Rightarrow> 0 < n \<and> length d = unat n)"

definition payload_bytes :: "mem option \<Rightarrow> mem" where
  "payload_bytes p = (case p of None \<Rightarrow> [] | Some d \<Rightarrow> d)"

definition committed :: "'k hooks \<Rightarrow> 'k \<times> int \<Rightarrow> ('k \<times> int) outcome" where
  "committed h r = (case r of (k1, rc) \<Rightarrow> Ok (if rc = 0 then run_sync h k1 else k1, rc))"

lemma payload_bytes_length: "payload_ok p n \<Longrightarrow> length (payload_bytes p) = unat n"
  by (auto simp: payload_ok_def payload_bytes_def split: option.splits)

lemma payload_part_ok: "payload_ok p n \<Longrightarrow> \<exists>parts. payload_part p n = Ok parts \<and> concat parts = payload_bytes p"
  by (auto simp: payload_ok_def payload_bytes_def payload_part_def rdn_def blk_def split: option.splits)

lemma copy_payload_ok:
  assumes "payload_ok p n" "q = length a"
  shows "copy_payload True (a @ payload_bytes p) q n = Ok p"
proof -
  have "rdn (a @ payload_bytes p) q (unat n) = Ok (payload_bytes p)"
    using payload_bytes_length [OF assms(1)] assms(2) by (simp add: rdn_skip rdn_here)
  then show ?thesis
    using assms(1) by (auto simp: copy_payload_def payload_ok_def payload_bytes_def word_gt_0 split: option.splits)
qed

lemma unat_XSTRLEN: "XSTRLEN t \<le> 65535 \<Longrightarrow> unat (word_of_nat (XSTRLEN t) :: word16) = XSTRLEN t"
  by (simp add: unat_word16_of_nat)

lemma ucast_as_nat: "(ucast (w :: word16) :: word32) = word_of_nat (unat w)"
  by simp

text \<open>The distance of two pointers, the second behind the first.\<close>

lemma u32_diff: "a \<le> c \<Longrightarrow> c - a < 4294967296 \<Longrightarrow> u32 (int c - int a) = c - a"
  by (subst u32_id) simp_all

lemma u32_diff_numeral: "numeral v \<le> c \<Longrightarrow> c - numeral v < 4294967296 \<Longrightarrow> u32 (int c - numeral v) = c - numeral v"
  using u32_diff [of "numeral v" c] by simp

lemma rdn_cstr: "n = XSTRLEN t \<Longrightarrow> rdn t 0 n = Ok (cstr_bytes t)"
  by (simp add: rdn_def blk_def cstr_bytes_take XSTRLEN_le)

lemma commit_eq:
  assumes "kv_put h = Some kput" "unat key_len = XSTRLEN key" "unat blob_len = length blob"
  shows "wmqb_kv_put_commit (Some h) k ns key key_len blob blob_len = committed h (kput k ns (cstr_bytes key) blob)"
  using assms by (simp add: wmqb_kv_put_commit_def rdn_cstr rdn_here committed_def)

subsection \<open>Retained messages\<close>

definition retained_blob :: "BrokerRetainedMsg \<Rightarrow> mem" where
  "retained_blob rm =
     (let t = cstr_bytes (the (rm_topic rm)); pl = payload_bytes (rm_payload rm) in
      rec_header NS_RETAINED (word_of_nat (20 + length t + length pl)) @ [qos_code (rm_qos rm), 0] @ wmqb_w_u64 (rm_store_time rm) @
      wmqb_w_u32 (rm_expiry_sec rm) @ wmqb_w_u16 (word_of_nat (length t)) @ t @ wmqb_w_u32 (rm_payload_len rm) @ pl)"

lemma put_retained:
  assumes t: "rm_topic rm = Some t" "XSTRLEN t \<noteq> 0" "XSTRLEN t \<le> 65535"
    and p: "payload_ok (rm_payload rm) (rm_payload_len rm)" "32 + XSTRLEN t + unat (rm_payload_len rm) < 4294967296"
    and h: "kv_put h = Some kput"
  shows "BrokerPersist_PutRetained (Some h) True junk k rm = committed h (kput k NS_RETAINED (cstr_bytes t) (retained_blob rm))"
proof -
  let ?n = "20 + XSTRLEN t + unat (rm_payload_len rm)"
  obtain parts where parts: "payload_part (rm_payload rm) (rm_payload_len rm) = Ok parts" "concat parts = payload_bytes (rm_payload rm)"
    using payload_part_ok [OF p(1)] by blast
  note l = payload_bytes_length [OF p(1)] unat_XSTRLEN [OF t(3)]
  have b: "1 + 1 + 8 + 4 + 2 + ucast (word_of_nat (XSTRLEN t) :: word16) + 4 + rm_payload_len rm = (word_of_nat ?n :: word32)"
    by (simp add: ucast_as_nat l(2) del: of_nat_unat)
  have r: "12 + word_of_nat ?n = (word_of_nat (12 + ?n) :: word32)" by simp
  have u: "unat (word_of_nat (12 + ?n) :: word32) = 12 + ?n" using p(2) by (subst unat_word32_of_nat) simp_all
  show ?thesis
    using t(1,2) h u
    by (simp only: BrokerPersist_PutRetained_def b r prod.case option.case Let_def if_False not_True_eq_False)
       (simp add: rdn_cstr l parts new_record_eq commit_eq retained_blob_def)
qed

text \<open>What the decoder finds in the record, field by field.\<close>

lemma retained_fields:
  assumes t: "rm_topic rm = Some t" "XSTRLEN t \<le> 65535"
    and p: "payload_ok (rm_payload rm) (rm_payload_len rm)" "32 + XSTRLEN t + unat (rm_payload_len rm) < 4294967296"
  defines "m \<equiv> retained_blob rm" and "n \<equiv> word_of_nat (20 + XSTRLEN t + unat (rm_payload_len rm)) :: word32"
  shows "unat n = 20 + XSTRLEN t + unat (rm_payload_len rm)" "wmqb_read_header m (word_of_nat (length m)) NS_RETAINED = Ok n"
    "rd m 12 = Ok (qos_code (rm_qos rm))" "wmqb_r_u64 m 14 = Ok (rm_store_time rm)" "wmqb_r_u32 m 22 = Ok (rm_expiry_sec rm)"
    "wmqb_r_u16 m 26 = Ok (word_of_nat (XSTRLEN t))" "rdn m 28 (XSTRLEN t) = Ok (cstr_bytes t)"
    "wmqb_r_u32 m (28 + XSTRLEN t) = Ok (rm_payload_len rm)"
    "copy_payload True m (32 + XSTRLEN t) (rm_payload_len rm) = Ok (rm_payload rm)"
proof -
  note l = payload_bytes_length [OF p(1)]
  show u: "unat n = 20 + XSTRLEN t + unat (rm_payload_len rm)" unfolding n_def using p(2) by (subst unat_word32_of_nat) simp_all
  have m: "m = rec_header NS_RETAINED n @ [qos_code (rm_qos rm), 0] @ wmqb_w_u64 (rm_store_time rm) @
      wmqb_w_u32 (rm_expiry_sec rm) @ wmqb_w_u16 (word_of_nat (XSTRLEN t)) @ cstr_bytes t @ wmqb_w_u32 (rm_payload_len rm) @
      payload_bytes (rm_payload rm)"
    unfolding m_def n_def retained_blob_def Let_def t(1) option.sel l XSTRLEN_cstr_bytes by (rule refl)
  have lm: "length m = 32 + XSTRLEN t + unat (rm_payload_len rm)" using l by (simp add: m)
  then have "unat (word_of_nat (length m) :: word32) = 12 + unat n" using p(2) u by (subst unat_word32_of_nat) simp_all
  then show "wmqb_read_header m (word_of_nat (length m)) NS_RETAINED = Ok n" unfolding m by (intro read_header_written) simp
  show "rd m 12 = Ok (qos_code (rm_qos rm))" "wmqb_r_u64 m 14 = Ok (rm_store_time rm)" "wmqb_r_u32 m 22 = Ok (rm_expiry_sec rm)"
    "wmqb_r_u16 m 26 = Ok (word_of_nat (XSTRLEN t))" "rdn m 28 (XSTRLEN t) = Ok (cstr_bytes t)"
    "wmqb_r_u32 m (28 + XSTRLEN t) = Ok (rm_payload_len rm)"
    unfolding m by (simp_all add: rec_simps)
  have "copy_payload True ((rec_header NS_RETAINED n @ [qos_code (rm_qos rm), 0] @ wmqb_w_u64 (rm_store_time rm) @
      wmqb_w_u32 (rm_expiry_sec rm) @ wmqb_w_u16 (word_of_nat (XSTRLEN t)) @ cstr_bytes t @ wmqb_w_u32 (rm_payload_len rm)) @
      payload_bytes (rm_payload rm)) (32 + XSTRLEN t) (rm_payload_len rm) = Ok (rm_payload rm)"
    by (rule copy_payload_ok [OF p(1)]) simp
  then show "copy_payload True m (32 + XSTRLEN t) (rm_payload_len rm) = Ok (rm_payload rm)" unfolding m by simp
qed

definition reloaded :: "BrokerRetainedMsg \<Rightarrow> BrokerRetainedMsg" where
  "reloaded rm = rm\<lparr>rm_topic := map_option (\<lambda>t. cstr_bytes t @ [0]) (rm_topic rm), rm_pending_delete := 0\<rparr>"

lemma get_retained:
  assumes t: "rm_topic rm = Some t" "XSTRLEN t \<le> 65535"
    and p: "payload_ok (rm_payload rm) (rm_payload_len rm)" "32 + XSTRLEN t + unat (rm_payload_len rm) < 4294967296"
  shows "wmqb_decode_and_insert_retained (\<lambda>_. True) now b (retained_blob rm) (word_of_nat (length (retained_blob rm))) =
    Ok (if expired now rm \<or> br_retained_count b \<ge> BROKER_MAX_RETAINED then (b, 1)
        else (b\<lparr>br_retained := reloaded rm # br_retained b, br_retained_count := br_retained_count b + 1\<rparr>, 0))"
proof -
  note f = retained_fields [OF assms]
  let ?n = "word_of_nat (20 + XSTRLEN t + unat (rm_payload_len rm)) :: word32"
  have g: "16 \<le> ?n" using f(1) by (simp add: word_le_nat_alt del: of_nat_add of_nat_numeral)
  have x: "wmqb_retained_expired now (retained_blob rm) (word_of_nat (length (retained_blob rm))) = Ok (expired now rm)"
    unfolding wmqb_retained_expired_def f(2) using g f(4,5) by (auto simp: expired_def word_gt_0)
  have e: "u32 (int (12 + unat ?n) - 12) = 20 + XSTRLEN t + unat (rm_payload_len rm)"
    "u32 (int (12 + unat ?n) - 28) = 4 + XSTRLEN t + unat (rm_payload_len rm)"
    "u32 (int (12 + unat ?n) - int (32 + XSTRLEN t)) = unat (rm_payload_len rm)"
    unfolding f(1) using p(2) by (simp_all add: u32_diff u32_diff_numeral del: of_nat_add of_nat_Suc)
  have z: "zero_retained\<lparr>rm_topic := Some (cstr_bytes t @ [0]), rm_payload := rm_payload rm, rm_payload_len := rm_payload_len rm,
      rm_qos := rm_qos rm, rm_store_time := rm_store_time rm, rm_expiry_sec := rm_expiry_sec rm\<rparr> = reloaded rm"
    using t(1) by (cases rm) (simp add: zero_retained_def reloaded_def)
  show ?thesis
    unfolding wmqb_decode_and_insert_retained_def f(2)
    by (simp add: Let_def e f(3-9) unat_XSTRLEN [OF t(2)] x z or_code_def del: of_nat_add of_nat_numeral u32_id)
qed

subsection \<open>Sessions\<close>

text \<open>A record that is a header and a body of the length the header gives.\<close>

definition framed :: "byte \<Rightarrow> mem \<Rightarrow> mem" where
  "framed ns body = rec_header ns (word_of_nat (length body)) @ body"

lemma framed_header:
  assumes "12 + length body < 4294967296"
  shows "wmqb_read_header (framed ns body) (word_of_nat (length (framed ns body))) ns = Ok (word_of_nat (length body))"
    and "unat (word_of_nat (length body) :: word32) = length body"
    and "unat (word_of_nat (length (framed ns body)) :: word32) = 12 + length body"
proof -
  show u: "unat (word_of_nat (length body) :: word32) = length body" using assms by (subst unat_word32_of_nat) simp_all
  show v: "unat (word_of_nat (length (framed ns body)) :: word32) = 12 + length body"
    using assms by (subst unat_word32_of_nat) (simp_all add: framed_def)
  then show "wmqb_read_header (framed ns body) (word_of_nat (length (framed ns body))) ns = Ok (word_of_nat (length body))"
    using u unfolding framed_def by (intro read_header_written) simp
qed

text \<open>Reads behind the header.\<close>

lemma framed_reads [rec_simps]:
  assumes "12 \<le> p"
  shows "rd (framed ns body) p = rd body (p - 12)" "rdn (framed ns body) p n = rdn body (p - 12) n"
    "wmqb_r_u16 (framed ns body) p = wmqb_r_u16 body (p - 12)" "wmqb_r_u32 (framed ns body) p = wmqb_r_u32 body (p - 12)"
    "wmqb_r_u64 (framed ns body) p = wmqb_r_u64 body (p - 12)"
  using assms by (simp_all add: framed_def rd_skip rdn_skip r_skip)

lemma new_record_framed:
  assumes "unat rec_len = 12 + length (concat parts)" "unat body_len = length (concat parts)"
  shows "new_record junk ns body_len rec_len parts = Ok (framed ns (concat parts))"
proof -
  have "body_len = word_of_nat (length (concat parts))" using assms(2) by (simp flip: assms(2))
  then show ?thesis using new_record_eq [OF assms(1)] by (simp add: framed_def)
qed

definition session_blob :: "mem \<Rightarrow> byte \<Rightarrow> word32 \<Rightarrow> word64 \<Rightarrow> mem" where
  "session_blob cid level expiry since =
     framed NS_SESSION ([level, WMQB_SESSION_FLAG_EXPIRY_VALID] @ wmqb_w_u32 expiry @ wmqb_w_u64 since @ wmqb_w_u16 (word_of_nat (length cid)) @ cid)"

lemma put_session:
  assumes c: "XSTRLEN cid \<noteq> 0" "XSTRLEN cid \<le> 65535" and h: "kv_put h = Some kput"
  shows "BrokerPersist_PutOrphanSession (Some h) True junk k (Some cid) level expiry since =
    committed h (kput k NS_SESSION (cstr_bytes cid) (session_blob (cstr_bytes cid) level expiry since))"
proof -
  note l = unat_XSTRLEN [OF c(2)]
  have b: "1 + 1 + 4 + 8 + 2 + ucast (word_of_nat (XSTRLEN cid) :: word16) = (word_of_nat (16 + XSTRLEN cid) :: word32)"
    by (simp add: ucast_as_nat l del: of_nat_unat)
  have r: "12 + word_of_nat (16 + XSTRLEN cid) = (word_of_nat (28 + XSTRLEN cid) :: word32)" by simp
  have u: "unat (word_of_nat (28 + XSTRLEN cid) :: word32) = 28 + XSTRLEN cid"
    "unat (word_of_nat (16 + XSTRLEN cid) :: word32) = 16 + XSTRLEN cid"
    using c(2) unat_word32_of_nat [of "28 + XSTRLEN cid"] unat_word32_of_nat [of "16 + XSTRLEN cid"] by linarith+
  show ?thesis
    using c(1) h u
    by (simp only: BrokerPersist_PutOrphanSession_def wmqb_put_session_record_def b r prod.case option.case Let_def if_False not_True_eq_False)
       (simp add: rdn_cstr l new_record_framed commit_eq session_blob_def framed_def)
qed

lemma get_session:
  assumes c: "cid \<noteq> []" "length cid \<le> 65535" and e: "expiry \<noteq> 0" and r: "br_orphan_count b < BROKER_MAX_PERSIST_SESSIONS"
  shows "wmqb_decode_and_insert_session (\<lambda>_. True) now b (session_blob cid level expiry since)
           (word_of_nat (length (session_blob cid level expiry since))) =
    Ok (b\<lparr>br_orphans := zero_orphan\<lparr>os_client_id := cid @ [0], os_level := level, os_session_expiry_sec := expiry,
            os_orphan_since := (if since \<noteq> 0 then since else now)\<rparr> # br_orphans b,
          br_orphan_count := br_orphan_count b + 1\<rparr>, 0)"
proof -
  define body where "body = [level, WMQB_SESSION_FLAG_EXPIRY_VALID] @ wmqb_w_u32 expiry @ wmqb_w_u64 since @ wmqb_w_u16 (word_of_nat (length cid)) @ cid"
  have l: "unat (word_of_nat (length cid) :: word16) = length cid" using c(2) by (simp add: unat_word16_of_nat)
  have lb: "length body = 16 + length cid" by (simp add: body_def)
  have "12 + length body < 4294967296" using c(2) unfolding lb by simp
  note f = framed_header [OF this, unfolded lb]
  have g: "16 \<le> (word_of_nat (16 + length cid) :: word32)" using f(2) by (simp add: word_le_nat_alt del: of_nat_add of_nat_numeral)
  have rds: "rd (framed NS_SESSION body) 12 = Ok level" "wmqb_r_u32 (framed NS_SESSION body) 14 = Ok expiry"
    "wmqb_r_u64 (framed NS_SESSION body) 18 = Ok since" "wmqb_r_u16 (framed NS_SESSION body) 26 = Ok (word_of_nat (length cid))"
    "rdn (framed NS_SESSION body) 28 (length cid) = Ok cid"
    by (simp_all add: rec_simps body_def)
  show ?thesis
    unfolding wmqb_decode_and_insert_session_def session_blob_def body_def [symmetric] f(1) using g r e c(1)
    by (simp add: rds l f(2) or_code_def wmqb_restore_create_orphan_def not_le [symmetric] del: of_nat_add of_nat_numeral)
qed

subsection \<open>Outbound queues\<close>

definition outq_key :: "mem \<Rightarrow> BrokerOutPub \<Rightarrow> mem" where
  "outq_key cid e = cid @ [0] @ wmqb_w_u16 (op_packet_id e)"

definition outq_body :: "BrokerOutPub \<Rightarrow> mem" where
  "outq_body e =
     [op_state e, qos_code (op_qos e), op_retain e, op_level e, op_retransmit_dup e, 0] @ wmqb_w_u16 (op_packet_id e) @
     wmqb_w_u64 (op_enq_time e) @ wmqb_w_u64 (op_enqueue_seq e) @ wmqb_w_u32 (op_expiry_sec e) @
     wmqb_w_u16 (word_of_nat (XSTRLEN (op_topic e))) @ cstr_bytes (op_topic e) @ wmqb_w_u32 (op_payload_len e) @ payload_bytes (op_payload e)"

text \<open>An entry that can be stored, and what is left of it after a restart: everything but the properties.\<close>

definition storable :: "BrokerOutPub \<Rightarrow> bool" where
  "storable e \<longleftrightarrow> op_qos e \<noteq> MQTT_QOS_0 \<and> op_enqueue_seq e \<noteq> 0 \<and> op_retransmit_dup e \<le> 1 \<and> XSTRLEN (op_topic e) \<le> 65535 \<and>
     payload_ok (op_payload e) (op_payload_len e) \<and> 46 + XSTRLEN (op_topic e) + unat (op_payload_len e) < 4294967296"

definition stored :: "BrokerOutPub \<Rightarrow> BrokerOutPub" where
  "stored e = e\<lparr>op_topic := cstr_bytes (op_topic e) @ [0], op_props := None\<rparr>"

lemma outq_body_length: "storable e \<Longrightarrow> length (outq_body e) = 34 + XSTRLEN (op_topic e) + unat (op_payload_len e)"
  by (simp add: outq_body_def storable_def payload_bytes_length)

lemma put_out_pub:
  assumes e: "storable e" and c: "XSTRLEN cid \<le> 256" and h: "kv_put h = Some kput"
  shows "BrokerPersist_PutOutPub (Some h) True junk k (Some cid) e =
    committed h (kput k NS_OUTQ (outq_key (cstr_bytes cid) e) (framed NS_OUTQ (outq_body e)))"
proof -
  let ?t = "op_topic e" and ?n = "34 + XSTRLEN (op_topic e) + unat (op_payload_len e)"
  have s: "op_qos e \<noteq> MQTT_QOS_0" "op_enqueue_seq e \<noteq> 0" "\<not> op_retransmit_dup e > 1" "XSTRLEN ?t \<le> 65535"
    "payload_ok (op_payload e) (op_payload_len e)" "12 + ?n < 4294967296"
    using e by (simp_all add: storable_def not_less)
  obtain parts where parts: "payload_part (op_payload e) (op_payload_len e) = Ok parts" "concat parts = payload_bytes (op_payload e)"
    using payload_part_ok [OF s(5)] by blast
  note l = payload_bytes_length [OF s(5)] unat_XSTRLEN [OF s(4)]
  have b: "1 + 1 + 1 + 1 + 2 + 2 + 8 + 8 + 4 + 2 + ucast (word_of_nat (XSTRLEN ?t) :: word16) + 4 + op_payload_len e = (word_of_nat ?n :: word32)"
    by (simp add: ucast_as_nat l(2) del: of_nat_unat)
  have r: "12 + word_of_nat ?n = (word_of_nat (12 + ?n) :: word32)" by simp
  have u: "unat (word_of_nat (12 + ?n) :: word32) = 12 + ?n" "unat (word_of_nat ?n :: word32) = ?n"
    using s(6) unat_word32_of_nat [of "12 + ?n"] unat_word32_of_nat [of ?n] by linarith+
  let ?parts = "[[op_state e], [qos_code (op_qos e)], [op_retain e], [op_level e], [op_retransmit_dup e], [0],
      wmqb_w_u16 (op_packet_id e), wmqb_w_u64 (op_enq_time e), wmqb_w_u64 (op_enqueue_seq e), wmqb_w_u32 (op_expiry_sec e),
      wmqb_w_u16 (word_of_nat (XSTRLEN ?t)), cstr_bytes ?t, wmqb_w_u32 (op_payload_len e)] @ parts"
  have p: "concat ?parts = outq_body e" using parts(2) by (simp add: outq_body_def)
  have n: "new_record junk NS_OUTQ (word_of_nat ?n) (word_of_nat (12 + ?n)) ?parts = Ok (framed NS_OUTQ (outq_body e))"
    unfolding p [symmetric] by (rule new_record_framed) (simp_all only: p u outq_body_length [OF e])
  have key: "rdn (outq_key (cstr_bytes cid) e) 0 (unat (word_of_nat (XSTRLEN cid + 3) :: word16)) = Ok (outq_key (cstr_bytes cid) e)"
    using c unat_word16_of_nat [of "XSTRLEN cid + 3"] by (intro rdn_here(2)) (simp add: outq_key_def)
  have blob: "rdn (framed NS_OUTQ (outq_body e)) 0 (12 + ?n) = Ok (framed NS_OUTQ (outq_body e))"
    using outq_body_length [OF e] by (intro rdn_here(2)) (simp add: framed_def)
  have "wmqb_outq_build_key (Some cid) (op_packet_id e) 259 = Ok (outq_key (cstr_bytes cid) e, word_of_nat (XSTRLEN cid + 3))"
    using c by (simp add: wmqb_outq_build_key_def outq_key_def)
  then show ?thesis
    unfolding BrokerPersist_PutOutPub_def Let_def
    by (simp only: s bnd.simps prod.case option.distinct simp_thms if_False if_True not_True_eq_False b r rdn_cstr l parts n
          wmqb_kv_put_commit_def option.case h key blob u committed_def)
       (simp add: or_code_def split: prod.splits)
qed

end
