(* ===== verification/Persist_Queue.thy ===== *)
theory Persist_Queue
  imports Persist_Restore "HOL-Library.AList"
begin

text \<open>
  An outbound queue across a restart of the broker.  \<open>shadow_queue\<close> is the loop of \<^verbatim>\<open>BrokerOrphan_Take\<close> that numbers the
  entries of a queue and stores them; the restore reads the records in the order the backend has them.
\<close>

section \<open>One record\<close>

lemma outq_reads:
  assumes e: "storable e"
  defines "m \<equiv> framed NS_OUTQ (outq_body e)"
  shows "rdn m 12 5 = Ok [op_state e, qos_code (op_qos e), op_retain e, op_level e, op_retransmit_dup e]"
    "wmqb_r_u16 m 18 = Ok (op_packet_id e)" "wmqb_r_u64 m 20 = Ok (op_enq_time e)" "wmqb_r_u64 m 28 = Ok (op_enqueue_seq e)"
    "wmqb_r_u32 m 36 = Ok (op_expiry_sec e)" "wmqb_r_u16 m 40 = Ok (word_of_nat (XSTRLEN (op_topic e)))"
    "rdn m 42 (XSTRLEN (op_topic e)) = Ok (cstr_bytes (op_topic e))"
    "wmqb_r_u32 m (42 + XSTRLEN (op_topic e)) = Ok (op_payload_len e)"
    "copy_payload True m (46 + XSTRLEN (op_topic e)) (op_payload_len e) = Ok (op_payload e)"
proof -
  show "rdn m 12 5 = Ok [op_state e, qos_code (op_qos e), op_retain e, op_level e, op_retransmit_dup e]"
    by (simp add: m_def rec_simps outq_body_def) (simp add: rdn_def blk_def)
  show "wmqb_r_u16 m 18 = Ok (op_packet_id e)" "wmqb_r_u64 m 20 = Ok (op_enq_time e)" "wmqb_r_u64 m 28 = Ok (op_enqueue_seq e)"
    "wmqb_r_u32 m 36 = Ok (op_expiry_sec e)" "wmqb_r_u16 m 40 = Ok (word_of_nat (XSTRLEN (op_topic e)))"
    "rdn m 42 (XSTRLEN (op_topic e)) = Ok (cstr_bytes (op_topic e))" "wmqb_r_u32 m (42 + XSTRLEN (op_topic e)) = Ok (op_payload_len e)"
    by (simp_all add: m_def rec_simps outq_body_def)
  let ?a = "rec_header NS_OUTQ (word_of_nat (length (outq_body e))) @
     [op_state e, qos_code (op_qos e), op_retain e, op_level e, op_retransmit_dup e, 0] @ wmqb_w_u16 (op_packet_id e) @
     wmqb_w_u64 (op_enq_time e) @ wmqb_w_u64 (op_enqueue_seq e) @ wmqb_w_u32 (op_expiry_sec e) @
     wmqb_w_u16 (word_of_nat (XSTRLEN (op_topic e))) @ cstr_bytes (op_topic e) @ wmqb_w_u32 (op_payload_len e)"
  have "m = ?a @ payload_bytes (op_payload e)" unfolding m_def framed_def by (simp add: outq_body_def)
  moreover have "payload_ok (op_payload e) (op_payload_len e)" using e by (simp add: storable_def)
  then have "copy_payload True (?a @ payload_bytes (op_payload e)) (46 + XSTRLEN (op_topic e)) (op_payload_len e) = Ok (op_payload e)"
    by (rule copy_payload_ok) simp
  ultimately show "copy_payload True m (46 + XSTRLEN (op_topic e)) (op_payload_len e) = Ok (op_payload e)" by simp
qed

lemma outq_key_parts [simp]:
  "length (outq_key cid e) = length cid + 3" "outq_key cid e ! length cid = 0" "take (length cid) (outq_key cid e) = cid"
  by (simp_all add: outq_key_def nth_append)

lemma stored_eq:
  "zero_out_pub\<lparr>op_topic := cstr_bytes (op_topic e) @ [0], op_payload := op_payload e, op_payload_len := op_payload_len e,
     op_qos := op_qos e, op_packet_id := op_packet_id e, op_retain := op_retain e, op_state := op_state e,
     op_enq_time := op_enq_time e, op_enqueue_seq := op_enqueue_seq e, op_expiry_sec := op_expiry_sec e,
     op_level := op_level e, op_retransmit_dup := op_retransmit_dup e\<rparr> = stored e"
  by (cases e) (simp add: zero_out_pub_def stored_def)

lemma get_out_pub:
  assumes e: "storable e" and o: "wmqb_restore_find_orphan b cid = Some i"
  shows "wmqb_decode_and_insert_outq (\<lambda>_. True) b (outq_key cid e) (framed NS_OUTQ (outq_body e))
      (word_of_nat (length (framed NS_OUTQ (outq_body e)))) =
    Ok (b\<lparr>br_orphans := (br_orphans b)[i := insert_out_pub (stored e) (br_orphans b ! i)]\<rparr>, 0)"
proof -
  let ?n = "XSTRLEN (op_topic e)" and ?l = "34 + XSTRLEN (op_topic e) + unat (op_payload_len e)"
  have s: "op_enqueue_seq e \<noteq> 0" "\<not> op_retransmit_dup e > 1" "?n \<le> 65535" "12 + ?l < 4294967296"
    using e by (simp_all add: storable_def not_less)
  have fb: "12 + length (outq_body e) < 4294967296" using s(4) outq_body_length [OF e] by simp
  note f = framed_header(1) [OF fb, of NS_OUTQ, unfolded outq_body_length [OF e]] framed_header(2) [OF fb, unfolded outq_body_length [OF e]]
  have g: "\<not> (word_of_nat ?l :: word32) < 30" using f(2) by (simp add: word_less_nat_alt del: of_nat_add of_nat_numeral)
  have d: "u32 (int (46 + (?n + unat (op_payload_len e))) - 42) = 4 + ?n + unat (op_payload_len e)"
    "u32 (int (46 + (?n + unat (op_payload_len e))) - int (46 + ?n)) = unat (op_payload_len e)"
    using s(4) by (simp_all add: u32_diff u32_diff_numeral del: of_nat_add of_nat_Suc)
  show ?thesis
    unfolding wmqb_decode_and_insert_outq_def f(1)
    using g s(1,2) by (simp add: Let_def f(2) d outq_reads [OF e] unat_XSTRLEN [OF s(3)] o stored_eq or_code_def del: of_nat_add of_nat_numeral u32_id)
qed

section \<open>Any order of the records\<close>

lemma seq_insert_insort: "seq_insert e q = insort_key op_enqueue_seq e q"
  by (induction q) auto

lemma fold_seq_insert:
  "fold seq_insert es [] = sort_key op_enqueue_seq (rev es)"
  unfolding sort_key_def by (simp add: foldr_conv_fold seq_insert_insort [abs_def])

lemma fold_insert_out_pub:
  assumes "list_all (\<lambda>e. op_state e \<le> 2) es"
  shows "fold insert_out_pub es os =
    os\<lparr>os_out_q := fold seq_insert es (os_out_q os), os_out_q_count := os_out_q_count os + int (length es),
       os_out_q_inflight := os_out_q_inflight os + inflight_of es\<rparr>"
  using assms
proof (induction es arbitrary: os)
  case (Cons e es)
  have "op_state e = 1 \<or> op_state e = 2 \<longleftrightarrow> op_state e \<noteq> 0"
  proof -
    have "unat (op_state e) \<le> 2" using Cons.prems by (simp add: word_le_nat_alt)
    then consider "unat (op_state e) = 0" | "unat (op_state e) = 1" | "unat (op_state e) = 2" by linarith
    then show ?thesis by cases (simp_all add: word_unat_eq_iff)
  qed
  then show ?case using Cons by (simp add: insert_out_pub_def inflight_of_def algebra_simps)
qed (simp add: inflight_of_def)

lemma find_index_update: "(\<And>x. P (f x) = P x) \<Longrightarrow> find_index P (xs[i := f (xs ! i)]) = find_index P xs"
  by (induction xs arbitrary: i) (auto split: nat.split)

lemma insert_out_pub_id [simp]: "os_client_id (insert_out_pub x os) = os_client_id os"
  by (simp add: insert_out_pub_def)

lemma find_orphan_insert [simp]:
  "wmqb_restore_find_orphan (b\<lparr>br_orphans := (br_orphans b)[i := insert_out_pub x (br_orphans b ! i)]\<rparr>) cid = wmqb_restore_find_orphan b cid"
  by (simp add: wmqb_restore_find_orphan_def find_index_update [where f = "insert_out_pub x"])

lemma find_index_less: "find_index P xs = Some i \<Longrightarrow> i < length xs"
  by (induction xs arbitrary: i) (auto split: if_splits)

definition outq_record :: "mem \<Rightarrow> BrokerOutPub \<Rightarrow> mem \<times> mem" where
  "outq_record cid e = (outq_key cid e, framed NS_OUTQ (outq_body e))"

lemma outq_pass:
  assumes "list_all storable es" "wmqb_restore_find_orphan (rc_broker c) cid = Some i"
  shows "iter_all (\<lambda>_. wmqb_iter_outq_cb (\<lambda>_. True)) n (map (outq_record cid) es) c =
    Ok (c\<lparr>rc_broker := (rc_broker c)\<lparr>br_orphans := (br_orphans (rc_broker c))[i := fold insert_out_pub (map stored es) (br_orphans (rc_broker c) ! i)]\<rparr>,
          rc_loaded := rc_loaded c + int (length es)\<rparr>)"
  using assms
proof (induction es arbitrary: c n)
  case (Cons e es)
  have i: "i < length (br_orphans (rc_broker c))" using Cons.prems(2) by (auto simp: wmqb_restore_find_orphan_def dest: find_index_less)
  let ?c = "c\<lparr>rc_broker := (rc_broker c)\<lparr>br_orphans := (br_orphans (rc_broker c))[i := insert_out_pub (stored e) (br_orphans (rc_broker c) ! i)]\<rparr>,
      rc_loaded := rc_loaded c + 1\<rparr>"
  have s: "wmqb_iter_outq_cb (\<lambda>_. True) (outq_record cid e) c = Ok ?c"
    using get_out_pub [of e "rc_broker c" cid i] Cons.prems by (simp add: wmqb_iter_outq_cb_def outq_record_def count_result_def)
  show ?case using s i Cons.prems Cons.IH [of ?c "Suc n"] by simp
qed simp

section \<open>The shadow writes of a queue\<close>

text \<open>The loop over the queue in \<^verbatim>\<open>BrokerOrphan_Take\<close>; \<open>malloc\<close> answers the allocation for the entry with number \<open>seq\<close>.\<close>

fun shadow_queue ::
  "'k hooks option \<Rightarrow> (nat \<Rightarrow> bool) \<Rightarrow> (nat \<Rightarrow> byte) \<Rightarrow> cstr \<Rightarrow> word64 \<Rightarrow> BrokerOutPub list \<Rightarrow> 'k \<Rightarrow> ('k \<times> BrokerOutPub list) outcome" where
  "shadow_queue persist malloc junk cid enqueue_seq [] k = Ok (k, [])"
| "shadow_queue persist malloc junk cid enqueue_seq (cur # rest) k =
     (let cur1 = cur\<lparr>op_enqueue_seq := enqueue_seq\<rparr> in
      bnd (if op_qos cur1 > MQTT_QOS_0
           then BrokerPersist_PutOutPub persist (malloc (unat enqueue_seq)) junk k (Some cid) cur1 else Ok (k, 0)) (\<lambda>(k1, rc).
      bnd (shadow_queue persist malloc junk cid (enqueue_seq + 1) rest k1) (\<lambda>(k2, rest1). Ok (k2, cur1 # rest1))))"

fun numbered :: "word64 \<Rightarrow> BrokerOutPub list \<Rightarrow> BrokerOutPub list" where
  "numbered n [] = []"
| "numbered n (e # es) = e\<lparr>op_enqueue_seq := n\<rparr> # numbered (n + 1) es"

abbreviation live :: "BrokerOutPub list \<Rightarrow> BrokerOutPub list" where
  "live q \<equiv> filter (\<lambda>e. op_qos e > MQTT_QOS_0) q"

text \<open>An entry of the queue whose record fits the format.\<close>

definition savable :: "BrokerOutPub \<Rightarrow> bool" where
  "savable e \<longleftrightarrow> op_state e \<le> 2 \<and> op_retransmit_dup e \<le> 1 \<and> XSTRLEN (op_topic e) \<le> 65535 \<and>
     payload_ok (op_payload e) (op_payload_len e) \<and> 46 + XSTRLEN (op_topic e) + unat (op_payload_len e) < 4294967296"

lemma savable_storable: "savable e \<Longrightarrow> op_qos e > MQTT_QOS_0 \<Longrightarrow> n \<noteq> 0 \<Longrightarrow> storable (e\<lparr>op_enqueue_seq := n\<rparr>)"
  by (auto simp: savable_def storable_def)

lemma numbered_live:
  assumes "list_all savable q" "0 < unat n" "unat n + length q < 18446744073709551616"
  shows "list_all storable (live (numbered n q))" "list_all (\<lambda>e. op_state e \<le> 2) (live (numbered n q))"
    "sorted_wrt (<) (map op_enqueue_seq (numbered n q))" "\<forall>e \<in> set (numbered n q). n \<le> op_enqueue_seq e"
  using assms
proof (induction q arbitrary: n)
  case (Cons e q)
  {
    case 1
    have u: "unat (n + 1) = unat n + 1" using 1(3) by (subst unat_plus_simple [THEN iffD1]) (simp_all add: word_le_nat_alt unat_word_ariths)
    show ?case using 1 u Cons.IH(1) [of "n + 1"] savable_storable [of e n] by (auto simp: unat_gt_0)
  next
    case 2
    have u: "unat (n + 1) = unat n + 1" using 2(3) by (simp add: unat_word_ariths)
    show ?case using 2 u Cons.IH(2) [of "n + 1"] by (simp add: savable_def)
  next
    case 3
    have u: "unat (n + 1) = unat n + 1" using 3(3) by (simp add: unat_word_ariths)
    show ?case using 3 u Cons.IH(3,4) [of "n + 1"] by (auto simp: word_less_nat_alt word_le_nat_alt)
  next
    case 4
    have u: "unat (n + 1) = unat n + 1" using 4(3) by (simp add: unat_word_ariths)
    show ?case using 4 u Cons.IH(4) [of "n + 1"] by (auto simp: word_le_nat_alt)
  }
qed simp_all

lemma numbered_ids: "map op_packet_id (live (numbered n q)) = live_ids q"
  by (induction q arbitrary: n) (simp_all add: live_ids_def)

lemma numbered_same: "map (op_enqueue_seq_update (\<lambda>_. 0)) (numbered n q) = map (op_enqueue_seq_update (\<lambda>_. 0)) q"
  by (induction q arbitrary: n) simp_all

text \<open>
  What the documentation of the hooks says of a backend, with its contents as a map for every namespace: a record
  that is put is found under its key, a flush keeps the contents, and an iteration presents every record once.
\<close>

definition backend :: "'k hooks \<Rightarrow> ('k \<Rightarrow> byte \<Rightarrow> mem \<Rightarrow> mem option) \<Rightarrow> bool" where
  "backend h contents \<longleftrightarrow>
     (\<exists>kput iter. kv_put h = Some kput \<and> kv_iter h = Some iter \<and>
        (\<forall>k ns key blob k' rc. kput k ns key blob = (k', rc) \<longrightarrow>
           rc = 0 \<and> contents k' = (contents k)(ns := (contents k ns)(key \<mapsto> blob))) \<and>
        (\<forall>s k. sync h = Some s \<longrightarrow> contents (fst (s k)) = contents k) \<and>
        (\<forall>k ns. distinct (map fst (it_records (iter k ns))) \<and> map_of (it_records (iter k ns)) = contents k ns))"

lemma backend_put:
  assumes "backend h contents" "storable e" "XSTRLEN cid \<le> 256"
  shows "\<exists>k'. BrokerPersist_PutOutPub (Some h) True junk k (Some cid) e = Ok (k', 0) \<and>
    contents k' NS_OUTQ = (contents k NS_OUTQ)(outq_key (cstr_bytes cid) e \<mapsto> framed NS_OUTQ (outq_body e))"
proof -
  obtain kput where p: "kv_put h = Some kput" "\<And>k ns key blob k' rc. kput k ns key blob = (k', rc) \<Longrightarrow>
      rc = 0 \<and> contents k' = (contents k)(ns := (contents k ns)(key \<mapsto> blob))"
    and s: "\<And>s k. sync h = Some s \<Longrightarrow> contents (fst (s k)) = contents k"
    using assms(1) unfolding backend_def by blast
  obtain k1 rc where k: "kput k NS_OUTQ (outq_key (cstr_bytes cid) e) (framed NS_OUTQ (outq_body e)) = (k1, rc)" by fastforce
  have "contents (run_sync h k1) = contents k1" using s by (simp add: run_sync_def split: option.split)
  then show ?thesis using put_out_pub [OF assms(2,3) p(1), of junk k] p(2) [OF k] by (simp add: k committed_def)
qed

lemma shadow_queue_stores:
  assumes "backend h contents" "XSTRLEN cid \<le> 256"
  shows "list_all savable q \<Longrightarrow> 0 < unat n \<Longrightarrow> unat n + length q < 18446744073709551616 \<Longrightarrow>
    \<exists>k'. shadow_queue (Some h) (\<lambda>_. True) junk cid n q k = Ok (k', numbered n q) \<and>
      contents k' NS_OUTQ = contents k NS_OUTQ ++ map_of (rev (map (outq_record (cstr_bytes cid)) (live (numbered n q))))"
proof (induction q arbitrary: n k)
  case (Cons e q)
  let ?e = "e\<lparr>op_enqueue_seq := n\<rparr>"
  have u: "unat (n + 1) = unat n + 1" using Cons.prems(3) by (simp add: unat_word_ariths)
  have n: "n \<noteq> 0" using Cons.prems(2) by (simp add: unat_gt_0)
  show ?case
  proof (cases "op_qos e > MQTT_QOS_0")
    case True
    obtain k1 where k1: "BrokerPersist_PutOutPub (Some h) True junk k (Some cid) ?e = Ok (k1, 0)"
      "contents k1 NS_OUTQ = (contents k NS_OUTQ)(outq_key (cstr_bytes cid) ?e \<mapsto> framed NS_OUTQ (outq_body ?e))"
      using backend_put [OF assms(1) savable_storable [OF _ True n] assms(2)] Cons.prems(1) by auto
    obtain k2 where k2: "shadow_queue (Some h) (\<lambda>_. True) junk cid (n + 1) q k1 = Ok (k2, numbered (n + 1) q)"
      "contents k2 NS_OUTQ = contents k1 NS_OUTQ ++ map_of (rev (map (outq_record (cstr_bytes cid)) (live (numbered (n + 1) q))))"
      using Cons.IH [of "n + 1" k1] Cons.prems u by auto
    have "contents k2 NS_OUTQ = contents k NS_OUTQ ++ map_of (rev (map (outq_record (cstr_bytes cid)) (?e # live (numbered (n + 1) q))))"
      unfolding k2(2) k1(2) list.map rev.simps map_of_append by (simp add: outq_record_def)
    then show ?thesis using k1(1) k2(1) True by simp
  next
    case False
    then show ?thesis using Cons.IH [of "n + 1" k] Cons.prems u by (auto simp: Let_def)
  qed
qed simp

section \<open>The queue after a restart\<close>

lemma outq_key_inj: "outq_key cid e = outq_key cid e' \<Longrightarrow> op_packet_id e = op_packet_id e'"
  using r_u16_here [of "op_packet_id e" "[]"] r_u16_here [of "op_packet_id e'" "[]"] by (simp add: outq_key_def)

lemma records_reordered:
  assumes "distinct (map op_packet_id es)" "distinct (map fst rs)" "map_of rs = map_of (rev (map (outq_record cid) es))"
  shows "\<exists>es'. rs = map (outq_record cid) es' \<and> mset es' = mset es"
proof -
  have i: "inj_on (outq_record cid) (set es)"
    using assms(1) by (auto simp: distinct_map inj_on_def outq_record_def dest!: outq_key_inj)
  have mf: "map fst (map (outq_record cid) es) = map (outq_key cid) es" by (simp add: outq_record_def)
  have "distinct (map (outq_key cid) es)"
    using assms(1) by (auto simp: distinct_map inj_on_def dest!: outq_key_inj)
  then have d: "distinct (map fst (rev (map (outq_record cid) es)))" unfolding rev_map [symmetric, where f = fst] distinct_rev mf .
  then have s: "set rs = outq_record cid ` set es" using map_of_inject_set [OF assms(2) d] assms(3) by simp
  define es' where "es' = map (inv_into (set es) (outq_record cid)) rs"
  have r: "map (outq_record cid) es' = rs" using s by (auto simp: es'_def f_inv_into_f intro!: map_idI)
  have "distinct es'" using assms(2) unfolding r [symmetric] by (simp add: distinct_map)
  moreover have "set es' = set es" using s i by (auto simp: es'_def image_image)
  moreover have "distinct es" using assms(1) by (simp add: distinct_map)
  ultimately have "mset es' = mset es" by (simp add: set_eq_iff_mset_eq_distinct)
  then show ?thesis using r by blast
qed

lemma stored_seq [simp]: "op_enqueue_seq (stored e) = op_enqueue_seq e" "op_state (stored e) = op_state e"
  by (simp_all add: stored_def)

lemma restored_order:
  assumes "mset es' = mset es" "sorted_wrt (<) (map op_enqueue_seq es)"
  shows "fold seq_insert (map stored es') [] = map stored es"
proof -
  have "sort_key op_enqueue_seq (rev (map stored es')) = map stored es"
  proof (rule sort_key_inj_key_eq)
    show "mset (rev (map stored es')) = mset (map stored es)" using assms(1) by simp
    have d: "distinct (map op_enqueue_seq es)" "sorted (map op_enqueue_seq es)"
      using assms(2) by (simp_all add: strict_sorted_iff)
    show "sorted (map op_enqueue_seq (map stored es))" using d(2) by (simp add: comp_def)
    have "inj_on op_enqueue_seq (stored ` set es)" using d(1) by (auto simp: inj_on_def distinct_map)
    then show "inj_on op_enqueue_seq (set (rev (map stored es')))" using mset_eq_setD [OF assms(1)] by simp
  qed
  then show ?thesis by (simp add: fold_seq_insert)
qed


text \<open>A backend that keeps a list of records, the newest first, and a client with three messages, the last of QoS 0.\<close>

definition list_hooks :: "(byte \<Rightarrow> (mem \<times> mem) list) hooks" where
  "list_hooks =
     \<lparr>kv_put = Some (\<lambda>k ns key blob. (k(ns := (key, blob) # k ns), 0)), kv_get = None, kv_del = None,
      kv_iter = Some (\<lambda>k ns. \<lparr>it_records = AList.clearjunk (k ns), it_rc = 0, it_stop_rc = 0\<rparr>), sync = None\<rparr>"

lemma list_backend: "backend list_hooks (\<lambda>k ns. map_of (k ns))"
  unfolding backend_def list_hooks_def by (auto simp: map_of_clearjunk distinct_clearjunk)

definition demo_queue :: "BrokerOutPub list" where
  "demo_queue =
     [zero_out_pub\<lparr>op_topic := [0x61, 0], op_qos := MQTT_QOS_1, op_packet_id := 7, op_state := BROKER_OUTQ_PUBLISH_SENT\<rparr>,
      zero_out_pub\<lparr>op_topic := [0x62, 0], op_qos := MQTT_QOS_2, op_packet_id := 3, op_payload := Some [0x68], op_payload_len := 1\<rparr>,
      zero_out_pub\<lparr>op_topic := [0x63, 0]\<rparr>]"

definition demo_ctx :: restore_ctx where
  "demo_ctx = \<lparr>rc_broker = zero_broker\<lparr>br_orphans := [zero_orphan\<lparr>os_client_id := [0x63, 0]\<rparr>]\<rparr>, rc_loaded = 0, rc_skipped = 0,
     rc_ended = [], rc_ended_count = 0\<rparr>"

lemma live_renumbered:
  "live_ids (map (op_enqueue_seq_update f) q) = live_ids q"
  "inflight_of (live (map (op_enqueue_seq_update f) q)) = inflight_of (live q)"
  "length (live (map (op_enqueue_seq_update f) q)) = length (live q)"
  by (induction q) (simp_all add: live_ids_def inflight_of_def)


end
