(* ===== verification/Persist_Safe.thy ===== *)
theory Persist_Safe
  imports Persist_Restore
begin

text \<open>
  The decoders of the persistence layer on records of any content, as a damaged or foreign backend may present them:
  none of them reads outside the record, and a record that is not taken leaves the broker as it was.
\<close>

section \<open>Rules\<close>

text \<open>A call of a decoder returns, and a code other than zero comes with an unchanged broker.\<close>

definition kept :: "Broker \<Rightarrow> (Broker \<times> int) outcome \<Rightarrow> bool" where
  "kept b r \<longleftrightarrow> (\<exists>b' rc. r = Ok (b', rc) \<and> (rc \<noteq> 0 \<longrightarrow> b' = b))"

definition tried :: "Broker \<Rightarrow> (Broker \<times> int) outcome \<Rightarrow> bool" where
  "tried b r \<longleftrightarrow> r \<noteq> Fault \<and> (\<forall>b' rc. r = Ok (b', rc) \<longrightarrow> rc \<noteq> 0 \<longrightarrow> b' = b)"

lemma tried_or_code: "tried b r \<Longrightarrow> kept b (or_code b r)"
  by (cases r) (auto simp: tried_def kept_def or_code_def)

lemma tried_bnd: "r \<noteq> Fault \<Longrightarrow> (\<And>x. r = Ok x \<Longrightarrow> tried b (f x)) \<Longrightarrow> tried b (bnd r f)"
  by (cases r) (simp_all add: tried_def)

lemma tried_simps [simp]: "tried b (Err e)" "tried b (Ok (b', rc)) \<longleftrightarrow> (rc \<noteq> 0 \<longrightarrow> b' = b)"
  by (auto simp: tried_def)

lemma read_no_fault [no_fault]:
  "p < length m \<Longrightarrow> rd m p \<noteq> Fault" "p + n \<le> length m \<Longrightarrow> rdn m p n \<noteq> Fault"
  "p + 2 \<le> length m \<Longrightarrow> wmqb_r_u16 m p \<noteq> Fault" "p + 4 \<le> length m \<Longrightarrow> wmqb_r_u32 m p \<noteq> Fault"
  "p + 8 \<le> length m \<Longrightarrow> wmqb_r_u64 m p \<noteq> Fault"
  using r_total [of p m] by (auto simp: rd_ok rdn_ok)

lemma copy_payload_no_fault [no_fault]: "p + unat n \<le> length m \<Longrightarrow> copy_payload malloc m p n \<noteq> Fault"
  by (simp add: copy_payload_def rdn_ok)

text \<open>The body of an accepted header lies inside the record.\<close>

lemma body_inside:
  assumes "wmqb_read_header m blen ns = Ok n" "unat blen \<le> length m"
  shows "12 + unat n \<le> length m \<and> 12 + unat n < 4294967296"
proof -
  have "unat n + 12 \<le> unat blen" "unat blen < 4294967296" using read_header_fits [OF assms(1)] unsigned_less [of blen, where ?'a = nat] by simp_all
  then show ?thesis using assms(2) by linarith
qed

lemma tried_if: "(c \<Longrightarrow> tried b x) \<Longrightarrow> (\<not> c \<Longrightarrow> tried b y) \<Longrightarrow> tried b (if c then x else y)"
  by simp

lemma tried_option: "(v = None \<Longrightarrow> tried b x) \<Longrightarrow> (\<And>y. v = Some y \<Longrightarrow> tried b (f y)) \<Longrightarrow> tried b (case v of None \<Rightarrow> x | Some y \<Rightarrow> f y)"
  by (cases v) simp_all

lemmas tried_intros = tried_or_code tried_bnd tried_if tried_option tried_simps(1) tried_simps(2) [THEN iffD2]

section \<open>The decoders\<close>

lemma retained_expired_safe:
  assumes "unat blen \<le> length m"
  shows "wmqb_retained_expired now m blen \<noteq> Fault"
proof (cases "wmqb_read_header m blen NS_RETAINED")
  case (Ok n)
  note b = body_inside [OF Ok assms]
  show ?thesis
  proof (cases "n < 16")
    case False
    then have "26 \<le> length m" using b by (simp add: word_less_nat_alt)
    then show ?thesis using Ok False r_total(3) [of 14 m] r_total(2) [of 22 m] by (auto simp: wmqb_retained_expired_def)
  qed (simp add: wmqb_retained_expired_def Ok)
qed (use read_header_no_fault [OF assms] in \<open>simp_all add: wmqb_retained_expired_def\<close>)

lemma retained_safe:
  assumes m: "unat blen \<le> length m"
  shows "kept b (wmqb_decode_and_insert_retained malloc now b m blen)"
  unfolding wmqb_decode_and_insert_retained_def Let_def
  by (intro tried_intros read_header_no_fault [OF m] retained_expired_safe [OF m] read_no_fault copy_payload_no_fault;
      drule body_inside [OF _ m]; elim conjE; simp add: u32_diff u32_diff_numeral del: of_nat_add of_nat_numeral u32_id)

lemma session_safe:
  assumes m: "unat blen \<le> length m"
  shows "kept b (wmqb_decode_and_insert_session malloc now b m blen)"
  unfolding wmqb_decode_and_insert_session_def Let_def
  by (intro tried_intros read_header_no_fault [OF m] read_no_fault; drule body_inside [OF _ m]; elim conjE; simp add: word_less_nat_alt u32_diff u32_diff_numeral del: of_nat_add of_nat_numeral u32_id)

lemma outq_safe:
  assumes m: "unat blen \<le> length m"
  shows "kept b (wmqb_decode_and_insert_outq malloc b key m blen)"
  unfolding wmqb_decode_and_insert_outq_def Let_def
  by (intro tried_intros read_header_no_fault [OF m] read_no_fault copy_payload_no_fault; drule body_inside [OF _ m]; elim conjE; simp add: word_less_nat_alt u32_diff u32_diff_numeral del: of_nat_add of_nat_numeral u32_id)

lemma subs_decode_safe:
  assumes "e \<le> length m" "e < 4294967296"
  shows "p \<le> e \<Longrightarrow> subs_decode malloc key m e i todo p local \<noteq> Fault"
proof (induction todo arbitrary: i p local)
  case (Suc todo)
  show ?case
  proof (cases "u32 (int e - int p) < 4")
    case False
    then have p: "p + 4 \<le> e" using Suc.prems assms(2) by (simp add: u32_diff del: u32_id)
    then obtain q fl where r: "rd m p = Ok q" "wmqb_r_u16 m (p + 2) = Ok fl"
      using r_total(1) [of "p + 2" m] assms(1) by (auto simp: rd_ok)
    have d: "u32 (int e - int (p + 4)) = e - (p + 4)" using p assms(2) by (intro u32_diff) simp_all
    show ?thesis
    proof (cases "e - (p + 4) < unat fl")
      case False
      then have "p + 4 + unat fl \<le> e" using p by simp
      then show ?thesis using False \<open>\<not> u32 (int e - int p) < 4\<close> r assms(1) Suc.IH by (simp add: d rdn_ok del: of_nat_add of_nat_numeral u32_id)
    qed (use \<open>\<not> u32 (int e - int p) < 4\<close> r d in \<open>simp del: of_nat_add of_nat_numeral u32_id\<close>)
  qed simp
qed simp

lemma subs_safe:
  assumes m: "unat blen \<le> length m"
  shows "kept b (wmqb_decode_and_insert_subs malloc b key m blen)"
  unfolding wmqb_decode_and_insert_subs_def Let_def
  by (intro tried_intros read_header_no_fault [OF m] read_no_fault subs_decode_safe; drule body_inside [OF _ m]; elim conjE;
      simp add: u32_diff u32_diff_numeral del: of_nat_add of_nat_numeral u32_id)

lemma session_key_safe:
  assumes m: "unat blen \<le> length m"
  shows "wmqb_session_key_is_client_id key m blen \<noteq> Fault"
proof (cases "wmqb_read_header m blen NS_SESSION")
  case (Ok n)
  note b = body_inside [OF Ok m]
  show ?thesis
  proof (cases "n < 16")
    case False
    then have n: "16 \<le> unat n" by (simp add: word_less_nat_alt)
    then obtain l where "wmqb_r_u16 m 26 = Ok l" using r_total(1) [of 26 m] b by auto
    then show ?thesis using b n Ok False by (auto simp: wmqb_session_key_is_client_id_def rdn_ok)
  qed (simp add: wmqb_session_key_is_client_id_def Ok)
qed (use read_header_no_fault [OF m] in \<open>simp_all add: wmqb_session_key_is_client_id_def\<close>)

section \<open>The passes\<close>

text \<open>A record is loaded, or it is skipped and the broker is as before.\<close>

definition counted :: "restore_ctx \<Rightarrow> restore_ctx outcome \<Rightarrow> bool" where
  "counted c r \<longleftrightarrow> (\<exists>c'. r = Ok c' \<and>
     (rc_loaded c' = rc_loaded c + 1 \<and> rc_skipped c' = rc_skipped c \<or>
      rc_loaded c' = rc_loaded c \<and> rc_skipped c' = rc_skipped c + 1 \<and> rc_broker c' = rc_broker c))"

definition restores :: "(nat \<Rightarrow> mem \<times> mem \<Rightarrow> restore_ctx \<Rightarrow> restore_ctx outcome) \<Rightarrow> nat \<Rightarrow> (mem \<times> mem) list \<Rightarrow> restore_ctx \<Rightarrow> bool" where
  "restores cb n rs c \<longleftrightarrow> (\<exists>c'. iter_all cb n rs c = Ok c' \<and> rc_loaded c \<le> rc_loaded c' \<and>
     rc_loaded c' + rc_skipped c' = rc_loaded c + rc_skipped c + int (length rs) \<and>
     (rc_loaded c' = rc_loaded c \<longrightarrow> rc_broker c' = rc_broker c))"

lemma counted_restores:
  assumes "\<And>i r c. counted c (cb i r c)"
  shows "restores cb n rs c"
proof (induction rs arbitrary: n c)
  case (Cons r rs n c)
  obtain c1 where c1: "cb n r c = Ok c1" "rc_loaded c1 = rc_loaded c + 1 \<and> rc_skipped c1 = rc_skipped c \<or>
      rc_loaded c1 = rc_loaded c \<and> rc_skipped c1 = rc_skipped c + 1 \<and> rc_broker c1 = rc_broker c"
    using assms [where i = n and r = r and c = c] unfolding counted_def by blast
  show ?case using Cons [of "Suc n" c1] c1 unfolding restores_def by auto
qed (simp add: restores_def)

lemma unat_length_le: "unat (word_of_nat (length m) :: word32) \<le> length m"
  by (simp add: unat_of_nat)

lemma kept_counted: "kept (rc_broker c) r \<Longrightarrow> counted c (count_result c r)"
  by (auto simp: kept_def count_result_def counted_def)

lemma session_counted: "counted c (wmqb_iter_session_cb malloc now node r c)"
proof -
  obtain key m where r: "r = (key, m)" by fastforce
  let ?n = "word_of_nat (length m) :: word32"
  obtain b rc where d: "wmqb_decode_and_insert_session malloc now (rc_broker c) m ?n = Ok (b, rc)" "rc \<noteq> 0 \<longrightarrow> b = rc_broker c"
    using session_safe [OF unat_length_le, of "rc_broker c" malloc now m] unfolding kept_def by blast
  have "\<exists>own. wmqb_session_key_is_client_id key m ?n = Ok own \<or> (\<exists>e. wmqb_session_key_is_client_id key m ?n = Err e)"
    using session_key_safe [OF unat_length_le, of key m] by (cases "wmqb_session_key_is_client_id key m ?n") auto
  moreover have "wmqb_session_key_is_client_id key m ?n \<noteq> Err e" for e
    by (auto simp: wmqb_session_key_is_client_id_def wmqb_r_u16_def rd_def rdn_def split: outcome.splits)
  ultimately obtain own where "wmqb_session_key_is_client_id key m ?n = Ok own" by blast
  then show ?thesis using d unfolding r by (auto simp: wmqb_iter_session_cb_def counted_def Let_def)
qed

text \<open>C11: The restore is safe on any contents of the backend.  Over every list of records, whatever their keys and bytes and
  whatever the allocator answers, the four passes of the restore (retained messages, sessions, subscriptions, outbound
  queues) stay inside the records and run to their end; every record is counted as loaded or as skipped, and when none
  is loaded the broker is unchanged.\<close>

theorem restore_safe:
  "restores (\<lambda>i. wmqb_iter_retained_cb (malloc i) (now i)) 0 rs c \<and>
   restores (\<lambda>i. wmqb_iter_session_cb (malloc i) (now i) (node i)) 0 rs c \<and>
   restores (\<lambda>i. wmqb_iter_subs_cb (malloc3 i)) 0 rs c \<and>
   restores (\<lambda>i. wmqb_iter_outq_cb (malloc i)) 0 rs c"
proof (intro conjI counted_restores)
  show "counted c (wmqb_iter_retained_cb (malloc i) (now i) r c)" for i r c
    by (cases r) (simp add: wmqb_iter_retained_cb_def kept_counted retained_safe unat_length_le)
  show "counted c (wmqb_iter_session_cb (malloc i) (now i) (node i) r c)" for i r c by (rule session_counted)
  show "counted c (wmqb_iter_subs_cb (malloc3 i) r c)" for i r c
    by (cases r) (simp add: wmqb_iter_subs_cb_def kept_counted subs_safe unat_length_le)
  show "counted c (wmqb_iter_outq_cb (malloc i) r c)" for i r c
    by (cases r) (simp add: wmqb_iter_outq_cb_def kept_counted outq_safe unat_length_le)
qed

end
