(* ===== verification/Spec2Isabelle.thy ===== *)
theory Spec2Isabelle
  imports Packet_Publish Packet_Resp Packet_Connack Packet_Control Packet_Subscribe Packet_Suback Connect_Decode Packet_IO Broker_Run Persist_Queue Persist_Safe
begin

text \<open>
  \<^bold>\<open>wolfMQTT\<close>

  A library for the MQTT protocol, versions 3.1.1 and 5.0, and a broker built on it.  This development models the packet
  layer, the socket layer and the core of the broker, from the C sources, and proves what makes them correct.

  \<^bold>\<open>The program.\<close>  \<^verbatim>\<open>src/mqtt_packet.c\<close> encodes and decodes packets in byte buffers.  \<^verbatim>\<open>src/mqtt_socket.c\<close> moves bytes
  through callbacks of the application and resumes partial transfers; \<^verbatim>\<open>MqttPacket_Read\<close> and \<^verbatim>\<open>MqttPacket_Write\<close> use it
  for whole packets.  \<^verbatim>\<open>src/mqtt_client.c\<close> is the client.  \<^verbatim>\<open>src/mqtt_broker.c\<close> is the broker: it decodes the packets of its
  clients, keeps subscriptions, retained messages, the QoS 2 state and an outbound queue for every client, distributes
  publications, and keeps the sessions of clients that are offline.  \<^verbatim>\<open>src/mqtt_broker_persist.c\<close> writes this state to a
  key-value store of the application and loads it when the broker starts.  The broker calls the packet layer, the packet
  layer the socket layer, and that the callbacks.

  \<^bold>\<open>The build.\<close>  \<^verbatim>\<open>WOLFMQTT_V5\<close> is on, with the property pool of 30 cells, at most 12 topics in a SUBSCRIBE packet and
  the default limits of the broker: 16 unacknowledged and 48 queued messages for a subscriber, 8 subscriptions for a
  client, 16 unreleased QoS 2 identifiers, 16 retained messages, 64 offline sessions with 32 messages each.  The broker
  has dynamic memory, retained messages and wildcards, and neither TLS nor WebSockets.  Persistence, without
  encryption, is modelled beside the handlers, which are those of the build without it; the table of QoS 2 identifiers is
  modelled for static memory too.  \<^verbatim>\<open>WOLFMQTT_NONBLOCK\<close> is the argument \<open>nb\<close>, so both settings are covered.  \<^verbatim>\<open>int\<close> has 32
  bits.

  \<^bold>\<open>How C becomes HOL.\<close>  A buffer is a list of bytes, a position in it a number; integers are words of their width, and
  where the C code computes in \<^verbatim>\<open>int\<close> the conversions are written out.  A call has the type \<open>'a outcome\<close>: \<open>Ok\<close> with what
  it returns and writes, \<open>Err\<close> with an error code, \<open>Fault\<close> for an access outside an object.  Functions that return either
  a length or one of several codes to a caller that compares them return \<open>int\<close>, with \<open>err_code\<close> for the codes.  Decoders
  that write through a pointer before they fail return the written structure beside the outcome.  A pointer that may be
  \<^verbatim>\<open>NULL\<close> is an option.  Properties live in one store of cells, their links are indices; other linked lists are lists.
  Code that is not in the repository is an argument: the transport callbacks act on a world \<open>'w\<close> about which nothing is
  known (where a theorem speaks of bytes on the wire, that the write callback keeps a log of what it takes, \<open>logs\<close>), the clock gives numbers, and every call of the allocator has its own answer.

  \<^bold>\<open>Theories: the packet layer.\<close>

  \<^item> \<open>Mqtt_Prelude\<close>: integers, buffers, error codes, \<open>outcome\<close>, and the laws of buffer accesses.
  \<^item> \<open>Wire_Format\<close>: the interface \<open>wire_format\<close> of a primitive encoder with its decoder; round trip, exactness and unique
    decoding are proved once in it.  \<open>Mqtt_Vbi\<close> (\<^verbatim>\<open>MqttEncode_Vbi\<close>, \<^verbatim>\<open>MqttDecode_Vbi\<close>) and \<open>Mqtt_Wire\<close> (two and four byte
    integers, strings, binary data) interpret it.
  \<^item> \<open>Mqtt_Utf8\<close>: \<^verbatim>\<open>Utf8WellFormed\<close> decides UTF-8.  \<open>Mqtt_Topic\<close>: the checks of topic names, filters and shared
    subscriptions decide the rules of the standard.  \<open>Mqtt_Header\<close>: the fixed header and the tables of reason codes.
  \<^item> \<open>Prop_Pool\<close>: \<^verbatim>\<open>MqttProps_Add\<close> and \<^verbatim>\<open>MqttProps_Free\<close> on the pool, with the interface \<open>prop_alloc\<close>.  \<open>Props_Codec\<close>:
    \<^verbatim>\<open>MqttEncode_Props\<close>, \<^verbatim>\<open>MqttDecode_Props\<close> and the table of allowed properties.
  \<^item> \<open>Packet_Common\<close>, \<open>Packet_Codec\<close>: what packets share, and the interface \<open>packet_codec\<close>: the encoder writes the packet of
    the standard or refuses, the decoder stays inside its buffer, gives back every property cell when it fails, and reads
    what the encoder writes.  It is interpreted by \<open>Packet_Resp\<close> (PUBACK, PUBREC, PUBREL, PUBCOMP), \<open>Packet_Connack\<close>,
    \<open>Packet_Subscribe\<close>, \<open>Packet_Suback\<close> (UNSUBACK), \<open>Packet_Control\<close> (DISCONNECT, AUTH) and \<open>Connect_Decode\<close> (with the
    definitions of \<open>Packet_Connect\<close>).  \<open>Packet_Publish\<close> proves the same laws for PUBLISH, whose payload may be sent in parts.
  \<^item> \<open>Mqtt_Socket\<close>: \<^verbatim>\<open>MqttSocket_*\<close>.  \<open>Packet_IO\<close>: \<^verbatim>\<open>MqttPacket_Read\<close>, a state machine that a partial transfer leaves and the
    next call enters again, keeps its invariant for any transport and puts every packet together; \<^verbatim>\<open>MqttPacket_Write\<close>
    sends each byte once.

  \<^bold>\<open>Theories: the broker.\<close>

  \<^item> \<open>Broker_State\<close>: the structures of \<^verbatim>\<open>wolfmqtt/mqtt_broker.h\<close>, walks along lists, and the rules \<open>returns\<close> for what holds
    whenever a call returns.  \<open>Broker_Topic\<close>: \<^verbatim>\<open>BrokerTopicMatch\<close> against the matching rule of the standard.
  \<^item> \<open>Broker_Qos2\<close>: \<^verbatim>\<open>BrokerInboundQos2_*\<close> in both memory builds, with the interface \<open>pending_ids\<close>; each is a bounded set, and
    a QoS 2 publication is accepted once until it is released.
  \<^item> \<open>Broker_Queue\<close>: \<^verbatim>\<open>BrokerOutPub_*\<close>, \<^verbatim>\<open>BrokerProps_Clone\<close>, \<^verbatim>\<open>BrokerClient_DrainOutQueue\<close>, the acknowledgements and the packet
    identifiers; the queue is a state machine \<open>queue_step\<close> with its invariant.  \<open>Broker_Delivery\<close>: the transport as a log
    of the bytes it has taken; a drain puts exactly the packets of a front part of the queue on the wire, in order, and a
    publication that does not fit the buffer is sent short.
    \<open>Broker_Send\<close>: PINGRESP, SUBACK, DISCONNECT; the client decodes the SUBACK of the broker to the same codes.
  \<^item> \<open>Broker_Refine\<close>: the interface \<open>table_spec\<close>, a table whose operations refine an abstract value, for sequences of
    operations.  \<open>Broker_Retained\<close> (\<^verbatim>\<open>BrokerRetained_*\<close>, a map from topics to messages) and \<open>Broker_Subs\<close> (\<^verbatim>\<open>BrokerSubs_*\<close>, a
    map from client and filter to QoS) interpret it.
  \<^item> \<open>Broker_Session\<close>: \<^verbatim>\<open>BrokerOrphan_*\<close>; a session survives the connection.
  \<^item> \<open>Broker_Handlers\<close> and \<open>Broker_Publish\<close>: \<^verbatim>\<open>BrokerHandle_PublishRel\<close>, \<^verbatim>\<open>BrokerHandle_PublishRec\<close>, \<^verbatim>\<open>BrokerHandle_Subscribe\<close>,
    \<^verbatim>\<open>BrokerHandle_Unsubscribe\<close>, \<^verbatim>\<open>BrokerHandle_Publish\<close> and \<^verbatim>\<open>BrokerFanout_*\<close>, composed of all of the above.
  \<^item> \<open>Broker_Machine\<close> and \<open>Broker_Run\<close>: the broker as a state machine \<open>broker_step\<close> whose steps are the handlers, drains,
    and clients that come and go.  Its invariant joins those of the components; a publication reaches exactly the
    subscribers; a duplicate changes nothing and is answered with its PUBREC.

  \<^bold>\<open>Theories: persistence.\<close>

  \<^item> \<open>Persist_Record\<close>: integers and headers of records, \<^verbatim>\<open>BrokerPersist_Put*\<close> and \<^verbatim>\<open>BrokerPersist_Del*\<close> over the hooks of the
    backend.  \<open>Persist_Restore\<close>: \<^verbatim>\<open>wmqb_decode_and_insert_*\<close> and the callbacks of the restore, and that each decoder reads
    what the writer of its record stores.
  \<^item> \<open>Persist_Queue\<close>: the loop of \<^verbatim>\<open>BrokerOrphan_Take\<close> that stores a queue; with a backend that keeps what it is given, the
    queue is the same after a restart, whatever the order of the records.  \<open>Persist_Safe\<close>: the restore on records of any
    content.

  \<^bold>\<open>Bounds.\<close>  Loops of the C code are structural recursion, recursion with a measure, or recursion with a bound.  A walk
  along properties is bounded by the number of cells, which a list without a cycle does not exceed; \<open>props_encode_returns\<close>
  shows that the encoder returns on cycles too.  The search for a packet identifier stops after 65535 candidates, all
  there are, and \<open>next_packet_id_fresh\<close> shows that it finds one while the queue is shorter.  The eviction and the expiry
  of sessions drop a carrier in every turn, so their number bounds the turns.  The repeated calls of \<open>packet_read_returns\<close>
  and \<open>packet_write_returns\<close> are bounded by the pieces in which the transport works, and both theorems state that the
  result is reached.  The theorems about the broker with \<open>returns\<close> or an assumption of the form \<open>f x = Ok y\<close> speak about
  calls that return; the refinement theorems of the tables state that the calls do return.

  \<^bold>\<open>Not modelled.\<close>  The client interface of \<^verbatim>\<open>mqtt_client.c\<close> (waiting for responses, multithreading) and its message
  callbacks; of the broker the CONNECT handler, authentication, the Will with its delay, listeners, TLS, WebSockets, the
  main loop and the static memory variants other than the QoS 2 table; of its persistence the encryption, the META record,
  the wipe on a schema mismatch, the clean-up of ended sessions and the backend for POSIX files; MQTT-SN; the libcurl and wolfIP transports; examples, bindings and tests.
  In the modelled parts, logging is left out, as are \<^verbatim>\<open>WOLFMQTT_MULTITHREAD\<close> and \<^verbatim>\<open>WOLFMQTT_DYN_PROP\<close>.  The memory of list
  nodes is not modelled, only whether an allocation succeeds; the connected clients are a total function of handles, so a
  subscription that points to a client that was freed cannot be expressed.
\<close>

end
